(* ===== verification/Prelude.thy ===== *)
theory Prelude
  imports Main "HOL-Library.Word"
begin

text \<open>
  Shared vocabulary of the development: the machine types of the C code, the value of a byte
  string read in either byte order, memory copies on byte lists, and the allocator the C
  library provides.  Everything here is about lists and words; nothing models a source function.

  Bytes are \<open>8 word\<close>, the fixed width C integers are words of their width, and \<open>size_t\<close>
  (64 bits on every platform the application is built for) is a \<open>nat\<close> whose wrap-around is
  written out with \<open>size_wrap\<close> where the code relies on it.
\<close>

unbundle bit_operations_syntax

type_synonym byte = "8 word"
type_synonym u16 = "16 word"
type_synonym u32 = "32 word"
type_synonym u64 = "64 word"

named_theorems bytes_simps \<open>evaluation of byte strings and their values\<close>
named_theorems mem_simps \<open>memory blocks as byte lists\<close>

definition size_wrap :: "nat \<Rightarrow> nat" where
  "size_wrap n = n mod 2 ^ 64"

lemma size_wrap_small [simp]: "n < 2 ^ 64 \<Longrightarrow> size_wrap n = n"
  by (simp add: size_wrap_def)

lemma size_wrap_le: "size_wrap n \<le> n"
  by (simp add: size_wrap_def)

lemma size_wrap_less [simp]: "size_wrap n < 18446744073709551616"
  by (simp add: size_wrap_def)

text \<open>The usual overflow test: a wrapped sum below one of its operands.\<close>

lemma size_wrap_no_overflow:
  assumes "a < 2 ^ 64" and "b < 2 ^ 64" and "\<not> size_wrap (a + b) < a"
  shows "size_wrap (a + b) = a + b"
proof (rule ccontr)
  assume "size_wrap (a + b) \<noteq> a + b"
  then have ge: "2 ^ 64 \<le> a + b" by (cases "a + b < 2 ^ 64") simp_all
  moreover have "a + b < 2 ^ 64 + 2 ^ 64" using assms(1,2) by linarith
  ultimately have "size_wrap (a + b) = a + b - 2 ^ 64"
    by (simp add: size_wrap_def le_mod_geq)
  with assms ge show False by linarith
qed

text \<open>The conversion \<open>(uint8_t)n\<close>.\<close>

definition byte_of :: "nat \<Rightarrow> byte" where
  "byte_of n = word_of_nat n"

lemma unat_byte_of [simp]: "unat (byte_of n) = n mod 256"
  by (simp add: byte_of_def unat_of_nat)

lemma byte_of_unat [simp]: "byte_of (unat b) = b"
  by (simp add: byte_of_def)

lemma unat_byte_less [simp]: "unat (b :: byte) < 256"
  by (rule order_less_le_trans [OF unsigned_less]) simp

lemma unat_u32_less: "unat (w :: u32) < 4294967296"
  by (rule order_less_le_trans [OF unsigned_less]) simp

lemma unat_u64_less: "unat (w :: u64) < 18446744073709551616"
  by (rule order_less_le_trans [OF unsigned_less]) simp

lemma byte_div_32 [simp]: "unat (b :: byte) div 32 < 8"
  by (rule less_mult_imp_div_less) simp

lemma byte_eq_iff: "(a :: byte) = b \<longleftrightarrow> unat a = unat b"
  by (rule word_unat_eq_iff)

section \<open>Values of byte strings\<close>

fun be_val :: "byte list \<Rightarrow> nat" where
  "be_val [] = 0"
| "be_val (b # bs) = unat b * 256 ^ length bs + be_val bs"

fun be_bytes :: "nat \<Rightarrow> nat \<Rightarrow> byte list" where
  "be_bytes 0 v = []"
| "be_bytes (Suc n) v = be_bytes n (v div 256) @ [byte_of v]"

lemma be_bytes_numeral [bytes_simps]:
  "be_bytes (numeral k) v = be_bytes (pred_numeral k) (v div 256) @ [byte_of v]"
  by (simp only: numeral_eq_Suc [of k] be_bytes.simps)

definition le_bytes :: "nat \<Rightarrow> nat \<Rightarrow> byte list" where
  "le_bytes n v = rev (be_bytes n v)"

lemma length_be_bytes [simp]: "length (be_bytes n v) = n"
  by (induction n arbitrary: v) auto

lemma length_le_bytes [simp]: "length (le_bytes n v) = n"
  by (simp add: le_bytes_def)

lemma be_val_append: "be_val (xs @ ys) = be_val xs * 256 ^ length ys + be_val ys"
  by (induction xs) (simp_all add: algebra_simps power_add)

lemma be_val_Cons: "be_val (b # bs) = unat b * 256 ^ length bs + be_val bs"
  using be_val_append [of "[b]" bs] by simp

lemma be_val_snoc [simp]: "be_val (bs @ [b]) = 256 * be_val bs + unat b"
  by (simp add: be_val_append)

lemma be_val_less: "be_val bs < 256 ^ length bs"
proof (induction bs rule: rev_induct)
  case Nil
  show ?case by simp
next
  case (snoc b bs)
  have "256 * be_val bs + 256 \<le> 256 * 256 ^ length bs"
    using snoc.IH by (metis Suc_leI mult_Suc_right mult_le_mono2 add.commute)
  with unat_byte_less [of b] have "256 * be_val bs + unat b < 256 * 256 ^ length bs"
    by linarith
  then show ?case by simp
qed

lemma be_val_be_bytes: "be_val (be_bytes n v) = v mod 256 ^ n"
proof (induction n arbitrary: v)
  case 0
  show ?case by simp
next
  case (Suc n)
  have "v mod (256 * 256 ^ n) = 256 * (v div 256 mod 256 ^ n) + v mod 256"
    by (rule mod_mult2_eq)
  with Suc.IH [of "v div 256"] show ?case by simp
qed

lemma be_val_be_bytes_id: "v < 256 ^ n \<Longrightarrow> be_val (be_bytes n v) = v"
  by (simp add: be_val_be_bytes)

lemma be_bytes_be_val: "be_bytes (length bs) (be_val bs) = bs"
proof (induction bs rule: rev_induct)
  case Nil
  show ?case by simp
next
  case (snoc b bs)
  have "(256 * be_val bs + unat b) div 256 = be_val bs"
    using unat_byte_less [of b] by simp
  moreover have "byte_of (256 * be_val bs + unat b) = b"
    using unat_byte_less [of b] by (simp add: byte_eq_iff)
  ultimately show ?case using snoc.IH by simp
qed

lemma be_val_inj: "be_val xs = be_val ys \<Longrightarrow> length xs = length ys \<Longrightarrow> xs = ys"
  by (metis be_bytes_be_val)

lemma le_val_le_bytes: "v < 256 ^ n \<Longrightarrow> be_val (rev (le_bytes n v)) = v"
  by (simp add: le_bytes_def be_val_be_bytes_id)

section \<open>Shifting bytes into a word\<close>

lemma shift_in_eq_plus:
  fixes r :: "'a::len word"
  assumes "k \<le> n" and "x < 2 ^ k"
  shows "push_bit n r OR word_of_nat x = push_bit n r + word_of_nat x"
proof (rule disjunctive_add_eq_or [symmetric], rule bit_word_eqI)
  fix i
  have "\<not> bit x i" if "k \<le> i"
  proof -
    have "x < 2 ^ i"
      using assms(2) that by (metis less_le_trans one_le_numeral power_increasing)
    then show ?thesis by (simp add: bit_iff_odd)
  qed
  with assms(1) show "bit (push_bit n r AND word_of_nat x) i \<longleftrightarrow> bit (0 :: 'a word) i"
    by (auto simp: bit_simps)
qed

lemma unat_shift_in:
  fixes r :: "'a::len word"
  assumes "x < 2 ^ n"
  shows "unat (push_bit n r OR word_of_nat x) = (unat r * 2 ^ n + x) mod 2 ^ LENGTH('a)"
proof -
  have "push_bit n r OR word_of_nat x = word_of_nat (unat r * 2 ^ n + x)"
    using shift_in_eq_plus [of n n x r] assms by (simp add: push_bit_eq_mult)
  then show ?thesis by (simp only: unat_of_nat)
qed

lemma shift_in_byte:
  "push_bit 8 r OR ucast (b :: byte) = (word_of_nat (unat r * 256 + unat b) :: 'a::len word)"
proof -
  have "(ucast b :: 'a word) = word_of_nat (unat b)"
    by simp
  then show ?thesis
    using shift_in_eq_plus [of 8 8 "unat b" r] unat_byte_less [of b]
    by (simp add: push_bit_eq_mult)
qed

lemma ucast_word_of_nat:
  "LENGTH('b) \<le> LENGTH('a) \<Longrightarrow>
     ucast (word_of_nat n :: 'a::len word) = (word_of_nat n :: 'b::len word)"
  by (rule bit_word_eqI) (auto simp: bit_simps)

lemma word_of_nat_unat: "word_of_nat (unat w) = (w :: 'a::len word)"
  by simp

lemma word_of_nat_eqI: "unat w = n \<Longrightarrow> w = word_of_nat n"
  by auto

lemma unat_word_of_nat_id: "n < 2 ^ LENGTH('a) \<Longrightarrow> unat (word_of_nat n :: 'a::len word) = n"
  by (simp add: unsigned_of_nat take_bit_nat_eq_self_iff)

lemma unat_ucast_up:
  "LENGTH('a) \<le> LENGTH('b) \<Longrightarrow> unat (ucast (w :: 'a::len word) :: 'b::len word) = unat w"
  by (simp add: unsigned_ucast_eq take_bit_nat_eq_self_iff order_less_le_trans [OF unsigned_less])

lemma unat_ucast_byte [simp]:
  "unat (ucast (b :: byte) :: u16) = unat b"
  "unat (ucast (b :: byte) :: u32) = unat b"
  "unat (ucast (b :: byte) :: u64) = unat b"
  by (simp_all add: unat_ucast_up)

lemma rev_upt_Suc: "rev [0..<Suc n] = map Suc (rev [0..<n]) @ [0]"
  by (simp add: rev_map [symmetric] map_Suc_upt upt_conv_Cons)

section \<open>Bit tests and fields of words\<close>

lemma unat_drop_bit: "unat (drop_bit n (w :: 'a::len word)) = unat w div 2 ^ n"
  by (simp only: unat_drop_bit_eq drop_bit_eq_div [where 'a = nat])

lemma unat_and_mask: "unat ((w :: 'a::len word) AND mask n) = unat w mod 2 ^ n"
  by (simp only: take_bit_eq_mask [symmetric] unsigned_take_bit_eq take_bit_eq_mod [where 'a = nat])

lemma drop_bit_eq_0_iff: "drop_bit n (w :: 'a::len word) = 0 \<longleftrightarrow> unat w < 2 ^ n"
proof -
  have "drop_bit n w = 0 \<longleftrightarrow> unat w div 2 ^ n = 0"
    by (simp only: unat_drop_bit [symmetric] unat_0_iff)
  then show ?thesis by (simp add: div_eq_0_iff)
qed

lemma unat_ucast_mask:
  "n \<le> LENGTH('b) \<Longrightarrow> unat (ucast ((w :: 'a::len word) AND mask n) :: 'b::len word) = unat w mod 2 ^ n"
proof -
  assume "n \<le> LENGTH('b)"
  have "unat (ucast (w AND mask n) :: 'b word) = take_bit LENGTH('b) (unat (w AND mask n))"
    by (simp only: unsigned_ucast_eq)
  also have "\<dots> = (unat w mod 2 ^ n) mod 2 ^ LENGTH('b)" by (simp only: unat_and_mask take_bit_eq_mod)
  also have "\<dots> = unat w mod 2 ^ n"
    using \<open>n \<le> LENGTH('b)\<close> by (intro mod_less) (meson mod_less_divisor order_less_le_trans
        one_le_numeral power_increasing zero_less_numeral zero_less_power)
  finally show ?thesis .
qed

lemma byte_or_0x80: "m < 128 \<Longrightarrow> byte_of m OR 0x80 = byte_of (128 + m)"
  using shift_in_eq_plus [of 7 7 m "1 :: byte"] by (simp add: byte_of_def or.commute)

lemma unat_and_0x7f [simp]: "unat ((b :: byte) AND 0x7f) = unat b mod 128"
  using unat_and_mask [of b 7] by (simp add: mask_eq_exp_minus_1)

lemma unat_and_0x1f [simp]: "unat ((b :: byte) AND 0x1f) = unat b mod 32"
  using unat_and_mask [of b 5] by (simp add: mask_eq_exp_minus_1)

lemma byte_high_bit: "(b :: byte) AND 0x80 = 0 \<longleftrightarrow> unat b < 128"
proof -
  have "b AND 0x80 = 0 \<longleftrightarrow> \<not> bit b 7"
    using and_exp_eq_0_iff_not_bit [of b 7] by simp
  also have "\<dots> \<longleftrightarrow> \<not> bit (unat b) 7" by (simp add: bit_unsigned_iff)
  also have "\<dots> \<longleftrightarrow> even (unat b div 128)" by (simp add: bit_iff_odd)
  also have "\<dots> \<longleftrightarrow> unat b < 128"
  proof -
    have "unat b div 128 < 2" using unat_byte_less [of b] by linarith
    then show ?thesis by (auto simp: less_2_cases_iff)
  qed
  finally show ?thesis .
qed

lemma and_0xe0:
  fixes w :: "'a::len word"
  assumes "8 \<le> LENGTH('a)"
  shows "w AND 0xe0 = push_bit 5 (take_bit 3 (drop_bit 5 w))"
proof -
  have "mask (3 + 5) AND NOT (mask 5) = (0xe0 :: 'a word)"
    by (simp add: mask_eq_exp_minus_1)
  then show ?thesis by (simp only: slice_eq_mask and.assoc)
qed

lemma ucast_eq_word_of_nat: "ucast (w :: 'a::len word) = (word_of_nat (unat w) :: 'b::len word)"
  by simp

section \<open>Lists\<close>

lemma append_eq_take:
  assumes "xs @ ys = zs @ ws" and "length xs = length zs + n"
  shows "xs = zs @ take n ws" and "n \<le> length ws"
proof -
  have "xs = take (length xs) (zs @ ws)" using assms(1) by (metis append_eq_conv_conj)
  then show "xs = zs @ take n ws" using assms(2) by simp
  with assms show "n \<le> length ws" by (metis add_left_cancel length_append length_take min.absorb_iff2)
qed

section \<open>Memory blocks\<close>

definition mem_write :: "nat \<Rightarrow> byte list \<Rightarrow> byte list \<Rightarrow> byte list" where
  "mem_write i bs buf = take i buf @ bs @ drop (i + length bs) buf"

lemma length_mem_write [simp]:
  "i + length bs \<le> length buf \<Longrightarrow> length (mem_write i bs buf) = length buf"
  by (simp add: mem_write_def)

lemma take_mem_write [mem_simps]:
  "i + length bs \<le> length buf \<Longrightarrow> take (i + length bs) (mem_write i bs buf) = take i buf @ bs"
  by (simp add: mem_write_def)

lemma take_mem_write_before [mem_simps]:
  "n \<le> i \<Longrightarrow> i \<le> length buf \<Longrightarrow> take n (mem_write i bs buf) = take n buf"
  by (simp add: mem_write_def min_def)

lemma drop_mem_write_after:
  "i + length bs \<le> n \<Longrightarrow> i \<le> length buf \<Longrightarrow> drop n (mem_write i bs buf) = drop n buf"
  by (simp add: mem_write_def drop_append add.commute)

lemma mem_write_Nil [simp]: "mem_write i [] buf = buf"
  by (simp add: mem_write_def)

text \<open>
  \<open>malloc\<close> and \<open>realloc\<close> belong to the C library.  The model takes them as a parameter: asked
  for a number of bytes, an allocator refuses or hands over a block of that many bytes of
  unknown contents.
\<close>

type_synonym allocator = "nat \<Rightarrow> byte list option"

definition good_alloc :: "allocator \<Rightarrow> bool" where
  "good_alloc al \<longleftrightarrow> (\<forall>n blk. al n = Some blk \<longrightarrow> length blk = n)"

definition realloc_block :: "allocator \<Rightarrow> byte list \<Rightarrow> nat \<Rightarrow> byte list option" where
  "realloc_block al old n =
     (case al n of None \<Rightarrow> None
      | Some blk \<Rightarrow> Some (take n old @ drop (length old) blk))"

lemma good_allocD: "good_alloc al \<Longrightarrow> al n = Some blk \<Longrightarrow> length blk = n"
  by (simp add: good_alloc_def)

lemma realloc_block_SomeD:
  assumes "good_alloc al" and "realloc_block al old n = Some new" and "length old \<le> n"
  shows "length new = n" and "take (length old) new = old"
  using assms by (auto simp: realloc_block_def dest: good_allocD split: option.splits)

text \<open>An allocator that never refuses, for concrete runs.\<close>

definition zero_alloc :: allocator where
  "zero_alloc n = Some (replicate n 0)"

lemma good_zero_alloc [simp]: "good_alloc zero_alloc"
  by (simp add: good_alloc_def zero_alloc_def)

end
