(* ===== verification/Codec.thy ===== *)
theory Codec
  imports Prelude
begin

text \<open>
  The contract between the readers and the writers of the byte formats.  A reader works on some
  stream state; the state has an invariant and shows the bytes still to be read.  A reader
  implements a relation between values and their encodings when it accepts exactly the encodings,
  leaves what follows them, and keeps the invariant.  The lemmas here follow from that contract
  alone: determinism, unambiguity, the meaning of a failure, and reading a sequence of values.
  The readers of \<open>cbs.c\<close> and of \<open>pb_decode.c\<close> are instances.
\<close>

fun read_many :: "('s \<Rightarrow> 'a option \<times> 's) \<Rightarrow> nat \<Rightarrow> 's \<Rightarrow> 'a list option \<times> 's" where
  "read_many get 0 s = (Some [], s)"
| "read_many get (Suc n) s =
     (case get s of
        (None, s1) \<Rightarrow> (None, s1)
      | (Some a, s1) \<Rightarrow>
          (case read_many get n s1 of
             (None, s2) \<Rightarrow> (None, s2)
           | (Some as, s2) \<Rightarrow> (Some (a # as), s2)))"

locale prefix_decoder =
  fixes mk :: "byte list \<Rightarrow> 's"
    and bytes :: "'s \<Rightarrow> byte list"
    and ok :: "'s \<Rightarrow> bool"
    and get :: "'s \<Rightarrow> 'a option \<times> 's"
    and enc :: "'a \<Rightarrow> byte list \<Rightarrow> bool"
  assumes bytes_mk: "bytes (mk b) = b"
    and ok_mk: "ok (mk b)"
    and get_sound: "\<lbrakk>ok s; get s = (Some a, s')\<rbrakk> \<Longrightarrow>
          ok s' \<and> (\<exists>bs. enc a bs \<and> bytes s = bs @ bytes s')"
    and get_complete: "\<lbrakk>ok s; enc a bs; bytes s = bs @ rest\<rbrakk> \<Longrightarrow>
          \<exists>s'. get s = (Some a, s') \<and> bytes s' = rest \<and> ok s'"
begin

lemma enc_unambiguous:
  assumes "enc a bs" and "enc a' bs'" and "bs @ r = bs' @ r'"
  shows "a = a' \<and> bs = bs'"
proof -
  obtain s1 where 1: "get (mk (bs @ r)) = (Some a, s1)" "bytes s1 = r"
    using get_complete [OF ok_mk assms(1) bytes_mk] by blast
  obtain s2 where 2: "get (mk (bs @ r)) = (Some a', s2)" "bytes s2 = r'"
    using get_complete [OF ok_mk assms(2)] bytes_mk assms(3) by metis
  from 1 2 have "a = a'" and "r = r'" by auto
  with assms(3) show ?thesis by simp
qed

lemma enc_deterministic: "enc a bs \<Longrightarrow> enc a' bs \<Longrightarrow> a = a'"
  using enc_unambiguous [of a bs a' bs "[]" "[]"] by simp

lemma get_None_iff:
  assumes "ok s"
  shows "fst (get s) = None \<longleftrightarrow> \<not> (\<exists>a bs rest. enc a bs \<and> bytes s = bs @ rest)"
proof (cases "get s")
  case (Pair r s')
  show ?thesis
  proof (cases r)
    case None
    with Pair show ?thesis using get_complete [OF assms] by fastforce
  next
    case (Some a)
    with Pair show ?thesis using get_sound [OF assms] by fastforce
  qed
qed

lemma get_shrinks:
  "\<lbrakk>ok s; get s = (Some a, s')\<rbrakk> \<Longrightarrow> length (bytes s') \<le> length (bytes s)"
  using get_sound by fastforce

lemma read_many_complete:
  assumes "ok s" and "list_all2 enc as bss" and "bytes s = concat bss @ rest"
  shows "\<exists>s'. read_many get (length as) s = (Some as, s') \<and> bytes s' = rest \<and> ok s'"
  using assms(2,1,3)
proof (induction arbitrary: s rule: list_all2_induct)
  case Nil
  then show ?case by simp
next
  case (Cons a as bs bss)
  then have "bytes s = bs @ (concat bss @ rest)" by simp
  from get_complete [OF Cons.prems(1) Cons.hyps(1) this] obtain s1
    where s1: "get s = (Some a, s1)" "bytes s1 = concat bss @ rest" "ok s1" by blast
  from Cons.IH [OF s1(3,2)] s1(1) show ?case by auto
qed

lemma read_many_sound:
  assumes "ok s" and "read_many get n s = (Some as, s')"
  shows "ok s' \<and> length as = n \<and> (\<exists>bss. list_all2 enc as bss \<and> bytes s = concat bss @ bytes s')"
  using assms
proof (induction n arbitrary: s as)
  case 0
  then show ?case by auto
next
  case (Suc n)
  from Suc.prems(2) obtain a s1 as' where
    1: "get s = (Some a, s1)" "read_many get n s1 = (Some as', s')" "as = a # as'"
    by (auto split: prod.splits option.splits)
  from get_sound [OF Suc.prems(1) 1(1)] obtain bs where
    2: "ok s1" "enc a bs" "bytes s = bs @ bytes s1" by blast
  from Suc.IH [OF 2(1) 1(2)] obtain bss where
    3: "ok s'" "length as' = n" "list_all2 enc as' bss" "bytes s1 = concat bss @ bytes s'" by blast
  have "list_all2 enc as (bs # bss) \<and> bytes s = concat (bs # bss) @ bytes s'"
    using 1(3) 2 3 by simp
  with 1(3) 3 show ?case by (metis length_Cons)
qed

end

text \<open>A codec whose encoding is a function: every value has at most one encoding.\<close>

locale canonical_codec = prefix_decoder +
  fixes valid :: "'b \<Rightarrow> bool"
    and put :: "'b \<Rightarrow> byte list"
  assumes enc_put: "enc a bs \<longleftrightarrow> valid a \<and> bs = put a"
begin

lemma round_trip:
  "\<lbrakk>ok s; valid a; bytes s = put a @ rest\<rbrakk> \<Longrightarrow>
     \<exists>s'. get s = (Some a, s') \<and> bytes s' = rest \<and> ok s'"
  using get_complete enc_put by blast

lemma canonical:
  "\<lbrakk>ok s; get s = (Some a, s')\<rbrakk> \<Longrightarrow> valid a \<and> bytes s = put a @ bytes s' \<and> ok s'"
  using get_sound enc_put by metis

lemma put_inj: "\<lbrakk>valid a; valid a'; put a = put a'\<rbrakk> \<Longrightarrow> a = a'"
  using enc_deterministic enc_put by metis

lemma put_prefix_free:
  "\<lbrakk>valid a; valid a'; put a @ r = put a' @ r'\<rbrakk> \<Longrightarrow> a = a' \<and> r = r'"
  using enc_unambiguous [of a "put a" a' "put a'" r r'] by (simp add: enc_put)

end

end
