(* ===== verification/Cbs.thy ===== *)
theory Cbs
  imports Codec
begin

text \<open>
  The byte string reader of \<open>crypto/bytestring/cbs.c\<close>: the \<open>CBS\<close> structure and its fixed width
  and length prefixed readers.  A \<open>CBS\<close> is a pointer and a length; the model keeps the bytes from
  the pointer onwards and the length, so that moving the pointer and shortening the length are
  separate effects, as in the code.  Every reader returns the value it stores through its output
  parameter (\<open>None\<close> for the return value 0) and the \<open>CBS\<close> it leaves behind, also when it fails.
\<close>

record cbs =
  cbs_data :: "byte list"
  cbs_len :: nat

text \<open>What the structure promises: the length never exceeds the memory behind the pointer.\<close>

definition cbs_ok :: "cbs \<Rightarrow> bool" where
  "cbs_ok c \<longleftrightarrow> cbs_len c \<le> length (cbs_data c)"

definition cbs_bytes :: "cbs \<Rightarrow> byte list" where
  "cbs_bytes c = take (cbs_len c) (cbs_data c)"

definition cbs_advance :: "nat \<Rightarrow> cbs \<Rightarrow> cbs" where
  "cbs_advance n c = c\<lparr>cbs_data := drop n (cbs_data c), cbs_len := cbs_len c - n\<rparr>"

section \<open>Operations\<close>

definition CBS_init :: "byte list \<Rightarrow> nat \<Rightarrow> cbs" where
  "CBS_init data len = \<lparr>cbs_data = data, cbs_len = len\<rparr>"

definition cbs_get :: "nat \<Rightarrow> cbs \<Rightarrow> byte list option \<times> cbs" where
  "cbs_get n c =
     (if cbs_len c < n then (None, c)
      else (Some (cbs_data c), c\<lparr>cbs_data := drop n (cbs_data c), cbs_len := cbs_len c - n\<rparr>))"

definition CBS_skip :: "nat \<Rightarrow> cbs \<Rightarrow> bool \<times> cbs" where
  "CBS_skip n c = (case cbs_get n c of (None, c1) \<Rightarrow> (False, c1) | (Some _, c1) \<Rightarrow> (True, c1))"

definition CBS_data :: "cbs \<Rightarrow> byte list" where
  "CBS_data c = cbs_data c"

definition CBS_len :: "cbs \<Rightarrow> nat" where
  "CBS_len c = cbs_len c"

text \<open>
  \<open>OPENSSL_memdup\<close> and \<open>OPENSSL_strndup\<close> of \<open>crypto/mem.c\<close>.  The copy ends at the first
  zero byte for the second.
\<close>

definition OPENSSL_memdup :: "allocator \<Rightarrow> byte list \<Rightarrow> nat \<Rightarrow> byte list option" where
  "OPENSSL_memdup al data n =
     (if n = 0 then None
      else (case al n of None \<Rightarrow> None
            | Some ret \<Rightarrow> Some (mem_write 0 (take n data) ret)))"

fun OPENSSL_strnlen :: "byte list \<Rightarrow> nat \<Rightarrow> nat" where
  "OPENSSL_strnlen s 0 = 0"
| "OPENSSL_strnlen [] (Suc n) = 0"
| "OPENSSL_strnlen (b # s) (Suc n) = (if b = 0 then 0 else Suc (OPENSSL_strnlen s n))"

definition OPENSSL_strndup :: "allocator \<Rightarrow> byte list \<Rightarrow> nat \<Rightarrow> byte list option" where
  "OPENSSL_strndup al str n =
     (let sz = OPENSSL_strnlen str n;
          alloc_size = size_wrap (sz + 1)
      in if alloc_size < sz then None
         else (case al alloc_size of None \<Rightarrow> None
               | Some ret \<Rightarrow> Some ((mem_write 0 (take sz str) ret)[sz := 0])))"

text \<open>
  \<open>CBS_stow\<close> returns the success flag, the new \<open>*out_ptr\<close> (\<open>None\<close> for \<open>NULL\<close>; the old block is
  freed in any case) and the new \<open>*out_len\<close>.
\<close>

definition CBS_stow :: "allocator \<Rightarrow> cbs \<Rightarrow> bool \<times> byte list option \<times> nat" where
  "CBS_stow al c =
     (if cbs_len c = 0 then (True, None, 0)
      else (case OPENSSL_memdup al (cbs_data c) (cbs_len c) of
              None \<Rightarrow> (False, None, 0)
            | Some p \<Rightarrow> (True, Some p, cbs_len c)))"

definition CBS_strdup :: "allocator \<Rightarrow> cbs \<Rightarrow> bool \<times> byte list option" where
  "CBS_strdup al c =
     (let out = OPENSSL_strndup al (cbs_data c) (cbs_len c) in (out \<noteq> None, out))"

text \<open>\<open>memchr\<close>: the offset of the first byte equal to \<open>c\<close> among the first \<open>n\<close>.\<close>

fun mem_chr :: "byte list \<Rightarrow> byte \<Rightarrow> nat \<Rightarrow> nat option" where
  "mem_chr s c 0 = None"
| "mem_chr [] c (Suc n) = None"
| "mem_chr (b # s) c (Suc n) = (if b = c then Some 0 else map_option Suc (mem_chr s c n))"

definition CBS_contains_zero_byte :: "cbs \<Rightarrow> bool" where
  "CBS_contains_zero_byte c \<longleftrightarrow> mem_chr (cbs_data c) 0 (cbs_len c) \<noteq> None"

definition CBS_mem_equal :: "cbs \<Rightarrow> byte list \<Rightarrow> nat \<Rightarrow> bool" where
  "CBS_mem_equal c data len =
     (if len \<noteq> cbs_len c then False else take len (cbs_data c) = take len data)"

definition cbs_get_u :: "nat \<Rightarrow> cbs \<Rightarrow> u64 option \<times> cbs" where
  "cbs_get_u len c =
     (case cbs_get len c of
        (None, c1) \<Rightarrow> (None, c1)
      | (Some data, c1) \<Rightarrow>
          (Some (foldl (\<lambda>result i. push_bit 8 result OR ucast (data ! i)) 0 [0..<len]), c1))"

definition CBS_get_u8 :: "cbs \<Rightarrow> byte option \<times> cbs" where
  "CBS_get_u8 c =
     (case cbs_get 1 c of (None, c1) \<Rightarrow> (None, c1) | (Some v, c1) \<Rightarrow> (Some (v ! 0), c1))"

definition CBS_get_u16 :: "cbs \<Rightarrow> u16 option \<times> cbs" where
  "CBS_get_u16 c =
     (case cbs_get_u 2 c of (None, c1) \<Rightarrow> (None, c1) | (Some v, c1) \<Rightarrow> (Some (ucast v), c1))"

text \<open>
  The byte swaps of \<open>crypto/internal.h\<close>, in the branch for the compilers the application is
  built with: the compiler's built-in, which returns its argument with the bytes reversed.
\<close>

definition CRYPTO_bswap2 :: "u16 \<Rightarrow> u16" where
  "CRYPTO_bswap2 x = word_of_nat (be_val (rev (be_bytes 2 (unat x))))"

definition CRYPTO_bswap4 :: "u32 \<Rightarrow> u32" where
  "CRYPTO_bswap4 x = word_of_nat (be_val (rev (be_bytes 4 (unat x))))"

definition CRYPTO_bswap8 :: "u64 \<Rightarrow> u64" where
  "CRYPTO_bswap8 x = word_of_nat (be_val (rev (be_bytes 8 (unat x))))"

definition CBS_get_u16le :: "cbs \<Rightarrow> u16 option \<times> cbs" where
  "CBS_get_u16le c =
     (case CBS_get_u16 c of (None, c1) \<Rightarrow> (None, c1) | (Some v, c1) \<Rightarrow> (Some (CRYPTO_bswap2 v), c1))"

definition CBS_get_u24 :: "cbs \<Rightarrow> u32 option \<times> cbs" where
  "CBS_get_u24 c =
     (case cbs_get_u 3 c of (None, c1) \<Rightarrow> (None, c1) | (Some v, c1) \<Rightarrow> (Some (ucast v), c1))"

definition CBS_get_u32 :: "cbs \<Rightarrow> u32 option \<times> cbs" where
  "CBS_get_u32 c =
     (case cbs_get_u 4 c of (None, c1) \<Rightarrow> (None, c1) | (Some v, c1) \<Rightarrow> (Some (ucast v), c1))"

definition CBS_get_u32le :: "cbs \<Rightarrow> u32 option \<times> cbs" where
  "CBS_get_u32le c =
     (case CBS_get_u32 c of (None, c1) \<Rightarrow> (None, c1) | (Some v, c1) \<Rightarrow> (Some (CRYPTO_bswap4 v), c1))"

definition CBS_get_u64 :: "cbs \<Rightarrow> u64 option \<times> cbs" where
  "CBS_get_u64 c = cbs_get_u 8 c"

definition CBS_get_u64le :: "cbs \<Rightarrow> u64 option \<times> cbs" where
  "CBS_get_u64le c =
     (case cbs_get_u 8 c of (None, c1) \<Rightarrow> (None, c1) | (Some v, c1) \<Rightarrow> (Some (CRYPTO_bswap8 v), c1))"

definition CBS_get_last_u8 :: "cbs \<Rightarrow> byte option \<times> cbs" where
  "CBS_get_last_u8 c =
     (if cbs_len c = 0 then (None, c)
      else (Some (cbs_data c ! (cbs_len c - 1)), c\<lparr>cbs_len := cbs_len c - 1\<rparr>))"

definition CBS_get_bytes :: "nat \<Rightarrow> cbs \<Rightarrow> cbs option \<times> cbs" where
  "CBS_get_bytes len c =
     (case cbs_get len c of (None, c1) \<Rightarrow> (None, c1) | (Some v, c1) \<Rightarrow> (Some (CBS_init v len), c1))"

text \<open>\<open>CBS_copy_bytes\<close> fills the caller's buffer \<open>out\<close>, which keeps its contents on failure.\<close>

definition CBS_copy_bytes :: "nat \<Rightarrow> byte list \<Rightarrow> cbs \<Rightarrow> (bool \<times> byte list) \<times> cbs" where
  "CBS_copy_bytes len out c =
     (case cbs_get len c of
        (None, c1) \<Rightarrow> ((False, out), c1)
      | (Some v, c1) \<Rightarrow> ((True, mem_write 0 (take len v) out), c1))"

definition cbs_get_length_prefixed :: "nat \<Rightarrow> cbs \<Rightarrow> cbs option \<times> cbs" where
  "cbs_get_length_prefixed len_len c =
     (case cbs_get_u len_len c of
        (None, c1) \<Rightarrow> (None, c1)
      | (Some len, c1) \<Rightarrow> CBS_get_bytes (unat len) c1)"

definition CBS_get_u8_length_prefixed :: "cbs \<Rightarrow> cbs option \<times> cbs" where
  "CBS_get_u8_length_prefixed c = cbs_get_length_prefixed 1 c"

definition CBS_get_u16_length_prefixed :: "cbs \<Rightarrow> cbs option \<times> cbs" where
  "CBS_get_u16_length_prefixed c = cbs_get_length_prefixed 2 c"

definition CBS_get_u24_length_prefixed :: "cbs \<Rightarrow> cbs option \<times> cbs" where
  "CBS_get_u24_length_prefixed c = cbs_get_length_prefixed 3 c"

definition CBS_get_until_first :: "byte \<Rightarrow> cbs \<Rightarrow> cbs option \<times> cbs" where
  "CBS_get_until_first x c =
     (case mem_chr (CBS_data c) x (CBS_len c) of
        None \<Rightarrow> (None, c)
      | Some split \<Rightarrow> CBS_get_bytes split c)"

section \<open>The invariant and the bytes still to read\<close>

lemma cbs_ok_init [simp]: "cbs_ok (CBS_init b (length b))"
  by (simp add: cbs_ok_def CBS_init_def)

lemma cbs_bytes_init [simp]: "cbs_bytes (CBS_init b n) = take n b"
  by (simp add: cbs_bytes_def CBS_init_def)

lemma cbs_data_init [simp]: "cbs_data (CBS_init b n) = b"
  and cbs_len_init [simp]: "cbs_len (CBS_init b n) = n"
  by (simp_all add: CBS_init_def)

lemma length_cbs_bytes [simp]: "cbs_ok c \<Longrightarrow> length (cbs_bytes c) = cbs_len c"
  by (simp add: cbs_bytes_def cbs_ok_def)

lemma cbs_advance_0 [simp]: "cbs_advance 0 c = c"
  by (simp add: cbs_advance_def)

lemma cbs_advance_advance [simp]: "cbs_advance m (cbs_advance n c) = cbs_advance (n + m) c"
  by (simp add: cbs_advance_def add.commute)

lemma cbs_ok_advance [simp]: "cbs_ok c \<Longrightarrow> cbs_ok (cbs_advance n c)"
  by (auto simp: cbs_ok_def cbs_advance_def)

lemma cbs_len_advance [simp]: "cbs_len (cbs_advance n c) = cbs_len c - n"
  by (simp add: cbs_advance_def)

lemma cbs_data_advance [simp]: "cbs_data (cbs_advance n c) = drop n (cbs_data c)"
  by (simp add: cbs_advance_def)

lemma cbs_bytes_advance [simp]: "cbs_bytes (cbs_advance n c) = drop n (cbs_bytes c)"
  by (simp add: cbs_bytes_def cbs_advance_def drop_take)

lemma cbs_get_eq:
  "cbs_get n c =
     (if cbs_len c < n then (None, c) else (Some (cbs_data c), cbs_advance n c))"
  by (simp add: cbs_get_def cbs_advance_def)

lemma take_cbs_data: "n \<le> cbs_len c \<Longrightarrow> take n (cbs_data c) = take n (cbs_bytes c)"
  by (simp add: cbs_bytes_def min_def)

lemma CBS_skip_eq:
  "CBS_skip n c = (if cbs_len c < n then (False, c) else (True, cbs_advance n c))"
  by (simp add: CBS_skip_def cbs_get_eq)

lemma CBS_get_bytes_eq:
  "CBS_get_bytes n c =
     (if cbs_len c < n then (None, c) else (Some (CBS_init (cbs_data c) n), cbs_advance n c))"
  by (simp add: CBS_get_bytes_def cbs_get_eq)

section \<open>The value loop\<close>

lemma foldl_shift_bytes:
  "foldl (\<lambda>r b. push_bit 8 r OR ucast b) 0 bs = (word_of_nat (be_val bs) :: 'a::len word)"
proof (induction bs rule: rev_induct)
  case Nil
  show ?case by simp
next
  case (snoc b bs)
  then show ?case by (simp add: shift_in_byte mult.commute)
qed

lemma foldl_nth_upt:
  "n \<le> length xs \<Longrightarrow> foldl (\<lambda>a i. f a (xs ! i)) s [0..<n] = foldl f s (take n xs)"
  by (induction n) (simp_all add: take_Suc_conv_app_nth)

lemma cbs_get_u_eq:
  assumes "cbs_ok c"
  shows "cbs_get_u n c =
     (if cbs_len c < n then (None, c)
      else (Some (word_of_nat (be_val (take n (cbs_bytes c)))), cbs_advance n c))"
proof (cases "cbs_len c < n")
  case True
  then show ?thesis by (simp add: cbs_get_u_def cbs_get_eq)
next
  case False
  with assms have "n \<le> length (cbs_data c)" by (simp add: cbs_ok_def)
  then have "foldl (\<lambda>r i. push_bit 8 r OR ucast (cbs_data c ! i)) 0 [0..<n]
      = (word_of_nat (be_val (take n (cbs_data c))) :: u64)"
    by (simp only: foldl_nth_upt [where f = "\<lambda>r b. push_bit 8 r OR ucast b"] foldl_shift_bytes)
  with False show ?thesis by (simp add: cbs_get_u_def cbs_get_eq take_cbs_data)
qed

text \<open>What the byte swaps do to a value read from bytes.\<close>

lemma be_val_less_pow: "length bs \<le> n \<Longrightarrow> be_val bs < 256 ^ n"
  by (rule order_less_le_trans [OF be_val_less]) (simp add: power_increasing)

lemma unat_word_be_val:
  "8 * length bs \<le> LENGTH('a) \<Longrightarrow> unat (word_of_nat (be_val bs) :: 'a::len word) = be_val bs"
proof -
  assume a: "8 * length bs \<le> LENGTH('a)"
  have "be_val bs < 2 ^ (8 * length bs)"
    using be_val_less [of bs] by (simp add: power_mult)
  also have "\<dots> \<le> 2 ^ LENGTH('a)" using a by simp
  finally show ?thesis by (simp add: unat_of_nat)
qed

lemma be_bytes_unat_be_val:
  "8 * length bs \<le> LENGTH('a) \<Longrightarrow>
     be_bytes (length bs) (unat (word_of_nat (be_val bs) :: 'a::len word)) = bs"
  by (simp add: unat_word_be_val be_bytes_be_val)

lemma be_val_bytes_unat:
  "8 * n = LENGTH('a) \<Longrightarrow> word_of_nat (be_val (be_bytes n (unat x))) = (x :: 'a::len word)"
proof -
  assume a: "8 * n = LENGTH('a)"
  have "(256 :: nat) ^ n = 2 ^ (8 * n)" by (simp add: power_mult)
  then have "unat x < 256 ^ n" using unsigned_less [of x] a by simp
  then show ?thesis by (simp add: be_val_be_bytes_id)
qed

lemma bswap2_bytes:
  "length bs = 2 \<Longrightarrow> CRYPTO_bswap2 (word_of_nat (be_val bs)) = word_of_nat (be_val (rev bs))"
  using be_bytes_unat_be_val [of bs, where 'a = 16] by (simp add: CRYPTO_bswap2_def)

lemma bswap4_bytes:
  "length bs = 4 \<Longrightarrow> CRYPTO_bswap4 (word_of_nat (be_val bs)) = word_of_nat (be_val (rev bs))"
  using be_bytes_unat_be_val [of bs, where 'a = 32] by (simp add: CRYPTO_bswap4_def)

lemma bswap8_bytes:
  "length bs = 8 \<Longrightarrow> CRYPTO_bswap8 (word_of_nat (be_val bs)) = word_of_nat (be_val (rev bs))"
  using be_bytes_unat_be_val [of bs, where 'a = 64] by (simp add: CRYPTO_bswap8_def)

section \<open>Fixed width readers\<close>

text \<open>
  The contract of a fixed width reader: it takes exactly \<open>width\<close> bytes, or none when there are
  fewer.  Every such reader is a canonical codec.
\<close>

locale fixed_reader =
  fixes get :: "cbs \<Rightarrow> 'a option \<times> cbs"
    and width :: nat
    and valid :: "'a \<Rightarrow> bool"
    and encode :: "'a \<Rightarrow> byte list"
    and decode :: "byte list \<Rightarrow> 'a"
  assumes get_eq: "cbs_ok c \<Longrightarrow> get c =
      (if cbs_len c < width then (None, c)
       else (Some (decode (take width (cbs_bytes c))), cbs_advance width c))"
    and length_encode: "valid a \<Longrightarrow> length (encode a) = width"
    and decode_encode: "valid a \<Longrightarrow> decode (encode a) = a"
    and decode_valid: "length bs = width \<Longrightarrow> valid (decode bs) \<and> encode (decode bs) = bs"
begin

lemma get_short: "\<lbrakk>cbs_ok c; cbs_len c < width\<rbrakk> \<Longrightarrow> get c = (None, c)"
  by (simp add: get_eq)

lemma get_long: "\<lbrakk>cbs_ok c; width \<le> cbs_len c\<rbrakk> \<Longrightarrow>
    get c = (Some (decode (take width (cbs_bytes c))), cbs_advance width c)"
  by (simp add: get_eq)

lemma get_ok: "\<lbrakk>cbs_ok c; get c = (r, c')\<rbrakk> \<Longrightarrow> cbs_ok c'"
  by (auto simp: get_eq split: if_splits)

lemma get_failure_frame: "\<lbrakk>cbs_ok c; get c = (None, c')\<rbrakk> \<Longrightarrow> c' = c \<and> cbs_len c < width"
  by (auto simp: get_eq split: if_splits)

end

sublocale fixed_reader \<subseteq> canonical_codec "\<lambda>b. CBS_init b (length b)" cbs_bytes cbs_ok get
  "\<lambda>a bs. valid a \<and> bs = encode a" valid encode
proof (unfold_locales, goal_cases)
  case (3 s a s')
  then have l: "width \<le> cbs_len s" and a: "a = decode (take width (cbs_bytes s))"
    and s': "s' = cbs_advance width s"
    by (auto simp: get_eq split: if_splits)
  have "length (take width (cbs_bytes s)) = width" using 3(1) l by simp
  from decode_valid [OF this] show ?case using 3(1) a s' by (metis append_take_drop_id
        cbs_bytes_advance cbs_ok_advance)
next
  case (4 s a bs rest)
  then have "length bs = width" by (simp add: length_encode)
  moreover from this 4 have "width \<le> cbs_len s"
    by (metis length_append length_cbs_bytes le_add1)
  ultimately show ?case using 4 by (simp add: get_long decode_encode)
qed simp_all

lemma CBS_get_u8_eq:
  "cbs_ok c \<Longrightarrow> CBS_get_u8 c =
     (if cbs_len c < 1 then (None, c)
      else (Some (word_of_nat (be_val (take 1 (cbs_bytes c)))), cbs_advance 1 c))"
proof (cases "cbs_len c")
  case (Suc n)
  moreover assume "cbs_ok c"
  ultimately obtain b bs where "cbs_data c = b # bs"
    by (cases "cbs_data c") (auto simp: cbs_ok_def)
  with Suc show ?thesis by (simp add: CBS_get_u8_def cbs_get_eq cbs_bytes_def)
qed (simp add: CBS_get_u8_def cbs_get_eq)

lemmas fixed_reader_defs =
  CBS_get_u16_def CBS_get_u16le_def CBS_get_u24_def CBS_get_u32_def CBS_get_u32le_def
  CBS_get_u64_def CBS_get_u64le_def

text \<open>Readers of a whole word, in either byte order.\<close>

lemma fixed_reader_be:
  fixes get :: "cbs \<Rightarrow> 'a::len word option \<times> cbs"
  assumes "8 * n = LENGTH('a)"
    and "\<And>c. cbs_ok c \<Longrightarrow> get c =
      (if cbs_len c < n then (None, c)
       else (Some (word_of_nat (be_val (take n (cbs_bytes c)))), cbs_advance n c))"
  shows "fixed_reader get n (\<lambda>_. True) (\<lambda>a. be_bytes n (unat a)) (\<lambda>bs. word_of_nat (be_val bs))"
proof
  fix bs :: "byte list"
  assume "length bs = n"
  with be_bytes_unat_be_val [of bs, where 'a = 'a] assms(1)
  show "True \<and> be_bytes n (unat (word_of_nat (be_val bs) :: 'a word)) = bs" by simp
qed (use assms be_val_bytes_unat [of n, where 'a = 'a] in simp_all)

lemma fixed_reader_le:
  fixes get :: "cbs \<Rightarrow> 'a::len word option \<times> cbs"
  assumes "8 * n = LENGTH('a)"
    and "\<And>c. cbs_ok c \<Longrightarrow> get c =
      (if cbs_len c < n then (None, c)
       else (Some (word_of_nat (be_val (rev (take n (cbs_bytes c))))), cbs_advance n c))"
  shows "fixed_reader get n (\<lambda>_. True) (\<lambda>a. le_bytes n (unat a))
           (\<lambda>bs. word_of_nat (be_val (rev bs)))"
proof
  fix bs :: "byte list"
  assume "length bs = n"
  with be_bytes_unat_be_val [of "rev bs", where 'a = 'a] assms(1)
  show "True \<and> le_bytes n (unat (word_of_nat (be_val (rev bs)) :: 'a word)) = bs"
    by (simp add: le_bytes_def)
qed (use assms be_val_bytes_unat [of n, where 'a = 'a] in \<open>simp_all add: le_bytes_def\<close>)

interpretation get_u8: fixed_reader CBS_get_u8 1 "\<lambda>_. True" "\<lambda>a. be_bytes 1 (unat a)"
  "\<lambda>bs. word_of_nat (be_val bs)"
  by (rule fixed_reader_be) (simp_all only: CBS_get_u8_eq, simp)

interpretation get_u16: fixed_reader CBS_get_u16 2 "\<lambda>_. True" "\<lambda>a. be_bytes 2 (unat a)"
  "\<lambda>bs. word_of_nat (be_val bs)"
  by (rule fixed_reader_be) (simp_all add: fixed_reader_defs cbs_get_u_eq ucast_word_of_nat)

interpretation get_u32: fixed_reader CBS_get_u32 4 "\<lambda>_. True" "\<lambda>a. be_bytes 4 (unat a)"
  "\<lambda>bs. word_of_nat (be_val bs)"
  by (rule fixed_reader_be) (simp_all add: fixed_reader_defs cbs_get_u_eq ucast_word_of_nat)

interpretation get_u64: fixed_reader CBS_get_u64 8 "\<lambda>_. True" "\<lambda>a. be_bytes 8 (unat a)"
  "\<lambda>bs. word_of_nat (be_val bs)"
  by (rule fixed_reader_be) (simp_all add: fixed_reader_defs cbs_get_u_eq)

interpretation get_u16le: fixed_reader CBS_get_u16le 2 "\<lambda>_. True" "\<lambda>a. le_bytes 2 (unat a)"
  "\<lambda>bs. word_of_nat (be_val (rev bs))"
  by (rule fixed_reader_le)
    (simp_all add: fixed_reader_defs cbs_get_u_eq ucast_word_of_nat bswap2_bytes)

interpretation get_u32le: fixed_reader CBS_get_u32le 4 "\<lambda>_. True" "\<lambda>a. le_bytes 4 (unat a)"
  "\<lambda>bs. word_of_nat (be_val (rev bs))"
  by (rule fixed_reader_le)
    (simp_all add: fixed_reader_defs cbs_get_u_eq ucast_word_of_nat bswap4_bytes)

interpretation get_u64le: fixed_reader CBS_get_u64le 8 "\<lambda>_. True" "\<lambda>a. le_bytes 8 (unat a)"
  "\<lambda>bs. word_of_nat (be_val (rev bs))"
  by (rule fixed_reader_le) (simp_all add: fixed_reader_defs cbs_get_u_eq bswap8_bytes)

text \<open>\<open>CBS_get_u24\<close> stores into 32 bits: its values are those below \<open>2\<^sup>2\<^sup>4\<close>.\<close>

interpretation get_u24: fixed_reader CBS_get_u24 3 "\<lambda>a. unat a < 2 ^ 24" "\<lambda>a. be_bytes 3 (unat a)"
  "\<lambda>bs. word_of_nat (be_val bs)"
proof
  fix bs :: "byte list"
  assume l: "length bs = 3"
  then show "unat (word_of_nat (be_val bs) :: u32) < 2 ^ 24 \<and>
      be_bytes 3 (unat (word_of_nat (be_val bs) :: u32)) = bs"
    using be_bytes_unat_be_val [of bs, where 'a = 32] unat_word_be_val [of bs, where 'a = 32]
      be_val_less [of bs] by simp
qed (simp_all add: fixed_reader_defs cbs_get_u_eq ucast_word_of_nat be_val_be_bytes)

section \<open>One byte at a time\<close>

lemma CBS_get_u8_Nil: "\<lbrakk>cbs_ok c; cbs_bytes c = []\<rbrakk> \<Longrightarrow> CBS_get_u8 c = (None, c)"
  using length_cbs_bytes [of c] by (simp add: CBS_get_u8_eq)

lemma CBS_get_u8_Cons:
  "\<lbrakk>cbs_ok c; cbs_bytes c = b # bs\<rbrakk> \<Longrightarrow> CBS_get_u8 c = (Some b, cbs_advance 1 c)"
  using length_cbs_bytes [of c] by (simp add: CBS_get_u8_eq)

lemma CBS_get_u8_SomeD:
  assumes "cbs_ok c" and "CBS_get_u8 c = (Some b, c1)"
  shows "cbs_bytes c = b # cbs_bytes c1 \<and> cbs_ok c1"
  using assms by (cases "cbs_bytes c") (auto simp: CBS_get_u8_Nil CBS_get_u8_Cons)

lemma CBS_get_bytes_Some:
  assumes "cbs_ok c" and "CBS_get_bytes n c = (Some out, c1)"
  shows "cbs_ok out \<and> cbs_ok c1 \<and> cbs_len out = n \<and>
    cbs_bytes c = cbs_bytes out @ cbs_bytes c1"
proof -
  from assms(2) have n: "n \<le> cbs_len c" and out: "out = CBS_init (cbs_data c) n"
    and c1: "c1 = cbs_advance n c" by (auto simp: CBS_get_bytes_eq split: if_splits)
  have "cbs_ok out" using assms(1) n out by (simp add: cbs_ok_def)
  moreover have "cbs_bytes c = cbs_bytes out @ cbs_bytes c1"
    using n out c1 by (simp add: take_cbs_data)
  ultimately show ?thesis using assms(1) out c1 by simp
qed

lemma CBS_get_bytes_append:
  assumes "cbs_ok c" and "cbs_bytes c = bs @ rest"
  shows "\<exists>out c1. CBS_get_bytes (length bs) c = (Some out, c1) \<and> cbs_ok out \<and> cbs_ok c1 \<and>
    cbs_bytes out = bs \<and> cbs_bytes c1 = rest"
proof -
  have "length bs \<le> cbs_len c" using assms length_cbs_bytes [of c] by simp
  then obtain out c1 where g: "CBS_get_bytes (length bs) c = (Some out, c1)"
    by (auto simp: CBS_get_bytes_eq)
  with CBS_get_bytes_Some [OF assms(1) g] assms(2) show ?thesis
    by (metis append_eq_append_conv length_cbs_bytes)
qed

text \<open>The length prefixed readers return exactly the announced bytes.\<close>

lemma cbs_get_length_prefixed_append:
  assumes "cbs_ok c" and "k \<le> 8" and "length body < 256 ^ k"
    and "cbs_bytes c = be_bytes k (length body) @ body @ rest"
  shows "\<exists>out c1. cbs_get_length_prefixed k c = (Some out, c1) \<and> cbs_ok out \<and> cbs_ok c1 \<and>
    cbs_bytes out = body \<and> cbs_bytes c1 = rest"
proof -
  have k: "k \<le> cbs_len c" using assms(1,4) length_cbs_bytes [of c] by simp
  have "unat (word_of_nat (be_val (be_bytes k (length body))) :: u64) = length body"
    using assms(2,3) by (subst unat_word_be_val) (simp_all add: be_val_be_bytes_id)
  with assms k have "cbs_get_length_prefixed k c = CBS_get_bytes (length body) (cbs_advance k c)"
    by (simp add: cbs_get_length_prefixed_def cbs_get_u_eq)
  with CBS_get_bytes_append [of "cbs_advance k c" body rest] assms show ?thesis by simp
qed

lemma cbs_get_length_prefixed_Some:
  assumes "cbs_ok c" and "k \<le> 8" and "cbs_get_length_prefixed k c = (Some out, c1)"
  shows "cbs_ok out \<and> cbs_ok c1 \<and>
    cbs_bytes c = be_bytes k (cbs_len out) @ cbs_bytes out @ cbs_bytes c1 \<and> cbs_len out < 256 ^ k"
proof -
  let ?p = "take k (cbs_bytes c)"
  from assms(1,3) have k: "k \<le> cbs_len c"
    by (auto simp: cbs_get_length_prefixed_def cbs_get_u_eq split: if_splits)
  then have lp: "length ?p = k" using assms(1) by simp
  then have u: "unat (word_of_nat (be_val ?p) :: u64) = be_val ?p"
    using assms(2) by (intro unat_word_be_val) simp
  from assms(1,3) k u have "CBS_get_bytes (be_val ?p) (cbs_advance k c) = (Some out, c1)"
    by (simp add: cbs_get_length_prefixed_def cbs_get_u_eq)
  from CBS_get_bytes_Some [OF _ this] assms(1)
  have o: "cbs_ok out" "cbs_ok c1" "cbs_len out = be_val ?p"
    "drop k (cbs_bytes c) = cbs_bytes out @ cbs_bytes c1" by simp_all
  moreover have "?p = be_bytes k (be_val ?p)" using be_bytes_be_val [of ?p] lp by simp
  ultimately show ?thesis using be_val_less [of ?p] lp by (metis append_take_drop_id)
qed

text \<open>\<open>memchr\<close> and the readers built on it.\<close>

lemma mem_chr_None: "n \<le> length s \<Longrightarrow> mem_chr s x n = None \<longleftrightarrow> x \<notin> set (take n s)"
  by (induction s x n rule: mem_chr.induct) auto

lemma mem_chr_Some:
  "mem_chr s x n = Some i \<Longrightarrow> i < n \<and> i < length s \<and> s ! i = x \<and> x \<notin> set (take i s)"
  by (induction s x n arbitrary: i rule: mem_chr.induct) (auto split: if_splits)

lemma CBS_contains_zero_byte_iff: "cbs_ok c \<Longrightarrow> CBS_contains_zero_byte c \<longleftrightarrow> 0 \<in> set (cbs_bytes c)"
  by (simp add: CBS_contains_zero_byte_def mem_chr_None cbs_ok_def cbs_bytes_def)

end
