(* ===== verification/Der_Spec.thy ===== *)
theory Der_Spec
  imports Prelude
begin

text \<open>
  The abstract specification of DER that the reader and the builder are both proved against:
  base 128 integers, identifiers, definite lengths and whole elements, each as a function from
  the value to its one permitted encoding.  Nothing here models a source function.
\<close>

section \<open>Base 128 integers\<close>

text \<open>\<open>b128_cont v\<close>: the groups of \<open>v\<close>, all with the continuation bit; none for \<open>0\<close>.\<close>

fun b128_cont :: "nat \<Rightarrow> byte list" where
  "b128_cont v = (if v = 0 then [] else b128_cont (v div 128) @ [byte_of (128 + v mod 128)])"

declare b128_cont.simps [simp del]

definition base128 :: "nat \<Rightarrow> byte list" where
  "base128 v = b128_cont (v div 128) @ [byte_of (v mod 128)]"

text \<open>
  The same encodings, described by their bytes: all but the last byte carry the continuation bit,
  and a first byte \<open>0x80\<close> (a leading zero group) is not allowed.  \<open>z\<close> says that no group has been
  seen yet.
\<close>

fun b128_ok :: "bool \<Rightarrow> byte list \<Rightarrow> bool" where
  "b128_ok z [] = False"
| "b128_ok z (b # bs) =
     (\<not> (z \<and> b = 0x80) \<and> (if b AND 0x80 \<noteq> 0 then b128_ok False bs else bs = []))"

fun b128_val :: "nat \<Rightarrow> byte list \<Rightarrow> nat" where
  "b128_val v [] = v"
| "b128_val v (b # bs) = b128_val (128 * v + unat b mod 128) bs"

lemma b128_cont_0 [simp]: "b128_cont 0 = []"
  by (simp add: b128_cont.simps)

lemma byte_mod_high: "128 \<le> unat (b :: byte) \<Longrightarrow> unat b mod 128 = unat b - 128"
proof -
  assume "128 \<le> unat b"
  moreover have "unat b - 128 < 128" using unat_byte_less [of b] by linarith
  ultimately show ?thesis by (simp add: le_mod_geq)
qed

lemma byte_cont: "128 \<le> unat (b :: byte) \<Longrightarrow> byte_of (128 + unat b mod 128) = b"
proof -
  assume "128 \<le> unat b"
  then have "128 + unat b mod 128 = unat b" by (simp add: byte_mod_high)
  then show ?thesis by simp
qed

lemma b128_cont_step:
  assumes "128 \<le> unat (b :: byte)" and "v \<noteq> 0 \<or> b \<noteq> 0x80"
  shows "b128_cont (128 * v + unat b mod 128) = b128_cont v @ [b]"
proof -
  have "128 * v + unat b mod 128 \<noteq> 0"
  proof (cases "v = 0")
    case True
    with assms(2) have "unat b \<noteq> 128" by (simp add: byte_eq_iff)
    with assms(1) have "unat b mod 128 \<noteq> 0" by (simp add: byte_mod_high)
    then show ?thesis by simp
  qed simp
  moreover have "(128 * v + unat b mod 128) mod 128 = unat b mod 128"
    and "(128 * v + unat b mod 128) div 128 = v"
    by (simp_all add: mod_mult_self4 div_mult_self4)
  ultimately show ?thesis
    using byte_cont [OF assms(1)] by (simp add: b128_cont.simps [of "128 * v + unat b mod 128"])
qed

lemma base128_last:
  assumes "unat (b :: byte) < 128"
  shows "base128 (128 * v + unat b) = b128_cont v @ [b]"
  using assms by (simp add: base128_def)

lemma base128_of_ok:
  "b128_ok (v = 0) bs \<Longrightarrow> b128_cont v @ bs = base128 (b128_val v bs)"
proof (induction bs arbitrary: v)
  case Nil
  then show ?case by simp
next
  case (Cons b bs)
  show ?case
  proof (cases "unat b < 128")
    case True
    with Cons.prems have "bs = []" by (simp add: byte_high_bit split: if_splits)
    with True show ?thesis by (simp add: base128_last)
  next
    case False
    with Cons.prems have ne: "v \<noteq> 0 \<or> b \<noteq> 0x80" and ok: "b128_ok False bs"
      by (auto simp: byte_high_bit split: if_splits)
    have step: "b128_cont (128 * v + unat b mod 128) = b128_cont v @ [b]"
      using b128_cont_step [OF _ ne] False by simp
    then have "128 * v + unat b mod 128 \<noteq> 0" by (metis b128_cont_0 append_is_Nil_conv list.distinct(1))
    with ok have "b128_ok (128 * v + unat b mod 128 = 0) bs" by (simp only: simp_thms)
    from Cons.IH [OF this] step show ?thesis by simp
  qed
qed

lemma b128_ok_append:
  "b128_ok z (bs @ [b]) \<longleftrightarrow>
     (\<forall>x\<in>set bs. 128 \<le> unat x) \<and> unat b < 128 \<and> (z \<and> bs \<noteq> [] \<longrightarrow> hd bs \<noteq> 0x80)"
  by (induction bs arbitrary: z) (auto simp: byte_high_bit not_less)

lemma b128_cont_high: "\<forall>x\<in>set (b128_cont v). 128 \<le> unat x"
  by (induction v rule: b128_cont.induct) (subst b128_cont.simps, auto)

lemma hd_b128_cont: "v \<noteq> 0 \<Longrightarrow> hd (b128_cont v) \<noteq> 0x80"
proof (induction v rule: b128_cont.induct)
  case (1 v)
  show ?case
  proof (cases "v div 128 = 0")
    case True
    with 1(2) have "v mod 128 \<noteq> 0" by (metis div_mult_mod_eq mult_zero_left add_0)
    then have "byte_of (128 + v mod 128) \<noteq> 0x80" by (simp add: byte_eq_iff)
    with True 1(2) show ?thesis by (simp add: b128_cont.simps [of v])
  next
    case False
    then have "b128_cont (v div 128) \<noteq> []" by (simp add: b128_cont.simps [of "v div 128"])
    with 1 False show ?thesis by (simp add: b128_cont.simps [of v] hd_append)
  qed
qed

lemma b128_ok_base128: "b128_ok True (base128 v)"
  using b128_cont_high [of "v div 128"] hd_b128_cont [of "v div 128"]
  by (cases "v div 128 = 0") (auto simp: base128_def b128_ok_append byte_high_bit div_eq_0_iff dest!: arg_cong [where f = "unat :: byte \<Rightarrow> nat"])

lemma b128_val_append: "b128_val v (bs @ [b]) = 128 * b128_val v bs + unat b mod 128"
  by (induction bs arbitrary: v) simp_all

lemma b128_val_cont: "b128_val 0 (b128_cont v) = v"
proof (induction v rule: b128_cont.induct)
  case (1 v)
  then show ?case
    by (cases "v = 0") (simp_all add: b128_cont.simps [of v] b128_val_append)
qed

lemma b128_val_base128: "b128_val 0 (base128 v) = v"
  by (simp add: base128_def b128_val_append b128_val_cont)

lemma base128_iff: "bs = base128 v \<longleftrightarrow> b128_ok True bs \<and> b128_val 0 bs = v"
  using base128_of_ok [of 0 bs] b128_ok_base128 b128_val_base128 by auto

lemma b128_val_ge: "v \<le> b128_val v bs"
proof (induction bs arbitrary: v)
  case Nil
  show ?case by simp
next
  case (Cons b bs)
  have "v \<le> 128 * v + unat b mod 128" by simp
  also have "\<dots> \<le> b128_val (128 * v + unat b mod 128) bs" by (rule Cons.IH)
  finally show ?case by simp
qed

lemma length_base128_pos: "base128 v \<noteq> []"
  by (simp add: base128_def)

section \<open>Identifiers, lengths, elements\<close>

definition der_tag :: "u32 \<Rightarrow> byte list" where
  "der_tag tag =
     (let bits = 32 * (unat tag div 2 ^ 29); number = unat tag mod 2 ^ 29
      in if number < 0x1f then [byte_of (bits + number)]
         else byte_of (bits + 0x1f) # base128 number)"

text \<open>The number of bytes a nonzero length needs.\<close>

fun byte_count :: "nat \<Rightarrow> nat" where
  "byte_count n = (if n = 0 then 0 else Suc (byte_count (n div 256)))"

declare byte_count.simps [simp del]

definition der_len :: "nat \<Rightarrow> byte list" where
  "der_len n =
     (if n < 128 then [byte_of n]
      else byte_of (128 + byte_count n) # be_bytes (byte_count n) n)"

definition der_element :: "u32 \<Rightarrow> byte list \<Rightarrow> byte list" where
  "der_element tag contents = der_tag tag @ der_len (length contents) @ contents"

lemma byte_count_0 [simp]: "byte_count 0 = 0"
  by (simp add: byte_count.simps)

lemma byte_count_le_iff: "byte_count n \<le> k \<longleftrightarrow> n < 256 ^ k"
proof (induction k arbitrary: n)
  case 0
  show ?case by (simp add: byte_count.simps [of n])
next
  case (Suc k)
  show ?case
    using Suc.IH [of "n div 256"]
    by (cases "n = 0") (simp_all add: byte_count.simps [of n] div_less_iff_less_mult mult.commute)
qed

lemma less_256_byte_count: "n < 256 ^ byte_count n"
  using byte_count_le_iff [of n "byte_count n"] by simp

lemma byte_count_eq: "\<lbrakk>n < 256 ^ Suc k; 256 ^ k \<le> n\<rbrakk> \<Longrightarrow> byte_count n = Suc k"
  using byte_count_le_iff [of n k] byte_count_le_iff [of n "Suc k"] by simp

end
