(* ===== verification/Cbb.thy ===== *)
theory Cbb
  imports Cbs Der_Spec
begin

text \<open>
  The byte string builder of \<open>crypto/bytestring/cbb.c\<close>.  All the \<open>CBB\<close> structures of one builder
  share a growing buffer (\<open>cbb_buffer_st\<close>).  A builder may have one pending child, which may have
  one pending child, and so on: a length prefix is written for a child when its parent is next
  used.  The model keeps the shared buffer and the chain of pending children, outermost first; an
  operation names its \<open>CBB\<close> by its depth in the chain, \<open>0\<close> for the top level one.  A depth beyond
  the chain is a \<open>CBB\<close> whose \<open>base\<close> pointer the library has cleared.

  Not modelled: a grandchild that the caller keeps using after \<open>CBB_discard_child\<close>.
\<close>

section \<open>State\<close>

record cbb_buffer =
  buf :: "byte list"  \<comment> \<open>all \<open>cap\<close> bytes of the memory block\<close>
  blen :: nat
  cap :: nat
  can_resize :: bool
  err :: bool

record cbb_child =
  offset :: nat
  pending_len_len :: nat
  pending_is_asn1 :: bool

record cbb =
  base :: "cbb_buffer option"
  children :: "cbb_child list"

text \<open>What the structure promises, and the bytes written so far.\<close>

definition buffer_ok :: "cbb_buffer \<Rightarrow> bool" where
  "buffer_ok b \<longleftrightarrow> length (buf b) = cap b \<and> blen b \<le> cap b \<and> cap b < 2 ^ 64"

definition content :: "cbb_buffer \<Rightarrow> byte list" where
  "content b = take (blen b) (buf b)"

section \<open>The shared buffer\<close>

definition CBB_zero :: cbb where
  "CBB_zero = \<lparr>base = None, children = []\<rparr>"

text \<open>
  \<open>cbb_init\<close> and its two callers.  \<open>base_ok\<close> says whether the allocation of the buffer structure
  itself succeeds.
\<close>

definition cbb_init :: "bool \<Rightarrow> byte list \<Rightarrow> nat \<Rightarrow> cbb option" where
  "cbb_init base_ok blk capacity =
     (if \<not> base_ok then None
      else Some \<lparr>base = Some \<lparr>buf = blk, blen = 0, cap = capacity, can_resize = True, err = False\<rparr>,
                 children = []\<rparr>)"

definition CBB_init :: "allocator \<Rightarrow> bool \<Rightarrow> nat \<Rightarrow> bool \<times> cbb" where
  "CBB_init al base_ok initial_capacity =
     (case al initial_capacity of
        None \<Rightarrow> if initial_capacity > 0 then (False, CBB_zero)
                else (case cbb_init base_ok [] 0 of
                        None \<Rightarrow> (False, CBB_zero) | Some c \<Rightarrow> (True, c))
      | Some blk \<Rightarrow> (case cbb_init base_ok blk initial_capacity of
                       None \<Rightarrow> (False, CBB_zero) | Some c \<Rightarrow> (True, c)))"

definition CBB_init_fixed :: "bool \<Rightarrow> byte list \<Rightarrow> nat \<Rightarrow> bool \<times> cbb" where
  "CBB_init_fixed base_ok blk len =
     (case cbb_init base_ok blk len of
        None \<Rightarrow> (False, CBB_zero)
      | Some c \<Rightarrow> (True, c\<lparr>base := map_option (\<lambda>b. b\<lparr>can_resize := False\<rparr>) (base c)\<rparr>))"

text \<open>\<open>CBB_cleanup\<close> on a top level \<open>CBB\<close>; the memory it frees is not part of the state.\<close>

definition CBB_cleanup :: "cbb \<Rightarrow> cbb" where
  "CBB_cleanup c = c\<lparr>base := None\<rparr>"

definition cbb_buffer_reserve :: "allocator \<Rightarrow> cbb_buffer \<Rightarrow> nat \<Rightarrow> bool \<times> cbb_buffer" where
  "cbb_buffer_reserve al b len =
     (let newlen = size_wrap (blen b + len)
      in if newlen < blen b then (False, b\<lparr>err := True\<rparr>)
         else if newlen > cap b then
           let newcap = size_wrap (cap b * 2)
           in if \<not> can_resize b then (False, b\<lparr>err := True\<rparr>)
              else let newcap = (if newcap < cap b \<or> newcap < newlen then newlen else newcap)
                   in (case realloc_block al (buf b) newcap of
                         None \<Rightarrow> (False, b\<lparr>err := True\<rparr>)
                       | Some newbuf \<Rightarrow> (True, b\<lparr>buf := newbuf, cap := newcap\<rparr>))
         else (True, b))"

definition cbb_buffer_add :: "allocator \<Rightarrow> cbb_buffer \<Rightarrow> nat \<Rightarrow> bool \<times> cbb_buffer" where
  "cbb_buffer_add al b len =
     (case cbb_buffer_reserve al b len of
        (False, b1) \<Rightarrow> (False, b1)
      | (True, b1) \<Rightarrow> (True, b1\<lparr>blen := blen b1 + len\<rparr>))"

text \<open>
  The two loops that store a big-endian number from its last byte backwards, and what is left of
  the number afterwards.
\<close>

fun put_be_loop :: "nat \<Rightarrow> nat \<Rightarrow> nat \<Rightarrow> byte list \<Rightarrow> byte list \<times> nat" where
  "put_be_loop 0 off v mem = (mem, v)"
| "put_be_loop (Suc i) off v mem = put_be_loop i off (v div 256) (mem[off + i := byte_of v])"

definition cbb_buffer_add_u :: "allocator \<Rightarrow> cbb_buffer \<Rightarrow> u64 \<Rightarrow> nat \<Rightarrow> bool \<times> cbb_buffer" where
  "cbb_buffer_add_u al b v len_len =
     (if len_len = 0 then (True, b)
      else case cbb_buffer_add al b len_len of
        (False, b1) \<Rightarrow> (False, b1)
      | (True, b1) \<Rightarrow>
          (case put_be_loop len_len (blen b1 - len_len) (unat v) (buf b1) of
             (mem, rest) \<Rightarrow>
               if rest \<noteq> 0 then (False, b1\<lparr>buf := mem, err := True\<rparr>)
               else (True, b1\<lparr>buf := mem\<rparr>)))"

section \<open>Flushing pending children\<close>

text \<open>
  The part of \<open>CBB_flush\<close> that closes one child whose own children are closed: it computes the
  length, makes room for a long ASN.1 length when there is one, and stores the prefix.
\<close>

definition asn1_len_form :: "nat \<Rightarrow> nat \<times> byte \<times> nat" where
  "asn1_len_form len =
     (if len > 0xffffff then (5, 0x84, len)
      else if len > 0xffff then (4, 0x83, len)
      else if len > 0xff then (3, 0x82, len)
      else if len > 0x7f then (2, 0x81, len)
      else (1, byte_of len, 0))"

definition cbb_store_len :: "nat \<Rightarrow> nat \<Rightarrow> nat \<Rightarrow> cbb_buffer \<Rightarrow> bool \<times> cbb_buffer" where
  "cbb_store_len off len_len len b =
     (case put_be_loop len_len off len (buf b) of
        (mem, rest) \<Rightarrow> if rest \<noteq> 0 then (False, b\<lparr>buf := mem, err := True\<rparr>)
                        else (True, b\<lparr>buf := mem\<rparr>))"

definition cbb_make_room :: "allocator \<Rightarrow> nat \<Rightarrow> nat \<Rightarrow> nat \<Rightarrow> cbb_buffer \<Rightarrow> bool \<times> cbb_buffer" where
  "cbb_make_room al child_start extra_bytes len b =
     (case cbb_buffer_add al b extra_bytes of
        (False, b1) \<Rightarrow> (False, b1\<lparr>err := True\<rparr>)
      | (True, b1) \<Rightarrow>
          (True, b1\<lparr>buf := mem_write (child_start + extra_bytes)
                              (take len (drop child_start (buf b1))) (buf b1)\<rparr>))"

definition cbb_close_child :: "allocator \<Rightarrow> cbb_buffer \<Rightarrow> cbb_child \<Rightarrow> nat \<Rightarrow> bool \<times> cbb_buffer" where
  "cbb_close_child al b ch child_start =
     (let len = blen b - child_start
      in if pending_is_asn1 ch then
           if len > 0xfffffffe then (False, b\<lparr>err := True\<rparr>)
           else (case asn1_len_form len of (len_len, initial_length_byte, len1) \<Rightarrow>
                  (case (if len_len \<noteq> 1 then cbb_make_room al child_start (len_len - 1) len1 b
                         else (True, b)) of
                     (False, b1) \<Rightarrow> (False, b1)
                   | (True, b1) \<Rightarrow>
                       cbb_store_len (offset ch + 1) (len_len - 1) len1
                         (b1\<lparr>buf := (buf b1)[offset ch := initial_length_byte]\<rparr>)))
         else cbb_store_len (offset ch) (pending_len_len ch) len b)"

text \<open>
  \<open>CBB_flush\<close> from a \<open>CBB\<close> whose chain of pending children is given: it flushes the inner chain
  first, and forgets the chain when it succeeds.
\<close>

fun flush_chain :: "allocator \<Rightarrow> cbb_buffer \<Rightarrow> cbb_child list \<Rightarrow> bool \<times> cbb_buffer \<times> cbb_child list" where
  "flush_chain al b [] = (\<not> err b, b, [])"
| "flush_chain al b (ch # cs) =
     (if err b then (False, b, ch # cs)
      else if pending_len_len ch = 0 then (True, b, ch # cs)
      else let child_start = size_wrap (offset ch + pending_len_len ch)
           in (case flush_chain al b cs of
                 (False, b1, cs1) \<Rightarrow> (False, b1\<lparr>err := True\<rparr>, ch # cs1)
               | (True, b1, cs1) \<Rightarrow>
                   if child_start < offset ch \<or> blen b1 < child_start
                   then (False, b1\<lparr>err := True\<rparr>, ch # cs1)
                   else (case cbb_close_child al b1 ch child_start of
                           (False, b2) \<Rightarrow> (False, b2, ch # cs1)
                         | (True, b2) \<Rightarrow> (True, b2, []))))"

definition CBB_flush :: "allocator \<Rightarrow> nat \<Rightarrow> cbb \<Rightarrow> bool \<times> cbb" where
  "CBB_flush al d c =
     (case base c of
        None \<Rightarrow> (False, c)
      | Some b \<Rightarrow>
          if length (children c) < d then (False, c)
          else (case flush_chain al b (drop d (children c)) of
                  (ok, b1, cs1) \<Rightarrow>
                    (ok, c\<lparr>base := Some b1, children := take d (children c) @ cs1\<rparr>)))"

text \<open>The common shape of the writers: flush, then change the buffer.\<close>

definition flush_then ::
  "allocator \<Rightarrow> nat \<Rightarrow> (cbb_buffer \<Rightarrow> bool \<times> cbb_buffer) \<Rightarrow> cbb \<Rightarrow> bool \<times> cbb" where
  "flush_then al d f c =
     (case CBB_flush al d c of
        (False, c1) \<Rightarrow> (False, c1)
      | (True, c1) \<Rightarrow>
          (case base c1 of
             None \<Rightarrow> (False, c1)
           | Some b \<Rightarrow> (case f b of (ok, b1) \<Rightarrow> (ok, c1\<lparr>base := Some b1\<rparr>))))"

section \<open>Writers\<close>

text \<open>
  \<open>CBB_finish\<close> hands over the buffer block and its used length.  \<open>outs\<close> says whether both output
  pointers are given, which is compulsory for a resizable buffer.
\<close>

definition CBB_finish :: "allocator \<Rightarrow> nat \<Rightarrow> bool \<Rightarrow> cbb \<Rightarrow> (byte list \<times> nat) option \<times> cbb" where
  "CBB_finish al d outs c =
     (if d \<noteq> 0 then (None, c)
      else case CBB_flush al d c of
        (False, c1) \<Rightarrow> (None, c1)
      | (True, c1) \<Rightarrow>
          (case base c1 of
             None \<Rightarrow> (None, c1)
           | Some b \<Rightarrow> if can_resize b \<and> \<not> outs then (None, c1)
                        else (Some (buf b, blen b), CBB_cleanup c1)))"

text \<open>Where the contents of the \<open>CBB\<close> at a depth start.\<close>

definition cbb_start :: "nat \<Rightarrow> cbb \<Rightarrow> nat" where
  "cbb_start d c =
     (if d = 0 then 0
      else offset (children c ! (d - 1)) + pending_len_len (children c ! (d - 1)))"

definition CBB_data :: "nat \<Rightarrow> cbb \<Rightarrow> byte list" where
  "CBB_data d c = (case base c of None \<Rightarrow> [] | Some b \<Rightarrow> drop (cbb_start d c) (buf b))"

definition CBB_len :: "nat \<Rightarrow> cbb \<Rightarrow> nat" where
  "CBB_len d c = (case base c of None \<Rightarrow> 0 | Some b \<Rightarrow> blen b - cbb_start d c)"

definition buffer_append :: "allocator \<Rightarrow> byte list \<Rightarrow> cbb_buffer \<Rightarrow> bool \<times> cbb_buffer" where
  "buffer_append al data b =
     (case cbb_buffer_add al b (length data) of
        (False, b1) \<Rightarrow> (False, b1)
      | (True, b1) \<Rightarrow>
          (True, b1\<lparr>buf := mem_write (blen b1 - length data) data (buf b1)\<rparr>))"

definition cbb_open_child :: "nat \<Rightarrow> cbb_child \<Rightarrow> cbb \<Rightarrow> cbb" where
  "cbb_open_child d ch c = c\<lparr>children := take d (children c) @ [ch]\<rparr>"

definition cbb_add_length_prefixed :: "allocator \<Rightarrow> nat \<Rightarrow> nat \<Rightarrow> cbb \<Rightarrow> bool \<times> cbb" where
  "cbb_add_length_prefixed al d len_len c =
     (case CBB_flush al d c of
        (False, c1) \<Rightarrow> (False, c1)
      | (True, c1) \<Rightarrow>
          (case base c1 of
             None \<Rightarrow> (False, c1)
           | Some b \<Rightarrow>
               (case buffer_append al (replicate len_len 0) b of
                  (False, b1) \<Rightarrow> (False, c1\<lparr>base := Some b1\<rparr>)
                | (True, b1) \<Rightarrow>
                    (True, cbb_open_child d
                             \<lparr>offset = blen b, pending_len_len = len_len, pending_is_asn1 = False\<rparr>
                             (c1\<lparr>base := Some b1\<rparr>)))))"

definition CBB_add_u8_length_prefixed :: "allocator \<Rightarrow> nat \<Rightarrow> cbb \<Rightarrow> bool \<times> cbb" where
  "CBB_add_u8_length_prefixed al d c = cbb_add_length_prefixed al d 1 c"

definition CBB_add_u16_length_prefixed :: "allocator \<Rightarrow> nat \<Rightarrow> cbb \<Rightarrow> bool \<times> cbb" where
  "CBB_add_u16_length_prefixed al d c = cbb_add_length_prefixed al d 2 c"

definition CBB_add_u24_length_prefixed :: "allocator \<Rightarrow> nat \<Rightarrow> cbb \<Rightarrow> bool \<times> cbb" where
  "CBB_add_u24_length_prefixed al d c = cbb_add_length_prefixed al d 3 c"

definition CBB_add_u8 :: "allocator \<Rightarrow> nat \<Rightarrow> byte \<Rightarrow> cbb \<Rightarrow> bool \<times> cbb" where
  "CBB_add_u8 al d v = flush_then al d (\<lambda>b. cbb_buffer_add_u al b (ucast v) 1)"

definition CBB_add_u16 :: "allocator \<Rightarrow> nat \<Rightarrow> u16 \<Rightarrow> cbb \<Rightarrow> bool \<times> cbb" where
  "CBB_add_u16 al d v = flush_then al d (\<lambda>b. cbb_buffer_add_u al b (ucast v) 2)"

definition CBB_add_u16le :: "allocator \<Rightarrow> nat \<Rightarrow> u16 \<Rightarrow> cbb \<Rightarrow> bool \<times> cbb" where
  "CBB_add_u16le al d v = CBB_add_u16 al d (CRYPTO_bswap2 v)"

definition CBB_add_u24 :: "allocator \<Rightarrow> nat \<Rightarrow> u32 \<Rightarrow> cbb \<Rightarrow> bool \<times> cbb" where
  "CBB_add_u24 al d v = flush_then al d (\<lambda>b. cbb_buffer_add_u al b (ucast v) 3)"

definition CBB_add_u32 :: "allocator \<Rightarrow> nat \<Rightarrow> u32 \<Rightarrow> cbb \<Rightarrow> bool \<times> cbb" where
  "CBB_add_u32 al d v = flush_then al d (\<lambda>b. cbb_buffer_add_u al b (ucast v) 4)"

definition CBB_add_u32le :: "allocator \<Rightarrow> nat \<Rightarrow> u32 \<Rightarrow> cbb \<Rightarrow> bool \<times> cbb" where
  "CBB_add_u32le al d v = CBB_add_u32 al d (CRYPTO_bswap4 v)"

definition CBB_add_u64 :: "allocator \<Rightarrow> nat \<Rightarrow> u64 \<Rightarrow> cbb \<Rightarrow> bool \<times> cbb" where
  "CBB_add_u64 al d v = flush_then al d (\<lambda>b. cbb_buffer_add_u al b v 8)"

definition CBB_add_u64le :: "allocator \<Rightarrow> nat \<Rightarrow> u64 \<Rightarrow> cbb \<Rightarrow> bool \<times> cbb" where
  "CBB_add_u64le al d v = CBB_add_u64 al d (CRYPTO_bswap8 v)"

definition CBB_add_bytes :: "allocator \<Rightarrow> nat \<Rightarrow> byte list \<Rightarrow> cbb \<Rightarrow> bool \<times> cbb" where
  "CBB_add_bytes al d data = flush_then al d (buffer_append al data)"

definition CBB_add_space :: "allocator \<Rightarrow> nat \<Rightarrow> nat \<Rightarrow> cbb \<Rightarrow> bool \<times> cbb" where
  "CBB_add_space al d len = flush_then al d (\<lambda>b. cbb_buffer_add al b len)"

definition CBB_add_zeros :: "allocator \<Rightarrow> nat \<Rightarrow> nat \<Rightarrow> cbb \<Rightarrow> bool \<times> cbb" where
  "CBB_add_zeros al d len = flush_then al d (buffer_append al (replicate len 0))"

definition CBB_reserve :: "allocator \<Rightarrow> nat \<Rightarrow> nat \<Rightarrow> cbb \<Rightarrow> bool \<times> cbb" where
  "CBB_reserve al d len = flush_then al d (\<lambda>b. cbb_buffer_reserve al b len)"

text \<open>\<open>CBB_did_write\<close> counts bytes the caller stored in reserved space; it does not flush.\<close>

definition CBB_did_write :: "nat \<Rightarrow> nat \<Rightarrow> cbb \<Rightarrow> bool \<times> cbb" where
  "CBB_did_write d len c =
     (case base c of
        None \<Rightarrow> (False, c)
      | Some b \<Rightarrow>
          let newlen = size_wrap (blen b + len)
          in if length (children c) \<noteq> d \<or> newlen < blen b \<or> newlen > cap b then (False, c)
             else (True, c\<lparr>base := Some (b\<lparr>blen := newlen\<rparr>)\<rparr>))"

definition CBB_discard_child :: "nat \<Rightarrow> cbb \<Rightarrow> cbb" where
  "CBB_discard_child d c =
     (case base c of
        None \<Rightarrow> c
      | Some b \<Rightarrow>
          if length (children c) \<le> d then c
          else c\<lparr>base := Some (b\<lparr>blen := offset (children c ! d)\<rparr>),
                 children := take d (children c)\<rparr>)"

section \<open>Laws of the buffer\<close>

lemma put_be_loop_eq:
  "off + n \<le> length mem \<Longrightarrow>
     put_be_loop n off v mem = (mem_write off (be_bytes n v) mem, v div 256 ^ n)"
proof (induction n arbitrary: v mem)
  case 0
  then show ?case by simp
next
  case (Suc i)
  have "mem_write off (be_bytes i (v div 256)) (mem[off + i := byte_of v])
      = mem_write off (be_bytes (Suc i) v) mem"
    using Suc.prems
    by (simp add: mem_write_def upd_conv_take_nth_drop take_update_swap)
  with Suc show ?case by (simp add: div_mult2_eq)
qed

lemma buffer_ok_err [simp]: "buffer_ok (b\<lparr>err := e\<rparr>) = buffer_ok b"
  by (simp add: buffer_ok_def)

lemma content_err [simp]: "content (b\<lparr>err := e\<rparr>) = content b"
  by (simp add: content_def)

lemma length_content: "buffer_ok b \<Longrightarrow> length (content b) = blen b"
  by (simp add: buffer_ok_def content_def)

lemma reserve_laws:
  assumes "good_alloc al" and "buffer_ok b" and "len < 2 ^ 64"
    and "cbb_buffer_reserve al b len = (ok, b1)"
  shows "buffer_ok b1" and "blen b1 = blen b" and "content b1 = content b"
    and "can_resize b1 = can_resize b"
    and "ok \<Longrightarrow> err b1 = err b" and "ok \<Longrightarrow> blen b + len \<le> cap b1" and "\<not> ok \<Longrightarrow> err b1"
proof -
  note r = assms(4)
  define newlen where "newlen = size_wrap (blen b + len)"
  have b: "length (buf b) = cap b" "blen b \<le> cap b" "cap b < 2 ^ 64"
    using assms(2) by (auto simp: buffer_ok_def)
  have nl: "newlen < 2 ^ 64" by (simp add: newlen_def)
  have no_wrap: "newlen = blen b + len" if "\<not> newlen < blen b"
    using size_wrap_no_overflow [of "blen b" len] b assms(3) that by (simp add: newlen_def)
  define newcap where "newcap = (let c = size_wrap (cap b * 2) in
      if c < cap b \<or> c < newlen then newlen else c)"
  have nc: "newcap < 2 ^ 64" using nl by (simp add: newcap_def Let_def)
  have eq: "cbb_buffer_reserve al b len =
      (if newlen < blen b then (False, b\<lparr>err := True\<rparr>)
       else if newlen > cap b then
         if \<not> can_resize b then (False, b\<lparr>err := True\<rparr>)
         else (case realloc_block al (buf b) newcap of
                 None \<Rightarrow> (False, b\<lparr>err := True\<rparr>)
               | Some newbuf \<Rightarrow> (True, b\<lparr>buf := newbuf, cap := newcap\<rparr>))
       else (True, b))"
    by (simp only: cbb_buffer_reserve_def newlen_def newcap_def Let_def)
  have grown: "length new = newcap \<and> take (length (buf b)) new = buf b \<and> newlen \<le> newcap \<and> cap b \<le> newcap"
    if "newlen > cap b" and "realloc_block al (buf b) newcap = Some new" for new
  proof -
    have "cap b \<le> newcap" "newlen \<le> newcap" using that(1) by (auto simp: newcap_def Let_def)
    with realloc_block_SomeD [OF assms(1) that(2)] b show ?thesis by simp
  qed
  have "buffer_ok b1 \<and> blen b1 = blen b \<and> content b1 = content b \<and> can_resize b1 = can_resize b \<and>
      (ok \<longrightarrow> err b1 = err b \<and> blen b + len \<le> cap b1) \<and> (\<not> ok \<longrightarrow> err b1)"
  proof (cases "newlen > cap b \<and> \<not> newlen < blen b \<and> can_resize b \<and> realloc_block al (buf b) newcap \<noteq> None")
    case True
    then obtain new where new: "realloc_block al (buf b) newcap = Some new" by blast
    note g = grown [OF _ this]
    have "take (blen b) new = take (blen b) (buf b)"
      using g True b by (metis min.absorb1 take_take)
    with r eq True new g b nc no_wrap show ?thesis
      by (auto simp: buffer_ok_def content_def)
  next
    case False
    with r eq assms(2) no_wrap show ?thesis by (auto split: if_splits)
  qed
  then show "buffer_ok b1" and "blen b1 = blen b" and "content b1 = content b"
    and "can_resize b1 = can_resize b"
    and "ok \<Longrightarrow> err b1 = err b" and "ok \<Longrightarrow> blen b + len \<le> cap b1" and "\<not> ok \<Longrightarrow> err b1"
    by simp_all
qed

lemma add_laws:
  assumes "good_alloc al" and "buffer_ok b" and "len < 2 ^ 64"
    and "cbb_buffer_add al b len = (ok, b1)"
  shows "buffer_ok b1" and "can_resize b1 = can_resize b"
    and "take (blen b) (content b1) = content b"
    and "ok \<Longrightarrow> blen b1 = blen b + len \<and> err b1 = err b"
    and "\<not> ok \<Longrightarrow> blen b1 = blen b \<and> err b1"
proof -
  obtain ok0 b0 where r: "cbb_buffer_reserve al b len = (ok0, b0)" by fastforce
  note l = reserve_laws [OF assms(1-3) r]
  from assms(4) r have ok: "ok0 = ok" and b1: "b1 = (if ok then b0\<lparr>blen := blen b0 + len\<rparr> else b0)"
    by (auto simp: cbb_buffer_add_def split: bool.splits)
  show "buffer_ok b1" using l ok b1 by (auto simp: buffer_ok_def)
  show "can_resize b1 = can_resize b" using l b1 by simp
  have "take (blen b) (content b1) = take (blen b) (buf b0)"
    using b1 l(2) by (simp add: content_def)
  also have "\<dots> = content b" using l(2,3) by (simp add: content_def)
  finally show "take (blen b) (content b1) = content b" .
  show "ok \<Longrightarrow> blen b1 = blen b + len \<and> err b1 = err b" using l ok b1 by simp
  show "\<not> ok \<Longrightarrow> blen b1 = blen b \<and> err b1" using l ok b1 by simp
qed

text \<open>Storing bytes in the part of the buffer that was just added.\<close>

lemma content_store_end:
  assumes "buffer_ok b1" and "blen b1 = n + length data" and "take n (content b1) = old"
  shows "content (b1\<lparr>buf := mem_write n data (buf b1)\<rparr>) = old @ data"
    and "buffer_ok (b1\<lparr>buf := mem_write n data (buf b1)\<rparr>)"
proof -
  have "n + length data \<le> length (buf b1)" using assms(1,2) by (simp add: buffer_ok_def)
  then show "content (b1\<lparr>buf := mem_write n data (buf b1)\<rparr>) = old @ data"
    using assms(2,3) by (simp add: content_def mem_simps)
  show "buffer_ok (b1\<lparr>buf := mem_write n data (buf b1)\<rparr>)"
    using assms(1,2) by (simp add: buffer_ok_def)
qed

lemma buffer_append_laws:
  assumes "good_alloc al" and "buffer_ok b" and "length data < 2 ^ 64"
    and "buffer_append al data b = (ok, b1)"
  shows "buffer_ok b1" and "can_resize b1 = can_resize b"
    and "ok \<Longrightarrow> content b1 = content b @ data \<and> err b1 = err b"
    and "\<not> ok \<Longrightarrow> content b1 = content b \<and> err b1"
proof -
  obtain b0 where a: "cbb_buffer_add al b (length data) = (ok, b0)"
    and b1: "b1 = (if ok then b0\<lparr>buf := mem_write (blen b0 - length data) data (buf b0)\<rparr> else b0)"
    using assms(4) by (auto simp: buffer_append_def split: prod.splits bool.splits)
  note l = add_laws [OF assms(1-3) a]
  have "content b1 = content b @ data \<and> buffer_ok b1" if ok
    using content_store_end [OF l(1) _ l(3)] l(4) b1 that by simp
  moreover have "content b1 = content b" if "\<not> ok"
    using l(3,5) b1 that length_content [OF l(1)] by simp
  ultimately show "buffer_ok b1" "can_resize b1 = can_resize b"
    "ok \<Longrightarrow> content b1 = content b @ data \<and> err b1 = err b"
    "\<not> ok \<Longrightarrow> content b1 = content b \<and> err b1"
    using l b1 by auto
qed

lemma add_u_laws:
  assumes "good_alloc al" and "buffer_ok b" and "n < 2 ^ 64"
    and "cbb_buffer_add_u al b v n = (ok, b1)" and "0 < n"
  shows "buffer_ok b1" and "can_resize b1 = can_resize b" and "blen b \<le> blen b1"
    and "take (blen b) (content b1) = content b"
    and "ok \<Longrightarrow> content b1 = content b @ be_bytes n (unat v) \<and> err b1 = err b \<and> unat v < 256 ^ n"
    and "\<not> ok \<Longrightarrow> err b1"
proof -
  obtain ok0 b0 where a: "cbb_buffer_add al b n = (ok0, b0)" by fastforce
  note l = add_laws [OF assms(1-3) a]
  let ?b2 = "b0\<lparr>buf := mem_write (blen b) (be_bytes n (unat v)) (buf b0)\<rparr>"
  have st: "content ?b2 = content b @ be_bytes n (unat v)" "buffer_ok ?b2" if ok0
    using content_store_end [OF l(1) _ l(3), of "be_bytes n (unat v)"] l(4) that by simp_all
  have r: "cbb_buffer_add_u al b v n =
      (if \<not> ok0 then (False, b0)
       else if unat v div 256 ^ n \<noteq> 0 then (False, ?b2\<lparr>err := True\<rparr>) else (True, ?b2))"
    using a assms(5) l(1) l(4)
    by (auto simp: cbb_buffer_add_u_def put_be_loop_eq buffer_ok_def split: bool.splits)
  have "buffer_ok b1 \<and> can_resize b1 = can_resize b \<and> blen b \<le> blen b1 \<and>
      take (blen b) (content b1) = content b \<and> (\<not> ok \<longrightarrow> err b1) \<and>
      (ok \<longrightarrow> content b1 = content b @ be_bytes n (unat v) \<and> err b1 = err b \<and> unat v < 256 ^ n)"
    using r assms(4) l st length_content [OF assms(2)]
    by (auto simp: div_eq_0_iff split: if_splits)
  then show "buffer_ok b1" and "can_resize b1 = can_resize b" and "blen b \<le> blen b1"
    and "take (blen b) (content b1) = content b"
    and "ok \<Longrightarrow> content b1 = content b @ be_bytes n (unat v) \<and> err b1 = err b \<and> unat v < 256 ^ n"
    and "\<not> ok \<Longrightarrow> err b1" by simp_all
qed

section \<open>Abstract meaning of the pending children\<close>

text \<open>
  \<open>close_child\<close> puts the length prefix of one child in front of its body; \<open>close_chain\<close> closes a
  chain, innermost child first.  \<open>None\<close> is a body too long for its prefix.
\<close>

definition len_prefix :: "cbb_child \<Rightarrow> nat \<Rightarrow> byte list option" where
  "len_prefix ch n =
     (if pending_is_asn1 ch then (if n \<le> 0xfffffffe then Some (der_len n) else None)
      else (if n < 256 ^ pending_len_len ch then Some (be_bytes (pending_len_len ch) n) else None))"

definition close_child :: "cbb_child \<Rightarrow> byte list \<Rightarrow> byte list option" where
  "close_child ch bs =
     (let body = drop (offset ch + pending_len_len ch) bs
      in map_option (\<lambda>p. take (offset ch) bs @ p @ body) (len_prefix ch (length body)))"

fun close_chain :: "cbb_child list \<Rightarrow> byte list \<Rightarrow> byte list option" where
  "close_chain [] bs = Some bs"
| "close_chain (ch # cs) bs = (case close_chain cs bs of None \<Rightarrow> None | Some bs1 \<Rightarrow> close_child ch bs1)"

text \<open>The invariant of the chain: nested, ordered, and inside the used part of the buffer.\<close>

fun chain_ok :: "nat \<Rightarrow> cbb_child list \<Rightarrow> nat \<Rightarrow> bool" where
  "chain_ok lo [] n \<longleftrightarrow> lo \<le> n"
| "chain_ok lo (ch # cs) n \<longleftrightarrow> lo \<le> offset ch \<and> 0 < pending_len_len ch \<and> pending_len_len ch \<le> 3 \<and>
     (pending_is_asn1 ch \<longrightarrow> pending_len_len ch = 1) \<and>
     chain_ok (offset ch + pending_len_len ch) cs n"

definition cbb_wf :: "cbb \<Rightarrow> bool" where
  "cbb_wf c \<longleftrightarrow> (case base c of None \<Rightarrow> True | Some b \<Rightarrow> buffer_ok b \<and> chain_ok 0 (children c) (blen b))"

lemma chain_ok_le: "chain_ok lo cs n \<Longrightarrow> lo \<le> n"
  by (induction cs arbitrary: lo) fastforce+

lemma chain_ok_mono: "chain_ok lo cs n \<Longrightarrow> n \<le> m \<Longrightarrow> chain_ok lo cs m"
  by (induction cs arbitrary: lo) auto

lemma store_len_laws:
  assumes "buffer_ok b" and "off + k \<le> blen b" and "cbb_store_len off k len b = (ok, b1)"
  shows "buffer_ok b1" and "blen b1 = blen b" and "can_resize b1 = can_resize b"
    and "content b1 = mem_write off (be_bytes k len) (content b)"
    and "ok \<longleftrightarrow> len < 256 ^ k" and "err b1 \<longleftrightarrow> err b \<or> \<not> ok"
proof -
  have "off + k \<le> length (buf b)" using assms(1,2) by (simp add: buffer_ok_def)
  then have r: "cbb_store_len off k len b =
      (let b2 = b\<lparr>buf := mem_write off (be_bytes k len) (buf b)\<rparr>
       in if len div 256 ^ k \<noteq> 0 then (False, b2\<lparr>err := True\<rparr>) else (True, b2))"
    by (simp add: cbb_store_len_def put_be_loop_eq Let_def)
  have c: "take (blen b) (mem_write off (be_bytes k len) (buf b))
      = mem_write off (be_bytes k len) (take (blen b) (buf b))"
    using assms(2)
    by (cases "off = blen b") (auto simp: mem_write_def drop_take min_def)
  from r assms c \<open>off + k \<le> length (buf b)\<close>
  show "buffer_ok b1" and "blen b1 = blen b" and "can_resize b1 = can_resize b"
    and "content b1 = mem_write off (be_bytes k len) (content b)"
    and "ok \<longleftrightarrow> len < 256 ^ k" and "err b1 \<longleftrightarrow> err b \<or> \<not> ok"
    by (auto simp: Let_def buffer_ok_def content_def div_eq_0_iff split: if_splits)
qed

lemma make_room_laws:
  assumes "good_alloc al" and "buffer_ok b" and "cs \<le> blen b" and "extra < 2 ^ 64"
    and "cbb_make_room al cs extra (blen b - cs) b = (ok, b1)"
  shows "buffer_ok b1" and "can_resize b1 = can_resize b" and "blen b \<le> blen b1"
    and "take cs (content b1) = take cs (content b)"
    and "ok \<Longrightarrow> blen b1 = blen b + extra \<and> err b1 = err b \<and>
          drop (cs + extra) (content b1) = drop cs (content b)"
    and "\<not> ok \<Longrightarrow> err b1"
proof -
  obtain b0 where a: "cbb_buffer_add al b extra = (ok, b0) \<or> \<not> ok \<and> cbb_buffer_add al b extra = (False, b0)"
    and b1: "b1 = (if ok then b0\<lparr>buf := mem_write (cs + extra) (take (blen b - cs) (drop cs (buf b0))) (buf b0)\<rparr>
                   else b0\<lparr>err := True\<rparr>)"
    using assms(5) by (auto simp: cbb_make_room_def split: prod.splits bool.splits)
  then have a: "cbb_buffer_add al b extra = (ok, b0)" by auto
  note l = add_laws [OF assms(1,2,4) a]
  have lb: "length (buf b0) = cap b0" "blen b0 \<le> cap b0" using l(1) by (auto simp: buffer_ok_def)
  have body: "take (blen b - cs) (drop cs (buf b0)) = drop cs (content b)" if ok
  proof -
    have "blen b \<le> blen b0" using l(4) that by simp
    then have "take (blen b) (buf b0) = content b" using l(3) by (simp add: content_def min_def)
    then show ?thesis by (metis drop_take)
  qed
  have lc: "length (drop cs (content b)) = blen b - cs" using length_content [OF assms(2)] by simp
  show "buffer_ok b1" using l lb assms(3) b1 lc body by (auto simp: buffer_ok_def)
  show "can_resize b1 = can_resize b" using l b1 by simp
  show "blen b \<le> blen b1" using l b1 by (cases ok) simp_all
  show "\<not> ok \<Longrightarrow> err b1" using b1 by simp
  have pre: "take cs (content b0) = take cs (content b)"
    using l(3) assms(3) by (metis min.absorb1 take_take)
  show "take cs (content b1) = take cs (content b)"
  proof (cases ok)
    case True
    then have "take cs (content b1) = take cs (content b0)"
      using b1 lb l(4) assms(3) body lc by (simp add: content_def mem_simps min_def)
    with pre show ?thesis by simp
  next
    case False
    with b1 pre show ?thesis by simp
  qed
  assume ok
  then have "content b1 = take (cs + extra) (content b0) @ drop cs (content b)"
    using b1 lb l(4) assms(3) body lc
    by (simp add: content_def mem_write_def min_def)
  with \<open>ok\<close> l b1 lb assms(3) lc show "blen b1 = blen b + extra \<and> err b1 = err b \<and>
          drop (cs + extra) (content b1) = drop cs (content b)"
    using length_content [OF l(1)] by simp
qed

lemma asn1_len_form_laws:
  assumes "len \<le> 0xfffffffe" and "asn1_len_form len = (ll, ib, len1)"
  shows "1 \<le> ll" and "ll \<le> 5" and "len1 < 256 ^ (ll - 1)" and "ll \<noteq> 1 \<Longrightarrow> len1 = len"
    and "der_len len = ib # be_bytes (ll - 1) len1"
proof -
  have b: "byte_of 132 = 0x84" "byte_of 131 = 0x83" "byte_of 130 = 0x82" "byte_of 129 = 0x81"
    by (simp_all add: byte_of_def)
  consider "len \<le> 0x7f" | "0x7f < len" "len \<le> 0xff" | "0xff < len" "len \<le> 0xffff"
    | "0xffff < len" "len \<le> 0xffffff" | "0xffffff < len" by linarith
  then have "1 \<le> ll \<and> ll \<le> 5 \<and> len1 < 256 ^ (ll - 1) \<and> (ll \<noteq> 1 \<longrightarrow> len1 = len) \<and>
      der_len len = ib # be_bytes (ll - 1) len1"
  proof cases
    case 1
    with assms(2) show ?thesis by (simp add: asn1_len_form_def der_len_def)
  next
    case 2
    with byte_count_eq [of len 0] assms(2) b show ?thesis
      by (simp add: asn1_len_form_def der_len_def)
  next
    case 3
    with byte_count_eq [of len 1] assms(2) b show ?thesis
      by (auto simp: asn1_len_form_def der_len_def bytes_simps)
  next
    case 4
    with byte_count_eq [of len 2] assms(2) b show ?thesis
      by (simp add: asn1_len_form_def der_len_def)
  next
    case 5
    with byte_count_eq [of len 3] assms b show ?thesis
      by (simp add: asn1_len_form_def der_len_def)
  qed
  then show "1 \<le> ll" and "ll \<le> 5" and "len1 < 256 ^ (ll - 1)" and "ll \<noteq> 1 \<Longrightarrow> len1 = len"
    and "der_len len = ib # be_bytes (ll - 1) len1" by simp_all
qed

text \<open>Storing the first length byte and then the rest of the prefix.\<close>

lemma prefix_store:
  assumes "off < cs" and "cs = off + 1" and "cs + k \<le> length xs" and "length p = k"
  shows "mem_write cs p (xs[off := ib]) = take off xs @ (ib # p) @ drop (cs + k) xs"
  using assms
  by (simp add: mem_write_def take_Suc_conv_app_nth)

lemma content_set_byte:
  "buffer_ok b \<Longrightarrow> i < blen b \<Longrightarrow>
     content (b\<lparr>buf := (buf b)[i := x]\<rparr>) = (content b)[i := x] \<and> buffer_ok (b\<lparr>buf := (buf b)[i := x]\<rparr>)"
  by (simp add: content_def buffer_ok_def take_update_swap)

text \<open>What closing one child guarantees, whether it succeeds or not.\<close>

definition closes :: "cbb_buffer \<Rightarrow> cbb_child \<Rightarrow> bool \<Rightarrow> cbb_buffer \<Rightarrow> bool" where
  "closes b ch ok b1 \<longleftrightarrow> buffer_ok b1 \<and> blen b \<le> blen b1 \<and> can_resize b1 = can_resize b \<and>
     take (offset ch) (content b1) = take (offset ch) (content b) \<and>
     (ok \<longrightarrow> close_child ch (content b) = Some (content b1) \<and> err b1 = err b) \<and> (\<not> ok \<longrightarrow> err b1)"

lemma close_plain_child:
  assumes "buffer_ok b" and "offset ch + pending_len_len ch \<le> blen b" and "\<not> pending_is_asn1 ch"
    and "cbb_store_len (offset ch) (pending_len_len ch)
           (blen b - (offset ch + pending_len_len ch)) b = (ok, b1)"
  shows "closes b ch ok b1"
proof -
  note l = store_len_laws [OF assms(1,2,4)]
  have "take (offset ch) (content b1) = take (offset ch) (content b)"
    using l(4) assms(2) length_content [OF assms(1)] by (simp add: mem_simps)
  moreover have "close_child ch (content b) = Some (content b1)" if ok
    using l(4,5) assms(3) that length_content [OF assms(1)]
    by (simp add: close_child_def len_prefix_def mem_write_def)
  ultimately show ?thesis using l by (auto simp: closes_def)
qed

text \<open>Making room for a long length, or doing nothing for a short one.\<close>

lemma asn1_room:
  assumes "good_alloc al" and "buffer_ok b" and "cs \<le> blen b" and "1 \<le> ll" and "ll \<le> 5"
    and "ll \<noteq> 1 \<longrightarrow> len1 = blen b - cs"
    and "(if ll \<noteq> 1 then cbb_make_room al cs (ll - 1) len1 b else (True, b)) = (ok, br)"
  shows "buffer_ok br" and "can_resize br = can_resize b" and "blen b \<le> blen br"
    and "take cs (content br) = take cs (content b)" and "\<not> ok \<Longrightarrow> err br"
    and "ok \<Longrightarrow> blen br = blen b + (ll - 1) \<and> err br = err b \<and>
           drop (cs + (ll - 1)) (content br) = drop cs (content b)"
proof -
  have "buffer_ok br \<and> can_resize br = can_resize b \<and> blen b \<le> blen br \<and>
      take cs (content br) = take cs (content b) \<and> (\<not> ok \<longrightarrow> err br) \<and>
      (ok \<longrightarrow> blen br = blen b + (ll - 1) \<and> err br = err b \<and>
         drop (cs + (ll - 1)) (content br) = drop cs (content b))"
  proof (cases "ll = 1")
    case True
    with assms show ?thesis by simp
  next
    case False
    with assms(6,7) have "cbb_make_room al cs (ll - 1) (blen b - cs) b = (ok, br)" by simp
    from make_room_laws [OF assms(1,2,3) _ this] assms(5) show ?thesis by simp
  qed
  then show "buffer_ok br" and "can_resize br = can_resize b" and "blen b \<le> blen br"
    and "take cs (content br) = take cs (content b)" and "\<not> ok \<Longrightarrow> err br"
    and "ok \<Longrightarrow> blen br = blen b + (ll - 1) \<and> err br = err b \<and>
           drop (cs + (ll - 1)) (content br) = drop cs (content b)" by simp_all
qed

lemma close_asn1_child:
  assumes "good_alloc al" and "buffer_ok b" and "cs \<le> blen b" and cs: "cs = offset ch + 1"
    and "pending_is_asn1 ch" and "pending_len_len ch = 1" and len: "blen b - cs \<le> 0xfffffffe"
    and "cbb_close_child al b ch cs = (ok, b1)"
  shows "closes b ch ok b1"
proof -
  obtain ll ib len1 where form: "asn1_len_form (blen b - cs) = (ll, ib, len1)" by (metis prod_cases3)
  note fl = asn1_len_form_laws [OF len form]
  obtain okr br where room: "(if ll \<noteq> 1 then cbb_make_room al cs (ll - 1) len1 b
      else (True, b)) = (okr, br)" by fastforce
  have fl4: "ll \<noteq> 1 \<longrightarrow> len1 = blen b - cs" using fl(4) by blast
  note rl = asn1_room [OF assms(1,2,3) fl(1,2) fl4 room]
  have pre: "take (offset ch) (content br) = take (offset ch) (content b)"
    using rl(4) cs by (metis le_add1 min.absorb1 take_take)
  let ?b2 = "br\<lparr>buf := (buf br)[offset ch := ib]\<rparr>"
  have step: "(ok, b1) = (if \<not> okr then (False, br)
      else cbb_store_len (offset ch + 1) (ll - 1) len1 ?b2)"
    using assms(5,8) form room len by (cases okr) (simp_all add: cbb_close_child_def Let_def)
  show ?thesis
  proof (cases okr)
    case False
    with step rl pre show ?thesis by (simp add: closes_def)
  next
    case True
    note rl6 = rl(6) [OF True]
    have b2: "content ?b2 = (content br)[offset ch := ib]" "buffer_ok ?b2"
      using content_set_byte [OF rl(1), of "offset ch" ib] assms(3) cs rl6 by auto
    have st: "cbb_store_len (offset ch + 1) (ll - 1) len1 ?b2 = (ok, b1)" using step True by simp
    have fits: "offset ch + 1 + (ll - 1) \<le> blen ?b2" using rl6 assms(3) cs by simp
    note l = store_len_laws [OF b2(2) fits st]
    have "content b1 = take (offset ch) (content br) @ (ib # be_bytes (ll - 1) len1) @
        drop (cs + (ll - 1)) (content br)"
      unfolding l(4) b2(1) using fits length_content [OF rl(1)] cs by (subst prefix_store) simp_all
    then have "content b1 = take (offset ch) (content b) @ der_len (blen b - cs) @ drop cs (content b)"
      using pre rl6 fl(5) by simp
    then have "close_child ch (content b) = Some (content b1)"
      using assms(5,6) cs len length_content [OF assms(2)]
      by (simp add: close_child_def len_prefix_def)
    moreover have "take (offset ch) (content b1) = take (offset ch) (content b)"
      using \<open>content b1 = take (offset ch) (content b) @ _\<close> assms(3) cs length_content [OF assms(2)]
      by simp
    ultimately show ?thesis using l fl(3) rl rl6 True by (simp add: closes_def)
  qed
qed

lemma close_child_laws:
  assumes "good_alloc al" and "buffer_ok b" and "child_start \<le> blen b"
    and "child_start = offset ch + pending_len_len ch"
    and "pending_is_asn1 ch \<longrightarrow> pending_len_len ch = 1"
    and "cbb_close_child al b ch child_start = (ok, b1)"
  shows "closes b ch ok b1"
proof (cases "pending_is_asn1 ch")
  case False
  with assms(4,6) have "cbb_store_len (offset ch) (pending_len_len ch)
       (blen b - (offset ch + pending_len_len ch)) b = (ok, b1)"
    by (simp add: cbb_close_child_def Let_def)
  from close_plain_child [OF assms(2) _ False this] assms(3,4) show ?thesis by simp
next
  case True
  show ?thesis
  proof (cases "blen b - child_start \<le> 0xfffffffe")
    case False
    with True assms(2,6) show ?thesis by (auto simp: cbb_close_child_def Let_def closes_def)
  next
    case len: True
    from close_asn1_child [OF assms(1-3) _ True _ len assms(6)] assms(4,5) True show ?thesis by simp
  qed
qed

text \<open>
  \<open>CBB_flush\<close> refines \<open>close_chain\<close>: on success the buffer holds the bytes of the abstract closing and
  no child is pending; a failure leaves the sticky error; either way the invariant holds and the
  bytes in front of the chain are untouched.
\<close>

lemma flush_chain_laws:
  assumes "good_alloc al"
  shows "\<lbrakk>buffer_ok b; chain_ok lo cs (blen b); flush_chain al b cs = (ok, b1, cs1)\<rbrakk> \<Longrightarrow>
    buffer_ok b1 \<and> blen b \<le> blen b1 \<and> can_resize b1 = can_resize b \<and> chain_ok lo cs1 (blen b1) \<and>
    take lo (content b1) = take lo (content b) \<and>
    (ok \<longrightarrow> cs1 = [] \<and> \<not> err b1 \<and> \<not> err b \<and> close_chain cs (content b) = Some (content b1)) \<and>
    (\<not> ok \<longrightarrow> err b1)"
proof (induction cs arbitrary: lo ok b1 cs1)
  case Nil
  then show ?case by auto
next
  case (Cons ch cs)
  let ?start = "offset ch + pending_len_len ch"
  from Cons.prems(2) have p: "lo \<le> offset ch" "0 < pending_len_len ch" "pending_len_len ch \<le> 3"
    "pending_is_asn1 ch \<longrightarrow> pending_len_len ch = 1" "chain_ok ?start cs (blen b)" by auto
  have "?start < 2 ^ 64"
    using chain_ok_le [OF p(5)] Cons.prems(1) by (simp add: buffer_ok_def)
  then have wrap: "size_wrap ?start = ?start" by simp
  show ?case
  proof (cases "err b")
    case True
    with Cons.prems show ?thesis by auto
  next
    case False
    obtain oki bi csi where i: "flush_chain al b cs = (oki, bi, csi)" by (metis prod_cases3)
    note IH = Cons.IH [OF Cons.prems(1) p(5) i]
    note start = chain_ok_le [of ?start csi "blen bi"]
    have take_lo: "take lo (content bi) = take lo (content b)"
      using IH p(1) by (metis min.absorb1 take_take trans_le_add1)
    show ?thesis
    proof (cases oki)
      case False
      with Cons.prems(3) i IH p wrap \<open>\<not> err b\<close> take_lo show ?thesis by auto
    next
      case True
      obtain okc bc where c: "cbb_close_child al bi ch ?start = (okc, bc)" by fastforce
      have "closes bi ch okc bc" using close_child_laws [OF assms _ _ refl p(4) c] IH start by simp
      note cl = this [unfolded closes_def]
      from Cons.prems(3) i True wrap IH start p(2) c \<open>\<not> err b\<close>
      have res: "ok = okc" "b1 = bc" "cs1 = (if okc then [] else [ch])" by (auto split: bool.splits)
      have "take lo (content bc) = take lo (content b)"
        using cl p(1) take_lo by (metis min.absorb1 take_take)
      moreover have "lo \<le> blen bc" "?start \<le> blen bc" using cl IH start p(1) by auto
      ultimately show ?thesis using res cl IH True p by simp
    qed
  qed
qed

end
