(* ===== verification/Cbb_Laws.thy ===== *)
theory Cbb_Laws
  imports Cbb Codec
begin

text \<open>
  The contract of the writers of \<open>cbb.c\<close>.  \<open>cbb_written d c\<close> is what the buffer would hold if all
  children below depth \<open>d\<close> were closed now.  A writer at depth \<open>d\<close> either appends its bytes to that,
  or fails and leaves the sticky error of the shared buffer set; it always keeps the invariant
  \<open>cbb_wf\<close>.  The locale \<open>cbb_writer\<close> states the contract, proves what follows from it for sequences
  of writes and for \<open>CBB_finish\<close>, and is interpreted on each writer of the library.
\<close>

section \<open>Abstract contents\<close>

definition cbb_err :: "cbb \<Rightarrow> bool" where
  "cbb_err c = (case base c of None \<Rightarrow> True | Some b \<Rightarrow> err b)"

definition cbb_written :: "nat \<Rightarrow> cbb \<Rightarrow> byte list option" where
  "cbb_written d c =
     (case base c of None \<Rightarrow> None | Some b \<Rightarrow> close_chain (drop d (children c)) (content b))"

definition cbb_resizable :: "cbb \<Rightarrow> bool" where
  "cbb_resizable c = (case base c of None \<Rightarrow> False | Some b \<Rightarrow> can_resize b)"

definition writes :: "nat \<Rightarrow> byte list \<Rightarrow> cbb \<Rightarrow> bool \<Rightarrow> cbb \<Rightarrow> bool" where
  "writes d data c ok c1 \<longleftrightarrow>
     cbb_wf c1 \<and> cbb_resizable c1 = cbb_resizable c \<and>
     (ok \<longrightarrow> \<not> cbb_err c \<and> \<not> cbb_err c1 \<and> d \<le> length (children c) \<and>
        children c1 = take d (children c) \<and>
        (\<exists>bs. cbb_written d c = Some bs \<and> cbb_written d c1 = Some (bs @ data))) \<and>
     (\<not> ok \<longrightarrow> cbb_err c1 \<or> length (children c) < d)"

fun chain_end :: "nat \<Rightarrow> cbb_child list \<Rightarrow> nat" where
  "chain_end lo [] = lo"
| "chain_end lo (ch # cs) = chain_end (offset ch + pending_len_len ch) cs"

lemma chain_ok_append:
  "chain_ok lo (xs @ ys) n \<longleftrightarrow>
     chain_ok lo xs (chain_end lo xs) \<and> chain_ok (chain_end lo xs) ys n"
  by (induction xs arbitrary: lo) auto

lemma close_chain_append:
  "close_chain (xs @ ys) bs = Option.bind (close_chain ys bs) (close_chain xs)"
  by (induction xs) (auto split: option.splits Option.bind_split)

lemma cbb_written_split:
  "d \<le> length (children c) \<Longrightarrow>
     cbb_written 0 c = Option.bind (cbb_written d c) (close_chain (take d (children c)))"
  using close_chain_append [of "take d (children c)" "drop d (children c)"]
  by (simp add: cbb_written_def split: option.splits)

section \<open>Flushing\<close>

lemma CBB_flush_laws:
  assumes "good_alloc al" and "cbb_wf c" and "CBB_flush al d c = (ok, c1)"
  shows "writes d [] c ok c1"
    and "ok \<Longrightarrow> \<exists>b. base c1 = Some b \<and> cbb_written d c = Some (content b) \<and> \<not> err b"
proof -
  have "writes d [] c ok c1 \<and>
     (ok \<longrightarrow> (\<exists>b. base c1 = Some b \<and> cbb_written d c = Some (content b) \<and> \<not> err b))"
  proof (cases "\<exists>b. base c = Some b \<and> d \<le> length (children c)")
    case False
    then have "ok = False" "c1 = c"
      using assms(3) by (auto simp: CBB_flush_def split: option.splits if_splits prod.splits)
    with False assms(2) show ?thesis
      by (cases "base c") (auto simp: writes_def cbb_err_def)
  next
    case True
    then obtain b where b: "base c = Some b" "d \<le> length (children c)" by blast
    obtain b1 cs1 where f: "flush_chain al b (drop d (children c)) = (ok, b1, cs1)"
      and c1: "c1 = c\<lparr>base := Some b1, children := take d (children c) @ cs1\<rparr>"
      using assms(3) b by (auto simp: CBB_flush_def split: prod.splits)
    let ?lo = "chain_end 0 (take d (children c))"
    have "chain_ok 0 (take d (children c) @ drop d (children c)) (blen b)" "buffer_ok b"
      using assms(2) b by (simp_all add: cbb_wf_def)
    then have ch: "chain_ok 0 (take d (children c)) ?lo" "chain_ok ?lo (drop d (children c)) (blen b)"
      by (simp_all only: chain_ok_append)
    note l = flush_chain_laws [OF assms(1) \<open>buffer_ok b\<close> ch(2) f]
    have "cbb_wf c1" using c1 l ch(1) by (simp add: cbb_wf_def chain_ok_append)
    with l b c1 show ?thesis
      by (auto simp: writes_def cbb_err_def cbb_written_def cbb_resizable_def)
  qed
  then show "writes d [] c ok c1"
    and "ok \<Longrightarrow> \<exists>b. base c1 = Some b \<and> cbb_written d c = Some (content b) \<and> \<not> err b" by blast+
qed

text \<open>A change of the buffer that appends bytes behind a flush is a write.\<close>

definition buffer_writes :: "cbb_buffer \<Rightarrow> byte list \<Rightarrow> bool \<Rightarrow> cbb_buffer \<Rightarrow> bool" where
  "buffer_writes b data ok b1 \<longleftrightarrow>
     buffer_ok b1 \<and> can_resize b1 = can_resize b \<and> blen b \<le> blen b1 \<and>
     (ok \<longrightarrow> content b1 = content b @ data \<and> err b1 = err b) \<and> (\<not> ok \<longrightarrow> err b1)"

lemma CBB_flush_ok:
  assumes "good_alloc al" and "cbb_wf c" and "CBB_flush al d c = (True, c1)"
  obtains b where "base c1 = Some b" "cbb_written d c = Some (content b)" "\<not> err b"
    "\<not> cbb_err c" "d \<le> length (children c)" "children c1 = take d (children c)" "buffer_ok b"
    "chain_ok 0 (take d (children c)) (blen b)" "cbb_resizable c1 = cbb_resizable c"
    "can_resize b = cbb_resizable c"
proof -
  note l = CBB_flush_laws [OF assms]
  then obtain b where "base c1 = Some b" "cbb_written d c = Some (content b)" "\<not> err b" by auto
  with l(1) show thesis
    by (intro that [of b]) (auto simp: writes_def cbb_wf_def cbb_resizable_def)
qed

lemma flush_then_laws:
  assumes "good_alloc al" and "cbb_wf c"
    and f: "\<And>b. buffer_ok b \<Longrightarrow> buffer_writes b data (fst (f b)) (snd (f b))"
    and r: "flush_then al d f c = (ok, c1)"
  shows "writes d data c ok c1"
proof -
  obtain okf cf where fl: "CBB_flush al d c = (okf, cf)" by fastforce
  show ?thesis
  proof (cases okf)
    case False
    with r fl have "ok = False" "c1 = cf" by (simp_all add: flush_then_def)
    with CBB_flush_laws(1) [OF assms(1,2) fl] False show ?thesis by (simp add: writes_def)
  next
    case True
    with fl have fl1: "CBB_flush al d c = (True, cf)" by simp
    obtain b where b: "base cf = Some b" "cbb_written d c = Some (content b)" "\<not> err b"
      "\<not> cbb_err c" "d \<le> length (children c)" "children cf = take d (children c)" "buffer_ok b"
      "chain_ok 0 (take d (children c)) (blen b)" "cbb_resizable cf = cbb_resizable c"
      "can_resize b = cbb_resizable c"
      by (rule CBB_flush_ok [OF assms(1,2) fl1])
    obtain b1 where fb: "f b = (ok, b1)" and c1: "c1 = cf\<lparr>base := Some b1\<rparr>"
      using r fl True b(1) by (auto simp: flush_then_def split: prod.splits)
    have bw: "buffer_writes b data ok b1" using f [OF b(7)] fb by simp
    then have "chain_ok 0 (children c1) (blen b1)" "buffer_ok b1"
      using b(6,8) c1 chain_ok_mono by (auto simp: buffer_writes_def)
    with bw b c1 show ?thesis
      by (auto simp: writes_def cbb_wf_def cbb_err_def cbb_written_def buffer_writes_def
          cbb_resizable_def)
  qed
qed

lemma buffer_append_writes:
  assumes "good_alloc al" and "length data < 2 ^ 64" and "buffer_ok b"
  shows "buffer_writes b data (fst (buffer_append al data b)) (snd (buffer_append al data b))"
proof -
  obtain ok b1 where r: "buffer_append al data b = (ok, b1)" by fastforce
  note l = buffer_append_laws [OF assms(1,3,2) r]
  have "blen b \<le> blen b1"
    using l length_content [OF assms(3)] length_content [OF l(1)] by (cases ok) auto
  with l r show ?thesis by (simp add: buffer_writes_def)
qed

lemma add_u_writes:
  assumes "good_alloc al" and "0 < n" and "n < 2 ^ 64" and "buffer_ok b"
    and "unat v < 256 ^ n \<Longrightarrow> data = be_bytes n (unat v)"
  shows "buffer_writes b data (fst (cbb_buffer_add_u al b v n)) (snd (cbb_buffer_add_u al b v n))"
proof -
  obtain ok b1 where r: "cbb_buffer_add_u al b v n = (ok, b1)" by fastforce
  from add_u_laws [OF assms(1,4,3) r assms(2)] r assms(5) show ?thesis
    by (auto simp: buffer_writes_def)
qed

section \<open>The contract of a writer\<close>

fun write_many ::
  "('a \<Rightarrow> cbb \<Rightarrow> bool \<times> cbb) \<Rightarrow> 'a list \<Rightarrow> cbb \<Rightarrow> bool \<times> cbb" where
  "write_many wr [] c = (True, c)"
| "write_many wr (a # as) c = (case wr a c of (False, c1) \<Rightarrow> (False, c1) | (True, c1) \<Rightarrow> write_many wr as c1)"

lemma writes_trans:
  "writes d x c True c1 \<Longrightarrow> writes d y c1 ok c2 \<Longrightarrow> writes d (x @ y) c ok c2"
  by (auto simp: writes_def)

locale cbb_writer =
  fixes wr :: "allocator \<Rightarrow> nat \<Rightarrow> 'a \<Rightarrow> cbb \<Rightarrow> bool \<times> cbb"
    and dom :: "'a \<Rightarrow> bool"
    and out :: "'a \<Rightarrow> byte list"
  assumes wr_writes: "\<lbrakk>good_alloc al; cbb_wf c; dom a; wr al d a c = (ok, c1)\<rbrakk> \<Longrightarrow> writes d (out a) c ok c1"
begin

lemma keeps_wf: "\<lbrakk>good_alloc al; cbb_wf c; dom a; wr al d a c = (ok, c1)\<rbrakk> \<Longrightarrow> cbb_wf c1"
  using wr_writes by (auto simp: writes_def)

text \<open>The error is sticky: once it is set, nothing is written any more.\<close>

lemma sticky: "\<lbrakk>good_alloc al; cbb_wf c; dom a; cbb_err c\<rbrakk> \<Longrightarrow> \<not> fst (wr al d a c)"
  using wr_writes [of al c a d "fst (wr al d a c)" "snd (wr al d a c)"] by (auto simp: writes_def)

lemma write_many_writes:
  assumes "good_alloc al"
  shows "\<lbrakk>cbb_wf c; \<forall>a \<in> set as. dom a; as \<noteq> []; write_many (wr al d) as c = (ok, c1)\<rbrakk> \<Longrightarrow>
    writes d (concat (map out as)) c ok c1"
proof (induction as arbitrary: c)
  case Nil
  then show ?case by simp
next
  case (Cons a as)
  obtain ok0 c0 where w: "wr al d a c = (ok0, c0)" by fastforce
  note l = wr_writes [OF assms Cons.prems(1) _ w]
  show ?case
  proof (cases "ok0 \<and> as \<noteq> []")
    case True
    with l Cons.prems have "writes d (out a) c True c0" by simp
    with Cons.IH [of c0] Cons.prems w True show ?thesis
      using writes_trans by (fastforce simp: writes_def)
  next
    case False
    with l Cons.prems w show ?thesis by (cases ok0) (auto simp: writes_def)
  qed
qed

end

section \<open>The writers keep the contract\<close>

lemma add_u_flush_writes:
  assumes "good_alloc al" and "cbb_wf c" and "0 < n" and "n < 2 ^ 64"
    and "unat v < 256 ^ n \<Longrightarrow> data = be_bytes n (unat v)"
    and "flush_then al d (\<lambda>b. cbb_buffer_add_u al b v n) c = (ok, c1)"
  shows "writes d data c ok c1"
  by (rule flush_then_laws [OF assms(1,2) _ assms(6)])
    (rule add_u_writes [OF assms(1,3,4) _ assms(5)])

lemma append_flush_writes:
  assumes "good_alloc al" and "cbb_wf c" and "length data < 2 ^ 64"
    and "flush_then al d (buffer_append al data) c = (ok, c1)"
  shows "writes d data c ok c1"
  by (rule flush_then_laws [OF assms(1,2) _ assms(4)]) (rule buffer_append_writes [OF assms(1,3)])

lemma add_u_writer:
  fixes wr :: "allocator \<Rightarrow> nat \<Rightarrow> 'a::len word \<Rightarrow> cbb \<Rightarrow> bool \<times> cbb"
  assumes wr: "\<And>al d v. wr al d v = flush_then al d (\<lambda>b. cbb_buffer_add_u al b (ucast v) n)"
    and "0 < n" and "n < 2 ^ 64" and "LENGTH('a) \<le> 64"
  shows "cbb_writer wr (\<lambda>_. True) (\<lambda>v. be_bytes n (unat v))"
proof
  fix al c a d ok c1
  assume "good_alloc al" "cbb_wf c" and r: "wr al d a c = (ok, c1)"
  then show "writes d (be_bytes n (unat a)) c ok c1"
    using assms add_u_flush_writes [of al c n "ucast a" "be_bytes n (unat a)" d ok c1]
    by (simp add: unat_ucast_up)
qed

interpretation add_u8: cbb_writer CBB_add_u8 "\<lambda>_. True" "\<lambda>v. be_bytes 1 (unat v)"
  by (rule add_u_writer) (simp_all add: CBB_add_u8_def)

interpretation add_u16: cbb_writer CBB_add_u16 "\<lambda>_. True" "\<lambda>v. be_bytes 2 (unat v)"
  by (rule add_u_writer) (simp_all add: CBB_add_u16_def)

interpretation add_u24: cbb_writer CBB_add_u24 "\<lambda>_. True" "\<lambda>v. be_bytes 3 (unat v)"
  by (rule add_u_writer) (simp_all add: CBB_add_u24_def)

interpretation add_u32: cbb_writer CBB_add_u32 "\<lambda>_. True" "\<lambda>v. be_bytes 4 (unat v)"
  by (rule add_u_writer) (simp_all add: CBB_add_u32_def)

interpretation add_u64: cbb_writer CBB_add_u64 "\<lambda>_. True" "\<lambda>v. be_bytes 8 (unat v)"
  by (rule add_u_writer) (simp_all add: CBB_add_u64_def)

interpretation add_bytes: cbb_writer CBB_add_bytes "\<lambda>bs. length bs < 2 ^ 64" "\<lambda>bs. bs"
  by unfold_locales (auto simp: CBB_add_bytes_def intro: append_flush_writes)

interpretation add_zeros: cbb_writer CBB_add_zeros "\<lambda>n. n < 2 ^ 64" "\<lambda>n. replicate n 0"
  by unfold_locales (auto simp: CBB_add_zeros_def intro!: append_flush_writes)

text \<open>The little-endian writers swap the bytes and write big-endian.\<close>

lemma be_bytes_bswap:
  "be_bytes 2 (unat (CRYPTO_bswap2 v)) = le_bytes 2 (unat v)"
  "be_bytes 4 (unat (CRYPTO_bswap4 w)) = le_bytes 4 (unat w)"
  "be_bytes 8 (unat (CRYPTO_bswap8 x)) = le_bytes 8 (unat x)"
  using be_bytes_unat_be_val [of "rev (be_bytes 2 (unat v))", where 'a = 16]
    be_bytes_unat_be_val [of "rev (be_bytes 4 (unat w))", where 'a = 32]
    be_bytes_unat_be_val [of "rev (be_bytes 8 (unat x))", where 'a = 64]
  by (simp_all add: CRYPTO_bswap2_def CRYPTO_bswap4_def CRYPTO_bswap8_def le_bytes_def)

interpretation add_u16le: cbb_writer CBB_add_u16le "\<lambda>_. True" "\<lambda>v. le_bytes 2 (unat v)"
  by unfold_locales (simp only: CBB_add_u16le_def be_bytes_bswap(1) [symmetric] add_u16.wr_writes)

interpretation add_u32le: cbb_writer CBB_add_u32le "\<lambda>_. True" "\<lambda>v. le_bytes 4 (unat v)"
  by unfold_locales (simp only: CBB_add_u32le_def be_bytes_bswap(2) [symmetric] add_u32.wr_writes)

interpretation add_u64le: cbb_writer CBB_add_u64le "\<lambda>_. True" "\<lambda>v. le_bytes 8 (unat v)"
  by unfold_locales (simp only: CBB_add_u64le_def be_bytes_bswap(3) [symmetric] add_u64.wr_writes)

section \<open>Creating and finishing a builder\<close>

lemma CBB_init_laws:
  assumes "good_alloc al" and "n < 2 ^ 64" and "CBB_init al base_ok n = (True, c)"
  shows "cbb_wf c" and "cbb_written 0 c = Some []" and "\<not> cbb_err c" and "children c = []"
    and "cbb_resizable c"
proof -
  obtain blk where "c = \<lparr>base = Some \<lparr>buf = blk, blen = 0, cap = n, can_resize = True, err = False\<rparr>,
      children = []\<rparr> \<and> length blk = n"
    using assms(1,3) unfolding CBB_init_def cbb_init_def good_alloc_def
    by (cases "al n"; cases base_ok) (auto split: if_splits)
  then show "cbb_wf c" and "cbb_written 0 c = Some []" and "\<not> cbb_err c" and "children c = []"
    and "cbb_resizable c"
    using assms(2)
    by (auto simp: cbb_wf_def buffer_ok_def cbb_written_def content_def cbb_err_def cbb_resizable_def)
qed

lemma CBB_init_fixed_laws:
  assumes "length blk < 2 ^ 64" and "CBB_init_fixed base_ok blk (length blk) = (True, c)"
  shows "cbb_wf c" and "cbb_written 0 c = Some []" and "\<not> cbb_err c" and "children c = []"
    and "\<not> cbb_resizable c"
  using assms
  by (auto simp: CBB_init_fixed_def cbb_init_def cbb_wf_def buffer_ok_def cbb_written_def content_def
      cbb_err_def cbb_resizable_def split: if_splits)

lemma CBB_finish_laws:
  assumes "good_alloc al" and "cbb_wf c" and "CBB_finish al d outs c = (Some (blk, n), c1)"
  shows "n \<le> length blk" and "cbb_written 0 c = Some (take n blk)" and "base c1 = None"
    and "\<not> cbb_err c" and "length blk < 2 ^ 64" and "d = 0"
proof -
  obtain ok cf where f: "CBB_flush al d c = (ok, cf)" by fastforce
  have "ok" "d = 0" using assms(3) f
    by (cases ok; auto simp: CBB_finish_def split: if_splits)+
  with f have f: "CBB_flush al 0 c = (True, cf)" by simp
  obtain b where b: "base cf = Some b" "cbb_written 0 c = Some (content b)" "buffer_ok b" "\<not> cbb_err c"
    by (rule CBB_flush_ok [OF assms(1,2) f])
  from assms(3) f b(1) \<open>d = 0\<close> have "blk = buf b" "n = blen b" "c1 = CBB_cleanup cf"
    by (auto simp: CBB_finish_def split: if_splits)
  with b \<open>d = 0\<close> show "n \<le> length blk" and "cbb_written 0 c = Some (take n blk)" and "base c1 = None"
    and "\<not> cbb_err c" and "length blk < 2 ^ 64" and "d = 0"
    by (auto simp: content_def buffer_ok_def CBB_cleanup_def)
qed

section \<open>Children\<close>

lemma chain_ok_open:
  assumes "chain_ok lo xs m" and "m = offset ch" and "0 < pending_len_len ch"
    and "pending_len_len ch \<le> 3" and "pending_is_asn1 ch \<longrightarrow> pending_len_len ch = 1"
    and "offset ch + pending_len_len ch \<le> n"
  shows "chain_ok lo (xs @ [ch]) n"
proof -
  have "chain_ok lo xs (chain_end lo xs) \<and> chain_end lo xs \<le> m"
    using assms(1) chain_ok_append [of lo xs "[]" m] by simp
  with assms show ?thesis by (simp add: chain_ok_append)
qed

text \<open>
  Opening a child at depth \<open>d\<close> behind some bytes \<open>pre\<close>: the child starts with \<open>k\<close> placeholder bytes.
  Closing it again around what was written into it puts the length there.
\<close>

definition opens ::
  "nat \<Rightarrow> nat \<Rightarrow> bool \<Rightarrow> byte list \<Rightarrow> cbb \<Rightarrow> bool \<Rightarrow> cbb \<Rightarrow> bool" where
  "opens d k a pre c ok c1 \<longleftrightarrow>
     cbb_wf c1 \<and> cbb_resizable c1 = cbb_resizable c \<and>
     (\<not> ok \<longrightarrow> cbb_err c1 \<or> length (children c) < d) \<and>
     (ok \<longrightarrow> \<not> cbb_err c \<and> \<not> cbb_err c1 \<and> d \<le> length (children c) \<and>
        (\<exists>bs. cbb_written d c = Some bs \<and> cbb_written (Suc d) c1 = Some (bs @ pre @ replicate k 0) \<and>
          children c1 = take d (children c) @
            [\<lparr>offset = length (bs @ pre), pending_len_len = k, pending_is_asn1 = a\<rparr>]))"

lemma open_child_opens:
  assumes "cbb_wf c1" and "cbb_resizable c1 = cbb_resizable c" and "base c1 = Some b" and "content b = bs @ pre"
    and "children c1 = take d (children c)" and "d \<le> length (children c)" and "cbb_written d c = Some bs"
    and "\<not> cbb_err c" and "k \<in> {1, 2, 3}" and "a \<longrightarrow> k = 1"
    and "buffer_writes b (replicate k 0) True b1" and "\<not> err b"
  shows "opens d k a pre c True (cbb_open_child d
    \<lparr>offset = blen b, pending_len_len = k, pending_is_asn1 = a\<rparr> (c1\<lparr>base := Some b1\<rparr>))"
proof -
  have b: "buffer_ok b" "chain_ok 0 (take d (children c)) (blen b)" "blen b = length (bs @ pre)"
    using assms(1,3,4,5) length_content [of b] by (auto simp: cbb_wf_def)
  have b1: "buffer_ok b1" "content b1 = bs @ pre @ replicate k 0" "\<not> err b1" "can_resize b1 = can_resize b"
    using assms(4,11,12) by (auto simp: buffer_writes_def)
  then have "blen b1 = blen b + k" using length_content [OF b1(1)] b(3) by simp
  then have "chain_ok 0 (take d (children c) @ [\<lparr>offset = blen b, pending_len_len = k, pending_is_asn1 = a\<rparr>]) (blen b1)"
    using assms(9,10) by (intro chain_ok_open [OF b(2)]) auto
  with assms b b1 show ?thesis
    by (simp add: opens_def cbb_open_child_def cbb_wf_def cbb_err_def cbb_written_def cbb_resizable_def)
qed

lemma opens_fail:
  "writes d data c ok c1 \<Longrightarrow> \<not> ok \<Longrightarrow> opens d k a pre c False c1"
  by (simp add: writes_def opens_def)

lemma cbb_add_length_prefixed_opens:
  assumes "good_alloc al" and "cbb_wf c" and "k \<in> {1, 2, 3}"
    and "cbb_add_length_prefixed al d k c = (ok, c1)"
  shows "opens d k False [] c ok c1"
proof -
  obtain okf cf where f: "CBB_flush al d c = (okf, cf)" by fastforce
  note fl = CBB_flush_laws(1) [OF assms(1,2) f]
  show ?thesis
  proof (cases okf)
    case False
    with assms(4) f opens_fail [OF fl] show ?thesis by (simp add: cbb_add_length_prefixed_def)
  next
    case True
    with f have f1: "CBB_flush al d c = (True, cf)" by simp
    obtain b where b: "base cf = Some b" "cbb_written d c = Some (content b)" "\<not> err b" "\<not> cbb_err c"
      "d \<le> length (children c)" "children cf = take d (children c)" "buffer_ok b"
      "chain_ok 0 (take d (children c)) (blen b)" "cbb_resizable cf = cbb_resizable c"
      by (rule CBB_flush_ok [OF assms(1,2) f1])
    have wf: "cbb_wf cf" using fl by (simp add: writes_def)
    obtain okb b1 where a: "buffer_append al (replicate k 0) b = (okb, b1)" by fastforce
    have "length (replicate k (0 :: byte)) < 2 ^ 64" using assms(3) by auto
    from buffer_append_writes [OF assms(1) this b(7)] a
    have bw: "buffer_writes b (replicate k 0) okb b1" by simp
    have r: "ok = okb" "c1 = (if ok then cbb_open_child d \<lparr>offset = blen b, pending_len_len = k,
          pending_is_asn1 = False\<rparr> (cf\<lparr>base := Some b1\<rparr>) else cf\<lparr>base := Some b1\<rparr>)"
      using assms(4) f1 b(1) a by (auto simp: cbb_add_length_prefixed_def split: bool.splits)
    show ?thesis
    proof (cases okb)
      case True
      with open_child_opens [OF wf b(9,1) _ b(6,5,2,4) assms(3), of "[]" False b1] bw r b(3) show ?thesis
        by simp
    next
      case False
      have "chain_ok 0 (children cf) (blen b1)"
        using b(6,8) bw chain_ok_mono by (auto simp: buffer_writes_def)
      with False bw r b show ?thesis
        by (auto simp: opens_def cbb_wf_def cbb_err_def buffer_writes_def cbb_resizable_def)
    qed
  qed
qed

lemma cbb_written_close:
  "d < length (children c) \<Longrightarrow>
     cbb_written d c = Option.bind (cbb_written (Suc d) c) (close_child (children c ! d))"
  by (simp add: cbb_written_def Cons_nth_drop_Suc [symmetric] split: option.splits)

lemma cbb_written_prefixed:
  assumes "cbb_written (Suc d) c = Some (bs @ replicate k 0 @ data)" and "d < length (children c)"
    and "children c ! d = \<lparr>offset = length bs, pending_len_len = k, pending_is_asn1 = a\<rparr>"
  shows "cbb_written d c = map_option (\<lambda>p. bs @ p @ data) (len_prefix (children c ! d) (length data))"
  using cbb_written_close [OF assms(2)] assms(1,3) by (simp add: close_child_def)

text \<open>Opening a child, writing into it, and flushing its parent is a write of the parent.\<close>

lemma child_write_fails:
  "\<lbrakk>opens d k a pre c True c1; writes (Suc d) data c1 False c2\<rbrakk> \<Longrightarrow> writes d x c False c2"
  by (auto simp: opens_def writes_def)

lemma child_flush:
  assumes "good_alloc al" and "opens d k a pre c True c1" and "writes (Suc d) data c1 True c2"
    and "CBB_flush al d c2 = (ok, c3)"
    and "\<And>p. len_prefix \<lparr>offset = 0, pending_len_len = k, pending_is_asn1 = a\<rparr> (length data) = Some p \<Longrightarrow>
           out = pre @ p @ data"
  shows "writes d out c ok c3"
proof -
  from assms(2) obtain bs where o: "\<not> cbb_err c" "d \<le> length (children c)" "cbb_written d c = Some bs"
    "cbb_written (Suc d) c1 = Some (bs @ pre @ replicate k 0)" "cbb_resizable c1 = cbb_resizable c"
    "children c1 = take d (children c) @ [\<lparr>offset = length (bs @ pre), pending_len_len = k, pending_is_asn1 = a\<rparr>]"
    by (auto simp: opens_def)
  let ?ch = "\<lparr>offset = length (bs @ pre), pending_len_len = k, pending_is_asn1 = a\<rparr>"
  from assms(3) o have w: "cbb_wf c2" "cbb_resizable c2 = cbb_resizable c"
    "children c2 = take d (children c) @ [?ch]"
    "cbb_written (Suc d) c2 = Some ((bs @ pre) @ replicate k 0 @ data)"
    by (auto simp: writes_def)
  have nth: "d < length (children c2)" "children c2 ! d = ?ch" "take d (children c2) = take d (children c)"
    using w(3) o(2) by (simp_all add: nth_append)
  note close = cbb_written_prefixed [OF w(4) nth(1,2)]
  note fl = CBB_flush_laws(1) [OF assms(1) w(1) assms(4)]
  show ?thesis
  proof (cases ok)
    case False
    with fl w nth show ?thesis by (simp add: writes_def)
  next
    case True
    with fl obtain x where x: "cbb_written d c2 = Some x" "cbb_written d c3 = Some x"
      by (auto simp: writes_def)
    have lp: "len_prefix ?ch n = len_prefix \<lparr>offset = 0, pending_len_len = k, pending_is_asn1 = a\<rparr> n" for n
      by (simp add: len_prefix_def)
    from x(1) close nth(2) lp assms(5) have "x = bs @ out" by auto
    with True x fl o w nth show ?thesis by (simp add: writes_def)
  qed
qed

end
