(* ===== verification/Wire.thy ===== *)
theory Wire
  imports Cbs Cbb_Laws
begin

text \<open>
  The readers of \<open>cbs.c\<close> against the writers of \<open>cbb.c\<close>.  The locale \<open>wire_codec\<close> joins the contract
  of a canonical reader to the contract of a writer for the same encoding; its lemma says that what
  a builder is given is what a parser of the finished buffer returns.
\<close>

locale wire_codec =
  r: canonical_codec "\<lambda>b. CBS_init b (length b)" cbs_bytes cbs_ok get enc valid put +
  w: cbb_writer wr dom put
  for get :: "cbs \<Rightarrow> 'a option \<times> cbs"
    and enc :: "'a \<Rightarrow> byte list \<Rightarrow> bool"
    and valid :: "'a \<Rightarrow> bool"
    and put :: "'a \<Rightarrow> byte list"
    and wr :: "allocator \<Rightarrow> nat \<Rightarrow> 'a \<Rightarrow> cbb \<Rightarrow> bool \<times> cbb"
    and dom :: "'a \<Rightarrow> bool" +
  assumes valid_dom: "valid a \<Longrightarrow> dom a"
begin

lemma written_finish:
  assumes "good_alloc al" and "cbb_wf c" and "cbb_written 0 c = Some []" and "as \<noteq> []"
    and "\<forall>a \<in> set as. valid a"
    and "write_many (wr al 0) as c = (True, c1)"
    and "CBB_finish al 0 outs c1 = (Some (blk, n), c2)"
  shows "take n blk = concat (map put as)" and "n \<le> length blk" and "length blk < 2 ^ 64"
proof -
  have w: "writes 0 (concat (map put as)) c True c1"
    using w.write_many_writes [OF assms(1,2) _ assms(4,6)] assms(5) valid_dom by auto
  then have "cbb_wf c1" "cbb_written 0 c1 = Some (concat (map put as))"
    using assms(3) by (auto simp: writes_def)
  with CBB_finish_laws [OF assms(1) _ assms(7)]
  show "take n blk = concat (map put as)" and "n \<le> length blk" and "length blk < 2 ^ 64" by auto
qed

lemma build_parse:
  assumes "good_alloc al" and "cbb_wf c" and "cbb_written 0 c = Some []" and "as \<noteq> []"
    and "\<forall>a \<in> set as. valid a"
    and "write_many (wr al 0) as c = (True, c1)"
    and "CBB_finish al 0 outs c1 = (Some (blk, n), c2)"
  shows "\<exists>s. read_many get (length as) (CBS_init blk n) = (Some as, s) \<and> cbs_bytes s = []"
proof -
  note f = written_finish [OF assms]
  have ok: "cbs_ok (CBS_init blk n)" and bytes: "cbs_bytes (CBS_init blk n) = concat (map put as) @ []"
    using f by (simp_all add: cbs_ok_def cbs_bytes_def CBS_init_def)
  have "list_all2 enc as (map put as)"
    using assms(5) r.enc_put by (simp add: list_all2_conv_all_nth)
  from r.read_many_complete [OF ok this bytes] show ?thesis by auto
qed

end

text \<open>The fixed width integers.\<close>

interpretation wire_u8: wire_codec CBS_get_u8 "\<lambda>a bs. (\<lambda>_. True) a \<and> bs = (\<lambda>a. be_bytes 1 (unat a)) a"
  "\<lambda>_. True" "\<lambda>a. be_bytes 1 (unat a)" CBB_add_u8 "\<lambda>_. True"
  by (intro wire_codec.intro get_u8.canonical_codec_axioms add_u8.cbb_writer_axioms
      wire_codec_axioms.intro) simp

interpretation wire_u16: wire_codec CBS_get_u16 "\<lambda>a bs. (\<lambda>_. True) a \<and> bs = (\<lambda>a. be_bytes 2 (unat a)) a"
  "\<lambda>_. True" "\<lambda>a. be_bytes 2 (unat a)" CBB_add_u16 "\<lambda>_. True"
  by (intro wire_codec.intro get_u16.canonical_codec_axioms add_u16.cbb_writer_axioms
      wire_codec_axioms.intro) simp

interpretation wire_u24: wire_codec CBS_get_u24 "\<lambda>a bs. (\<lambda>a. unat a < 2 ^ 24) a \<and> bs = (\<lambda>a. be_bytes 3 (unat a)) a"
  "\<lambda>a. unat a < 2 ^ 24" "\<lambda>a. be_bytes 3 (unat a)" CBB_add_u24 "\<lambda>_. True"
  by (intro wire_codec.intro get_u24.canonical_codec_axioms add_u24.cbb_writer_axioms
      wire_codec_axioms.intro) simp

interpretation wire_u32: wire_codec CBS_get_u32 "\<lambda>a bs. (\<lambda>_. True) a \<and> bs = (\<lambda>a. be_bytes 4 (unat a)) a"
  "\<lambda>_. True" "\<lambda>a. be_bytes 4 (unat a)" CBB_add_u32 "\<lambda>_. True"
  by (intro wire_codec.intro get_u32.canonical_codec_axioms add_u32.cbb_writer_axioms
      wire_codec_axioms.intro) simp

interpretation wire_u64: wire_codec CBS_get_u64 "\<lambda>a bs. (\<lambda>_. True) a \<and> bs = (\<lambda>a. be_bytes 8 (unat a)) a"
  "\<lambda>_. True" "\<lambda>a. be_bytes 8 (unat a)" CBB_add_u64 "\<lambda>_. True"
  by (intro wire_codec.intro get_u64.canonical_codec_axioms add_u64.cbb_writer_axioms
      wire_codec_axioms.intro) simp

interpretation wire_u16le: wire_codec CBS_get_u16le "\<lambda>a bs. (\<lambda>_. True) a \<and> bs = (\<lambda>a. le_bytes 2 (unat a)) a"
  "\<lambda>_. True" "\<lambda>a. le_bytes 2 (unat a)" CBB_add_u16le "\<lambda>_. True"
  by (intro wire_codec.intro get_u16le.canonical_codec_axioms add_u16le.cbb_writer_axioms
      wire_codec_axioms.intro) simp

interpretation wire_u32le: wire_codec CBS_get_u32le "\<lambda>a bs. (\<lambda>_. True) a \<and> bs = (\<lambda>a. le_bytes 4 (unat a)) a"
  "\<lambda>_. True" "\<lambda>a. le_bytes 4 (unat a)" CBB_add_u32le "\<lambda>_. True"
  by (intro wire_codec.intro get_u32le.canonical_codec_axioms add_u32le.cbb_writer_axioms
      wire_codec_axioms.intro) simp

interpretation wire_u64le: wire_codec CBS_get_u64le "\<lambda>a bs. (\<lambda>_. True) a \<and> bs = (\<lambda>a. le_bytes 8 (unat a)) a"
  "\<lambda>_. True" "\<lambda>a. le_bytes 8 (unat a)" CBB_add_u64le "\<lambda>_. True"
  by (intro wire_codec.intro get_u64le.canonical_codec_axioms add_u64le.cbb_writer_axioms
      wire_codec_axioms.intro) simp

end
