(* ===== verification/Der_Parse.thy ===== *)
theory Der_Parse
  imports Cbs Der_Spec
begin

text \<open>
  The ASN.1 half of \<open>crypto/bytestring/cbs.c\<close>: identifiers, lengths and elements in DER (and the
  BER variations the code tolerates when asked), and the readers of the primitive types.  Output
  parameters become components of the result; on failure the \<open>CBS\<close> left behind is modelled, the
  half written outputs are not, since no caller may read them.
\<close>

section \<open>Constants of \<open>bytestring.h\<close>\<close>

definition CBS_ASN1_TAG_SHIFT :: nat where "CBS_ASN1_TAG_SHIFT = 24"
definition CBS_ASN1_CONSTRUCTED :: u32 where "CBS_ASN1_CONSTRUCTED = push_bit CBS_ASN1_TAG_SHIFT 0x20"
definition CBS_ASN1_TAG_NUMBER_MASK :: u32 where
  "CBS_ASN1_TAG_NUMBER_MASK = push_bit (5 + CBS_ASN1_TAG_SHIFT) 1 - 1"
definition CBS_ASN1_BOOLEAN :: u32 where "CBS_ASN1_BOOLEAN = 0x1"
definition CBS_ASN1_INTEGER :: u32 where "CBS_ASN1_INTEGER = 0x2"
definition CBS_ASN1_OCTETSTRING :: u32 where "CBS_ASN1_OCTETSTRING = 0x4"

lemmas asn1_constants = CBS_ASN1_TAG_SHIFT_def CBS_ASN1_CONSTRUCTED_def
  CBS_ASN1_TAG_NUMBER_MASK_def CBS_ASN1_BOOLEAN_def CBS_ASN1_INTEGER_def CBS_ASN1_OCTETSTRING_def

section \<open>Identifiers\<close>

lemma CBS_get_u8_shorter: "CBS_get_u8 c = (Some b, c1) \<Longrightarrow> cbs_len c1 < cbs_len c"
  by (auto simp: CBS_get_u8_def cbs_get_def split: if_splits)

text \<open>
  \<open>parse_base128_integer\<close>: the \<open>do\<close> loop, whose state is the value read so far and the input.
\<close>

function parse_base128_loop :: "u64 \<Rightarrow> cbs \<Rightarrow> u64 option \<times> cbs" where
  "parse_base128_loop v c =
     (case CBS_get_u8 c of
        (None, c1) \<Rightarrow> (None, c1)
      | (Some b, c1) \<Rightarrow>
          if drop_bit (64 - 7) v \<noteq> 0 then (None, c1)
          else if v = 0 \<and> b = 0x80 then (None, c1)
          else let v1 = push_bit 7 v OR (ucast (b AND 0x7f))
               in if b AND 0x80 \<noteq> 0 then parse_base128_loop v1 c1 else (Some v1, c1))"
  by pat_completeness auto
termination
  by (relation "measure (\<lambda>(v, c). cbs_len c)") (auto dest: CBS_get_u8_shorter [OF sym])

declare parse_base128_loop.simps [simp del]

definition parse_base128_integer :: "cbs \<Rightarrow> u64 option \<times> cbs" where
  "parse_base128_integer c = parse_base128_loop 0 c"

definition parse_asn1_tag :: "cbs \<Rightarrow> u32 option \<times> cbs" where
  "parse_asn1_tag c =
     (case CBS_get_u8 c of
        (None, c1) \<Rightarrow> (None, c1)
      | (Some tag_byte, c1) \<Rightarrow>
          let tag = push_bit CBS_ASN1_TAG_SHIFT (ucast tag_byte AND 0xe0);
              tag_number = ucast (tag_byte AND 0x1f)
          in if tag_number = 0x1f
             then (case parse_base128_integer c1 of
                     (None, c2) \<Rightarrow> (None, c2)
                   | (Some v, c2) \<Rightarrow>
                       if v > ucast CBS_ASN1_TAG_NUMBER_MASK \<or> v < 0x1f then (None, c2)
                       else (Some (tag OR ucast v), c2))
             else (Some (tag OR tag_number), c1))"

text \<open>Reading a number or an identifier consumes input; the loops that read several rely on it.\<close>

lemma parse_base128_loop_shorter:
  "parse_base128_loop w c = (Some v, c1) \<Longrightarrow> cbs_len c1 < cbs_len c"
proof (induction w c rule: parse_base128_loop.induct)
  case (1 w c)
  obtain r c0 where g: "CBS_get_u8 c = (r, c0)" by fastforce
  from 1(2) g obtain b where b: "r = Some b"
    by (cases r) (simp_all add: parse_base128_loop.simps [of w c])
  with g have l: "cbs_len c0 < cbs_len c" by (simp add: CBS_get_u8_shorter)
  from 1(2) g b have "\<not> drop_bit (64 - 7) w \<noteq> 0" "\<not> (w = 0 \<and> b = 0x80)"
    and "(if b AND 0x80 \<noteq> 0 then parse_base128_loop (push_bit 7 w OR ucast (b AND 0x7f)) c0
          else (Some (push_bit 7 w OR ucast (b AND 0x7f)), c0)) = (Some v, c1)"
    by (auto simp: parse_base128_loop.simps [of w c] Let_def split: if_splits)
  with 1(1) [OF g [symmetric] b _ _ refl] l show ?case by (fastforce split: if_splits)
qed

lemma parse_base128_shorter: "parse_base128_integer c = (Some v, c1) \<Longrightarrow> cbs_len c1 < cbs_len c"
  unfolding parse_base128_integer_def by (rule parse_base128_loop_shorter)

lemma parse_asn1_tag_shorter:
  assumes "parse_asn1_tag c = (Some tag, h)"
  shows "cbs_len h < cbs_len c"
proof -
  from assms obtain t c1 where g: "CBS_get_u8 c = (Some t, c1)"
    by (auto simp: parse_asn1_tag_def split: prod.splits option.splits)
  have "h = c1 \<or> (\<exists>v. parse_base128_integer c1 = (Some v, h))"
    using assms g by (auto simp: parse_asn1_tag_def Let_def split: prod.splits option.splits if_splits)
  with CBS_get_u8_shorter [OF g] parse_base128_shorter show ?thesis by fastforce
qed

section \<open>Elements\<close>

record asn1_element =
  el_out :: cbs
  el_tag :: u32
  el_header_len :: nat
  el_ber_found :: bool

text \<open>
  \<open>cbs_get_any_asn1_element\<close>.  The input is left alone on every failure, because the header is
  read through a copy.  \<open>el_ber_found\<close> is meaningful only when \<open>ber_ok\<close>.  \<open>asn1_finish\<close> is the
  closing \<open>CBS_get_bytes\<close>, shared by the three ways to leave the function with a length.
\<close>

definition asn1_finish :: "cbs \<Rightarrow> u32 \<Rightarrow> nat \<Rightarrow> nat \<Rightarrow> bool \<Rightarrow> asn1_element option \<times> cbs" where
  "asn1_finish c tag header_len len ber_found =
     (case CBS_get_bytes len c of
        (None, c1) \<Rightarrow> (None, c1)
      | (Some out, c1) \<Rightarrow>
          (Some \<lparr>el_out = out, el_tag = tag, el_header_len = header_len,
                 el_ber_found = ber_found\<rparr>, c1))"

definition cbs_get_any_asn1_element :: "bool \<Rightarrow> cbs \<Rightarrow> asn1_element option \<times> cbs" where
  "cbs_get_any_asn1_element ber_ok c =
     (case parse_asn1_tag c of
        (None, _) \<Rightarrow> (None, c)
      | (Some tag, h1) \<Rightarrow>
     (case CBS_get_u8 h1 of
        (None, _) \<Rightarrow> (None, c)
      | (Some length_byte, h2) \<Rightarrow>
          let header_len = CBS_len c - CBS_len h2
          in if length_byte AND 0x80 = 0 then
               asn1_finish c tag header_len (unat length_byte + header_len) False
             else
               let num_bytes = unat (length_byte AND 0x7f)
               in if ber_ok \<and> tag AND CBS_ASN1_CONSTRUCTED \<noteq> 0 \<and> num_bytes = 0 then
                    asn1_finish c tag header_len header_len True
                  else if num_bytes = 0 \<or> num_bytes > 4 then (None, c)
                  else
                    (case cbs_get_u num_bytes h2 of
                       (None, _) \<Rightarrow> (None, c)
                     | (Some len64, _) \<Rightarrow>
                         let short = len64 < 128;
                             padded = drop_bit ((num_bytes - 1) * 8) len64 = 0;
                             len = unat len64
                         in if (short \<or> padded) \<and> \<not> ber_ok then (None, c)
                            else if size_wrap (len + header_len + num_bytes) < len then (None, c)
                            else asn1_finish c tag (header_len + num_bytes)
                                   (size_wrap (len + header_len + num_bytes)) (short \<or> padded))))"

definition CBS_get_any_asn1_element :: "cbs \<Rightarrow> asn1_element option \<times> cbs" where
  "CBS_get_any_asn1_element c = cbs_get_any_asn1_element False c"

definition CBS_get_any_ber_asn1_element :: "cbs \<Rightarrow> asn1_element option \<times> cbs" where
  "CBS_get_any_ber_asn1_element c = cbs_get_any_asn1_element True c"

definition CBS_get_any_asn1 :: "cbs \<Rightarrow> (cbs \<times> u32) option \<times> cbs" where
  "CBS_get_any_asn1 c =
     (case CBS_get_any_asn1_element c of
        (None, c1) \<Rightarrow> (None, c1)
      | (Some e, c1) \<Rightarrow>
          (case CBS_skip (el_header_len e) (el_out e) of
             (False, _) \<Rightarrow> (None, c1)
           | (True, out) \<Rightarrow> (Some (out, el_tag e), c1)))"

lemma asn1_finish_shorter:
  "\<lbrakk>asn1_finish c tag hl n ber = (Some e, c1); 0 < n\<rbrakk> \<Longrightarrow> cbs_len c1 < cbs_len c"
  by (auto simp: asn1_finish_def CBS_get_bytes_def cbs_get_def split: prod.splits option.splits if_splits)

lemma CBS_get_any_asn1_element_shorter:
  assumes "CBS_get_any_asn1_element c = (Some e, c1)"
  shows "cbs_len c1 < cbs_len c"
proof -
  from assms obtain tag h1 lb h2 where t: "parse_asn1_tag c = (Some tag, h1)" and g: "CBS_get_u8 h1 = (Some lb, h2)"
    by (auto simp: CBS_get_any_asn1_element_def cbs_get_any_asn1_element_def split: prod.splits option.splits)
  have hl: "0 < CBS_len c - CBS_len h2"
    using parse_asn1_tag_shorter [OF t] CBS_get_u8_shorter [OF g] by (simp add: CBS_len_def)
  have "\<exists>n ber hl'. 0 < n \<and> asn1_finish c tag hl' n ber = (Some e, c1)"
  proof (cases "lb AND 0x80 = 0")
    case True
    with assms t g have "asn1_finish c tag (CBS_len c - CBS_len h2)
        (unat lb + (CBS_len c - CBS_len h2)) False = (Some e, c1)"
      by (simp add: CBS_get_any_asn1_element_def cbs_get_any_asn1_element_def Let_def)
    with hl show ?thesis by (intro exI [of _ "unat lb + (CBS_len c - CBS_len h2)"]) auto
  next
    case False
    with assms t g obtain len64 and n :: nat and hl' ber where "\<not> len64 < (128 :: u64)" "\<not> n < unat len64"
      "asn1_finish c tag hl' n ber = (Some e, c1)"
      by (auto simp: CBS_get_any_asn1_element_def cbs_get_any_asn1_element_def Let_def
          split: prod.splits option.splits if_splits)
    then have "0 < n" by (simp add: word_less_nat_alt)
    with \<open>asn1_finish c tag hl' n ber = (Some e, c1)\<close> show ?thesis by blast
  qed
  then show ?thesis using asn1_finish_shorter by blast
qed

text \<open>A tag mismatch is detected after the element was consumed: the input has moved.\<close>

definition cbs_get_asn1 :: "u32 \<Rightarrow> bool \<Rightarrow> cbs \<Rightarrow> cbs option \<times> cbs" where
  "cbs_get_asn1 tag_value skip_header c =
     (case CBS_get_any_asn1_element c of
        (None, c1) \<Rightarrow> (None, c1)
      | (Some e, c1) \<Rightarrow>
          if el_tag e \<noteq> tag_value then (None, c1)
          else if skip_header then
            (case CBS_skip (el_header_len e) (el_out e) of
               (False, _) \<Rightarrow> (None, c1)
             | (True, out) \<Rightarrow> (Some out, c1))
          else (Some (el_out e), c1))"

definition CBS_get_asn1 :: "u32 \<Rightarrow> cbs \<Rightarrow> cbs option \<times> cbs" where
  "CBS_get_asn1 tag_value c = cbs_get_asn1 tag_value True c"

definition CBS_get_asn1_element :: "u32 \<Rightarrow> cbs \<Rightarrow> cbs option \<times> cbs" where
  "CBS_get_asn1_element tag_value c = cbs_get_asn1 tag_value False c"

definition CBS_peek_asn1_tag :: "cbs \<Rightarrow> u32 \<Rightarrow> bool" where
  "CBS_peek_asn1_tag c tag_value =
     (if CBS_len c < 1 then False
      else (case fst (parse_asn1_tag c) of
              None \<Rightarrow> False
            | Some actual_tag \<Rightarrow> tag_value = actual_tag))"

section \<open>Primitive types\<close>

text \<open>
  \<open>CBS_is_valid_asn1_integer\<close>: \<open>None\<close> for invalid contents, otherwise whether the value is
  negative.
\<close>

definition CBS_is_valid_asn1_integer :: "cbs \<Rightarrow> bool option" where
  "CBS_is_valid_asn1_integer c =
     (case CBS_get_u8 c of
        (None, _) \<Rightarrow> None
      | (Some first_byte, c1) \<Rightarrow>
          let is_negative = (first_byte AND 0x80 \<noteq> 0)
          in (case CBS_get_u8 c1 of
                (None, _) \<Rightarrow> Some is_negative
              | (Some second_byte, _) \<Rightarrow>
                  if first_byte = 0x00 \<and> second_byte AND 0x80 = 0 \<or>
                     first_byte = 0xff \<and> second_byte AND 0x80 \<noteq> 0
                  then None else Some is_negative))"

definition CBS_is_unsigned_asn1_integer :: "cbs \<Rightarrow> bool" where
  "CBS_is_unsigned_asn1_integer c \<longleftrightarrow> CBS_is_valid_asn1_integer c = Some False"

text \<open>The loop of \<open>CBS_get_asn1_uint64\<close>, stopping when another byte would not fit.\<close>

fun asn1_uint64_loop :: "u64 \<Rightarrow> byte list \<Rightarrow> u64 option" where
  "asn1_uint64_loop out [] = Some out"
| "asn1_uint64_loop out (b # bs) =
     (if drop_bit 56 out \<noteq> 0 then None
      else asn1_uint64_loop (push_bit 8 out OR ucast b) bs)"

definition CBS_get_asn1_uint64 :: "cbs \<Rightarrow> u64 option \<times> cbs" where
  "CBS_get_asn1_uint64 c =
     (case CBS_get_asn1 CBS_ASN1_INTEGER c of
        (None, c1) \<Rightarrow> (None, c1)
      | (Some bytes, c1) \<Rightarrow>
          if \<not> CBS_is_unsigned_asn1_integer bytes then (None, c1)
          else (asn1_uint64_loop 0 (take (CBS_len bytes) (CBS_data bytes)), c1))"

text \<open>
  \<open>CBS_get_asn1_int64\<close> fills the bytes of an \<open>int64_t\<close> from the low end (the byte order of the
  supported platforms) over a sign extension.  The result is the two's complement word.
\<close>

definition CBS_get_asn1_int64 :: "cbs \<Rightarrow> u64 option \<times> cbs" where
  "CBS_get_asn1_int64 c =
     (case CBS_get_asn1 CBS_ASN1_INTEGER c of
        (None, c1) \<Rightarrow> (None, c1)
      | (Some bytes, c1) \<Rightarrow>
          (case CBS_is_valid_asn1_integer bytes of
             None \<Rightarrow> (None, c1)
           | Some is_negative \<Rightarrow>
               let data = CBS_data bytes; len = CBS_len bytes
               in if len > 8 then (None, c1)
                  else let u0 = replicate 8 (if is_negative then 0xff else 0);
                           u = foldl (\<lambda>u i. u[i := data ! (len - i - 1)]) u0 [0..<len]
                       in (Some (word_of_nat (be_val (rev u))), c1)))"

definition CBS_get_asn1_bool :: "cbs \<Rightarrow> bool option \<times> cbs" where
  "CBS_get_asn1_bool c =
     (case CBS_get_asn1 CBS_ASN1_BOOLEAN c of
        (None, c1) \<Rightarrow> (None, c1)
      | (Some bytes, c1) \<Rightarrow>
          if CBS_len bytes \<noteq> 1 then (None, c1)
          else let v = CBS_data bytes ! 0
               in if v \<noteq> 0 \<and> v \<noteq> 0xff then (None, c1) else (Some (v \<noteq> 0), c1))"

text \<open>Optional fields: the inner \<open>option\<close> is \<open>*out_present\<close> together with \<open>*out\<close>.\<close>

definition CBS_get_optional_asn1 :: "u32 \<Rightarrow> cbs \<Rightarrow> cbs option option \<times> cbs" where
  "CBS_get_optional_asn1 tag c =
     (if CBS_peek_asn1_tag c tag then
        (case CBS_get_asn1 tag c of
           (None, c1) \<Rightarrow> (None, c1)
         | (Some out, c1) \<Rightarrow> (Some (Some out), c1))
      else (Some None, c))"

definition CBS_get_optional_asn1_octet_string :: "u32 \<Rightarrow> cbs \<Rightarrow> (cbs \<times> bool) option \<times> cbs" where
  "CBS_get_optional_asn1_octet_string tag c =
     (case CBS_get_optional_asn1 tag c of
        (None, c1) \<Rightarrow> (None, c1)
      | (Some (Some child), c1) \<Rightarrow>
          (case CBS_get_asn1 CBS_ASN1_OCTETSTRING child of
             (None, _) \<Rightarrow> (None, c1)
           | (Some out, child1) \<Rightarrow>
               if CBS_len child1 \<noteq> 0 then (None, c1) else (Some (out, True), c1))
      | (Some None, c1) \<Rightarrow> (Some (CBS_init [] 0, False), c1))"

definition CBS_get_optional_asn1_uint64 :: "u32 \<Rightarrow> u64 \<Rightarrow> cbs \<Rightarrow> u64 option \<times> cbs" where
  "CBS_get_optional_asn1_uint64 tag default_value c =
     (case CBS_get_optional_asn1 tag c of
        (None, c1) \<Rightarrow> (None, c1)
      | (Some (Some child), c1) \<Rightarrow>
          (case CBS_get_asn1_uint64 child of
             (None, _) \<Rightarrow> (None, c1)
           | (Some out, child1) \<Rightarrow>
               if CBS_len child1 \<noteq> 0 then (None, c1) else (Some out, c1))
      | (Some None, c1) \<Rightarrow> (Some default_value, c1))"

definition CBS_get_optional_asn1_bool :: "u32 \<Rightarrow> int \<Rightarrow> cbs \<Rightarrow> int option \<times> cbs" where
  "CBS_get_optional_asn1_bool tag default_value c =
     (case CBS_get_optional_asn1 tag c of
        (None, c1) \<Rightarrow> (None, c1)
      | (Some (Some child), c1) \<Rightarrow>
          (case CBS_get_asn1 CBS_ASN1_BOOLEAN child of
             (None, _) \<Rightarrow> (None, c1)
           | (Some child2, child1) \<Rightarrow>
               if CBS_len child2 \<noteq> 1 \<or> CBS_len child1 \<noteq> 0 then (None, c1)
               else let boolean = CBS_data child2 ! 0
                    in if boolean = 0 then (Some 0, c1)
                       else if boolean = 0xff then (Some 1, c1)
                       else (None, c1))
      | (Some None, c1) \<Rightarrow> (Some default_value, c1))"

definition CBS_is_valid_asn1_bitstring :: "cbs \<Rightarrow> bool" where
  "CBS_is_valid_asn1_bitstring c =
     (case CBS_get_u8 c of
        (None, _) \<Rightarrow> False
      | (Some num_unused_bits, c1) \<Rightarrow>
          if num_unused_bits > 7 then False
          else if num_unused_bits = 0 then True
          else (case CBS_get_last_u8 c1 of
                  (None, _) \<Rightarrow> False
                | (Some last_byte, _) \<Rightarrow>
                    (ucast last_byte :: u32) AND (push_bit (unat num_unused_bits) 1 - 1) = 0))"

definition CBS_asn1_bitstring_has_bit :: "cbs \<Rightarrow> u32 \<Rightarrow> bool" where
  "CBS_asn1_bitstring_has_bit c b =
     (if \<not> CBS_is_valid_asn1_bitstring c then False
      else let byte_num = drop_bit 3 b + 1;
               bit_num = 7 - (b AND 7)
           in unat byte_num < CBS_len c \<and>
              (ucast (CBS_data c ! unat byte_num) :: u32) AND push_bit (unat bit_num) 1 \<noteq> 0)"

section \<open>Base 128 integers\<close>

lemma unat_base128_step:
  assumes "unat v < 2 ^ 57"
  shows "unat (push_bit 7 v OR ucast (b AND 0x7f) :: u64) = 128 * unat v + unat (b :: byte) mod 128"
proof -
  have "ucast (b AND 0x7f) = (word_of_nat (unat b mod 128) :: u64)"
    by (simp only: ucast_eq_word_of_nat unat_and_0x7f)
  moreover have "unat v * 2 ^ 7 + unat b mod 128 < 2 ^ LENGTH(64)"
  proof -
    have "unat b mod 128 < 128" by simp
    with assms show ?thesis by simp
  qed
  ultimately show ?thesis
    using unat_shift_in [of "unat b mod 128" 7 v] by (simp add: mult.commute)
qed

lemma base128_step_nonzero:
  assumes "128 \<le> unat (b :: byte)" and "\<not> (v = 0 \<and> b = 0x80)"
    and "unat (w :: u64) = 128 * unat (v :: u64) + unat b mod 128"
  shows "w \<noteq> 0"
proof
  assume "w = 0"
  then have "unat w = 0" by simp
  with assms(3) have "unat v = 0" and "unat b mod 128 = 0" by simp_all
  with assms(1) have "v = 0" and "unat b = 128" by (simp_all add: unat_0_iff byte_mod_high)
  with assms(2) show False by (simp add: byte_eq_iff)
qed

lemma parse_base128_loop_sound:
  "\<lbrakk>cbs_ok c; parse_base128_loop v c = (Some w, c')\<rbrakk> \<Longrightarrow>
     \<exists>bs. cbs_ok c' \<and> cbs_bytes c = bs @ cbs_bytes c' \<and> b128_ok (v = 0) bs \<and>
       unat w = b128_val (unat v) bs"
proof (induction "cbs_len c" arbitrary: v c rule: less_induct)
  case (less c v)
  from less.prems(2) obtain b c1 where g: "CBS_get_u8 c = (Some b, c1)"
    by (subst (asm) parse_base128_loop.simps) (auto split: prod.splits option.splits)
  note c1 = CBS_get_u8_SomeD [OF less.prems(1) g]
  define v1 :: u64 where "v1 = push_bit 7 v OR ucast (b AND 0x7f)"
  from less.prems(2) g have ov: "drop_bit 57 v = 0" and min: "\<not> (v = 0 \<and> b = 0x80)"
    and res: "(if b AND 0x80 \<noteq> 0 then parse_base128_loop v1 c1 else (Some v1, c1)) = (Some w, c')"
    by (auto simp: parse_base128_loop.simps [of v c] Let_def v1_def split: if_splits)
  from ov have v1: "unat v1 = 128 * unat v + unat b mod 128"
    unfolding v1_def by (intro unat_base128_step) (simp add: drop_bit_eq_0_iff)
  show ?case
  proof (cases "b AND 0x80 = 0")
    case True
    with res c1 v1 min show ?thesis by (intro exI [of _ "[b]"]) auto
  next
    case False
    then have h: "128 \<le> unat b" by (simp add: byte_high_bit)
    have "v1 \<noteq> 0" using base128_step_nonzero [OF h min v1] .
    moreover from False res have "parse_base128_loop v1 c1 = (Some w, c')" by simp
    with less.hyps [OF CBS_get_u8_shorter [OF g]] c1 obtain bs where
      "cbs_ok c'" "cbs_bytes c1 = bs @ cbs_bytes c'" "b128_ok (v1 = 0) bs"
      "unat w = b128_val (unat v1) bs" by blast
    ultimately have "cbs_ok c' \<and> cbs_bytes c = (b # bs) @ cbs_bytes c' \<and>
        b128_ok (v = 0) (b # bs) \<and> unat w = b128_val (unat v) (b # bs)"
      using c1 v1 min False by (simp only: b128_ok.simps b128_val.simps append_Cons) simp
    then show ?thesis by blast
  qed
qed

lemma parse_base128_loop_complete:
  "\<lbrakk>cbs_ok c; b128_ok (v = 0) bs; b128_val (unat v) bs < 2 ^ 64; cbs_bytes c = bs @ rest\<rbrakk> \<Longrightarrow>
     \<exists>c'. parse_base128_loop v c = (Some (word_of_nat (b128_val (unat v) bs)), c') \<and>
       cbs_bytes c' = rest \<and> cbs_ok c'"
proof (induction bs arbitrary: v c)
  case Nil
  then show ?case by simp
next
  case (Cons b bs)
  define v1 :: u64 where "v1 = push_bit 7 v OR ucast (b AND 0x7f)"
  let ?c1 = "cbs_advance 1 c"
  have g: "CBS_get_u8 c = (Some b, ?c1)"
    using Cons.prems by (intro CBS_get_u8_Cons) auto
  have c1: "cbs_ok ?c1" "cbs_bytes ?c1 = bs @ rest" using Cons.prems by auto
  have "128 * unat v + unat b mod 128 < 2 ^ 64"
    using Cons.prems(3) b128_val_ge [of "128 * unat v + unat b mod 128" bs] by simp
  then have lt: "unat v < 2 ^ 57" by simp
  then have v1: "unat v1 = 128 * unat v + unat b mod 128"
    unfolding v1_def by (rule unat_base128_step)
  have loop: "parse_base128_loop v c =
      (if b AND 0x80 \<noteq> 0 then parse_base128_loop v1 ?c1 else (Some v1, ?c1))"
    using g lt Cons.prems(2)
    by (auto simp: parse_base128_loop.simps [of v c] v1_def Let_def drop_bit_eq_0_iff)
  show ?case
  proof (cases "b AND 0x80 = 0")
    case True
    with Cons.prems(2) have "bs = []" by simp
    with True loop v1 c1 show ?thesis by (simp add: v1 [symmetric] del: of_nat_add of_nat_mult)
  next
    case False
    with Cons.prems(2) have min: "\<not> (v = 0 \<and> b = 0x80)" and ok: "b128_ok False bs" by auto
    have "v1 \<noteq> 0" using base128_step_nonzero [OF _ min v1] False by (simp add: byte_high_bit)
    with ok have "b128_ok (v1 = 0) bs" by simp
    moreover have "b128_val (unat v1) bs < 2 ^ 64" using Cons.prems(3) v1 by simp
    ultimately obtain c' where
      "parse_base128_loop v1 ?c1 = (Some (word_of_nat (b128_val (unat v1) bs)), c')"
      "cbs_bytes c' = rest" "cbs_ok c'"
      using Cons.IH [OF c1(1) _ _ c1(2), of v1] by blast
    with False loop v1 show ?thesis by simp
  qed
qed

interpretation b128: canonical_codec "\<lambda>b. CBS_init b (length b)" cbs_bytes cbs_ok
  parse_base128_integer "\<lambda>v bs. True \<and> bs = base128 (unat v)" "\<lambda>_. True" "\<lambda>v. base128 (unat v)"
proof (unfold_locales, goal_cases)
  case (3 s a s')
  from parse_base128_loop_sound [OF 3(1)] 3(2) show ?case
    unfolding parse_base128_integer_def by (fastforce simp: base128_iff)
next
  case (4 s a bs rest)
  then have "b128_ok (0 = (0 :: u64)) bs" and v: "b128_val 0 bs = unat a"
    using base128_iff [of bs "unat a"] by simp_all
  with parse_base128_loop_complete [OF 4(1), of 0 bs rest] 4 unat_u64_less [of a] show ?case
    unfolding parse_base128_integer_def by simp
qed simp_all

section \<open>Identifiers\<close>

text \<open>The two parts of an identifier as the code assembles them.\<close>

lemma unat_tag_word:
  assumes "n < 2 ^ 29"
  shows "unat (push_bit CBS_ASN1_TAG_SHIFT (ucast (t :: byte) AND 0xe0) OR word_of_nat n :: u32)
           = 2 ^ 29 * (unat t div 32) + n"
proof -
  let ?f = "take_bit 3 (drop_bit 5 (ucast t :: u32))"
  have "push_bit CBS_ASN1_TAG_SHIFT (ucast t AND 0xe0 :: u32) = push_bit 29 ?f"
    by (simp add: and_0xe0 CBS_ASN1_TAG_SHIFT_def)
  moreover have "unat ?f = unat t div 32"
  proof -
    have "unat t div 32 < 2 ^ 3" by simp
    then show ?thesis by (simp add: unsigned_take_bit_eq unat_drop_bit take_bit_nat_eq_self)
  qed
  moreover have "unat t div 32 * 2 ^ 29 + n < 2 ^ LENGTH(32)"
  proof -
    have "unat t div 32 \<le> 7" using byte_div_32 [of t] by linarith
    with assms show ?thesis by simp
  qed
  ultimately show ?thesis using unat_shift_in [OF assms, of ?f] by (simp add: mult.commute)
qed

lemma unat_tag_number [simp]: "unat (ucast ((t :: byte) AND 0x1f) :: u32) = unat t mod 32"
  by (simp add: unat_ucast_up)

lemma tag_word_low:
  "push_bit CBS_ASN1_TAG_SHIFT (ucast (t :: byte) AND 0xe0) OR ucast (t AND 0x1f) = (tag :: u32) \<Longrightarrow>
     unat tag = 2 ^ 29 * (unat t div 32) + unat t mod 32"
proof -
  have "(ucast (t AND 0x1f) :: u32) = word_of_nat (unat t mod 32)"
    by (simp only: ucast_eq_word_of_nat unat_and_0x1f)
  moreover have "unat t mod 32 < 2 ^ 29" by (rule order_less_trans [of _ 32]) simp_all
  moreover assume "push_bit CBS_ASN1_TAG_SHIFT (ucast t AND 0xe0) OR ucast (t AND 0x1f) = tag"
  ultimately show ?thesis using unat_tag_word [of "unat t mod 32" t] by simp
qed

lemma der_tag_split:
  assumes "unat tag = 2 ^ 29 * k + n" and "n < 2 ^ 29"
  shows "der_tag tag =
    (if n < 0x1f then [byte_of (32 * k + n)] else byte_of (32 * k + 0x1f) # base128 n)"
  using assms by (simp add: der_tag_def Let_def)

lemma byte_split_32: "byte_of (32 * (unat (t :: byte) div 32) + unat t mod 32) = t"
  by simp

text \<open>How the reader of identifiers behaves, from the first byte on.\<close>

lemma parse_asn1_tag_Cons:
  assumes "cbs_ok c" and "cbs_bytes c = t # bs"
  shows "parse_asn1_tag c =
    (if unat t mod 32 = 31 then
       (case parse_base128_integer (cbs_advance 1 c) of
          (None, c2) \<Rightarrow> (None, c2)
        | (Some v, c2) \<Rightarrow>
            if 2 ^ 29 \<le> unat v \<or> unat v < 31 then (None, c2)
            else (Some (word_of_nat (2 ^ 29 * (unat t div 32) + unat v)), c2))
     else (Some (word_of_nat (2 ^ 29 * (unat t div 32) + unat t mod 32)), cbs_advance 1 c))"
proof -
  have num: "(ucast (t AND 0x1f) = (0x1f :: u32)) \<longleftrightarrow> unat t mod 32 = 31"
    by (simp add: word_unat_eq_iff)
  have low: "push_bit CBS_ASN1_TAG_SHIFT (ucast t AND 0xe0) OR ucast (t AND 0x1f)
      = (word_of_nat (2 ^ 29 * (unat t div 32) + unat t mod 32) :: u32)"
    by (rule word_of_nat_eqI) (rule tag_word_low, rule refl)
  have high: "push_bit CBS_ASN1_TAG_SHIFT (ucast t AND 0xe0) OR ucast v
      = (word_of_nat (2 ^ 29 * (unat t div 32) + unat v) :: u32)"
    if "unat v < 2 ^ 29" for v :: u64
    using unat_tag_word [OF that, of t] by (intro word_of_nat_eqI) (simp only: ucast_eq_word_of_nat)
  have bound: "(ucast CBS_ASN1_TAG_NUMBER_MASK < v) \<longleftrightarrow> 2 ^ 29 \<le> unat v"
    and small: "(v < 0x1f) \<longleftrightarrow> unat v < 31" for v :: u64
    by (auto simp: word_less_nat_alt asn1_constants)
  show ?thesis
    using CBS_get_u8_Cons [OF assms] num low high
    by (auto simp: parse_asn1_tag_def bound small Let_def simp del: of_nat_add of_nat_mult
        split: prod.splits option.splits)
qed

lemma unat_tag_parts:
  assumes "k < 8" and "n < 2 ^ 29"
  shows "unat (word_of_nat (2 ^ 29 * k + n) :: u32) = 2 ^ 29 * k + n"
proof -
  have "k \<le> 7" using assms(1) by simp
  with assms(2) have "2 ^ 29 * k + n < 2 ^ LENGTH(32)" by simp
  then show ?thesis by (simp only: unat_of_nat mod_less)
qed

lemma parse_asn1_tag_sound:
  assumes "cbs_ok c" and "parse_asn1_tag c = (Some tag, c')"
  shows "cbs_bytes c = der_tag tag @ cbs_bytes c' \<and> cbs_ok c'"
proof (cases "cbs_bytes c")
  case Nil
  with assms show ?thesis by (simp add: parse_asn1_tag_def CBS_get_u8_Nil)
next
  case (Cons t bs)
  let ?k = "unat t div 32"
  note p = parse_asn1_tag_Cons [OF assms(1) Cons] assms(2)
  show ?thesis
  proof (cases "unat t mod 32 = 31")
    case False
    then have n: "unat t mod 32 < 31" using mod_less_divisor [of 32 "unat t"] by linarith
    from False p have "tag = word_of_nat (2 ^ 29 * ?k + unat t mod 32)" and c': "c' = cbs_advance 1 c"
      by simp_all
    moreover from n have "unat t mod 32 < 2 ^ 29" by simp
    ultimately have "unat tag = 2 ^ 29 * ?k + unat t mod 32"
      by (simp only: unat_tag_parts [OF byte_div_32])
    from der_tag_split [OF this] n have "der_tag tag = [t]" by simp
    with c' Cons assms(1) show ?thesis by simp
  next
    case True
    with p obtain v where b: "parse_base128_integer (cbs_advance 1 c) = (Some v, c')"
      and v: "unat v < 2 ^ 29" "31 \<le> unat v" and tag: "tag = word_of_nat (2 ^ 29 * ?k + unat v)"
      by (auto simp del: of_nat_add of_nat_mult split: prod.splits option.splits if_splits)
    from b128.canonical [OF _ b] assms(1) Cons
    have bs: "bs = base128 (unat v) @ cbs_bytes c'" "cbs_ok c'" by simp_all
    from v have "unat tag = 2 ^ 29 * ?k + unat v" by (simp only: tag unat_tag_parts [OF byte_div_32])
    from der_tag_split [OF this v(1)] v(2) have "der_tag tag = byte_of (32 * ?k + 31) # base128 (unat v)"
      by simp
    moreover have "byte_of (32 * ?k + 31) = t" using byte_split_32 [of t] True by simp
    ultimately show ?thesis using bs Cons by simp
  qed
qed

lemma parse_asn1_tag_complete:
  assumes "cbs_ok c" and "cbs_bytes c = der_tag tag @ rest"
  shows "\<exists>c'. parse_asn1_tag c = (Some tag, c') \<and> cbs_bytes c' = rest \<and> cbs_ok c'"
proof -
  let ?k = "unat tag div 2 ^ 29" and ?n = "unat tag mod 2 ^ 29"
  have k: "?k < 8" using unat_u32_less [of tag] by (intro less_mult_imp_div_less) simp
  have n: "?n < 2 ^ 29" by simp
  have tag: "word_of_nat (2 ^ 29 * ?k + ?n) = tag" by (simp only: mult_div_mod_eq word_of_nat_unat)
  have split: "der_tag tag =
      (if ?n < 0x1f then [byte_of (32 * ?k + ?n)] else byte_of (32 * ?k + 0x1f) # base128 ?n)"
    by (rule der_tag_split) simp_all
  have first: "unat (byte_of (32 * ?k + m)) div 32 = ?k" "unat (byte_of (32 * ?k + m)) mod 32 = m"
    if "m < 32" for m
  proof -
    have "32 * ?k + m < 256" using k that by linarith
    then show "unat (byte_of (32 * ?k + m)) div 32 = ?k" "unat (byte_of (32 * ?k + m)) mod 32 = m"
      using that by simp_all
  qed
  show ?thesis
  proof (cases "?n < 0x1f")
    case True
    with split assms(2) have b: "cbs_bytes c = byte_of (32 * ?k + ?n) # rest" by simp
    from parse_asn1_tag_Cons [OF assms(1) b] True tag first [of ?n] assms(1) b show ?thesis
      by (auto simp del: unat_byte_of of_nat_add of_nat_mult)
  next
    case False
    with split assms(2) have b: "cbs_bytes c = byte_of (32 * ?k + 31) # base128 ?n @ rest" by simp
    have v: "unat (word_of_nat ?n :: u64) = ?n"
      using n by (simp only: unat_of_nat) (simp add: order_less_trans [OF mod_less_divisor])
    obtain c2 where c2: "parse_base128_integer (cbs_advance 1 c) = (Some (word_of_nat ?n), c2)"
      "cbs_bytes c2 = rest" "cbs_ok c2"
      using b128.round_trip [of "cbs_advance 1 c" "word_of_nat ?n" rest] assms(1) b v by auto
    from parse_asn1_tag_Cons [OF assms(1) b] False tag first [of 31] c2 v n show ?thesis
      by (auto simp del: unat_byte_of of_nat_add of_nat_mult)
  qed
qed

interpretation asn1_tag: canonical_codec "\<lambda>b. CBS_init b (length b)" cbs_bytes cbs_ok
  parse_asn1_tag "\<lambda>tag bs. True \<and> bs = der_tag tag" "\<lambda>_. True" der_tag
  by unfold_locales (auto dest: parse_asn1_tag_sound parse_asn1_tag_complete)

section \<open>Elements\<close>

lemma asn1_finish_append:
  assumes "cbs_ok c" and "cbs_bytes c = bs @ rest"
  shows "\<exists>e c1. asn1_finish c tag hl (length bs) ber = (Some e, c1) \<and> cbs_ok (el_out e) \<and> cbs_ok c1 \<and>
    cbs_bytes (el_out e) = bs \<and> cbs_bytes c1 = rest \<and> el_tag e = tag \<and> el_header_len e = hl \<and>
    el_ber_found e = ber"
  using CBS_get_bytes_append [OF assms] by (fastforce simp: asn1_finish_def)

lemma asn1_finish_Some:
  assumes "cbs_ok c" and "asn1_finish c tag hl n ber = (Some e, c1)"
  shows "cbs_ok (el_out e) \<and> cbs_ok c1 \<and> cbs_len (el_out e) = n \<and>
    cbs_bytes c = cbs_bytes (el_out e) @ cbs_bytes c1 \<and> el_tag e = tag \<and> el_header_len e = hl \<and>
    el_ber_found e = ber"
proof -
  from assms(2) obtain out where g: "CBS_get_bytes n c = (Some out, c1)"
    and e: "e = \<lparr>el_out = out, el_tag = tag, el_header_len = hl, el_ber_found = ber\<rparr>"
    by (auto simp: asn1_finish_def split: prod.splits option.splits)
  from CBS_get_bytes_Some [OF assms(1) g] e show ?thesis by simp
qed

lemma length_base128_le: "\<lbrakk>v < 128 ^ k; 0 < k\<rbrakk> \<Longrightarrow> length (base128 v) \<le> k"
proof -
  have cont: "v < 128 ^ k \<Longrightarrow> length (b128_cont v) \<le> k" for v k
  proof (induction k arbitrary: v)
    case 0
    then show ?case by simp
  next
    case (Suc k)
    then have "v div 128 < 128 ^ k" by (simp add: less_mult_imp_div_less mult.commute)
    with Suc.IH show ?case by (cases "v = 0") (simp_all add: b128_cont.simps [of v])
  qed
  assume "v < 128 ^ k" and "0 < k"
  then have "v div 128 < 128 ^ (k - 1)"
    by (cases k) (simp_all add: less_mult_imp_div_less mult.commute)
  from cont [OF this] \<open>0 < k\<close> show ?thesis by (simp add: base128_def)
qed

lemma length_der_tag: "length (der_tag tag) \<le> 6" "der_tag tag \<noteq> []"
proof -
  have "unat tag mod 2 ^ 29 < 128 ^ 5"
    by (rule order_less_trans [of _ "2 ^ 29"]) simp_all
  from length_base128_le [OF this] show "length (der_tag tag) \<le> 6"
    by (simp add: der_tag_def Let_def)
qed (simp add: der_tag_def Let_def)

text \<open>The long form of a length, seen from its first byte and its value bytes.\<close>

lemma der_len_long:
  assumes "length p = k" and "0 < k" and "k \<le> 4" and "128 \<le> be_val p" and "256 ^ (k - 1) \<le> be_val p"
  shows "der_len (be_val p) = byte_of (128 + k) # p"
proof -
  have "byte_count (be_val p) = k"
    using byte_count_eq [of "be_val p" "k - 1"] be_val_less [of p] assms by simp
  with assms(1,4) be_bytes_be_val [of p] show ?thesis by (simp add: der_len_def)
qed

lemma der_len_short: "n < 128 \<Longrightarrow> der_len n = [byte_of n]"
  by (simp add: der_len_def)

lemma der_len_cases:
  assumes "n < 2 ^ 32"
  obtains "n < 128" and "der_len n = [byte_of n]"
  | k where "128 \<le> n" and "0 < k" and "k \<le> 4" and "256 ^ (k - 1) \<le> n" and "n < 256 ^ k"
      and "der_len n = byte_of (128 + k) # be_bytes k n"
proof (cases "n < 128")
  case True
  with that(1) show ?thesis by (simp add: der_len_short)
next
  case False
  let ?k = "byte_count n"
  have "?k \<le> 4" using assms by (simp add: byte_count_le_iff)
  moreover have "0 < ?k" using False by (simp add: byte_count.simps [of n])
  moreover from this have "\<not> ?k \<le> ?k - 1" by simp
  then have "256 ^ (?k - 1) \<le> n" unfolding byte_count_le_iff by simp
  ultimately show ?thesis using that(2) [of ?k] False less_256_byte_count [of n]
    by (simp add: der_len_def)
qed

text \<open>The DER reader, given what the identifier reader and the first length byte were.\<close>

lemma der_element_eq:
  assumes "parse_asn1_tag c = (Some tag, h1)" and "CBS_get_u8 h1 = (Some lb, h2)" and "cbs_ok h2"
    and "hl = cbs_len c - cbs_len h2" and "hl \<le> 7"
  shows "cbs_get_any_asn1_element False c =
     (if unat lb < 128 then asn1_finish c tag hl (unat lb + hl) False
      else let k = unat lb mod 128; p = take k (cbs_bytes h2); n = be_val p in
        if k = 0 \<or> 4 < k \<or> cbs_len h2 < k \<or> n < 128 \<or> n < 256 ^ (k - 1) then (None, c)
        else asn1_finish c tag (hl + k) (n + hl + k) False)"
proof (cases "unat lb < 128 \<or> unat lb mod 128 = 0 \<or> 4 < unat lb mod 128 \<or> cbs_len h2 < unat lb mod 128")
  case True
  with assms show ?thesis
    by (auto simp: cbs_get_any_asn1_element_def CBS_len_def Let_def byte_high_bit cbs_get_u_eq)
next
  case False
  define k where "k = unat lb mod 128"
  define p where "p = take k (cbs_bytes h2)"
  from False have k: "0 < k" "k \<le> 4" "k \<le> cbs_len h2" and hi: "128 \<le> unat lb"
    by (auto simp: k_def)
  then have lp: "length p = k" using assms(3) by (simp add: p_def)
  then have n: "unat (word_of_nat (be_val p) :: u64) = be_val p"
    using k(2) by (intro unat_word_be_val) simp
  have "be_val p < 256 ^ 4" by (rule be_val_less_pow) (simp add: lp k)
  then have wrap: "size_wrap (be_val p + hl + k) = be_val p + hl + k"
    using k(2) assms(5) by simp
  have pad: "drop_bit ((k - 1) * 8) (word_of_nat (be_val p) :: u64) = 0 \<longleftrightarrow> be_val p < 256 ^ (k - 1)"
  proof -
    have "(2 :: nat) ^ ((k - 1) * 8) = 256 ^ (k - 1)" by (subst mult.commute) (simp add: power_mult)
    then show ?thesis by (simp only: drop_bit_eq_0_iff n)
  qed
  have short: "(word_of_nat (be_val p) :: u64) < 128 \<longleftrightarrow> be_val p < 128"
    by (simp add: word_less_nat_alt n)
  have "cbs_get_any_asn1_element False c =
      (if be_val p < 128 \<or> be_val p < 256 ^ (k - 1) then (None, c)
       else asn1_finish c tag (hl + k) (be_val p + hl + k) False)"
    using assms k hi n wrap pad short
    by (simp add: cbs_get_any_asn1_element_def CBS_len_def Let_def byte_high_bit cbs_get_u_eq
        k_def [symmetric] p_def [symmetric])
  with k hi show ?thesis by (simp add: k_def [symmetric] p_def [symmetric] Let_def)
qed

text \<open>
  Soundness: whatever the DER reader returns was the one DER encoding of its tag and contents,
  and nothing else was consumed.
\<close>

lemma der_element_sound:
  assumes "cbs_ok c" and "cbs_get_any_asn1_element False c = (Some e, c')"
  shows "\<exists>contents. cbs_bytes (el_out e) = der_element (el_tag e) contents \<and>
    cbs_bytes c = der_element (el_tag e) contents @ cbs_bytes c' \<and>
    el_header_len e = length (der_tag (el_tag e)) + length (der_len (length contents)) \<and>
    length contents < 2 ^ 32 \<and> cbs_ok (el_out e) \<and> cbs_ok c' \<and> \<not> el_ber_found e"
proof -
  from assms(2) obtain tag h1 lb h2 where
    t: "parse_asn1_tag c = (Some tag, h1)" and g: "CBS_get_u8 h1 = (Some lb, h2)"
    by (auto simp: cbs_get_any_asn1_element_def split: prod.splits option.splits)
  from parse_asn1_tag_sound [OF assms(1) t] have 1: "cbs_bytes c = der_tag tag @ cbs_bytes h1" "cbs_ok h1"
    by simp_all
  from CBS_get_u8_SomeD [OF 1(2) g] have 2: "cbs_bytes h1 = lb # cbs_bytes h2" "cbs_ok h2" by simp_all
  define hl where "hl = cbs_len c - cbs_len h2"
  have "length (cbs_bytes c) = length (der_tag tag) + 1 + length (cbs_bytes h2)"
    by (simp add: 1(1) 2(1) del: length_cbs_bytes)
  then have hl: "hl = length (der_tag tag) + 1"
    using assms(1) 2(2) by (simp add: hl_def)
  have "hl \<le> 7" using length_der_tag(1) [of tag] by (simp add: hl)
  note eq = der_element_eq [OF t g 2(2) hl_def this] assms(2)
  show ?thesis
  proof (cases "unat lb < 128")
    case True
    with eq have f: "asn1_finish c tag hl (unat lb + hl) False = (Some e, c')" by simp
    note e = asn1_finish_Some [OF assms(1) f]
    let ?contents = "take (unat lb) (cbs_bytes h2)"
    from e hl have l: "length (cbs_bytes (el_out e)) = length (der_tag tag @ [lb]) + unat lb" by simp
    from e 1 2 have "cbs_bytes (el_out e) @ cbs_bytes c' = (der_tag tag @ [lb]) @ cbs_bytes h2"
      by simp
    from append_eq_take [OF this l] have split: "cbs_bytes (el_out e) = der_tag tag @ lb # ?contents"
      and "unat lb \<le> length (cbs_bytes h2)" by simp_all
    then have "length ?contents = unat lb" by simp
    moreover from this True have "der_len (length ?contents) = [lb]" by (simp add: der_len_short)
    ultimately show ?thesis using e split hl True
      by (intro exI [of _ ?contents]) (simp add: der_element_def)
  next
    case False
    define k where "k = unat lb mod 128"
    define p where "p = take k (cbs_bytes h2)"
    from eq False have c: "0 < k" "k \<le> 4" "k \<le> cbs_len h2" "128 \<le> be_val p" "256 ^ (k - 1) \<le> be_val p"
      and f: "asn1_finish c tag (hl + k) (be_val p + hl + k) False = (Some e, c')"
      by (auto simp: Let_def k_def p_def split: if_splits)
    note e = asn1_finish_Some [OF assms(1) f]
    have lp: "length p = k" using c 2 by (simp add: p_def)
    have lb: "byte_of (128 + k) = lb" using False byte_cont [of lb] by (simp add: k_def)
    have len: "der_len (be_val p) = lb # p" using der_len_long [OF lp c(1,2,4,5)] lb by simp
    let ?contents = "take (be_val p) (drop k (cbs_bytes h2))"
    from e hl lp have l: "length (cbs_bytes (el_out e)) = length (der_tag tag @ lb # p) + be_val p"
      by simp
    have "cbs_bytes h2 = p @ drop k (cbs_bytes h2)" by (simp add: p_def)
    then have "cbs_bytes c = (der_tag tag @ lb # p) @ drop k (cbs_bytes h2)"
      using 1 2 by (metis append.assoc append_Cons)
    with e have "cbs_bytes (el_out e) @ cbs_bytes c' = (der_tag tag @ lb # p) @ drop k (cbs_bytes h2)"
      by simp
    from append_eq_take [OF this l]
    have split: "cbs_bytes (el_out e) = (der_tag tag @ lb # p) @ ?contents"
      and "be_val p \<le> length (drop k (cbs_bytes h2))" by simp_all
    then have lc: "length ?contents = be_val p" by simp
    moreover have "be_val p < 256 ^ 4" by (rule be_val_less_pow) (simp add: lp c)
    ultimately show ?thesis using e split hl len lp
      by (intro exI [of _ ?contents]) (simp add: der_element_def)
  qed
qed

text \<open>
  Completeness, for the DER and the BER reader alike: a DER encoding is accepted, and reported as
  such.
\<close>

lemma element_complete:
  assumes "cbs_ok c" and "length contents < 2 ^ 32"
    and "cbs_bytes c = der_element tag contents @ rest"
  shows "\<exists>e c'. cbs_get_any_asn1_element ber_ok c = (Some e, c') \<and> el_tag e = tag \<and>
    cbs_bytes (el_out e) = der_element tag contents \<and> cbs_bytes c' = rest \<and>
    el_header_len e = length (der_tag tag) + length (der_len (length contents)) \<and>
    \<not> el_ber_found e \<and> cbs_ok (el_out e) \<and> cbs_ok c'"
proof -
  let ?n = "length contents"
  from assms(3) have "cbs_bytes c = der_tag tag @ (der_len ?n @ contents @ rest)"
    by (simp add: der_element_def)
  from parse_asn1_tag_complete [OF assms(1) this] obtain h1 where
    t: "parse_asn1_tag c = (Some tag, h1)" "cbs_bytes h1 = der_len ?n @ contents @ rest" "cbs_ok h1"
    by blast
  have len_c: "cbs_len c = length (der_tag tag) + length (der_len ?n) + ?n + length rest"
    using assms(3) length_cbs_bytes [OF assms(1)] by (simp add: der_element_def)
  from assms(2) show ?thesis
  proof (cases rule: der_len_cases)
    case 1
    let ?h2 = "cbs_advance 1 h1"
    have g: "CBS_get_u8 h1 = (Some (byte_of ?n), ?h2)"
      using t(2,3) 1(2) by (intro CBS_get_u8_Cons) simp_all
    have "cbs_len ?h2 = ?n + length rest"
      using t(2,3) 1(2) length_cbs_bytes [OF t(3)] by simp
    with len_c 1 have hl: "cbs_len c - cbs_len ?h2 = length (der_tag tag) + 1" by simp
    have "cbs_get_any_asn1_element ber_ok c =
        asn1_finish c tag (length (der_tag tag) + 1) (length (der_element tag contents)) False"
      using t(1) g hl 1
      by (simp add: cbs_get_any_asn1_element_def CBS_len_def Let_def byte_high_bit der_element_def
          add.commute)
    with asn1_finish_append [OF assms(1,3), of tag "length (der_tag tag) + 1" False] 1(2)
    show ?thesis by fastforce
  next
    case (2 k)
    let ?h2 = "cbs_advance 1 h1" and ?lb = "byte_of (128 + k)"
    have g: "CBS_get_u8 h1 = (Some ?lb, ?h2)"
      using t(2,3) 2(6) by (intro CBS_get_u8_Cons) simp_all
    have b2: "cbs_ok ?h2" "cbs_bytes ?h2 = be_bytes k ?n @ contents @ rest"
      using t(2,3) 2(6) by simp_all
    then have l2: "cbs_len ?h2 = k + ?n + length rest"
      using length_cbs_bytes [OF b2(1)] by simp
    with len_c 2(6) have hl: "cbs_len c - cbs_len ?h2 = length (der_tag tag) + 1" by simp
    have lb: "unat ?lb = 128 + k" "unat (?lb AND 0x7f) = k" using 2(3) by simp_all
    have n: "unat (word_of_nat ?n :: u64) = ?n"
      using assms(2) by (simp only: unat_of_nat) simp
    have u: "cbs_get_u k ?h2 = (Some (word_of_nat ?n), cbs_advance k ?h2)"
      using b2 l2 2(5) by (simp add: cbs_get_u_eq be_val_be_bytes_id)
    have pad: "drop_bit ((k - 1) * 8) (word_of_nat ?n :: u64) \<noteq> 0"
    proof -
      have "(2 :: nat) ^ ((k - 1) * 8) = 256 ^ (k - 1)" by (subst mult.commute) (simp add: power_mult)
      then show ?thesis using 2(4) by (simp only: drop_bit_eq_0_iff n not_less)
    qed
    have short: "\<not> (word_of_nat ?n :: u64) < 128" using 2(1) by (simp only: word_less_nat_alt n) simp
    have wrap: "size_wrap (?n + (length (der_tag tag) + 1) + k) = ?n + (length (der_tag tag) + 1) + k"
      using assms(2) 2(3) length_der_tag(1) [of tag] by simp
    have "cbs_get_any_asn1_element ber_ok c =
        asn1_finish c tag (length (der_tag tag) + 1 + k) (?n + (length (der_tag tag) + 1) + k) False"
      unfolding cbs_get_any_asn1_element_def CBS_len_def t(1) g Let_def prod.case option.case hl
        lb(2) u n wrap
      using 2(2,3) pad short lb by (simp add: byte_high_bit)
    moreover have "?n + (length (der_tag tag) + 1) + k = length (der_element tag contents)"
      using 2(6) by (simp add: der_element_def)
    ultimately show ?thesis
      using asn1_finish_append [OF assms(1,3), of tag "length (der_tag tag) + 1 + k" False] 2(6)
      by fastforce
  qed
qed

section \<open>Tag and contents\<close>

lemma CBS_skip_prefix:
  assumes "cbs_ok c" and "cbs_bytes c = h @ rest"
  shows "CBS_skip (length h) c = (True, cbs_advance (length h) c)"
    and "cbs_bytes (cbs_advance (length h) c) = rest"
  using assms length_cbs_bytes [OF assms(1)] by (simp_all add: CBS_skip_eq)

text \<open>What a caller of \<open>CBS_get_any_asn1\<close> sees: the tag and the bytes of the contents.\<close>

definition get_tlv :: "cbs \<Rightarrow> (u32 \<times> byte list) option \<times> cbs" where
  "get_tlv c = (case CBS_get_any_asn1 c of
      (None, c1) \<Rightarrow> (None, c1) | (Some (out, tag), c1) \<Rightarrow> (Some (tag, cbs_bytes out), c1))"

lemma CBS_get_any_asn1_sound:
  assumes "cbs_ok c" and "CBS_get_any_asn1 c = (Some (out, tag), c')"
  shows "cbs_ok out \<and> cbs_ok c' \<and> cbs_len out < 2 ^ 32 \<and>
    cbs_bytes c = der_element tag (cbs_bytes out) @ cbs_bytes c'"
proof -
  from assms(2) obtain e where e: "cbs_get_any_asn1_element False c = (Some e, c')"
    and sk: "CBS_skip (el_header_len e) (el_out e) = (True, out)" and tag: "tag = el_tag e"
    by (auto simp: CBS_get_any_asn1_def CBS_get_any_asn1_element_def
        split: prod.splits option.splits bool.splits)
  from der_element_sound [OF assms(1) e] obtain v where
    v: "cbs_bytes (el_out e) = (der_tag tag @ der_len (length v)) @ v"
    "cbs_bytes c = der_element tag v @ cbs_bytes c'"
    "el_header_len e = length (der_tag tag @ der_len (length v))" "length v < 2 ^ 32"
    "cbs_ok (el_out e)" "cbs_ok c'"
    unfolding tag by (auto simp: der_element_def)
  let ?h = "length (der_tag tag @ der_len (length v))"
  from CBS_skip_prefix(1) [OF v(5,1)] sk v(3) have out: "out = cbs_advance ?h (el_out e)" by simp
  then have "cbs_bytes out = v" using CBS_skip_prefix(2) [OF v(5,1)] by (simp only:)
  with v out show ?thesis by (metis cbs_ok_advance length_cbs_bytes)
qed

lemma CBS_get_any_asn1_complete:
  assumes "cbs_ok c" and "length v < 2 ^ 32" and "cbs_bytes c = der_element tag v @ rest"
  shows "\<exists>out c'. CBS_get_any_asn1 c = (Some (out, tag), c') \<and> cbs_bytes out = v \<and> cbs_ok out \<and>
    cbs_bytes c' = rest \<and> cbs_ok c'"
proof -
  from element_complete [OF assms, of False] obtain e c' where
    e: "cbs_get_any_asn1_element False c = (Some e, c')" "el_tag e = tag" "cbs_bytes c' = rest"
    "cbs_bytes (el_out e) = (der_tag tag @ der_len (length v)) @ v" "cbs_ok (el_out e)" "cbs_ok c'"
    "el_header_len e = length (der_tag tag @ der_len (length v))"
    by (auto simp: der_element_def)
  from CBS_skip_prefix [OF e(5,4)] e show ?thesis
    by (simp add: CBS_get_any_asn1_def CBS_get_any_asn1_element_def)
qed

interpretation der: canonical_codec "\<lambda>b. CBS_init b (length b)" cbs_bytes cbs_ok get_tlv
  "\<lambda>tv bs. length (snd tv) < 2 ^ 32 \<and> bs = der_element (fst tv) (snd tv)"
  "\<lambda>tv. length (snd tv) < 2 ^ 32" "\<lambda>tv. der_element (fst tv) (snd tv)"
proof (unfold_locales, goal_cases)
  case (3 s a s')
  then obtain out tag where "CBS_get_any_asn1 s = (Some (out, tag), s')" "a = (tag, cbs_bytes out)"
    by (auto simp: get_tlv_def split: prod.splits option.splits)
  with CBS_get_any_asn1_sound [OF 3(1), of out tag s'] show ?case by simp
next
  case (4 s a bs rest)
  then show ?case
    using CBS_get_any_asn1_complete [of s "snd a" "fst a" rest] by (auto simp: get_tlv_def)
qed simp_all

text \<open>Readers that expect a tag.\<close>

lemma cbs_get_asn1_True:
  "cbs_get_asn1 tag True c =
     (case CBS_get_any_asn1 c of
        (None, c1) \<Rightarrow> (None, c1)
      | (Some (out, tag'), c1) \<Rightarrow> (if tag' = tag then Some out else None, c1))"
  by (auto simp: cbs_get_asn1_def CBS_get_any_asn1_def split: prod.splits option.splits bool.splits)

lemma CBS_get_asn1_sound:
  assumes "cbs_ok c" and "CBS_get_asn1 tag c = (Some out, c')"
  shows "cbs_ok out \<and> cbs_ok c' \<and> cbs_len out < 2 ^ 32 \<and>
    cbs_bytes c = der_element tag (cbs_bytes out) @ cbs_bytes c'"
  using assms CBS_get_any_asn1_sound [OF assms(1)]
  by (auto simp: CBS_get_asn1_def cbs_get_asn1_True split: prod.splits option.splits if_splits)

lemma CBS_get_asn1_complete:
  assumes "cbs_ok c" and "length v < 2 ^ 32" and "cbs_bytes c = der_element tag v @ rest"
  shows "\<exists>out c'. CBS_get_asn1 tag c = (Some out, c') \<and> cbs_bytes out = v \<and> cbs_ok out \<and>
    cbs_bytes c' = rest \<and> cbs_ok c'"
  using CBS_get_any_asn1_complete [OF assms]
  by (auto simp: CBS_get_asn1_def cbs_get_asn1_True)

end
