(* ===== verification/Der_Int.thy ===== *)
theory Der_Int
  imports Der_Spec
begin

text \<open>
  The abstract specification of the contents of a DER INTEGER: the shortest two's complement
  encoding, as a function \<open>der_int\<close> of the value, and \<open>minimal_int\<close>, its description by the first
  two bytes, which is what the parsers test.  \<open>minimal_int_iff\<close> says that they agree.
\<close>

text \<open>The number of bytes of a value, from the value or its complement, whichever is not negative.\<close>

fun int_octets :: "nat \<Rightarrow> nat" where
  "int_octets m = (if m < 128 then 1 else Suc (int_octets (m div 256)))"

declare int_octets.simps [simp del]

definition int_bits :: "int \<Rightarrow> nat" where
  "int_bits v = nat (if v < 0 then - v - 1 else v)"

definition der_int :: "int \<Rightarrow> byte list" where
  "der_int v = (let n = int_octets (int_bits v) in be_bytes n (nat (v mod 256 ^ n)))"

text \<open>The two's complement value of a byte string.\<close>

definition twos :: "byte list \<Rightarrow> int" where
  "twos bs = int (be_val bs) - (if bs \<noteq> [] \<and> 128 \<le> unat (hd bs) then 256 ^ length bs else 0)"

definition minimal_int :: "byte list \<Rightarrow> bool" where
  "minimal_int bs \<longleftrightarrow> bs \<noteq> [] \<and>
     (2 \<le> length bs \<longrightarrow> \<not> (bs ! 0 = 0 \<and> unat (bs ! 1) < 128) \<and> \<not> (bs ! 0 = 0xff \<and> 128 \<le> unat (bs ! 1)))"

lemma int_octets_pos: "1 \<le> int_octets m"
  by (simp add: int_octets.simps)

lemma int_octets_le_iff: "1 \<le> k \<Longrightarrow> int_octets m \<le> k \<longleftrightarrow> m < 128 * 256 ^ (k - 1)"
proof (induction k arbitrary: m rule: nat_induct_at_least)
  case base
  show ?case using int_octets_pos [of "m div 256"] by (simp add: int_octets.simps [of m])
next
  case (Suc n)
  have p: "256 ^ n = (256 :: nat) * 256 ^ (n - 1)" using Suc.hyps by (cases n) simp_all
  show ?case
  proof (cases "m < 128")
    case True
    then show ?thesis using Suc.hyps by (simp add: int_octets.simps [of m] less_le_trans [of m 128])
  next
    case False
    then have "int_octets m \<le> Suc n \<longleftrightarrow> m div 256 < 128 * 256 ^ (n - 1)"
      using Suc.IH by (simp add: int_octets.simps [of m])
    also have "\<dots> \<longleftrightarrow> m < 128 * 256 ^ (n - 1) * 256" by (simp add: div_less_iff_less_mult)
    finally show ?thesis using p by (simp add: mult.commute mult.left_commute)
  qed
qed

lemma int_octets_eqI:
  assumes "1 \<le> n" and "m < 128 * 256 ^ (n - 1)" and "2 \<le> n \<Longrightarrow> 128 * 256 ^ (n - 2) \<le> m"
  shows "int_octets m = n"
proof (cases "n = 1")
  case True
  with assms show ?thesis by (simp add: int_octets.simps)
next
  case False
  with assms(1) have n: "2 \<le> n" "n - 1 - 1 = n - 2" by linarith+
  have "int_octets m \<le> n" using int_octets_le_iff [OF assms(1)] assms(2) by simp
  moreover have "\<not> int_octets m \<le> n - 1"
    using int_octets_le_iff [of "n - 1" m] assms(3) n by simp
  ultimately show ?thesis by linarith
qed

lemma twos_Cons:
  "twos (b # bs) = int (be_val bs) + (int (unat b) - (if 128 \<le> unat b then 256 else 0)) * 256 ^ length bs"
  by (simp add: twos_def be_val_Cons algebra_simps)

text \<open>The value lies in the range of its length, and no shorter length holds it when minimal.\<close>

lemma int_bits_twos:
  assumes "bs \<noteq> []"
  shows "int_bits (twos bs) < 128 * 256 ^ (length bs - 1)"
proof -
  obtain b0 r where bs: "bs = b0 # r" using assms by (cases bs) auto
  define k where "k = unat b0"
  have k: "k < 256" by (simp add: k_def)
  define b P V where "b = int k" and "P = (256 ^ length r :: int)" and "V = int (be_val r)"
  define x where "x = b - (if 128 \<le> b then 256 else 0)"
  have b: "0 \<le> b" "b < 256" "(128 \<le> unat b0) = (128 \<le> b)"
    using k by (simp_all add: b_def flip: k_def)
  have r: "0 \<le> V" "V < P" using be_val_less [of r] by (simp_all add: V_def P_def flip: of_nat_less_iff)
  have v: "twos bs = V + x * P" using b by (simp add: bs twos_Cons x_def V_def P_def b_def flip: k_def)
  have "- 128 \<le> x" "x \<le> 127" using b by (auto simp: x_def)
  then have y: "- 128 * P \<le> x * P" "x * P \<le> 127 * P" using r by (intro mult_right_mono; simp)+
  define y where "y = x * P"
  have "int (int_bits (V + y)) < 128 * P" using y [folded y_def] r unfolding int_bits_def by simp
  then have "int (int_bits (twos bs)) < 128 * P" using v by (simp add: y_def)
  then show ?thesis
    by (subst of_nat_less_iff [symmetric, where 'a = int]) (simp add: bs P_def)
qed

lemma twos_neg_iff: "twos bs < 0 \<longleftrightarrow> bs \<noteq> [] \<and> 128 \<le> unat (hd bs)"
  using be_val_less [of bs] by (auto simp: twos_def simp flip: of_nat_less_iff)

lemma byte_ff: "(b :: byte) = 0xff \<longleftrightarrow> unat b = 255"
  by (simp add: byte_eq_iff)

lemma int_bits_minimal:
  assumes "minimal_int bs" and "2 \<le> length bs"
  shows "128 * 256 ^ (length bs - 2) \<le> int_bits (twos bs)"
proof -
  obtain a b r where bs: "bs = a # b # r" using assms(2) by (cases bs; cases "tl bs") auto
  define P V where "P = (256 ^ length r :: int)" and "V = int (be_val r)"
  define km kn where "km = unat a" and "kn = unat b"
  have k: "km < 256" "kn < 256" by (simp_all add: km_def kn_def)
  define m n where "m = int km" and "n = int kn"
  define x where "x = m - (if 128 \<le> m then 256 else 0)"
  have bnd: "0 \<le> m" "m < 256" "0 \<le> n" "n < 256" "(128 \<le> unat a) = (128 \<le> m)"
    "(unat b < 128) = (n < 128)" "(unat a = 0) = (m = 0)" "(unat a = 255) = (m = 255)"
    using k by (simp_all add: m_def n_def flip: km_def kn_def)
  have r: "V < P" "0 \<le> V"
    using be_val_less [of r] by (simp_all add: V_def P_def flip: of_nat_less_iff)
  have v: "twos bs = V + (256 * x + n) * P"
    using bnd by (simp add: bs twos_Cons x_def be_val_Cons V_def P_def m_def n_def algebra_simps
        flip: km_def kn_def)
  from assms(1) bnd have mn: "\<not> (m = 0 \<and> n < 128)" "\<not> (m = 255 \<and> \<not> n < 128)"
    by (auto simp: minimal_int_def bs byte_ff byte_eq_iff)
  define y where "y = (256 * x + n) * P"
  have v: "twos bs = V + y" using v by (simp add: y_def)
  have "128 * P \<le> int (int_bits (V + y))"
  proof (cases "twos bs < 0")
    case True
    then have "128 \<le> m" using bnd by (simp add: twos_neg_iff bs)
    then have "256 * x + n \<le> - 129" using mn bnd by (auto simp: x_def)
    then have "y \<le> (- 129) * P" using r unfolding y_def by (intro mult_right_mono) auto
    with True v r show ?thesis by (simp add: int_bits_def)
  next
    case False
    then have "m < 128" using bnd by (auto simp: twos_neg_iff bs)
    with mn bnd have "128 \<le> 256 * x + n" by (auto simp: x_def)
    then have "128 * P \<le> y" using r unfolding y_def by (intro mult_right_mono) auto
    with False v r show ?thesis by (simp add: int_bits_def)
  qed
  then show ?thesis
    using v by (subst of_nat_le_iff [symmetric, where 'a = int]) (simp add: bs P_def)
qed

lemma twos_mod: "bs \<noteq> [] \<Longrightarrow> twos bs mod 256 ^ length bs = int (be_val bs)"
proof -
  have "int (be_val bs) < int (256 ^ length bs)" using be_val_less [of bs] by (simp only: of_nat_less_iff)
  then have "int (be_val bs) mod 256 ^ length bs = int (be_val bs)" by (intro mod_pos_pos_trivial) simp_all
  then show ?thesis by (simp add: twos_def minus_mod_self2)
qed

lemma der_int_twos: "minimal_int bs \<Longrightarrow> der_int (twos bs) = bs"
proof -
  assume m: "minimal_int bs"
  then have ne: "bs \<noteq> []" by (simp add: minimal_int_def)
  have "int_octets (int_bits (twos bs)) = length bs"
    using int_bits_twos [OF ne] int_bits_minimal [OF m] ne
    by (intro int_octets_eqI) (simp_all add: Suc_le_eq)
  then show ?thesis using twos_mod [OF ne] by (simp add: der_int_def be_bytes_be_val)
qed

text \<open>Decoding a shortest encoding: the value and minimality.\<close>

lemma int_range: "int_octets (int_bits v) \<le> n \<Longrightarrow> - (128 * 256 ^ (n - 1)) \<le> v \<and> v < 128 * 256 ^ (n - 1)"
proof -
  assume "int_octets (int_bits v) \<le> n"
  moreover have "1 \<le> n" using calculation int_octets_pos [of "int_bits v"] by simp
  ultimately have "int_bits v < 128 * 256 ^ (n - 1)" by (simp add: int_octets_le_iff)
  then have "int (int_bits v) < int (128 * 256 ^ (n - 1))" by (simp only: of_nat_less_iff)
  then have "int (int_bits v) < 128 * 256 ^ (n - 1)" by simp
  then show ?thesis by (auto simp: int_bits_def split: if_splits)
qed

lemma hd_be_bytes: "1 \<le> n \<Longrightarrow> u < 256 ^ n \<Longrightarrow> unat (hd (be_bytes n u)) = u div 256 ^ (n - 1)"
proof -
  assume n: "1 \<le> n" "u < 256 ^ n"
  then obtain b r where b: "be_bytes n u = b # r" by (cases "be_bytes n u") (auto dest: arg_cong [of _ _ length])
  then have l: "length r = n - 1" by (auto dest: arg_cong [of _ _ length])
  have "u = unat b * 256 ^ (n - 1) + be_val r"
    using be_val_be_bytes_id [OF n(2)] b l by (simp add: be_val_Cons)
  with be_val_less [of r] l have "u div 256 ^ (n - 1) = unat b" by simp
  then show ?thesis by (simp add: b)
qed

lemma twos_be_bytes:
  assumes n: "1 \<le> n" and r: "- (128 * 256 ^ (n - 1)) \<le> v" "v < 128 * 256 ^ (n - 1)"
  shows "twos (be_bytes n (nat (v mod 256 ^ n))) = v"
proof -
  define P u where "P = (256 ^ (n - 1) :: nat)" and "u = nat (v mod 256 ^ n)"
  have p: "(256 :: int) ^ n = 256 * int P" "256 ^ n = 256 * P" using n by (cases n; simp add: P_def)+
  have r: "- (128 * int P) \<le> v" "v < 128 * int P" "0 < P" using r by (simp_all add: P_def)
  have u: "int u = (if v < 0 then v + 256 * int P else v)"
  proof (cases "v < 0")
    case True
    then have "(v + 256 * int P) mod (256 * int P) = v + 256 * int P"
      using r by (intro mod_pos_pos_trivial) simp_all
    then have "v mod (256 * int P) = v + 256 * int P" by simp
    with True r show ?thesis by (simp add: u_def p)
  next
    case False
    with r show ?thesis by (simp add: u_def p)
  qed
  have less: "u < 256 ^ n" using u r by (simp add: p split: if_splits)
  have "128 \<le> u div P \<longleftrightarrow> 128 * P \<le> u" using r by (simp add: less_eq_div_iff_mult_less_eq)
  also have "\<dots> \<longleftrightarrow> v < 0" using u r by (auto split: if_splits)
  finally have "128 \<le> u div P \<longleftrightarrow> v < 0" .
  moreover have "be_bytes n u \<noteq> []" using n by (cases n) simp_all
  ultimately have "twos (be_bytes n u) = int u - (if v < 0 then 256 * int P else 0)"
    using hd_be_bytes [OF n less, folded P_def] be_val_be_bytes_id [OF less] p(1) by (simp add: twos_def)
  then show ?thesis using u by (simp add: u_def split: if_splits)
qed

lemma twos_der_int: "twos (der_int v) = v"
  using int_octets_pos int_range [OF order_refl, of v] by (simp add: der_int_def Let_def twos_be_bytes)

lemma length_der_int: "length (der_int v) = int_octets (int_bits v)"
  by (simp add: der_int_def Let_def)

lemma der_int_ne: "der_int v \<noteq> []"
  using int_octets_pos [of "int_bits v"] length_der_int [of v] by (cases "der_int v") auto

lemma twos_drop:
  "unat b < 128 \<Longrightarrow> twos (0 # b # r) = twos (b # r)"
  "128 \<le> unat b \<Longrightarrow> unat a = 255 \<Longrightarrow> twos (a # b # r) = twos (b # r)"
  by (auto simp: twos_Cons be_val_Cons algebra_simps simp del: of_nat_unat)

text \<open>The shortest encoding is minimal: dropping its first byte would change the value.\<close>

lemma minimal_der_int: "minimal_int (der_int v)"
proof (rule ccontr)
  assume bad: "\<not> minimal_int (der_int v)"
  then obtain a b r where d: "der_int v = a # b # r"
    and ab: "unat a = 0 \<and> unat b < 128 \<or> unat a = 255 \<and> 128 \<le> unat b"
    using der_int_ne [of v] unfolding minimal_int_def byte_ff byte_eq_iff [where b = 0]
    by (cases "der_int v"; cases "tl (der_int v)") auto
  have "twos (a # b # r) = twos (b # r)"
    using ab by (auto simp: twos_Cons be_val_Cons algebra_simps simp del: of_nat_unat)
  then have "v = twos (b # r)" using twos_der_int [of v] d by simp
  then have "int_bits v < 128 * 256 ^ (length (b # r) - 1)" using int_bits_twos [of "b # r"] by simp
  then have "int_octets (int_bits v) \<le> length (b # r)" by (subst int_octets_le_iff) simp_all
  then show False using length_der_int [of v] d by simp
qed

lemma minimal_int_iff: "minimal_int bs \<longleftrightarrow> bs = der_int (twos bs)"
  using der_int_twos minimal_der_int by metis

lemma length_der_int_le:
  assumes "1 \<le> n" and "- (128 * 256 ^ (n - 1)) \<le> v" and "v < 128 * 256 ^ (n - 1)"
  shows "length (der_int v) \<le> n"
proof -
  have "int (int_bits v) < int (128 * 256 ^ (n - 1))" using assms(2,3) by (simp add: int_bits_def)
  then have "int_bits v < 128 * 256 ^ (n - 1)" by (simp only: of_nat_less_iff)
  with int_octets_le_iff [OF assms(1)] length_der_int show ?thesis by simp
qed

lemma twos_range:
  assumes "bs \<noteq> []" and "length bs \<le> n"
  shows "- (128 * 256 ^ (n - 1)) \<le> twos bs \<and> twos bs < 128 * 256 ^ (n - 1)"
proof -
  have "int_octets (int_bits (twos bs)) \<le> length bs"
    using int_bits_twos [OF assms(1)] assms(1) by (subst int_octets_le_iff) (simp_all add: Suc_le_eq)
  then show ?thesis using int_range [of "twos bs" n] assms(2) by simp
qed

end
