(* ===== verification/Der_Types.thy ===== *)
theory Der_Types
  imports Der_Parse Der_Int
begin

text \<open>
  The readers of the primitive ASN.1 types of \<open>cbs.c\<close> against the specification of DER: an INTEGER
  is accepted exactly when its contents are the shortest two's complement encoding of a value in
  range, a BOOLEAN when its contents are \<open>0x00\<close> or \<open>0xff\<close>.
\<close>

text \<open>A reader that checks the contents of one element with a given tag.\<close>

lemma asn1_reader_codec:
  assumes eq: "\<And>c out c1 v. \<lbrakk>cbs_ok c; CBS_get_asn1 tag c = (Some out, c1)\<rbrakk> \<Longrightarrow>
      get c = (Some v, c1) \<longleftrightarrow> cbs_bytes out = body v"
    and st: "\<And>c out c1. \<lbrakk>cbs_ok c; CBS_get_asn1 tag c = (Some out, c1)\<rbrakk> \<Longrightarrow> snd (get c) = c1"
    and none: "\<And>c c1. CBS_get_asn1 tag c = (None, c1) \<Longrightarrow> fst (get c) = None"
    and len: "\<And>v. length (body v) < 2 ^ 32"
  shows "canonical_codec (\<lambda>b. CBS_init b (length b)) cbs_bytes cbs_ok get
    (\<lambda>v bs. True \<and> bs = der_element tag (body v)) (\<lambda>_. True) (\<lambda>v. der_element tag (body v))"
proof (unfold_locales, goal_cases)
  case (3 s v s')
  obtain r c1 where g: "CBS_get_asn1 tag s = (r, c1)" by fastforce
  with none [of s c1] 3(2) obtain out where r: "r = Some out" by (cases r) auto
  with g st [OF 3(1), of out c1] 3(2) have g: "CBS_get_asn1 tag s = (Some out, s')" by simp
  with eq [OF 3(1) g, of v] CBS_get_asn1_sound [OF 3(1) g] 3(2) show ?case by simp
next
  case (4 s v bs rest)
  from CBS_get_asn1_complete [OF 4(1) len [of v], of tag rest] 4 obtain out c' where
    g: "CBS_get_asn1 tag s = (Some out, c')" "cbs_bytes out = body v" "cbs_bytes c' = rest" "cbs_ok c'"
    by auto
  with eq [OF 4(1) g(1)] show ?case by blast
qed simp_all

section \<open>INTEGER\<close>

lemma CBS_is_valid_asn1_integer_eq:
  assumes "cbs_ok c"
  shows "CBS_is_valid_asn1_integer c =
    (if minimal_int (cbs_bytes c) then Some (twos (cbs_bytes c) < 0) else None)"
proof (cases "cbs_bytes c")
  case Nil
  with assms show ?thesis
    by (simp add: CBS_is_valid_asn1_integer_def CBS_get_u8_Nil minimal_int_def)
next
  case (Cons a bs)
  note a = CBS_get_u8_Cons [OF assms Cons]
  from CBS_get_u8_SomeD [OF assms a] Cons have c1: "cbs_ok (cbs_advance 1 c)" "cbs_bytes (cbs_advance 1 c) = bs"
    by simp_all
  show ?thesis
  proof (cases bs)
    case Nil
    with a c1 Cons show ?thesis
      by (simp add: CBS_is_valid_asn1_integer_def CBS_get_u8_Nil minimal_int_def twos_neg_iff
          byte_high_bit not_less)
  next
    case (Cons b r)
    with a c1 \<open>cbs_bytes c = a # bs\<close> show ?thesis
      by (simp add: CBS_is_valid_asn1_integer_def CBS_get_u8_Cons minimal_int_def twos_neg_iff
          byte_high_bit not_less)
  qed
qed

lemma CBS_is_unsigned_asn1_integer_iff:
  "cbs_ok c \<Longrightarrow> CBS_is_unsigned_asn1_integer c \<longleftrightarrow> minimal_int (cbs_bytes c) \<and> 0 \<le> twos (cbs_bytes c)"
  by (simp add: CBS_is_unsigned_asn1_integer_def CBS_is_valid_asn1_integer_eq not_less)

lemma asn1_uint64_loop_eq:
  "asn1_uint64_loop (word_of_nat v) bs =
     (if v * 256 ^ length bs + be_val bs < 2 ^ 64 then Some (word_of_nat (v * 256 ^ length bs + be_val bs))
      else None)" if "v < 2 ^ 64" for v
  using that
proof (induction bs arbitrary: v)
  case Nil
  then show ?case by simp
next
  case (Cons b bs)
  define w where "w = 256 * v + unat b"
  have d: "drop_bit 56 (word_of_nat v :: u64) = 0 \<longleftrightarrow> v < 2 ^ 56"
    using Cons.prems by (simp add: drop_bit_eq_0_iff unat_word_of_nat_id)
  have sum: "v * 256 ^ length (b # bs) + be_val (b # bs) = w * 256 ^ length bs + be_val bs"
    by (simp add: w_def be_val_Cons algebra_simps)
  show ?case
  proof (cases "v < 2 ^ 56")
    case True
    define k where "k = unat b"
    have "k < 256" by (simp add: k_def)
    with True have w: "w < 2 ^ 64" by (simp add: w_def flip: k_def)
    have "unat (word_of_nat v :: u64) = v" using Cons.prems by (simp add: unat_word_of_nat_id)
    then have "push_bit 8 (word_of_nat v) OR ucast b = (word_of_nat w :: u64)"
      by (simp only: shift_in_byte w_def mult.commute)
    with True d show ?thesis
      unfolding sum by (simp only: asn1_uint64_loop.simps Cons.IH [OF w] if_False simp_thms)
  next
    case False
    then have "2 ^ 64 \<le> w" by (simp add: w_def)
    then have "2 ^ 64 * 1 \<le> w * 256 ^ length bs" by (intro mult_le_mono) simp_all
    with False d sum show ?thesis by simp
  qed
qed

text \<open>
  \<open>CBS_get_asn1_uint64\<close> is a canonical reader of the DER INTEGERs from \<open>0\<close> to \<open>2\<^sup>6\<^sup>4 - 1\<close>.
\<close>

definition der_uint64 :: "u64 \<Rightarrow> byte list" where
  "der_uint64 v = der_element CBS_ASN1_INTEGER (der_int (uint v))"

definition der_int64 :: "u64 \<Rightarrow> byte list" where
  "der_int64 v = der_element CBS_ASN1_INTEGER (der_int (sint v))"

definition der_bool :: "bool \<Rightarrow> byte list" where
  "der_bool b = der_element CBS_ASN1_BOOLEAN [if b then 0xff else 0]"

lemma length_der_int64:
  "length (der_int (uint (v :: u64))) \<le> 9" "length (der_int (sint (v :: u64))) \<le> 8"
  "length (der_int (uint v)) < 2 ^ 32" "length (der_int (sint v)) < 2 ^ 32"
proof -
  have "uint v < 2 ^ 64" using uint_lt2p [of v] by simp
  moreover have "- (128 * 256 ^ (9 - 1)) \<le> uint v" by (rule order_trans [of _ 0]) simp_all
  ultimately show "length (der_int (uint v)) \<le> 9" by (intro length_der_int_le) simp_all
  then show "length (der_int (uint v)) < 2 ^ 32" by simp
  have "- (2 ^ 63) \<le> sint v" "sint v < 2 ^ 63"
    using sint_greater_eq [of v] sint_less [of v] by simp_all
  then show "length (der_int (sint v)) \<le> 8" by (intro length_der_int_le) simp_all
  then show "length (der_int (sint v)) < 2 ^ 32" by simp
qed

lemma asn1_uint64_value:
  assumes "minimal_int bs" and "0 \<le> twos bs"
  shows "asn1_uint64_loop 0 bs = Some v \<longleftrightarrow> bs = der_int (uint v)"
proof -
  have tw: "twos bs = int (be_val bs)"
    using assms(2) twos_neg_iff [of bs] by (auto simp: twos_def)
  have l: "asn1_uint64_loop 0 bs = (if be_val bs < 2 ^ 64 then Some (word_of_nat (be_val bs)) else None)"
    using asn1_uint64_loop_eq [of 0 bs] by simp
  show ?thesis
  proof
    assume "asn1_uint64_loop 0 bs = Some v"
    with l have "be_val bs < 2 ^ 64" "v = word_of_nat (be_val bs)" by (auto split: if_splits)
    then have "unat v = be_val bs" by (simp add: unat_word_of_nat_id)
    then have "uint v = twos bs" using tw by (metis of_nat_unat)
    with der_int_twos [OF assms(1)] show "bs = der_int (uint v)" by simp
  next
    assume "bs = der_int (uint v)"
    then have "twos bs = uint v" by (simp add: twos_der_int)
    then have "be_val bs = unat v" using tw by (metis of_nat_unat of_nat_eq_iff)
    with l show "asn1_uint64_loop 0 bs = Some v" by (simp add: unat_u64_less)
  qed
qed

lemma CBS_get_asn1_uint64_eq:
  assumes "cbs_ok c" and "CBS_get_asn1 CBS_ASN1_INTEGER c = (Some out, c1)"
  shows "CBS_get_asn1_uint64 c = (Some v, c1) \<longleftrightarrow> cbs_bytes out = der_int (uint v)"
    and "snd (CBS_get_asn1_uint64 c) = c1"
proof -
  have "cbs_ok out" using CBS_get_asn1_sound [OF assms] by simp
  then have d: "take (CBS_len out) (CBS_data out) = cbs_bytes out"
    and u: "CBS_is_unsigned_asn1_integer out \<longleftrightarrow> minimal_int (cbs_bytes out) \<and> 0 \<le> twos (cbs_bytes out)"
    by (simp_all add: cbs_bytes_def CBS_len_def CBS_data_def CBS_is_unsigned_asn1_integer_iff)
  have "minimal_int (der_int (uint v)) \<and> 0 \<le> twos (der_int (uint v))"
    by (simp add: minimal_der_int twos_der_int)
  with assms d u asn1_uint64_value show "CBS_get_asn1_uint64 c = (Some v, c1) \<longleftrightarrow> cbs_bytes out = der_int (uint v)"
    by (auto simp: CBS_get_asn1_uint64_def)
  from assms show "snd (CBS_get_asn1_uint64 c) = c1" by (simp add: CBS_get_asn1_uint64_def)
qed

interpretation get_uint64: canonical_codec "\<lambda>b. CBS_init b (length b)" cbs_bytes cbs_ok
  CBS_get_asn1_uint64 "\<lambda>v bs. True \<and> bs = der_uint64 v" "\<lambda>_. True" der_uint64
  unfolding der_uint64_def
  by (rule asn1_reader_codec [OF CBS_get_asn1_uint64_eq _ length_der_int64(3)])
    (simp_all add: CBS_get_asn1_uint64_def)

text \<open>
  \<open>CBS_get_asn1_int64\<close> stores the contents, last byte first, over a sign extension.
\<close>

lemma foldl_store_rev:
  "n \<le> length data \<Longrightarrow> n \<le> length u0 \<Longrightarrow>
     foldl (\<lambda>u i. u[i := data ! (length data - i - 1)]) u0 [0..<n] = take n (rev data) @ drop n u0"
proof (induction n)
  case 0
  then show ?case by simp
next
  case (Suc n)
  then have "rev data ! n = data ! (length data - n - 1)" by (simp add: rev_nth)
  with Suc show ?case
    by (simp add: take_Suc_conv_app_nth upd_conv_take_nth_drop list_update_append
        flip: Cons_nth_drop_Suc)
qed

lemma be_val_replicate_ff: "be_val (replicate n 0xff) = 256 ^ n - 1"
proof (induction n)
  case (Suc n)
  have "be_val (replicate (Suc n) 0xff) = 255 * 256 ^ n + (256 ^ n - 1)"
    using Suc by (simp only: replicate_Suc be_val_Cons length_replicate) simp
  then show ?case by simp
qed simp

lemma be_val_replicate_0: "be_val (replicate n 0) = 0"
  by (induction n) (simp_all add: be_val_Cons)

lemma sign_extended:
  assumes "bs \<noteq> []" and "length bs \<le> 8"
  shows "sint (word_of_nat (be_val (replicate (8 - length bs) (if twos bs < 0 then 0xff else 0) @ bs)) :: u64)
    = twos bs"
proof -
  let ?n = "length bs"
  have l: "be_val bs < 256 ^ ?n" by (rule be_val_less)
  have p: "256 ^ (8 - ?n) * 256 ^ ?n = (2 ^ 64 :: nat)" using assms(2) by (simp flip: power_add)
  define N where "N = be_val (replicate (8 - ?n) (if twos bs < 0 then 0xff else 0) @ bs)"
  have "int N = twos bs + (if twos bs < 0 then 2 ^ 64 else 0)"
  proof (cases "twos bs < 0")
    case True
    then have "N = (256 ^ (8 - ?n) - 1) * 256 ^ ?n + be_val bs"
      by (simp add: N_def be_val_append be_val_replicate_ff)
    also have "\<dots> = 2 ^ 64 - 256 ^ ?n + be_val bs" using p by (simp add: diff_mult_distrib)
    finally have "N + 256 ^ ?n = 2 ^ 64 + be_val bs"
      using p power_increasing [of ?n 8 "256 :: nat"] assms(2) by simp
    then have "int N + 256 ^ ?n = 2 ^ 64 + int (be_val bs)"
      by (metis of_nat_add of_nat_numeral of_nat_power)
    with True show ?thesis using twos_neg_iff [of bs] by (simp add: twos_def)
  next
    case False
    then show ?thesis
      using twos_neg_iff [of bs] by (auto simp: N_def be_val_append be_val_replicate_0 twos_def)
  qed
  moreover have "- (2 ^ 63) \<le> twos bs" "twos bs < 2 ^ 63" using twos_range [OF assms] by simp_all
  moreover have "signed_take_bit 63 (twos bs + 2 ^ 64) = signed_take_bit 63 (twos bs)"
    by (rule signed_take_bit_eq_iff_take_bit_eq [THEN iffD2]) (simp add: take_bit_eq_mod)
  ultimately have "signed_take_bit 63 (int N) = twos bs"
    by (auto simp: signed_take_bit_int_eq_self_iff)
  then show ?thesis by (simp add: N_def signed_of_nat)
qed

lemma int64_bytes:
  assumes "cbs_ok out" and "cbs_bytes out \<noteq> []" and "CBS_len out \<le> 8"
    and "u = foldl (\<lambda>u i. u[i := CBS_data out ! (CBS_len out - i - 1)])
           (replicate 8 (if twos (cbs_bytes out) < 0 then 0xff else 0)) [0..<CBS_len out]"
  shows "sint (word_of_nat (be_val (rev u)) :: u64) = twos (cbs_bytes out)"
proof -
  let ?bs = "cbs_bytes out" and ?s = "if twos (cbs_bytes out) < 0 then 0xff else 0 :: byte"
  have l: "length ?bs = CBS_len out" using assms(1) by (simp add: CBS_len_def)
  have "u = foldl (\<lambda>u i. u[i := ?bs ! (length ?bs - i - 1)]) (replicate 8 ?s) [0..<length ?bs]"
    unfolding assms(4) l
    by (intro foldl_cong) (auto simp: cbs_bytes_def CBS_data_def CBS_len_def)
  also have "\<dots> = rev ?bs @ replicate (8 - length ?bs) ?s"
    using assms(3) l by (subst foldl_store_rev) simp_all
  finally have "rev u = replicate (8 - length ?bs) ?s @ ?bs" by simp
  with sign_extended [OF assms(2)] assms(3) l show ?thesis by simp
qed

lemma CBS_get_asn1_int64_eq:
  assumes "cbs_ok c" and "CBS_get_asn1 CBS_ASN1_INTEGER c = (Some out, c1)"
  shows "CBS_get_asn1_int64 c = (Some v, c1) \<longleftrightarrow> cbs_bytes out = der_int (sint v)"
    and "snd (CBS_get_asn1_int64 c) = c1"
proof -
  let ?bs = "cbs_bytes out"
  have ok: "cbs_ok out" using CBS_get_asn1_sound [OF assms] by simp
  define u where "u = foldl (\<lambda>u i. u[i := CBS_data out ! (CBS_len out - i - 1)])
     (replicate 8 (if twos ?bs < 0 then 0xff else 0)) [0..<CBS_len out]"
  have g: "CBS_get_asn1_int64 c = (if minimal_int ?bs \<and> CBS_len out \<le> 8
      then (Some (word_of_nat (be_val (rev u))), c1) else (None, c1))"
    using assms(2) CBS_is_valid_asn1_integer_eq [OF ok]
    by (simp add: CBS_get_asn1_int64_def Let_def u_def)
  have val_eq: "sint (word_of_nat (be_val (rev u)) :: u64) = twos ?bs" if "minimal_int ?bs" "CBS_len out \<le> 8"
    using int64_bytes [OF ok _ that(2) u_def] that(1) by (simp add: minimal_int_def)
  have len: "CBS_len out = length ?bs" using ok by (simp add: CBS_len_def)
  have "minimal_int (der_int (sint v)) \<and> length (der_int (sint v)) \<le> 8"
    by (simp add: minimal_der_int length_der_int64)
  then have "?bs = der_int (sint v) \<longleftrightarrow> minimal_int ?bs \<and> CBS_len out \<le> 8 \<and> twos ?bs = sint v"
    using len minimal_int_iff [of ?bs] twos_der_int by auto
  also have "\<dots> \<longleftrightarrow> minimal_int ?bs \<and> CBS_len out \<le> 8 \<and> v = word_of_nat (be_val (rev u))"
    using val_eq by (metis signed_word_eqI)
  finally show "CBS_get_asn1_int64 c = (Some v, c1) \<longleftrightarrow> ?bs = der_int (sint v)"
    using g by auto
  show "snd (CBS_get_asn1_int64 c) = c1" using g by simp
qed

interpretation get_int64: canonical_codec "\<lambda>b. CBS_init b (length b)" cbs_bytes cbs_ok
  CBS_get_asn1_int64 "\<lambda>v bs. True \<and> bs = der_int64 v" "\<lambda>_. True" der_int64
  unfolding der_int64_def
  by (rule asn1_reader_codec [OF CBS_get_asn1_int64_eq _ length_der_int64(4)])
    (simp_all add: CBS_get_asn1_int64_def)

section \<open>BOOLEAN\<close>

lemma CBS_get_asn1_bool_eq:
  assumes "cbs_ok c" and "CBS_get_asn1 CBS_ASN1_BOOLEAN c = (Some out, c1)"
  shows "CBS_get_asn1_bool c = (Some v, c1) \<longleftrightarrow> cbs_bytes out = [if v then 0xff else 0]"
    and "snd (CBS_get_asn1_bool c) = c1"
proof -
  have "cbs_ok out" using CBS_get_asn1_sound [OF assms] by simp
  then have "CBS_len out = 1 \<Longrightarrow> cbs_bytes out = [CBS_data out ! 0]"
    and "cbs_bytes out = [x] \<Longrightarrow> CBS_len out = 1" for x
    by (cases "cbs_data out"; auto simp: cbs_bytes_def CBS_len_def CBS_data_def cbs_ok_def
        dest: arg_cong [of _ _ length])+
  with assms show "CBS_get_asn1_bool c = (Some v, c1) \<longleftrightarrow> cbs_bytes out = [if v then 0xff else 0]"
    by (cases v) (auto simp: CBS_get_asn1_bool_def Let_def)
  from assms show "snd (CBS_get_asn1_bool c) = c1" by (simp add: CBS_get_asn1_bool_def Let_def)
qed

interpretation get_bool: canonical_codec "\<lambda>b. CBS_init b (length b)" cbs_bytes cbs_ok
  CBS_get_asn1_bool "\<lambda>v bs. True \<and> bs = der_bool v" "\<lambda>_. True" der_bool
  unfolding der_bool_def
  by (rule asn1_reader_codec [OF CBS_get_asn1_bool_eq]) (simp_all add: CBS_get_asn1_bool_def)

end
