(* ===== verification/Cbb_Asn1.thy ===== *)
theory Cbb_Asn1
  imports Cbb_Laws Der_Types Wire
begin

text \<open>
  The ASN.1 half of \<open>crypto/bytestring/cbb.c\<close>: identifiers, elements as children with a DER length,
  and the writers of the primitive types.  Every writer is shown to keep the contract of
  \<open>Cbb_Laws\<close> with the DER encoding of \<open>Der_Spec\<close> as its output, and the writers of INTEGER and
  BOOLEAN are joined to their readers.
\<close>

section \<open>Definitions\<close>

text \<open>The two loops of \<open>add_base128_integer\<close>.\<close>

function base128_count :: "nat \<Rightarrow> u64 \<Rightarrow> nat" where
  "base128_count len_len copy =
     (if copy > 0 then base128_count (Suc len_len) (drop_bit 7 copy) else len_len)"
  by pat_completeness auto
termination
  by (relation "measure (\<lambda>(_, copy). unat copy)")
    (auto simp: unat_drop_bit word_less_nat_alt div_less_dividend)

declare base128_count.simps [simp del]

definition base128_byte :: "u64 \<Rightarrow> nat \<Rightarrow> byte" where
  "base128_byte v i =
     (let b = ucast (drop_bit (7 * i) v AND 0x7f) in if i \<noteq> 0 then b OR 0x80 else b)"

fun base128_emit :: "allocator \<Rightarrow> nat \<Rightarrow> u64 \<Rightarrow> nat \<Rightarrow> cbb \<Rightarrow> bool \<times> cbb" where
  "base128_emit al d v 0 c = (True, c)"
| "base128_emit al d v (Suc i) c =
     (case CBB_add_u8 al d (base128_byte v i) c of
        (False, c1) \<Rightarrow> (False, c1)
      | (True, c1) \<Rightarrow> base128_emit al d v i c1)"

definition add_base128_integer :: "allocator \<Rightarrow> nat \<Rightarrow> u64 \<Rightarrow> cbb \<Rightarrow> bool \<times> cbb" where
  "add_base128_integer al d v c =
     (let len_len = base128_count 0 v
      in base128_emit al d v (if len_len = 0 then 1 else len_len) c)"

text \<open>The identifier bytes that \<open>CBB_add_asn1\<close> writes before it opens the child.\<close>

definition cbb_add_tag :: "allocator \<Rightarrow> nat \<Rightarrow> u32 \<Rightarrow> cbb \<Rightarrow> bool \<times> cbb" where
  "cbb_add_tag al d tag c =
     (let tag_bits = ucast (drop_bit CBS_ASN1_TAG_SHIFT tag) AND 0xe0 :: byte;
          tag_number = tag AND CBS_ASN1_TAG_NUMBER_MASK
      in if tag_number \<ge> 0x1f then
           (case CBB_add_u8 al d (tag_bits OR 0x1f) c of
              (False, c1) \<Rightarrow> (False, c1)
            | (True, c1) \<Rightarrow> add_base128_integer al d (ucast tag_number) c1)
         else CBB_add_u8 al d (tag_bits OR ucast tag_number) c)"

definition CBB_add_asn1 :: "allocator \<Rightarrow> nat \<Rightarrow> u32 \<Rightarrow> cbb \<Rightarrow> bool \<times> cbb" where
  "CBB_add_asn1 al d tag c =
     (case CBB_flush al d c of
        (False, c1) \<Rightarrow> (False, c1)
      | (True, c1) \<Rightarrow>
          (case cbb_add_tag al d tag c1 of
             (False, c2) \<Rightarrow> (False, c2)
           | (True, c2) \<Rightarrow>
               (case base c2 of
                  None \<Rightarrow> (False, c2)
                | Some b \<Rightarrow>
                    (case CBB_add_u8 al d 0 c2 of
                       (False, c3) \<Rightarrow> (False, c3)
                     | (True, c3) \<Rightarrow>
                         (True, cbb_open_child d
                            \<lparr>offset = blen b, pending_len_len = 1, pending_is_asn1 = True\<rparr> c3)))))"

text \<open>
  The common frame of the writers of primitive types: a child with a tag, some writes into it, and
  a flush of the parent.
\<close>

definition asn1_child ::
  "allocator \<Rightarrow> nat \<Rightarrow> u32 \<Rightarrow> (cbb \<Rightarrow> bool \<times> cbb) \<Rightarrow> cbb \<Rightarrow> bool \<times> cbb" where
  "asn1_child al d tag f c =
     (case CBB_add_asn1 al d tag c of
        (False, c1) \<Rightarrow> (False, c1)
      | (True, c1) \<Rightarrow>
          (case f c1 of
             (False, c2) \<Rightarrow> (False, c2)
           | (True, c2) \<Rightarrow> CBB_flush al d c2))"

text \<open>
  The loop of \<open>CBB_add_asn1_uint64\<close> over the bytes, most significant first; it returns whether a
  byte was written.
\<close>

fun add_uint64_loop ::
  "allocator \<Rightarrow> nat \<Rightarrow> bool \<Rightarrow> byte list \<Rightarrow> cbb \<Rightarrow> bool option \<times> cbb" where
  "add_uint64_loop al d started [] c = (Some started, c)"
| "add_uint64_loop al d started (b # bs) c =
     (if \<not> started \<and> b = 0 then add_uint64_loop al d started bs c
      else case (if \<not> started \<and> b AND 0x80 \<noteq> 0 then CBB_add_u8 al d 0 c else (True, c)) of
        (False, c1) \<Rightarrow> (None, c1)
      | (True, c1) \<Rightarrow>
          (case CBB_add_u8 al d b c1 of
             (False, c2) \<Rightarrow> (None, c2)
           | (True, c2) \<Rightarrow> add_uint64_loop al d True bs c2))"

definition CBB_add_asn1_uint64 :: "allocator \<Rightarrow> nat \<Rightarrow> u64 \<Rightarrow> cbb \<Rightarrow> bool \<times> cbb" where
  "CBB_add_asn1_uint64 al d v =
     asn1_child al d CBS_ASN1_INTEGER (\<lambda>c.
       let bytes = map (\<lambda>i. ucast (drop_bit (8 * (7 - i)) v AND 0xff)) [0..<8]
       in (case add_uint64_loop al (Suc d) False bytes c of
             (None, c1) \<Rightarrow> (False, c1)
           | (Some True, c1) \<Rightarrow> (True, c1)
           | (Some False, c1) \<Rightarrow> CBB_add_u8 al (Suc d) 0 c1))"

text \<open>The first loop of \<open>CBB_add_asn1_int64\<close> over the bytes of the value, least significant first.\<close>

fun int64_start :: "byte list \<Rightarrow> nat \<Rightarrow> nat" where
  "int64_start u 0 = 0"
| "int64_start u (Suc s) =
     (if u ! Suc s = 0xff \<and> u ! s AND 0x80 \<noteq> 0 then int64_start u s else Suc s)"

definition CBB_add_asn1_int64 :: "allocator \<Rightarrow> nat \<Rightarrow> u64 \<Rightarrow> cbb \<Rightarrow> bool \<times> cbb" where
  "CBB_add_asn1_int64 al d v =
     (if 0 \<le> sint v then CBB_add_asn1_uint64 al d v
      else let u = le_bytes 8 (unat v); start = int64_start u 7
           in asn1_child al d CBS_ASN1_INTEGER
                (write_many (CBB_add_u8 al (Suc d)) (rev (take (Suc start) u))))"

definition CBB_add_asn1_octet_string :: "allocator \<Rightarrow> nat \<Rightarrow> byte list \<Rightarrow> cbb \<Rightarrow> bool \<times> cbb" where
  "CBB_add_asn1_octet_string al d data =
     asn1_child al d CBS_ASN1_OCTETSTRING (CBB_add_bytes al (Suc d) data)"

definition CBB_add_asn1_bool :: "allocator \<Rightarrow> nat \<Rightarrow> int \<Rightarrow> cbb \<Rightarrow> bool \<times> cbb" where
  "CBB_add_asn1_bool al d v =
     asn1_child al d CBS_ASN1_BOOLEAN (CBB_add_u8 al (Suc d) (if v \<noteq> 0 then 0xff else 0))"

section \<open>Base 128 integers\<close>

lemma base128_count_eq: "base128_count n v = n + length (b128_cont (unat v))"
proof (induction n v rule: base128_count.induct)
  case (1 n v)
  show ?case
  proof (cases "v > 0")
    case True
    then have "unat v \<noteq> 0" by (simp add: word_less_nat_alt)
    with True 1 show ?thesis
      by (simp add: base128_count.simps [of n v] b128_cont.simps [of "unat v"] unat_drop_bit)
  next
    case False
    then have "unat v = 0" by (simp add: word_less_nat_alt)
    with False show ?thesis by (simp add: base128_count.simps [of n v])
  qed
qed

lemma base128_byte_eq:
  "base128_byte v i = byte_of ((if i \<noteq> 0 then 128 else 0) + unat v div 128 ^ i mod 128)"
proof -
  let ?g = "unat v div 128 ^ i mod 128"
  have "unat (ucast (drop_bit (7 * i) v AND mask 7) :: byte) = ?g"
    by (subst unat_ucast_mask) (simp_all add: unat_drop_bit power_mult)
  then have "ucast (drop_bit (7 * i) v AND mask 7) = byte_of ?g" by (metis byte_of_unat)
  moreover have "mask 7 = (0x7f :: u64)" by (simp add: mask_eq_exp_minus_1)
  ultimately have "ucast (drop_bit (7 * i) v AND 0x7f) = byte_of ?g" by (simp only:)
  then show ?thesis by (simp add: base128_byte_def byte_or_0x80 del: of_nat_add)
qed

lemma b128_cont_bytes:
  "b128_cont w = map (\<lambda>i. byte_of (128 + w div 128 ^ i mod 128)) (rev [0..<length (b128_cont w)])"
proof (induction w rule: b128_cont.induct)
  case (1 w)
  show ?case
  proof (cases "w = 0")
    case False
    then have b: "b128_cont w = b128_cont (w div 128) @ [byte_of (128 + w mod 128)]"
      by (simp add: b128_cont.simps [of w])
    with 1 [OF False] show ?thesis by (simp add: rev_upt_Suc o_def div_mult2_eq del: upt_Suc)
  qed simp
qed

lemma base128_emit_eq:
  "base128_emit al d v n c = write_many (CBB_add_u8 al d) (map (base128_byte v) (rev [0..<n])) c"
  by (induction n arbitrary: c) (auto split: prod.split bool.split)

lemma add_base128_integer_eq:
  "add_base128_integer al d v c = write_many (CBB_add_u8 al d) (base128 (unat v)) c"
proof -
  let ?k = "length (b128_cont (unat v div 128))"
  have len: "(let n = base128_count 0 v in if n = 0 then 1 else n) = Suc ?k"
    by (simp add: base128_count_eq b128_cont.simps [of "unat v"] Let_def)
  have "map (base128_byte v) (rev [0..<Suc ?k]) = base128 (unat v)"
    using b128_cont_bytes [of "unat v div 128"]
    by (simp add: rev_upt_Suc base128_def base128_byte_eq o_def div_mult2_eq del: upt_Suc)
  with len show ?thesis by (simp add: add_base128_integer_def base128_emit_eq Let_def del: upt_Suc)
qed

lemma concat_single_bytes: "concat (map (\<lambda>b :: byte. be_bytes 1 (unat b)) bs) = bs"
  by (induction bs) simp_all

lemma write_u8_writes:
  "\<lbrakk>good_alloc al; cbb_wf c; CBB_add_u8 al d b c = (ok, c1)\<rbrakk> \<Longrightarrow> writes d [b] c ok c1"
  using add_u8.wr_writes [of al c d b ok c1] by simp

lemma write_bytes_writes:
  "\<lbrakk>good_alloc al; cbb_wf c; bs \<noteq> []; write_many (CBB_add_u8 al d) bs c = (ok, c1)\<rbrakk> \<Longrightarrow> writes d bs c ok c1"
  using add_u8.write_many_writes [of al c bs d ok c1] by (simp only: concat_single_bytes) simp

interpretation add_base128: cbb_writer add_base128_integer "\<lambda>_. True" "\<lambda>v. base128 (unat v)"
  by unfold_locales (auto simp: add_base128_integer_eq length_base128_pos intro: write_bytes_writes)

section \<open>Identifiers and children\<close>

lemma tag_byte:
  assumes "n < 32"
  shows "(ucast (drop_bit CBS_ASN1_TAG_SHIFT (tag :: u32)) AND 0xe0 :: byte) OR word_of_nat n
    = byte_of (32 * (unat tag div 2 ^ 29) + n)"
proof -
  let ?t = "ucast (drop_bit CBS_ASN1_TAG_SHIFT tag) :: byte"
  let ?f = "take_bit 3 (drop_bit 5 ?t)"
  have less: "unat tag div 2 ^ 24 < 2 ^ 8" using unat_u32_less [of tag] by (simp add: div_less_iff_less_mult)
  have "unat ?t = unat tag div 2 ^ 24"
    using less by (simp add: unsigned_ucast_eq unat_drop_bit CBS_ASN1_TAG_SHIFT_def take_bit_nat_eq_self)
  moreover have "unat tag div 2 ^ 24 div 2 ^ 5 = unat tag div 2 ^ 29" by (simp flip: div_mult2_eq)
  moreover have "unat tag div 2 ^ 29 < 2 ^ 3" using unat_u32_less [of tag] by (simp add: div_less_iff_less_mult)
  ultimately have f: "unat ?f = unat tag div 2 ^ 29"
    by (simp add: unsigned_take_bit_eq unat_drop_bit take_bit_nat_eq_self)
  have "(?t AND 0xe0) OR word_of_nat n = push_bit 5 ?f + word_of_nat n"
  proof -
    have "?t AND 0xe0 = push_bit 5 ?f" by (rule and_0xe0) simp
    moreover have "push_bit 5 ?f OR word_of_nat n = push_bit 5 ?f + word_of_nat n"
      using assms by (intro shift_in_eq_plus [of 5]) simp_all
    ultimately show ?thesis by (simp only:)
  qed
  also have "\<dots> = word_of_nat (32 * unat ?f + n)" by (simp add: push_bit_eq_mult mult.commute)
  finally show ?thesis by (simp only: f byte_of_def)
qed

lemma cbb_add_tag_eq:
  "cbb_add_tag al d tag c = write_many (CBB_add_u8 al d) (der_tag tag) c"
proof -
  define number where "number = unat tag mod 2 ^ 29"
  let ?n = "tag AND CBS_ASN1_TAG_NUMBER_MASK"
  have n: "unat ?n = number"
    using unat_and_mask [of tag 29] by (simp add: asn1_constants mask_eq_exp_minus_1 number_def)
  then have ge: "?n \<ge> 0x1f \<longleftrightarrow> \<not> number < 31" by (simp add: word_le_nat_alt not_less)
  have u1: "unat (ucast ?n :: u64) = number" using n unat_ucast_up [of ?n, where 'b = 64] by simp
  have u: "(ucast ?n :: byte) = word_of_nat number" by (simp only: ucast_eq_word_of_nat n)
  define k where "k = unat tag div 2 ^ 29"
  have dt: "der_tag tag = (if number < 0x1f then [byte_of (32 * k + number)]
      else byte_of (32 * k + 0x1f) # base128 number)"
    by (rule der_tag_split) (simp_all add: k_def number_def)
  have tb: "number < 32 \<Longrightarrow> (ucast (drop_bit CBS_ASN1_TAG_SHIFT tag) AND 0xe0 :: byte) OR word_of_nat number
      = byte_of (32 * k + number)"
    "(ucast (drop_bit CBS_ASN1_TAG_SHIFT tag) AND 0xe0 :: byte) OR 0x1f = byte_of (32 * k + 31)"
    using tag_byte [of number tag] tag_byte [of 31 tag] by (simp_all add: k_def)
  show ?thesis
  proof (cases "number < 31")
    case True
    then have "cbb_add_tag al d tag c = CBB_add_u8 al d (byte_of (32 * k + number)) c"
      unfolding cbb_add_tag_def Let_def ge u by (simp only: tb if_False simp_thms)
    with True dt show ?thesis by (simp split: prod.split bool.split)
  next
    case False
    then show ?thesis
      unfolding cbb_add_tag_def Let_def ge tb dt add_base128_integer_eq u1 by simp
  qed
qed

lemma der_tag_ne: "der_tag tag \<noteq> []"
  by (simp add: der_tag_def Let_def)

interpretation add_tag: cbb_writer cbb_add_tag "\<lambda>_. True" der_tag
  by unfold_locales (auto simp: cbb_add_tag_eq der_tag_ne intro: write_bytes_writes)

text \<open>A \<open>CBB\<close> without pending children is not changed by a flush.\<close>

lemma CBB_flush_idle:
  "\<lbrakk>base c = Some b; \<not> err b; length (children c) = d\<rbrakk> \<Longrightarrow> CBB_flush al d c = (True, c)"
  by (simp add: CBB_flush_def)

lemma CBB_add_asn1_opens:
  assumes "good_alloc al" and "cbb_wf c" and "CBB_add_asn1 al d tag c = (ok, c1)"
  shows "opens d 1 True (der_tag tag) c ok c1"
proof -
  obtain ok0 c0 where f: "CBB_flush al d c = (ok0, c0)" by fastforce
  obtain ok2 c2 where t: "cbb_add_tag al d tag c0 = (ok2, c2)" by fastforce
  note f' = CBB_flush_laws(1) [OF assms(1,2) f]
  then have "cbb_wf c0" by (simp add: writes_def)
  note t' = add_tag.wr_writes [OF assms(1) this _ t]
  show ?thesis
  proof (cases "ok0 \<and> ok2")
    case False
    with assms(3) f t f' t' writes_trans [of d "[]" c c0 "der_tag tag" ok2 c2] show ?thesis
      by (auto simp: CBB_add_asn1_def intro: opens_fail split: bool.splits)
  next
    case True
    with f' t' writes_trans [of d "[]" c c0 "der_tag tag" True c2]
    have w: "writes d (der_tag tag) c True c2" by simp
    then obtain bs b where b: "cbb_written d c = Some bs" "base c2 = Some b" "\<not> err b"
      "children c2 = take d (children c)" "d \<le> length (children c)" "\<not> cbb_err c" "cbb_wf c2"
      "cbb_resizable c2 = cbb_resizable c" "content b = bs @ der_tag tag"
      by (cases "base c2") (auto simp: writes_def cbb_err_def cbb_written_def)
    obtain okb b1 where a: "cbb_buffer_add_u al b 0 1 = (okb, b1)" by fastforce
    have "buffer_ok b" using b(2,7) by (simp add: cbb_wf_def)
    from add_u_writes [OF assms(1) _ _ this, of 1 0 "[0]"] a have bw: "buffer_writes b [0] okb b1"
      by (simp add: byte_of_def)
    have "CBB_add_u8 al d 0 c2 = (okb, c2\<lparr>base := Some b1\<rparr>)"
      using CBB_flush_idle [OF b(2,3), of d al] b(2,4,5) a by (simp add: CBB_add_u8_def flush_then_def)
    with assms(3) f t True b(2) have r: "ok = okb" "c1 = (if ok then cbb_open_child d
        \<lparr>offset = blen b, pending_len_len = 1, pending_is_asn1 = True\<rparr> (c2\<lparr>base := Some b1\<rparr>)
        else c2\<lparr>base := Some b1\<rparr>)"
      by (auto simp: CBB_add_asn1_def split: bool.splits)
    show ?thesis
    proof (cases okb)
      case True
      with open_child_opens [OF b(7,8,2,9,4,5,1,6), of 1 True b1] bw b(3) r show ?thesis by simp
    next
      case False
      have "chain_ok 0 (children c2) (blen b1)"
        using b(2,7) bw chain_ok_mono by (auto simp: buffer_writes_def cbb_wf_def)
      with False bw r b show ?thesis
        by (auto simp: opens_def cbb_wf_def cbb_err_def buffer_writes_def cbb_resizable_def)
    qed
  qed
qed

lemma asn1_child_writes:
  assumes "good_alloc al" and "cbb_wf c" and "asn1_child al d tag f c = (ok, c1)"
    and f: "\<And>c ok c1. \<lbrakk>cbb_wf c; f c = (ok, c1)\<rbrakk> \<Longrightarrow> writes (Suc d) body c ok c1"
  shows "writes d (der_element tag body) c ok c1"
proof -
  obtain oka ca where a: "CBB_add_asn1 al d tag c = (oka, ca)" by fastforce
  note o = CBB_add_asn1_opens [OF assms(1,2) a]
  then have wf: "cbb_wf ca" by (simp add: opens_def)
  obtain okb cb where b: "f ca = (okb, cb)" by fastforce
  note w = f [OF wf b]
  show ?thesis
  proof (cases "oka \<and> okb")
    case False
    show ?thesis
    proof (cases oka)
      case False
      with o assms(3) a show ?thesis by (auto simp: asn1_child_def opens_def writes_def)
    next
      case True
      with False have "okb = False" by simp
      with True a b assms(3) have "ok = False" "c1 = cb" by (simp_all add: asn1_child_def)
      moreover have "writes d (der_element tag body) c False cb"
        using True o w \<open>okb = False\<close> by (intro child_write_fails [of d 1 True "der_tag tag"]) simp_all
      ultimately show ?thesis by simp
    qed
  next
    case True
    with a b assms(3) have fl: "CBB_flush al d cb = (ok, c1)" by (simp add: asn1_child_def)
    show ?thesis
      by (rule child_flush [OF assms(1) _ _ fl, of 1 True "der_tag tag" c ca body])
        (use True o w in \<open>auto simp: len_prefix_def der_element_def split: if_splits\<close>)
  qed
qed

interpretation add_octet_string: cbb_writer CBB_add_asn1_octet_string "\<lambda>bs. length bs < 2 ^ 64"
  "der_element CBS_ASN1_OCTETSTRING"
  by unfold_locales
    (auto simp: CBB_add_asn1_octet_string_def intro!: asn1_child_writes intro: add_bytes.wr_writes)

section \<open>INTEGER and BOOLEAN\<close>

text \<open>The contents \<open>CBB_add_asn1_uint64\<close> writes for the bytes of a value.\<close>

definition uint_content :: "byte list \<Rightarrow> byte list" where
  "uint_content bs =
     (case dropWhile (\<lambda>b. b = 0) bs of
        [] \<Rightarrow> [0]
      | b # r \<Rightarrow> if 128 \<le> unat b then 0 # b # r else b # r)"

lemma be_val_dropWhile: "be_val (dropWhile (\<lambda>b. b = 0) bs) = be_val bs"
  by (induction bs) (simp_all add: be_val_Cons)

lemma dropWhile_hd_nonzero: "dropWhile (\<lambda>b. b = 0) bs = b # r \<Longrightarrow> b \<noteq> (0 :: byte)"
  using hd_dropWhile [of "\<lambda>b. b = 0" bs] by auto

lemma uint_content_der_int: "uint_content bs = der_int (int (be_val bs))"
proof -
  let ?c = "uint_content bs"
  obtain l where l: "l = dropWhile (\<lambda>b. b = 0) bs" by blast
  have v: "be_val l = be_val bs" by (simp add: l be_val_dropWhile)
  have c: "?c = (case l of [] \<Rightarrow> [0] | b # r \<Rightarrow> if 128 \<le> unat b then 0 # b # r else b # r)"
    by (simp add: uint_content_def l)
  have "twos ?c = int (be_val bs)"
    unfolding c using v by (cases l) (auto simp: twos_def be_val_Cons)
  moreover have "minimal_int ?c"
  proof (cases l)
    case (Cons b r)
    then have "unat b \<noteq> 0" using dropWhile_hd_nonzero [of bs b r] l by (simp add: unat_eq_0)
    moreover have "128 \<le> unat b" if "b = 0xff" using that by simp
    ultimately show ?thesis unfolding c using Cons by (auto simp: minimal_int_def unat_eq_0)
  qed (simp add: c minimal_int_def)
  ultimately show ?thesis using minimal_int_iff [of ?c] by simp
qed

lemma add_uint64_loop_True:
  "add_uint64_loop al d True bs c =
     (case write_many (CBB_add_u8 al d) bs c of (ok, c1) \<Rightarrow> (if ok then Some True else None, c1))"
  by (induction bs arbitrary: c) (auto split: prod.split bool.split)

lemma add_uint64_loop_eq:
  "(case add_uint64_loop al d False bs c of
      (None, c1) \<Rightarrow> (False, c1) | (Some True, c1) \<Rightarrow> (True, c1)
    | (Some False, c1) \<Rightarrow> CBB_add_u8 al d 0 c1) = write_many (CBB_add_u8 al d) (uint_content bs) c"
proof (induction bs arbitrary: c)
  case Nil
  show ?case by (auto simp: uint_content_def split: prod.split bool.split)
next
  case (Cons b bs)
  show ?case
  proof (cases "b = 0")
    case True
    with Cons.IH [of c] show ?thesis by (simp add: uint_content_def)
  next
    case False
    then have "uint_content (b # bs) = (if 128 \<le> unat b then [0] else []) @ b # bs"
      by (simp add: uint_content_def)
    with False show ?thesis
      by (auto simp: add_uint64_loop_True byte_high_bit split: prod.split bool.split)
  qed
qed

lemma byte_at_eq: "ucast (drop_bit (8 * k) (v :: u64) AND 0xff) = byte_of (unat v div 256 ^ k)"
proof -
  have "unat (ucast (drop_bit (8 * k) v AND mask 8) :: byte) = unat v div 256 ^ k mod 256"
    by (subst unat_ucast_mask) (simp_all add: unat_drop_bit power_mult)
  moreover have "mask 8 = (0xff :: u64)" by (simp add: mask_eq_exp_minus_1)
  ultimately show ?thesis by (simp only: byte_eq_iff unat_byte_of)
qed

lemma uint64_bytes:
  "map (\<lambda>i. ucast (drop_bit (8 * (7 - i)) v AND 0xff)) [0..<8] = be_bytes 8 (unat (v :: u64))"
  by (simp add: upt_rec byte_at_eq bytes_simps div_mult2_eq [symmetric] del: unat_div)

interpretation add_uint64: cbb_writer CBB_add_asn1_uint64 "\<lambda>_. True" der_uint64
proof
  fix al c a d ok c1
  assume al: "good_alloc al" and wf: "cbb_wf c" and r: "CBB_add_asn1_uint64 al d a c = (ok, c1)"
  have "int (be_val (be_bytes 8 (unat a))) = uint a"
    using be_val_be_bytes_id [of "unat a" 8] unat_u64_less [of a] by simp
  then have body: "uint_content (be_bytes 8 (unat a)) = der_int (uint a)"
    by (simp only: uint_content_der_int)
  from r have "asn1_child al d CBS_ASN1_INTEGER (write_many (CBB_add_u8 al (Suc d)) (der_int (uint a))) c = (ok, c1)"
    unfolding CBB_add_asn1_uint64_def Let_def uint64_bytes add_uint64_loop_eq body .
  from asn1_child_writes [OF al wf this write_bytes_writes [OF al _ der_int_ne]]
  show "writes d (der_uint64 a) c ok c1" by (simp add: der_uint64_def)
qed

text \<open>The bytes that \<open>CBB_add_asn1_int64\<close> keeps of a negative value.\<close>

lemma rev_take_Suc: "s < length u \<Longrightarrow> rev (take (Suc s) u) = u ! s # rev (take s u)"
  by (simp add: take_Suc_conv_app_nth)

lemma int64_start_le: "int64_start u s \<le> s"
  by (induction u s rule: int64_start.induct) auto

lemma twos_int64_start:
  "s < length u \<Longrightarrow> twos (rev (take (Suc (int64_start u s)) u)) = twos (rev (take (Suc s) u))"
proof (induction u s rule: int64_start.induct)
  case (2 u s)
  show ?case
  proof (cases "u ! Suc s = 0xff \<and> u ! s AND 0x80 \<noteq> 0")
    case True
    then have h: "128 \<le> unat (u ! s)" "unat (u ! Suc s) = 255" by (simp_all add: byte_high_bit)
    have "rev (take (Suc (Suc s)) u) = u ! Suc s # u ! s # rev (take s u)"
      "rev (take (Suc s) u) = u ! s # rev (take s u)"
      using 2(2) by (simp_all add: rev_take_Suc)
    then have "twos (rev (take (Suc (Suc s)) u)) = twos (rev (take (Suc s) u))"
      using twos_drop(2) [OF h] by (simp only:)
    with True 2 show ?thesis by simp
  next
    case False
    then have "int64_start u (Suc s) = Suc s" by auto
    then show ?thesis by (simp only:)
  qed
qed simp

lemma minimal_int64_start:
  assumes "s < length u" and "twos (rev (take (Suc s) u)) < 0"
  shows "minimal_int (rev (take (Suc (int64_start u s)) u))"
  using assms
proof (induction u s rule: int64_start.induct)
  case (1 u)
  then show ?case by (auto simp: minimal_int_def)
next
  case (2 u s)
  show ?case
  proof (cases "u ! Suc s = 0xff \<and> u ! s AND 0x80 \<noteq> 0")
    case True
    with 2 twos_int64_start [of s u] twos_int64_start [of "Suc s" u] show ?thesis by simp
  next
    case False
    have r: "rev (take (Suc (Suc s)) u) = u ! Suc s # u ! s # rev (take s u)"
      using 2(2) by (simp add: rev_take_Suc)
    have "128 \<le> unat (u ! Suc s)" using 2(3) unfolding r twos_neg_iff by simp
    then have "u ! Suc s \<noteq> 0" by auto
    moreover have "\<not> (u ! Suc s = 0xff \<and> 128 \<le> unat (u ! s))" using False by (auto simp: byte_high_bit)
    moreover have "int64_start u (Suc s) = Suc s" using False by auto
    ultimately show ?thesis unfolding minimal_int_def r by (simp only: r) simp
  qed
qed

lemma int64_content:
  assumes "sint (v :: u64) < 0"
  shows "rev (take (Suc (int64_start (le_bytes 8 (unat v)) 7)) (le_bytes 8 (unat v))) = der_int (sint v)"
proof -
  let ?u = "le_bytes 8 (unat v)"
  have l: "length ?u = 8" by (simp add: le_bytes_def)
  then have "rev (take (Suc 7) ?u) = be_bytes 8 (unat v)" by (simp add: le_bytes_def)
  moreover have "twos (be_bytes 8 (unat v)) = sint v"
  proof -
    have "be_bytes 8 (unat v) \<noteq> []" by (auto dest: arg_cong [of _ _ length])
    from sign_extended [OF this] be_val_be_bytes_id [of "unat v" 8] unat_u64_less [of v] show ?thesis
      by simp
  qed
  ultimately have tw: "twos (rev (take (Suc 7) ?u)) = sint v" by (simp only:)
  have "twos (rev (take (Suc (int64_start ?u 7)) ?u)) = sint v"
    using twos_int64_start [of 7 ?u] l tw by simp
  moreover have "minimal_int (rev (take (Suc (int64_start ?u 7)) ?u))"
    using l tw assms by (intro minimal_int64_start) simp_all
  ultimately show ?thesis using der_int_twos by metis
qed

interpretation add_int64: cbb_writer CBB_add_asn1_int64 "\<lambda>_. True" der_int64
proof
  fix al c a d ok c1
  assume al: "good_alloc al" and wf: "cbb_wf c" and r: "CBB_add_asn1_int64 al d a c = (ok, c1)"
  show "writes d (der_int64 a) c ok c1"
  proof (cases "0 \<le> sint a")
    case True
    then have "sint a = uint a"
      using sint_less [of a] by (simp add: uint_sint take_bit_int_eq_self)
    with True r add_uint64.wr_writes [OF al wf TrueI, of d a ok c1] show ?thesis
      by (simp add: CBB_add_asn1_int64_def der_int64_def der_uint64_def)
  next
    case False
    then have "sint a < 0" by simp
    from r int64_content [OF this] False have
      "asn1_child al d CBS_ASN1_INTEGER (write_many (CBB_add_u8 al (Suc d)) (der_int (sint a))) c = (ok, c1)"
      by (simp add: CBB_add_asn1_int64_def Let_def)
    from asn1_child_writes [OF al wf this write_bytes_writes [OF al _ der_int_ne]]
    show ?thesis by (simp add: der_int64_def)
  qed
qed

interpretation add_bool: cbb_writer CBB_add_asn1_bool "\<lambda>_. True" "\<lambda>v. der_bool (v \<noteq> 0)"
proof
  fix al c and a :: int and d ok c1
  assume al: "good_alloc al" and wf: "cbb_wf c" and r: "CBB_add_asn1_bool al d a c = (ok, c1)"
  have w: "\<And>c ok c1. cbb_wf c \<Longrightarrow> CBB_add_u8 al (Suc d) (if a \<noteq> 0 then 0xff else 0) c = (ok, c1) \<Longrightarrow>
      writes (Suc d) [if a \<noteq> 0 then 0xff else 0] c ok c1"
    using add_u8.wr_writes [OF al] by fastforce
  from asn1_child_writes [OF al wf r [unfolded CBB_add_asn1_bool_def] w]
  show "writes d (der_bool (a \<noteq> 0)) c ok c1" by (simp add: der_bool_def)
qed

text \<open>The writers and the readers of the primitive types belong together.\<close>

interpretation wire_uint64: wire_codec CBS_get_asn1_uint64 "\<lambda>v bs. True \<and> bs = der_uint64 v"
  "\<lambda>_. True" der_uint64 CBB_add_asn1_uint64 "\<lambda>_. True"
  by (intro wire_codec.intro get_uint64.canonical_codec_axioms add_uint64.cbb_writer_axioms
      wire_codec_axioms.intro)

interpretation wire_int64: wire_codec CBS_get_asn1_int64 "\<lambda>v bs. True \<and> bs = der_int64 v"
  "\<lambda>_. True" der_int64 CBB_add_asn1_int64 "\<lambda>_. True"
  by (intro wire_codec.intro get_int64.canonical_codec_axioms add_int64.cbb_writer_axioms
      wire_codec_axioms.intro)

end
