(* ===== verification/Oid.thy ===== *)
theory Oid
  imports Cbb_Asn1
begin

text \<open>
  Object identifiers: \<open>CBB_add_asn1_oid_from_text\<close> of \<open>cbb.c\<close> and \<open>CBS_asn1_oid_to_text\<close> of
  \<open>cbs.c\<close>.  The specification of both is a list of components: \<open>dotted\<close> is its text and \<open>oid_der\<close>
  its encoding.
\<close>

section \<open>Definitions\<close>

text \<open>\<open>parse_dotted_decimal\<close>: the loop over \<open>*out\<close>, \<open>seen_digit\<close> and the input.\<close>

function dotted_decimal_loop :: "u64 \<Rightarrow> bool \<Rightarrow> cbs \<Rightarrow> u64 option \<times> cbs" where
  "dotted_decimal_loop out seen_digit c =
     (case CBS_get_u8 c of
        (None, c1) \<Rightarrow> (if seen_digit then Some out else None, c1)
      | (Some u, c1) \<Rightarrow>
          if u = 0x2e \<and> CBS_len c1 > 0 then (if seen_digit then Some out else None, c1)
          else if u < 0x30 \<or> u > 0x39 \<or> seen_digit \<and> out = 0 \<or>
                  out > (-1) div 10 \<or> out * 10 > (-1) - ucast (u - 0x30)
          then (None, c1)
          else dotted_decimal_loop (out * 10 + ucast (u - 0x30)) True c1)"
  by pat_completeness auto
termination
  by (relation "measure (\<lambda>(_, _, c). cbs_len c)") (auto dest: CBS_get_u8_shorter [OF sym])

declare dotted_decimal_loop.simps [simp del]

definition parse_dotted_decimal :: "cbs \<Rightarrow> u64 option \<times> cbs" where
  "parse_dotted_decimal c = dotted_decimal_loop 0 False c"

lemma dotted_decimal_loop_shorter:
  "dotted_decimal_loop v s c = (Some x, c1) \<Longrightarrow> s \<and> cbs_len c1 \<le> cbs_len c \<or> cbs_len c1 < cbs_len c"
proof (induction v s c arbitrary: rule: dotted_decimal_loop.induct)
  case (1 v s c)
  obtain r c0 where g: "CBS_get_u8 c = (r, c0)" by fastforce
  show ?case
  proof (cases r)
    case None
    then have "c0 = c" using g by (auto simp: CBS_get_u8_def cbs_get_def split: if_splits)
    with 1(2) g None show ?thesis by (auto simp: dotted_decimal_loop.simps [of v s c] split: if_splits)
  next
    case (Some u)
    with g CBS_get_u8_shorter have l: "cbs_len c0 < cbs_len c" by simp
    have e: "dotted_decimal_loop v s c =
        (if u = 0x2e \<and> CBS_len c0 > 0 then (if s then Some v else None, c0)
         else if u < 0x30 \<or> u > 0x39 \<or> s \<and> v = 0 \<or> v > (-1) div 10 \<or> v * 10 > (-1) - ucast (u - 0x30)
         then (None, c0) else dotted_decimal_loop (v * 10 + ucast (u - 0x30)) True c0)"
      using g Some by (simp only: dotted_decimal_loop.simps [of v s c] prod.case option.case)
    show ?thesis using 1(1) [OF g [symmetric] Some] 1(2) l unfolding e by (fastforce split: if_splits)
  qed
qed

lemma parse_dotted_decimal_shorter:
  "parse_dotted_decimal c = (Some x, c1) \<Longrightarrow> cbs_len c1 < cbs_len c"
  using dotted_decimal_loop_shorter [of 0 False c x c1] by (simp add: parse_dotted_decimal_def)

text \<open>The loop over the components after the second.\<close>

function oid_components :: "allocator \<Rightarrow> nat \<Rightarrow> cbs \<Rightarrow> cbb \<Rightarrow> bool \<times> cbb" where
  "oid_components al d c out =
     (if CBS_len c > 0 then
        (case parse_dotted_decimal c of
           (None, _) \<Rightarrow> (False, out)
         | (Some a, c1) \<Rightarrow>
             (case add_base128_integer al d a out of
                (False, out1) \<Rightarrow> (False, out1)
              | (True, out1) \<Rightarrow> oid_components al d c1 out1))
      else (True, out))"
  by pat_completeness auto
termination
  by (relation "measure (\<lambda>(_, _, c, _). cbs_len c)") (auto dest: parse_dotted_decimal_shorter [OF sym])

declare oid_components.simps [simp del]

definition CBB_add_asn1_oid_from_text :: "allocator \<Rightarrow> nat \<Rightarrow> byte list \<Rightarrow> nat \<Rightarrow> cbb \<Rightarrow> bool \<times> cbb" where
  "CBB_add_asn1_oid_from_text al d text len c =
     (case CBB_flush al d c of
        (False, c1) \<Rightarrow> (False, c1)
      | (True, c1) \<Rightarrow>
          (case parse_dotted_decimal (CBS_init text len) of
             (None, _) \<Rightarrow> (False, c1)
           | (Some a, s1) \<Rightarrow>
               (case parse_dotted_decimal s1 of
                  (None, _) \<Rightarrow> (False, c1)
                | (Some b, s2) \<Rightarrow>
                    if a > 2 \<or> a < 2 \<and> b > 39 \<or> b > (-1) - 80 then (False, c1)
                    else (case add_base128_integer al d (40 * a + b) c1 of
                            (False, c2) \<Rightarrow> (False, c2)
                          | (True, c2) \<Rightarrow> oid_components al d s2 c2))))"

text \<open>\<open>add_decimal\<close>; \<open>BIO_snprintf\<close> with \<open>PRIu64\<close> prints the decimal digits.\<close>

fun decimal :: "nat \<Rightarrow> byte list" where
  "decimal n = (if n < 10 then [] else decimal (n div 10)) @ [byte_of (48 + n mod 10)]"

declare decimal.simps [simp del]

definition add_decimal :: "allocator \<Rightarrow> nat \<Rightarrow> u64 \<Rightarrow> cbb \<Rightarrow> bool \<times> cbb" where
  "add_decimal al d v c = CBB_add_bytes al d (decimal (unat v)) c"

text \<open>\<open>then_write\<close> is the \<open>||\<close> of a failed write in the source's conditions.\<close>

definition then_write :: "(cbb \<Rightarrow> bool \<times> cbb) \<Rightarrow> (cbb \<Rightarrow> bool \<times> cbb) \<Rightarrow> cbb \<Rightarrow> bool \<times> cbb" where
  "then_write f g c = (case f c of (False, c1) \<Rightarrow> (False, c1) | (True, c1) \<Rightarrow> g c1)"

function oid_text_loop :: "allocator \<Rightarrow> cbs \<Rightarrow> cbb \<Rightarrow> bool \<times> cbb" where
  "oid_text_loop al c out =
     (if CBS_len c \<noteq> 0 then
        (case parse_base128_integer c of
           (None, _) \<Rightarrow> (False, out)
         | (Some v, c1) \<Rightarrow>
             (case then_write (CBB_add_u8 al 0 0x2e) (add_decimal al 0 v) out of
                (False, out1) \<Rightarrow> (False, out1)
              | (True, out1) \<Rightarrow> oid_text_loop al c1 out1))
      else (True, out))"
  by pat_completeness auto
termination
  by (relation "measure (\<lambda>(_, c, _). cbs_len c)") (auto dest: parse_base128_shorter [OF sym])

declare oid_text_loop.simps [simp del]

text \<open>The result is the NUL terminated block, or \<open>None\<close>.\<close>

definition CBS_asn1_oid_to_text :: "allocator \<Rightarrow> bool \<Rightarrow> cbs \<Rightarrow> byte list option" where
  "CBS_asn1_oid_to_text al base_ok c =
     (case CBB_init al base_ok 32 of
        (False, _) \<Rightarrow> None
      | (True, out0) \<Rightarrow>
          (case parse_base128_integer c of
             (None, _) \<Rightarrow> None
           | (Some v, c1) \<Rightarrow>
               (case (if v \<ge> 80
                      then then_write (CBB_add_bytes al 0 [0x32, 0x2e]) (add_decimal al 0 (v - 80)) out0
                      else then_write (add_decimal al 0 (v div 40))
                             (then_write (CBB_add_u8 al 0 0x2e) (add_decimal al 0 (v mod 40))) out0) of
                  (False, _) \<Rightarrow> None
                | (True, out1) \<Rightarrow>
                    (case oid_text_loop al c1 out1 of
                       (False, _) \<Rightarrow> None
                     | (True, out2) \<Rightarrow>
                         (case CBB_add_u8 al 0 0 out2 of
                            (False, _) \<Rightarrow> None
                          | (True, out3) \<Rightarrow> map_option fst (fst (CBB_finish al 0 True out3)))))))"

section \<open>Decimal components\<close>

text \<open>The value of a string of digits behind the value of those in front of it.\<close>

fun digits_val :: "nat \<Rightarrow> byte list \<Rightarrow> nat" where
  "digits_val v [] = v"
| "digits_val v (d # ds) = digits_val (10 * v + (unat d - 48)) ds"

text \<open>What ends a component: the end of the text, or a dot with something behind it.\<close>

definition ends_component :: "byte list \<Rightarrow> byte list \<Rightarrow> bool" where
  "ends_component rest r \<longleftrightarrow> rest = [] \<and> r = [] \<or> r \<noteq> [] \<and> rest = 0x2e # r"

lemma digit_step:
  fixes out :: u64 and u :: byte
  assumes "48 \<le> unat u" and "unat u \<le> 57"
  shows "out > (-1) div 10 \<or> out * 10 > (-1) - ucast (u - 0x30) \<longleftrightarrow> 2 ^ 64 \<le> 10 * unat out + (unat u - 48)"
    and "10 * unat out + (unat u - 48) < 2 ^ 64 \<Longrightarrow>
      unat (out * 10 + ucast (u - 0x30)) = 10 * unat out + (unat u - 48)"
proof -
  define k where "k = unat u - 48"
  have k: "unat (u - 0x30) = k" "k < 10" using assms by (simp_all add: k_def unat_sub_if' word_le_nat_alt)
  define w where "w = (ucast (u - 0x30) :: u64)"
  have uk: "unat w = k" using k by (simp add: w_def unat_ucast_up)
  have m: "unat ((-1 :: u64) div 10) = 1844674407370955161" by simp
  have "unat (-1 - w) = unat (-1 :: u64) - unat w" by (rule unat_sub) simp
  moreover have "unat (-1 :: u64) = 2 ^ 64 - 1"
    by (simp add: unsigned_minus_1_eq_mask mask_eq_exp_minus_1)
  ultimately have s: "unat (-1 - w) = 2 ^ 64 - 1 - k" using uk by simp
  have mul: "unat (out * 10) = 10 * unat out" if "10 * unat out < 2 ^ 64"
    using that unat_mult_lem [of out 10] by (simp add: mult.commute)
  have "out > (-1) div 10 \<or> out * 10 > -1 - w \<longleftrightarrow> 2 ^ 64 \<le> 10 * unat out + k"
  proof (cases "out > (-1) div 10")
    case True
    then have "1844674407370955161 < unat out" using m by (simp only: word_less_nat_alt)
    with True show ?thesis by simp
  next
    case False
    then have "unat out \<le> 1844674407370955161" using m by (simp only: word_less_nat_alt not_less)
    then have l: "10 * unat out < 2 ^ 64" by simp
    with False show ?thesis using k(2) by (auto simp: word_less_nat_alt mul s)
  qed
  then show "out > (-1) div 10 \<or> out * 10 > (-1) - ucast (u - 0x30) \<longleftrightarrow> 2 ^ 64 \<le> 10 * unat out + (unat u - 48)"
    by (simp only: w_def k_def)
  show "unat (out * 10 + ucast (u - 0x30)) = 10 * unat out + (unat u - 48)"
    if "10 * unat out + (unat u - 48) < 2 ^ 64"
    using that mul uk unat_add_lem [of "out * 10" w] by (simp add: k_def w_def)
qed

lemma dotted_decimal_loop_Nil:
  "\<lbrakk>cbs_ok c; cbs_bytes c = []\<rbrakk> \<Longrightarrow> dotted_decimal_loop v s c = (if s then Some v else None, c)"
  by (simp add: dotted_decimal_loop.simps [of v s c] CBS_get_u8_Nil)

lemma dotted_decimal_loop_Cons:
  assumes "cbs_ok c" and "cbs_bytes c = u # bs"
  shows "dotted_decimal_loop v s c =
    (if u = 0x2e \<and> bs \<noteq> [] then (if s then Some v else None, cbs_advance 1 c)
     else if unat u < 48 \<or> 57 < unat u \<or> s \<and> v = 0 \<or> 2 ^ 64 \<le> 10 * unat v + (unat u - 48)
     then (None, cbs_advance 1 c)
     else dotted_decimal_loop (word_of_nat (10 * unat v + (unat u - 48))) True (cbs_advance 1 c))"
proof -
  have len: "CBS_len (cbs_advance 1 c) > 0 \<longleftrightarrow> bs \<noteq> []"
    using assms length_cbs_bytes [of c] by (cases bs) (auto simp: CBS_len_def)
  have rng: "u < 0x30 \<longleftrightarrow> unat u < 48" "u > 0x39 \<longleftrightarrow> 57 < unat u" by (simp_all add: word_less_nat_alt)
  have w: "v * 10 + ucast (u - 0x30) = word_of_nat (10 * unat v + (unat u - 48))"
    if "48 \<le> unat u" "unat u \<le> 57" "10 * unat v + (unat u - 48) < 2 ^ 64"
    using digit_step(2) [OF that] by (rule word_of_nat_eqI)
  show ?thesis
    unfolding dotted_decimal_loop.simps [of v s c] CBS_get_u8_Cons [OF assms] prod.case option.case len rng
    using digit_step(1) [of u v] w by (auto simp del: of_nat_add of_nat_mult of_nat_diff)
qed

lemma digits_val_ge: "v \<le> digits_val v ds"
proof (induction ds arbitrary: v)
  case (Cons d ds)
  have "v \<le> 10 * v + (unat d - 48)" by simp
  also have "\<dots> \<le> digits_val (10 * v + (unat d - 48)) ds" by (rule Cons.IH)
  finally show ?case by simp
qed simp

text \<open>Canonical digits behind a value: none after a zero that was seen.\<close>

fun plain :: "nat \<Rightarrow> bool \<Rightarrow> byte list \<Rightarrow> bool" where
  "plain v s [] \<longleftrightarrow> s"
| "plain v s (d # ds) \<longleftrightarrow> \<not> (s \<and> v = 0) \<and> 48 \<le> unat d \<and> unat d \<le> 57 \<and> plain (10 * v + (unat d - 48)) True ds"

lemma dotted_decimal_loop_complete:
  assumes "cbs_ok c" and "cbs_bytes c = ds @ rest" and "plain (unat v) s ds"
    and "digits_val (unat v) ds < 2 ^ 64" and "ends_component rest r"
  shows "\<exists>c1. dotted_decimal_loop v s c = (Some (word_of_nat (digits_val (unat v) ds)), c1) \<and>
    cbs_ok c1 \<and> cbs_bytes c1 = r"
  using assms
proof (induction ds arbitrary: v s c)
  case Nil
  then show ?case
    by (auto simp: ends_component_def dotted_decimal_loop_Nil dotted_decimal_loop_Cons)
next
  case (Cons d ds)
  let ?w = "10 * unat v + (unat d - 48)"
  have w: "?w < 2 ^ 64" using Cons.prems(4) digits_val_ge [of ?w ds] by (simp only: digits_val.simps)
  have uw: "unat (word_of_nat ?w :: u64) = ?w" using w by (intro unat_word_of_nat_id) simp
  have d: "48 \<le> unat d" "unat d \<le> 57" "\<not> (s \<and> v = 0)" "plain ?w True ds"
    using Cons.prems(3) by (auto simp: unat_eq_0)
  then have "d \<noteq> 0x2e" by auto
  with d w Cons.prems have step: "dotted_decimal_loop v s c = dotted_decimal_loop (word_of_nat ?w) True (cbs_advance 1 c)"
    by (subst dotted_decimal_loop_Cons [of c d "ds @ rest"])
      (auto simp del: of_nat_add of_nat_mult of_nat_diff)
  have "\<exists>c1. dotted_decimal_loop (word_of_nat ?w) True (cbs_advance 1 c) =
      (Some (word_of_nat (digits_val (unat (word_of_nat ?w :: u64)) ds)), c1) \<and> cbs_ok c1 \<and> cbs_bytes c1 = r"
    using Cons.prems d(4) by (intro Cons.IH) (simp_all only: uw, simp_all)
  with step uw show ?case by (simp del: of_nat_add of_nat_mult of_nat_diff)
qed

lemma dotted_decimal_loop_sound:
  "\<lbrakk>cbs_ok c; dotted_decimal_loop v s c = (Some x, c1)\<rbrakk> \<Longrightarrow>
    cbs_ok c1 \<and> (\<exists>ds rest. cbs_bytes c = ds @ rest \<and> plain (unat v) s ds \<and>
      unat x = digits_val (unat v) ds \<and> ends_component rest (cbs_bytes c1))"
proof (induction "cbs_len c" arbitrary: v s c rule: less_induct)
  case less
  show ?case
  proof (cases "cbs_bytes c")
    case Nil
    with less.prems have "s" "x = v" "c1 = c" by (auto simp: dotted_decimal_loop_Nil split: if_splits)
    with less.prems Nil show ?thesis
      by (intro conjI exI [of _ "[]"]) (simp_all add: ends_component_def)
  next
    case (Cons u bs)
    let ?w = "10 * unat v + (unat u - 48)" and ?c1 = "cbs_advance 1 c"
    have adv: "cbs_ok ?c1" "cbs_bytes ?c1 = bs" "cbs_len ?c1 < cbs_len c"
      using less.prems(1) Cons length_cbs_bytes [of c] by auto
    note l = less.prems(2) [unfolded dotted_decimal_loop_Cons [OF less.prems(1) Cons]]
    show ?thesis
    proof (cases "u = 0x2e \<and> bs \<noteq> []")
      case True
      with l have "s" "x = v" "c1 = ?c1" by (auto split: if_splits)
      with True Cons adv show ?thesis
        by (intro conjI exI [of _ "[]"] exI [of _ "u # bs"]) (simp_all add: ends_component_def)
    next
      case False
      with l have u: "48 \<le> unat u" "unat u \<le> 57" "\<not> (s \<and> v = 0)" "?w < 2 ^ 64"
        and rec: "dotted_decimal_loop (word_of_nat ?w) True ?c1 = (Some x, c1)"
        by (auto simp: not_less not_le split: if_splits simp del: of_nat_add of_nat_mult of_nat_diff)
      have uw: "unat (word_of_nat ?w :: u64) = ?w" using u(4) by (intro unat_word_of_nat_id) simp
      from less.hyps [OF adv(3,1) rec] obtain ds rest where
        "cbs_ok c1" "bs = ds @ rest" "plain ?w True ds" "unat x = digits_val ?w ds"
        "ends_component rest (cbs_bytes c1)"
        unfolding uw adv(2) by blast
      with Cons u show ?thesis
        by (intro conjI exI [of _ "u # ds"] exI [of _ rest]) (auto simp: unat_eq_0)
    qed
  qed
qed

text \<open>The decimal digits of a number are the one canonical text of it.\<close>

lemma digits_val_append: "digits_val v (xs @ ys) = digits_val (digits_val v xs) ys"
  by (induction xs arbitrary: v) simp_all

lemma plain_append_digit:
  "plain v s (xs @ [d]) \<longleftrightarrow>
     (if xs = [] then \<not> (s \<and> v = 0) else plain v s xs \<and> digits_val v xs \<noteq> 0) \<and> 48 \<le> unat d \<and> unat d \<le> 57"
  by (induction xs arbitrary: v s) (auto split: if_splits)

lemma decimal_ne [simp]: "decimal n \<noteq> []"
  by (simp add: decimal.simps [of n])

lemma unat_digit: "k < 10 \<Longrightarrow> unat (byte_of (48 + k)) = 48 + k"
  by (simp add: unat_byte_of del: of_nat_add)

lemma decimal_canonical: "plain 0 False (decimal n) \<and> digits_val 0 (decimal n) = n"
proof (induction n rule: decimal.induct)
  case (1 n)
  have d: "unat (byte_of (48 + n mod 10)) = 48 + n mod 10" by (rule unat_digit) simp
  show ?case
  proof (cases "n < 10")
    case True
    with d show ?thesis by (simp add: decimal.simps [of n])
  next
    case False
    then have "n div 10 \<noteq> 0" "n mod 10 \<le> 9" by (simp_all add: less_Suc_eq_le [symmetric])
    with False 1 d show ?thesis
      by (simp add: decimal.simps [of n] digits_val_append plain_append_digit)
  qed
qed

lemma plain_decimal: "plain 0 False ds \<Longrightarrow> ds = decimal (digits_val 0 ds)"
proof (induction ds rule: rev_induct)
  case (snoc d ds)
  from snoc.prems have d: "48 \<le> unat d" "unat d \<le> 57" by (simp_all add: plain_append_digit)
  then have "unat d = 48 + (unat d - 48)" "unat d - 48 < 10" by auto
  then obtain k where k: "unat d = 48 + k" "k < 10" by blast
  then have dk: "d = byte_of (48 + k)" by (metis byte_of_unat)
  let ?n = "digits_val 0 ds"
  show ?case
  proof (cases "ds = []")
    case True
    with k dk show ?thesis by (simp add: decimal.simps [of k])
  next
    case False
    with snoc have p: "ds = decimal ?n" "?n \<noteq> 0" by (simp_all add: plain_append_digit)
    have "decimal (10 * ?n + k) = decimal ?n @ [d]"
      using p(2) k(2) dk by (simp add: decimal.simps [of "10 * ?n + k"])
    then show ?thesis using p(1) k by (simp add: digits_val_append)
  qed
qed simp

lemma parse_dotted_decimal_iff:
  assumes "cbs_ok c"
  shows "(\<exists>c1. parse_dotted_decimal c = (Some x, c1) \<and> cbs_bytes c1 = r \<and> cbs_ok c1) \<longleftrightarrow>
    (\<exists>rest. cbs_bytes c = decimal (unat x) @ rest \<and> ends_component rest r)"
proof
  assume "\<exists>c1. parse_dotted_decimal c = (Some x, c1) \<and> cbs_bytes c1 = r \<and> cbs_ok c1"
  then obtain ds rest where "cbs_bytes c = ds @ rest" "plain 0 False ds" "unat x = digits_val 0 ds"
    "ends_component rest r"
    using dotted_decimal_loop_sound [OF assms, of 0 False x] by (auto simp: parse_dotted_decimal_def)
  with plain_decimal show "\<exists>rest. cbs_bytes c = decimal (unat x) @ rest \<and> ends_component rest r"
    by metis
next
  assume "\<exists>rest. cbs_bytes c = decimal (unat x) @ rest \<and> ends_component rest r"
  then obtain rest where "cbs_bytes c = decimal (unat x) @ rest" "ends_component rest r" by blast
  with dotted_decimal_loop_complete [OF assms this(1), of 0 False r] decimal_canonical [of "unat x"]
    unat_u64_less [of x]
  show "\<exists>c1. parse_dotted_decimal c = (Some x, c1) \<and> cbs_bytes c1 = r \<and> cbs_ok c1"
    by (auto simp: parse_dotted_decimal_def)
qed

section \<open>Texts and encodings of identifiers\<close>

fun dotted :: "nat list \<Rightarrow> byte list" where
  "dotted [] = []"
| "dotted [n] = decimal n"
| "dotted (n # ns) = decimal n @ 0x2e # dotted ns"

fun oid_valid :: "nat list \<Rightarrow> bool" where
  "oid_valid (a # b # ns) \<longleftrightarrow>
     a \<le> 2 \<and> (a < 2 \<longrightarrow> b \<le> 39) \<and> b + 80 < 2 ^ 64 \<and> (\<forall>n \<in> set ns. n < 2 ^ 64)"
| "oid_valid _ \<longleftrightarrow> False"

fun oid_der :: "nat list \<Rightarrow> byte list" where
  "oid_der (a # b # ns) = base128 (40 * a + b) @ concat (map base128 ns)"
| "oid_der _ = []"

lemma dotted_eq_Nil [simp]: "dotted ns = [] \<longleftrightarrow> ns = []"
  by (cases ns rule: dotted.cases) simp_all

lemma dotted_ends: "\<exists>rest. dotted (n # ns) = decimal n @ rest \<and> ends_component rest (dotted ns)"
  by (cases ns) (auto simp: ends_component_def)

lemma ends_dotted: "ends_component rest (dotted ns) \<Longrightarrow> decimal n @ rest = dotted (n # ns)"
  by (cases ns) (auto simp: ends_component_def)

lemma parse_dotted_decimal_dotted:
  assumes "cbs_ok c" and "cbs_bytes c = dotted (n # ns)" and "n < 2 ^ 64"
  shows "\<exists>c1. parse_dotted_decimal c = (Some (word_of_nat n), c1) \<and> cbs_bytes c1 = dotted ns \<and> cbs_ok c1"
  using parse_dotted_decimal_iff [OF assms(1), of "word_of_nat n" "dotted ns"] dotted_ends [of n ns] assms(2,3)
  by (simp add: unat_word_of_nat_id)

lemma parse_dotted_decimal_Some:
  assumes "cbs_ok c" and "parse_dotted_decimal c = (Some x, c1)"
  shows "cbs_ok c1 \<and> (\<forall>ns. cbs_bytes c1 = dotted ns \<longrightarrow> cbs_bytes c = dotted (unat x # ns))"
proof -
  have "cbs_ok c1" using dotted_decimal_loop_sound [OF assms(1)] assms(2)
    by (simp add: parse_dotted_decimal_def)
  moreover from this assms parse_dotted_decimal_iff [OF assms(1), of x "cbs_bytes c1"] obtain rest where
    "cbs_bytes c = decimal (unat x) @ rest" "ends_component rest (cbs_bytes c1)" by blast
  ultimately show ?thesis using ends_dotted by metis
qed

lemma oid_components_complete:
  "\<lbrakk>cbs_ok s; cbs_bytes s = dotted ns; \<forall>n \<in> set ns. n < 2 ^ 64\<rbrakk> \<Longrightarrow>
     oid_components al d s c = write_many (add_base128_integer al d) (map word_of_nat ns) c"
proof (induction ns arbitrary: s c)
  case Nil
  then have "cbs_len s = 0" using length_cbs_bytes [of s] by simp
  then show ?case by (simp add: oid_components.simps [of al d s c] CBS_len_def)
next
  case (Cons n ns)
  then obtain s1 where p: "parse_dotted_decimal s = (Some (word_of_nat n), s1)" "cbs_bytes s1 = dotted ns" "cbs_ok s1"
    using parse_dotted_decimal_dotted [of s n ns] by auto
  have "cbs_bytes s \<noteq> []" using Cons.prems(2) by simp
  then have "CBS_len s > 0" by (cases "cbs_len s") (simp_all add: CBS_len_def cbs_bytes_def)
  with p Cons show ?case
    by (simp add: oid_components.simps [of al d s c] split: prod.split bool.split)
qed

lemma oid_components_sound:
  "\<lbrakk>cbs_ok s; oid_components al d s c = (True, c1)\<rbrakk> \<Longrightarrow>
     \<exists>ns. cbs_bytes s = dotted ns \<and> (\<forall>n \<in> set ns. n < 2 ^ 64)"
proof (induction "cbs_len s" arbitrary: s c rule: less_induct)
  case less
  show ?case
  proof (cases "CBS_len s > 0")
    case False
    then have "cbs_bytes s = []" by (simp add: CBS_len_def cbs_bytes_def)
    then show ?thesis by (intro exI [of _ "[]"]) simp
  next
    case True
    with less.prems(2) obtain a s1 o1 where p: "parse_dotted_decimal s = (Some a, s1)"
      and r: "oid_components al d s1 o1 = (True, c1)"
      by (auto simp: oid_components.simps [of al d s c] split: prod.splits option.splits bool.splits)
    note q = parse_dotted_decimal_Some [OF less.prems(1) p]
    with less.hyps [OF parse_dotted_decimal_shorter [OF p] _ r] obtain ns where
      "cbs_bytes s1 = dotted ns" "\<forall>n \<in> set ns. n < 2 ^ 64" by blast
    with q show ?thesis by (intro exI [of _ "unat a # ns"]) (simp add: unat_u64_less)
  qed
qed

lemma first_components:
  fixes a b :: u64
  assumes "\<not> (a > 2 \<or> a < 2 \<and> b > 39 \<or> b > (-1) - 80)"
  shows "unat a \<le> 2" and "unat a < 2 \<longrightarrow> unat b \<le> 39" and "unat b + 80 < 2 ^ 64"
    and "unat (40 * a + b) = 40 * unat a + unat b"
proof -
  have "unat ((-1 :: u64) - 80) = 2 ^ 64 - 81" by (simp add: unat_sub unsigned_minus_1_eq_mask mask_eq_exp_minus_1)
  with assms show a: "unat a \<le> 2" and "unat a < 2 \<longrightarrow> unat b \<le> 39" and b: "unat b + 80 < 2 ^ 64"
    by (auto simp: word_less_nat_alt not_less)
  have m: "unat (40 * a) = 40 * unat a" using unat_mult_lem [of 40 a] a by simp
  show "unat (40 * a + b) = 40 * unat a + unat b" using unat_add_lem [of "40 * a" b] m a b by simp
qed

lemma first_components_valid:
  assumes "a \<le> 2" and "a < 2 \<longrightarrow> b \<le> 39" and "b + 80 < 2 ^ 64"
  shows "\<not> ((word_of_nat a :: u64) > 2 \<or> (word_of_nat a :: u64) < 2 \<and> (word_of_nat b :: u64) > 39
    \<or> (word_of_nat b :: u64) > (-1) - 80)"
proof -
  have "unat ((-1 :: u64) - 80) = 2 ^ 64 - 81" by (simp add: unat_sub unsigned_minus_1_eq_mask mask_eq_exp_minus_1)
  moreover have "unat (word_of_nat a :: u64) = a" "unat (word_of_nat b :: u64) = b"
    using assms by (simp_all add: unat_word_of_nat_id)
  ultimately show ?thesis using assms by (auto simp: word_less_nat_alt)
qed

text \<open>
  \<open>CBB_add_asn1_oid_from_text\<close> succeeds only on the dotted text of a valid identifier, and on such a
  text it writes the encoding of that identifier.
\<close>

lemma oid_from_text_valid:
  assumes "good_alloc al" and "cbb_wf c" and "oid_valid ns" and "length (dotted ns) = len"
    and "CBB_add_asn1_oid_from_text al d (dotted ns) len c = (ok, c1)"
  shows "writes d (oid_der ns) c ok c1"
proof -
  obtain a b r where ns: "ns = a # b # r" using assms(3) by (cases ns rule: oid_der.cases) auto
  have v: "a \<le> 2" "a < 2 \<longrightarrow> b \<le> 39" "b + 80 < 2 ^ 64" "\<forall>n \<in> set r. n < 2 ^ 64"
    using assms(3) ns by auto
  obtain okf cf where f: "CBB_flush al d c = (okf, cf)" by fastforce
  note fl = CBB_flush_laws(1) [OF assms(1,2) f]
  let ?s = "CBS_init (dotted ns) len"
  have s: "cbs_ok ?s" "cbs_bytes ?s = dotted (a # b # r)"
    using assms(4) ns by (simp_all add: cbs_ok_def)
  have "a < 2 ^ 64" "b < 2 ^ 64" using v by simp_all
  then obtain s1 s2 where p: "parse_dotted_decimal ?s = (Some (word_of_nat a), s1)"
    "parse_dotted_decimal s1 = (Some (word_of_nat b), s2)" "cbs_bytes s2 = dotted r" "cbs_ok s2"
    using parse_dotted_decimal_dotted [OF s] parse_dotted_decimal_dotted by metis
  let ?w = "40 * word_of_nat a + word_of_nat b :: u64"
  have uw: "unat ?w = 40 * a + b"
    using first_components(4) [OF first_components_valid [OF v(1-3)]] v by (simp add: unat_word_of_nat_id)
  show ?thesis
  proof (cases okf)
    case False
    with fl f assms(5) show ?thesis by (simp add: CBB_add_asn1_oid_from_text_def writes_def)
  next
    case True
    then have w: "writes d [] c True cf" "cbb_wf cf" using fl by (simp_all add: writes_def)
    from True f have f1: "CBB_flush al d c = (True, cf)" by simp
    from assms(5) have "write_many (add_base128_integer al d) (?w # map word_of_nat r) cf = (ok, c1)"
      unfolding CBB_add_asn1_oid_from_text_def f1 p(1,2) prod.case bool.case option.case
        if_not_P [OF first_components_valid [OF v(1-3)]] oid_components_complete [OF p(4,3) v(4)]
      by simp
    from add_base128.write_many_writes [OF assms(1) w(2) _ _ this]
    have "writes d (base128 (40 * a + b) @ concat (map (\<lambda>n. base128 (unat (word_of_nat n :: u64))) r)) cf ok c1"
      using uw by (simp add: o_def)
    moreover have "map (\<lambda>n. base128 (unat (word_of_nat n :: u64))) r = map base128 r"
      using v(4) by (intro map_cong) (simp_all add: unat_word_of_nat_id)
    ultimately show ?thesis using writes_trans [OF w(1)] ns by simp
  qed
qed

lemma oid_from_text_succeeds_only:
  assumes "cbs_ok (CBS_init text len)" and "CBB_add_asn1_oid_from_text al d text len c = (True, c1)"
  shows "\<exists>ns. oid_valid ns \<and> take len text = dotted ns"
proof -
  let ?s = "CBS_init text len"
  from assms(2) obtain a s1 b s2 c2 where p: "parse_dotted_decimal ?s = (Some a, s1)"
    "parse_dotted_decimal s1 = (Some b, s2)" "\<not> (a > 2 \<or> a < 2 \<and> b > 39 \<or> b > (-1) - 80)"
    and r: "oid_components al d s2 c2 = (True, c1)"
    by (auto simp: CBB_add_asn1_oid_from_text_def split: prod.splits option.splits bool.splits if_splits)
  note q1 = parse_dotted_decimal_Some [OF assms(1) p(1)]
  then have ok1: "cbs_ok s1" by simp
  note q2 = parse_dotted_decimal_Some [OF ok1 p(2)]
  with oid_components_sound [OF _ r] obtain ns where ns: "cbs_bytes s2 = dotted ns" "\<forall>n \<in> set ns. n < 2 ^ 64"
    by blast
  then have "cbs_bytes ?s = dotted (unat a # unat b # ns)" using q1 q2 by blast
  moreover have "oid_valid (unat a # unat b # ns)" using first_components [OF p(3)] ns(2) by simp
  ultimately show ?thesis by (metis cbs_bytes_def cbs_data_init cbs_len_init)
qed

section \<open>From the encoding to the text\<close>

lemma length_decimal: "length (decimal n) \<le> Suc (n div 10)"
proof (induction n rule: decimal.induct)
  case (1 n)
  show ?case
  proof (cases "n < 10")
    case True
    then show ?thesis by (simp add: decimal.simps [of n])
  next
    case False
    then have "Suc (n div 10 div 10) \<le> n div 10" by (simp add: Suc_le_eq div_less_dividend)
    with False 1 show ?thesis by (simp add: decimal.simps [of n])
  qed
qed

interpretation add_decimal: cbb_writer add_decimal "\<lambda>_. True" "\<lambda>v. decimal (unat v)"
proof
  fix al c and a :: u64 and d ok c1
  assume "good_alloc al" "cbb_wf c" "add_decimal al d a c = (ok, c1)"
  moreover have "length (decimal (unat a)) < 2 ^ 64"
    using length_decimal [of "unat a"] unat_u64_less [of a] by (simp add: order_le_less_trans)
  ultimately show "writes d (decimal (unat a)) c ok c1"
    unfolding add_decimal_def by (intro add_bytes.wr_writes)
qed

lemma then_write_writes:
  assumes "cbb_wf c" and "then_write f g c = (ok, c1)"
    and "\<And>c ok c1. \<lbrakk>cbb_wf c; f c = (ok, c1)\<rbrakk> \<Longrightarrow> writes d x c ok c1"
    and "\<And>c ok c1. \<lbrakk>cbb_wf c; g c = (ok, c1)\<rbrakk> \<Longrightarrow> writes d y c ok c1"
  shows "writes d (x @ y) c ok c1"
proof -
  obtain ok0 c0 where f: "f c = (ok0, c0)" by fastforce
  note w = assms(3) [OF assms(1) f]
  show ?thesis
  proof (cases ok0)
    case True
    with assms(2) f have "g c0 = (ok, c1)" by (simp add: then_write_def)
    with assms(4) [of c0] w True writes_trans show ?thesis by (auto simp: writes_def)
  next
    case False
    with assms(2) f w show ?thesis by (simp add: then_write_def writes_def)
  qed
qed

text \<open>One more component: a dot and its digits.\<close>

definition dot_decimal :: "nat \<Rightarrow> byte list" where
  "dot_decimal n = 0x2e # decimal n"

lemma write_dot_decimal:
  assumes "good_alloc al" and "cbb_wf c"
    and "then_write (CBB_add_u8 al 0 0x2e) (add_decimal al 0 v) c = (ok, c1)"
  shows "writes 0 (dot_decimal (unat v)) c ok c1"
proof -
  have "writes 0 ([0x2e] @ decimal (unat v)) c ok c1"
    by (rule then_write_writes [OF assms(2,3)])
      (auto intro: write_u8_writes [OF assms(1)] add_decimal.wr_writes [OF assms(1)])
  then show ?thesis by (simp add: dot_decimal_def)
qed

lemma oid_text_loop_sound:
  assumes "good_alloc al"
  shows "\<lbrakk>cbs_ok c; cbb_wf out; cbb_written 0 out = Some t; oid_text_loop al c out = (True, out1)\<rbrakk> \<Longrightarrow>
    \<exists>ns. cbs_bytes c = concat (map base128 ns) \<and> (\<forall>n \<in> set ns. n < 2 ^ 64) \<and> cbb_wf out1 \<and>
      cbb_written 0 out1 = Some (t @ concat (map dot_decimal ns))"
proof (induction "cbs_len c" arbitrary: c out t rule: less_induct)
  case less
  show ?case
  proof (cases "CBS_len c = 0")
    case True
    with less.prems have "cbs_bytes c = []" "out1 = out"
      by (simp_all add: oid_text_loop.simps [of al c out] CBS_len_def cbs_bytes_def)
    with less.prems show ?thesis by (intro exI [of _ "[]"]) simp
  next
    case False
    with less.prems(4) obtain v c1 o1 where p: "parse_base128_integer c = (Some v, c1)"
      and w: "then_write (CBB_add_u8 al 0 0x2e) (add_decimal al 0 v) out = (True, o1)"
      and r: "oid_text_loop al c1 o1 = (True, out1)"
      by (auto simp: oid_text_loop.simps [of al c out] split: prod.splits option.splits bool.splits)
    from b128.canonical [OF less.prems(1) p] have c1: "cbs_bytes c = base128 (unat v) @ cbs_bytes c1" "cbs_ok c1"
      by simp_all
    from write_dot_decimal [OF assms less.prems(2) w] less.prems(3)
    have o1: "cbb_wf o1" "cbb_written 0 o1 = Some (t @ dot_decimal (unat v))" by (auto simp: writes_def)
    from less.hyps [OF parse_base128_shorter [OF p] c1(2) o1 r] obtain ns where
      "cbs_bytes c1 = concat (map base128 ns)" "\<forall>n \<in> set ns. n < 2 ^ 64" "cbb_wf out1"
      "cbb_written 0 out1 = Some ((t @ dot_decimal (unat v)) @ concat (map dot_decimal ns))" by blast
    with c1 show ?thesis by (intro exI [of _ "unat v # ns"]) (simp add: unat_u64_less)
  qed
qed

lemma dotted_dot_decimal: "dotted (n # ns) = decimal n @ concat (map dot_decimal ns)"
proof (induction ns arbitrary: n)
  case (Cons m ns)
  have "dotted (n # m # ns) = decimal n @ 0x2e # dotted (m # ns)" by simp
  also have "\<dots> = decimal n @ concat (map dot_decimal (m # ns))"
    unfolding Cons.IH by (simp add: dot_decimal_def)
  finally show ?case .
qed simp

text \<open>The first encoded number holds the first two components.\<close>

lemma first_text_writes:
  assumes "good_alloc al" and "cbb_wf out0"
    and "(if v \<ge> 80 then then_write (CBB_add_bytes al 0 [0x32, 0x2e]) (add_decimal al 0 (v - 80)) out0
          else then_write (add_decimal al 0 (v div 40))
                 (then_write (CBB_add_u8 al 0 0x2e) (add_decimal al 0 (v mod 40))) out0) = (ok, out1)"
  shows "\<exists>a b. unat (v :: u64) = 40 * a + b \<and> oid_valid [a, b] \<and> writes 0 (decimal a @ dot_decimal b) out0 ok out1"
proof (cases "v \<ge> 80")
  case True
  then have v: "80 \<le> unat v" "unat (v - 80) = unat v - 80" by (simp_all add: word_le_nat_alt unat_sub)
  have "decimal 2 = [0x32]" by (simp add: decimal.simps [of 2] byte_of_def)
  then have two: "[0x32, 0x2e] @ decimal (unat (v - 80)) = decimal 2 @ dot_decimal (unat v - 80)"
    using v by (simp add: dot_decimal_def)
  from True assms(3) have "writes 0 ([0x32, 0x2e] @ decimal (unat (v - 80))) out0 ok out1"
    by (intro then_write_writes [OF assms(2), of "CBB_add_bytes al 0 [0x32, 0x2e]" "add_decimal al 0 (v - 80)"])
      (auto intro: add_bytes.wr_writes [OF assms(1)] add_decimal.wr_writes [OF assms(1)])
  with v two show ?thesis
    using unat_u64_less [of v] by (intro exI [of _ 2] exI [of _ "unat v - 80"]) simp
next
  case False
  then have v: "unat v < 80" by (simp add: word_le_nat_alt)
  from False assms(3) have "writes 0 (decimal (unat (v div 40)) @ dot_decimal (unat (v mod 40))) out0 ok out1"
    by (intro then_write_writes [OF assms(2), of "add_decimal al 0 (v div 40)"
          "then_write (CBB_add_u8 al 0 0x2e) (add_decimal al 0 (v mod 40))"])
      (auto intro: write_dot_decimal [OF assms(1)] add_decimal.wr_writes [OF assms(1)])
  moreover have "unat v div 40 \<le> 1" "unat v mod 40 \<le> 39"
    using v mod_less_divisor [of 40 "unat v"] by (simp_all add: less_Suc_eq_le [symmetric] div_less_iff_less_mult)
  ultimately show ?thesis
    by (intro exI [of _ "unat v div 40"] exI [of _ "unat v mod 40"]) (simp add: unat_div unat_mod)
qed

text \<open>
  \<open>CBS_asn1_oid_to_text\<close> returns a text only for the encoding of a valid identifier, and then the
  NUL terminated dotted text of that identifier.
\<close>

lemma oid_to_text_sound:
  assumes "good_alloc al" and "cbs_ok c" and "CBS_asn1_oid_to_text al base_ok c = Some str"
  shows "\<exists>ns. oid_valid ns \<and> cbs_bytes c = oid_der ns \<and>
    (\<exists>slack. str = dotted ns @ 0 # slack)"
proof -
  from assms(3) obtain out0 v c1 out1 out2 out3 n where
    i: "CBB_init al base_ok 32 = (True, out0)" and p: "parse_base128_integer c = (Some v, c1)"
    and f: "(if v \<ge> 80 then then_write (CBB_add_bytes al 0 [0x32, 0x2e]) (add_decimal al 0 (v - 80)) out0
          else then_write (add_decimal al 0 (v div 40))
                 (then_write (CBB_add_u8 al 0 0x2e) (add_decimal al 0 (v mod 40))) out0) = (True, out1)"
    and l: "oid_text_loop al c1 out1 = (True, out2)" and z: "CBB_add_u8 al 0 0 out2 = (True, out3)"
    and "fst (CBB_finish al 0 True out3) = Some (str, n)"
    unfolding CBS_asn1_oid_to_text_def
    by (auto split: prod.splits option.splits bool.splits simp del: if_split)
  then obtain out4 where e: "CBB_finish al 0 True out3 = (Some (str, n), out4)" by (metis prod.collapse)
  note init = CBB_init_laws [OF assms(1) _ i]
  from b128.canonical [OF assms(2) p] have c1: "cbs_bytes c = base128 (unat v) @ cbs_bytes c1" "cbs_ok c1"
    by simp_all
  have "cbb_wf out0" using init by simp
  from first_text_writes [OF assms(1) this f] obtain a b where
    ab: "unat v = 40 * a + b" "oid_valid [a, b]" "writes 0 (decimal a @ dot_decimal b) out0 True out1"
    by blast
  then have o1: "cbb_wf out1" "cbb_written 0 out1 = Some (decimal a @ dot_decimal b)"
    using init(2) by (auto simp: writes_def)
  from oid_text_loop_sound [OF assms(1) c1(2) o1 l] obtain ns where
    ns: "cbs_bytes c1 = concat (map base128 ns)" "\<forall>n \<in> set ns. n < 2 ^ 64" "cbb_wf out2"
      "cbb_written 0 out2 = Some (dotted (a # b # ns))"
    by (auto simp: dotted_dot_decimal)
  from write_u8_writes [OF assms(1) ns(3) z] ns(4)
  have o3: "cbb_wf out3" "cbb_written 0 out3 = Some (dotted (a # b # ns) @ [0])" by (auto simp: writes_def)
  from CBB_finish_laws(2) [OF assms(1) o3(1) e] o3(2)
  have "take n str = dotted (a # b # ns) @ [0]" by simp
  then have "str = dotted (a # b # ns) @ 0 # drop n str" by (metis append.assoc append_Cons append_Nil append_take_drop_id)
  moreover have "oid_valid (a # b # ns)" "cbs_bytes c = oid_der (a # b # ns)"
    using ab c1 ns by simp_all
  ultimately show ?thesis by blast
qed

text \<open>An identifier is determined by its encoding.\<close>

lemma base128_prefix_free:
  assumes "u < 2 ^ 64" and "v < 2 ^ 64" and "base128 u @ r = base128 v @ r'"
  shows "u = v \<and> r = r'"
proof -
  have uv: "unat (word_of_nat u :: u64) = u" "unat (word_of_nat v :: u64) = v"
    using assms(1,2) by (simp_all add: unat_word_of_nat_id)
  have "base128 (unat (word_of_nat u :: u64)) @ r = base128 (unat (word_of_nat v :: u64)) @ r'"
    by (simp only: uv assms(3))
  from b128.put_prefix_free [OF TrueI TrueI this] uv show ?thesis by metis
qed

lemma concat_base128_inj:
  "\<lbrakk>\<forall>n \<in> set ns. n < 2 ^ 64; \<forall>n \<in> set ms. n < 2 ^ 64; concat (map base128 ns) = concat (map base128 ms)\<rbrakk>
     \<Longrightarrow> ns = ms"
proof (induction ns arbitrary: ms)
  case Nil
  then show ?case using length_base128_pos by (cases ms) auto
next
  case (Cons n ns)
  have "base128 n @ concat (map base128 ns) = concat (map base128 ms)" using Cons.prems(3) by simp
  then have "ms \<noteq> []" using length_base128_pos [of n] by auto
  then obtain m ms' where ms: "ms = m # ms'" by (cases ms) simp
  with Cons.prems have "n < 2 ^ 64" "m < 2 ^ 64" by simp_all
  from base128_prefix_free [OF this] Cons.prems(3) ms
  have "n = m \<and> concat (map base128 ns) = concat (map base128 ms')" by simp
  with Cons.IH [of ms'] Cons.prems ms show ?case by simp
qed

lemma oid_der_inj:
  assumes "oid_valid ns" and "oid_valid ms" and "oid_der ns = oid_der ms"
  shows "ns = ms"
proof -
  obtain a b r where n: "ns = a # b # r" using assms(1) by (cases ns rule: oid_der.cases) auto
  obtain c d q where m: "ms = c # d # q" using assms(2) by (cases ms rule: oid_der.cases) auto
  have v: "a \<le> 2" "a < 2 \<longrightarrow> b \<le> 39" "b + 80 < 2 ^ 64" "\<forall>n \<in> set r. n < 2 ^ 64"
    "c \<le> 2" "c < 2 \<longrightarrow> d \<le> 39" "d + 80 < 2 ^ 64" "\<forall>n \<in> set q. n < 2 ^ 64"
    using assms(1,2) n m by simp_all
  then have "40 * a + b < 2 ^ 64" "40 * c + d < 2 ^ 64" by simp_all
  from base128_prefix_free [OF this] assms(3) n m
  have e: "40 * a + b = 40 * c + d" "concat (map base128 r) = concat (map base128 q)" by simp_all
  have "a = c \<and> b = d"
  proof -
    have "a \<in> {0, 1, 2}" "c \<in> {0, 1, 2}" using v(1,5) by auto
    with v(2,6) e(1) show ?thesis by auto
  qed
  with concat_base128_inj [OF v(4,8) e(2)] n m show ?thesis by simp
qed

end
