(* ===== verification/Set_Of.thy ===== *)
theory Set_Of
  imports Cbb_Asn1 "HOL-Library.Multiset" "HOL-Library.List_Lexorder"
begin

text \<open>
  \<open>CBB_flush_asn1_set_of\<close> of \<open>cbb.c\<close>: the elements written into a \<open>CBB\<close> are put in the order that
  DER requires of a SET OF, ascending by their encodings.
\<close>

section \<open>Definitions\<close>

text \<open>\<open>OPENSSL_memcmp\<close>: the sign of the first difference of the first \<open>n\<close> bytes.\<close>

fun mem_cmp :: "byte list \<Rightarrow> byte list \<Rightarrow> nat \<Rightarrow> int" where
  "mem_cmp (a # as) (b # bs) n =
     (if n = 0 then 0 else if a < b then -1 else if a > b then 1 else mem_cmp as bs (n - 1))"
| "mem_cmp _ _ _ = 0"

definition compare_set_of_element :: "cbs \<Rightarrow> cbs \<Rightarrow> int" where
  "compare_set_of_element a b =
     (let a_len = CBS_len a; b_len = CBS_len b;
          min_len = (if a_len < b_len then a_len else b_len);
          ret = mem_cmp (CBS_data a) (CBS_data b) min_len
      in if ret \<noteq> 0 then ret else if a_len = b_len then 0 else if a_len < b_len then -1 else 1)"

text \<open>
  \<open>qsort\<close> sorts by a comparison function.  Which of two equal elements comes first is left open by
  the C library; here equal elements are equal byte strings, so any choice gives the same bytes.
\<close>

fun qsort_insert :: "('a \<Rightarrow> 'a \<Rightarrow> int) \<Rightarrow> 'a \<Rightarrow> 'a list \<Rightarrow> 'a list" where
  "qsort_insert cmp x [] = [x]"
| "qsort_insert cmp x (y # ys) = (if cmp x y \<le> 0 then x # y # ys else y # qsort_insert cmp x ys)"

definition qsort :: "('a \<Rightarrow> 'a \<Rightarrow> int) \<Rightarrow> 'a list \<Rightarrow> 'a list" where
  "qsort cmp xs = foldr (qsort_insert cmp) xs []"


text \<open>The two loops over the elements: counting them, and collecting them.\<close>

function count_elements :: "nat \<Rightarrow> cbs \<Rightarrow> nat option" where
  "count_elements num_children c =
     (if CBS_len c \<noteq> 0 then
        (case CBS_get_any_asn1_element c of
           (None, _) \<Rightarrow> None
         | (Some _, c1) \<Rightarrow> count_elements (Suc num_children) c1)
      else Some num_children)"
  by pat_completeness auto
termination
  by (relation "measure (\<lambda>(_, c). cbs_len c)") (auto dest: CBS_get_any_asn1_element_shorter [OF sym])

declare count_elements.simps [simp del]

fun get_elements :: "nat \<Rightarrow> cbs \<Rightarrow> cbs list option" where
  "get_elements 0 c = Some []"
| "get_elements (Suc n) c =
     (case CBS_get_any_asn1_element c of
        (None, _) \<Rightarrow> None
      | (Some e, c1) \<Rightarrow> map_option (\<lambda>es. el_out e # es) (get_elements n c1))"

text \<open>Writing the elements back in their new order, into the rewound \<open>CBB\<close>.\<close>

definition rewind :: "nat \<Rightarrow> cbb \<Rightarrow> cbb" where
  "rewind d c = c\<lparr>base := map_option (\<lambda>b. b\<lparr>blen := cbb_start d c\<rparr>) (base c)\<rparr>"

definition add_element :: "allocator \<Rightarrow> nat \<Rightarrow> cbs \<Rightarrow> cbb \<Rightarrow> bool \<times> cbb" where
  "add_element al d e = CBB_add_bytes al d (take (CBS_len e) (CBS_data e))"

text \<open>\<open>16\<close> is \<open>sizeof(CBS)\<close> where pointers and \<open>size_t\<close> have 64 bits.\<close>

definition CBB_flush_asn1_set_of :: "allocator \<Rightarrow> nat \<Rightarrow> cbb \<Rightarrow> bool \<times> cbb" where
  "CBB_flush_asn1_set_of al d c =
     (case CBB_flush al d c of
        (False, c1) \<Rightarrow> (False, c1)
      | (True, c1) \<Rightarrow>
          (case count_elements 0 (CBS_init (CBB_data d c1) (CBB_len d c1)) of
             None \<Rightarrow> (False, c1)
           | Some num_children \<Rightarrow>
               if num_children < 2 then (True, c1)
               else if num_children > (2 ^ 64 - 1) div 16 then (False, c1)
               else
                 let buf_len = CBB_len d c1
                 in (case (OPENSSL_memdup al (CBB_data d c1) buf_len, al (num_children * 16)) of
                       (Some copy, Some _) \<Rightarrow>
                         (case get_elements num_children (CBS_init copy buf_len) of
                            None \<Rightarrow> (False, c1)
                          | Some elems \<Rightarrow>
                              write_many (add_element al d) (qsort compare_set_of_element elems)
                                (rewind d c1))
                     | _ \<Rightarrow> (False, c1))))"

section \<open>Sorting\<close>

text \<open>The comparison function is the lexicographic order of the encodings.\<close>

lemma mem_cmp_sign:
  "\<lbrakk>n = min (length as) (length bs)\<rbrakk> \<Longrightarrow>
     (let r = mem_cmp as bs n in if r \<noteq> 0 then r else if length as = length bs then 0
        else if length as < length bs then -1 else 1) \<le> 0 \<longleftrightarrow> as \<le> bs"
proof (induction as bs n rule: mem_cmp.induct)
  case (1 a as b bs n)
  then show ?case by (auto simp: Let_def)
qed (auto simp: Let_def)

lemma mem_cmp_take: "mem_cmp (take k as) (take l bs) n = mem_cmp as bs n" if "n \<le> k" "n \<le> l"
  using that
  by (induction as bs n arbitrary: k l rule: mem_cmp.induct) (auto simp: take_Cons split: nat.split)

lemma compare_set_of_element_le:
  assumes "cbs_ok a" and "cbs_ok b"
  shows "compare_set_of_element a b \<le> 0 \<longleftrightarrow> cbs_bytes a \<le> cbs_bytes b"
proof -
  have l: "length (cbs_bytes a) = CBS_len a" "length (cbs_bytes b) = CBS_len b"
    using assms by (simp_all add: CBS_len_def)
  have "mem_cmp (cbs_bytes a) (cbs_bytes b) (min (CBS_len a) (CBS_len b))
      = mem_cmp (CBS_data a) (CBS_data b) (min (CBS_len a) (CBS_len b))"
    by (simp add: cbs_bytes_def CBS_data_def CBS_len_def mem_cmp_take)
  moreover have "(if CBS_len a < CBS_len b then CBS_len a else CBS_len b) = min (CBS_len a) (CBS_len b)"
    by (simp add: min_def)
  ultimately show ?thesis
    using mem_cmp_sign [of "min (CBS_len a) (CBS_len b)" "cbs_bytes a" "cbs_bytes b"] l
    unfolding compare_set_of_element_def Let_def by (simp only:)
qed

lemma qsort_key:
  assumes "\<And>x y. \<lbrakk>x \<in> set xs; y \<in> set xs\<rbrakk> \<Longrightarrow> cmp x y \<le> 0 \<longleftrightarrow> f x \<le> (f y :: 'b::linorder)"
  shows "qsort cmp xs = sort_key f xs"
proof -
  have ins: "qsort_insert cmp x ys = insort_key f x ys" if "x \<in> set xs" "set ys \<subseteq> set xs" for x ys
    using that by (induction ys) (auto simp: assms)
  have "foldr (qsort_insert cmp) zs [] = foldr (insort_key f) zs []" if "set zs \<subseteq> set xs" for zs
    using that
  proof (induction zs)
    case (Cons z zs)
    have "set (foldr (insort_key f) zs []) = set zs" by (simp flip: sort_key_def)
    with Cons ins show ?case by simp
  qed simp
  then show ?thesis by (simp add: qsort_def sort_key_def)
qed

lemma map_sort_key: "map f (sort_key f xs) = sort (map f xs)"
  by (metis mset_map mset_sort properties_for_sort sorted_sort_key)

section \<open>Parsing the elements\<close>

definition is_element :: "byte list \<Rightarrow> bool" where
  "is_element e \<longleftrightarrow> (\<exists>tag v. length v < 2 ^ 32 \<and> e = der_element tag v)"

lemma get_element_sound:
  assumes "cbs_ok c" and "CBS_get_any_asn1_element c = (Some e, c1)"
  shows "is_element (cbs_bytes (el_out e)) \<and> cbs_bytes c = cbs_bytes (el_out e) @ cbs_bytes c1 \<and>
    cbs_ok (el_out e) \<and> cbs_ok c1"
  using der_element_sound [OF assms(1), of e c1] assms(2)
  by (auto simp: CBS_get_any_asn1_element_def is_element_def)

lemma get_element_complete:
  assumes "cbs_ok c" and "is_element x" and "cbs_bytes c = x @ rest"
  shows "\<exists>e c1. CBS_get_any_asn1_element c = (Some e, c1) \<and> cbs_bytes (el_out e) = x \<and>
    cbs_bytes c1 = rest \<and> cbs_ok (el_out e) \<and> cbs_ok c1"
proof -
  from assms(2) obtain tag v where "length v < 2 ^ 32" "x = der_element tag v" by (auto simp: is_element_def)
  with element_complete [OF assms(1), of v tag rest False] assms(3) show ?thesis
    by (auto simp: CBS_get_any_asn1_element_def)
qed

lemma is_element_ne: "is_element e \<Longrightarrow> e \<noteq> []"
  by (auto simp: is_element_def der_element_def der_tag_ne)

lemma count_elements_sound:
  "\<lbrakk>cbs_ok c; count_elements k c = Some n\<rbrakk> \<Longrightarrow>
     \<exists>es. (\<forall>e \<in> set es. is_element e) \<and> cbs_bytes c = concat es \<and> n = k + length es"
proof (induction "cbs_len c" arbitrary: k c rule: less_induct)
  case less
  show ?case
  proof (cases "CBS_len c = 0")
    case True
    with less.prems show ?thesis
      by (intro exI [of _ "[]"]) (simp add: count_elements.simps [of k c] CBS_len_def cbs_bytes_def)
  next
    case False
    with less.prems(2) obtain e c1 where e: "CBS_get_any_asn1_element c = (Some e, c1)"
      and r: "count_elements (Suc k) c1 = Some n"
      by (auto simp: count_elements.simps [of k c] split: prod.splits option.splits)
    note s = get_element_sound [OF less.prems(1) e]
    with less.hyps [OF CBS_get_any_asn1_element_shorter [OF e] _ r] obtain es where
      "\<forall>e \<in> set es. is_element e" "cbs_bytes c1 = concat es" "n = Suc k + length es" by blast
    with s show ?thesis by (intro exI [of _ "cbs_bytes (el_out e) # es"]) simp
  qed
qed

lemma count_elements_complete:
  "\<lbrakk>cbs_ok c; \<forall>e \<in> set es. is_element e; cbs_bytes c = concat es\<rbrakk> \<Longrightarrow>
     count_elements k c = Some (k + length es)"
proof (induction es arbitrary: k c)
  case Nil
  then have "cbs_len c = 0" using length_cbs_bytes [of c] by simp
  then show ?case by (simp add: count_elements.simps [of k c] CBS_len_def)
next
  case (Cons x es)
  then obtain e c1 where e: "CBS_get_any_asn1_element c = (Some e, c1)" "cbs_bytes c1 = concat es" "cbs_ok c1"
    using get_element_complete [of c x "concat es"] by auto
  have "CBS_len c \<noteq> 0"
    using CBS_get_any_asn1_element_shorter [OF e(1)] by (simp add: CBS_len_def)
  with e Cons.IH [OF e(3) _ e(2), of "Suc k"] Cons.prems(2) show ?case
    by (simp add: count_elements.simps [of k c])
qed

lemma get_elements_complete:
  "\<lbrakk>cbs_ok c; \<forall>e \<in> set es. is_element e; cbs_bytes c = concat es\<rbrakk> \<Longrightarrow>
     \<exists>xs. get_elements (length es) c = Some xs \<and> map cbs_bytes xs = es \<and> (\<forall>x \<in> set xs. cbs_ok x)"
proof (induction es arbitrary: c)
  case (Cons x es)
  then obtain e c1 where e: "CBS_get_any_asn1_element c = (Some e, c1)" "cbs_bytes c1 = concat es" "cbs_ok c1"
    "cbs_bytes (el_out e) = x" "cbs_ok (el_out e)"
    using get_element_complete [of c x "concat es"] by auto
  from Cons.IH [OF e(3) _ e(2)] Cons.prems(2) obtain xs where
    "get_elements (length es) c1 = Some xs" "map cbs_bytes xs = es" "\<forall>x \<in> set xs. cbs_ok x" by auto
  with e show ?case by (intro exI [of _ "el_out e # xs"]) simp
qed simp

section \<open>Rewinding\<close>

lemma chain_end_start:
  "d \<le> length cs \<Longrightarrow> chain_end lo (take d cs) =
     (if d = 0 then lo else offset (cs ! (d - 1)) + pending_len_len (cs ! (d - 1)))"
proof (induction d arbitrary: lo cs)
  case (Suc d)
  then obtain ch r where "cs = ch # r" by (cases cs) auto
  with Suc show ?case by (auto simp: nth_Cons split: nat.split)
qed simp

lemma rewind_laws:
  assumes "cbb_wf c" and "base c = Some b" and "length (children c) = d" and "\<not> err b"
  shows "cbb_start d c \<le> blen b" and "cbb_wf (rewind d c)" and "\<not> cbb_err (rewind d c)"
    and "cbb_written d (rewind d c) = Some (take (cbb_start d c) (content b))"
    and "children (rewind d c) = children c" and "cbb_resizable (rewind d c) = cbb_resizable c"
proof -
  have st: "cbb_start d c = chain_end 0 (children c)"
    using chain_end_start [of d "children c" 0] assms(3) by (simp add: cbb_start_def)
  have b: "buffer_ok b" "chain_ok 0 (children c) (blen b)" using assms(1,2) by (simp_all add: cbb_wf_def)
  then have ch: "chain_ok 0 (children c) (cbb_start d c)" "cbb_start d c \<le> blen b"
    using chain_ok_append [of 0 "children c" "[]" "blen b"] st by simp_all
  then show "cbb_start d c \<le> blen b" by simp
  show "cbb_wf (rewind d c)" "\<not> cbb_err (rewind d c)"
    "cbb_written d (rewind d c) = Some (take (cbb_start d c) (content b))"
    "children (rewind d c) = children c" "cbb_resizable (rewind d c) = cbb_resizable c"
    using assms b ch
    by (simp_all add: rewind_def cbb_wf_def cbb_err_def buffer_ok_def cbb_written_def content_def
        cbb_resizable_def min_def)
qed

interpretation add_element: cbb_writer add_element "\<lambda>e. cbs_ok e \<and> cbs_len e < 2 ^ 64" cbs_bytes
proof
  fix al c e d ok c1
  assume a: "good_alloc al" "cbb_wf c" "cbs_ok e \<and> cbs_len e < 2 ^ 64" "add_element al d e c = (ok, c1)"
  then have "CBB_add_bytes al d (cbs_bytes e) c = (ok, c1)"
    by (simp add: add_element_def cbs_bytes_def CBS_len_def CBS_data_def)
  with a show "writes d (cbs_bytes e) c ok c1" by (intro add_bytes.wr_writes) simp_all
qed

section \<open>Correctness\<close>

text \<open>
  After the flush, the bytes of the \<open>CBB\<close> are those written since its start.  The routine succeeds
  only when they are a sequence of DER elements, and then it replaces them by the sorted sequence.
\<close>

lemma sorted_elements_written:
  assumes "good_alloc al" and "cbb_wf c1" and "base c1 = Some b" and "length (children c1) = d" and "\<not> err b"
    and "\<forall>e \<in> set es. is_element e" and "drop (cbb_start d c1) (content b) = concat es"
    and "OPENSSL_memdup al (CBB_data d c1) (CBB_len d c1) = Some copy"
    and "get_elements (length es) (CBS_init copy (CBB_len d c1)) = Some xs" and "es \<noteq> []"
    and "write_many (add_element al d) (qsort compare_set_of_element xs) (rewind d c1) = (ok, c2)"
  shows "writes d (concat (sort es)) (rewind d c1) ok c2"
proof -
  note rw = rewind_laws [OF assms(2-5)]
  have b: "buffer_ok b" using assms(2,3) by (simp add: cbb_wf_def)
  have len: "CBB_len d c1 = length (concat es)"
    using assms(3,7) length_content [OF b] by (simp add: CBB_len_def flip: assms(7))
  have data: "take (CBB_len d c1) (CBB_data d c1) = concat es"
    using assms(3,7) rw(1) by (simp add: CBB_data_def CBB_len_def content_def drop_take)
  obtain blk where blk: "al (CBB_len d c1) = Some blk" "copy = mem_write 0 (take (CBB_len d c1) (CBB_data d c1)) blk"
    using assms(8) by (auto simp: OPENSSL_memdup_def split: if_splits option.splits)
  then have "length blk = length (concat es)" using assms(1) len by (simp add: good_alloc_def)
  with blk(2) data have "copy = concat es" by (simp add: mem_write_def)
  then have s: "cbs_ok (CBS_init copy (CBB_len d c1))" "cbs_bytes (CBS_init copy (CBB_len d c1)) = concat es"
    using len by (simp_all add: cbs_ok_def)
  from get_elements_complete [OF s(1) assms(6) s(2)] assms(9)
  have xs: "map cbs_bytes xs = es" "\<forall>x \<in> set xs. cbs_ok x" by auto
  have small: "cbs_len x < 2 ^ 64" if "x \<in> set xs" for x
  proof -
    have "cbs_bytes x \<in> set es" using xs(1) that by auto
    then have "length (cbs_bytes x) \<le> length (concat es)"
      by (auto dest!: split_list)
    also have "\<dots> \<le> blen b" using len assms(3) by (simp add: CBB_len_def flip: len)
    also have "\<dots> < 2 ^ 64" using b by (simp add: buffer_ok_def)
    finally show ?thesis using xs(2) that by simp
  qed
  have q: "qsort compare_set_of_element xs = sort_key cbs_bytes xs"
    using xs(2) compare_set_of_element_le by (intro qsort_key) auto
  have "map cbs_bytes (sort_key cbs_bytes xs) = sort es" using map_sort_key [of cbs_bytes xs] xs(1) by simp
  moreover have "sort_key cbs_bytes xs \<noteq> []" using xs(1) assms(10) by (metis list.simps(8) mset_sort mset_zero_iff)
  ultimately show ?thesis
    using add_element.write_many_writes [OF assms(1) rw(2) _ _ assms(11)] xs(2) small q by simp
qed

lemma CBB_flush_asn1_set_of_laws:
  assumes "good_alloc al" and "cbb_wf c" and "CBB_flush_asn1_set_of al d c = (True, c1)"
  shows "\<exists>bs es. cbb_written d c = Some bs \<and> drop (cbb_start d c) bs = concat es \<and>
    (\<forall>e \<in> set es. is_element e) \<and> cbb_wf c1 \<and>
    cbb_written d c1 = Some (take (cbb_start d c) bs @ concat (sort es))"
proof -
  obtain okf cf where f0: "CBB_flush al d c = (okf, cf)" by fastforce
  with assms(3) have f: "CBB_flush al d c = (True, cf)"
    by (cases okf) (simp_all add: CBB_flush_asn1_set_of_def)
  obtain b where b: "base cf = Some b" "cbb_written d c = Some (content b)" "\<not> err b" "\<not> cbb_err c"
    "d \<le> length (children c)" "children cf = take d (children c)" "buffer_ok b"
    by (rule CBB_flush_ok [OF assms(1,2) f])
  have wf: "cbb_wf cf" using CBB_flush_laws(1) [OF assms(1,2) f] by (simp add: writes_def)
  have len: "length (children cf) = d" using b(5,6) by simp
  have st: "cbb_start d cf = cbb_start d c" using b(5,6) by (simp add: cbb_start_def)
  note rw = rewind_laws [OF wf b(1) len b(3)]
  let ?s = "CBS_init (CBB_data d cf) (CBB_len d cf)"
  have s: "cbs_ok ?s" "cbs_bytes ?s = drop (cbb_start d cf) (content b)"
    using b(1,7) rw(1)
    by (simp_all add: cbs_ok_def CBB_data_def CBB_len_def content_def drop_take buffer_ok_def diff_le_mono)
  from assms(3) f obtain n where n: "count_elements 0 ?s = Some n"
    by (auto simp: CBB_flush_asn1_set_of_def split: option.splits)
  from count_elements_sound [OF s(1) n] obtain es where
    es: "\<forall>e \<in> set es. is_element e" "drop (cbb_start d cf) (content b) = concat es" "n = length es"
    unfolding s(2) by auto
  have "cbb_wf c1 \<and> cbb_written d c1 = Some (take (cbb_start d c) (content b) @ concat (sort es))"
  proof (cases "n < 2")
    case True
    with assms(3) f n have "c1 = cf" by (simp add: CBB_flush_asn1_set_of_def)
    moreover have "sort es = es" using True es(3) by (cases es; cases "tl es") auto
    moreover have "cbb_written d cf = Some (content b)" using b(1) len by (simp add: cbb_written_def)
    ultimately show ?thesis using wf es(2) st by (metis append_take_drop_id)
  next
    case False
    from assms(3) f n False obtain copy xs where c: "OPENSSL_memdup al (CBB_data d cf) (CBB_len d cf) = Some copy"
      "get_elements n (CBS_init copy (CBB_len d cf)) = Some xs"
      "write_many (add_element al d) (qsort compare_set_of_element xs) (rewind d cf) = (True, c1)"
      by (auto simp: CBB_flush_asn1_set_of_def Let_def split: if_splits option.splits)
    have "es \<noteq> []" using False es(3) by auto
    from sorted_elements_written [OF assms(1) wf b(1) len b(3) es(1,2) c(1) _ this c(3)] c(2) es(3)
    have "writes d (concat (sort es)) (rewind d cf) True c1" by simp
    with rw(4) st show ?thesis by (auto simp: writes_def)
  qed
  with b(2) es st show ?thesis by auto
qed

end
