(* ===== verification/Const_Time.thy ===== *)
theory Const_Time
  imports Prelude
begin

text \<open>
  The constant time primitives of \<open>crypto/internal.h\<close>: comparisons and selections computed with
  masks of all ones or all zeros instead of branches.  Each is shown to compute what its branching
  counterpart does.  \<open>crypto_word_t\<close> has 64 bits.
\<close>

definition constant_time_msb_w :: "u64 \<Rightarrow> u64" where
  "constant_time_msb_w a = 0 - drop_bit 63 a"

definition constant_time_lt_w :: "u64 \<Rightarrow> u64 \<Rightarrow> u64" where
  "constant_time_lt_w a b = constant_time_msb_w (a XOR ((a XOR b) OR ((a - b) XOR a)))"

definition constant_time_lt_8 :: "u64 \<Rightarrow> u64 \<Rightarrow> byte" where
  "constant_time_lt_8 a b = ucast (constant_time_lt_w a b)"

definition constant_time_ge_w :: "u64 \<Rightarrow> u64 \<Rightarrow> u64" where
  "constant_time_ge_w a b = NOT (constant_time_lt_w a b)"

definition constant_time_ge_8 :: "u64 \<Rightarrow> u64 \<Rightarrow> byte" where
  "constant_time_ge_8 a b = ucast (constant_time_ge_w a b)"

definition constant_time_is_zero_w :: "u64 \<Rightarrow> u64" where
  "constant_time_is_zero_w a = constant_time_msb_w (NOT a AND (a - 1))"

definition constant_time_is_zero_8 :: "u64 \<Rightarrow> byte" where
  "constant_time_is_zero_8 a = ucast (constant_time_is_zero_w a)"

definition constant_time_eq_w :: "u64 \<Rightarrow> u64 \<Rightarrow> u64" where
  "constant_time_eq_w a b = constant_time_is_zero_w (a XOR b)"

definition constant_time_eq_8 :: "u64 \<Rightarrow> u64 \<Rightarrow> byte" where
  "constant_time_eq_8 a b = ucast (constant_time_eq_w a b)"

definition constant_time_select_w :: "u64 \<Rightarrow> u64 \<Rightarrow> u64 \<Rightarrow> u64" where
  "constant_time_select_w m a b = (m AND a) OR (NOT m AND b)"

definition constant_time_select_8 :: "byte \<Rightarrow> byte \<Rightarrow> byte \<Rightarrow> byte" where
  "constant_time_select_8 m a b = ucast (constant_time_select_w (ucast m) (ucast a) (ucast b))"

definition constant_time_select_int :: "u64 \<Rightarrow> 32 word \<Rightarrow> 32 word \<Rightarrow> 32 word" where
  "constant_time_select_int m a b = ucast (constant_time_select_w m (scast a) (scast b))"

text \<open>The mask of a condition.\<close>

definition mask_of :: "bool \<Rightarrow> 'a::len word" where
  "mask_of p = (if p then -1 else 0)"

lemma drop_bit_63: "drop_bit 63 (w :: u64) = (if 2 ^ 63 \<le> unat w then 1 else 0)"
proof (cases "2 ^ 63 \<le> unat w")
  case True
  then have "unat w div 2 ^ 63 = 1" using unat_u64_less [of w] by (intro div_nat_eqI) simp_all
  then have "unat (drop_bit 63 w) = unat (1 :: u64)" by (simp only: unat_drop_bit) simp
  with True show ?thesis by (simp only: word_unat_eq_iff if_True)
next
  case False
  then show ?thesis by (simp add: drop_bit_eq_0_iff not_le)
qed

lemma high_bit: "bit (w :: u64) 63 \<longleftrightarrow> 2 ^ 63 \<le> unat w"
proof -
  have "bit w 63 \<longleftrightarrow> bit (drop_bit 63 w) 0" by (simp add: bit_drop_bit_eq)
  then show ?thesis by (simp add: drop_bit_63)
qed

lemma constant_time_msb_w_eq: "constant_time_msb_w w = mask_of (bit w 63)"
  by (simp add: constant_time_msb_w_def high_bit drop_bit_63 mask_of_def)

text \<open>The sign bit of a difference, when the sign bits of the operands agree.\<close>

lemma bit_63_diff:
  assumes "bit (a :: u64) 63 \<longleftrightarrow> bit b 63"
  shows "bit (a - b) 63 \<longleftrightarrow> a < b"
proof (cases "b \<le> a")
  case True
  then have "unat (a - b) = unat a - unat b" by (rule unat_sub)
  with True assms unat_u64_less [of a] show ?thesis
    by (auto simp: high_bit word_le_nat_alt word_less_nat_alt)
next
  case False
  then have "unat (a - b) = unat a + 2 ^ 64 - unat b" by (simp add: unat_sub_if_size word_le_nat_alt word_size)
  with False assms unat_u64_less [of a] unat_u64_less [of b] show ?thesis
    by (auto simp: high_bit word_le_nat_alt word_less_nat_alt)
qed

lemma constant_time_lt_w_eq: "constant_time_lt_w a b = mask_of (a < b)"
proof -
  have "bit (a XOR ((a XOR b) OR ((a - b) XOR a))) 63 \<longleftrightarrow>
      (if bit a 63 = bit b 63 then bit (a - b) 63 else bit b 63)"
    by (auto simp: bit_simps)
  also have "\<dots> \<longleftrightarrow> a < b"
    using bit_63_diff [of a b] by (auto simp: high_bit word_less_nat_alt)
  finally show ?thesis by (simp add: constant_time_lt_w_def constant_time_msb_w_eq)
qed

lemma constant_time_is_zero_w_eq: "constant_time_is_zero_w a = mask_of (a = 0)"
proof -
  have "bit (NOT a AND (a - 1)) 63 \<longleftrightarrow> a = 0"
  proof (cases "a = 0")
    case True
    then show ?thesis by (simp add: bit_simps)
  next
    case False
    then have "1 \<le> a" by (simp add: word_le_nat_alt Suc_le_eq unat_gt_0)
    then have "unat (a - 1) = unat a - 1" by (subst unat_sub) simp_all
    moreover have "bit (NOT a AND (a - 1)) 63 \<longleftrightarrow> \<not> bit a 63 \<and> bit (a - 1) 63" by (simp add: bit_simps)
    ultimately show ?thesis using False by (auto simp: high_bit)
  qed
  then show ?thesis by (simp add: constant_time_is_zero_w_def constant_time_msb_w_eq)
qed

lemma xor_eq_0: "(a :: 'a::len word) XOR b = 0 \<longleftrightarrow> a = b"
proof
  assume z: "a XOR b = 0"
  have "a = (a XOR b) XOR b" by (simp add: xor.assoc)
  with z show "a = b" by simp
qed simp

lemma constant_time_eq_w_eq: "constant_time_eq_w a b = mask_of (a = b)"
  by (simp add: constant_time_eq_w_def constant_time_is_zero_w_eq xor_eq_0)

lemma constant_time_ge_w_eq: "constant_time_ge_w a b = mask_of (b \<le> a)"
  by (simp add: constant_time_ge_w_def constant_time_lt_w_eq mask_of_def not_less not_le)

lemma constant_time_select_w_eq: "constant_time_select_w (mask_of p) a b = (if p then a else b)"
  by (simp add: constant_time_select_w_def mask_of_def)

lemma ucast_mask_of: "ucast (mask_of p :: u64) = (mask_of p :: byte)"
  by (rule bit_word_eqI) (auto simp: mask_of_def bit_simps)

lemma constant_time_8_eq:
  "constant_time_lt_8 a b = mask_of (a < b)" "constant_time_ge_8 a b = mask_of (b \<le> a)"
  "constant_time_is_zero_8 a = mask_of (a = 0)" "constant_time_eq_8 a b = mask_of (a = b)"
  by (simp_all add: constant_time_lt_8_def constant_time_ge_8_def constant_time_is_zero_8_def
      constant_time_eq_8_def constant_time_lt_w_eq constant_time_ge_w_eq constant_time_is_zero_w_eq
      constant_time_eq_w_eq ucast_mask_of)

lemma constant_time_select_8_eq: "constant_time_select_8 (mask_of p) a b = (if p then a else b)"
  by (rule bit_word_eqI) (auto simp: constant_time_select_8_def constant_time_select_w_def mask_of_def bit_simps)

lemma constant_time_select_int_eq: "constant_time_select_int (mask_of p) a b = (if p then a else b)"
  by (rule bit_word_eqI) (auto simp: constant_time_select_int_def constant_time_select_w_eq bit_simps)

end
