(* ===== verification/Base64.thy ===== *)
theory Base64
  imports Const_Time "HOL-Library.Code_Target_Numeral"
begin

text \<open>
  \<open>crypto/base64/base64.c\<close>: the constant time alphabet, the one shot and the streaming encoder and
  decoder.  Functions that write through an output pointer return the bytes they leave there, from
  the pointer on; \<open>size_t\<close> arithmetic that the source checks for overflow is written out.
\<close>

section \<open>The alphabet\<close>

definition constant_time_lt_args_8 :: "byte \<Rightarrow> byte \<Rightarrow> byte" where
  "constant_time_lt_args_8 a b = ucast (constant_time_msb_w (ucast a - ucast b))"

definition constant_time_in_range_8 :: "byte \<Rightarrow> byte \<Rightarrow> byte \<Rightarrow> byte" where
  "constant_time_in_range_8 a lo hi = constant_time_lt_args_8 (a - lo) (hi - lo + 1)"

definition conv_bin2ascii :: "byte \<Rightarrow> byte" where
  "conv_bin2ascii a0 =
     (let a = a0 AND 0x3f;
          ret = constant_time_select_8 (constant_time_eq_8 (ucast a) 62) 0x2b 0x2f;
          ret = constant_time_select_8 (constant_time_lt_args_8 a 62) (a - 52 + 0x30) ret;
          ret = constant_time_select_8 (constant_time_lt_args_8 a 52) (a - 26 + 0x61) ret
      in constant_time_select_8 (constant_time_lt_args_8 a 26) (a + 0x41) ret)"

definition base64_ascii_to_bin :: "byte \<Rightarrow> byte" where
  "base64_ascii_to_bin a =
     (let is_upper = constant_time_in_range_8 a 0x41 0x5a;
          is_lower = constant_time_in_range_8 a 0x61 0x7a;
          is_digit = constant_time_in_range_8 a 0x30 0x39;
          is_plus = constant_time_eq_8 (ucast a) 0x2b;
          is_slash = constant_time_eq_8 (ucast a) 0x2f;
          is_equals = constant_time_eq_8 (ucast a) 0x3d;
          ret = (is_upper AND (a - 0x41)) OR (is_lower AND (a - 0x61 + 26)) OR
                (is_digit AND (a - 0x30 + 52)) OR (is_plus AND 62) OR (is_slash AND 63);
          is_valid = is_upper OR is_lower OR is_digit OR is_plus OR is_slash OR is_equals
      in ret OR NOT is_valid)"

section \<open>Encoding\<close>

definition EVP_EncodedLength :: "nat \<Rightarrow> nat option" where
  "EVP_EncodedLength len =
     (if size_wrap (len + 2) < len then None
      else let len1 = size_wrap (len + 2) div 3
           in if size_wrap (len1 * 4) div 4 \<noteq> len1 then None
              else let len2 = size_wrap (len1 * 4)
                   in if size_wrap (len2 + 1) < len2 then None else Some (size_wrap (len2 + 1)))"

definition word24 :: "byte \<Rightarrow> byte \<Rightarrow> byte \<Rightarrow> u32" where
  "word24 a b c = push_bit 16 (ucast a) OR push_bit 8 (ucast b) OR ucast c"

text \<open>The loop of \<open>EVP_EncodeBlock\<close>; the source counts the characters it writes in \<open>ret\<close>.\<close>

fun encode_block_loop :: "byte list \<Rightarrow> byte list" where
  "encode_block_loop (a # b # c # src) =
     (let l = word24 a b c
      in [conv_bin2ascii (ucast (drop_bit 18 l)), conv_bin2ascii (ucast (drop_bit 12 l)),
          conv_bin2ascii (ucast (drop_bit 6 l)), conv_bin2ascii (ucast l)] @ encode_block_loop src)"
| "encode_block_loop [a, b] =
     (let l = push_bit 16 (ucast a) OR push_bit 8 (ucast b) :: u32
      in [conv_bin2ascii (ucast (drop_bit 18 l)), conv_bin2ascii (ucast (drop_bit 12 l)),
          conv_bin2ascii (ucast (drop_bit 6 l)), 0x3d])"
| "encode_block_loop [a] =
     (let l = push_bit 16 (ucast a) :: u32
      in [conv_bin2ascii (ucast (drop_bit 18 l)), conv_bin2ascii (ucast (drop_bit 12 l)), 0x3d, 0x3d])"
| "encode_block_loop [] = []"

definition EVP_EncodeBlock :: "byte list \<Rightarrow> nat \<Rightarrow> byte list \<times> nat" where
  "EVP_EncodeBlock src src_len =
     (let out = encode_block_loop (take src_len src) in (out @ [0], length out))"

text \<open>\<open>struct evp_encode_ctx_st\<close>; \<open>data\<close> has 48 bytes.\<close>

record encode_ctx =
  data_used :: nat
  ctx_data :: "byte list"
  eof_seen :: bool
  error_encountered :: bool

definition EVP_EncodeInit :: encode_ctx where
  "EVP_EncodeInit = \<lparr>data_used = 0, ctx_data = replicate 48 0, eof_seen = False, error_encountered = False\<rparr>"

definition EVP_ENCODE_CTX_new :: "bool \<Rightarrow> encode_ctx option" where
  "EVP_ENCODE_CTX_new malloc_ok = (if malloc_ok then Some EVP_EncodeInit else None)"

text \<open>
  The \<open>while\<close> loop of \<open>EVP_EncodeUpdate\<close> over the input: the bytes in front of the output pointer,
  the total, and the input left over; no total when the sum would wrap.
\<close>

function encode_update_loop :: "byte list \<Rightarrow> nat \<Rightarrow> byte list \<Rightarrow> byte list \<times> nat option \<times> byte list" where
  "encode_update_loop out tot inp =
     (if length inp \<ge> 48 then
        let (block, encoded) = EVP_EncodeBlock inp 48;
            out1 = out @ take encoded block @ [0x0a];
            inp1 = drop 48 inp
        in if size_wrap (tot + encoded + 1) < tot then (out1, None, inp1)
           else encode_update_loop out1 (size_wrap (tot + encoded + 1)) inp1
      else (out, Some tot, inp))"
  by pat_completeness auto
termination by (relation "measure (\<lambda>(_, _, inp). length inp)") auto

declare encode_update_loop.simps [simp del]

text \<open>The output is followed by the NUL that the source writes behind every line.\<close>

definition with_nul :: "byte list \<Rightarrow> byte list" where
  "with_nul out = (if out = [] then [] else out @ [0])"

definition EVP_EncodeUpdate :: "encode_ctx \<Rightarrow> byte list \<Rightarrow> encode_ctx \<times> byte list \<times> nat" where
  "EVP_EncodeUpdate ctx inp =
     (if length inp = 0 then (ctx, [], 0)
      else if 48 - data_used ctx > length inp then
        (ctx\<lparr>ctx_data := mem_write (data_used ctx) inp (ctx_data ctx),
             data_used := data_used ctx + length inp\<rparr>, [], 0)
      else
        let (ctx1, out1, total1, inp1) =
              (if data_used ctx \<noteq> 0 then
                 let todo = 48 - data_used ctx;
                     dat = mem_write (data_used ctx) (take todo inp) (ctx_data ctx);
                     (block, encoded) = EVP_EncodeBlock dat 48
                 in (ctx\<lparr>ctx_data := dat, data_used := 0\<rparr>, take encoded block @ [0x0a], encoded + 1,
                     drop todo inp)
               else (ctx, [], 0, inp))
        in (case encode_update_loop out1 total1 inp1 of
              (out2, None, _) \<Rightarrow> (ctx1, with_nul out2, 0)
            | (out2, Some total2, inp2) \<Rightarrow>
                (ctx1\<lparr>ctx_data := (if inp2 \<noteq> [] then mem_write 0 inp2 (ctx_data ctx1) else ctx_data ctx1),
                      data_used := length inp2\<rparr>,
                 with_nul out2, if total2 > 2 ^ 31 - 1 then 0 else total2)))"

definition EVP_EncodeFinal :: "encode_ctx \<Rightarrow> encode_ctx \<times> byte list \<times> nat" where
  "EVP_EncodeFinal ctx =
     (if data_used ctx = 0 then (ctx, [], 0)
      else let (block, encoded) = EVP_EncodeBlock (ctx_data ctx) (data_used ctx)
           in (ctx\<lparr>data_used := 0\<rparr>, take encoded block @ [0x0a, 0], encoded + 1))"

section \<open>Decoding\<close>

definition EVP_DecodedLength :: "nat \<Rightarrow> nat option" where
  "EVP_DecodedLength len = (if len mod 4 \<noteq> 0 then None else Some (len div 4 * 3))"

definition base64_decode_quad :: "byte list \<Rightarrow> byte list option" where
  "base64_decode_quad inp =
     (let a = base64_ascii_to_bin (inp ! 0); b = base64_ascii_to_bin (inp ! 1);
          c = base64_ascii_to_bin (inp ! 2); d = base64_ascii_to_bin (inp ! 3)
      in if a = 0xff \<or> b = 0xff \<or> c = 0xff \<or> d = 0xff then None
         else
           let v = push_bit 18 (ucast a) OR push_bit 12 (ucast b) OR push_bit 6 (ucast c) OR ucast d :: u32;
               padding_pattern = (inp ! 0 = 0x3d, inp ! 1 = 0x3d, inp ! 2 = 0x3d, inp ! 3 = 0x3d)
           in if padding_pattern = (False, False, False, False)
              then Some [ucast (drop_bit 16 v), ucast (drop_bit 8 v), ucast v]
              else if padding_pattern = (False, False, False, True)
              then Some [ucast (drop_bit 16 v), ucast (drop_bit 8 v)]
              else if padding_pattern = (False, False, True, True)
              then Some [ucast (drop_bit 16 v)]
              else None)"

definition is_space :: "byte \<Rightarrow> bool" where
  "is_space c \<longleftrightarrow> c = 0x20 \<or> c = 0x09 \<or> c = 0x0d \<or> c = 0x0a"

text \<open>The loop of \<open>EVP_DecodeUpdate\<close>; the flag says that it ran to the end of the input.\<close>

fun decode_update_loop :: "encode_ctx \<Rightarrow> byte list \<Rightarrow> byte list \<Rightarrow> encode_ctx \<times> byte list \<times> bool" where
  "decode_update_loop ctx out [] = (ctx, out, True)"
| "decode_update_loop ctx out (c # inp) =
     (if is_space c then decode_update_loop ctx out inp
      else if eof_seen ctx then (ctx\<lparr>error_encountered := True\<rparr>, out, False)
      else
        let ctx1 = ctx\<lparr>ctx_data := (ctx_data ctx)[data_used ctx := c], data_used := data_used ctx + 1\<rparr>
        in if data_used ctx1 = 4 then
             (case base64_decode_quad (ctx_data ctx1) of
                None \<Rightarrow> (ctx1\<lparr>error_encountered := True\<rparr>, out, False)
              | Some bs \<Rightarrow>
                  decode_update_loop
                    (ctx1\<lparr>data_used := 0, eof_seen := (if length bs < 3 then True else eof_seen ctx1)\<rparr>)
                    (out @ bs) inp)
           else decode_update_loop ctx1 out inp)"

text \<open>The return value, the context, the bytes written, and \<open>*out_len\<close>.\<close>

definition EVP_DecodeUpdate :: "encode_ctx \<Rightarrow> byte list \<Rightarrow> int \<times> encode_ctx \<times> byte list \<times> nat" where
  "EVP_DecodeUpdate ctx inp =
     (if error_encountered ctx then (-1, ctx, [], 0)
      else case decode_update_loop ctx [] inp of
        (ctx1, out, False) \<Rightarrow> (-1, ctx1, out, 0)
      | (ctx1, out, True) \<Rightarrow>
          if length out > 2 ^ 31 - 1 then (-1, ctx1\<lparr>error_encountered := True\<rparr>, out, 0)
          else (if eof_seen ctx1 then 0 else 1, ctx1, out, length out))"

definition EVP_DecodeFinal :: "encode_ctx \<Rightarrow> int" where
  "EVP_DecodeFinal ctx = (if error_encountered ctx \<or> data_used ctx \<noteq> 0 then -1 else 1)"

function decode_base64_loop :: "byte list \<Rightarrow> byte list option" where
  "decode_base64_loop inp =
     (if inp = [] then Some []
      else case base64_decode_quad (take 4 inp) of
        None \<Rightarrow> None
      | Some bs \<Rightarrow>
          if length bs \<noteq> 3 \<and> length inp \<noteq> 4 then None
          else map_option (\<lambda>r. bs @ r) (decode_base64_loop (drop 4 inp)))"
  by pat_completeness auto
termination by (relation "measure length") auto

declare decode_base64_loop.simps [simp del]

text \<open>\<open>Some out\<close> stands for \<open>1\<close> with \<open>*out_len = length out\<close>.\<close>

definition EVP_DecodeBase64 :: "nat \<Rightarrow> byte list \<Rightarrow> byte list option" where
  "EVP_DecodeBase64 max_out inp =
     (if length inp mod 4 \<noteq> 0 then None
      else case EVP_DecodedLength (length inp) of
        None \<Rightarrow> None
      | Some max_len \<Rightarrow> if max_out < max_len then None else decode_base64_loop inp)"

definition EVP_DecodeBlock :: "byte list \<Rightarrow> byte list option" where
  "EVP_DecodeBlock src =
     (let s1 = dropWhile (\<lambda>c. c = 0x20 \<or> c = 0x09) src;
          s2 = rev (dropWhile is_space (rev s1))
      in case EVP_DecodedLength (length s2) of
           None \<Rightarrow> None
         | Some dst_len \<Rightarrow>
             if dst_len > 2 ^ 31 - 1 then None
             else map_option (\<lambda>out. out @ replicate ((3 - length out mod 3) mod 3) 0)
                    (EVP_DecodeBase64 dst_len s2))"

section \<open>The alphabet as a table\<close>

definition alphabet :: "byte list" where
  "alphabet = map word_of_nat ([65..<91] @ [97..<123] @ [48..<58] @ [43, 47])"

lemma constant_time_lt_args_8_eq: "constant_time_lt_args_8 a b = mask_of (a < b)"
proof -
  have u: "unat (ucast a :: u64) = unat a" "unat (ucast b :: u64) = unat b" by simp_all
  have small: "x < 256 \<Longrightarrow> \<not> 2 ^ 63 \<le> x" for x :: nat by simp
  have "\<not> bit (ucast a :: u64) 63" "\<not> bit (ucast b :: u64) 63"
    unfolding high_bit u by (rule small, simp)+
  then have "bit (ucast a - ucast b :: u64) 63 \<longleftrightarrow> (ucast a :: u64) < ucast b" by (simp add: bit_63_diff)
  also have "\<dots> \<longleftrightarrow> a < b" by (simp only: word_less_nat_alt u)
  finally show ?thesis
    by (simp add: constant_time_lt_args_8_def constant_time_msb_w_eq ucast_mask_of)
qed

lemma constant_time_in_range_8_eq:
  assumes "lo \<le> hi" and "unat hi - unat lo < 255"
  shows "constant_time_in_range_8 a lo hi = mask_of (lo \<le> a \<and> a \<le> hi)"
proof -
  have l: "unat lo \<le> unat hi" "unat (hi - lo) = unat hi - unat lo"
    using assms(1) by (simp_all add: word_le_nat_alt unat_sub)
  then have h: "unat (hi - lo + 1) = unat hi - unat lo + 1"
    using assms(2) unat_add_lem [of "hi - lo" 1] by simp
  have "a - lo < hi - lo + 1 \<longleftrightarrow> lo \<le> a \<and> a \<le> hi"
  proof (cases "lo \<le> a")
    case True
    then have "unat (a - lo) = unat a - unat lo" by (rule unat_sub)
    with True h l(1) show ?thesis by (auto simp: word_less_nat_alt word_le_nat_alt)
  next
    case False
    then have "unat (a - lo) = unat a + 256 - unat lo"
      by (simp add: unat_sub_if_size word_le_nat_alt word_size)
    moreover have "unat hi < 256" by simp
    ultimately show ?thesis
      using False h l(1) unfolding word_less_nat_alt word_le_nat_alt by linarith
  qed
  then show ?thesis by (simp add: constant_time_in_range_8_def constant_time_lt_args_8_eq)
qed

lemma ucast_eq_iff_byte: "(ucast (a :: byte) :: u64) = ucast b \<longleftrightarrow> a = b"
  by (simp only: word_unat_eq_iff unat_ucast_byte)

lemma conv_bin2ascii_branches:
  "conv_bin2ascii a0 =
     (let a = a0 AND 0x3f
      in if a < 26 then a + 0x41 else if a < 52 then a - 26 + 0x61
         else if a < 62 then a - 52 + 0x30 else if a = 62 then 0x2b else 0x2f)"
  using ucast_eq_iff_byte [of "a0 AND 0x3f" 62]
  by (simp add: conv_bin2ascii_def Let_def constant_time_lt_args_8_eq constant_time_8_eq
      constant_time_select_8_eq)

lemma alphabet_length: "length alphabet = 64"
  by (simp add: alphabet_def)

lemma conv_bin2ascii_table: "n < 64 \<Longrightarrow> conv_bin2ascii (word_of_nat n) = alphabet ! n"
proof -
  have "map (\<lambda>n. conv_bin2ascii (word_of_nat n)) [0..<64] = alphabet"
    unfolding conv_bin2ascii_branches by code_simp
  then have "map (\<lambda>n. conv_bin2ascii (word_of_nat n)) [0..<64] ! n = alphabet ! n" by (rule arg_cong)
  then show "n < 64 \<Longrightarrow> conv_bin2ascii (word_of_nat n) = alphabet ! n" by simp
qed

lemma mask_of_ops:
  "mask_of p AND x = (if p then x else 0)" "mask_of p OR mask_of q = mask_of (p \<or> q)"
  "NOT (mask_of p) = mask_of (\<not> p)"
  by (simp_all add: mask_of_def)

lemma base64_ascii_to_bin_branches:
  "base64_ascii_to_bin a =
     (if 0x41 \<le> a \<and> a \<le> 0x5a then a - 0x41 else if 0x61 \<le> a \<and> a \<le> 0x7a then a - 0x61 + 26
      else if 0x30 \<le> a \<and> a \<le> 0x39 then a - 0x30 + 52
      else if a = 0x2b then 62 else if a = 0x2f then 63 else if a = 0x3d then 0 else 0xff)"
proof -
  have e: "constant_time_eq_8 (ucast a) 0x2b = mask_of (a = 0x2b)"
    "constant_time_eq_8 (ucast a) 0x2f = mask_of (a = 0x2f)"
    "constant_time_eq_8 (ucast a) 0x3d = mask_of (a = 0x3d)"
    using ucast_eq_iff_byte [of a "0x2b"] ucast_eq_iff_byte [of a "0x2f"] ucast_eq_iff_byte [of a "0x3d"]
    by (simp_all add: constant_time_8_eq)
  have r: "constant_time_in_range_8 a 0x41 0x5a = mask_of (0x41 \<le> a \<and> a \<le> 0x5a)"
    "constant_time_in_range_8 a 0x61 0x7a = mask_of (0x61 \<le> a \<and> a \<le> 0x7a)"
    "constant_time_in_range_8 a 0x30 0x39 = mask_of (0x30 \<le> a \<and> a \<le> 0x39)"
    by (rule constant_time_in_range_8_eq; simp)+
  define n where "n = unat a"
  have c: "0x41 \<le> a \<longleftrightarrow> 65 \<le> n" "a \<le> 0x5a \<longleftrightarrow> n \<le> 90" "0x61 \<le> a \<longleftrightarrow> 97 \<le> n" "a \<le> 0x7a \<longleftrightarrow> n \<le> 122"
    "0x30 \<le> a \<longleftrightarrow> 48 \<le> n" "a \<le> 0x39 \<longleftrightarrow> n \<le> 57" "a = 0x2b \<longleftrightarrow> n = 43" "a = 0x2f \<longleftrightarrow> n = 47"
    "a = 0x3d \<longleftrightarrow> n = 61"
    by (simp_all add: n_def word_le_nat_alt byte_eq_iff)
  define u l d where "u = a - 0x41" and "l = a - 0x61 + 26" and "d = a - 0x30 + 52"
  have "base64_ascii_to_bin a = (if 65 \<le> n \<and> n \<le> 90 then u else 0) OR (if 97 \<le> n \<and> n \<le> 122 then l else 0) OR
      (if 48 \<le> n \<and> n \<le> 57 then d else 0) OR (if n = 43 then 62 else 0) OR (if n = 47 then 63 else 0) OR
      mask_of (\<not> (((((65 \<le> n \<and> n \<le> 90 \<or> 97 \<le> n \<and> n \<le> 122) \<or> 48 \<le> n \<and> n \<le> 57) \<or> n = 43) \<or> n = 47) \<or> n = 61))"
    unfolding base64_ascii_to_bin_def Let_def e r mask_of_ops c u_def [symmetric] l_def [symmetric] d_def [symmetric]
    by (simp only: or.assoc disj_assoc)
  also have "\<dots> = (if 65 \<le> n \<and> n \<le> 90 then u else if 97 \<le> n \<and> n \<le> 122 then l
      else if 48 \<le> n \<and> n \<le> 57 then d else if n = 43 then 62 else if n = 47 then 63
      else if n = 61 then 0 else 0xff)"
    by (simp add: mask_of_def)
  finally show ?thesis unfolding c u_def l_def d_def .
qed

lemma base64_ascii_to_bin_table: "n < 64 \<Longrightarrow> base64_ascii_to_bin (alphabet ! n) = word_of_nat n"
proof -
  have "map base64_ascii_to_bin alphabet = map word_of_nat [0..<64]"
    unfolding base64_ascii_to_bin_branches by code_simp
  then have "map base64_ascii_to_bin alphabet ! n = map word_of_nat [0..<64] ! n" by (rule arg_cong)
  then show "n < 64 \<Longrightarrow> base64_ascii_to_bin (alphabet ! n) = word_of_nat n"
    by (simp add: alphabet_length)
qed

lemma conv_bin2ascii_eq: "conv_bin2ascii a = alphabet ! (unat a mod 64)"
proof -
  let ?n = "unat a mod 64"
  have m: "mask 6 = (0x3f :: byte)" by (simp add: mask_eq_exp_minus_1)
  have "unat (a AND 0x3f) = ?n" using unat_and_mask [of a 6] by (simp add: m)
  moreover have "unat ((word_of_nat ?n :: byte) AND 0x3f) = ?n"
  proof -
    have "unat (word_of_nat ?n :: byte) = ?n" by (rule unat_word_of_nat_id) (simp add: order_less_trans [of _ 64])
    with unat_and_mask [of "word_of_nat ?n :: byte" 6] show ?thesis unfolding m by simp
  qed
  ultimately have "a AND 0x3f = word_of_nat ?n AND 0x3f" by (simp only: byte_eq_iff)
  then have "conv_bin2ascii a = conv_bin2ascii (word_of_nat ?n)" by (simp only: conv_bin2ascii_def)
  with conv_bin2ascii_table [of ?n] show ?thesis by simp
qed

lemma conv_of_word: "conv_bin2ascii (ucast (l :: u32)) = alphabet ! (unat l mod 64)"
proof -
  have "unat (ucast l :: byte) = unat l mod 256"
    by (simp add: unsigned_ucast_eq take_bit_eq_mod)
  then show ?thesis by (simp add: conv_bin2ascii_eq mod_mod_cancel)
qed

section \<open>The encoder against its specification\<close>

text \<open>Four characters for 24 bits; shorter groups are filled with zeros and marked with \<open>=\<close>.\<close>

definition quad :: "nat \<Rightarrow> byte list" where
  "quad v = map (\<lambda>k. alphabet ! (v div 64 ^ k mod 64)) [3, 2, 1, 0]"

fun b64 :: "byte list \<Rightarrow> byte list" where
  "b64 (a # b # c # r) = quad (be_val [a, b, c]) @ b64 r"
| "b64 [a, b] = take 3 (quad (be_val [a, b, 0])) @ [0x3d]"
| "b64 [a] = take 2 (quad (be_val [a, 0, 0])) @ [0x3d, 0x3d]"
| "b64 [] = []"

lemma be_val_2: "be_val [a, b] = unat a * 256 + unat b"
  by (simp add: be_val_Cons)

lemma be_val_3: "be_val [a, b, c] = be_val [a, b] * 256 + unat c"
  using be_val_snoc [of "[a, b]" c] by simp

lemma unat_word24: "unat (word24 a b c) = be_val [a, b, c]"
proof -
  have less: "be_val [a, b] < 256 ^ 2" "be_val [a, b, c] < 256 ^ 3"
  proof -
    have l: "length [a, b] = 2" "length [a, b, c] = 3" by simp_all
    show "be_val [a, b] < 256 ^ 2" "be_val [a, b, c] < 256 ^ 3"
      using be_val_less [of "[a, b]"] be_val_less [of "[a, b, c]"] unfolding l .
  qed
  have "word24 a b c = push_bit 8 (push_bit 8 (ucast a) OR ucast b) OR ucast c"
    by (simp add: word24_def push_bit_or or.assoc)
  also have "\<dots> = word_of_nat (unat (word_of_nat (be_val [a, b]) :: u32) * 256 + unat c)"
    by (simp only: shift_in_byte unat_ucast_byte be_val_2)
  also have "unat (word_of_nat (be_val [a, b]) :: u32) = be_val [a, b]"
    using less(1) by (intro unat_word_of_nat_id) simp
  finally have "word24 a b c = word_of_nat (be_val [a, b, c])" by (simp only: be_val_3)
  moreover have "unat (word_of_nat (be_val [a, b, c]) :: u32) = be_val [a, b, c]"
    using less(2) by (intro unat_word_of_nat_id) simp
  ultimately show ?thesis by (simp only:)
qed

lemma word24_zero:
  "push_bit 16 (ucast a) OR push_bit 8 (ucast b) = word24 a b 0" "push_bit 16 (ucast a) = word24 a 0 0"
  by (simp_all add: word24_def)

lemma conv_word24:
  "conv_bin2ascii (ucast (drop_bit 18 (word24 a b c))) = alphabet ! (be_val [a, b, c] div 64 ^ 3 mod 64)"
  "conv_bin2ascii (ucast (drop_bit 12 (word24 a b c))) = alphabet ! (be_val [a, b, c] div 64 ^ 2 mod 64)"
  "conv_bin2ascii (ucast (drop_bit 6 (word24 a b c))) = alphabet ! (be_val [a, b, c] div 64 ^ 1 mod 64)"
  "conv_bin2ascii (ucast (word24 a b c)) = alphabet ! (be_val [a, b, c] div 64 ^ 0 mod 64)"
  by (simp_all add: conv_of_word unat_drop_bit unat_word24 del: be_val.simps)

lemma quad_parts:
  "quad v = [alphabet ! (v div 64 ^ 3 mod 64), alphabet ! (v div 64 ^ 2 mod 64),
     alphabet ! (v div 64 ^ 1 mod 64), alphabet ! (v div 64 ^ 0 mod 64)]"
  "take 3 (quad v) = [alphabet ! (v div 64 ^ 3 mod 64), alphabet ! (v div 64 ^ 2 mod 64),
     alphabet ! (v div 64 ^ 1 mod 64)]"
  "take 2 (quad v) = [alphabet ! (v div 64 ^ 3 mod 64), alphabet ! (v div 64 ^ 2 mod 64)]"
  by (simp_all add: quad_def)

lemma length_quad [simp]: "length (quad v) = 4"
  by (simp add: quad_def)

lemma encode_block_loop_short:
  "encode_block_loop [a, b] =
     [conv_bin2ascii (ucast (drop_bit 18 (word24 a b 0))), conv_bin2ascii (ucast (drop_bit 12 (word24 a b 0))),
      conv_bin2ascii (ucast (drop_bit 6 (word24 a b 0))), 0x3d]"
  "encode_block_loop [a] =
     [conv_bin2ascii (ucast (drop_bit 18 (word24 a 0 0))), conv_bin2ascii (ucast (drop_bit 12 (word24 a 0 0))),
      0x3d, 0x3d]"
  by (simp_all add: word24_def Let_def)

lemma encode_block_loop_b64: "encode_block_loop src = b64 src"
proof (induction src rule: b64.induct)
  case (1 a b c r)
  then show ?case by (simp only: encode_block_loop.simps b64.simps Let_def conv_word24 quad_parts(1) append.simps)
next
  case (2 a b)
  show ?case by (simp only: encode_block_loop_short b64.simps conv_word24 quad_parts(2) append.simps)
next
  case (3 a)
  show ?case by (simp only: encode_block_loop_short b64.simps conv_word24 quad_parts(3) append.simps)
qed simp

lemma length_b64: "length (b64 src) = 4 * ((length src + 2) div 3)"
proof (induction src rule: b64.induct)
  case (1 a b c r)
  have "(length (a # b # c # r) + 2) div 3 = Suc ((length r + 2) div 3)"
    using div_add_self2 [of 3 "length r + 2"] by simp
  with 1 show ?case by simp
qed simp_all

lemma EVP_EncodeBlock_eq: "EVP_EncodeBlock src n = (b64 (take n src) @ [0], 4 * ((min n (length src) + 2) div 3))"
  by (simp add: EVP_EncodeBlock_def Let_def encode_block_loop_b64 length_b64 min.commute)

section \<open>The decoder undoes the encoder\<close>

lemma alphabet_plain: "n < 64 \<Longrightarrow> alphabet ! n \<noteq> 0x3d \<and> \<not> is_space (alphabet ! n)"
proof -
  have "list_all (\<lambda>c. c \<noteq> 0x3d \<and> \<not> is_space c) alphabet" by code_simp
  then show "n < 64 \<Longrightarrow> alphabet ! n \<noteq> 0x3d \<and> \<not> is_space (alphabet ! n)"
    by (simp add: list_all_iff alphabet_length)
qed

lemma sextet_not_ff: "n < 64 \<Longrightarrow> (word_of_nat n :: byte) \<noteq> 0xff"
proof
  assume n: "n < 64" and e: "(word_of_nat n :: byte) = 0xff"
  have "unat (word_of_nat n :: byte) = n" using n by (intro unat_word_of_nat_id) simp
  with n show False unfolding e by simp
qed

text \<open>The 24 bits of a quad of sextets.\<close>

definition sextets :: "nat \<Rightarrow> nat \<Rightarrow> nat \<Rightarrow> nat \<Rightarrow> nat" where
  "sextets p q r s = ((p * 64 + q) * 64 + r) * 64 + s"

lemma sextets_div:
  assumes "v < 64 ^ 4"
  shows "sextets (v div 64 ^ 3 mod 64) (v div 64 ^ 2 mod 64) (v div 64 ^ 1 mod 64) (v div 64 ^ 0 mod 64) = v"
proof -
  define a where "a = v div 64"
  define b where "b = a div 64"
  define c where "c = b div 64"
  have d: "v div 64 ^ 3 = c" "v div 64 ^ 2 = b" "v div 64 ^ 1 = a" "v div 64 ^ 0 = v"
    by (simp_all add: a_def b_def c_def flip: div_mult2_eq)
  have "c < 64" using assms d(1) by (simp add: div_less_iff_less_mult flip: d(1))
  then have "c mod 64 * 64 + b mod 64 = b" "b * 64 + a mod 64 = a" "a * 64 + v mod 64 = v"
    by (simp_all add: a_def b_def c_def)
  then show ?thesis unfolding d sextets_def by (simp only:)
qed

lemma shift_in_sextet:
  "s < 64 \<Longrightarrow> push_bit 6 x OR word_of_nat s = (word_of_nat (unat x * 64 + s) :: u32)"
  using shift_in_eq_plus [of 6 6 s x] by (simp add: push_bit_eq_mult)

lemma unat_quad_word:
  assumes "p < 64" "q < 64" "r < 64" "s < 64"
  shows "unat (push_bit 18 (word_of_nat p) OR push_bit 12 (word_of_nat q) OR
    push_bit 6 (word_of_nat r) OR word_of_nat s :: u32) = sextets p q r s"
proof -
  let ?pq = "p * 64 + q"
  let ?pqr = "?pq * 64 + r"
  have b: "p < 2 ^ LENGTH(32)" "?pq < 2 ^ LENGTH(32)" "?pqr < 2 ^ LENGTH(32)" "?pqr * 64 + s < 2 ^ LENGTH(32)"
    using assms by simp_all
  have "push_bit 18 (word_of_nat p) OR push_bit 12 (word_of_nat q) OR push_bit 6 (word_of_nat r) OR word_of_nat s
      = push_bit 6 (push_bit 6 (push_bit 6 (word_of_nat p) OR word_of_nat q) OR word_of_nat r) OR (word_of_nat s :: u32)"
    by (simp only: push_bit_or push_bit_push_bit or.assoc) simp
  also have "\<dots> = word_of_nat (?pqr * 64 + s)"
    by (simp only: shift_in_sextet assms unat_word_of_nat_id [OF b(1)] unat_word_of_nat_id [OF b(2)]
        unat_word_of_nat_id [OF b(3)])
  finally show ?thesis unfolding sextets_def by (simp only: unat_word_of_nat_id [OF b(4)])
qed

lemma decode_quad_parts:
  assumes "p < 64" "q < 64" "r < 64" "s < 64"
    and "base64_ascii_to_bin w = word_of_nat p" "base64_ascii_to_bin x = word_of_nat q"
    and "base64_ascii_to_bin y = word_of_nat r" "base64_ascii_to_bin z = word_of_nat s"
  shows "base64_decode_quad [w, x, y, z] =
    (let out = be_bytes 3 (sextets p q r s)
     in if w \<noteq> 0x3d \<and> x \<noteq> 0x3d \<and> y \<noteq> 0x3d \<and> z \<noteq> 0x3d then Some out
        else if w \<noteq> 0x3d \<and> x \<noteq> 0x3d \<and> y \<noteq> 0x3d then Some (take 2 out)
        else if w \<noteq> 0x3d \<and> x \<noteq> 0x3d \<and> z = 0x3d then Some (take 1 out) else None)"
proof -
  have u: "(ucast (word_of_nat n :: byte) :: u32) = word_of_nat n" if "n < 64" for n
  proof -
    have "unat (word_of_nat n :: byte) = n" using that by (intro unat_word_of_nat_id) simp
    then show ?thesis by (simp only: ucast_eq_word_of_nat)
  qed
  define v where "v = (push_bit 18 (word_of_nat p) OR push_bit 12 (word_of_nat q) OR
    push_bit 6 (word_of_nat r) OR word_of_nat s :: u32)"
  have v: "unat v = sextets p q r s" unfolding v_def by (rule unat_quad_word [OF assms(1-4)])
  have b: "ucast (drop_bit k v) = byte_of (sextets p q r s div 2 ^ k)" for k
    by (simp only: ucast_eq_word_of_nat unat_drop_bit v byte_of_def)
  have "[ucast (drop_bit 16 v), ucast (drop_bit 8 v), ucast v] = be_bytes 3 (sextets p q r s)"
    using b [of 16] b [of 8] b [of 0] by (simp add: bytes_simps div_mult2_eq [symmetric])
  then have o: "be_bytes 3 (sextets p q r s) = [ucast (drop_bit 16 v), ucast (drop_bit 8 v), ucast v]"
    by (rule sym)
  have t: "take 2 (be_bytes 3 (sextets p q r s)) = [ucast (drop_bit 16 v), ucast (drop_bit 8 v)]"
    "take 1 (be_bytes 3 (sextets p q r s)) = [ucast (drop_bit 16 v)]" unfolding o by simp_all
  have e: "base64_decode_quad [w, x, y, z] =
      (let padding_pattern = (w = 0x3d, x = 0x3d, y = 0x3d, z = 0x3d)
       in if padding_pattern = (False, False, False, False)
          then Some [ucast (drop_bit 16 v), ucast (drop_bit 8 v), ucast v]
          else if padding_pattern = (False, False, False, True)
          then Some [ucast (drop_bit 16 v), ucast (drop_bit 8 v)]
          else if padding_pattern = (False, False, True, True)
          then Some [ucast (drop_bit 16 v)] else None)"
  proof -
    have n: "[w, x, y, z] ! 0 = w" "[w, x, y, z] ! 1 = x" "[w, x, y, z] ! 2 = y" "[w, x, y, z] ! 3 = z"
      by simp_all
    note u4 = u [OF assms(1)] u [OF assms(2)] u [OF assms(3)] u [OF assms(4)]
    note f4 = sextet_not_ff [OF assms(1)] sextet_not_ff [OF assms(2)] sextet_not_ff [OF assms(3)]
      sextet_not_ff [OF assms(4)]
    show ?thesis
      unfolding base64_decode_quad_def Let_def n assms(5-8) u4 v_def [symmetric] using f4 by (simp only: simp_thms if_False)
  qed
  show ?thesis unfolding e Let_def t o by auto
qed

lemma be_val_3_less: "be_val [a, b, c] < 64 ^ 4"
proof -
  have "length [a, b, c] = 3" by simp
  then have "be_val [a, b, c] < 256 ^ 3" using be_val_less [of "[a, b, c]"] by (simp only:)
  then show ?thesis by simp
qed

lemma decode_alphabet:
  "base64_ascii_to_bin (alphabet ! (n mod 64)) = word_of_nat (n mod 64)" "alphabet ! (n mod 64) \<noteq> 0x3d"
  "base64_ascii_to_bin 0x3d = word_of_nat 0"
  using base64_ascii_to_bin_table [of "n mod 64"] alphabet_plain [of "n mod 64"]
  by (simp_all add: base64_ascii_to_bin_branches)

lemma decode_quad:
  assumes "v < 64 ^ 4"
  shows "base64_decode_quad (quad v) = Some (be_bytes 3 v)"
    and "v mod 64 = 0 \<Longrightarrow> base64_decode_quad (take 3 (quad v) @ [0x3d]) = Some (take 2 (be_bytes 3 v))"
    and "v mod 64 = 0 \<Longrightarrow> v div 64 mod 64 = 0 \<Longrightarrow>
      base64_decode_quad (take 2 (quad v) @ [0x3d, 0x3d]) = Some (take 1 (be_bytes 3 v))"
proof -
  let ?p = "v div 64 ^ 3 mod 64" and ?q = "v div 64 ^ 2 mod 64" and ?r = "v div 64 ^ 1 mod 64"
    and ?s = "v div 64 ^ 0 mod 64"
  have l: "?p < 64" "?q < 64" "?r < 64" "?s < 64" "(0 :: nat) < 64" by (simp_all del: power_Suc)
  note a = decode_alphabet(1) and n = decode_alphabet(2) and z = decode_alphabet(3)
  note d = decode_quad_parts
  note v = sextets_div [OF assms]
  have s: "?s = 0" if "v mod 64 = 0" using that by simp
  have r: "?r = 0" if "v div 64 mod 64 = 0" using that by simp
  show "base64_decode_quad (quad v) = Some (be_bytes 3 v)"
    unfolding quad_parts(1) d [OF l(1,2,3,4) a a a a] v Let_def by (simp add: n)
  show "base64_decode_quad (take 3 (quad v) @ [0x3d]) = Some (take 2 (be_bytes 3 v))" if "v mod 64 = 0"
    unfolding quad_parts(2) append.simps d [OF l(1,2,3,5) a a a z] v [unfolded s [OF that]] Let_def
    by (simp add: n)
  show "base64_decode_quad (take 2 (quad v) @ [0x3d, 0x3d]) = Some (take 1 (be_bytes 3 v))"
    if "v mod 64 = 0" "v div 64 mod 64 = 0"
    unfolding quad_parts(3) append.simps d [OF l(1,2,5,5) a a z z]
      v [unfolded s [OF that(1)] r [OF that(2)]] Let_def
    by (simp add: n)
qed

lemma decode_b64_quads:
  "base64_decode_quad (quad (be_val [a, b, c])) = Some [a, b, c]"
  "base64_decode_quad (take 3 (quad (be_val [a, b, 0])) @ [0x3d]) = Some [a, b]"
  "base64_decode_quad (take 2 (quad (be_val [a, 0, 0])) @ [0x3d, 0x3d]) = Some [a]"
proof -
  have b: "be_bytes 3 (be_val [a, b, c]) = [a, b, c]" for a b c :: byte
    using be_bytes_be_val [of "[a, b, c]"] by (simp only: list.size) (simp add: numeral_3_eq_3)
  have e: "be_val [a, b, 0] = 64 * (4 * be_val [a, b])" "be_val [a, 0, 0] = 64 * (64 * (16 * unat a))"
    by (simp_all add: be_val_3)
  have m: "be_val [a, b, 0] mod 64 = 0" "be_val [a, 0, 0] mod 64 = 0" "be_val [a, 0, 0] div 64 mod 64 = 0"
    unfolding e by simp_all
  show "base64_decode_quad (quad (be_val [a, b, c])) = Some [a, b, c]"
    by (simp only: decode_quad(1) [OF be_val_3_less] b)
  show "base64_decode_quad (take 3 (quad (be_val [a, b, 0])) @ [0x3d]) = Some [a, b]"
    by (simp only: decode_quad(2) [OF be_val_3_less m(1)] b) simp
  show "base64_decode_quad (take 2 (quad (be_val [a, 0, 0])) @ [0x3d, 0x3d]) = Some [a]"
    by (simp only: decode_quad(3) [OF be_val_3_less m(2,3)] b) simp
qed

lemma decode_base64_loop_quad:
  assumes "length q = 4" and "base64_decode_quad q = Some bs" and "length bs = 3 \<or> r = []"
  shows "decode_base64_loop (q @ r) = map_option ((@) bs) (decode_base64_loop r)"
  using assms by (subst decode_base64_loop.simps) auto

lemma decode_base64_loop_Nil [simp]: "decode_base64_loop [] = Some []"
  by (subst decode_base64_loop.simps) simp

lemma decode_base64_loop_b64: "decode_base64_loop (b64 xs) = Some xs"
proof (induction xs rule: b64.induct)
  case (1 a b c r)
  show ?case using decode_base64_loop_quad [OF length_quad decode_b64_quads(1) disjI1] 1 by simp
next
  case (2 a b)
  have "length (take 3 (quad (be_val [a, b, 0])) @ [0x3d]) = 4" by simp
  from decode_base64_loop_quad [OF this decode_b64_quads(2), of "[]"] show ?case by (simp del: be_val.simps)
next
  case (3 a)
  have "length (take 2 (quad (be_val [a, 0, 0])) @ [0x3d, 0x3d]) = 4" by simp
  from decode_base64_loop_quad [OF this decode_b64_quads(3), of "[]"] show ?case by (simp del: be_val.simps)
qed simp

end
