(* ===== verification/Base64_Stream.thy ===== *)
theory Base64_Stream
  imports Base64
begin

text \<open>
  The streaming half of \<open>base64.c\<close>: however a caller cuts its data into chunks, \<open>EVP_EncodeUpdate\<close>
  and \<open>EVP_EncodeFinal\<close> write the base64 of the whole in lines of 64 characters, and
  \<open>EVP_DecodeUpdate\<close> and \<open>EVP_DecodeFinal\<close> read it back from any chunks of that text.
\<close>

section \<open>Lines\<close>

function b64_lines :: "byte list \<Rightarrow> byte list" where
  "b64_lines xs = (if xs = [] then [] else b64 (take 48 xs) @ [0x0a] @ b64_lines (drop 48 xs))"
  by pat_completeness auto
termination by (relation "measure length") auto

declare b64_lines.simps [simp del]

lemma b64_lines_Nil [simp]: "b64_lines [] = []"
  by (simp add: b64_lines.simps)

lemma b64_lines_full: "length xs = 48 \<Longrightarrow> b64_lines (xs @ ys) = b64 xs @ [0x0a] @ b64_lines ys"
  by (subst b64_lines.simps) auto

lemma b64_lines_short: "xs \<noteq> [] \<Longrightarrow> length xs \<le> 48 \<Longrightarrow> b64_lines xs = b64 xs @ [0x0a]"
  by (subst b64_lines.simps) simp

lemma b64_lines_append:
  assumes "length xs = 48 * n"
  shows "b64_lines (xs @ ys) = b64_lines xs @ b64_lines ys"
  using assms
proof (induction n arbitrary: xs)
  case (Suc n)
  have l: "length (take 48 xs) = 48" "length (drop 48 xs) = 48 * n" using Suc.prems by simp_all
  have e: "xs @ ys = take 48 xs @ drop 48 xs @ ys" by simp
  have x: "b64_lines xs = b64 (take 48 xs) @ [0x0a] @ b64_lines (drop 48 xs)"
    using b64_lines_full [OF l(1), of "drop 48 xs"] by simp
  show ?case unfolding e b64_lines_full [OF l(1)] Suc.IH [OF l(2)] x by simp
qed simp

lemma length_b64_lines: "length xs mod 48 = 0 \<Longrightarrow> 48 * length (b64_lines xs) = 65 * length xs"
proof -
  have "length xs = 48 * n \<Longrightarrow> length (b64_lines xs) = 65 * n" for n
  proof (induction n arbitrary: xs)
    case (Suc n)
    have l: "length (take 48 xs) = 48" "length (drop 48 xs) = 48 * n" using Suc.prems by simp_all
    from b64_lines_full [OF l(1), of "drop 48 xs"] Suc.IH [OF l(2)] l(1) show ?case by (simp add: length_b64)
  qed simp
  moreover assume "length xs mod 48 = 0"
  ultimately show ?thesis by (metis mod_0_imp_dvd dvd_def mult.left_commute)
qed

section \<open>The encoder\<close>

definition enc_ok :: "encode_ctx \<Rightarrow> bool" where
  "enc_ok ctx \<longleftrightarrow> data_used ctx < 48 \<and> length (ctx_data ctx) = 48"

definition pending :: "encode_ctx \<Rightarrow> byte list" where
  "pending ctx = take (data_used ctx) (ctx_data ctx)"

lemma EVP_EncodeInit_ok: "enc_ok EVP_EncodeInit" "pending EVP_EncodeInit = []"
  by (simp_all add: enc_ok_def pending_def EVP_EncodeInit_def)

lemma encode_block_48:
  assumes "48 \<le> length inp"
  shows "EVP_EncodeBlock inp 48 = (b64 (take 48 inp) @ [0], 64)" and "length (b64 (take 48 inp)) = 64"
  using assms by (simp_all add: EVP_EncodeBlock_eq length_b64)

lemma encode_update_loop_spec:
  assumes "tot + 2 * length inp < 2 ^ 64"
  shows "\<exists>full rest. encode_update_loop out tot inp = (out @ b64_lines full, Some (tot + length (b64_lines full)), rest) \<and>
    inp = full @ rest \<and> length full mod 48 = 0 \<and> length rest < 48"
  using assms
proof (induction out tot inp rule: encode_update_loop.induct)
  case (1 out tot inp)
  show ?case
  proof (cases "48 \<le> length inp")
    case False
    then show ?thesis by (intro exI [of _ "[]"] exI [of _ inp]) (simp add: encode_update_loop.simps)
  next
    case True
    let ?l = "b64 (take 48 inp) @ [0x0a]"
    have b: "tot + 65 < 2 ^ 64" "tot + 65 + 2 * length (drop 48 inp) < 2 ^ 64"
      using "1.prems" True by simp_all
    have w: "size_wrap (tot + 64 + 1) = tot + 65" "size_wrap (65 + tot) = tot + 65" using b(1) by simp_all
    note eb = encode_block_48 [OF True]
    have step: "encode_update_loop out tot inp = encode_update_loop (out @ ?l) (tot + 65) (drop 48 inp)"
      by (subst encode_update_loop.simps) (simp add: True eb w Let_def)
    obtain full rest where ih: "encode_update_loop (out @ ?l) (tot + 65) (drop 48 inp) =
        ((out @ ?l) @ b64_lines full, Some (tot + 65 + length (b64_lines full)), rest)"
      "drop 48 inp = full @ rest" "length full mod 48 = 0" "length rest < 48"
      using "1.IH" [OF True _ refl refl refl, of "b64 (take 48 inp) @ [0]" 64] eb w b by auto
    have l: "length (take 48 inp) = 48" using True by simp
    show ?thesis
    proof (intro exI conjI)
      show "encode_update_loop out tot inp = (out @ b64_lines (take 48 inp @ full),
          Some (tot + length (b64_lines (take 48 inp @ full))), rest)"
        unfolding step ih(1) b64_lines_full [OF l] using eb(2) by simp
      show "inp = (take 48 inp @ full) @ rest" using ih(2) append_take_drop_id [of 48 inp] by simp
      show "length (take 48 inp @ full) mod 48 = 0" using ih(3) l by (simp add: mod_add_right_eq [symmetric])
    qed (rule ih(4))
  qed
qed

text \<open>
  The contract of \<open>EVP_EncodeUpdate\<close>: the full lines of what was pending and what came in are
  written, the rest is pending.
\<close>

definition encodes :: "encode_ctx \<Rightarrow> byte list \<Rightarrow> encode_ctx \<Rightarrow> byte list \<Rightarrow> bool" where
  "encodes ctx inp ctx' out \<longleftrightarrow> enc_ok ctx' \<and>
     (\<exists>full. pending ctx @ inp = full @ pending ctx' \<and> length full mod 48 = 0 \<and> out = b64_lines full)"

lemma take_with_nul: "take (length out) (with_nul out) = out"
  by (simp add: with_nul_def)

lemma EVP_EncodeUpdate_encodes:
  assumes ok: "enc_ok ctx" and small: "length inp \<le> 2 ^ 30 - 48" and u: "EVP_EncodeUpdate ctx inp = (ctx', out, n)"
  shows "encodes ctx inp ctx' (take n out)"
proof (cases "48 - data_used ctx > length inp")
  case True
  from ok have d: "data_used ctx + length inp \<le> length (ctx_data ctx)" using True by (simp add: enc_ok_def)
  show ?thesis
  proof (cases "inp = []")
    case True
    with u ok show ?thesis by (auto simp: EVP_EncodeUpdate_def encodes_def)
  next
    case False
    with True u have e: "ctx' = ctx\<lparr>ctx_data := mem_write (data_used ctx) inp (ctx_data ctx),
        data_used := data_used ctx + length inp\<rparr>" "n = 0"
      by (simp_all add: EVP_EncodeUpdate_def)
    have "enc_ok ctx'" using ok True d by (simp add: enc_ok_def e)
    moreover have "pending ctx @ inp = [] @ pending ctx'" using d by (simp add: pending_def e take_mem_write)
    ultimately show ?thesis unfolding encodes_def e(2) by (intro conjI exI [of _ "[]"]) simp_all
  qed
next
  case False
  let ?todo = "48 - data_used ctx"
  let ?dat = "mem_write (data_used ctx) (take ?todo inp) (ctx_data ctx)"
  let ?part = "data_used ctx \<noteq> 0"
  define ctx1 where "ctx1 = (if ?part then ctx\<lparr>ctx_data := ?dat, data_used := 0\<rparr> else ctx)"
  define head where "head = (if ?part then pending ctx @ take ?todo inp else [])"
  define inp1 where "inp1 = (if ?part then drop ?todo inp else inp)"
  have len: "data_used ctx + length (take ?todo inp) = 48" "length (ctx_data ctx) = 48" "data_used ctx < 48"
    using ok False by (simp_all add: enc_ok_def)
  have td: "take 48 ?dat = pending ctx @ take ?todo inp" "length ?dat = 48"
    using take_mem_write [of "data_used ctx" "take ?todo inp" "ctx_data ctx"]
      length_mem_write [of "data_used ctx" "take ?todo inp" "ctx_data ctx"] len
    by (simp_all add: pending_def)
  have hd: "length head = (if ?part then 48 else 0)" "pending ctx @ inp = head @ inp1"
    using len by (auto simp: head_def inp1_def pending_def)
  have ctx1: "length (ctx_data ctx1) = 48" "data_used ctx1 = 0" using td(2) len(2) by (auto simp: ctx1_def)
  have i0: "inp \<noteq> []" using False ok by (auto simp: enc_ok_def)
  have h48: "length head mod 48 = 0" "length head \<le> 48" using hd(1) by auto
  have hl: "length (b64_lines head) \<le> 65"
    using hd(1) b64_lines_short [of head] by (cases "head = []") (auto simp: length_b64 split: if_splits)
  have l1: "length inp1 \<le> 2 ^ 30 - 48" using small by (auto simp: inp1_def)
  then have tot: "length (b64_lines head) + 2 * length inp1 < 2 ^ 64" using hl by simp
  obtain full rest where loop: "encode_update_loop (b64_lines head) (length (b64_lines head)) inp1 =
      (b64_lines head @ b64_lines full, Some (length (b64_lines head) + length (b64_lines full)), rest)"
    "inp1 = full @ rest" "length full mod 48 = 0" "length rest < 48"
    using encode_update_loop_spec [OF tot, of "b64_lines head"] by (elim exE conjE) (rule that)
  define ctx2 where "ctx2 = ctx1\<lparr>ctx_data := (if rest \<noteq> [] then mem_write 0 rest (ctx_data ctx1) else ctx_data ctx1),
    data_used := length rest\<rparr>"
  have nlen: "length (b64_lines head) + length (b64_lines full) \<le> 2 ^ 31 - 1"
    using length_b64_lines [OF loop(3)] length_b64_lines [OF h48(1)] h48(2) l1 loop(2) by simp
  have hb: "(if ?part then b64 (take 48 ?dat) @ [0x0a] else []) = b64_lines head"
  proof (cases ?part)
    case True
    then have "take 48 ?dat = head" "length head = 48" using hd(1) td(1) by (simp_all add: head_def)
    with b64_lines_full [of head "[]"] True show ?thesis by simp
  qed (simp add: head_def)
  have h65: "length (b64_lines head) = 65" if ?part
    using length_b64_lines [OF h48(1)] hd(1) that by simp
  have sel: "(if ?part then let (block, encoded) = EVP_EncodeBlock ?dat 48
        in (ctx\<lparr>ctx_data := ?dat, data_used := 0\<rparr>, take encoded block @ [0x0a], encoded + 1, drop ?todo inp)
      else (ctx, [], 0, inp)) = (ctx1, b64_lines head, length (b64_lines head), inp1)"
    using hb h65 encode_block_48 [of ?dat] td(2) by (auto simp: ctx1_def inp1_def)
  have "EVP_EncodeUpdate ctx inp = (ctx2, with_nul (b64_lines head @ b64_lines full),
      length (b64_lines head) + length (b64_lines full))"
    using nlen False i0 unfolding EVP_EncodeUpdate_def Let_def [of "48 - data_used ctx"] Let_def [of ?dat] sel
    by (simp add: loop(1) ctx2_def)
  with u have e: "ctx' = ctx2" "out = with_nul (b64_lines head @ b64_lines full)"
    "n = length (b64_lines head @ b64_lines full)" by simp_all
  have o: "take n out = b64_lines head @ b64_lines full" unfolding e(2,3) by (rule take_with_nul)
  have "enc_ok ctx2" "pending ctx2 = rest"
    using loop(4) ctx1 by (auto simp: enc_ok_def ctx2_def pending_def mem_write_def)
  moreover have "b64_lines head @ b64_lines full = b64_lines (head @ full)"
    using h48(1) b64_lines_append [of head _ full] by (metis mod_0_imp_dvd dvd_def)
  moreover have "length (head @ full) mod 48 = 0" using h48(1) loop(3) by (simp add: mod_add_eq [symmetric])
  ultimately show ?thesis
    using hd(2) loop(2) unfolding encodes_def o e(1) by (intro conjI exI [of _ "head @ full"]) simp_all
qed

lemma EVP_EncodeFinal_encodes:
  assumes "enc_ok ctx" and "EVP_EncodeFinal ctx = (ctx', out, n)"
  shows "take n out = b64_lines (pending ctx)" and "enc_ok ctx'" and "pending ctx' = []"
proof -
  have l: "length (pending ctx) = data_used ctx" "data_used ctx < 48"
    using assms(1) by (simp_all add: enc_ok_def pending_def)
  have b: "EVP_EncodeBlock (ctx_data ctx) (data_used ctx) = (b64 (pending ctx) @ [0], length (b64 (pending ctx)))"
    using assms(1) by (simp add: EVP_EncodeBlock_eq enc_ok_def pending_def length_b64)
  have "take n out = b64_lines (pending ctx) \<and> enc_ok ctx' \<and> pending ctx' = []"
  proof (cases "data_used ctx = 0")
    case True
    with assms l show ?thesis by (auto simp: EVP_EncodeFinal_def)
  next
    case False
    with l have "b64_lines (pending ctx) = b64 (pending ctx) @ [0x0a]" by (intro b64_lines_short) auto
    with False assms show ?thesis unfolding EVP_EncodeFinal_def b by (auto simp: enc_ok_def pending_def)
  qed
  then show "take n out = b64_lines (pending ctx)" "enc_ok ctx'" "pending ctx' = []" by simp_all
qed

text \<open>A caller that feeds chunks one after the other and collects \<open>*out_len\<close> bytes of each call.\<close>

fun encode_chunks :: "encode_ctx \<Rightarrow> byte list list \<Rightarrow> encode_ctx \<times> byte list" where
  "encode_chunks ctx [] = (ctx, [])"
| "encode_chunks ctx (inp # inps) =
     (let (ctx1, out, n) = EVP_EncodeUpdate ctx inp; (ctx2, outs) = encode_chunks ctx1 inps
      in (ctx2, take n out @ outs))"

definition encode_stream :: "byte list list \<Rightarrow> byte list" where
  "encode_stream inps =
     (let (ctx1, outs) = encode_chunks EVP_EncodeInit inps; (_, out, n) = EVP_EncodeFinal ctx1
      in outs @ take n out)"

lemma encodes_trans:
  assumes "encodes c0 x c1 o1" and "encodes c1 y c2 o2"
  shows "encodes c0 (x @ y) c2 (o1 @ o2)"
proof -
  from assms obtain f1 f2 where f: "pending c0 @ x = f1 @ pending c1" "length f1 mod 48 = 0" "o1 = b64_lines f1"
    "pending c1 @ y = f2 @ pending c2" "length f2 mod 48 = 0" "o2 = b64_lines f2" "enc_ok c2"
    by (auto simp: encodes_def)
  from f(2) obtain k where "length f1 = 48 * k" by (metis mod_0_imp_dvd dvd_def)
  with f show ?thesis unfolding encodes_def
    by (intro conjI exI [of _ "f1 @ f2"]) (auto simp: b64_lines_append mod_add_eq [symmetric],
      metis append.assoc)
qed

lemma encode_chunks_encodes:
  "enc_ok ctx \<Longrightarrow> \<forall>inp \<in> set inps. length inp \<le> 2 ^ 30 - 48 \<Longrightarrow> encode_chunks ctx inps = (ctx', outs) \<Longrightarrow>
     encodes ctx (concat inps) ctx' outs"
proof (induction inps arbitrary: ctx outs)
  case Nil
  then show ?case by (simp add: encodes_def)
next
  case (Cons inp inps)
  obtain ctx1 out n where u: "EVP_EncodeUpdate ctx inp = (ctx1, out, n)" by (metis prod_cases3)
  from Cons.prems have e: "encodes ctx inp ctx1 (take n out)" by (intro EVP_EncodeUpdate_encodes [OF _ _ u]) auto
  obtain outs1 where r: "encode_chunks ctx1 inps = (ctx', outs1)" "outs = take n out @ outs1"
    using Cons.prems(3) u by (auto split: prod.splits)
  have "enc_ok ctx1" using e by (simp add: encodes_def)
  from Cons.IH [OF this _ r(1)] Cons.prems(2) have "encodes ctx1 (concat inps) ctx' outs1" by simp
  from encodes_trans [OF e this] show ?case by (simp add: r(2))
qed

lemma encode_stream_lines:
  assumes "\<forall>inp \<in> set inps. length inp \<le> 2 ^ 30 - 48"
  shows "encode_stream inps = b64_lines (concat inps)"
proof -
  obtain ctx1 outs where c: "encode_chunks EVP_EncodeInit inps = (ctx1, outs)" by fastforce
  obtain ctx2 out n where f: "EVP_EncodeFinal ctx1 = (ctx2, out, n)" by (metis prod_cases3)
  from encode_chunks_encodes [OF EVP_EncodeInit_ok(1) assms c] obtain full where
    e: "enc_ok ctx1" "concat inps = full @ pending ctx1" "length full mod 48 = 0" "outs = b64_lines full"
    by (auto simp: encodes_def EVP_EncodeInit_ok)
  from e(3) obtain k where "length full = 48 * k" by (metis mod_0_imp_dvd dvd_def)
  with e show ?thesis
    by (simp add: encode_stream_def c f EVP_EncodeFinal_encodes(1) [OF e(1) f] b64_lines_append)
qed

section \<open>The decoder\<close>

lemma decode_update_loop_append:
  "decode_update_loop ctx out (xs @ ys) =
     (case decode_update_loop ctx out xs of
        (ctx', out', True) \<Rightarrow> decode_update_loop ctx' out' ys
      | (ctx', out', False) \<Rightarrow> (ctx', out', False))"
  by (induction ctx out xs rule: decode_update_loop.induct) (simp_all add: Let_def split: option.split)

lemma decode_update_loop_out:
  "decode_update_loop ctx (o1 @ o2) inp =
     (let (ctx', out', ok) = decode_update_loop ctx o2 inp in (ctx', o1 @ out', ok))"
proof (induction ctx o2 inp rule: decode_update_loop.induct)
  case (2 ctx out c inp)
  then show ?case by (auto simp: Let_def split: option.split)
qed simp

lemma decode_update_loop_filter:
  "decode_update_loop ctx out inp = decode_update_loop ctx out (filter (\<lambda>c. \<not> is_space c) inp)"
  by (induction ctx out inp rule: decode_update_loop.induct) (auto simp: Let_def split: option.split)

definition dec_ok :: "encode_ctx \<Rightarrow> bool" where
  "dec_ok ctx \<longleftrightarrow> data_used ctx < 4 \<and> length (ctx_data ctx) = 48"

lemma length_base64_decode_quad: "base64_decode_quad q = Some bs \<Longrightarrow> length bs \<le> 3"
  by (auto simp: base64_decode_quad_def Let_def split: if_splits)

lemma decode_update_loop_laws:
  assumes "dec_ok ctx" and "decode_update_loop ctx out inp = (ctx', out', ok)"
  shows "length (ctx_data ctx') = 48 \<and> data_used ctx' \<le> 4 \<and> (ok \<longrightarrow> dec_ok ctx') \<and>
    (error_encountered ctx' \<longleftrightarrow> error_encountered ctx \<or> \<not> ok) \<and>
    length out' + data_used ctx' \<le> length out + length inp + data_used ctx \<and>
    4 * length out' + 3 * data_used ctx' \<le> 4 * length out + 3 * (length inp + data_used ctx)"
  using assms
proof (induction ctx out inp rule: decode_update_loop.induct)
  case (1 ctx out)
  then show ?case by (auto simp: dec_ok_def)
next
  case (2 ctx out c inp)
  define ctx1 where "ctx1 = ctx\<lparr>ctx_data := (ctx_data ctx)[data_used ctx := c], data_used := data_used ctx + 1\<rparr>"
  have c1: "length (ctx_data ctx1) = 48" "data_used ctx1 = data_used ctx + 1" "data_used ctx < 4"
    "error_encountered ctx1 = error_encountered ctx"
    using "2.prems"(1) by (simp_all add: ctx1_def dec_ok_def)
  have step: "decode_update_loop ctx out (c # inp) =
      (if data_used ctx1 = 4 then
         (case base64_decode_quad (ctx_data ctx1) of
            None \<Rightarrow> (ctx1\<lparr>error_encountered := True\<rparr>, out, False)
          | Some bs \<Rightarrow> decode_update_loop
              (ctx1\<lparr>data_used := 0, eof_seen := (if length bs < 3 then True else eof_seen ctx1)\<rparr>) (out @ bs) inp)
       else decode_update_loop ctx1 out inp)" if "\<not> is_space c" "\<not> eof_seen ctx"
    unfolding decode_update_loop.simps Let_def ctx1_def using that by (simp only: if_False)
  consider (space) "is_space c" | (eof) "\<not> is_space c" "eof_seen ctx"
    | (more) "\<not> is_space c" "\<not> eof_seen ctx" "data_used ctx1 \<noteq> 4"
    | (bad) "\<not> is_space c" "\<not> eof_seen ctx" "data_used ctx1 = 4" "base64_decode_quad (ctx_data ctx1) = None"
    | (good) bs where "\<not> is_space c" "\<not> eof_seen ctx" "data_used ctx1 = 4"
      "base64_decode_quad (ctx_data ctx1) = Some bs" by (cases "base64_decode_quad (ctx_data ctx1)") blast+
  then show ?case
  proof cases
    case space
    with "2.IH"(1) [OF space "2.prems"(1)] "2.prems"(2) show ?thesis by simp
  next
    case eof
    with "2.prems" show ?thesis by (auto simp: dec_ok_def)
  next
    case more
    then have "dec_ok ctx1" using c1 by (simp add: dec_ok_def)
    from "2.IH"(3) [OF more(1,2) ctx1_def more(3) this] "2.prems"(2) c1 show ?thesis
      unfolding step [OF more(1,2)] if_not_P [OF more(3)] by simp
  next
    case bad
    with "2.prems"(2) c1 show ?thesis unfolding step [OF bad(1,2)] if_P [OF bad(3)] bad(4) option.case by auto
  next
    case (good bs)
    let ?ctx2 = "ctx1\<lparr>data_used := 0, eof_seen := (if length bs < 3 then True else eof_seen ctx1)\<rparr>"
    have "dec_ok ?ctx2" using c1 by (simp add: dec_ok_def)
    from "2.IH"(2) [OF good(1,2) ctx1_def good(3,4) this] "2.prems"(2) c1 good(3)
      length_base64_decode_quad [OF good(4)] show ?thesis
      unfolding step [OF good(1,2)] if_P [OF good(3)] good(4) option.case by simp
  qed
qed

text \<open>A caller of the decoder: it stops at the first error, and asks \<open>EVP_DecodeFinal\<close> at the end.\<close>

fun decode_chunks :: "encode_ctx \<Rightarrow> byte list list \<Rightarrow> (encode_ctx \<times> byte list) option" where
  "decode_chunks ctx [] = Some (ctx, [])"
| "decode_chunks ctx (inp # inps) =
     (let (r, ctx1, out, n) = EVP_DecodeUpdate ctx inp
      in if r = -1 then None
         else map_option (\<lambda>(ctx2, outs). (ctx2, take n out @ outs)) (decode_chunks ctx1 inps))"

definition decode_stream :: "byte list list \<Rightarrow> byte list option" where
  "decode_stream inps =
     (case decode_chunks EVP_EncodeInit inps of
        None \<Rightarrow> None
      | Some (ctx, outs) \<Rightarrow> if EVP_DecodeFinal ctx = 1 then Some outs else None)"

definition loop_result :: "encode_ctx \<times> byte list \<times> bool \<Rightarrow> (encode_ctx \<times> byte list) option" where
  "loop_result r = (let (ctx, out, ok) = r in if ok then Some (ctx, out) else None)"

lemma decode_chunks_loop:
  "dec_ok ctx \<Longrightarrow> \<not> error_encountered ctx \<Longrightarrow> \<forall>inp \<in> set inps. length inp \<le> 2 ^ 31 - 4 \<Longrightarrow>
     decode_chunks ctx inps = loop_result (decode_update_loop ctx [] (concat inps))"
proof (induction inps arbitrary: ctx)
  case Nil
  then show ?case by (simp add: loop_result_def)
next
  case (Cons inp inps)
  obtain ctx1 out ok where l: "decode_update_loop ctx [] inp = (ctx1, out, ok)" by (metis prod_cases3)
  note laws = decode_update_loop_laws [OF Cons.prems(1) l]
  show ?case
  proof (cases ok)
    case False
    with l Cons.prems(2) show ?thesis
      by (simp add: EVP_DecodeUpdate_def loop_result_def decode_update_loop_append)
  next
    case True
    with laws Cons.prems have n: "dec_ok ctx1" "\<not> error_encountered ctx1" "length out \<le> 2 ^ 31 - 1"
      by (auto simp: dec_ok_def)
    then have "decode_chunks ctx (inp # inps) =
        map_option (\<lambda>(ctx2, outs). (ctx2, out @ outs)) (decode_chunks ctx1 inps)"
      using Cons.prems(2) True l by (simp add: EVP_DecodeUpdate_def)
    also have "\<dots> = map_option (\<lambda>(ctx2, outs). (ctx2, out @ outs))
        (loop_result (decode_update_loop ctx1 [] (concat inps)))"
      using Cons.IH [OF n(1,2)] Cons.prems(3) by simp
    also have "\<dots> = loop_result (decode_update_loop ctx1 out (concat inps))"
      using decode_update_loop_out [of ctx1 out "[]" "concat inps"]
      by (auto simp: loop_result_def Let_def split: prod.splits)
    finally show ?thesis using True l by (simp add: decode_update_loop_append)
  qed
qed

text \<open>A quad of the input, seen by the loop.\<close>

lemma decode_quad_four:
  assumes "length d = 48"
  shows "base64_decode_quad (d[0 := w, 1 := x, 2 := y, 3 := z]) = base64_decode_quad [w, x, y, z]"
proof -
  have n: "d[0 := w, 1 := x, 2 := y, 3 := z] ! 0 = w" "d[0 := w, 1 := x, 2 := y, 3 := z] ! 1 = x"
    "d[0 := w, 1 := x, 2 := y, 3 := z] ! 2 = y" "d[0 := w, 1 := x, 2 := y, 3 := z] ! 3 = z"
    using assms by simp_all
  have m: "[w, x, y, z] ! 0 = w" "[w, x, y, z] ! 1 = x" "[w, x, y, z] ! 2 = y" "[w, x, y, z] ! 3 = z" by simp_all
  show ?thesis unfolding base64_decode_quad_def n m ..
qed

lemma decode_update_loop_four:
  assumes "data_used ctx = 0" "length (ctx_data ctx) = 48" "\<not> eof_seen ctx"
    and "list_all (\<lambda>c. \<not> is_space c) [w, x, y, z]"
  shows "\<exists>d. length d = 48 \<and> decode_update_loop ctx out ([w, x, y, z] @ inp) =
     (case base64_decode_quad [w, x, y, z] of
        None \<Rightarrow> (ctx\<lparr>ctx_data := d, data_used := 4, error_encountered := True\<rparr>, out, False)
      | Some bs \<Rightarrow> decode_update_loop (ctx\<lparr>ctx_data := d, eof_seen := length bs < 3\<rparr>) (out @ bs) inp)"
proof -
  let ?d = "(ctx_data ctx)[0 := w, 1 := x, 2 := y, 3 := z]"
  note q = decode_quad_four [OF assms(2), of w x y z]
  show ?thesis
  proof (intro exI [of _ ?d] conjI)
    show "decode_update_loop ctx out ([w, x, y, z] @ inp) =
     (case base64_decode_quad [w, x, y, z] of
        None \<Rightarrow> (ctx\<lparr>ctx_data := ?d, data_used := 4, error_encountered := True\<rparr>, out, False)
      | Some bs \<Rightarrow> decode_update_loop (ctx\<lparr>ctx_data := ?d, eof_seen := length bs < 3\<rparr>) (out @ bs) inp)"
      using assms q by (cases ctx) (simp add: numeral_3_eq_3 numeral_2_eq_2 eval_nat_numeral split: option.split)
  qed (simp add: assms(2))
qed

lemma decode_update_loop_short:
  assumes "data_used ctx + length inp < 4" "\<not> eof_seen ctx" "list_all (\<lambda>c. \<not> is_space c) inp"
  shows "\<exists>ctx'. decode_update_loop ctx out inp = (ctx', out, True) \<and> data_used ctx' = data_used ctx + length inp"
  using assms
proof (induction inp arbitrary: ctx)
  case (Cons c inp)
  let ?ctx1 = "ctx\<lparr>ctx_data := (ctx_data ctx)[data_used ctx := c], data_used := data_used ctx + 1\<rparr>"
  obtain ctx' where "decode_update_loop ?ctx1 out inp = (ctx', out, True)"
    "data_used ctx' = data_used ?ctx1 + length inp"
    using Cons.IH [of ?ctx1] Cons.prems by auto
  with Cons.prems show ?case by (auto simp: Let_def)
qed simp

lemma decode_update_loop_after_eof:
  "eof_seen ctx \<Longrightarrow> list_all (\<lambda>c. \<not> is_space c) inp \<Longrightarrow>
     loop_result (decode_update_loop ctx out inp) = (if inp = [] then Some (ctx, out) else None)"
  by (cases inp) (simp_all add: loop_result_def)

lemma map_append_options:
  "map_option ((@) []) m = m" "map_option ((@) (xs @ ys)) m = map_option (\<lambda>z. xs @ ys @ z) m"
  by (cases m; simp)+

definition complete :: "encode_ctx \<times> byte list \<Rightarrow> byte list option" where
  "complete r = (if data_used (fst r) = 0 then Some (snd r) else None)"

lemma decode_loop_one_shot:
  assumes "data_used ctx = 0" "length (ctx_data ctx) = 48" "\<not> eof_seen ctx" "list_all (\<lambda>c. \<not> is_space c) inp"
  shows "Option.bind (loop_result (decode_update_loop ctx out inp)) complete =
    (if length inp mod 4 = 0 then map_option ((@) out) (decode_base64_loop inp) else None)"
  using assms
proof (induction inp arbitrary: ctx out rule: decode_base64_loop.induct)
  case (1 inp)
  show ?case
  proof (cases "length inp < 4")
    case True
    with decode_update_loop_short [of ctx inp out] "1.prems" obtain ctx' where
      "decode_update_loop ctx out inp = (ctx', out, True)" "data_used ctx' = length inp" by auto
    with True show ?thesis
      by (cases "inp = []") (auto simp: loop_result_def complete_def)
  next
    case False
    then obtain w x y z r where i: "inp = [w, x, y, z] @ r"
      by (cases inp; cases "tl inp"; cases "tl (tl inp)"; cases "tl (tl (tl inp))") auto
    have sp: "list_all (\<lambda>c. \<not> is_space c) [w, x, y, z]" "list_all (\<lambda>c. \<not> is_space c) r"
      using "1.prems"(4) by (simp_all add: i)
    from decode_update_loop_four [OF "1.prems"(1-3) sp(1), of out r] obtain d where d: "length d = 48"
      "decode_update_loop ctx out inp = (case base64_decode_quad [w, x, y, z] of
        None \<Rightarrow> (ctx\<lparr>ctx_data := d, data_used := 4, error_encountered := True\<rparr>, out, False)
      | Some bs \<Rightarrow> decode_update_loop (ctx\<lparr>ctx_data := d, eof_seen := length bs < 3\<rparr>) (out @ bs) r)"
      unfolding i by blast
    have m: "length inp mod 4 = length r mod 4" "take 4 inp = [w, x, y, z]" "drop 4 inp = r" "inp \<noteq> []"
      by (simp_all add: i)
    show ?thesis
    proof (cases "base64_decode_quad [w, x, y, z]")
      case None
      then show ?thesis unfolding d(2) by (subst decode_base64_loop.simps) (simp add: loop_result_def m)
    next
      case (Some bs)
      let ?ctx2 = "ctx\<lparr>ctx_data := d, eof_seen := length bs < 3\<rparr>"
      show ?thesis
      proof (cases "length bs < 3")
        case True
        from decode_update_loop_after_eof [of ?ctx2 r "out @ bs"] True sp(2) "1.prems"(1) Some show ?thesis
          unfolding d(2) by (subst decode_base64_loop.simps) (auto simp: m complete_def i)
      next
        case False
        then have "length bs = 3" using length_base64_decode_quad [OF Some] by simp
        with "1.IH" [of bs ?ctx2 "out @ bs"] Some d(1) sp(2) "1.prems"(1) show ?thesis
          unfolding d(2) by (subst decode_base64_loop.simps)
            (simp add: m option.map_comp comp_def map_append_options)
      qed
    qed
  qed
qed

lemma decode_stream_one_shot:
  assumes "\<forall>inp \<in> set inps. length inp \<le> 2 ^ 31 - 4"
  shows "decode_stream inps =
    (let t = filter (\<lambda>c. \<not> is_space c) (concat inps) in EVP_DecodeBase64 (length t) t)"
proof -
  have init: "dec_ok EVP_EncodeInit" "\<not> error_encountered EVP_EncodeInit" "data_used EVP_EncodeInit = 0"
    "length (ctx_data EVP_EncodeInit) = 48" "\<not> eof_seen EVP_EncodeInit"
    by (simp_all add: dec_ok_def EVP_EncodeInit_def)
  let ?t = "filter (\<lambda>c. \<not> is_space c) (concat inps)"
  obtain ctx out ok where l: "decode_update_loop EVP_EncodeInit [] ?t = (ctx, out, ok)" by (metis prod_cases3)
  have f: "error_encountered ctx \<longleftrightarrow> \<not> ok" using decode_update_loop_laws [OF init(1) l] init(2) by simp
  have "decode_chunks EVP_EncodeInit inps = loop_result (ctx, out, ok)"
    using decode_chunks_loop [OF init(1,2) assms] decode_update_loop_filter [of EVP_EncodeInit "[]" "concat inps"] l
    by simp
  then have "decode_stream inps = Option.bind (loop_result (ctx, out, ok)) complete"
    using f by (simp add: decode_stream_def loop_result_def complete_def EVP_DecodeFinal_def)
  also have "\<dots> = (if length ?t mod 4 = 0 then decode_base64_loop ?t else None)"
    using decode_loop_one_shot [OF init(3-5), of ?t "[]"] l by (simp add: list_all_iff map_append_options)
  also have "\<dots> = EVP_DecodeBase64 (length ?t) ?t"
  proof -
    have "length ?t div 4 * 3 \<le> length ?t" by simp
    then show ?thesis by (simp only: EVP_DecodeBase64_def EVP_DecodedLength_def option.case if_not_P not_less) simp
  qed
  finally show ?thesis unfolding Let_def .
qed

section \<open>What the encoder writes, the decoder reads\<close>

lemma b64_append: "length xs = 3 * n \<Longrightarrow> b64 (xs @ ys) = b64 xs @ b64 ys"
proof (induction n arbitrary: xs)
  case (Suc n)
  then obtain a b c r where x: "xs = a # b # c # r" by (cases xs; cases "tl xs"; cases "tl (tl xs)") auto
  with Suc.prems have "length r = 3 * n" by simp
  from Suc.IH [OF this] show ?case by (simp add: x)
qed simp

lemma quad_plain: "set (quad v) \<subseteq> {c. \<not> is_space c}"
  using alphabet_plain by (auto simp: quad_def)

lemma b64_plain: "set (b64 xs) \<subseteq> {c. \<not> is_space c}"
proof (induction xs rule: b64.induct)
  case (1 a b c r)
  with quad_plain show ?case by (simp del: be_val.simps)
next
  case (2 a b)
  show ?case using quad_plain [of "be_val [a, b, 0]"] set_take_subset [of 3 "quad (be_val [a, b, 0])"]
    by (auto simp: is_space_def simp del: be_val.simps)
next
  case (3 a)
  show ?case using quad_plain [of "be_val [a, 0, 0]"] set_take_subset [of 2 "quad (be_val [a, 0, 0])"]
    by (auto simp: is_space_def simp del: be_val.simps)
qed simp

lemma filter_b64_lines: "filter (\<lambda>c. \<not> is_space c) (b64_lines xs) = b64 xs"
proof (induction xs rule: b64_lines.induct)
  case (1 xs)
  have p: "filter (\<lambda>c. \<not> is_space c) (b64 ys) = b64 ys" for ys
    using b64_plain [of ys] by (auto simp: filter_id_conv)
  have "b64 xs = b64 (take 48 xs) @ b64 (drop 48 xs)"
  proof (cases "length xs \<le> 48")
    case False
    then have "length (take 48 xs) = 3 * 16" by simp
    from b64_append [OF this, of "drop 48 xs"] show ?thesis by simp
  qed simp
  moreover have "is_space 0x0a" by (simp add: is_space_def)
  ultimately show ?case using 1 by (subst b64_lines.simps) (auto simp: p)
qed

lemma EVP_DecodeBase64_b64: "length (b64 xs) \<le> n \<Longrightarrow> EVP_DecodeBase64 n (b64 xs) = Some xs"
  by (simp add: EVP_DecodeBase64_def EVP_DecodedLength_def length_b64 decode_base64_loop_b64)

section \<open>Output sizes\<close>

lemma EVP_EncodedLength_exact:
  assumes "len < 2 ^ 64"
  shows "EVP_EncodedLength len =
    (if 4 * ((len + 2) div 3) + 1 < 2 ^ 64 then Some (4 * ((len + 2) div 3) + 1) else None)"
proof (cases "len + 2 < 2 ^ 64")
  case False
  then have "size_wrap (len + 2) = len + 2 - 2 ^ 64" using assms by (simp add: size_wrap_def le_mod_geq)
  with False assms show ?thesis by (simp add: EVP_EncodedLength_def)
next
  case True
  define k where "k = (len + 2) div 3"
  have s: "size_wrap (len + 2) = len + 2" "\<not> size_wrap (len + 2) < len" using True by simp_all
  show ?thesis
  proof (cases "k * 4 < 2 ^ 64")
    case True
    then have "k < 2 ^ 62" by simp
    then have k4: "size_wrap (k * 4) = k * 4" "k * 4 \<le> 2 ^ 64 - 4" by simp_all
    then have "size_wrap (k * 4 + 1) = k * 4 + 1" by simp
    with k4 s show ?thesis unfolding EVP_EncodedLength_def s(1) Let_def k_def [symmetric] by simp
  next
    case False
    have "size_wrap (k * 4) < 2 ^ 64" by simp
    then have "size_wrap (k * 4) div 4 < 2 ^ 62" by (simp add: div_less_iff_less_mult)
    with False have "size_wrap (k * 4) div 4 \<noteq> k" by simp
    with False s show ?thesis unfolding EVP_EncodedLength_def s(1) Let_def k_def [symmetric] by simp
  qed
qed

section \<open>Properties\<close>

text \<open>
  C11. However a caller cuts its data into calls of \<open>EVP_EncodeUpdate\<close> (each short of \<open>2\<^sup>3\<^sup>0\<close> bytes, so
  that \<open>*out_len\<close> fits an \<open>int\<close>), the bytes it collects, with those of \<open>EVP_EncodeFinal\<close>, are the same:
  the base64 of all its data, in lines of 64 characters that end in a newline.
\<close>

theorem encode_chunks_equivalent:
  assumes "\<forall>inp \<in> set inps. length inp \<le> 2 ^ 30 - 48"
  shows "encode_stream inps = b64_lines (concat inps)"
  by (rule encode_stream_lines [OF assms])

theorem encode_chunks_equivalent_witness:
  "encode_stream [replicate 30 0, [], replicate 30 1] = b64_lines (replicate 30 0 @ replicate 30 1)"
  using encode_chunks_equivalent [of "[replicate 30 0, [], replicate 30 1]"] by simp

text \<open>
  C12. The streaming decoder is equivalent to the one shot decoder: however the text is cut into calls
  of \<open>EVP_DecodeUpdate\<close>, valid or not, the calls and \<open>EVP_DecodeFinal\<close> succeed exactly when
  \<open>EVP_DecodeBase64\<close> accepts the text without its white space, and give the same bytes.
\<close>

theorem decode_chunks_equivalent:
  assumes "\<forall>inp \<in> set inps. length inp \<le> 2 ^ 31 - 4"
  shows "decode_stream inps =
    EVP_DecodeBase64 (length (filter (\<lambda>c. \<not> is_space c) (concat inps)))
      (filter (\<lambda>c. \<not> is_space c) (concat inps))"
  using decode_stream_one_shot [OF assms] by (simp only: Let_def)

theorem decode_chunks_equivalent_witness:
  "decode_stream [[0x51, 0x0a], [0x51, 0x3d, 0x20, 0x3d]] = EVP_DecodeBase64 4 [0x51, 0x51, 0x3d, 0x3d] \<and>
   decode_stream [[0x51, 0x51], [0x51]] = EVP_DecodeBase64 3 [0x51, 0x51, 0x51]"
proof -
  have t: "filter (\<lambda>c. \<not> is_space c) (concat [[0x51, 0x0a], [0x51, 0x3d, 0x20, 0x3d]]) = [0x51, 0x51, 0x3d, 0x3d]"
    "filter (\<lambda>c. \<not> is_space c) (concat [[0x51, 0x51], [0x51]]) = [0x51, 0x51, 0x51]"
    "length [0x51, 0x51, 0x3d, 0x3d :: byte] = 4" "length [0x51, 0x51, 0x51 :: byte] = 3"
    by (simp_all add: is_space_def)
  show ?thesis
    using decode_chunks_equivalent [of "[[0x51, 0x0a], [0x51, 0x3d, 0x20, 0x3d]]"]
      decode_chunks_equivalent [of "[[0x51, 0x51], [0x51]]"] unfolding t by simp
qed

text \<open>
  C13. Any data that is encoded in any chunks is decoded to itself from any chunks of the text.
\<close>

theorem base64_stream_round_trip:
  assumes "\<forall>inp \<in> set inps. length inp \<le> 2 ^ 30 - 48" and "\<forall>txt \<in> set texts. length txt \<le> 2 ^ 31 - 4"
    and "concat texts = encode_stream inps"
  shows "decode_stream texts = Some (concat inps)"
  using decode_stream_one_shot [OF assms(2)] encode_stream_lines [OF assms(1)] assms(3)
  by (simp add: filter_b64_lines EVP_DecodeBase64_b64)

theorem base64_stream_round_trip_witness:
  "decode_stream [[0x41], [0x51, 0x49, 0x44, 0x2f], [0x77, 0x3d, 0x3d, 0x0a]] = Some [1, 2, 3, 255]"
proof -
  have "b64 [1, 2, 3, 255] = [0x41, 0x51, 0x49, 0x44, 0x2f, 0x77, 0x3d, 0x3d]" by code_simp
  then have "concat [[0x41], [0x51, 0x49, 0x44, 0x2f], [0x77, 0x3d, 0x3d, 0x0a]] = encode_stream [[1, 2], [3, 255]]"
    using b64_lines_short [of "[1, 2, 3, 255]"] by (simp add: encode_stream_lines)
  from base64_stream_round_trip [OF _ _ this] show ?thesis by simp
qed

text \<open>
  \<open>EVP_EncodedLength\<close> is exact: it gives the number of bytes \<open>EVP_EncodeBlock\<close> writes, with the
  final NUL, and refuses only when that number does not fit a \<open>size_t\<close>.
\<close>

theorem encoded_length_exact:
  assumes "length src < 2 ^ 64"
  shows "EVP_EncodedLength (length src) =
    (let n = length (fst (EVP_EncodeBlock src (length src))) in if n < 2 ^ 64 then Some n else None)"
  using EVP_EncodedLength_exact [OF assms] by (simp add: EVP_EncodeBlock_eq length_b64)

text \<open>
  C14. Every call of the decoder keeps its context well formed: less than a quad is pending unless the
  call failed, \<open>error_encountered\<close> is set exactly by the calls that return \<open>-1\<close>, and no call writes
  more than three bytes for four characters, counting the characters it was given and those that were pending, less those it leaves
  pending.
\<close>

theorem decode_update_invariant:
  assumes "length (ctx_data ctx) = 48" and "data_used ctx \<le> 4" and "\<not> error_encountered ctx \<longrightarrow> data_used ctx < 4"
    and "EVP_DecodeUpdate ctx inp = (r, ctx', out, n)"
  shows "length (ctx_data ctx') = 48 \<and> data_used ctx' \<le> 4 \<and> (\<not> error_encountered ctx' \<longrightarrow> data_used ctx' < 4) \<and>
    (error_encountered ctx' \<longleftrightarrow> r = -1) \<and> n \<le> length out \<and>
    length out + data_used ctx' \<le> length inp + data_used ctx \<and>
    4 * length out + 3 * data_used ctx' \<le> 3 * (length inp + data_used ctx)"
proof (cases "error_encountered ctx")
  case True
  with assms show ?thesis by (auto simp: EVP_DecodeUpdate_def)
next
  case False
  then have ok: "dec_ok ctx" using assms(1,3) by (simp add: dec_ok_def)
  obtain ctx1 out1 b where l: "decode_update_loop ctx [] inp = (ctx1, out1, b)" by (metis prod_cases3)
  from decode_update_loop_laws [OF ok l] False assms(4) show ?thesis
    by (cases b) (auto simp: EVP_DecodeUpdate_def l dec_ok_def split: if_splits)
qed

theorem decode_update_invariant_witness:
  "\<exists>r ctx' out n. EVP_DecodeUpdate EVP_EncodeInit [0x51, 0x55, 0x46, 0x42, 0x51] = (r, ctx', out, n) \<and> data_used ctx' = 1 \<and>
     4 * length out + 3 \<le> 15"
proof -
  obtain r ctx' out n where e: "EVP_DecodeUpdate EVP_EncodeInit [0x51, 0x55, 0x46, 0x42, 0x51] = (r, ctx', out, n)"
    by (metis prod_cases4)
  have "data_used (fst (snd (EVP_DecodeUpdate EVP_EncodeInit [0x51, 0x55, 0x46, 0x42, 0x51]))) = 1" by code_simp
  then have "data_used ctx' = 1" by (simp add: e)
  with decode_update_invariant [OF _ _ _ e] e show ?thesis by (simp add: EVP_EncodeInit_def)
qed

end
