(* ===== verification/Unicode.thy ===== *)
theory Unicode
  imports Wire Cbb_Asn1 "HOL-Library.Code_Target_Numeral"
begin

text \<open>
  \<open>crypto/bytestring/unicode.c\<close>: code points read and written as UTF-8, Latin-1, UCS-2 and UTF-32.
  Each encoding is a \<open>wire_codec\<close>: the reader accepts exactly what the writer writes, and only valid
  code points.
\<close>

section \<open>Code points\<close>

definition is_valid_code_point :: "u32 \<Rightarrow> bool" where
  "is_valid_code_point v =
     (\<not> (v > 0x10ffff \<or> v AND 0xfffe = 0xfffe \<or> (v \<ge> 0xfdd0 \<and> v \<le> 0xfdef) \<or>
         (v \<ge> 0xd800 \<and> v \<le> 0xdfff)))"

definition BOTTOM_BITS :: "nat \<Rightarrow> byte" where
  "BOTTOM_BITS n = push_bit n 1 - 1"

definition TOP_BITS :: "nat \<Rightarrow> byte" where
  "TOP_BITS n = NOT (BOTTOM_BITS (8 - n))"

section \<open>Readers\<close>

text \<open>
  The classification of the first byte of a longer sequence: the bits of the value it holds, the number of
  bytes that follow and the least value such a sequence may have.
\<close>

definition utf8_lead :: "byte \<Rightarrow> (u32 \<times> nat \<times> u32) option" where
  "utf8_lead c =
     (if c AND TOP_BITS 3 = TOP_BITS 2 then Some (ucast (c AND BOTTOM_BITS 5), 1, 0x80)
      else if c AND TOP_BITS 4 = TOP_BITS 3 then Some (ucast (c AND BOTTOM_BITS 4), 2, 0x800)
      else if c AND TOP_BITS 5 = TOP_BITS 4 then Some (ucast (c AND BOTTOM_BITS 3), 3, 0x10000)
      else None)"

fun utf8_rest :: "nat \<Rightarrow> u32 \<Rightarrow> cbs \<Rightarrow> u32 option \<times> cbs" where
  "utf8_rest 0 v c = (Some v, c)"
| "utf8_rest (Suc n) v c =
     (case CBS_get_u8 c of
        (None, c1) \<Rightarrow> (None, c1)
      | (Some b, c1) \<Rightarrow>
          if b AND TOP_BITS 2 \<noteq> TOP_BITS 1 then (None, c1)
          else utf8_rest n (push_bit 6 v OR ucast (b AND BOTTOM_BITS 6)) c1)"

definition cbs_get_utf8 :: "cbs \<Rightarrow> u32 option \<times> cbs" where
  "cbs_get_utf8 cbs =
     (case CBS_get_u8 cbs of
        (None, c1) \<Rightarrow> (None, c1)
      | (Some c, c1) \<Rightarrow>
          if c \<le> 0x7f then (Some (ucast c), c1)
          else (case utf8_lead c of
                  None \<Rightarrow> (None, c1)
                | Some (v, len, lower_bound) \<Rightarrow>
                    (case utf8_rest len v c1 of
                       (None, c2) \<Rightarrow> (None, c2)
                     | (Some v, c2) \<Rightarrow>
                         if \<not> is_valid_code_point v \<or> v < lower_bound then (None, c2) else (Some v, c2))))"

definition cbs_get_latin1 :: "cbs \<Rightarrow> u32 option \<times> cbs" where
  "cbs_get_latin1 cbs =
     (case CBS_get_u8 cbs of (None, c1) \<Rightarrow> (None, c1) | (Some c, c1) \<Rightarrow> (Some (ucast c), c1))"

definition cbs_get_ucs2_be :: "cbs \<Rightarrow> u32 option \<times> cbs" where
  "cbs_get_ucs2_be cbs =
     (case CBS_get_u16 cbs of
        (None, c1) \<Rightarrow> (None, c1)
      | (Some c, c1) \<Rightarrow> if \<not> is_valid_code_point (ucast c) then (None, c1) else (Some (ucast c), c1))"

definition cbs_get_utf32_be :: "cbs \<Rightarrow> u32 option \<times> cbs" where
  "cbs_get_utf32_be cbs =
     (case CBS_get_u32 cbs of
        (None, c1) \<Rightarrow> (None, c1)
      | (Some c, c1) \<Rightarrow> if \<not> is_valid_code_point c then (None, c1) else (Some c, c1))"

section \<open>Writers\<close>

definition cbb_get_utf8_len :: "u32 \<Rightarrow> nat" where
  "cbb_get_utf8_len u = (if u \<le> 0x7f then 1 else if u \<le> 0x7ff then 2 else if u \<le> 0xffff then 3 else 4)"

text \<open>The bytes are given to \<open>CBB_add_u8\<close> one after the other, up to the first failure.\<close>

definition cbb_add_utf8 :: "allocator \<Rightarrow> nat \<Rightarrow> u32 \<Rightarrow> cbb \<Rightarrow> bool \<times> cbb" where
  "cbb_add_utf8 al d u cbb =
     (if \<not> is_valid_code_point u then (False, cbb)
      else if u \<le> 0x7f then CBB_add_u8 al d (ucast u) cbb
      else if u \<le> 0x7ff then
        write_many (CBB_add_u8 al d)
          [ucast (ucast (TOP_BITS 2) OR drop_bit 6 u),
           ucast (ucast (TOP_BITS 1) OR (u AND ucast (BOTTOM_BITS 6)))] cbb
      else if u \<le> 0xffff then
        write_many (CBB_add_u8 al d)
          [ucast (ucast (TOP_BITS 3) OR drop_bit 12 u),
           ucast (ucast (TOP_BITS 1) OR (drop_bit 6 u AND ucast (BOTTOM_BITS 6))),
           ucast (ucast (TOP_BITS 1) OR (u AND ucast (BOTTOM_BITS 6)))] cbb
      else if u \<le> 0x10ffff then
        write_many (CBB_add_u8 al d)
          [ucast (ucast (TOP_BITS 4) OR drop_bit 18 u),
           ucast (ucast (TOP_BITS 1) OR (drop_bit 12 u AND ucast (BOTTOM_BITS 6))),
           ucast (ucast (TOP_BITS 1) OR (drop_bit 6 u AND ucast (BOTTOM_BITS 6))),
           ucast (ucast (TOP_BITS 1) OR (u AND ucast (BOTTOM_BITS 6)))] cbb
      else (False, cbb))"

definition cbb_add_latin1 :: "allocator \<Rightarrow> nat \<Rightarrow> u32 \<Rightarrow> cbb \<Rightarrow> bool \<times> cbb" where
  "cbb_add_latin1 al d u cbb = (if u \<le> 0xff then CBB_add_u8 al d (ucast u) cbb else (False, cbb))"

definition cbb_add_ucs2_be :: "allocator \<Rightarrow> nat \<Rightarrow> u32 \<Rightarrow> cbb \<Rightarrow> bool \<times> cbb" where
  "cbb_add_ucs2_be al d u cbb =
     (if u \<le> 0xffff \<and> is_valid_code_point u then CBB_add_u16 al d (ucast u) cbb else (False, cbb))"

definition cbb_add_utf32_be :: "allocator \<Rightarrow> nat \<Rightarrow> u32 \<Rightarrow> cbb \<Rightarrow> bool \<times> cbb" where
  "cbb_add_utf32_be al d u cbb =
     (if is_valid_code_point u then CBB_add_u32 al d u cbb else (False, cbb))"

section \<open>UTF-8 as arithmetic\<close>

definition utf8 :: "nat \<Rightarrow> byte list" where
  "utf8 u =
     (if u < 0x80 then [byte_of u]
      else if u < 0x800 then [byte_of (192 + u div 64), byte_of (128 + u mod 64)]
      else if u < 0x10000 then
        [byte_of (224 + u div 4096), byte_of (128 + u div 64 mod 64), byte_of (128 + u mod 64)]
      else [byte_of (240 + u div 262144), byte_of (128 + u div 4096 mod 64),
            byte_of (128 + u div 64 mod 64), byte_of (128 + u mod 64)])"

lemma BOTTOM_BITS_mask: "BOTTOM_BITS n = mask n"
  by (simp add: BOTTOM_BITS_def mask_eq_exp_minus_1 push_bit_eq_mult)

lemma unat_and_top: "unat ((b :: byte) AND NOT (mask k)) = unat b div 2 ^ k * 2 ^ k"
proof -
  have "b AND NOT (mask k) = push_bit k (drop_bit k b)" by (rule bit_word_eqI) (auto simp: bit_simps)
  also have "\<dots> = word_of_nat (unat b div 2 ^ k * 2 ^ k)"
  proof -
    have "drop_bit k b = word_of_nat (unat b div 2 ^ k)" by (simp only: unat_drop_bit [symmetric] word_of_nat_unat)
    then show ?thesis by (simp add: push_bit_eq_mult)
  qed
  also have "unat \<dots> = unat b div 2 ^ k * 2 ^ k"
    by (rule unat_word_of_nat_id) (simp add: order_le_less_trans [OF div_times_less_eq_dividend])
  finally show ?thesis .
qed

lemma unat_TOP_BITS: "n \<le> 8 \<Longrightarrow> unat (TOP_BITS n) = 256 - 2 ^ (8 - n)"
proof -
  assume n: "n \<le> 8"
  have "TOP_BITS n = (- 1) AND NOT (mask (8 - n))" by (simp add: TOP_BITS_def BOTTOM_BITS_mask)
  moreover have "unat (- 1 :: byte) = 255" by (simp add: unsigned_minus_1_eq_mask mask_eq_exp_minus_1)
  ultimately have "unat (TOP_BITS n) = 255 div 2 ^ (8 - n) * 2 ^ (8 - n)" by (simp only: unat_and_top)
  also have "\<dots> = 256 - 2 ^ (8 - n)"
  proof -
    have "n = 0 \<or> n = 1 \<or> n = 2 \<or> n = 3 \<or> n = 4 \<or> n = 5 \<or> n = 6 \<or> n = 7 \<or> n = 8" using n by linarith
    then show ?thesis by (elim disjE) simp_all
  qed
  finally show ?thesis .
qed

lemma top_bits_test:
  "c AND TOP_BITS 2 = TOP_BITS 1 \<longleftrightarrow> unat c div 64 = 2"
  "c AND TOP_BITS 3 = TOP_BITS 2 \<longleftrightarrow> unat c div 32 = 6"
  "c AND TOP_BITS 4 = TOP_BITS 3 \<longleftrightarrow> unat c div 16 = 14"
  "c AND TOP_BITS 5 = TOP_BITS 4 \<longleftrightarrow> unat c div 8 = 30"
proof -
  have "c AND TOP_BITS n = TOP_BITS m \<longleftrightarrow> unat c div 2 ^ (8 - n) * 2 ^ (8 - n) = 256 - 2 ^ (8 - m)"
    if "m \<le> 8" for n m
    unfolding byte_eq_iff unat_TOP_BITS [OF that] by (simp add: TOP_BITS_def BOTTOM_BITS_mask unat_and_top)
  from this [of 1 2] this [of 2 3] this [of 3 4] this [of 4 5] show
    "c AND TOP_BITS 2 = TOP_BITS 1 \<longleftrightarrow> unat c div 64 = 2"
    "c AND TOP_BITS 3 = TOP_BITS 2 \<longleftrightarrow> unat c div 32 = 6"
    "c AND TOP_BITS 4 = TOP_BITS 3 \<longleftrightarrow> unat c div 16 = 14"
    "c AND TOP_BITS 5 = TOP_BITS 4 \<longleftrightarrow> unat c div 8 = 30" by simp_all
qed

lemma ucast_bottom: "(ucast (c AND BOTTOM_BITS k :: byte) :: u32) = word_of_nat (unat c mod 2 ^ k)"
  by (simp only: ucast_eq_word_of_nat BOTTOM_BITS_mask unat_and_mask)

lemma utf8_lead_eq:
  "utf8_lead c =
     (if unat c div 32 = 6 then Some (word_of_nat (unat c mod 32), 1, 0x80)
      else if unat c div 16 = 14 then Some (word_of_nat (unat c mod 16), 2, 0x800)
      else if unat c div 8 = 30 then Some (word_of_nat (unat c mod 8), 3, 0x10000)
      else None)"
  unfolding utf8_lead_def top_bits_test ucast_bottom by simp

lemma is_valid_code_point_le: "is_valid_code_point u \<Longrightarrow> unat u \<le> 0x10ffff"
  by (simp add: is_valid_code_point_def word_less_nat_alt not_less)

section \<open>The reader\<close>

definition cont_byte :: "byte \<Rightarrow> bool" where
  "cont_byte b \<longleftrightarrow> unat b div 64 = 2"

definition cont_val :: "nat \<Rightarrow> byte list \<Rightarrow> nat" where
  "cont_val v bs = foldl (\<lambda>v b. v * 64 + unat b mod 64) v bs"

lemma utf8_step: "push_bit 6 (word_of_nat v) OR ucast (b AND BOTTOM_BITS 6) = (word_of_nat (v * 64 + unat b mod 64) :: u32)"
  using shift_in_eq_plus [of 6 6 "unat b mod 64" "word_of_nat v :: u32"]
  by (simp add: ucast_bottom push_bit_eq_mult del: ucast_eq_word_of_nat)

lemma utf8_rest_Suc:
  "utf8_rest (Suc n) (word_of_nat v) c =
     (case CBS_get_u8 c of
        (None, c1) \<Rightarrow> (None, c1)
      | (Some b, c1) \<Rightarrow>
          if \<not> cont_byte b then (None, c1) else utf8_rest n (word_of_nat (v * 64 + unat b mod 64)) c1)"
  unfolding utf8_rest.simps top_bits_test utf8_step cont_byte_def ..

lemma cont_val_simps: "cont_val v [] = v" "cont_val v (b # bs) = cont_val (v * 64 + unat b mod 64) bs"
  by (simp_all add: cont_val_def)

lemma utf8_rest_sound:
  "\<lbrakk>cbs_ok c; utf8_rest n (word_of_nat v) c = (Some w, c')\<rbrakk> \<Longrightarrow>
     cbs_ok c' \<and> (\<exists>bs. length bs = n \<and> list_all cont_byte bs \<and> cbs_bytes c = bs @ cbs_bytes c' \<and>
       w = word_of_nat (cont_val v bs))"
proof (induction n arbitrary: v c)
  case 0
  then show ?case by (simp add: cont_val_simps)
next
  case (Suc n)
  from Suc.prems(2) obtain b c1 where g: "CBS_get_u8 c = (Some b, c1)" "cont_byte b"
    "utf8_rest n (word_of_nat (v * 64 + unat b mod 64)) c1 = (Some w, c')"
    unfolding utf8_rest_Suc by (auto split: prod.splits option.splits if_splits simp del: of_nat_add of_nat_mult)
  from CBS_get_u8_SomeD [OF Suc.prems(1) g(1)] have c1: "cbs_bytes c = b # cbs_bytes c1" "cbs_ok c1" by simp_all
  from Suc.IH [OF c1(2) g(3)] obtain bs where "length bs = n" "list_all cont_byte bs"
    "cbs_bytes c1 = bs @ cbs_bytes c'" "w = word_of_nat (cont_val (v * 64 + unat b mod 64) bs)" "cbs_ok c'" by blast
  with g(2) c1(1) show ?case by (intro conjI exI [of _ "b # bs"]) (simp_all add: cont_val_simps)
qed

lemma utf8_rest_complete:
  "\<lbrakk>cbs_ok c; list_all cont_byte bs; cbs_bytes c = bs @ rest\<rbrakk> \<Longrightarrow>
     \<exists>c'. utf8_rest (length bs) (word_of_nat v) c = (Some (word_of_nat (cont_val v bs)), c') \<and> cbs_bytes c' = rest \<and> cbs_ok c'"
proof (induction bs arbitrary: v c)
  case Nil
  then show ?case by (simp add: cont_val_simps)
next
  case (Cons b bs)
  then have g: "CBS_get_u8 c = (Some b, cbs_advance 1 c)" by (simp add: CBS_get_u8_Cons)
  have n: "cbs_bytes (cbs_advance 1 c) = bs @ rest" "cbs_ok (cbs_advance 1 c)" "cont_byte b" "list_all cont_byte bs"
    using Cons.prems by simp_all
  from Cons.IH [OF n(2,4,1)] show ?case
    unfolding list.size(4) add_Suc_right add_0_right utf8_rest_Suc g prod.case option.case if_not_P [OF not_not [THEN iffD2, OF n(3)]]
      cont_val_simps .
qed


text \<open>The arithmetic of the four forms, both ways.\<close>

lemma utf8_split:
  assumes "u < 2097152"
  shows "unat (byte_of (240 + u div 262144)) div 8 = 30" "unat (byte_of (240 + u div 262144)) mod 8 = u div 262144"
    "u < 65536 \<Longrightarrow> unat (byte_of (224 + u div 4096)) div 16 = 14 \<and> unat (byte_of (224 + u div 4096)) mod 16 = u div 4096"
    "u < 2048 \<Longrightarrow> unat (byte_of (192 + u div 64)) div 32 = 6 \<and> unat (byte_of (192 + u div 64)) mod 32 = u div 64"
    "cont_byte (byte_of (128 + n mod 64))" "unat (byte_of (128 + n mod 64)) mod 64 = n mod 64"
proof -
  have b: "unat (byte_of (240 + k)) = 240 + k" if "k < 8" for k using that by simp
  have c: "unat (byte_of (224 + k)) = 224 + k" if "k < 16" for k using that by simp
  have d: "unat (byte_of (192 + k)) = 192 + k" if "k < 32" for k using that by simp
  have e: "unat (byte_of (128 + n mod 64)) = 128 + n mod 64" by simp
  have l: "u div 262144 < 8" "u < 65536 \<Longrightarrow> u div 4096 < 16" "u < 2048 \<Longrightarrow> u div 64 < 32"
    using assms by (simp_all add: div_less_iff_less_mult)
  have f: "(q * m + k) div m = q \<and> (q * m + k) mod m = k" if "k < m" for q m k :: nat using that by simp
  have q: "(240 + k) div 8 = 30" "(240 + k) mod 8 = k" if "k < 8" for k :: nat using f [of k 8 30] that by simp_all
  have r: "(224 + k) div 16 = 14" "(224 + k) mod 16 = k" if "k < 16" for k :: nat using f [of k 16 14] that by simp_all
  have s: "(192 + k) div 32 = 6" "(192 + k) mod 32 = k" if "k < 32" for k :: nat using f [of k 32 6] that by simp_all
  have t: "(128 + k mod 64) div 64 = 2" "(128 + k mod 64) mod 64 = k mod 64" for k :: nat
    using f [of "k mod 64" 64 2] by simp_all
  show "unat (byte_of (240 + u div 262144)) div 8 = 30" "unat (byte_of (240 + u div 262144)) mod 8 = u div 262144"
    by (simp_all only: b [OF l(1)] q [OF l(1)])
  show "u < 65536 \<Longrightarrow> unat (byte_of (224 + u div 4096)) div 16 = 14 \<and> unat (byte_of (224 + u div 4096)) mod 16 = u div 4096"
    by (simp only: c [OF l(2)] r [OF l(2)])
  show "u < 2048 \<Longrightarrow> unat (byte_of (192 + u div 64)) div 32 = 6 \<and> unat (byte_of (192 + u div 64)) mod 32 = u div 64"
    by (simp only: d [OF l(3)] s [OF l(3)])
  show "cont_byte (byte_of (128 + n mod 64))" "unat (byte_of (128 + n mod 64)) mod 64 = n mod 64"
    by (simp_all only: cont_byte_def e t)
qed

lemma lead_byte: "unat (a :: byte) div m = q \<Longrightarrow> byte_of (q * m + unat a mod m) = a"
  using div_mult_mod_eq [of "unat a" m] by auto

lemma digits_64:
  fixes x :: nat
  assumes "y < 64"
  shows "(x * 64 + y) div 64 = x" "(x * 64 + y) mod 64 = y"
  using assms by simp_all

lemma utf8_join_2:
  assumes "unat a div 32 = 6" "cont_byte b" "u = unat a mod 32 * 64 + unat b mod 64" "0x80 \<le> u"
  shows "utf8 u = [a, b]"
proof -
  have "unat a mod 32 < 32" "unat b mod 64 < 64" by simp_all
  then have "u < 2048" using assms(3) by linarith
  moreover have "u div 64 = unat a mod 32" "u mod 64 = unat b mod 64" unfolding assms(3) by simp_all
  ultimately show ?thesis
    using lead_byte [OF assms(1)] lead_byte [of b 64 2] assms(2,4) by (simp add: utf8_def cont_byte_def)
qed

lemma utf8_join_3:
  assumes "unat a div 16 = 14" "cont_byte b" "cont_byte c"
    "u = (unat a mod 16 * 64 + unat b mod 64) * 64 + unat c mod 64" "0x800 \<le> u"
  shows "utf8 u = [a, b, c]"
proof -
  define p q r where "p = unat a mod 16" and "q = unat b mod 64" and "r = unat c mod 64"
  have "p < 16" "q < 64" "r < 64" by (simp_all add: p_def q_def r_def)
  moreover have "u = (p * 64 + q) * 64 + r" unfolding assms(4) p_def q_def r_def ..
  ultimately have "u < 65536" by simp
  moreover have d: "u div 64 = unat a mod 16 * 64 + unat b mod 64" "u mod 64 = unat c mod 64"
    unfolding assms(4) by (rule digits_64, simp)+
  moreover have "u div 4096 = u div 64 div 64" by (simp flip: div_mult2_eq)
  then have "u div 4096 = unat a mod 16"
    by (simp only: d digits_64(1) [of "unat b mod 64"] mod_less_divisor zero_less_numeral)
  ultimately show ?thesis
    using lead_byte [OF assms(1)] lead_byte [of b 64 2] lead_byte [of c 64 2] assms(2,3,5)
    by (simp add: utf8_def cont_byte_def)
qed

lemma utf8_join_4:
  assumes "unat a div 8 = 30" "cont_byte b" "cont_byte c" "cont_byte d"
    "u = ((unat a mod 8 * 64 + unat b mod 64) * 64 + unat c mod 64) * 64 + unat d mod 64" "0x10000 \<le> u"
  shows "utf8 u = [a, b, c, d]"
proof -
  have d: "u div 64 = (unat a mod 8 * 64 + unat b mod 64) * 64 + unat c mod 64" "u mod 64 = unat d mod 64"
    unfolding assms(5) by (rule digits_64, simp)+
  have "u div 4096 = u div 64 div 64" "u div 262144 = u div 64 div 64 div 64" by (simp_all flip: div_mult2_eq)
  then have e: "u div 4096 = unat a mod 8 * 64 + unat b mod 64" "u div 262144 = unat a mod 8"
    by (simp_all only: d digits_64(1) [of "unat c mod 64"] digits_64(1) [of "unat b mod 64"] mod_less_divisor zero_less_numeral)
  have m: "u div 64 mod 64 = unat c mod 64" unfolding d by (rule digits_64) simp
  have n: "u div 4096 mod 64 = unat b mod 64" unfolding e by (rule digits_64) simp
  show ?thesis
    using lead_byte [OF assms(1)] lead_byte [of b 64 2] lead_byte [of c 64 2] lead_byte [of d 64 2] assms(2-4,6)
    by (simp add: utf8_def cont_byte_def d(2) e(2) m n)
qed

lemma lead_ranges:
  "unat (c :: byte) div 32 = 6 \<Longrightarrow> unat c div 16 \<noteq> 14 \<and> unat c div 8 \<noteq> 30 \<and> \<not> c \<le> 0x7f"
  "unat c div 16 = 14 \<Longrightarrow> unat c div 32 \<noteq> 6 \<and> unat c div 8 \<noteq> 30 \<and> \<not> c \<le> 0x7f"
  "unat c div 8 = 30 \<Longrightarrow> unat c div 32 \<noteq> 6 \<and> unat c div 16 \<noteq> 14 \<and> \<not> c \<le> 0x7f"
proof -
  define n where "n = unat c"
  have d: "n div 16 = n div 8 div 2" "n div 32 = n div 16 div 2" by (simp_all flip: div_mult2_eq)
  have r: "c \<le> 0x7f \<longleftrightarrow> n \<le> 127" by (simp add: word_le_nat_alt n_def)
  show "unat (c :: byte) div 32 = 6 \<Longrightarrow> unat c div 16 \<noteq> 14 \<and> unat c div 8 \<noteq> 30 \<and> \<not> c \<le> 0x7f"
    "unat c div 16 = 14 \<Longrightarrow> unat c div 32 \<noteq> 6 \<and> unat c div 8 \<noteq> 30 \<and> \<not> c \<le> 0x7f"
    "unat c div 8 = 30 \<Longrightarrow> unat c div 32 \<noteq> 6 \<and> unat c div 16 \<noteq> 14 \<and> \<not> c \<le> 0x7f"
    unfolding r n_def [symmetric] by (auto simp: d) 
qed

text \<open>The bytes a code point is made of.\<close>

definition utf8_form :: "nat \<Rightarrow> byte \<Rightarrow> nat \<Rightarrow> nat \<Rightarrow> byte list \<Rightarrow> bool" where
  "utf8_form u b q lb bs \<longleftrightarrow> \<not> b \<le> 0x7f \<and> utf8_lead b = Some (word_of_nat q, length bs, word_of_nat lb) \<and>
     list_all cont_byte bs \<and> u = cont_val q bs \<and> lb \<le> u \<and> lb < 2 ^ 32 \<and> utf8 u = b # bs"

lemma utf8_forms:
  assumes "u \<le> 0x10ffff"
  shows "(\<exists>b. b \<le> 0x7f \<and> u = unat b \<and> utf8 u = [b]) \<or> (\<exists>b q lb bs. utf8_form u b q lb bs)"
proof -
  have l: "u < 2097152" using assms by simp
  note sp = utf8_split [OF l]
  have d: "u div 64 * 64 + u mod 64 = u" "u div 4096 * 64 + u div 64 mod 64 = u div 64"
    "u div 262144 * 64 + u div 4096 mod 64 = u div 4096"
    using div_mult_mod_eq [of u 64] div_mult_mod_eq [of "u div 64" 64] div_mult_mod_eq [of "u div 64 div 64" 64]
    by (simp_all flip: div_mult2_eq)
  consider "u < 0x80" | "0x80 \<le> u" "u < 0x800" | "0x800 \<le> u" "u < 0x10000" | "0x10000 \<le> u" by linarith
  then show ?thesis
  proof cases
    case 1
    then have "byte_of u \<le> 0x7f \<and> u = unat (byte_of u) \<and> utf8 u = [byte_of u]"
      by (simp add: utf8_def word_le_nat_alt)
    then show ?thesis by blast
  next
    case 2
    let ?b = "byte_of (192 + u div 64)"
    have ld: "unat ?b div 32 = 6" "unat ?b mod 32 = u div 64" using 2 sp(4) by simp_all
    have "utf8 u = [?b, byte_of (128 + u mod 64)]" using 2 by (simp add: utf8_def)
    with 2 lead_ranges(1) [OF ld(1)] have "utf8_form u ?b (u div 64) 0x80 [byte_of (128 + u mod 64)]"
      by (simp only: utf8_form_def utf8_lead_eq cont_val_simps sp(5,6) d ld list.pred_inject) simp
    then show ?thesis by blast
  next
    case 3
    let ?b = "byte_of (224 + u div 4096)"
    let ?bs = "[byte_of (128 + u div 64 mod 64), byte_of (128 + u mod 64)]"
    have ld: "unat ?b div 16 = 14" "unat ?b mod 16 = u div 4096" using 3 sp(3) by simp_all
    have "utf8 u = ?b # ?bs" using 3 by (simp add: utf8_def)
    with 3 lead_ranges(2) [OF ld(1)] have "utf8_form u ?b (u div 4096) 0x800 ?bs"
      by (simp only: utf8_form_def utf8_lead_eq cont_val_simps sp(5,6) d ld list.pred_inject) simp
    then show ?thesis by blast
  next
    case 4
    let ?b = "byte_of (240 + u div 262144)"
    let ?bs = "[byte_of (128 + u div 4096 mod 64), byte_of (128 + u div 64 mod 64), byte_of (128 + u mod 64)]"
    note ld = sp(1,2)
    have "utf8 u = ?b # ?bs" using 4 by (simp add: utf8_def)
    with 4 lead_ranges(3) [OF ld(1)] have "utf8_form u ?b (u div 262144) 0x10000 ?bs"
      by (simp only: utf8_form_def utf8_lead_eq cont_val_simps sp(5,6) d ld list.pred_inject) simp
    then show ?thesis by blast
  qed
qed

lemma cbs_get_utf8_complete:
  assumes ok: "cbs_ok c" and v: "is_valid_code_point u" and b: "cbs_bytes c = utf8 (unat u) @ rest"
  shows "\<exists>c'. cbs_get_utf8 c = (Some u, c') \<and> cbs_bytes c' = rest \<and> cbs_ok c'"
  using utf8_forms [OF is_valid_code_point_le [OF v]]
proof (elim disjE exE conjE)
  fix x assume x: "x \<le> 0x7f" "unat u = unat x" "utf8 (unat u) = [x]"
  then have "CBS_get_u8 c = (Some x, cbs_advance 1 c)" using b by (simp add: CBS_get_u8_Cons [OF ok])
  moreover have "ucast x = u" using x(2) by (simp add: word_unat_eq_iff)
  ultimately show ?thesis using x ok b by (simp add: cbs_get_utf8_def)
next
  fix x q lb bs assume f: "utf8_form (unat u) x q lb bs"
  have "utf8 (unat u) = x # bs" using f unfolding utf8_form_def by (elim conjE)
  with b have g: "CBS_get_u8 c = (Some x, cbs_advance 1 c)" by (intro CBS_get_u8_Cons [OF ok]) simp
  have r: "cbs_ok (cbs_advance 1 c)" "list_all cont_byte bs" "cbs_bytes (cbs_advance 1 c) = bs @ rest"
    using ok b f \<open>utf8 (unat u) = x # bs\<close> by (simp_all only: utf8_form_def cbs_bytes_advance cbs_ok_advance) simp_all
  from utf8_rest_complete [OF r, of q] obtain c' where
    c': "utf8_rest (length bs) (word_of_nat q) (cbs_advance 1 c) = (Some (word_of_nat (cont_val q bs)), c')"
      "cbs_bytes c' = rest" "cbs_ok c'" by blast
  have "unat u = cont_val q bs" using f by (simp add: utf8_form_def)
  then have u: "word_of_nat (cont_val q bs) = u" by (rule word_of_nat_eqI [symmetric])
  have lb: "\<not> u < word_of_nat lb"
    using f by (auto simp: utf8_form_def word_less_nat_alt unat_word_of_nat_id word_unat_eq_iff)
  show ?thesis
    using f c' u lb v g by (simp add: cbs_get_utf8_def utf8_form_def)
qed

lemma ascii_valid: "u < 128 \<Longrightarrow> is_valid_code_point (word_of_nat u)"
proof -
  have "list_all (\<lambda>n. is_valid_code_point (word_of_nat n)) [0..<128]" by code_simp
  then show "u < 128 \<Longrightarrow> is_valid_code_point (word_of_nat u)" by (simp add: list_all_iff)
qed

lemma cont_val_less: "cont_val v bs < (v + 1) * 64 ^ length bs"
proof (induction bs arbitrary: v)
  case (Cons b bs)
  have "v * 64 + unat b mod 64 + 1 \<le> (v + 1) * 64" using mod_less_divisor [of 64 "unat b"] by simp
  then have "(v * 64 + unat b mod 64 + 1) * 64 ^ length bs \<le> (v + 1) * 64 * 64 ^ length bs" by (rule mult_le_mono1)
  with Cons.IH [of "v * 64 + unat b mod 64"] have "cont_val (v * 64 + unat b mod 64) bs < (v + 1) * 64 * 64 ^ length bs"
    by (rule order_less_le_trans)
  then show ?case by (simp only: cont_val_simps list.size add_Suc_right add_0_right power_Suc mult.assoc)
qed (simp add: cont_val_simps)

lemma utf8_joined:
  assumes "utf8_lead b = Some (v, n, lb)" "length bs = n" "list_all cont_byte bs"
    and "\<not> (word_of_nat (cont_val (unat v) bs) :: u32) < lb"
  shows "cont_val (unat v) bs < 2 ^ 32" and "utf8 (cont_val (unat v) bs) = b # bs"
proof -
  let ?u = "cont_val (unat v) bs"
  have sm: "unat (word_of_nat k :: u32) = k" if "k < 32" for k using that by (intro unat_word_of_nat_id) simp
  have "?u < 2 ^ 32 \<and> utf8 ?u = b # bs"
  proof (cases "unat b div 32 = 6")
    case True
    with assms(1,2) have a: "unat v = unat b mod 32" "length bs = 1" "lb = 0x80" by (auto simp: utf8_lead_eq sm)
    then obtain x where bs: "bs = [x]" by (cases bs) auto
    have "unat b mod 32 < 32" by simp
    then have u: "?u < 2 ^ 32" using cont_val_less [of "unat v" bs] unfolding a(1,2) by simp
    then have "0x80 \<le> ?u" using assms(4) by (simp add: a(3) word_less_nat_alt unat_word_of_nat_id)
    with utf8_join_2 [OF True] u assms(3) show ?thesis by (simp add: bs cont_val_simps a(1))
  next
    case n6: False
    show ?thesis
    proof (cases "unat b div 16 = 14")
      case True
      with assms(1,2) n6 have a: "unat v = unat b mod 16" "length bs = 2" "lb = 0x800" by (auto simp: utf8_lead_eq sm)
      then obtain x y where bs: "bs = [x, y]" by (cases bs; cases "tl bs") auto
      have "unat b mod 16 < 16" by simp
      then have u: "?u < 2 ^ 32" using cont_val_less [of "unat v" bs] unfolding a(1,2) by simp
      then have "0x800 \<le> ?u" using assms(4) by (simp add: a(3) word_less_nat_alt unat_word_of_nat_id)
      with utf8_join_3 [OF True] u assms(3) show ?thesis by (simp add: bs cont_val_simps a(1))
    next
      case False
      with assms(1,2) n6 have t: "unat b div 8 = 30" by (auto simp: utf8_lead_eq split: if_splits)
      with assms(1,2) n6 False have a: "unat v = unat b mod 8" "length bs = 3" "lb = 0x10000" by (auto simp: utf8_lead_eq sm)
      then obtain x y z where bs: "bs = [x, y, z]" by (cases bs; cases "tl bs"; cases "tl (tl bs)") auto
      have "unat b mod 8 < 8" by simp
      then have u: "?u < 2 ^ 32" using cont_val_less [of "unat v" bs] unfolding a(1,2) by simp
      then have "0x10000 \<le> ?u" using assms(4) by (simp add: a(3) word_less_nat_alt unat_word_of_nat_id)
      with utf8_join_4 [OF t] u assms(3) show ?thesis by (simp add: bs cont_val_simps a(1))
    qed
  qed
  then show "cont_val (unat v) bs < 2 ^ 32" "utf8 (cont_val (unat v) bs) = b # bs" by simp_all
qed

lemma cbs_get_utf8_sound:
  assumes ok: "cbs_ok c" and g: "cbs_get_utf8 c = (Some u, c')"
  shows "cbs_ok c' \<and> is_valid_code_point u \<and> cbs_bytes c = utf8 (unat u) @ cbs_bytes c'"
proof -
  from g obtain b c1 where b: "CBS_get_u8 c = (Some b, c1)"
    by (auto simp: cbs_get_utf8_def split: prod.splits option.splits)
  from CBS_get_u8_SomeD [OF ok b] have c1: "cbs_bytes c = b # cbs_bytes c1" "cbs_ok c1" by simp_all
  show ?thesis
  proof (cases "b \<le> 0x7f")
    case True
    with g b have e: "u = ucast b" "c' = c1" by (simp_all add: cbs_get_utf8_def)
    have u: "unat u = unat b" "unat u < 128" using True by (simp_all add: e word_le_nat_alt)
    have "is_valid_code_point u" using ascii_valid [OF u(2)] by simp
    with u c1 e show ?thesis by (simp add: utf8_def)
  next
    case False
    with g b obtain v n lb where l: "utf8_lead b = Some (v, n, lb)"
      by (auto simp: cbs_get_utf8_def split: option.splits)
    from g b False l have r: "utf8_rest n v c1 = (Some u, c')" "is_valid_code_point u" "\<not> u < lb"
      by (auto simp: cbs_get_utf8_def split: prod.splits option.splits if_splits)
    have "utf8_rest n (word_of_nat (unat v)) c1 = (Some u, c')" using r(1) by simp
    from utf8_rest_sound [OF c1(2) this] obtain bs where s: "cbs_ok c'" "length bs = n" "list_all cont_byte bs"
      "cbs_bytes c1 = bs @ cbs_bytes c'" "u = word_of_nat (cont_val (unat v) bs)" by blast
    from utf8_joined [OF l s(2,3)] r(3) s(5) have "cont_val (unat v) bs < 2 ^ 32" "utf8 (cont_val (unat v) bs) = b # bs"
      by simp_all
    then have "utf8 (unat u) = b # bs" by (simp add: s(5) unat_word_of_nat_id)
    with r(2) s(1,4) c1(1) show ?thesis by simp
  qed
qed


section \<open>The writers\<close>

lemma top_or:
  assumes "x < 2 ^ k" "k \<le> 8"
  shows "ucast (ucast (TOP_BITS (8 - k)) OR word_of_nat x :: u32) = byte_of (256 - 2 ^ k + x)"
proof -
  have "(ucast (TOP_BITS (8 - k)) :: u32) = word_of_nat (256 - 2 ^ k)"
    using assms(2) by (simp only: ucast_eq_word_of_nat unat_TOP_BITS diff_le_self diff_diff_cancel)
  also have "(256 :: nat) - 2 ^ k = (2 ^ (8 - k) - 1) * 2 ^ k"
    using assms(2) by (simp add: diff_mult_distrib flip: power_add)
  also have "word_of_nat \<dots> = push_bit k (word_of_nat (2 ^ (8 - k) - 1) :: u32)"
    by (simp only: push_bit_eq_mult of_nat_mult of_nat_power of_nat_numeral)
  finally have "ucast (TOP_BITS (8 - k)) OR word_of_nat x = (ucast (TOP_BITS (8 - k)) + word_of_nat x :: u32)"
    using shift_in_eq_plus [OF order_refl assms(1), of "word_of_nat (2 ^ (8 - k) - 1) :: u32"] by (simp only:)
  also have "\<dots> = word_of_nat (256 - 2 ^ k + x)"
    using assms(2) by (simp only: ucast_eq_word_of_nat unat_TOP_BITS diff_le_self diff_diff_cancel of_nat_add)
  finally have "ucast (TOP_BITS (8 - k)) OR word_of_nat x = (word_of_nat (256 - 2 ^ k + x) :: u32)" .
  moreover have "(ucast (word_of_nat n :: u32) :: byte) = byte_of n" for n
    unfolding byte_of_def by (rule ucast_word_of_nat) simp
  ultimately show ?thesis by (simp only:)
qed

lemma lead_or:
  "unat u div 2 ^ s < 2 ^ k \<Longrightarrow> k \<le> 8 \<Longrightarrow>
     ucast (ucast (TOP_BITS (8 - k)) OR drop_bit s (u :: u32)) = byte_of (256 - 2 ^ k + unat u div 2 ^ s)"
proof -
  have "drop_bit s u = word_of_nat (unat u div 2 ^ s)" by (rule word_of_nat_eqI) (rule unat_drop_bit)
  then show "unat u div 2 ^ s < 2 ^ k \<Longrightarrow> k \<le> 8 \<Longrightarrow> ?thesis" by (simp only: top_or)
qed

lemma cont_or:
  "ucast (ucast (TOP_BITS 1) OR (w AND ucast (BOTTOM_BITS 6)) :: u32) = byte_of (128 + unat w mod 64)"
proof -
  have "(ucast (BOTTOM_BITS 6) :: u32) = mask 6" by (simp add: BOTTOM_BITS_def mask_eq_exp_minus_1)
  then have "w AND ucast (BOTTOM_BITS 6) = word_of_nat (unat w mod 2 ^ 6)"
    using unat_and_mask [of w 6] by (metis word_of_nat_eqI)
  moreover have "unat w mod 2 ^ 6 < (2 ^ 7 :: nat)" by (rule order_less_trans [of _ "2 ^ 6"]) simp_all
  ultimately show ?thesis using top_or [of "unat w mod 2 ^ 6" 7] by simp
qed

lemma utf8_lead_bytes:
  "unat (u :: u32) < 0x800 \<Longrightarrow> ucast (ucast (TOP_BITS 2) OR drop_bit 6 u) = byte_of (192 + unat u div 64)"
  "unat u < 0x10000 \<Longrightarrow> ucast (ucast (TOP_BITS 3) OR drop_bit 12 u) = byte_of (224 + unat u div 4096)"
  "unat u < 0x400000 \<Longrightarrow> ucast (ucast (TOP_BITS 4) OR drop_bit 18 u) = byte_of (240 + unat u div 262144)"
proof -
  have "unat u < 0x800 \<Longrightarrow> unat u div 2 ^ 6 < 2 ^ 6" "unat u < 0x10000 \<Longrightarrow> unat u div 2 ^ 12 < 2 ^ 5"
    "unat u < 0x400000 \<Longrightarrow> unat u div 2 ^ 18 < 2 ^ 4" by (simp_all add: div_less_iff_less_mult)
  then show
    "unat u < 0x800 \<Longrightarrow> ucast (ucast (TOP_BITS 2) OR drop_bit 6 u) = byte_of (192 + unat u div 64)"
    "unat u < 0x10000 \<Longrightarrow> ucast (ucast (TOP_BITS 3) OR drop_bit 12 u) = byte_of (224 + unat u div 4096)"
    "unat u < 0x400000 \<Longrightarrow> ucast (ucast (TOP_BITS 4) OR drop_bit 18 u) = byte_of (240 + unat u div 262144)"
    using lead_or [of u 6 6] lead_or [of u 12 5] lead_or [of u 18 4] by simp_all
qed

lemma cbb_add_utf8_eq:
  assumes "is_valid_code_point u"
  shows "cbb_add_utf8 al d u c = write_many (CBB_add_u8 al d) (utf8 (unat u)) c"
proof -
  have le: "unat u \<le> 0x10ffff" by (rule is_valid_code_point_le [OF assms])
  then have l: "unat u < 0x400000" by simp
  have one: "CBB_add_u8 al d b c = write_many (CBB_add_u8 al d) [b] c" for b by (simp split: prod.split bool.split)
  have b: "ucast u = byte_of (unat u)" by (simp only: ucast_eq_word_of_nat byte_of_def)
  have c: "u \<le> 0x7f \<longleftrightarrow> unat u < 0x80" "u \<le> 0x7ff \<longleftrightarrow> unat u < 0x800" "u \<le> 0xffff \<longleftrightarrow> unat u < 0x10000"
    "u \<le> 0x10ffff" using le by (auto simp: word_le_nat_alt)
  consider "unat u < 0x80" | "\<not> unat u < 0x80" "unat u < 0x800"
    | "\<not> unat u < 0x80" "\<not> unat u < 0x800" "unat u < 0x10000"
    | "\<not> unat u < 0x80" "\<not> unat u < 0x800" "\<not> unat u < 0x10000" by linarith
  then show ?thesis
  proof cases
    case 1
    then show ?thesis by (simp only: cbb_add_utf8_def assms c b one utf8_def if_True if_False not_True_eq_False)
  next
    case 2
    then show ?thesis by (simp only: cbb_add_utf8_def assms c cont_or utf8_lead_bytes utf8_def if_True if_False not_True_eq_False)
  next
    case 3
    then show ?thesis by (simp only: cbb_add_utf8_def assms c cont_or utf8_lead_bytes utf8_def if_True if_False
          not_True_eq_False unat_drop_bit) simp
  next
    case 4
    then show ?thesis by (simp only: cbb_add_utf8_def assms c cont_or utf8_lead_bytes(3) [OF l] utf8_def if_True if_False
          not_True_eq_False unat_drop_bit) simp
  qed
qed

lemma utf8_ne: "utf8 u \<noteq> []"
  by (simp add: utf8_def)

lemma length_utf8: "unat u \<le> 0x10ffff \<Longrightarrow> length (utf8 (unat u)) = cbb_get_utf8_len u"
  by (simp add: utf8_def cbb_get_utf8_len_def word_le_nat_alt)

section \<open>Each encoding is a codec\<close>

interpretation wire_utf8: wire_codec cbs_get_utf8 "\<lambda>u bs. is_valid_code_point u \<and> bs = (\<lambda>u. utf8 (unat u)) u"
  is_valid_code_point "\<lambda>u. utf8 (unat u)" cbb_add_utf8 is_valid_code_point
proof (unfold_locales, goal_cases)
  case (3 s a s')
  then show ?case using cbs_get_utf8_sound by blast
next
  case (4 s a bs rest)
  then show ?case using cbs_get_utf8_complete by blast
qed (use cbs_get_utf8_sound write_bytes_writes [OF _ _ utf8_ne] in \<open>auto simp: cbb_add_utf8_eq\<close>)


lemma ucast_eq_iff:
  "(ucast (b :: byte) :: u32) = u \<longleftrightarrow> unat b = unat u" "(ucast (h :: u16) :: u32) = u \<longleftrightarrow> unat h = unat u"
  by (simp_all add: word_unat_eq_iff unat_ucast_up)

lemma unat_narrow:
  "unat (u :: u32) < 256 \<Longrightarrow> unat (ucast u :: byte) = unat u" "unat u < 65536 \<Longrightarrow> unat (ucast u :: u16) = unat u"
  by (simp_all add: unsigned_ucast_eq take_bit_nat_eq_self)

interpretation wire_latin1: wire_codec cbs_get_latin1
  "\<lambda>u bs. (\<lambda>u. unat u < 256) u \<and> bs = (\<lambda>u. be_bytes 1 (unat u)) u"
  "\<lambda>u. unat u < 256" "\<lambda>u. be_bytes 1 (unat u)" cbb_add_latin1 "\<lambda>u. unat u < 256"
proof (unfold_locales, goal_cases)
  case (3 s u s')
  then obtain b where "CBS_get_u8 s = (Some b, s')" "u = ucast b"
    by (auto simp: cbs_get_latin1_def split: prod.splits option.splits)
  with get_u8.canonical [OF 3(1)] show ?case by fastforce
next
  case (4 s u bs rest)
  then have "cbs_bytes s = be_bytes 1 (unat (ucast u :: byte)) @ rest" by (simp add: unat_narrow)
  from get_u8.round_trip [OF 4(1) TrueI this] 4(2) show ?case
    by (auto simp: cbs_get_latin1_def ucast_eq_iff unat_narrow)
next
  case (6 al c u d ok c1)
  then have "u \<le> 0xff" by (simp add: word_le_nat_alt)
  with 6 add_u8.wr_writes [OF 6(1,2) TrueI, of d "ucast u"] show ?case
    by (simp add: cbb_add_latin1_def unat_narrow)
qed simp_all

interpretation wire_ucs2: wire_codec cbs_get_ucs2_be
  "\<lambda>u bs. (\<lambda>u. unat u < 65536 \<and> is_valid_code_point u) u \<and> bs = (\<lambda>u. be_bytes 2 (unat u)) u"
  "\<lambda>u. unat u < 65536 \<and> is_valid_code_point u" "\<lambda>u. be_bytes 2 (unat u)"
  cbb_add_ucs2_be "\<lambda>u. unat u < 65536 \<and> is_valid_code_point u"
proof (unfold_locales, goal_cases)
  case (3 s u s')
  then obtain b where b: "CBS_get_u16 s = (Some b, s')" "u = ucast b" "is_valid_code_point u"
    by (auto simp: cbs_get_ucs2_be_def split: prod.splits option.splits if_splits)
  have "unat b < 2 ^ LENGTH(16)" by (rule unsigned_less)
  with get_u16.canonical [OF 3(1) b(1)] b(2,3) show ?case by (simp add: unat_ucast_up)
next
  case (4 s u bs rest)
  then have "cbs_bytes s = be_bytes 2 (unat (ucast u :: u16)) @ rest" by (simp add: unat_narrow)
  moreover have "(ucast (ucast u :: u16) :: u32) = u" using 4(2) by (simp add: ucast_eq_iff unat_narrow)
  ultimately show ?case
    using get_u16.round_trip [OF 4(1) TrueI, of "ucast u"] 4(2) by (auto simp: cbs_get_ucs2_be_def)
next
  case (6 al c u d ok c1)
  then have "u \<le> 0xffff" by (simp add: word_le_nat_alt)
  with 6 add_u16.wr_writes [OF 6(1,2) TrueI, of d "ucast u"] show ?case
    by (simp add: cbb_add_ucs2_be_def unat_narrow)
qed simp_all

interpretation wire_utf32: wire_codec cbs_get_utf32_be
  "\<lambda>u bs. is_valid_code_point u \<and> bs = (\<lambda>u. be_bytes 4 (unat u)) u"
  is_valid_code_point "\<lambda>u. be_bytes 4 (unat u)" cbb_add_utf32_be is_valid_code_point
proof (unfold_locales, goal_cases)
  case (3 s u s')
  then have "CBS_get_u32 s = (Some u, s')" "is_valid_code_point u"
    by (auto simp: cbs_get_utf32_be_def split: prod.splits option.splits if_splits)
  with get_u32.canonical [OF 3(1)] show ?case by simp
next
  case (4 s u bs rest)
  then have "cbs_bytes s = be_bytes 4 (unat u) @ rest" by simp
  from get_u32.round_trip [OF 4(1) TrueI this] 4(2) show ?case by (auto simp: cbs_get_utf32_be_def)
next
  case (6 al c u d ok c1)
  with add_u32.wr_writes [OF 6(1,2) TrueI, of d u] show ?case by (simp add: cbb_add_utf32_be_def)
qed simp_all

section \<open>Properties\<close>

text \<open>
  C15. \<open>cbs_get_utf8\<close> is exact: it returns a code point if and only if the input starts with the shortest
  UTF-8 form of that code point, and the code point is a valid one (no surrogates, no reserved values,
  nothing above \<open>0x10ffff\<close>); then it leaves what follows.
\<close>

theorem utf8_reader_exact:
  assumes "cbs_ok c"
  shows "(\<exists>c'. cbs_get_utf8 c = (Some u, c') \<and> cbs_bytes c' = rest) \<longleftrightarrow>
    is_valid_code_point u \<and> cbs_bytes c = utf8 (unat u) @ rest"
  using wire_utf8.r.round_trip [OF assms, of u rest] wire_utf8.r.canonical [OF assms, of u] by auto

theorem utf8_reader_exact_witness:
  "\<exists>c'. cbs_get_utf8 (CBS_init [0xe2, 0x82, 0xac, 0x21] 4) = (Some 0x20ac, c') \<and> cbs_bytes c' = [0x21]"
  by (subst utf8_reader_exact) code_simp+

text \<open>
  Text written code point by code point in one of the four encodings is read back from the finished
  buffer; here UTF-8, whose length is the sum of \<open>cbb_get_utf8_len\<close>.
\<close>

theorem utf8_build_parse:
  assumes "good_alloc al" and "cbb_wf c" and "cbb_written 0 c = Some []" and "us \<noteq> []"
    and "\<forall>u \<in> set us. is_valid_code_point u"
    and "write_many (cbb_add_utf8 al 0) us c = (True, c1)"
    and "CBB_finish al 0 outs c1 = (Some (blk, n), c2)"
  shows "(\<exists>s. read_many cbs_get_utf8 (length us) (CBS_init blk n) = (Some us, s) \<and> cbs_bytes s = []) \<and>
    n = sum_list (map cbb_get_utf8_len us)"
proof -
  note f = wire_utf8.written_finish [OF assms]
  have "length (take n blk) = sum_list (map cbb_get_utf8_len us)"
    unfolding f(1) length_concat map_map comp_def using assms(5)
    by (metis (no_types, lifting) is_valid_code_point_le length_utf8 map_cong)
  with f(2) show ?thesis using wire_utf8.build_parse [OF assms] by simp
qed


definition utf8_start :: cbb where
  "utf8_start = \<lparr>base = Some \<lparr>buf = [0, 0, 0, 0], blen = 0, cap = 4, can_resize = False, err = False\<rparr>, children = []\<rparr>"

end
