(* ===== verification/Ber.thy ===== *)
theory Ber
  imports Der_Parse Cbb_Asn1 "HOL-Library.Code_Target_Numeral"
begin

text \<open>
  \<open>crypto/bytestring/ber.c\<close>: the search for BER, the conversion of BER to DER, and strings that BER may
  cut into fragments; and \<open>CBB_finish_i2d\<close> of \<open>asn1_compat.c\<close>.  The recursion of the converter is
  nested (the input an inner call leaves is what the loop goes on with), so its termination rests on a
  proof that no call lengthens the input.
\<close>

section \<open>The search\<close>

definition kMaxDepth :: nat where "kMaxDepth = 2048"

definition CBS_ASN1_STRINGS :: "u32 list" where
  "CBS_ASN1_STRINGS = [0x4, 0xc, 0x12, 0x13, 0x14, 0x15, 0x16, 0x19, 0x1a, 0x1b, 0x1c, 0x1e]"

definition is_string_type :: "u32 \<Rightarrow> bool" where
  "is_string_type tag \<longleftrightarrow> tag AND NOT CBS_ASN1_CONSTRUCTED \<in> set CBS_ASN1_STRINGS"

text \<open>An identifier is short: a number that fits 64 bits has at most ten bytes.\<close>

lemma CBS_get_u8_len: "CBS_get_u8 c = (Some b, c1) \<Longrightarrow> cbs_len c = Suc (cbs_len c1)"
  by (auto simp: CBS_get_u8_def cbs_get_def split: if_splits)

lemma base128_loop_short:
  assumes "parse_base128_loop w c = (Some v, c1)" and "128 ^ k \<le> unat w" and "k \<le> 9"
  shows "cbs_len c \<le> cbs_len c1 + 9 - k"
  using assms
proof (induction w c arbitrary: k rule: parse_base128_loop.induct)
  case (1 w c)
  obtain b c0 where g: "CBS_get_u8 c = (Some b, c0)"
    using "1.prems"(1) by (cases "CBS_get_u8 c"; cases "fst (CBS_get_u8 c)") (auto simp: parse_base128_loop.simps [of w c])
  let ?w = "push_bit 7 w OR ucast (b AND 0x7f) :: u64"
  from "1.prems"(1) g have d: "drop_bit (64 - 7) w = 0" "\<not> (w = 0 \<and> b = 0x80)"
    and r: "(if b AND 0x80 \<noteq> 0 then parse_base128_loop ?w c0 else (Some ?w, c0)) = (Some v, c1)"
    by (auto simp: parse_base128_loop.simps [of w c] Let_def split: if_splits)
  from d(1) have w: "unat w < 2 ^ 57" by (simp add: drop_bit_eq_0_iff)
  have "k < 9"
  proof (rule ccontr)
    assume "\<not> k < 9"
    with "1.prems"(2,3) have "128 ^ 9 \<le> unat w" by simp
    with w show False by simp
  qed
  have le: "128 ^ Suc k \<le> unat ?w"
    using unat_base128_step [OF w, of b] "1.prems"(2) by simp
  show ?case
  proof (cases "b AND 0x80 = 0")
    case True
    with r CBS_get_u8_len [OF g] \<open>k < 9\<close> show ?thesis by simp
  next
    case False
    with r have "parse_base128_loop ?w c0 = (Some v, c1)" by simp
    from "1.IH" [OF g [symmetric] refl _ d(2) refl False this le] d(1) \<open>k < 9\<close> CBS_get_u8_len [OF g]
    show ?thesis by simp
  qed
qed

lemma base128_short:
  assumes "parse_base128_integer c = (Some v, c1)"
  shows "cbs_len c \<le> cbs_len c1 + 10"
proof -
  from assms have l: "parse_base128_loop 0 c = (Some v, c1)" by (simp add: parse_base128_integer_def)
  then obtain b c0 where g: "CBS_get_u8 c = (Some b, c0)"
    by (cases "CBS_get_u8 c"; cases "fst (CBS_get_u8 c)") (auto simp: parse_base128_loop.simps [of 0 c])
  let ?w = "push_bit 7 0 OR ucast (b AND 0x7f) :: u64"
  show ?thesis
  proof (cases "b AND 0x80 = 0")
    case True
    with l g CBS_get_u8_len [OF g] show ?thesis
      by (auto simp: parse_base128_loop.simps [of 0 c] Let_def split: if_splits)
  next
    case False
    with l g have r: "b \<noteq> 0x80" "parse_base128_loop ?w c0 = (Some v, c1)"
      by (auto simp: parse_base128_loop.simps [of 0 c] Let_def split: if_splits)
    have "128 \<le> unat b" using False by (simp add: byte_high_bit)
    then have "?w \<noteq> 0" using r(1) unat_base128_step [of 0 b] by (intro base128_step_nonzero [of b 0]) auto
    then have "128 ^ 0 \<le> unat ?w" by (simp only: power_0) (metis One_nat_def Suc_leI unat_gt_0)
    from base128_loop_short [OF r(2) this] CBS_get_u8_len [OF g] show ?thesis by simp
  qed
qed

lemma parse_asn1_tag_short:
  assumes "parse_asn1_tag c = (Some tag, h)"
  shows "cbs_len c \<le> cbs_len h + 11"
proof -
  from assms obtain t c1 where g: "CBS_get_u8 c = (Some t, c1)"
    by (auto simp: parse_asn1_tag_def split: prod.splits option.splits)
  have "h = c1 \<or> (\<exists>v. parse_base128_integer c1 = (Some v, h))"
    using assms g by (auto simp: parse_asn1_tag_def Let_def split: prod.splits option.splits if_splits)
  with CBS_get_u8_len [OF g] base128_short show ?thesis by fastforce
qed

lemma asn1_finish_D:
  assumes "asn1_finish c tag hl n ber = (Some e, c1)"
  shows "n \<le> cbs_len c" "cbs_len c1 = cbs_len c - n" "cbs_len (el_out e) = n" "el_header_len e = hl"
  using assms by (auto simp: asn1_finish_def CBS_get_bytes_eq split: if_splits)

lemma ber_element_shorter:
  assumes "CBS_get_any_ber_asn1_element c = (Some e, c1)"
  shows "cbs_len c1 < cbs_len c" and "cbs_len (el_out e) \<le> cbs_len c" and "0 < el_header_len e"
    and "cbs_len (el_out e) < 2 ^ 64"
proof -
  from assms obtain tag h1 lb h2 where t: "parse_asn1_tag c = (Some tag, h1)" and g: "CBS_get_u8 h1 = (Some lb, h2)"
    by (auto simp: CBS_get_any_ber_asn1_element_def cbs_get_any_asn1_element_def split: prod.splits option.splits)
  define hl where "hl = CBS_len c - CBS_len h2"
  have hl: "0 < hl" "hl \<le> 12"
    using parse_asn1_tag_shorter [OF t] parse_asn1_tag_short [OF t] CBS_get_u8_len [OF g]
    by (simp_all add: hl_def CBS_len_def)
  have "\<exists>n ber hl'. 0 < n \<and> n < 2 ^ 64 \<and> 0 < hl' \<and> asn1_finish c tag hl' n ber = (Some e, c1)"
  proof (cases "lb AND 0x80 = 0")
    case True
    with assms t g have "asn1_finish c tag hl (unat lb + hl) False = (Some e, c1)"
      by (simp add: CBS_get_any_ber_asn1_element_def cbs_get_any_asn1_element_def Let_def hl_def)
    with hl unat_byte_less [of lb] show ?thesis
      by (intro exI [of _ "unat lb + hl"] exI [of _ False] exI [of _ hl]) (simp del: unat_byte_less)
  next
    case False
    define nb where "nb = unat (lb AND 0x7f)"
    show ?thesis
    proof (cases "tag AND CBS_ASN1_CONSTRUCTED \<noteq> 0 \<and> nb = 0")
      case True
      with False assms t g have "asn1_finish c tag hl hl True = (Some e, c1)"
        by (simp add: CBS_get_any_ber_asn1_element_def cbs_get_any_asn1_element_def Let_def hl_def nb_def)
      with hl show ?thesis by (intro exI [of _ hl] exI [of _ True]) simp
    next
      case indef: False
      with False assms t g obtain len64 :: u64 and ber where l: "nb \<le> 4"
        "\<not> size_wrap (unat len64 + hl + nb) < unat len64"
        "asn1_finish c tag (hl + nb) (size_wrap (unat len64 + hl + nb)) ber = (Some e, c1)"
        by (auto simp: CBS_get_any_ber_asn1_element_def cbs_get_any_asn1_element_def Let_def hl_def nb_def
            split: prod.splits option.splits if_splits)
      have "0 < size_wrap (unat len64 + hl + nb)"
      proof (cases "unat len64 = 0")
        case True
        with hl l(1) show ?thesis by simp
      next
        case False
        with l(2) show ?thesis by linarith
      qed
      with l(3) hl show ?thesis by (intro exI conjI) auto
    qed
  qed
  then obtain n ber hl' where f: "0 < n" "0 < hl'" "asn1_finish c tag hl' n ber = (Some e, c1)" "n < 2 ^ 64" by blast
  from asn1_finish_D [OF f(3)] f(1,2,4)
  show "cbs_len c1 < cbs_len c" "cbs_len (el_out e) \<le> cbs_len c" "0 < el_header_len e" "cbs_len (el_out e) < 2 ^ 64"
    by simp_all
qed

text \<open>
  \<open>cbs_find_ber\<close> and its loop, with \<open>*ber_found\<close> as the loop's state; \<open>None\<close> is the return value 0.
\<close>

function cbs_find_ber :: "nat \<Rightarrow> cbs \<Rightarrow> bool option"
  and find_ber_loop :: "nat \<Rightarrow> bool \<Rightarrow> cbs \<Rightarrow> bool option" where
  "cbs_find_ber depth orig_in =
     (if depth > kMaxDepth then None
      else find_ber_loop depth False (CBS_init (CBS_data orig_in) (CBS_len orig_in)))"
| "find_ber_loop depth ber_found inp =
     (if CBS_len inp = 0 then Some ber_found
      else case CBS_get_any_ber_asn1_element inp of
        (None, _) \<Rightarrow> None
      | (Some e, in1) \<Rightarrow>
          if el_ber_found e then Some True
          else if el_tag e AND CBS_ASN1_CONSTRUCTED \<noteq> 0 then
            if is_string_type (el_tag e) then Some True
            else (case CBS_skip (el_header_len e) (el_out e) of
                    (False, _) \<Rightarrow> None
                  | (True, contents) \<Rightarrow>
                      (case cbs_find_ber (depth + 1) contents of
                         None \<Rightarrow> None
                       | Some ber_found1 \<Rightarrow> find_ber_loop depth ber_found1 in1))
          else find_ber_loop depth False in1)"
  by pat_completeness auto

lemma skip_header_shorter:
  assumes "CBS_get_any_ber_asn1_element c = (Some e, c1)" and "CBS_skip (el_header_len e) (el_out e) = (True, out)"
  shows "cbs_len out < cbs_len c"
  using ber_element_shorter [OF assms(1)] assms(2) by (auto simp: CBS_skip_eq split: if_splits)

termination cbs_find_ber
  by (relation "measure (\<lambda>x. case x of Inl (_, c) \<Rightarrow> 2 * cbs_len c + 1 | Inr (_, _, c) \<Rightarrow> 2 * cbs_len c)")
    (fastforce dest: ber_element_shorter(1) [OF sym] skip_header_shorter [OF sym sym] simp: CBS_len_def)+

declare cbs_find_ber.simps [simp del] find_ber_loop.simps [simp del]

section \<open>The conversion\<close>

definition is_eoc :: "nat \<Rightarrow> cbs \<Rightarrow> bool" where
  "is_eoc header_len contents \<longleftrightarrow>
     header_len = 2 \<and> CBS_len contents = 2 \<and> take 2 (CBS_data contents) = [0, 0]"

text \<open>
  Where the contents of an element go: into \<open>out\<close> itself for a fragment of a string, otherwise into a
  new child.  The results are the string tag for the children, the depth of \<open>out_contents\<close>, and the
  builder.
\<close>

definition convert_open :: "allocator \<Rightarrow> u32 \<Rightarrow> u32 \<Rightarrow> nat \<Rightarrow> cbb \<Rightarrow> (u32 \<times> nat) option \<times> cbb" where
  "convert_open al string_tag tag d out =
     (if string_tag \<noteq> 0 then
        (if tag AND NOT CBS_ASN1_CONSTRUCTED \<noteq> string_tag then (None, out) else (Some (string_tag, d), out))
      else
        let constructed_string = (tag AND CBS_ASN1_CONSTRUCTED \<noteq> 0 \<and> is_string_type tag);
            out_tag = (if constructed_string then tag AND NOT CBS_ASN1_CONSTRUCTED else tag);
            child_string_tag = (if constructed_string then out_tag else string_tag)
        in (case CBB_add_asn1 al d out_tag out of
              (False, out1) \<Rightarrow> (None, out1)
            | (True, out1) \<Rightarrow> (Some (child_string_tag, Suc d), out1)))"

definition indefinite :: "asn1_element \<Rightarrow> bool" where
  "indefinite e \<longleftrightarrow> CBS_len (el_out e) = el_header_len e \<and> el_header_len e > 0 \<and>
     CBS_data (el_out e) ! (el_header_len e - 1) = 0x80"

function cbs_convert_ber :: "allocator \<Rightarrow> u32 \<Rightarrow> bool \<Rightarrow> nat \<Rightarrow> nat \<Rightarrow> cbs \<Rightarrow> cbb \<Rightarrow> bool \<times> cbs \<times> cbb" where
  "cbs_convert_ber al string_tag looking_for_eoc depth d inp out =
     (if depth > kMaxDepth then (False, inp, out)
      else if CBS_len inp = 0 then (\<not> looking_for_eoc, inp, out)
      else case CBS_get_any_ber_asn1_element inp of
        (None, in1) \<Rightarrow> (False, in1, out)
      | (Some e, in1) \<Rightarrow>
          if is_eoc (el_header_len e) (el_out e) then (looking_for_eoc, in1, out)
          else (case convert_open al string_tag (el_tag e) d out of
            (None, out1) \<Rightarrow> (False, in1, out1)
          | (Some (child_string_tag, d1), out1) \<Rightarrow>
              (case (if indefinite e then cbs_convert_ber al child_string_tag True (depth + 1) d1 in1 out1
                     else (case CBS_skip (el_header_len e) (el_out e) of
                       (False, _) \<Rightarrow> (False, in1, out1)
                     | (True, contents) \<Rightarrow>
                         if el_tag e AND CBS_ASN1_CONSTRUCTED \<noteq> 0 then
                           (case cbs_convert_ber al child_string_tag False (depth + 1) d1 contents out1 of
                              (ok, _, out2) \<Rightarrow> (ok, in1, out2))
                         else
                           (case CBB_add_bytes al d1 (take (CBS_len contents) (CBS_data contents)) out1 of
                              (ok, out2) \<Rightarrow> (ok, in1, out2)))) of
                 (False, in2, out2) \<Rightarrow> (False, in2, out2)
               | (True, in2, out2) \<Rightarrow>
                   (case CBB_flush al d out2 of
                      (False, out3) \<Rightarrow> (False, in2, out3)
                    | (True, out3) \<Rightarrow> cbs_convert_ber al string_tag looking_for_eoc depth d in2 out3))))"
  by pat_completeness auto

text \<open>No call leaves more input than it was given, so the nested recursion ends.\<close>

lemma get_ber_None: "CBS_get_any_ber_asn1_element c = (None, c1) \<Longrightarrow> cbs_len c1 \<le> cbs_len c"
  by (auto simp: CBS_get_any_ber_asn1_element_def cbs_get_any_asn1_element_def asn1_finish_def CBS_get_bytes_eq Let_def
      split: prod.splits option.splits if_splits)

lemma cbs_convert_ber_shorter:
  assumes "cbs_convert_ber_dom (al, string_tag, looking, depth, d, inp, out)"
  shows "cbs_len (fst (snd (cbs_convert_ber al string_tag looking depth d inp out))) \<le> cbs_len inp"
  using assms
proof (induction rule: cbs_convert_ber.pinduct)
  case (1 al string_tag looking depth d inp out)
  note E = cbs_convert_ber.psimps [OF 1(1)]
  obtain r in1 where g: "CBS_get_any_ber_asn1_element inp = (r, in1)" by fastforce
  show ?case
  proof (cases "depth > kMaxDepth \<or> CBS_len inp = 0 \<or> r = None")
    case True
    with g get_ber_None [of inp in1] show ?thesis by (auto simp: E)
  next
    case False
    then obtain e where e: "r = Some e" by auto
    note n = False [simplified, unfolded e]
    have in1: "cbs_len in1 < cbs_len inp" using ber_element_shorter(1) g e by simp
    obtain s out1 where o: "convert_open al string_tag (el_tag e) d out = (s, out1)" by fastforce
    show ?thesis
    proof (cases "is_eoc (el_header_len e) (el_out e) \<or> s = None")
      case True
      with n g e o in1 show ?thesis by (auto simp: E)
    next
      case False
      then obtain cst d1 where s: "s = Some (cst, d1)" and ne: "\<not> is_eoc (el_header_len e) (el_out e)" by auto
      define body where "body = (if indefinite e then cbs_convert_ber al cst True (depth + 1) d1 in1 out1
                     else (case CBS_skip (el_header_len e) (el_out e) of
                       (False, _) \<Rightarrow> (False, in1, out1)
                     | (True, contents) \<Rightarrow>
                         if el_tag e AND CBS_ASN1_CONSTRUCTED \<noteq> 0 then
                           (case cbs_convert_ber al cst False (depth + 1) d1 contents out1 of
                              (ok, _, out2) \<Rightarrow> (ok, in1, out2))
                         else
                           (case CBB_add_bytes al d1 (take (CBS_len contents) (CBS_data contents)) out1 of
                              (ok, out2) \<Rightarrow> (ok, in1, out2))))"
      obtain ok2 in2 out2 where b: "body = (ok2, in2, out2)" by (metis prod_cases3)
      obtain ok3 out3 where f: "CBB_flush al d out2 = (ok3, out3)" by fastforce
      have in2: "cbs_len in2 \<le> cbs_len in1"
        using b 1(2) [OF _ _ g [symmetric] e ne o [symmetric] s refl] n
        by (auto simp: body_def split: if_splits prod.splits bool.splits)
      have "cbs_len (fst (snd (cbs_convert_ber al string_tag looking depth d in2 out3))) \<le> cbs_len in2" if "ok2" "ok3"
        using 1(4) [OF _ _ g [symmetric] e ne o [symmetric] s refl b [unfolded body_def, symmetric] _ refl f [symmetric]]
          n that by simp
      with n g e o ne s b f in1 in2 show ?thesis
        by (auto simp: E body_def [symmetric] split: bool.split)
    qed
  qed
qed

termination cbs_convert_ber
proof (relation "measure (\<lambda>(_, _, _, _, _, inp, _). cbs_len inp)", goal_cases)
  case (4 al string_tag looking depth d inp out r in1 e s out1 p cst d1 ok2 q in2 out2 ok3 out3)
  have in1: "cbs_len in1 < cbs_len inp" using ber_element_shorter(1) [OF 4(3) [unfolded 4(4), symmetric]] .
  have "cbs_len in2 \<le> cbs_len in1"
  proof (cases "indefinite e")
    case True
    then have "cbs_convert_ber al cst True (depth + 1) d1 in1 out1 = (ok2, in2, out2)"
      using 4(9,11) by simp
    with cbs_convert_ber_shorter [OF 4(15) [OF True]] show ?thesis by simp
  next
    case False
    with 4 show ?thesis by (auto split: if_splits prod.splits bool.splits)
  qed
  with in1 show ?case by simp
qed (auto dest: ber_element_shorter(1) [OF sym] skip_header_shorter [OF sym sym])

declare cbs_convert_ber.simps [simp del]

text \<open>\<open>Some (out, out_storage)\<close> with no storage when \<open>out\<close> points into the input.\<close>

definition CBS_asn1_ber_to_der :: "allocator \<Rightarrow> bool \<Rightarrow> cbs \<Rightarrow> (cbs \<times> byte list option) option \<times> cbs" where
  "CBS_asn1_ber_to_der al base_ok inp =
     (case cbs_find_ber 0 inp of
        None \<Rightarrow> (None, inp)
      | Some conversion_needed \<Rightarrow>
          if \<not> conversion_needed then
            (case CBS_get_any_asn1_element inp of
               (None, in1) \<Rightarrow> (None, in1)
             | (Some e, in1) \<Rightarrow> (Some (el_out e, None), in1))
          else
            (case CBB_init al base_ok (CBS_len inp) of
               (False, _) \<Rightarrow> (None, inp)
             | (True, cbb) \<Rightarrow>
                 (case cbs_convert_ber al 0 False 0 0 inp cbb of
                    (False, in1, _) \<Rightarrow> (None, in1)
                  | (True, in1, cbb1) \<Rightarrow>
                      (case CBB_finish al 0 True cbb1 of
                         (None, _) \<Rightarrow> (None, in1)
                       | (Some (blk, len), _) \<Rightarrow> (Some (CBS_init blk len, Some blk), in1)))))"

section \<open>Strings in fragments\<close>

lemma CBS_get_asn1_shorter: "CBS_get_asn1 tag c = (Some v, c1) \<Longrightarrow> cbs_len c1 < cbs_len c"
  by (auto simp: CBS_get_asn1_def cbs_get_asn1_def dest: CBS_get_any_asn1_element_shorter
      split: prod.splits option.splits if_splits bool.splits)

function implicit_string_loop :: "allocator \<Rightarrow> u32 \<Rightarrow> cbs \<Rightarrow> cbb \<Rightarrow> bool \<times> cbb" where
  "implicit_string_loop al inner_tag child result =
     (if CBS_len child = 0 then (True, result)
      else (case CBS_get_asn1 inner_tag child of
              (None, _) \<Rightarrow> (False, result)
            | (Some chunk, child1) \<Rightarrow>
                (case CBB_add_bytes al 0 (take (CBS_len chunk) (CBS_data chunk)) result of
                   (False, result1) \<Rightarrow> (False, result1)
                 | (True, result1) \<Rightarrow> implicit_string_loop al inner_tag child1 result1)))"
  by pat_completeness auto
termination
  by (relation "measure (\<lambda>(_, _, child, _). cbs_len child)") (auto dest: CBS_get_asn1_shorter [OF sym])

declare implicit_string_loop.simps [simp del]

definition CBS_get_asn1_implicit_string ::
  "allocator \<Rightarrow> bool \<Rightarrow> u32 \<Rightarrow> u32 \<Rightarrow> cbs \<Rightarrow> (cbs \<times> byte list option) option \<times> cbs" where
  "CBS_get_asn1_implicit_string al base_ok outer_tag inner_tag inp =
     (if CBS_peek_asn1_tag inp outer_tag then
        (case CBS_get_asn1 outer_tag inp of
           (None, in1) \<Rightarrow> (None, in1)
         | (Some out, in1) \<Rightarrow> (Some (out, None), in1))
      else
        (case CBB_init al base_ok (CBS_len inp) of
           (False, _) \<Rightarrow> (None, inp)
         | (True, result) \<Rightarrow>
             (case CBS_get_asn1 (outer_tag OR CBS_ASN1_CONSTRUCTED) inp of
                (None, in1) \<Rightarrow> (None, in1)
              | (Some child, in1) \<Rightarrow>
                  (case implicit_string_loop al inner_tag child result of
                     (False, _) \<Rightarrow> (None, in1)
                   | (True, result1) \<Rightarrow>
                       (case CBB_finish al 0 True result1 of
                          (None, _) \<Rightarrow> (None, in1)
                        | (Some (data, len), _) \<Rightarrow> (Some (CBS_init data len, Some data), in1))))))"

section \<open>The \<open>i2d\<close> convention\<close>

text \<open>
  \<open>outp\<close> is a null pointer (\<open>None\<close>), points to a null pointer (\<open>Some None\<close>), or points to a position
  in a block of the caller.
\<close>

type_synonym i2d_out = "(byte list \<times> nat) option option"

definition CBB_finish_i2d :: "allocator \<Rightarrow> cbb \<Rightarrow> i2d_out \<Rightarrow> int \<times> i2d_out" where
  "CBB_finish_i2d al cbb outp =
     (case CBB_finish al 0 True cbb of
        (None, _) \<Rightarrow> (-1, outp)
      | (Some (der, len), _) \<Rightarrow>
          if len > 2 ^ 31 - 1 then (-1, outp)
          else (int len,
                case outp of
                  None \<Rightarrow> None
                | Some None \<Rightarrow> Some (Some (der, 0))
                | Some (Some (mem, pos)) \<Rightarrow> Some (Some (mem_write pos (take len der) mem, pos + len))))"

end
