(* ===== verification/Ber_Spec.thy ===== *)
theory Ber_Spec
  imports Ber
begin

text \<open>
  The specification of BER that the conversion of \<open>ber.c\<close> is proved against.  A \<open>node\<close> is an ASN.1 value, and
  \<open>der_of\<close> its DER serialisation.  \<open>ber\<close>, \<open>bers\<close> and \<open>frags\<close> say which byte strings are BER encodings of a node,
  of a sequence of nodes, and of the fragments of a string.  Only the header reader's soundness for this
  specification is about a source function.
\<close>

section \<open>Values and their serialisation\<close>

datatype node = Prim u32 "byte list" | Constr u32 "node list"

fun der_of :: "node \<Rightarrow> byte list" where
  "der_of (Prim tag bs) = der_element tag bs"
| "der_of (Constr tag ns) = der_element tag (concat (map der_of ns))"

text \<open>Well formed up to a nesting depth: the bytes of a constructed node are nodes, and no string is constructed.\<close>

fun der_ok :: "nat \<Rightarrow> node \<Rightarrow> bool" where
  "der_ok h (Prim tag bs) \<longleftrightarrow> tag AND CBS_ASN1_CONSTRUCTED = 0 \<and> length bs < 2 ^ 32"
| "der_ok h (Constr tag ns) \<longleftrightarrow> tag AND CBS_ASN1_CONSTRUCTED \<noteq> 0 \<and> \<not> is_string_type tag \<and> h \<noteq> 0 \<and>
     (\<forall>n \<in> set ns. der_ok (h - 1) n) \<and> length (concat (map der_of ns)) < 2 ^ 32"

fun node_tag :: "node \<Rightarrow> u32" where
  "node_tag (Prim tag _) = tag"
| "node_tag (Constr tag _) = tag"

fun node_body :: "node \<Rightarrow> byte list" where
  "node_body (Prim _ bs) = bs"
| "node_body (Constr _ ns) = concat (map der_of ns)"

lemma der_eq: "der_of n = der_element (node_tag n) (node_body n)"
  by (cases n) simp_all

lemma der_ok_length: "der_ok h n \<Longrightarrow> length (node_body n) < 2 ^ 32"
  by (cases n) simp_all

section \<open>BER\<close>

text \<open>A definite length: the short form, or a long form of at most four bytes, minimal or not.\<close>

definition ber_length :: "nat \<Rightarrow> byte list \<Rightarrow> bool" where
  "ber_length n lb \<longleftrightarrow> n < 128 \<and> lb = [byte_of n] \<or>
     (\<exists>k. 0 < k \<and> k \<le> 4 \<and> n < 256 ^ k \<and> lb = byte_of (128 + k) # be_bytes k n)"

text \<open>
  The universal string types other than BIT STRING, by number: OCTET STRING, UTF8String, NumericString,
  PrintableString, T61String, VideotexString, IA5String, GraphicString, VisibleString, GeneralString,
  UniversalString and BMPString.
\<close>

definition ber_string :: "u32 \<Rightarrow> bool" where
  "ber_string tag \<longleftrightarrow> unat (tag AND NOT CBS_ASN1_CONSTRUCTED) \<in> {4, 12, 18, 19, 20, 21, 22, 25, 26, 27, 28, 30}"

text \<open>
  An element is primitive, or constructed with a definite length, or constructed with an indefinite length and
  closed by an end-of-contents marker.  The contents of a constructed string are fragments, strings of the same type
  that may again be constructed; the node of the string is primitive and holds the bytes of all fragments.  The marker
  itself is not an element.
\<close>

inductive ber :: "byte list \<Rightarrow> node \<Rightarrow> bool"
  and bers :: "byte list \<Rightarrow> node list \<Rightarrow> bool"
  and frags :: "u32 \<Rightarrow> byte list \<Rightarrow> byte list \<Rightarrow> bool" where
  ber_prim: "tag AND CBS_ASN1_CONSTRUCTED = 0 \<Longrightarrow> ber_length (length v) lb \<Longrightarrow> der_tag tag @ lb @ v \<noteq> [0, 0] \<Longrightarrow>
    ber (der_tag tag @ lb @ v) (Prim tag v)"
| ber_constr: "tag AND CBS_ASN1_CONSTRUCTED \<noteq> 0 \<Longrightarrow> \<not> ber_string tag \<Longrightarrow> ber_length (length v) lb \<Longrightarrow> bers v ns \<Longrightarrow>
    ber (der_tag tag @ lb @ v) (Constr tag ns)"
| ber_constr_indef: "tag AND CBS_ASN1_CONSTRUCTED \<noteq> 0 \<Longrightarrow> \<not> ber_string tag \<Longrightarrow> bers v ns \<Longrightarrow>
    ber (der_tag tag @ [0x80] @ v @ [0, 0]) (Constr tag ns)"
| ber_str: "tag AND CBS_ASN1_CONSTRUCTED \<noteq> 0 \<Longrightarrow> ber_string tag \<Longrightarrow> ber_length (length v) lb \<Longrightarrow>
    frags (tag AND NOT CBS_ASN1_CONSTRUCTED) v s \<Longrightarrow>
    ber (der_tag tag @ lb @ v) (Prim (tag AND NOT CBS_ASN1_CONSTRUCTED) s)"
| ber_str_indef: "tag AND CBS_ASN1_CONSTRUCTED \<noteq> 0 \<Longrightarrow> ber_string tag \<Longrightarrow> frags (tag AND NOT CBS_ASN1_CONSTRUCTED) v s \<Longrightarrow>
    ber (der_tag tag @ [0x80] @ v @ [0, 0]) (Prim (tag AND NOT CBS_ASN1_CONSTRUCTED) s)"
| bers_Nil: "bers [] []"
| bers_Cons: "ber x n \<Longrightarrow> bers y ns \<Longrightarrow> bers (x @ y) (n # ns)"
| frags_Nil: "frags st [] []"
| frags_prim: "tag AND CBS_ASN1_CONSTRUCTED = 0 \<Longrightarrow> tag AND NOT CBS_ASN1_CONSTRUCTED = st \<Longrightarrow> ber_length (length v) lb \<Longrightarrow>
    frags st y t \<Longrightarrow> frags st ((der_tag tag @ lb @ v) @ y) (v @ t)"
| frags_constr: "tag AND CBS_ASN1_CONSTRUCTED \<noteq> 0 \<Longrightarrow> tag AND NOT CBS_ASN1_CONSTRUCTED = st \<Longrightarrow> ber_length (length v) lb \<Longrightarrow>
    frags st v s \<Longrightarrow> frags st y t \<Longrightarrow> frags st ((der_tag tag @ lb @ v) @ y) (s @ t)"
| frags_constr_indef: "tag AND CBS_ASN1_CONSTRUCTED \<noteq> 0 \<Longrightarrow> tag AND NOT CBS_ASN1_CONSTRUCTED = st \<Longrightarrow> frags st v s \<Longrightarrow>
    frags st y t \<Longrightarrow> frags st ((der_tag tag @ [0x80] @ v @ [0, 0]) @ y) (s @ t)"

lemma ber_string_iff: "ber_string tag \<longleftrightarrow> is_string_type tag"
proof -
  have u: "unat w = n \<longleftrightarrow> w = word_of_nat n" if "n < 2 ^ 32" for w :: u32 and n using that by (auto simp: unat_of_nat)
  show ?thesis by (simp add: ber_string_def is_string_type_def CBS_ASN1_STRINGS_def u)
qed

lemma ber_single: "ber x n \<Longrightarrow> bers x [n]"
  using bers_Cons [OF _ bers_Nil] by fastforce

lemma bers_append: "bers x ns \<Longrightarrow> bers y ms \<Longrightarrow> bers (x @ y) (ns @ ms)"
proof (induction ns arbitrary: x)
  case Nil
  then show ?case by (auto elim: bers.cases)
next
  case (Cons n ns)
  from Cons.prems(1) obtain u v where "x = u @ v" "ber u n" "bers v ns" by (auto elim: bers.cases)
  with Cons.IH [OF _ Cons.prems(2)] bers_Cons [of u n "v @ y" "ns @ ms"] show ?case by simp
qed

lemma frags_append: "frags st x s \<Longrightarrow> frags st y t \<Longrightarrow> frags st (x @ y) (s @ t)"
proof -
  have "ber u n \<Longrightarrow> True" "bers u ns \<Longrightarrow> True" "frags st x s \<Longrightarrow> frags st y t \<Longrightarrow> frags st (x @ y) (s @ t)" for u n ns
  proof (induction rule: ber_bers_frags.inducts)
    case (frags_prim tag st v lb y' t')
    from ber_bers_frags.frags_prim [OF frags_prim(1-3) frags_prim.IH [OF frags_prim.prems]] show ?case by simp
  next
    case (frags_constr tag st v lb s' y' t')
    from ber_bers_frags.frags_constr [OF frags_constr(1-4) frags_constr.IH(2) [OF frags_constr.prems]] show ?case by simp
  next
    case (frags_constr_indef tag st v s' y' t')
    from ber_bers_frags.frags_constr_indef [OF frags_constr_indef(1-3) frags_constr_indef.IH(2) [OF frags_constr_indef.prems]]
    show ?case by simp
  qed simp_all
  then show "frags st x s \<Longrightarrow> frags st y t \<Longrightarrow> frags st (x @ y) (s @ t)" by blast
qed

section \<open>What the header reader accepts\<close>

lemma ber_length_ne: "ber_length n lb \<Longrightarrow> lb \<noteq> []"
  by (auto simp: ber_length_def)

lemma ber_element_sound:
  assumes "cbs_ok c" and "CBS_get_any_ber_asn1_element c = (Some e, c')"
  shows "\<exists>lb v. cbs_bytes (el_out e) = der_tag (el_tag e) @ lb @ v \<and> cbs_bytes c = cbs_bytes (el_out e) @ cbs_bytes c' \<and>
    el_header_len e = length (der_tag (el_tag e) @ lb) \<and> cbs_ok (el_out e) \<and> cbs_ok c' \<and>
    (if indefinite e then lb = [0x80] \<and> v = [] \<and> el_tag e AND CBS_ASN1_CONSTRUCTED \<noteq> 0 else ber_length (length v) lb)"
proof -
  from assms(2) obtain tag h1 lb h2 where
    t: "parse_asn1_tag c = (Some tag, h1)" and g: "CBS_get_u8 h1 = (Some lb, h2)"
    by (auto simp: CBS_get_any_ber_asn1_element_def cbs_get_any_asn1_element_def split: prod.splits option.splits)
  from parse_asn1_tag_sound [OF assms(1) t] have 1: "cbs_bytes c = der_tag tag @ cbs_bytes h1" "cbs_ok h1" by simp_all
  from CBS_get_u8_SomeD [OF 1(2) g] have 2: "cbs_bytes h1 = lb # cbs_bytes h2" "cbs_ok h2" by simp_all
  define hl where "hl = CBS_len c - CBS_len h2"
  have "length (cbs_bytes c) = length (der_tag tag) + 1 + length (cbs_bytes h2)"
    by (simp add: 1(1) 2(1) del: length_cbs_bytes)
  then have hl: "hl = length (der_tag tag) + 1" using assms(1) 2(2) by (simp add: hl_def CBS_len_def)
  have hl7: "hl \<le> 7" using length_der_tag(1) [of tag] by (simp add: hl)
  have ind: "indefinite e \<longleftrightarrow> v = [] \<and> last p = 0x80"
    if "cbs_bytes (el_out e) = der_tag tag @ p @ v" "el_header_len e = length (der_tag tag @ p)" "p \<noteq> []" "cbs_ok (el_out e)" for p v
  proof -
    have len: "CBS_len (el_out e) = length (der_tag tag @ p) + length v"
      using that(1) length_cbs_bytes [OF that(4)] by (simp add: CBS_len_def)
    have i: "el_header_len e - 1 < CBS_len (el_out e)" using len that(2,3) by (cases p) simp_all
    have "CBS_data (el_out e) ! (el_header_len e - 1) = cbs_bytes (el_out e) ! (el_header_len e - 1)"
      using i unfolding CBS_data_def CBS_len_def cbs_bytes_def by simp
    also have "\<dots> = last p" using that(1-3) by (cases p) (simp_all add: nth_append last_conv_nth)
    finally show ?thesis using len that(2,3) by (auto simp: indefinite_def)
  qed
  show ?thesis
  proof (cases "unat lb < 128")
    case True
    with assms(2) t g have f: "asn1_finish c tag hl (unat lb + hl) False = (Some e, c')"
      by (simp add: CBS_get_any_ber_asn1_element_def cbs_get_any_asn1_element_def Let_def hl_def byte_high_bit)
    note e = asn1_finish_Some [OF assms(1) f]
    let ?v = "take (unat lb) (cbs_bytes h2)"
    from e hl have l: "length (cbs_bytes (el_out e)) = length (der_tag tag @ [lb]) + unat lb" by simp
    from e 1 2 have "cbs_bytes (el_out e) @ cbs_bytes c' = (der_tag tag @ [lb]) @ cbs_bytes h2" by simp
    from append_eq_take [OF this l] have sp: "cbs_bytes (el_out e) = der_tag tag @ [lb] @ ?v"
      and "unat lb \<le> length (cbs_bytes h2)" by simp_all
    then have "length ?v = unat lb" by simp
    moreover from this True have "ber_length (length ?v) [lb]" by (simp add: ber_length_def)
    moreover have "\<not> indefinite e" using ind [OF sp] e hl True by auto
    ultimately show ?thesis using e sp hl by (intro exI [of _ "[lb]"] exI [of _ ?v]) simp
  next
    case False
    define k where "k = unat lb mod 128"
    have lb: "byte_of (128 + k) = lb" using False byte_cont [of lb] by (simp add: k_def)
    show ?thesis
    proof (cases "tag AND CBS_ASN1_CONSTRUCTED \<noteq> 0 \<and> k = 0")
      case True
      with False assms(2) t g have f: "asn1_finish c tag hl hl True = (Some e, c')"
        by (simp add: CBS_get_any_ber_asn1_element_def cbs_get_any_asn1_element_def Let_def hl_def byte_high_bit k_def)
      note e = asn1_finish_Some [OF assms(1) f]
      have lb80: "lb = 0x80" using lb [symmetric] True by (simp add: byte_eq_iff)
      from e hl have l: "length (cbs_bytes (el_out e)) = length (der_tag tag @ [lb]) + 0" by simp
      from e 1 2 have "cbs_bytes (el_out e) @ cbs_bytes c' = (der_tag tag @ [lb]) @ cbs_bytes h2" by simp
      from append_eq_take [OF this l] have sp: "cbs_bytes (el_out e) = der_tag tag @ [lb] @ []" by simp
      from ind [OF sp] e hl lb80 have "indefinite e" by simp
      with e sp hl lb80 True show ?thesis by (intro exI [of _ "[lb]"] exI [of _ "[]"]) simp
    next
      case long: False
      define p where "p = take k (cbs_bytes h2)"
      from long False assms(2) t g 2(2) have k: "0 < k" "k \<le> 4" "k \<le> cbs_len h2"
        by (auto simp: CBS_get_any_ber_asn1_element_def cbs_get_any_asn1_element_def Let_def byte_high_bit cbs_get_u_eq k_def
            split: if_splits)
      have lp: "length p = k" using k 2 by (simp add: p_def)
      have n: "unat (word_of_nat (be_val p) :: u64) = be_val p" using k(2) lp by (intro unat_word_be_val) simp
      have pv: "be_val p < 256 ^ k" using be_val_less [of p] lp by simp
      have "be_val p < 256 ^ 4" by (rule be_val_less_pow) (simp add: lp k)
      then have wrap: "size_wrap (be_val p + hl + k) = be_val p + hl + k" using k(2) hl7 by simp
      obtain x where f: "asn1_finish c tag (hl + k) (be_val p + hl + k) x = (Some e, c')"
        using assms(2) t g False long k 2(2) n wrap
        by (auto simp: CBS_get_any_ber_asn1_element_def cbs_get_any_asn1_element_def Let_def byte_high_bit cbs_get_u_eq
            k_def [symmetric] p_def [symmetric] hl_def [symmetric] split: if_splits)
      note e = asn1_finish_Some [OF assms(1) f]
      let ?v = "take (be_val p) (drop k (cbs_bytes h2))"
      from e hl lp have l: "length (cbs_bytes (el_out e)) = length (der_tag tag @ lb # p) + be_val p" by simp
      have "cbs_bytes h2 = p @ drop k (cbs_bytes h2)" by (simp add: p_def)
      then have "cbs_bytes c = (der_tag tag @ lb # p) @ drop k (cbs_bytes h2)" using 1 2 by (metis append.assoc append_Cons)
      with e have "cbs_bytes (el_out e) @ cbs_bytes c' = (der_tag tag @ lb # p) @ drop k (cbs_bytes h2)" by simp
      from append_eq_take [OF this l] have sp: "cbs_bytes (el_out e) = der_tag tag @ (lb # p) @ ?v"
        and "be_val p \<le> length (drop k (cbs_bytes h2))" by simp_all
      then have lv: "length ?v = be_val p" by simp
      have "p = be_bytes k (length ?v)" using be_bytes_be_val [of p] lp lv by simp
      then have "ber_length (length ?v) (lb # p)" using k pv lv lb by (auto simp: ber_length_def)
      moreover have "\<not> indefinite e"
      proof
        assume "indefinite e"
        with ind [OF sp] e hl lp have "?v = []" "last (lb # p) = 0x80" by auto
        then have z: "be_val p = 0" "last p = 0x80" "p \<noteq> []" using lv lp k by auto
        then obtain q where "p = q @ [0x80]" by (metis append_butlast_last_id)
        with z(1) show False by simp
      qed
      ultimately show ?thesis using e sp hl lp by (intro exI [of _ "lb # p"] exI [of _ ?v]) simp
    qed
  qed
qed

end
