(* ===== verification/Ber_Norm.thy ===== *)
theory Ber_Norm
  imports Ber_Spec
begin

text \<open>
  What the conversion of \<open>ber.c\<close> achieves, against the specification of \<open>Ber_Spec\<close>.  What \<open>cbs_convert_ber\<close>
  accepts is BER, and it writes the DER serialisation of the nodes the BER encodes; such serialisations pass the
  search, and are returned as they are.
\<close>

section \<open>Serialised nodes pass the search\<close>

lemma der_element_ne: "der_element tag bs \<noteq> []"
  using der_tag_ne by (simp add: der_element_def)

lemma get_ber_node:
  assumes "cbs_ok c" and "length v < 2 ^ 32" and "cbs_bytes c = der_element tag v @ rest"
  shows "\<exists>e c1 out. CBS_get_any_ber_asn1_element c = (Some e, c1) \<and> el_tag e = tag \<and> \<not> el_ber_found e \<and>
    cbs_bytes (el_out e) = der_element tag v \<and>
    CBS_skip (el_header_len e) (el_out e) = (True, out) \<and> cbs_bytes out = v \<and> cbs_ok out \<and>
    cbs_bytes c1 = rest \<and> cbs_ok c1"
proof -
  from element_complete [OF assms, of True] obtain e c1 where
    e: "cbs_get_any_asn1_element True c = (Some e, c1)" "el_tag e = tag" "cbs_bytes c1 = rest"
    "cbs_bytes (el_out e) = (der_tag tag @ der_len (length v)) @ v" "cbs_ok (el_out e)" "cbs_ok c1"
    "el_header_len e = length (der_tag tag @ der_len (length v))" "\<not> el_ber_found e"
    "cbs_bytes (el_out e) = der_element tag v"
    by (auto simp: der_element_def)
  from CBS_skip_prefix [OF e(5,4)] e show ?thesis
    by (auto simp: CBS_get_any_ber_asn1_element_def)
qed

lemma find_ber_nodes:
  "\<lbrakk>cbs_ok c; cbs_bytes c = concat (map der_of ns); \<forall>n \<in> set ns. der_ok h n; depth + h \<le> kMaxDepth\<rbrakk> \<Longrightarrow>
     find_ber_loop depth b c = Some (b \<and> ns = [])"
proof (induction "length (cbs_bytes c)" arbitrary: c ns h depth b rule: less_induct)
  case less
  show ?case
  proof (cases ns)
    case Nil
    with less.prems(1,2) length_cbs_bytes [of c] show ?thesis by (subst find_ber_loop.simps) (simp add: CBS_len_def)
  next
    case (Cons n ns1)
    have cb: "cbs_bytes c = der_element (node_tag n) (node_body n) @ concat (map der_of ns1)"
      using less.prems(2) Cons by (simp add: der_eq)
    have ok: "der_ok h n" "\<forall>n \<in> set ns1. der_ok h n" using less.prems(3) Cons by simp_all
    from get_ber_node [OF less.prems(1) der_ok_length [OF ok(1)] cb] obtain e c1 out where
      e: "CBS_get_any_ber_asn1_element c = (Some e, c1)" "el_tag e = node_tag n" "\<not> el_ber_found e"
      "CBS_skip (el_header_len e) (el_out e) = (True, out)" "cbs_bytes out = node_body n" "cbs_ok out"
      "cbs_bytes c1 = concat (map der_of ns1)" "cbs_ok c1" by blast
    have ne: "CBS_len c \<noteq> 0" using length_cbs_bytes [OF less.prems(1)] cb der_element_ne [of "node_tag n" "node_body n"]
      by (cases "der_element (node_tag n) (node_body n)") (simp_all add: CBS_len_def)
    have l: "length (cbs_bytes c1) < length (cbs_bytes c)" "length (cbs_bytes out) < length (cbs_bytes c)"
      using cb e(5,7) der_element_ne der_tag_ne by (simp_all add: der_element_def) 
    have rest: "find_ber_loop depth False c1 = Some False"
      using less.hyps [OF l(1) e(8,7) ok(2) less.prems(4), of False] by simp
    show ?thesis
    proof (cases n)
      case (Prim tag bs)
      with ok(1) e rest ne Cons show ?thesis by (subst find_ber_loop.simps) simp
    next
      case (Constr tag ms)
      with ok(1) have m: "tag AND CBS_ASN1_CONSTRUCTED \<noteq> 0" "\<not> is_string_type tag" "h \<noteq> 0"
        "\<forall>n \<in> set ms. der_ok (h - 1) n" by simp_all
      have "find_ber_loop (depth + 1) False (CBS_init (CBS_data out) (CBS_len out)) = Some False"
        using less.hyps [of "CBS_init (CBS_data out) (CBS_len out)" ms "h - 1" "depth + 1" False] l(2) e(5,6) m(3,4) less.prems(4)
        by (simp add: CBS_init_def CBS_data_def CBS_len_def cbs_bytes_def cbs_ok_def Constr)
      then have "cbs_find_ber (depth + 1) out = Some False"
        using m(3) less.prems(4) by (subst cbs_find_ber.simps) simp
      with e rest ne m Constr Cons show ?thesis by (subst find_ber_loop.simps) simp
    qed
  qed
qed

lemma cbs_find_ber_nodes:
  assumes "cbs_ok c" "cbs_bytes c = concat (map der_of ns)" "\<forall>n \<in> set ns. der_ok kMaxDepth n"
  shows "cbs_find_ber 0 c = Some False"
  using find_ber_nodes [of "CBS_init (CBS_data c) (CBS_len c)" ns kMaxDepth 0] assms
  by (subst cbs_find_ber.simps) (simp add: CBS_init_def CBS_data_def CBS_len_def cbs_bytes_def cbs_ok_def)


section \<open>The conversion writes serialised nodes\<close>

text \<open>A builder with no child open below depth \<open>d\<close> and no error.\<close>

definition idle :: "nat \<Rightarrow> cbb \<Rightarrow> bool" where
  "idle d c \<longleftrightarrow> cbb_wf c \<and> \<not> cbb_err c \<and> length (children c) = d"

lemma idle_writes_Nil: "idle d c \<Longrightarrow> writes d [] c True c"
  by (auto simp: idle_def writes_def cbb_written_def cbb_err_def split: option.splits)

lemma writes_idle: "idle d c \<Longrightarrow> writes d x c True c1 \<Longrightarrow> idle d c1"
  by (auto simp: idle_def writes_def)

lemma opens_idle: "idle d c \<Longrightarrow> opens d k a pre c True c1 \<Longrightarrow> idle (Suc d) c1"
  by (auto simp: idle_def opens_def)

lemma flush_writes_Nil: "good_alloc al \<Longrightarrow> idle d c \<Longrightarrow> CBB_flush al d c = (True, c1) \<Longrightarrow> writes d [] c True c1"
  using CBB_flush_laws(1) [of al c d True c1] by (simp add: idle_def)

text \<open>Closing a DER child.\<close>

lemma close_der_child:
  assumes "good_alloc al" and "opens d 1 True (der_tag tag) c True c1" and "writes (Suc d) data c1 True c2"
    and "CBB_flush al d c2 = (True, c3)"
  shows "length data < 2 ^ 32 \<and> writes d (der_element tag data) c True c3"
proof -
  let ?ch = "\<lparr>offset = 0, pending_len_len = 1, pending_is_asn1 = True\<rparr>"
  have len: "length data \<le> 0xfffffffe"
  proof (rule ccontr)
    assume "\<not> length data \<le> 0xfffffffe"
    then have n: "len_prefix ?ch (length data) = Some p \<Longrightarrow> out = der_tag tag @ p @ data" for out p
      by (simp add: len_prefix_def)
    have "writes d out c True c3" for out
      by (rule child_flush [OF assms]) (rule n)
    from this [of "[]"] this [of "[0]"] show False by (auto simp: writes_def)
  qed
  have "writes d (der_element tag data) c True c3"
    by (rule child_flush [OF assms]) (auto simp: len_prefix_def der_element_def split: if_splits)
  with len show ?thesis by simp
qed

text \<open>What a call has to write for the bytes it consumed: the fragments' bytes, or the DER of the elements.\<close>

definition converts :: "u32 \<Rightarrow> nat \<Rightarrow> byte list \<Rightarrow> byte list \<Rightarrow> bool" where
  "converts string_tag h x data \<longleftrightarrow>
     (if string_tag = 0 then \<exists>ns. bers x ns \<and> data = concat (map der_of ns) \<and> (\<forall>n \<in> set ns. der_ok h n)
      else frags string_tag x data)"

lemma converts_Nil: "converts st h [] []"
  unfolding converts_def using bers_Nil frags_Nil by (auto intro: exI [of _ "[]"])

lemma converts_append: "converts st h x s \<Longrightarrow> converts st h y t \<Longrightarrow> converts st h (x @ y) (s @ t)"
proof (cases "st = 0")
  case True
  assume "converts st h x s" "converts st h y t"
  with True obtain ns ms where "bers x ns" "s = concat (map der_of ns)" "\<forall>n \<in> set ns. der_ok h n"
    "bers y ms" "t = concat (map der_of ms)" "\<forall>n \<in> set ms. der_ok h n" by (auto simp: converts_def)
  with True bers_append [of x ns y ms] show ?thesis unfolding converts_def by (auto intro!: exI [of _ "ns @ ms"])
qed (simp add: converts_def frags_append)

lemma and_not_constructed: "(tag AND NOT CBS_ASN1_CONSTRUCTED) AND CBS_ASN1_CONSTRUCTED = (0 :: u32)"
  by (simp add: and.assoc)

lemma string_tag_ne: "is_string_type tag \<Longrightarrow> tag AND NOT CBS_ASN1_CONSTRUCTED \<noteq> 0"
  by (auto simp: is_string_type_def CBS_ASN1_STRINGS_def)

lemma convert_open_idle:
  assumes "good_alloc al" and "idle d out" and "convert_open al st tag d out = (Some (cst, d1), out1)"
  shows "idle d1 out1"
proof (cases "st = 0")
  case False
  with assms(2,3) show ?thesis by (auto simp: convert_open_def split: if_splits)
next
  case True
  with assms(3) obtain out_tag where "CBB_add_asn1 al d out_tag out = (True, out1)" "d1 = Suc d"
    by (auto simp: convert_open_def Let_def split: prod.splits bool.splits)
  with CBB_add_asn1_opens [OF assms(1) _ this(1)] opens_idle [OF assms(2)] assms(2) show ?thesis
    by (auto simp: idle_def)
qed

text \<open>
  The element of one round, definite or not, with the contents \<open>v\<close>: after \<open>convert_open\<close> and what the body writes
  for \<open>v\<close>, the flush leaves what the element converts to.
\<close>

definition element_with :: "u32 \<Rightarrow> byte list \<Rightarrow> byte list \<Rightarrow> bool" where
  "element_with tag v x \<longleftrightarrow> (\<exists>lb. ber_length (length v) lb \<and> x = der_tag tag @ lb @ v) \<or>
     tag AND CBS_ASN1_CONSTRUCTED \<noteq> 0 \<and> x = der_tag tag @ [0x80] @ v @ [0, 0]"

lemma fragment_converts:
  assumes "st \<noteq> 0" and "tag AND NOT CBS_ASN1_CONSTRUCTED = st" and "element_with tag v x"
    and "if tag AND CBS_ASN1_CONSTRUCTED = 0 then data = v else converts st h' v data"
  shows "converts st h x data"
proof -
  have "frags st (x @ []) (data @ [])"
  proof (cases "tag AND CBS_ASN1_CONSTRUCTED = 0")
    case True
    with assms(3,4) obtain lb where "ber_length (length v) lb" "x = der_tag tag @ lb @ v" "data = v" by (auto simp: element_with_def)
    with frags_prim [OF True assms(2) _ frags_Nil] show ?thesis by blast
  next
    case False
    with assms(1,4) have f: "frags st v data" by (simp add: converts_def)
    from assms(3) consider lb where "ber_length (length v) lb" "x = der_tag tag @ lb @ v" | "x = der_tag tag @ [0x80] @ v @ [0, 0]"
      by (auto simp: element_with_def)
    then show ?thesis
      using frags_constr [OF False assms(2) _ f frags_Nil] frags_constr_indef [OF False assms(2) f frags_Nil] by cases blast+
  qed
  with assms(1) show ?thesis by (simp add: converts_def)
qed

lemma element_converts:
  assumes "element_with tag v x" and "x \<noteq> [0, 0]" and "length data < 2 ^ 32" and "tag AND CBS_ASN1_CONSTRUCTED \<noteq> 0 \<Longrightarrow> 0 < h"
    and out_tag: "out_tag = (if tag AND CBS_ASN1_CONSTRUCTED \<noteq> 0 \<and> is_string_type tag then tag AND NOT CBS_ASN1_CONSTRUCTED else tag)"
    and "if tag AND CBS_ASN1_CONSTRUCTED = 0 then data = v
      else converts (if is_string_type tag then out_tag else 0) (h - 1) v data"
  shows "converts 0 h x (der_element out_tag data)"
proof -
  have "\<exists>n. ber x n \<and> der_of n = der_element out_tag data \<and> der_ok h n"
  proof (cases "tag AND CBS_ASN1_CONSTRUCTED = 0")
    case True
    with assms have "ber x (Prim tag data)" by (auto simp: element_with_def intro: ber_prim)
    with True assms(3) out_tag show ?thesis by (intro exI [of _ "Prim tag data"]) simp
  next
    case constr: False
    show ?thesis
    proof (cases "is_string_type tag")
      case True
      with constr assms(6) out_tag string_tag_ne [OF True] have "frags (tag AND NOT CBS_ASN1_CONSTRUCTED) v data"
        by (simp add: converts_def)
      with constr True assms(1) out_tag ber_str [of tag v _ data] ber_str_indef [of tag v data] have "ber x (Prim out_tag data)"
        by (auto simp: element_with_def ber_string_iff)
      with constr True assms(3) out_tag and_not_constructed show ?thesis by (intro exI [of _ "Prim out_tag data"]) simp
    next
      case False
      with constr assms(6) obtain ns where ns: "bers v ns" "data = concat (map der_of ns)" "\<forall>n \<in> set ns. der_ok (h - 1) n"
        by (auto simp: converts_def)
      with constr False assms(1) have "ber x (Constr tag ns)"
        using ber_constr [of tag v _ ns] ber_constr_indef [of tag v ns] by (auto simp: element_with_def ber_string_iff)
      with constr False assms(3,4) out_tag ns show ?thesis by (intro exI [of _ "Constr tag ns"]) simp
    qed
  qed
  then obtain n where "ber x n" "der_of n = der_element out_tag data" "der_ok h n" by blast
  with ber_single [of x n] show ?thesis unfolding converts_def by (auto intro!: exI [of _ "[n]"])
qed

lemma convert_element:
  assumes al: "good_alloc al" and c: "idle d out" and h: "tag AND CBS_ASN1_CONSTRUCTED \<noteq> 0 \<Longrightarrow> 0 < h"
    and o: "convert_open al st tag d out = (Some (cst, d1), out1)"
    and w: "writes d1 data out1 True out2" and f: "CBB_flush al d out2 = (True, out3)"
    and x: "element_with tag v x" "x \<noteq> [0, 0]"
    and data: "if tag AND CBS_ASN1_CONSTRUCTED = 0 then data = v else converts cst (h - 1) v data"
  shows "\<exists>data. writes d data out True out3 \<and> converts st h x data"
proof (cases "st = 0")
  case False
  with o have e: "cst = st" "d1 = d" "out1 = out" "tag AND NOT CBS_ASN1_CONSTRUCTED = st"
    by (auto simp: convert_open_def split: if_splits)
  then have "writes d data out True out2" using w by simp
  moreover from writes_idle [OF c this] have "writes d [] out2 True out3" by (rule flush_writes_Nil [OF al _ f])
  ultimately have "writes d data out True out3" using writes_trans by fastforce
  with fragment_converts [OF False e(4) x(1)] data e(1) show ?thesis by blast
next
  case True
  let ?cs = "tag AND CBS_ASN1_CONSTRUCTED \<noteq> 0 \<and> is_string_type tag"
  define out_tag where "out_tag = (if ?cs then tag AND NOT CBS_ASN1_CONSTRUCTED else tag)"
  from o True have a: "CBB_add_asn1 al d out_tag out = (True, out1)"
    and e: "d1 = Suc d" "cst = (if ?cs then out_tag else 0)"
    by (auto simp: convert_open_def out_tag_def Let_def split: prod.splits bool.splits if_splits)
  have op: "opens d 1 True (der_tag out_tag) out True out1"
    using CBB_add_asn1_opens [OF al _ a] c by (simp add: idle_def)
  have "writes (Suc d) data out1 True out2" using w e(1) by simp
  from close_der_child [OF al op this f] have len: "length data < 2 ^ 32"
    and wr: "writes d (der_element out_tag data) out True out3" by simp_all
  have "if tag AND CBS_ASN1_CONSTRUCTED = 0 then data = v
      else converts (if is_string_type tag then out_tag else 0) (h - 1) v data"
    using data e(2) by (auto split: if_splits)
  from element_converts [OF x len h out_tag_def this] wr True show ?thesis by blast
qed

lemma convert_depth: "cbs_convert_ber al st looking depth d inp out = (True, inp', out') \<Longrightarrow> depth \<le> kMaxDepth"
  by (subst (asm) cbs_convert_ber.simps) (simp split: if_splits)

lemma is_eoc_iff:
  assumes "cbs_ok c" and "cbs_bytes c = der_tag tag @ lb @ v" and "hl = length (der_tag tag @ lb)" and "lb \<noteq> []"
  shows "is_eoc hl c \<longleftrightarrow> cbs_bytes c = [0, 0]"
proof -
  have l: "cbs_len c = hl + length v" using assms(2,3) length_cbs_bytes [OF assms(1)] by simp
  have "hl = 2" if "hl + length v = 2" using that assms(3,4) der_tag_ne [of tag] by (cases "der_tag tag"; cases lb) auto
  moreover have "hl + length v = 2" if "cbs_bytes c = [0, 0]" using that l length_cbs_bytes [OF assms(1)] by simp
  moreover have "cbs_bytes c = take 2 (cbs_data c)" if "hl + length v = 2" using that l by (simp add: cbs_bytes_def)
  ultimately show ?thesis using l by (auto simp: is_eoc_def CBS_len_def CBS_data_def)
qed

lemma cbs_convert_ber_converts:
  assumes "good_alloc al"
  shows "\<lbrakk>cbs_ok inp; idle d out; cbs_convert_ber al st looking depth d inp out = (True, inp', out')\<rbrakk> \<Longrightarrow>
    cbs_ok inp' \<and> (\<not> looking \<longrightarrow> cbs_bytes inp' = []) \<and>
    (\<exists>x data. cbs_bytes inp = x @ (if looking then [0, 0] else []) @ cbs_bytes inp' \<and>
       writes d data out True out' \<and> converts st (kMaxDepth - depth) x data)"
  using assms
proof (induction al st looking depth d inp out arbitrary: inp' out' rule: cbs_convert_ber.induct)
  case (1 al st looking depth d inp out)
  note E = cbs_convert_ber.simps [of al st looking depth d inp out]
  let ?h = "kMaxDepth - depth"
  have depth: "\<not> depth > kMaxDepth" using "1.prems"(3) by (auto simp: E)
  obtain r in1 where g: "CBS_get_any_ber_asn1_element inp = (r, in1)" by fastforce
  have stop: "?case" if "cbs_ok inp'" "\<not> looking \<longrightarrow> cbs_bytes inp' = []"
      "cbs_bytes inp = (if looking then [0, 0] else []) @ cbs_bytes inp'" "out' = out"
    using that idle_writes_Nil [OF "1.prems"(2)] converts_Nil [of st ?h]
    by (auto intro!: exI [of _ "[]"])
  show ?case
  proof (cases "CBS_len inp = 0")
    case True
    with depth "1.prems"(1,3) show ?thesis by (intro stop) (auto simp: E CBS_len_def cbs_bytes_def split: if_splits)
  next
    case n: False
    with depth g "1.prems"(3) obtain e where e: "r = Some e" by (cases r) (auto simp: E)
    from ber_element_sound [OF "1.prems"(1) g [unfolded e]] obtain lb v where
      b: "cbs_bytes (el_out e) = der_tag (el_tag e) @ lb @ v" "cbs_bytes inp = cbs_bytes (el_out e) @ cbs_bytes in1"
        "el_header_len e = length (der_tag (el_tag e) @ lb)"
      and form: "if indefinite e then lb = [0x80] \<and> v = [] \<and> el_tag e AND CBS_ASN1_CONSTRUCTED \<noteq> 0 else ber_length (length v) lb"
      and ok1: "cbs_ok (el_out e)" "cbs_ok in1" by blast
    have eoc: "is_eoc (el_header_len e) (el_out e) \<longleftrightarrow> cbs_bytes (el_out e) = [0, 0]"
      by (rule is_eoc_iff [OF ok1(1) b(1,3)]) (use form ber_length_ne in \<open>auto split: if_splits\<close>)
    obtain s out1 where o: "convert_open al st (el_tag e) d out = (s, out1)" by fastforce
    show ?thesis
    proof (cases "is_eoc (el_header_len e) (el_out e)")
      case True
      moreover have "looking" "inp' = in1" "out' = out" using True depth n g e "1.prems"(3) by (simp_all add: E)
      ultimately show ?thesis using eoc b(2) ok1(2) by (intro stop) simp_all
    next
      case ne: False
      with depth n g e o "1.prems"(3) obtain cst d1 where s: "s = Some (cst, d1)" by (cases s) (auto simp: E)
      define body where "body = (if indefinite e then cbs_convert_ber al cst True (depth + 1) d1 in1 out1
                     else (case CBS_skip (el_header_len e) (el_out e) of
                       (False, _) \<Rightarrow> (False, in1, out1)
                     | (True, contents) \<Rightarrow>
                         if el_tag e AND CBS_ASN1_CONSTRUCTED \<noteq> 0 then
                           (case cbs_convert_ber al cst False (depth + 1) d1 contents out1 of
                              (ok, _, out2) \<Rightarrow> (ok, in1, out2))
                         else
                           (case CBB_add_bytes al d1 (take (CBS_len contents) (CBS_data contents)) out1 of
                              (ok, out2) \<Rightarrow> (ok, in1, out2))))"
      obtain ok2 in2 out2 where bd: "body = (ok2, in2, out2)" by (metis prod_cases3)
      obtain ok3 out3 where f: "CBB_flush al d out2 = (ok3, out3)" by fastforce
      have ok23: "ok2" "ok3" and tl: "cbs_convert_ber al st looking depth d in2 out3 = (True, inp', out')"
        using "1.prems"(3) depth n g e o s ne bd f
        by (auto simp: E body_def [symmetric] split: bool.splits)
      note bd = bd [simplified ok23(1)] and f = f [simplified ok23(2)]
      note idle1 = convert_open_idle [OF "1.prems"(4,2) o [unfolded s]]
      note IH = "1.IH"(1) [OF depth n g [symmetric] e ne o [symmetric] s refl]
        "1.IH"(2) [OF depth n g [symmetric] e ne o [symmetric] s refl]
        "1.IH"(3) [OF depth n g [symmetric] e ne o [symmetric] s refl bd [unfolded body_def, symmetric] refl refl f [symmetric] refl]
      have h1: "kMaxDepth - (depth + 1) = ?h - 1" by simp
      have "cbs_ok in2 \<and> (\<exists>x y data. cbs_bytes inp = x @ cbs_bytes in2 \<and> x \<noteq> [0, 0] \<and> element_with (el_tag e) y x \<and>
          writes d1 data out1 True out2 \<and> (el_tag e AND CBS_ASN1_CONSTRUCTED \<noteq> 0 \<longrightarrow> 0 < ?h) \<and>
          (if el_tag e AND CBS_ASN1_CONSTRUCTED = 0 then data = y else converts cst (?h - 1) y data))"
      proof (cases "indefinite e")
        case True
        with bd have c: "cbs_convert_ber al cst True (depth + 1) d1 in1 out1 = (True, in2, out2)" by (simp add: body_def)
        from IH(1) [OF True ok1(2) idle1 c "1.prems"(4)] h1 obtain y data where
          y: "cbs_ok in2" "cbs_bytes in1 = y @ [0, 0] @ cbs_bytes in2" "writes d1 data out1 True out2" "converts cst (?h - 1) y data"
          by auto
        let ?x = "der_tag (el_tag e) @ [0x80] @ y @ [0, 0]"
        have "cbs_bytes inp = ?x @ cbs_bytes in2" "?x \<noteq> [0, 0]" "element_with (el_tag e) y ?x"
          using b form True y(2) der_tag_ne [of "el_tag e"]
          by (auto simp: element_with_def append_eq_Cons_conv)
        with y form True convert_depth [OF c] show ?thesis by (intro conjI exI [of _ ?x] exI [of _ y] exI [of _ data]) auto
      next
        case False
        with bd obtain contents where sk: "CBS_skip (el_header_len e) (el_out e) = (True, contents)"
          by (auto simp: body_def split: prod.splits bool.splits)
        have vc: "cbs_bytes contents = v"
        proof -
          have p: "cbs_bytes (el_out e) = (der_tag (el_tag e) @ lb) @ v" using b(1) by simp
          have "contents = cbs_advance (el_header_len e) (el_out e)" using CBS_skip_prefix(1) [OF ok1(1) p] b(3) sk by simp
          then show ?thesis using CBS_skip_prefix(2) [OF ok1(1) p] b(3) by (simp only:)
        qed
        have x: "element_with (el_tag e) v (cbs_bytes (el_out e))" "cbs_bytes (el_out e) \<noteq> [0, 0]"
          using b(1) form False eoc ne by (auto simp: element_with_def)
        have okc: "cbs_ok contents" "cbs_len contents < 2 ^ 64"
          using sk ok1(1) ber_element_shorter(4) [OF g [unfolded e]] by (auto simp: CBS_skip_eq split: if_splits)
        show ?thesis
        proof (cases "el_tag e AND CBS_ASN1_CONSTRUCTED = 0")
          case True
          with bd False sk have w: "CBB_add_bytes al d1 (cbs_bytes contents) out1 = (True, out2)" and i: "in2 = in1"
            by (auto simp: body_def cbs_bytes_def CBS_len_def CBS_data_def split: prod.splits)
          have "writes d1 v out1 True out2"
            using add_bytes.wr_writes [OF "1.prems"(4) _ _ w] idle1 okc vc by (auto simp: idle_def)
          with x b(2) i ok1(2) True show ?thesis
            by (intro conjI exI [of _ "cbs_bytes (el_out e)"] exI [of _ v]) auto
        next
          case constructed: False
          with bd False sk obtain x where c: "cbs_convert_ber al cst False (depth + 1) d1 contents out1 = (True, x, out2)"
            and i: "in2 = in1" by (auto simp: body_def split: prod.splits)
          from IH(2) [OF False sk [symmetric] refl constructed okc(1) idle1 c "1.prems"(4)] h1 vc obtain data where
            y: "writes d1 data out1 True out2" "converts cst (?h - 1) v data" by auto
          with x b(2) i ok1(2) constructed convert_depth [OF c] show ?thesis
            by (intro conjI exI [of _ "cbs_bytes (el_out e)"] exI [of _ v] exI [of _ data]) auto
        qed
      qed
      then obtain x y data where body: "cbs_ok in2" "cbs_bytes inp = x @ cbs_bytes in2" "x \<noteq> [0, 0]" "element_with (el_tag e) y x"
        "writes d1 data out1 True out2" "el_tag e AND CBS_ASN1_CONSTRUCTED \<noteq> 0 \<Longrightarrow> 0 < ?h"
        "if el_tag e AND CBS_ASN1_CONSTRUCTED = 0 then data = y else converts cst (?h - 1) y data" by blast
      from convert_element [OF "1.prems"(4,2) body(6) o [unfolded s] body(5) f body(4,3,7)]
      obtain data1 where d1: "writes d data1 out True out3" "converts st ?h x data1" by auto
      from IH(3) [OF body(1) writes_idle [OF "1.prems"(2) d1(1)] tl "1.prems"(4)]
      obtain z data2 where z: "cbs_ok inp'" "\<not> looking \<longrightarrow> cbs_bytes inp' = []"
        "cbs_bytes in2 = z @ (if looking then [0, 0] else []) @ cbs_bytes inp'"
        "writes d data2 out3 True out'" "converts st ?h z data2" by blast
      have "cbs_bytes inp = (x @ z) @ (if looking then [0, 0] else []) @ cbs_bytes inp'" using body(2) z(3) by simp
      with z writes_trans [OF d1(1) z(4)] converts_append [OF d1(2) z(5)] show ?thesis by blast
    qed
  qed
qed

section \<open>The implicit string reader\<close>

lemma CBB_init_idle:
  "good_alloc al \<Longrightarrow> n < 2 ^ 64 \<Longrightarrow> CBB_init al base_ok n = (True, c) \<Longrightarrow> idle 0 c \<and> cbb_written 0 c = Some []"
  using CBB_init_laws by (simp add: idle_def)

lemma finished_bytes:
  assumes "good_alloc al" and "idle 0 c" and "cbb_written 0 c = Some []" and "writes 0 data c True c1"
    and "CBB_finish al 0 outs c1 = (Some (blk, n), c2)"
  shows "cbs_bytes (CBS_init blk n) = data" and "cbs_ok (CBS_init blk n)"
proof -
  have "cbb_wf c1" "cbb_written 0 c1 = Some data" using assms(3,4) by (auto simp: writes_def)
  with CBB_finish_laws [OF assms(1) _ assms(5)] show "cbs_bytes (CBS_init blk n) = data" "cbs_ok (CBS_init blk n)"
    by (auto simp: cbs_ok_def)
qed

lemma implicit_string_loop_sound:
  assumes "good_alloc al"
  shows "\<lbrakk>cbs_ok child; idle 0 result; implicit_string_loop al inner_tag child result = (True, result')\<rbrakk> \<Longrightarrow>
    \<exists>chunks. cbs_bytes child = concat (map (der_element inner_tag) chunks) \<and> writes 0 (concat chunks) result True result'"
  using assms
proof (induction al inner_tag child result rule: implicit_string_loop.induct)
  case (1 al inner_tag child result)
  note E = implicit_string_loop.simps [of al inner_tag child result]
  show ?case
  proof (cases "CBS_len child = 0")
    case True
    with "1.prems" have "result' = result" "cbs_bytes child = []" by (auto simp: E CBS_len_def cbs_bytes_def)
    with idle_writes_Nil [OF "1.prems"(2)] show ?thesis by (intro exI [of _ "[]"]) simp
  next
    case False
    then obtain chunk child1 where g: "CBS_get_asn1 inner_tag child = (Some chunk, child1)"
      using "1.prems"(3) by (cases "CBS_get_asn1 inner_tag child"; cases "fst (CBS_get_asn1 inner_tag child)") (auto simp: E)
    note s = CBS_get_asn1_sound [OF "1.prems"(1) g]
    obtain ok r1 where w: "CBB_add_bytes al 0 (cbs_bytes chunk) result = (ok, r1)" by fastforce
    have b: "take (CBS_len chunk) (CBS_data chunk) = cbs_bytes chunk" by (simp add: cbs_bytes_def CBS_len_def CBS_data_def)
    from "1.prems"(3) False g w have ok: ok and l: "implicit_string_loop al inner_tag child1 r1 = (True, result')"
      by (auto simp: E b split: bool.splits)
    note w = w [simplified ok]
    have wr: "writes 0 (cbs_bytes chunk) result True r1"
      using add_bytes.wr_writes [OF "1.prems"(4) _ _ w] "1.prems"(2) s by (simp add: idle_def)
    from "1.IH" [OF False g [symmetric] refl w [unfolded b [symmetric], symmetric] refl _ writes_idle [OF "1.prems"(2) wr] l "1.prems"(4)] s
    obtain chunks where "cbs_bytes child1 = concat (map (der_element inner_tag) chunks)"
      "writes 0 (concat chunks) r1 True result'" by blast
    with s writes_trans [OF wr] show ?thesis by (intro exI [of _ "cbs_bytes chunk # chunks"]) simp
  qed
qed

lemma ber_to_der_converts:
  assumes "good_alloc al" and "cbs_ok inp" and "cbs_len inp < 2 ^ 64"
    and "CBS_asn1_ber_to_der al base_ok inp = (Some (out, Some blk), inp')"
  shows "cbs_ok out \<and> cbs_bytes inp' = [] \<and>
    (\<exists>ns. bers (cbs_bytes inp) ns \<and> cbs_bytes out = concat (map der_of ns) \<and> (\<forall>n \<in> set ns. der_ok kMaxDepth n))"
proof -
  from assms(4) obtain c c1 c2 len where
    i: "CBB_init al base_ok (CBS_len inp) = (True, c)"
    and conv: "cbs_convert_ber al 0 False 0 0 inp c = (True, inp', c1)"
    and fin: "CBB_finish al 0 True c1 = (Some (blk, len), c2)" and out: "out = CBS_init blk len"
    by (auto simp: CBS_asn1_ber_to_der_def split: option.splits prod.splits bool.splits if_splits)
  have idle: "idle 0 c" "cbb_written 0 c = Some []" using CBB_init_idle [OF assms(1) _ i] assms(3) by (simp_all add: CBS_len_def)
  from cbs_convert_ber_converts [OF assms(1,2) idle(1) conv] obtain data where
    d: "cbs_bytes inp' = []" "writes 0 data c True c1" "converts 0 kMaxDepth (cbs_bytes inp) data" by auto
  note f = finished_bytes [OF assms(1) idle d(2) fin, folded out]
  from d(1,3) f show ?thesis by (simp add: converts_def)
qed

section \<open>Properties\<close>

text \<open>
  C16. When \<open>CBS_asn1_ber_to_der\<close> converts its input, the whole input was a sequence of BER elements, and the
  output is the DER serialisation of the same values: every length in its shortest form, no indefinite length,
  and every constructed string of a type in \<open>CBS_ASN1_STRINGS\<close> made primitive, with its fragments joined.  (Other BER
  that \<open>Ber_Spec\<close> keeps as it is, as in a constructed BIT STRING, is not normalised.)  The input is consumed, and the
  search finds nothing more to convert in the output.
\<close>

theorem ber_to_der_normalizes:
  assumes "good_alloc al" and "cbs_ok inp" and "cbs_len inp < 2 ^ 64"
    and "CBS_asn1_ber_to_der al base_ok inp = (Some (out, Some blk), inp')"
  shows "(\<exists>ns. bers (cbs_bytes inp) ns \<and> cbs_bytes out = concat (map der_of ns) \<and> (\<forall>n \<in> set ns. der_ok kMaxDepth n)) \<and>
    cbs_bytes inp' = [] \<and> cbs_find_ber 0 out = Some False"
proof -
  note c = ber_to_der_converts [OF assms]
  then show ?thesis using cbs_find_ber_nodes by blast
qed

theorem ber_to_der_normalizes_witness:
  "\<exists>out blk inp' ns. CBS_asn1_ber_to_der zero_alloc True (CBS_init [0x24, 0x80, 4, 1, 7, 4, 1, 8, 0, 0] 10) =
     (Some (out, Some blk), inp') \<and> cbs_bytes out = [4, 2, 7, 8] \<and> bers [0x24, 0x80, 4, 1, 7, 4, 1, 8, 0, 0] ns \<and>
     concat (map der_of ns) = [4, 2, 7, 8] \<and> cbs_bytes inp' = [] \<and> cbs_find_ber 0 out = Some False"
proof -
  have "fst (CBS_asn1_ber_to_der zero_alloc True (CBS_init [0x24, 0x80, 4, 1, 7, 4, 1, 8, 0, 0] 10)) =
      Some (\<lparr>cbs_data = [4, 2, 7, 8, 0, 0, 0, 0, 0, 0], cbs_len = 4\<rparr>, Some [4, 2, 7, 8, 0, 0, 0, 0, 0, 0])" by code_simp
  then obtain inp' where e: "CBS_asn1_ber_to_der zero_alloc True (CBS_init [0x24, 0x80, 4, 1, 7, 4, 1, 8, 0, 0] 10) =
      (Some (\<lparr>cbs_data = [4, 2, 7, 8, 0, 0, 0, 0, 0, 0], cbs_len = 4\<rparr>, Some [4, 2, 7, 8, 0, 0, 0, 0, 0, 0]), inp')"
    by (metis prod.collapse)
  from ber_to_der_normalizes [OF good_zero_alloc _ _ this] e show ?thesis
    by (fastforce simp: cbs_ok_def cbs_bytes_def CBS_init_def)
qed

text \<open>
  DER comes back untouched: on a sequence of well formed nodes \<open>CBS_asn1_ber_to_der\<close> returns the
  bytes of the first, without a copy, and leaves the others in the input.
\<close>

theorem ber_to_der_keeps_der:
  assumes "cbs_ok inp" and "cbs_bytes inp = concat (map der_of (n # ns))" and "\<forall>m \<in> set (n # ns). der_ok kMaxDepth m"
  shows "\<exists>out inp'. CBS_asn1_ber_to_der al base_ok inp = (Some (out, None), inp') \<and> cbs_bytes out = der_of n \<and>
    cbs_bytes inp' = concat (map der_of ns)"
proof -
  have "cbs_bytes inp = der_element (node_tag n) (node_body n) @ concat (map der_of ns)"
    using assms(2) by (simp add: der_eq)
  from element_complete [OF assms(1) der_ok_length this, of kMaxDepth False] assms(3) obtain e inp' where
    "CBS_get_any_asn1_element inp = (Some e, inp')" "cbs_bytes (el_out e) = der_of n"
    "cbs_bytes inp' = concat (map der_of ns)" by (auto simp: CBS_get_any_asn1_element_def der_eq)
  with cbs_find_ber_nodes [OF assms] show ?thesis by (simp add: CBS_asn1_ber_to_der_def)
qed

text \<open>
  C21. \<open>CBS_get_asn1_implicit_string\<close> returns the contents of the primitive string with the outer tag, or
  the concatenation of the fragments, each one primitive with the inner tag, of the constructed string
  with the outer tag; it consumes exactly that element, and copies only in the second case.
\<close>

theorem implicit_string_exact:
  assumes "good_alloc al" and "cbs_ok inp" and "cbs_len inp < 2 ^ 64"
    and "CBS_get_asn1_implicit_string al base_ok outer_tag inner_tag inp = (Some (out, storage), inp')"
  shows "if storage = None then cbs_bytes inp = der_element outer_tag (cbs_bytes out) @ cbs_bytes inp'
    else \<exists>chunks. cbs_bytes out = concat chunks \<and> cbs_bytes inp =
      der_element (outer_tag OR CBS_ASN1_CONSTRUCTED) (concat (map (der_element inner_tag) chunks)) @ cbs_bytes inp'"
proof (cases "CBS_peek_asn1_tag inp outer_tag")
  case True
  with assms(4) have "CBS_get_asn1 outer_tag inp = (Some out, inp')" "storage = None"
    by (auto simp: CBS_get_asn1_implicit_string_def split: prod.splits option.splits)
  with CBS_get_asn1_sound [OF assms(2)] show ?thesis by simp
next
  case False
  with assms(4) obtain c child c1 blk len c2 where
    i: "CBB_init al base_ok (CBS_len inp) = (True, c)"
    and g: "CBS_get_asn1 (outer_tag OR CBS_ASN1_CONSTRUCTED) inp = (Some child, inp')"
    and l: "implicit_string_loop al inner_tag child c = (True, c1)"
    and fin: "CBB_finish al 0 True c1 = (Some (blk, len), c2)" and out: "out = CBS_init blk len" "storage = Some blk"
    by (auto simp: CBS_get_asn1_implicit_string_def split: option.splits prod.splits bool.splits if_splits)
  have idle: "idle 0 c" "cbb_written 0 c = Some []" using CBB_init_idle [OF assms(1) _ i] assms(3) by (simp_all add: CBS_len_def)
  note s = CBS_get_asn1_sound [OF assms(2) g]
  then have "cbs_ok child" by simp
  from implicit_string_loop_sound [OF assms(1) this idle(1) l] obtain chunks where
    c: "cbs_bytes child = concat (map (der_element inner_tag) chunks)" "writes 0 (concat chunks) c True c1" by blast
  from finished_bytes [OF assms(1) idle c(2) fin] s c(1) out show ?thesis by auto
qed

theorem implicit_string_exact_witness:
  "\<exists>chunks. ([7, 8] :: byte list) = concat chunks \<and>
     ([0xa0, 6, 4, 1, 7, 4, 1, 8, 5] :: byte list) =
       der_element (0x80000000 OR CBS_ASN1_CONSTRUCTED) (concat (map (der_element 4) chunks)) @ [5]"
proof -
  have e: "CBS_get_asn1_implicit_string zero_alloc True 0x80000000 4 (CBS_init [0xa0, 6, 4, 1, 7, 4, 1, 8, 5] 9) =
      (Some (\<lparr>cbs_data = [7, 8, 0, 0, 0, 0, 0, 0, 0], cbs_len = 2\<rparr>, Some [7, 8, 0, 0, 0, 0, 0, 0, 0]),
       \<lparr>cbs_data = [5], cbs_len = 1\<rparr>)" by code_simp
  from implicit_string_exact [OF good_zero_alloc _ _ e] show ?thesis
    by (simp add: cbs_ok_def cbs_bytes_def CBS_init_def)
qed

lemma find_ber_indefinite:
  assumes "cbs_ok c" and "cbs_bytes c = der_tag t @ [0x80] @ w" and "t AND CBS_ASN1_CONSTRUCTED \<noteq> 0"
  shows "find_ber_loop depth b c = Some True"
proof -
  from parse_asn1_tag_complete [OF assms(1,2)] obtain h1 where
    h1: "parse_asn1_tag c = (Some t, h1)" "cbs_bytes h1 = [0x80] @ w" "cbs_ok h1" by blast
  have g: "CBS_get_u8 h1 = (Some 0x80, cbs_advance 1 h1)" using h1(2,3) by (intro CBS_get_u8_Cons) simp_all
  let ?hl = "CBS_len c - CBS_len (cbs_advance 1 h1)"
  have n: "0 < CBS_len c" using assms(1,2) length_cbs_bytes [OF assms(1)] by (simp add: CBS_len_def)
  have "CBS_get_any_ber_asn1_element c = asn1_finish c t ?hl ?hl True"
    using h1(1) g assms(3) by (simp add: CBS_get_any_ber_asn1_element_def cbs_get_any_asn1_element_def Let_def byte_high_bit)
  moreover have "cbs_bytes c = take ?hl (cbs_bytes c) @ drop ?hl (cbs_bytes c)" "length (take ?hl (cbs_bytes c)) = ?hl"
    using length_cbs_bytes [OF assms(1)] by (simp_all add: CBS_len_def)
  from asn1_finish_append [OF assms(1) this(1)] this(2) obtain e c1 where
    "asn1_finish c t ?hl ?hl True = (Some e, c1)" "el_ber_found e" by (metis (no_types, lifting))
  ultimately show ?thesis using n by (subst find_ber_loop.simps) simp
qed

text \<open>
  C22. The search forgets BER that it has found in a constructed element when a DER element follows it: with an
  element of indefinite length at the head of its contents, such an element counts as BER only if it is the last of the
  input.  When DER elements follow, \<open>CBS_asn1_ber_to_der\<close> hands the element over as it is, indefinite length included,
  as if it were DER.
\<close>

theorem ber_to_der_departures:
  assumes "cbs_ok inp" and "cbs_bytes inp = der_element tag v @ concat (map der_of ns)" and "\<forall>n \<in> set ns. der_ok kMaxDepth n"
    and "tag AND CBS_ASN1_CONSTRUCTED \<noteq> 0" and "\<not> is_string_type tag" and "length v < 2 ^ 32"
    and "v = der_tag t @ [0x80] @ w" and "t AND CBS_ASN1_CONSTRUCTED \<noteq> 0"
  shows "cbs_find_ber 0 inp = Some (ns = []) \<and>
    (ns \<noteq> [] \<longrightarrow> (\<exists>out inp'. CBS_asn1_ber_to_der al base_ok inp = (Some (out, None), inp') \<and> cbs_bytes out = der_element tag v \<and>
       cbs_bytes inp' = concat (map der_of ns)))"
proof -
  let ?c = "CBS_init (CBS_data inp) (CBS_len inp)"
  have c: "cbs_ok ?c" "cbs_bytes ?c = der_element tag v @ concat (map der_of ns)"
    using assms(1,2) by (simp_all add: CBS_init_def CBS_data_def CBS_len_def cbs_bytes_def cbs_ok_def)
  from get_ber_node [OF c(1) assms(6) c(2)] obtain e c1 out where
    e: "CBS_get_any_ber_asn1_element ?c = (Some e, c1)" "el_tag e = tag" "\<not> el_ber_found e"
      "CBS_skip (el_header_len e) (el_out e) = (True, out)" "cbs_bytes out = v" "cbs_ok out"
      "cbs_bytes c1 = concat (map der_of ns)" "cbs_ok c1" by blast
  have "find_ber_loop (0 + 1) False (CBS_init (CBS_data out) (CBS_len out)) = Some True"
    by (rule find_ber_indefinite [OF _ _ assms(8), of _ w])
      (use e(5,6) assms(7) in \<open>simp_all add: CBS_init_def CBS_data_def CBS_len_def cbs_bytes_def cbs_ok_def\<close>)
  then have inner: "cbs_find_ber (0 + 1) out = Some True" by (subst cbs_find_ber.simps) (simp add: kMaxDepth_def)
  have rest: "find_ber_loop 0 True c1 = Some (ns = [])"
    using find_ber_nodes [OF e(8,7) assms(3), of 0 True] by simp
  have "cbs_bytes ?c \<noteq> []" unfolding c(2) using der_element_ne [of tag v] by blast
  moreover have "length (cbs_bytes ?c) = CBS_len ?c" using length_cbs_bytes [OF c(1)] unfolding CBS_len_def .
  ultimately have "CBS_len ?c \<noteq> 0" by (metis length_0_conv)
  then have "find_ber_loop 0 False ?c = Some (ns = [])"
    using e(1-4) assms(4,5) inner rest by (subst find_ber_loop.simps) simp
  then have f: "cbs_find_ber 0 inp = Some (ns = [])" by (subst cbs_find_ber.simps) simp
  from element_complete [OF assms(1,6,2), of False] obtain e2 inp' where
    "CBS_get_any_asn1_element inp = (Some e2, inp')" "cbs_bytes (el_out e2) = der_element tag v"
    "cbs_bytes inp' = concat (map der_of ns)" by (auto simp: CBS_get_any_asn1_element_def)
  with f show ?thesis by (auto simp: CBS_asn1_ber_to_der_def)
qed

theorem ber_to_der_departures_witness:
  "(\<exists>out inp'. CBS_asn1_ber_to_der zero_alloc True (CBS_init [0x30, 4, 0x30, 0x80, 0, 0, 5, 0] 8) = (Some (out, None), inp') \<and>
     cbs_bytes out = [0x30, 4, 0x30, 0x80, 0, 0] \<and> cbs_bytes inp' = [5, 0]) \<and>
   cbs_find_ber 0 (CBS_init [0x30, 4, 0x30, 0x80, 0, 0] 6) = Some True"
proof -
  let ?t = "0x20000010 :: u32" and ?v = "[0x30, 0x80, 0, 0] :: byte list"
  have t: "der_tag ?t = [0x30]" "der_element ?t ?v = [0x30, 4, 0x30, 0x80, 0, 0]" "der_element 5 [] = [5, 0]"
    "?t AND CBS_ASN1_CONSTRUCTED \<noteq> 0" "\<not> is_string_type ?t" "(5 :: u32) AND CBS_ASN1_CONSTRUCTED = 0" by code_simp+
  have v: "length ?v < 2 ^ 32" "?v = der_tag ?t @ [0x80] @ [0, 0]" using t(1) by simp_all
  have n: "concat (map der_of [Prim 5 []]) = [5, 0]" "\<forall>n \<in> set [Prim 5 []]. der_ok kMaxDepth n" using t(3,6) by simp_all
  define a where "a = CBS_init [0x30, 4, 0x30, 0x80, 0, 0, 5, 0] 8"
  define b where "b = CBS_init [0x30, 4, 0x30, 0x80, 0, 0] 6"
  have A: "cbs_ok a" "cbs_bytes a = der_element ?t ?v @ concat (map der_of [Prim 5 []])"
    unfolding n(1) t(2) a_def by (simp_all add: cbs_ok_def cbs_bytes_def CBS_init_def)
  have B: "cbs_ok b" "cbs_bytes b = der_element ?t ?v @ concat (map der_of [])"
    unfolding t(2) b_def by (simp_all add: cbs_ok_def cbs_bytes_def CBS_init_def)
  have "\<exists>out inp'. CBS_asn1_ber_to_der zero_alloc True a = (Some (out, None), inp') \<and>
      cbs_bytes out = der_element ?t ?v \<and> cbs_bytes inp' = concat (map der_of [Prim 5 []])"
    using ber_to_der_departures [OF A n(2) t(4,5) v t(4)] by blast
  moreover have "cbs_find_ber 0 b = Some True" using ber_to_der_departures [OF B _ t(4,5) v t(4)] by simp
  ultimately show ?thesis unfolding n(1) t(2) a_def b_def by blast
qed

text \<open>
  \<open>CBB_finish_i2d\<close>: the result is the length of what was written, below \<open>2\<^sup>3\<^sup>1\<close>, and the bytes
  are left in a fresh block, or at the caller's position, which moves behind them.
\<close>

theorem finish_i2d_exact:
  assumes "good_alloc al" and "cbb_wf c" and "cbb_written 0 c = Some bs" and "CBB_finish_i2d al c outp = (r, outp')"
    and "0 \<le> r"
  shows "r = int (length bs) \<and> length bs < 2 ^ 31 \<and>
    (outp = None \<longrightarrow> outp' = None) \<and>
    (outp = Some None \<longrightarrow> (\<exists>blk. outp' = Some (Some (blk, 0)) \<and> take (length bs) blk = bs)) \<and>
    (\<forall>mem pos. outp = Some (Some (mem, pos)) \<longrightarrow> outp' = Some (Some (mem_write pos bs mem, pos + length bs)))"
proof -
  from assms(4,5) obtain blk n c1 where f: "CBB_finish al 0 True c = (Some (blk, n), c1)"
    by (auto simp: CBB_finish_i2d_def split: prod.splits option.splits)
  note l = CBB_finish_laws [OF assms(1,2) f]
  then have "bs = take n blk" "length bs = n" using assms(3) by simp_all
  with assms(4,5) f show ?thesis by (auto simp: CBB_finish_i2d_def split: if_splits option.splits)
qed

end
