(* ===== verification/Sk_Stack.thy ===== *)
theory Sk_Stack
  imports Prelude "HOL-Library.Multiset" "HOL-Library.Code_Target_Numeral"
begin

text \<open>
  \<open>crypto/stack/stack.c\<close>: growing arrays of pointers with an optional order.  A pointer is an \<open>option\<close>
  (\<open>None\<close> is \<open>NULL\<close>) of what identifies the pointee; a \<open>_STACK *\<close> is an \<open>option\<close> of the structure.  A
  comparison function is known by its address; \<open>call_cmp_func\<close> gives the address its meaning.
  \<open>malloc\<close> and \<open>realloc\<close> of pointer arrays, and \<open>qsort\<close>, are parameters.
\<close>

section \<open>State\<close>

record ('a, 'c) stack_st =
  st_num :: nat
  st_data :: "'a option list"  \<comment> \<open>all \<open>num_alloc\<close> pointers of the block\<close>
  st_sorted :: bool
  st_num_alloc :: nat
  st_comp :: "'c option"

type_synonym ('a, 'c) cmp_caller = "'c \<Rightarrow> 'a option \<Rightarrow> 'a option \<Rightarrow> int"
type_synonym 'a ptr_alloc = "nat \<Rightarrow> 'a option list option"

text \<open>An allocator asked for a number of bytes refuses or gives a block of that size; a pointer has 8 bytes.\<close>

definition good_ptr_alloc :: "'a ptr_alloc \<Rightarrow> bool" where
  "good_ptr_alloc al \<longleftrightarrow> (\<forall>n blk. al n = Some blk \<longrightarrow> length blk = n div 8)"

definition ptr_realloc :: "'a ptr_alloc \<Rightarrow> 'a option list \<Rightarrow> nat \<Rightarrow> 'a option list option" where
  "ptr_realloc al old n =
     (case al n of None \<Rightarrow> None | Some blk \<Rightarrow> Some (take (n div 8) old @ drop (length old) blk))"

definition mem_move :: "nat \<Rightarrow> nat \<Rightarrow> nat \<Rightarrow> 'a list \<Rightarrow> 'a list" where
  "mem_move dst src n xs = take dst xs @ take n (drop src xs) @ drop (dst + n) xs"

section \<open>Operations\<close>

definition kMinSize :: nat where "kMinSize = 4"

definition sk_new :: "'a ptr_alloc \<Rightarrow> bool \<Rightarrow> 'c option \<Rightarrow> ('a, 'c) stack_st option" where
  "sk_new al struct_ok comp_fn =
     (if \<not> struct_ok then None
      else case al (8 * kMinSize) of
        None \<Rightarrow> None
      | Some blk \<Rightarrow> Some \<lparr>st_num = 0, st_data = replicate kMinSize None, st_sorted = False,
                          st_num_alloc = kMinSize, st_comp = comp_fn\<rparr>)"

definition sk_new_null :: "'a ptr_alloc \<Rightarrow> bool \<Rightarrow> ('a, 'c) stack_st option" where
  "sk_new_null al struct_ok = sk_new al struct_ok None"

fun sk_num :: "('a, 'c) stack_st option \<Rightarrow> nat" where
  "sk_num None = 0"
| "sk_num (Some sk) = st_num sk"

fun sk_zero :: "('a, 'c) stack_st option \<Rightarrow> ('a, 'c) stack_st option" where
  "sk_zero None = None"
| "sk_zero (Some sk) =
     (if st_num sk = 0 then Some sk
      else Some (sk\<lparr>st_data := replicate (st_num sk) None @ drop (st_num sk) (st_data sk), st_num := 0,
                    st_sorted := False\<rparr>))"

fun sk_value :: "('a, 'c) stack_st option \<Rightarrow> nat \<Rightarrow> 'a option" where
  "sk_value None i = None"
| "sk_value (Some sk) i = (if i \<ge> st_num sk then None else st_data sk ! i)"

fun sk_set :: "('a, 'c) stack_st option \<Rightarrow> nat \<Rightarrow> 'a option \<Rightarrow> 'a option \<times> ('a, 'c) stack_st option" where
  "sk_set None i v = (None, None)"
| "sk_set (Some sk) i v =
     (if i \<ge> st_num sk then (None, Some sk) else (v, Some (sk\<lparr>st_data := (st_data sk)[i := v]\<rparr>)))"

text \<open>The pointers given to the caller's free function, in order; the memory itself has no state here.\<close>

definition sk_pop_free_ex :: "('a, 'c) stack_st option \<Rightarrow> 'a list" where
  "sk_pop_free_ex sk =
     (case sk of None \<Rightarrow> []
      | Some s \<Rightarrow> List.map_filter (\<lambda>i. if st_data s ! i \<noteq> None then st_data s ! i else None) [0..<st_num s])"

definition sk_pop_free :: "('a, 'c) stack_st option \<Rightarrow> 'a list" where
  "sk_pop_free sk = sk_pop_free_ex sk"

text \<open>The new number of pointers in \<open>sk_insert\<close>, with the overflow tests of the source.\<close>

definition grow_alloc :: "nat \<Rightarrow> nat option" where
  "grow_alloc num_alloc =
     (let new_alloc = size_wrap (num_alloc * 2);
          alloc_size = size_wrap (new_alloc * 8);
          overflow = (new_alloc < num_alloc \<or> alloc_size div 8 \<noteq> new_alloc);
          new_alloc2 = (if overflow then size_wrap (num_alloc + 1) else new_alloc);
          alloc_size2 = (if overflow then size_wrap (new_alloc2 * 8) else alloc_size)
      in if new_alloc2 < num_alloc \<or> alloc_size2 div 8 \<noteq> new_alloc2 then None else Some new_alloc2)"

definition sk_reserve :: "'a ptr_alloc \<Rightarrow> ('a, 'c) stack_st \<Rightarrow> ('a, 'c) stack_st option" where
  "sk_reserve al sk =
     (if st_num_alloc sk \<le> st_num sk + 1 then
        (case grow_alloc (st_num_alloc sk) of
           None \<Rightarrow> None
         | Some new_alloc \<Rightarrow>
             (case ptr_realloc al (st_data sk) (size_wrap (new_alloc * 8)) of
                None \<Rightarrow> None
              | Some dat \<Rightarrow> Some (sk\<lparr>st_data := dat, st_num_alloc := new_alloc\<rparr>)))
      else Some sk)"

fun sk_insert :: "'a ptr_alloc \<Rightarrow> ('a, 'c) stack_st option \<Rightarrow> 'a option \<Rightarrow> nat \<Rightarrow> nat \<times> ('a, 'c) stack_st option" where
  "sk_insert al None p i = (0, None)"
| "sk_insert al (Some sk) p i =
     (case sk_reserve al sk of
        None \<Rightarrow> (0, Some sk)
      | Some sk1 \<Rightarrow>
          let n = st_num sk1;
              dat = (if i \<ge> n then (st_data sk1)[n := p]
                     else (mem_move (i + 1) i (n - i) (st_data sk1))[i := p])
          in (n + 1, Some (sk1\<lparr>st_data := dat, st_num := n + 1, st_sorted := False\<rparr>)))"

fun sk_delete :: "('a, 'c) stack_st option \<Rightarrow> nat \<Rightarrow> 'a option \<times> ('a, 'c) stack_st option" where
  "sk_delete None i = (None, None)"
| "sk_delete (Some sk) i =
     (if i \<ge> st_num sk then (None, Some sk)
      else let ret = st_data sk ! i;
               dat = (if i \<noteq> st_num sk - 1 then mem_move i (i + 1) (st_num sk - i - 1) (st_data sk) else st_data sk)
           in (ret, Some (sk\<lparr>st_data := dat, st_num := st_num sk - 1\<rparr>)))"

fun sk_delete_ptr :: "('a, 'c) stack_st option \<Rightarrow> 'a option \<Rightarrow> 'a option \<times> ('a, 'c) stack_st option" where
  "sk_delete_ptr None p = (None, None)"
| "sk_delete_ptr (Some sk) p =
     (case find (\<lambda>i. st_data sk ! i = p) [0..<st_num sk] of
        Some i \<Rightarrow> sk_delete (Some sk) i
      | None \<Rightarrow> (None, Some sk))"

fun sk_is_sorted :: "('a, 'c) stack_st option \<Rightarrow> bool" where
  "sk_is_sorted None = True"
| "sk_is_sorted (Some sk) = st_sorted sk"

text \<open>The binary search of \<open>sk_find\<close>; it narrows the half open range even after a match.\<close>

function sk_bsearch :: "('a option \<Rightarrow> 'a option \<Rightarrow> int) \<Rightarrow> 'a option \<Rightarrow> 'a option list \<Rightarrow> nat \<Rightarrow> nat \<Rightarrow> nat option" where
  "sk_bsearch cmp p dat lo hi =
     (if lo < hi then
        let mid = lo + (hi - lo - 1) div 2;
            r = cmp p (dat ! mid)
        in if r > 0 then sk_bsearch cmp p dat (mid + 1) hi
           else if r < 0 then sk_bsearch cmp p dat lo mid
           else if hi - lo = 1 then Some mid
           else sk_bsearch cmp p dat lo (mid + 1)
      else None)"
  by pat_completeness auto
termination
  by (relation "measure (\<lambda>(_, _, _, lo, hi). hi - lo)") (auto simp: Let_def)

declare sk_bsearch.simps [simp del]

fun sk_find :: "('a, 'c) cmp_caller \<Rightarrow> ('a, 'c) stack_st option \<Rightarrow> 'a option \<Rightarrow> nat option" where
  "sk_find call_cmp None p = None"
| "sk_find call_cmp (Some sk) p =
     (case st_comp sk of
        None \<Rightarrow> find (\<lambda>i. st_data sk ! i = p) [0..<st_num sk]
      | Some cmp \<Rightarrow>
          if p = None then None
          else if \<not> sk_is_sorted (Some sk)
          then find (\<lambda>i. call_cmp cmp p (st_data sk ! i) = 0) [0..<st_num sk]
          else sk_bsearch (call_cmp cmp) p (st_data sk) 0 (st_num sk))"

fun sk_shift :: "('a, 'c) stack_st option \<Rightarrow> 'a option \<times> ('a, 'c) stack_st option" where
  "sk_shift None = (None, None)"
| "sk_shift (Some sk) = (if st_num sk = 0 then (None, Some sk) else sk_delete (Some sk) 0)"

text \<open>\<open>sk_push\<close> reads \<open>sk->num\<close>, so the caller must not pass \<open>NULL\<close>.\<close>

definition sk_push :: "'a ptr_alloc \<Rightarrow> ('a, 'c) stack_st \<Rightarrow> 'a option \<Rightarrow> nat \<times> ('a, 'c) stack_st option" where
  "sk_push al sk p = sk_insert al (Some sk) p (st_num sk)"

fun sk_pop :: "('a, 'c) stack_st option \<Rightarrow> 'a option \<times> ('a, 'c) stack_st option" where
  "sk_pop None = (None, None)"
| "sk_pop (Some sk) = (if st_num sk = 0 then (None, Some sk) else sk_delete (Some sk) (st_num sk - 1))"

fun sk_dup :: "'a ptr_alloc \<Rightarrow> bool \<Rightarrow> ('a, 'c) stack_st option \<Rightarrow> ('a, 'c) stack_st option" where
  "sk_dup al struct_ok None = None"
| "sk_dup al struct_ok (Some sk) =
     (if \<not> struct_ok then None
      else case al (size_wrap (8 * st_num_alloc sk)) of
        None \<Rightarrow> None
      | Some blk \<Rightarrow> Some \<lparr>st_num = st_num sk,
                          st_data = take (st_num sk) (st_data sk) @ drop (st_num sk) blk,
                          st_sorted = st_sorted sk, st_num_alloc = st_num_alloc sk, st_comp = st_comp sk\<rparr>)"

text \<open>\<open>qs\<close> is the C library's \<open>qsort\<close> on the array of pointers.\<close>

fun sk_sort :: "(('a option \<Rightarrow> 'a option \<Rightarrow> int) \<Rightarrow> 'a option list \<Rightarrow> 'a option list) \<Rightarrow> ('a, 'c) cmp_caller \<Rightarrow>
    ('a, 'c) stack_st option \<Rightarrow> ('a, 'c) stack_st option" where
  "sk_sort qs call_cmp None = None"
| "sk_sort qs call_cmp (Some sk) =
     (case st_comp sk of
        None \<Rightarrow> Some sk
      | Some cmp \<Rightarrow>
          if st_sorted sk then Some sk
          else Some (sk\<lparr>st_data := (if st_num sk \<ge> 2
                            then qs (call_cmp cmp) (take (st_num sk) (st_data sk)) @ drop (st_num sk) (st_data sk)
                            else st_data sk),
                        st_sorted := True\<rparr>))"

definition sk_set_cmp_func :: "('a, 'c) stack_st \<Rightarrow> 'c option \<Rightarrow> 'c option \<times> ('a, 'c) stack_st" where
  "sk_set_cmp_func sk comp_fn =
     (st_comp sk, sk\<lparr>st_sorted := (if st_comp sk \<noteq> comp_fn then False else st_sorted sk), st_comp := comp_fn\<rparr>)"

text \<open>
  The loop of \<open>sk_deep_copy\<close> from index \<open>i\<close>: \<open>copy i x\<close> is what the caller's function returns for the
  element at \<open>i\<close>.  A failure gives the pointers handed to the caller's free function.
\<close>

function deep_copy_loop :: "(nat \<Rightarrow> 'a \<Rightarrow> 'a option) \<Rightarrow> ('a, 'c) stack_st \<Rightarrow> nat \<Rightarrow> 'a list + ('a, 'c) stack_st" where
  "deep_copy_loop copy ret i =
     (if i < st_num ret then
        (case st_data ret ! i of
           None \<Rightarrow> deep_copy_loop copy ret (i + 1)
         | Some x \<Rightarrow>
             let ret1 = ret\<lparr>st_data := (st_data ret)[i := copy i x]\<rparr>
             in if copy i x = None then Inl (List.map_filter (\<lambda>j. st_data ret1 ! j) [0..<i])
                else deep_copy_loop copy ret1 (i + 1))
      else Inr ret)"
  by pat_completeness auto
termination
  by (relation "measure (\<lambda>(_, ret, i). st_num ret - i)") auto

declare deep_copy_loop.simps [simp del]

definition sk_deep_copy ::
  "'a ptr_alloc \<Rightarrow> bool \<Rightarrow> (nat \<Rightarrow> 'a \<Rightarrow> 'a option) \<Rightarrow> ('a, 'c) stack_st option \<Rightarrow> ('a, 'c) stack_st option \<times> 'a list" where
  "sk_deep_copy al struct_ok copy sk =
     (case sk_dup al struct_ok sk of
        None \<Rightarrow> (None, [])
      | Some ret \<Rightarrow> (case deep_copy_loop copy ret 0 of Inl freed \<Rightarrow> (None, freed) | Inr ret1 \<Rightarrow> (Some ret1, [])))"

section \<open>The list a stack stands for\<close>

lemma grow_alloc_eq:
  assumes "n < 2 ^ 61"
  shows "grow_alloc n = (if n < 2 ^ 60 then Some (n * 2) else if n + 1 < 2 ^ 61 then Some (n + 1) else None)"
proof (cases "n < 2 ^ 60")
  case True
  then have "size_wrap (n * 2) = n * 2" "size_wrap (n * 2 * 8) = n * 2 * 8" by simp_all
  with True show ?thesis by (simp add: grow_alloc_def Let_def)
next
  case False
  have w: "size_wrap (n * 2) = n * 2" "size_wrap (n + 1) = n + 1" using assms by simp_all
  have "size_wrap (n * 2 * 8) = n * 2 * 8 - 2 ^ 64" using False assms by (simp add: size_wrap_def le_mod_geq)
  then have o: "size_wrap (n * 2 * 8) div 8 \<noteq> n * 2" using False by simp
  show ?thesis
  proof (cases "n + 1 < 2 ^ 61")
    case True
    then have "size_wrap ((n + 1) * 8) = (n + 1) * 8" by simp
    with True False o show ?thesis unfolding grow_alloc_def Let_def w by simp
  next
    case False
    with assms have n: "n = 2 ^ 61 - 1" by simp
    show ?thesis unfolding n by code_simp
  qed
qed

definition stack_ok :: "('a, 'c) stack_st \<Rightarrow> bool" where
  "stack_ok sk \<longleftrightarrow> length (st_data sk) = st_num_alloc sk \<and> st_num sk \<le> st_num_alloc sk \<and>
     0 < st_num_alloc sk \<and> st_num_alloc sk < 2 ^ 61"

definition elems :: "('a, 'c) stack_st \<Rightarrow> 'a option list" where
  "elems sk = take (st_num sk) (st_data sk)"

lemma length_elems: "stack_ok sk \<Longrightarrow> length (elems sk) = st_num sk"
  by (simp add: stack_ok_def elems_def)

lemma elems_nth: "i < st_num sk \<Longrightarrow> st_data sk ! i = elems sk ! i"
  by (simp add: elems_def)

lemma sk_reserve_laws:
  assumes "good_ptr_alloc al" and "stack_ok sk" and "sk_reserve al sk = Some sk1"
  shows "stack_ok sk1" and "st_num sk1 = st_num sk" and "elems sk1 = elems sk" and "st_num sk < st_num_alloc sk1"
    and "st_comp sk1 = st_comp sk" and "st_sorted sk1 = st_sorted sk"
proof -
  have "stack_ok sk1 \<and> st_num sk1 = st_num sk \<and> elems sk1 = elems sk \<and> st_num sk < st_num_alloc sk1 \<and>
    st_comp sk1 = st_comp sk \<and> st_sorted sk1 = st_sorted sk"
  proof (cases "st_num_alloc sk \<le> st_num sk + 1")
    case False
    with assms show ?thesis by (auto simp: sk_reserve_def)
  next
    case True
    with assms(3) obtain m dat where m: "grow_alloc (st_num_alloc sk) = Some m"
      "ptr_realloc al (st_data sk) (size_wrap (m * 8)) = Some dat" "sk1 = sk\<lparr>st_data := dat, st_num_alloc := m\<rparr>"
      by (auto simp: sk_reserve_def split: option.splits)
    have l: "length (st_data sk) = st_num_alloc sk" "st_num sk \<le> st_num_alloc sk" "0 < st_num_alloc sk"
      "st_num_alloc sk < 2 ^ 61" using assms(2) by (simp_all add: stack_ok_def)
    then have mb: "st_num_alloc sk < m" "m < 2 ^ 61" using m(1) by (auto simp: grow_alloc_eq split: if_splits)
    then have "size_wrap (m * 8) = m * 8" by simp
    with m(2) obtain blk where "al (m * 8) = Some blk" "dat = take m (st_data sk) @ drop (st_num_alloc sk) blk"
      by (auto simp: ptr_realloc_def l split: option.splits)
    moreover from this assms(1) have "length blk = m" by (auto simp: good_ptr_alloc_def)
    ultimately have "length dat = m" "take (st_num_alloc sk) dat = st_data sk" using l(1) mb(1) by simp_all
    moreover from this l have "take (st_num sk) dat = take (st_num sk) (st_data sk)" by (metis min.absorb_iff1 take_take)
    ultimately show ?thesis using m(3) mb l by (simp add: stack_ok_def elems_def)
  qed
  then show "stack_ok sk1" "st_num sk1 = st_num sk" "elems sk1 = elems sk" "st_num sk < st_num_alloc sk1"
    "st_comp sk1 = st_comp sk" "st_sorted sk1 = st_sorted sk" by simp_all
qed

lemma length_mem_move: "src + n \<le> length xs \<Longrightarrow> dst + n \<le> length xs \<Longrightarrow> length (mem_move dst src n xs) = length xs"
  by (simp add: mem_move_def)

lemma sk_insert_laws:
  assumes "good_ptr_alloc al" and "stack_ok sk" and "sk_insert al (Some sk) p i = (n, r)"
  shows "n = 0 \<and> r = Some sk \<or>
    (\<exists>sk1. r = Some sk1 \<and> stack_ok sk1 \<and> n = length (elems sk1) \<and>
       elems sk1 = take i (elems sk) @ [p] @ drop i (elems sk) \<and> \<not> st_sorted sk1 \<and> st_comp sk1 = st_comp sk)"
proof (cases "sk_reserve al sk")
  case None
  with assms(3) show ?thesis by simp
next
  case (Some s)
  note r = sk_reserve_laws [OF assms(1,2) Some]
  let ?n = "st_num s"
  define dat where "dat = (if i \<ge> ?n then (st_data s)[?n := p] else (mem_move (i + 1) i (?n - i) (st_data s))[i := p])"
  have res: "n = ?n + 1" "r = Some (s\<lparr>st_data := dat, st_num := ?n + 1, st_sorted := False\<rparr>)"
    using assms(3) Some by (auto simp: Let_def dat_def)
  have l: "length (st_data s) = st_num_alloc s" "?n < st_num_alloc s" using r by (simp_all add: stack_ok_def)
  have d: "length dat = st_num_alloc s \<and> take (?n + 1) dat = take i (elems s) @ [p] @ drop i (elems s)"
  proof (cases "i \<ge> ?n")
    case True
    with l show ?thesis by (simp add: dat_def elems_def take_Suc_conv_app_nth)
  next
    case False
    with l have "length (mem_move (i + 1) i (?n - i) (st_data s)) = st_num_alloc s" by (simp add: length_mem_move)
    moreover have "take (?n + 1) ((mem_move (i + 1) i (?n - i) (st_data s))[i := p]) =
        take i (st_data s) @ [p] @ take (?n - i) (drop i (st_data s))"
      using False l by (simp add: mem_move_def take_update_swap list_update_append upd_conv_take_nth_drop min_def Suc_diff_le)
    ultimately show ?thesis using False l by (simp add: dat_def elems_def drop_take min_def)
  qed
  have e: "elems (s\<lparr>st_data := dat, st_num := ?n + 1, st_sorted := False\<rparr>) = take i (elems sk) @ [p] @ drop i (elems sk)"
    using d by (subst elems_def) (simp flip: r(3))
  have len: "length (take i (elems sk) @ [p] @ drop i (elems sk)) = ?n + 1"
    using length_elems [OF assms(2)] r(2) by simp
  show ?thesis
  proof (intro disjI2 exI conjI)
    show "n = length (elems (s\<lparr>st_data := dat, st_num := ?n + 1, st_sorted := False\<rparr>))" unfolding e len res ..
    show "stack_ok (s\<lparr>st_data := dat, st_num := ?n + 1, st_sorted := False\<rparr>)" using l r(1) d by (simp add: stack_ok_def)
  qed (use res e r in simp_all)
qed

lemma sk_delete_laws:
  assumes "stack_ok sk"
  shows "if i < st_num sk
    then \<exists>sk1. sk_delete (Some sk) i = (elems sk ! i, Some sk1) \<and> stack_ok sk1 \<and>
      elems sk1 = take i (elems sk) @ drop (i + 1) (elems sk) \<and> st_sorted sk1 = st_sorted sk \<and> st_comp sk1 = st_comp sk
    else sk_delete (Some sk) i = (None, Some sk)"
proof (cases "i < st_num sk")
  case True
  let ?n = "st_num sk"
  define dat where "dat = (if i \<noteq> ?n - 1 then mem_move i (i + 1) (?n - i - 1) (st_data sk) else st_data sk)"
  have l: "length (st_data sk) = st_num_alloc sk" "?n \<le> st_num_alloc sk" using assms by (simp_all add: stack_ok_def)
  have d: "length dat = st_num_alloc sk \<and> take (?n - 1) dat = take i (elems sk) @ drop (i + 1) (elems sk)"
    using True l by (auto simp: dat_def mem_move_def elems_def min_def drop_take)
  have "sk_delete (Some sk) i = (elems sk ! i, Some (sk\<lparr>st_data := dat, st_num := ?n - 1\<rparr>))"
    using True by (simp add: Let_def dat_def elems_nth)
  with True d l assms show ?thesis by (simp add: stack_ok_def elems_def)
qed simp

section \<open>Searching\<close>

text \<open>What a comparison function has to be: a total preorder, with the sign reversed by exchanging the arguments.\<close>

definition cmp_order :: "('a option \<Rightarrow> 'a option \<Rightarrow> int) \<Rightarrow> bool" where
  "cmp_order cmp \<longleftrightarrow> (\<forall>x y. cmp x y \<le> 0 \<longleftrightarrow> 0 \<le> cmp y x) \<and>
     (\<forall>x y z. cmp x y \<le> 0 \<longrightarrow> cmp y z \<le> 0 \<longrightarrow> cmp x z \<le> 0)"

definition ordered :: "('a option \<Rightarrow> 'a option \<Rightarrow> int) \<Rightarrow> 'a option list \<Rightarrow> bool" where
  "ordered cmp xs \<longleftrightarrow> sorted_wrt (\<lambda>x y. cmp x y \<le> 0) xs"

lemma orderedD:
  assumes "cmp_order cmp" and "ordered cmp xs" and "i \<le> j" and "j < length xs"
  shows "cmp (xs ! i) (xs ! j) \<le> 0"
proof (cases "i = j")
  case True
  have "cmp x x \<le> 0" for x using assms(1) unfolding cmp_order_def by (meson linorder_linear)
  with True show ?thesis by simp
next
  case False
  with assms show ?thesis by (auto simp: ordered_def sorted_wrt_iff_nth_less)
qed

lemma cmp_above:
  assumes "cmp_order cmp" "ordered cmp xs" "j \<le> m" "m < length xs" "0 < cmp p (xs ! m)"
  shows "0 < cmp p (xs ! j)"
proof (rule ccontr)
  assume "\<not> 0 < cmp p (xs ! j)"
  with orderedD [OF assms(1-4)] have "cmp p (xs ! m) \<le> 0"
    using assms(1) unfolding cmp_order_def by (meson not_less)
  with assms(5) show False by simp
qed

lemma cmp_below:
  assumes "cmp_order cmp" "ordered cmp xs" "m \<le> j" "j < length xs" "cmp p (xs ! m) < 0"
  shows "cmp p (xs ! j) < 0"
proof (rule ccontr)
  assume "\<not> cmp p (xs ! j) < 0"
  then have "cmp (xs ! j) p \<le> 0" using assms(1) by (simp add: cmp_order_def)
  with orderedD [OF assms(1-4)] have "cmp (xs ! m) p \<le> 0"
    using assms(1) unfolding cmp_order_def by meson
  then have "0 \<le> cmp p (xs ! m)" using assms(1) by (simp add: cmp_order_def)
  with assms(5) show False by simp
qed

lemma find_skip: "(\<And>x. x \<in> set xs \<Longrightarrow> \<not> P x) \<Longrightarrow> find P (xs @ ys) = find P ys"
  by (induction xs) auto

lemma find_none: "(\<And>x. x \<in> set ys \<Longrightarrow> \<not> P x) \<Longrightarrow> find P (xs @ ys) = find P xs"
  by (induction xs) (auto simp: find_None_iff)

lemma find_found: "x \<in> set xs \<Longrightarrow> P x \<Longrightarrow> find P (xs @ ys) = find P xs"
  by (induction xs) auto

lemma upt_cut: "lo \<le> m \<Longrightarrow> m \<le> hi \<Longrightarrow> [lo..<hi] = [lo..<m] @ [m..<hi]"
  using upt_add_eq_append [of lo m "hi - m"] by simp

lemma sk_bsearch_first:
  assumes "cmp_order cmp" and "ordered cmp xs" and "hi \<le> length xs" and "\<And>i. i < hi \<Longrightarrow> dat ! i = xs ! i"
  shows "sk_bsearch cmp p dat lo hi = find (\<lambda>i. cmp p (dat ! i) = 0) [lo..<hi]"
  using assms
proof (induction cmp p dat lo hi rule: sk_bsearch.induct [case_names step])
  case (step cmp p dat lo hi)
  note E = sk_bsearch.simps [of cmp p dat lo hi]
  define m where "m = lo + (hi - lo - 1) div 2"
  define P where "P = (\<lambda>i. cmp p (dat ! i) = 0)"
  show ?case
  proof (cases "lo < hi")
    case False
    then show ?thesis by (simp add: E)
  next
    case True
    have m: "lo \<le> m" "m < hi" using True by (auto simp: m_def)
    have len: "m < length xs" "hi \<le> length xs" using m step.prems(3) by simp_all
    have d: "dat ! i = xs ! i" if "i < hi" for i using step.prems(4) that .
    have step_eq: "sk_bsearch cmp p dat lo hi =
        (if cmp p (dat ! m) > 0 then sk_bsearch cmp p dat (m + 1) hi
         else if cmp p (dat ! m) < 0 then sk_bsearch cmp p dat lo m
         else if hi - lo = 1 then Some m else sk_bsearch cmp p dat lo (m + 1))"
      unfolding E Let_def m_def using True by (simp only: if_True)
    note IH = step.IH(1) [OF True m_def refl _ step.prems] step.IH(2) [OF True m_def refl _ _ step.prems(1,2)]
      step.IH(3) [OF True m_def refl _ _ _ step.prems(1,2)]
    consider "cmp p (dat ! m) > 0" | "cmp p (dat ! m) < 0" | "cmp p (dat ! m) = 0" "hi - lo = 1"
      | "cmp p (dat ! m) = 0" "hi - lo \<noteq> 1" by linarith
    then have "sk_bsearch cmp p dat lo hi = find P [lo..<hi]"
    proof cases
      case 1
      have "\<not> P i" if "i \<in> set [lo..<m + 1]" for i
      proof -
        have i: "i \<le> m" "i < hi" using that m by auto
        have "0 < cmp p (xs ! m)" using 1 d [OF m(2)] by simp
        from cmp_above [OF step.prems(1,2) i(1) len(1) this] have "0 < cmp p (dat ! i)" using d [OF i(2)] by simp
        then show ?thesis by (simp add: P_def)
      qed
      then have "find P [lo..<hi] = find P [m + 1..<hi]"
        using find_skip [of "[lo..<m + 1]" P "[m + 1..<hi]"] upt_cut [of lo "m + 1" hi] m by simp
      with 1 IH(1) step_eq show ?thesis by (simp add: P_def)
    next
      case 2
      have "\<not> P i" if "i \<in> set [m..<hi]" for i
      proof -
        have i: "m \<le> i" "i < hi" "i < length xs" using that len by auto
        have "cmp p (xs ! m) < 0" using 2 d [OF m(2)] by simp
        from cmp_below [OF step.prems(1,2) i(1,3) this] have "cmp p (dat ! i) < 0" using d [OF i(2)] by simp
        then show ?thesis by (simp add: P_def)
      qed
      then have "find P [lo..<hi] = find P [lo..<m]"
        using find_none [of "[m..<hi]" P "[lo..<m]"] upt_cut [of lo m hi] m by simp
      with 2 IH(2) step_eq m len d show ?thesis by (simp add: P_def)
    next
      case 3
      then have "[lo..<hi] = [m]" using m by (auto simp: upt_conv_Cons m_def)
      with 3 step_eq show ?thesis by (simp add: P_def)
    next
      case 4
      then have "find P [lo..<hi] = find P [lo..<m + 1]"
        using find_found [of m "[lo..<m + 1]" P "[m + 1..<hi]"] upt_cut [of lo "m + 1" hi] m by (simp add: P_def)
      with 4 IH(3) step_eq m len d show ?thesis by (simp add: P_def)
    qed
    then show ?thesis by (simp add: P_def)
  qed
qed

end
