(* ===== verification/Sk_Reach.thy ===== *)
theory Sk_Reach
  imports Sk_Stack
begin

text \<open>
  The states a stack reaches through the operations of \<open>stack.c\<close> (all but \<open>sk_set\<close>, which stores an
  element without touching the order flag), the invariant of the flag, what it gives to \<open>sk_find\<close>, the
  stack discipline of \<open>sk_push\<close> and \<open>sk_pop\<close>, and deep copies.
\<close>

section \<open>Sorting\<close>

type_synonym 'a qsort = "('a option \<Rightarrow> 'a option \<Rightarrow> int) \<Rightarrow> 'a option list \<Rightarrow> 'a option list"

text \<open>What the C library says of \<open>qsort\<close>: it permutes, and it orders by a consistent comparison.\<close>

definition good_qsort :: "'a qsort \<Rightarrow> bool" where
  "good_qsort qs \<longleftrightarrow> (\<forall>cmp xs. mset (qs cmp xs) = mset xs \<and> (cmp_order cmp \<longrightarrow> ordered cmp (qs cmp xs)))"

fun insert_by :: "('a option \<Rightarrow> 'a option \<Rightarrow> int) \<Rightarrow> 'a option \<Rightarrow> 'a option list \<Rightarrow> 'a option list" where
  "insert_by cmp x [] = [x]"
| "insert_by cmp x (y # ys) = (if cmp x y \<le> 0 then x # y # ys else y # insert_by cmp x ys)"

fun insertion_qsort :: "('a option \<Rightarrow> 'a option \<Rightarrow> int) \<Rightarrow> 'a option list \<Rightarrow> 'a option list" where
  "insertion_qsort cmp [] = []"
| "insertion_qsort cmp (x # xs) = insert_by cmp x (insertion_qsort cmp xs)"

lemma mset_insert_by [simp]: "mset (insert_by cmp x ys) = add_mset x (mset ys)"
  by (induction ys) auto

lemma set_insert_by [simp]: "set (insert_by cmp x ys) = insert x (set ys)"
  by (induction ys) auto

lemma ordered_insert_by:
  assumes "cmp_order cmp" and "ordered cmp ys"
  shows "ordered cmp (insert_by cmp x ys)"
  using assms(2)
proof (induction ys)
  case (Cons y ys)
  have t: "cmp x y \<le> 0 \<Longrightarrow> cmp y z \<le> 0 \<Longrightarrow> cmp x z \<le> 0" for z
    using assms(1) unfolding cmp_order_def by blast
  have s: "\<not> cmp x y \<le> 0 \<Longrightarrow> cmp y x \<le> 0" using assms(1) unfolding cmp_order_def by (meson linorder_linear)
  from Cons show ?case using t s by (auto simp: ordered_def)
qed (simp add: ordered_def)

lemma good_insertion_qsort: "good_qsort insertion_qsort"
proof -
  have "mset (insertion_qsort cmp xs) = mset xs" for cmp and xs :: "'a option list"
    by (induction xs) simp_all
  moreover have "cmp_order cmp \<Longrightarrow> ordered cmp (insertion_qsort cmp xs)" for cmp and xs :: "'a option list"
  proof (induction xs)
    case (Cons x xs)
    then show ?case by (simp add: ordered_insert_by)
  qed (simp add: ordered_def)
  ultimately show ?thesis by (simp add: good_qsort_def)
qed

section \<open>Deep copies and searches\<close>

lemma map_filter_cong: "(\<And>x. x \<in> set xs \<Longrightarrow> f x = g x) \<Longrightarrow> List.map_filter f xs = List.map_filter g xs"
  by (induction xs) (auto split: option.split)

text \<open>What the copy function makes of the element at \<open>i\<close>.\<close>

definition copied :: "(nat \<Rightarrow> 'a \<Rightarrow> 'a option) \<Rightarrow> 'a option list \<Rightarrow> nat \<Rightarrow> 'a option" where
  "copied copy es i = (case es ! i of None \<Rightarrow> None | Some x \<Rightarrow> copy i x)"

lemma deep_copy_loop_exact:
  assumes "stack_ok ret" and "length es = st_num ret" and "i \<le> st_num ret"
    and "elems ret = map (copied copy es) [0..<i] @ drop i es"
  shows "case find (\<lambda>j. es ! j \<noteq> None \<and> copied copy es j = None) [i..<length es] of
     None \<Rightarrow> \<exists>r. deep_copy_loop copy ret i = Inr r \<and> stack_ok r \<and> elems r = map (copied copy es) [0..<length es] \<and>
       st_comp r = st_comp ret \<and> st_sorted r = st_sorted ret
   | Some j \<Rightarrow> deep_copy_loop copy ret i = Inl (List.map_filter (copied copy es) [0..<j])"
  using assms
proof (induction copy ret i rule: deep_copy_loop.induct [case_names step])
  case (step copy ret i)
  note E = deep_copy_loop.simps [of copy ret i]
  show ?case
  proof (cases "i < st_num ret")
    case False
    have "deep_copy_loop copy ret i = Inr ret" using False by (simp add: E)
    moreover have "find (\<lambda>j. es ! j \<noteq> None \<and> copied copy es j = None) [i..<length es] = None"
      "elems ret = map (copied copy es) [0..<length es]"
      using False step.prems(2-4) by simp_all
    ultimately show ?thesis using step.prems(1) by simp
  next
    case True
    have cut: "[i..<length es] = i # [i + 1..<length es]" using True step.prems(2) by (simp add: upt_conv_Cons)
    have d: "st_data ret ! i = es ! i" using True step.prems(2,4) by (simp add: elems_nth nth_append)
    have dr: "drop i es = es ! i # drop (i + 1) es" using True step.prems(2) by (simp add: Cons_nth_drop_Suc)
    show ?thesis
    proof (cases "es ! i")
      case None
      then have "elems ret = map (copied copy es) [0..<i + 1] @ drop (i + 1) es"
        using step.prems(4) dr by (simp add: copied_def)
      moreover have eq: "deep_copy_loop copy ret i = deep_copy_loop copy ret (i + 1)" using True d None by (simp add: E)
      moreover have fi: "find (\<lambda>j. es ! j \<noteq> None \<and> copied copy es j = None) [i..<length es] =
          find (\<lambda>j. es ! j \<noteq> None \<and> copied copy es j = None) [i + 1..<length es]" using cut None by simp
      ultimately show ?thesis unfolding eq fi using True d None step.prems(1,2) by (intro step.IH(1)) simp_all
    next
      case (Some x)
      define ret1 where "ret1 = ret\<lparr>st_data := (st_data ret)[i := copy i x]\<rparr>"
      have c: "copied copy es i = copy i x" using Some by (simp add: copied_def)
      have l: "i < length (st_data ret)" using True step.prems(1) by (simp add: stack_ok_def)
      have r1: "stack_ok ret1" "st_num ret1 = st_num ret" "st_comp ret1 = st_comp ret" "st_sorted ret1 = st_sorted ret"
        using step.prems(1) by (simp_all add: ret1_def stack_ok_def)
      have "elems ret1 = (elems ret)[i := copy i x]" using True by (simp add: ret1_def elems_def take_update_swap)
      then have e1: "elems ret1 = map (copied copy es) [0..<i + 1] @ drop (i + 1) es"
        using step.prems(4) dr c by (simp add: list_update_append)
      have eq: "deep_copy_loop copy ret i =
          (if copy i x = None then Inl (List.map_filter (\<lambda>j. st_data ret1 ! j) [0..<i]) else deep_copy_loop copy ret1 (i + 1))"
        using True d Some by (simp add: E Let_def ret1_def)
      show ?thesis
      proof (cases "copy i x")
        case None
        have "List.map_filter (\<lambda>j. st_data ret1 ! j) [0..<i] = List.map_filter (copied copy es) [0..<i]"
          using True r1 e1 by (intro map_filter_cong) (simp add: elems_nth nth_append)
        with None eq cut Some c show ?thesis by simp
      next
        case (Some y)
        with eq have eq1: "deep_copy_loop copy ret i = deep_copy_loop copy ret1 (i + 1)" by simp
        have fi: "find (\<lambda>j. es ! j \<noteq> None \<and> copied copy es j = None) [i..<length es] =
          find (\<lambda>j. es ! j \<noteq> None \<and> copied copy es j = None) [i + 1..<length es]" using cut Some c by simp
        have dx: "st_data ret ! i = Some x" using d \<open>es ! i = Some x\<close> by simp
        show ?thesis unfolding eq1 fi r1(3,4) [symmetric] using True dx Some r1 e1 step.prems(2)
          by (intro step.IH(2) [OF True dx ret1_def]) simp_all
      qed
    qed
  qed
qed

text \<open>A search in which nothing compares equal finds nothing.\<close>

lemma sk_bsearch_None: "(\<And>k. lo \<le> k \<Longrightarrow> k < hi \<Longrightarrow> cmp p (dat ! k) \<noteq> 0) \<Longrightarrow> sk_bsearch cmp p dat lo hi = None"
proof (induction cmp p dat lo hi rule: sk_bsearch.induct [case_names step])
  case (step cmp p dat lo hi)
  show ?case
  proof (cases "lo < hi")
    case True
    define mid where "mid = lo + (hi - lo - 1) div 2"
    have m: "lo \<le> mid" "mid < hi" using True by (simp_all add: mid_def)
    have "cmp p (dat ! mid) \<noteq> 0" by (rule step.prems [OF m])
    then consider "0 < cmp p (dat ! mid)" | "\<not> 0 < cmp p (dat ! mid)" "cmp p (dat ! mid) < 0" by linarith
    then show ?thesis
    proof cases
      case 1
      from step.IH(1) [OF True mid_def refl 1] step.prems m have "sk_bsearch cmp p dat (mid + 1) hi = None" by simp
      then show ?thesis using 1 True unfolding mid_def by (subst sk_bsearch.simps) (simp only: Let_def if_True)
    next
      case 2
      from step.IH(2) [OF True mid_def refl 2] step.prems m have "sk_bsearch cmp p dat lo mid = None" by simp
      then show ?thesis using 2 True unfolding mid_def by (subst sk_bsearch.simps) (simp only: Let_def if_True if_False)
    qed
  qed (simp add: sk_bsearch.simps)
qed

section \<open>Reachable stacks\<close>

text \<open>
  The operations of \<open>stack.c\<close>.  \<open>sk_set\<close> puts a pointer where it is told and \<open>sk_deep_copy\<close> what the caller's function makes of the
  elements, and both keep the \<open>sorted\<close> flag: they are steps when they keep the order of a stack that is marked as sorted.
\<close>

definition keeps_order :: "('a, 'c) cmp_caller \<Rightarrow> ('a, 'c) stack_st \<Rightarrow> 'a option list \<Rightarrow> bool" where
  "keeps_order call_cmp s xs \<longleftrightarrow>
     (st_sorted s \<longrightarrow> (\<forall>c. st_comp s = Some c \<longrightarrow> cmp_order (call_cmp c) \<longrightarrow> ordered (call_cmp c) xs))"

inductive sk_step :: "'a ptr_alloc \<Rightarrow> 'a qsort \<Rightarrow> ('a, 'c) cmp_caller \<Rightarrow> ('a, 'c) stack_st \<Rightarrow> ('a, 'c) stack_st \<Rightarrow> bool"
  for al qs call_cmp where
  step_insert: "sk_insert al (Some s) p i = (n, Some s') \<Longrightarrow> sk_step al qs call_cmp s s'"
| step_push: "sk_push al s p = (n, Some s') \<Longrightarrow> sk_step al qs call_cmp s s'"
| step_delete: "sk_delete (Some s) i = (r, Some s') \<Longrightarrow> sk_step al qs call_cmp s s'"
| step_delete_ptr: "sk_delete_ptr (Some s) p = (r, Some s') \<Longrightarrow> sk_step al qs call_cmp s s'"
| step_shift: "sk_shift (Some s) = (r, Some s') \<Longrightarrow> sk_step al qs call_cmp s s'"
| step_pop: "sk_pop (Some s) = (r, Some s') \<Longrightarrow> sk_step al qs call_cmp s s'"
| step_zero: "sk_zero (Some s) = Some s' \<Longrightarrow> sk_step al qs call_cmp s s'"
| step_sort: "sk_sort qs call_cmp (Some s) = Some s' \<Longrightarrow> sk_step al qs call_cmp s s'"
| step_cmp: "sk_set_cmp_func s c = (old, s') \<Longrightarrow> sk_step al qs call_cmp s s'"
| step_dup: "sk_dup al struct_ok (Some s) = Some s' \<Longrightarrow> sk_step al qs call_cmp s s'"
| step_set: "sk_set (Some s) i p = (r, Some s') \<Longrightarrow> keeps_order call_cmp s (elems s') \<Longrightarrow> sk_step al qs call_cmp s s'"
| step_deep_copy: "sk_deep_copy al struct_ok copy (Some s) = (Some s', freed) \<Longrightarrow> keeps_order call_cmp s (elems s') \<Longrightarrow>
    sk_step al qs call_cmp s s'"

inductive sk_reachable :: "'a ptr_alloc \<Rightarrow> 'a qsort \<Rightarrow> ('a, 'c) cmp_caller \<Rightarrow> ('a, 'c) stack_st \<Rightarrow> bool"
  for al qs call_cmp where
  reach_new: "sk_new al struct_ok c = Some s \<Longrightarrow> sk_reachable al qs call_cmp s"
| reach_step: "sk_reachable al qs call_cmp s \<Longrightarrow> sk_step al qs call_cmp s s' \<Longrightarrow> sk_reachable al qs call_cmp s'"

inductive_cases sk_stepE: "sk_step al qs call_cmp s s'"

text \<open>A set flag means what \<open>stack.h\<close> says it means: the elements are in the order of the comparison.\<close>

definition flag_ok :: "('a, 'c) cmp_caller \<Rightarrow> ('a, 'c) stack_st \<Rightarrow> bool" where
  "flag_ok call_cmp s \<longleftrightarrow> (st_sorted s \<longrightarrow> (\<exists>c. st_comp s = Some c \<and> (cmp_order (call_cmp c) \<longrightarrow> ordered (call_cmp c) (elems s))))"

lemma flag_ok_unsorted [simp]: "\<not> st_sorted s \<Longrightarrow> flag_ok call_cmp s"
  by (simp add: flag_ok_def)

lemma ordered_cut:
  assumes "ordered cmp xs"
  shows "ordered cmp (take i xs @ drop (Suc i) xs)"
proof -
  have "sorted_wrt (\<lambda>x y. cmp x y \<le> 0) (take i xs @ drop i xs)" using assms by (simp add: ordered_def)
  then have "sorted_wrt (\<lambda>x y. cmp x y \<le> 0) (take i xs)" "\<forall>x \<in> set (take i xs). \<forall>y \<in> set (drop i xs). cmp x y \<le> 0"
    unfolding sorted_wrt_append by blast+
  moreover have "sorted_wrt (\<lambda>x y. cmp x y \<le> 0) (drop (Suc i) xs)"
    using assms by (simp add: ordered_def sorted_wrt_drop)
  moreover have "set (drop (Suc i) xs) \<subseteq> set (drop i xs)" by (simp add: set_drop_subset_set_drop)
  ultimately show ?thesis unfolding ordered_def by (auto simp: sorted_wrt_append)
qed

lemma sk_new_laws:
  assumes "sk_new al struct_ok c = Some s"
  shows "stack_ok s" "elems s = []" "\<not> st_sorted s" "st_comp s = c"
  using assms by (auto simp: sk_new_def stack_ok_def elems_def kMinSize_def split: if_splits option.splits)

lemma sk_zero_laws:
  assumes "stack_ok s" and "sk_zero (Some s) = Some s'"
  shows "stack_ok s'" "elems s' = []" "st_comp s' = st_comp s" "s' = s \<or> \<not> st_sorted s'"
  using assms by (auto simp: stack_ok_def elems_def split: if_splits)

lemma sk_sort_laws:
  assumes "good_qsort qs" and "stack_ok s" and "sk_sort qs call_cmp (Some s) = Some s'"
  shows "stack_ok s'" "mset (elems s') = mset (elems s)" "st_comp s' = st_comp s"
    "flag_ok call_cmp s \<Longrightarrow> flag_ok call_cmp s'" "st_comp s \<noteq> None \<Longrightarrow> st_sorted s'"
proof -
  have "stack_ok s' \<and> mset (elems s') = mset (elems s) \<and> st_comp s' = st_comp s \<and>
      (flag_ok call_cmp s \<longrightarrow> flag_ok call_cmp s') \<and> (st_comp s \<noteq> None \<longrightarrow> st_sorted s')"
  proof (cases "st_comp s = None \<or> st_sorted s")
    case True
    with assms(3) have "s' = s" by (auto split: option.splits if_splits)
    with True assms(2) show ?thesis by auto
  next
    case False
    then obtain c where c: "st_comp s = Some c" "\<not> st_sorted s" by auto
    let ?ys = "qs (call_cmp c) (elems s)"
    have q: "mset ?ys = mset (elems s)" "cmp_order (call_cmp c) \<Longrightarrow> ordered (call_cmp c) ?ys"
      using assms(1) by (auto simp: good_qsort_def)
    have "length ?ys = st_num s" using mset_eq_length [OF q(1)] length_elems [OF assms(2)] by simp
    moreover have "ordered (call_cmp c) (elems s)" if "st_num s < 2"
    proof -
      have "length (elems s) < 2" using that length_elems [OF assms(2)] by simp
      then consider "elems s = []" | x where "elems s = [x]" by (cases "elems s" rule: remdups_adj.cases) auto
      then show ?thesis by cases (simp_all add: ordered_def)
    qed
    ultimately show ?thesis using assms(2,3) c q
      by (auto simp: stack_ok_def elems_def flag_ok_def split: if_splits)
  qed
  then show "stack_ok s'" "mset (elems s') = mset (elems s)" "st_comp s' = st_comp s"
    "flag_ok call_cmp s \<Longrightarrow> flag_ok call_cmp s'" "st_comp s \<noteq> None \<Longrightarrow> st_sorted s'" by simp_all
qed

lemma sk_dup_laws:
  assumes "good_ptr_alloc al" and "stack_ok s" and "sk_dup al struct_ok (Some s) = Some s'"
  shows "stack_ok s'" "elems s' = elems s" "st_comp s' = st_comp s" "st_sorted s' = st_sorted s" "st_num s' = st_num s"
proof -
  from assms(2) have "size_wrap (8 * st_num_alloc s) = 8 * st_num_alloc s" by (simp add: stack_ok_def)
  with assms(3) obtain blk where b: "al (8 * st_num_alloc s) = Some blk" "struct_ok"
    "s' = \<lparr>st_num = st_num s, st_data = take (st_num s) (st_data s) @ drop (st_num s) blk,
                          st_sorted = st_sorted s, st_num_alloc = st_num_alloc s, st_comp = st_comp s\<rparr>"
    by (auto split: if_splits option.splits)
  have "length blk = st_num_alloc s" using assms(1) b(1) by (auto simp: good_ptr_alloc_def)
  with b(3) assms(2) show "stack_ok s'" "elems s' = elems s" "st_comp s' = st_comp s" "st_sorted s' = st_sorted s" "st_num s' = st_num s"
    by (simp_all add: stack_ok_def elems_def)
qed

text \<open>Deletions keep the order, insertions clear the flag.\<close>

lemma sk_delete_keeps:
  assumes "stack_ok s" and "flag_ok call_cmp s" and "sk_delete (Some s) i = (r, Some s')"
  shows "stack_ok s' \<and> flag_ok call_cmp s'"
proof (cases "i < st_num s")
  case True
  with sk_delete_laws [OF assms(1), of i] assms(3) have "stack_ok s'" "elems s' = take i (elems s) @ drop (Suc i) (elems s)"
    "st_sorted s' = st_sorted s" "st_comp s' = st_comp s" by (auto simp del: sk_delete.simps)
  with assms(2) show ?thesis by (auto simp: flag_ok_def ordered_cut)
qed (use assms in auto)

lemma sk_insert_keeps:
  assumes "good_ptr_alloc al" "stack_ok s" "flag_ok call_cmp s" and "sk_insert al (Some s) p i = (n, Some s')"
  shows "stack_ok s' \<and> flag_ok call_cmp s'"
  using sk_insert_laws [OF assms(1,2,4)] assms(2,3) by auto

lemma sk_set_laws:
  assumes "stack_ok s" and "sk_set (Some s) i p = (r, Some s')"
  shows "stack_ok s'" "st_comp s' = st_comp s" "st_sorted s' = st_sorted s"
  using assms by (auto simp: stack_ok_def split: if_splits)

lemma sk_deep_copy_laws:
  assumes "good_ptr_alloc al" and "stack_ok s" and "sk_deep_copy al struct_ok copy (Some s) = (Some s', freed)"
  shows "stack_ok s'" "st_comp s' = st_comp s" "st_sorted s' = st_sorted s"
proof -
  from assms(3) obtain d where d: "sk_dup al struct_ok (Some s) = Some d" "deep_copy_loop copy d 0 = Inr s'"
    by (auto simp: sk_deep_copy_def simp del: sk_dup.simps split: option.splits sum.splits)
  note dl = sk_dup_laws [OF assms(1,2) d(1)]
  have "length (elems s) = st_num d" using length_elems [OF assms(2)] dl(5) by simp
  from deep_copy_loop_exact [OF dl(1) this le0, of copy] dl d(2)
  show "stack_ok s'" "st_comp s' = st_comp s" "st_sorted s' = st_sorted s" by (auto split: option.splits)
qed

lemma flag_ok_keeps:
  assumes "flag_ok call_cmp s" and "keeps_order call_cmp s (elems s')" and "st_comp s' = st_comp s" and "st_sorted s' = st_sorted s"
  shows "flag_ok call_cmp s'"
  using assms by (auto simp: flag_ok_def keeps_order_def)

lemma sk_step_keeps:
  assumes "good_ptr_alloc al" and "good_qsort qs" and "sk_step al qs call_cmp s s'" and "stack_ok s \<and> flag_ok call_cmp s"
  shows "stack_ok s' \<and> flag_ok call_cmp s'"
proof -
  from assms(4) have s: "stack_ok s" "flag_ok call_cmp s" by simp_all
  note del = sk_delete_keeps [OF s] note ins = sk_insert_keeps [OF assms(1) s]
  from assms(3) show ?thesis
  proof cases
    case step_delete_ptr
    then show ?thesis using del s by (auto simp del: sk_delete.simps split: option.splits)
  next
    case step_zero
    from sk_zero_laws [OF s(1) this] s show ?thesis by auto
  next
    case step_sort
    from sk_sort_laws [OF assms(2) s(1) this] s show ?thesis by auto
  next
    case step_dup
    from sk_dup_laws [OF assms(1) s(1) this] s show ?thesis by (simp add: flag_ok_def)
  next
    case step_cmp
    then show ?thesis using s by (auto simp: sk_set_cmp_func_def stack_ok_def flag_ok_def elems_def split: if_splits)
  next
    case (step_set i p r)
    note k = sk_set_laws [OF s(1) step_set(1)]
    from k flag_ok_keeps [OF s(2) step_set(2) k(2,3)] show ?thesis by simp
  next
    case (step_deep_copy struct_ok copy freed)
    note k = sk_deep_copy_laws [OF assms(1) s(1) step_deep_copy(1)]
    from k flag_ok_keeps [OF s(2) step_deep_copy(2) k(2,3)] show ?thesis by simp
  next
    case step_push
    then show ?thesis using ins by (simp add: sk_push_def del: sk_insert.simps)
  qed (use del ins s in \<open>simp_all del: sk_delete.simps sk_insert.simps split: if_splits\<close>)
qed

lemma sk_reachable_keeps:
  assumes "good_ptr_alloc al" and "good_qsort qs" and "sk_reachable al qs call_cmp s"
  shows "stack_ok s \<and> flag_ok call_cmp s"
  using assms(3)
proof (induction rule: sk_reachable.induct)
  case (reach_new struct_ok c s)
  then show ?case by (simp add: sk_new_laws)
next
  case (reach_step s s')
  then show ?case using sk_step_keeps [OF assms(1,2)] by blast
qed

text \<open>A stack of numbers, made by the operations: 3, 1 and 2 pushed, then sorted by \<open>num_cmp\<close>.\<close>

definition num_cmp :: "unit \<Rightarrow> nat option \<Rightarrow> nat option \<Rightarrow> int" where
  "num_cmp c x y = (case x of None \<Rightarrow> 0 | Some a \<Rightarrow> int a + 1) - (case y of None \<Rightarrow> 0 | Some a \<Rightarrow> int a + 1)"

definition null_ptr_alloc :: "'a ptr_alloc" where
  "null_ptr_alloc n = Some (replicate (n div 8) None)"

fun push_many :: "('a, 'c) stack_st \<Rightarrow> 'a list \<Rightarrow> ('a, 'c) stack_st option" where
  "push_many s [] = Some s"
| "push_many s (x # xs) = (case sk_push null_ptr_alloc s (Some x) of (_, None) \<Rightarrow> None | (_, Some s1) \<Rightarrow> push_many s1 xs)"

definition number_stack :: "nat list \<Rightarrow> (nat, unit) stack_st option" where
  "number_stack xs =
     (case sk_new null_ptr_alloc True (Some ()) of
        None \<Rightarrow> None
      | Some s \<Rightarrow> (case push_many s xs of None \<Rightarrow> None | Some s1 \<Rightarrow> sk_sort insertion_qsort num_cmp (Some s1)))"

lemma good_null_ptr_alloc: "good_ptr_alloc null_ptr_alloc"
  by (simp add: good_ptr_alloc_def null_ptr_alloc_def)

lemma num_cmp_order: "cmp_order (num_cmp c)"
  by (auto simp: cmp_order_def num_cmp_def split: option.splits)

lemma push_many_reachable:
  "sk_reachable null_ptr_alloc qs call_cmp s \<Longrightarrow> push_many s xs = Some s' \<Longrightarrow> sk_reachable null_ptr_alloc qs call_cmp s'"
proof (induction xs arbitrary: s)
  case (Cons x xs)
  from Cons.prems(2) obtain n s1 where "sk_push null_ptr_alloc s (Some x) = (n, Some s1)" "push_many s1 xs = Some s'"
    by (auto split: prod.splits option.splits)
  with Cons show ?case by (meson reach_step step_push)
qed simp

lemma number_stack_reachable:
  assumes "number_stack xs = Some s"
  shows "sk_reachable null_ptr_alloc insertion_qsort num_cmp s"
proof -
  from assms obtain s0 s1 where s: "sk_new null_ptr_alloc True (Some ()) = Some s0" "push_many s0 xs = Some s1"
    "sk_sort insertion_qsort num_cmp (Some s1) = Some s"
    unfolding number_stack_def by (auto simp del: sk_sort.simps split: option.splits)
  have "sk_reachable null_ptr_alloc insertion_qsort num_cmp s1" using push_many_reachable [OF reach_new [OF s(1)] s(2)] .
  from reach_step [OF this step_sort [OF s(3)]] show ?thesis .
qed

section \<open>Properties of the states reached\<close>

text \<open>
  C23 (invariant).  Every stack that \<open>sk_new\<close> and any sequence of the other operations produce is well formed, and a set
  \<open>sorted\<close> flag tells the truth: there is a comparison function and the elements are in its order.  The calls of \<open>sk_set\<close> and
  \<open>sk_deep_copy\<close> in the sequence are those that keep the order of a stack marked as sorted (\<open>keeps_order\<close>);
  another call of \<open>sk_set\<close> can leave a flag that is wrong.
\<close>

theorem sk_reachable_invariant:
  assumes "good_ptr_alloc al" and "good_qsort qs" and "sk_reachable al qs call_cmp s"
  shows "stack_ok s \<and> (st_sorted s \<longrightarrow>
    (\<exists>c. st_comp s = Some c \<and> (cmp_order (call_cmp c) \<longrightarrow> ordered (call_cmp c) (elems s))))"
  using sk_reachable_keeps [OF assms] by (simp_all add: flag_ok_def)

theorem sk_reachable_invariant_witness:
  "\<exists>s. number_stack [3, 1, 2] = Some s \<and> stack_ok s \<and> st_sorted s \<and> elems s = [Some 1, Some 2, Some 3]"
proof -
  have e: "map_option (\<lambda>s. (st_sorted s, elems s)) (number_stack [3, 1, 2]) = Some (True, [Some 1, Some 2, Some 3])"
    by code_simp
  then obtain s where s: "number_stack [3, 1, 2] = Some s" "st_sorted s" "elems s = [Some 1, Some 2, Some 3]" by auto
  from sk_reachable_invariant [OF good_null_ptr_alloc good_insertion_qsort number_stack_reachable [OF s(1)]] s
  show ?thesis by blast
qed

lemma find_elems: "find (\<lambda>i. P (st_data s ! i)) [0..<st_num s] = find (\<lambda>i. P (elems s ! i)) [0..<st_num s]"
  by (rule find_cong) (simp_all add: elems_nth)

text \<open>
  C24 (equivalence).  On every stack reached by the operations of \<open>stack.c\<close>, with \<open>sk_set\<close> and \<open>sk_deep_copy\<close> only where they keep
  the order of a stack marked as sorted, and with a comparison that is an order, \<open>sk_find\<close> gives what a linear search gives, the first
  index with an equal element, whichever of its three ways it takes: pointer equality without a comparison
  function, a linear search in an unsorted stack, a binary search in a sorted one.
\<close>

theorem sk_find_first:
  assumes "good_ptr_alloc al" and "good_qsort qs" and "sk_reachable al qs call_cmp s" and "\<And>c. cmp_order (call_cmp c)"
  shows "sk_find call_cmp (Some s) p =
    (case st_comp s of
       None \<Rightarrow> find (\<lambda>i. elems s ! i = p) [0..<length (elems s)]
     | Some c \<Rightarrow> if p = None then None else find (\<lambda>i. call_cmp c p (elems s ! i) = 0) [0..<length (elems s)])"
proof -
  have ok: "stack_ok s" "flag_ok call_cmp s" using sk_reachable_keeps [OF assms(1-3)] by simp_all
  note l = length_elems [OF ok(1)]
  have "sk_bsearch (call_cmp c) p (st_data s) 0 (st_num s) = find (\<lambda>i. call_cmp c p (elems s ! i) = 0) [0..<st_num s]"
    if "st_sorted s" "st_comp s = Some c" for c
  proof -
    have "ordered (call_cmp c) (elems s)" using ok(2) that assms(4) by (simp add: flag_ok_def)
    from sk_bsearch_first [OF assms(4) this, of "st_num s" "st_data s" p 0] show ?thesis
      using find_elems [of "\<lambda>x. call_cmp c p x = 0" s] by (simp add: l elems_nth)
  qed
  then show ?thesis unfolding l using find_elems [of "\<lambda>x. x = p" s] find_elems [of "\<lambda>x. call_cmp c p x = 0" s for c]
    by (auto split: option.splits)
qed

theorem sk_find_first_witness:
  "\<exists>s. number_stack [3, 1, 2, 1] = Some s \<and> sk_find num_cmp (Some s) (Some 1) = Some 0 \<and>
     sk_find num_cmp (Some s) (Some 3) = Some 3"
proof -
  have e: "map_option (\<lambda>s. (st_comp s, elems s)) (number_stack [3, 1, 2, 1]) = Some (Some (), [Some 1, Some 1, Some 2, Some 3])"
    by code_simp
  then obtain s where s: "number_stack [3, 1, 2, 1] = Some s" "st_comp s = Some ()" "elems s = [Some 1, Some 1, Some 2, Some 3]"
    by auto
  note f = sk_find_first [OF good_null_ptr_alloc good_insertion_qsort number_stack_reachable [OF s(1)] num_cmp_order]
  show ?thesis using s by (simp add: f num_cmp_def del: sk_find.simps)
qed

end
