(* ===== verification/Sk_Seq.thy ===== *)
theory Sk_Seq
  imports Sk_Reach
begin

text \<open>
  The stack of \<open>stack.c\<close> as an implementation of lists: every operation against the list operation it
  stands for, the last-in-first-out discipline from an interface, deep copies, and what \<open>sk_set\<close> does to
  the order flag.
\<close>

section \<open>A list specification\<close>

definition list_insert :: "'e list \<Rightarrow> nat \<Rightarrow> 'e \<Rightarrow> 'e list" where
  "list_insert xs i x = take i xs @ [x] @ drop i xs"

definition list_delete :: "'e list \<Rightarrow> nat \<Rightarrow> 'e list" where
  "list_delete xs i = take i xs @ drop (i + 1) xs"

definition list_remove :: "'e option list \<Rightarrow> nat \<Rightarrow> 'e option \<times> 'e option list" where
  "list_remove xs i = (if i < length xs then (xs ! i, list_delete xs i) else (None, xs))"

definition list_remove_ptr :: "'e option list \<Rightarrow> 'e option \<Rightarrow> 'e option \<times> 'e option list" where
  "list_remove_ptr xs p = (if p \<in> set xs then (p, remove1 p xs) else (None, xs))"

text \<open>What a caller sees of an operation that gives a pointer and changes the stack.\<close>

definition shows_list :: "'r \<times> ('a, 'c) stack_st option \<Rightarrow> 'r \<times> 'a option list \<Rightarrow> bool" where
  "shows_list res spec \<longleftrightarrow> (\<exists>s. res = (fst spec, Some s) \<and> stack_ok s \<and> elems s = snd spec)"

lemma sk_delete_shows: "stack_ok s \<Longrightarrow> shows_list (sk_delete (Some s) i) (list_remove (elems s) i)"
  using sk_delete_laws [of s i] length_elems [of s]
  by (auto simp: shows_list_def list_remove_def list_delete_def simp del: sk_delete.simps split: if_splits)

lemma remove1_at:
  assumes "i < length xs" and "xs ! i = p" and "p \<notin> set (take i xs)"
  shows "remove1 p xs = take i xs @ drop (i + 1) xs"
proof -
  have "xs = take i xs @ p # drop (i + 1) xs" using assms(1,2) id_take_nth_drop [of i xs] by simp
  then show ?thesis using assms(3) remove1_append [of p "take i xs" "p # drop (i + 1) xs"] by simp
qed

lemma sk_delete_ptr_shows:
  assumes "stack_ok s"
  shows "shows_list (sk_delete_ptr (Some s) p) (list_remove_ptr (elems s) p)"
proof -
  note l = length_elems [OF assms]
  have f: "find (\<lambda>i. st_data s ! i = p) [0..<st_num s] = find (\<lambda>i. elems s ! i = p) [0..<st_num s]"
    using find_elems [of "\<lambda>x. x = p" s] .
  show ?thesis
  proof (cases "find (\<lambda>i. st_data s ! i = p) [0..<st_num s]")
    case None
    then have "p \<notin> set (elems s)" unfolding f by (auto simp: find_None_iff in_set_conv_nth l)
    with None assms show ?thesis by (simp add: shows_list_def list_remove_ptr_def)
  next
    case (Some i)
    have i: "i < st_num s" "elems s ! i = p" "\<forall>j<i. elems s ! j \<noteq> p"
      using Some unfolding f by (auto simp: find_Some_iff)
    then have "p \<notin> set (take i (elems s))" by (auto simp: in_set_conv_nth)
    with i have "remove1 p (elems s) = list_delete (elems s) i" using remove1_at [of i "elems s"] l
      by (simp add: list_delete_def)
    moreover have "p \<in> set (elems s)" using i l nth_mem by metis
    ultimately have "list_remove_ptr (elems s) p = list_remove (elems s) i"
      using i l by (simp add: list_remove_ptr_def list_remove_def)
    with Some sk_delete_shows [OF assms, of i] show ?thesis by (simp del: sk_delete.simps)
  qed
qed

lemma sk_pop_shift_shows:
  assumes "stack_ok s"
  shows "shows_list (sk_pop (Some s)) (list_remove (elems s) (length (elems s) - 1))"
    and "shows_list (sk_shift (Some s)) (list_remove (elems s) 0)"
  using sk_delete_shows [OF assms, of "st_num s - 1"] sk_delete_shows [OF assms, of 0] length_elems [OF assms] assms
  by (auto simp: shows_list_def list_remove_def simp del: sk_delete.simps)

lemma map_filter_map: "List.map_filter f (map g xs) = List.map_filter (\<lambda>x. f (g x)) xs"
  by (induction xs) (simp_all split: option.split)

lemma sk_pop_free_elems: "stack_ok s \<Longrightarrow> sk_pop_free_ex (Some s) = List.map_filter id (elems s)"
proof -
  assume "stack_ok s"
  then have e: "elems s = map (\<lambda>i. st_data s ! i) [0..<st_num s]"
    using length_elems [of s] by (intro nth_equalityI) (simp_all add: elems_nth)
  show ?thesis unfolding e map_filter_map by (auto simp: sk_pop_free_ex_def intro!: map_filter_cong)
qed

lemma sk_list_laws:
  assumes "good_ptr_alloc al" and "stack_ok s"
  shows "sk_num (Some s) = length (elems s)"
    and "sk_value (Some s) i = (if i < length (elems s) then elems s ! i else None)"
    and "shows_list (sk_delete (Some s) i) (list_remove (elems s) i)"
    and "shows_list (sk_delete_ptr (Some s) p) (list_remove_ptr (elems s) p)"
    and "shows_list (sk_pop (Some s)) (list_remove (elems s) (length (elems s) - 1))"
    and "shows_list (sk_shift (Some s)) (list_remove (elems s) 0)"
    and "sk_insert al (Some s) p i = (0, Some s) \<or>
      shows_list (sk_insert al (Some s) p i) (Suc (length (elems s)), list_insert (elems s) i p)"
    and "sk_pop_free_ex (Some s) = List.map_filter id (elems s)"
proof -
  note l = length_elems [OF assms(2)]
  show "sk_num (Some s) = length (elems s)" "sk_value (Some s) i = (if i < length (elems s) then elems s ! i else None)"
    using l by (simp_all add: elems_nth)
  show "sk_insert al (Some s) p i = (0, Some s) \<or>
      shows_list (sk_insert al (Some s) p i) (Suc (length (elems s)), list_insert (elems s) i p)"
  proof (cases "sk_insert al (Some s) p i")
    case (Pair n r)
    from sk_insert_laws [OF assms this] show ?thesis unfolding Pair shows_list_def list_insert_def by auto
  qed
  show "sk_pop_free_ex (Some s) = List.map_filter id (elems s)" using sk_pop_free_elems [OF assms(2)] .
qed (use assms sk_delete_shows sk_delete_ptr_shows sk_pop_shift_shows in blast)+

text \<open>
  C25 (refinement).  A well-formed stack implements a list: reading, deleting by index or by pointer,
  popping and shifting return what the list operation gives and leave its list; inserting either reports
  an error and changes nothing, or returns the new length and inserts.
\<close>

theorem sk_refines_lists:
  assumes "good_ptr_alloc al" and "stack_ok s"
  shows "sk_num (Some s) = length (elems s) \<and>
    sk_value (Some s) i = (if i < length (elems s) then elems s ! i else None) \<and>
    shows_list (sk_delete (Some s) i) (list_remove (elems s) i) \<and>
    shows_list (sk_delete_ptr (Some s) p) (list_remove_ptr (elems s) p) \<and>
    shows_list (sk_pop (Some s)) (list_remove (elems s) (length (elems s) - 1)) \<and>
    shows_list (sk_shift (Some s)) (list_remove (elems s) 0) \<and>
    (sk_insert al (Some s) p i = (0, Some s) \<or>
      shows_list (sk_insert al (Some s) p i) (Suc (length (elems s)), list_insert (elems s) i p)) \<and>
    sk_pop_free_ex (Some s) = List.map_filter id (elems s)"
  by (intro conjI sk_list_laws [OF assms])

theorem sk_refines_lists_witness:
  "\<exists>s. number_stack [3, 1, 2] = Some s \<and> sk_value (Some s) 1 = Some 2 \<and> fst (sk_pop (Some s)) = Some 3 \<and>
     fst (sk_delete_ptr (Some s) (Some 7)) = None"
proof -
  have e: "map_option elems (number_stack [3, 1, 2]) = Some [Some 1, Some 2, Some 3]" by code_simp
  then obtain s where s: "number_stack [3, 1, 2] = Some s" "elems s = [Some 1, Some 2, Some 3]" by auto
  then have "stack_ok s"
    using sk_reachable_keeps [OF good_null_ptr_alloc good_insertion_qsort number_stack_reachable] by blast
  note r = sk_refines_lists [OF good_null_ptr_alloc this]
  show ?thesis using s r [of 1 "Some 7"]
    by (auto simp: shows_list_def list_remove_def list_remove_ptr_def simp del: sk_value.simps sk_pop.simps sk_delete_ptr.simps)
qed

section \<open>Last in, first out\<close>

fun pushes :: "('s \<Rightarrow> 'e \<Rightarrow> 's option) \<Rightarrow> 's \<Rightarrow> 'e list \<Rightarrow> 's option" where
  "pushes push s [] = Some s"
| "pushes push s (x # xs) = (case push s x of None \<Rightarrow> None | Some s1 \<Rightarrow> pushes push s1 xs)"

fun pops :: "('s \<Rightarrow> 'e option \<times> 's) \<Rightarrow> nat \<Rightarrow> 's \<Rightarrow> 'e list \<times> 's" where
  "pops pop 0 s = ([], s)"
| "pops pop (Suc n) s =
     (case pop s of (None, s1) \<Rightarrow> ([], s1) | (Some x, s1) \<Rightarrow> (let (xs, s2) = pops pop n s1 in (x # xs, s2)))"

locale lifo =
  fixes push :: "'s \<Rightarrow> 'e \<Rightarrow> 's option"
    and pop :: "'s \<Rightarrow> 'e option \<times> 's"
    and inv :: "'s \<Rightarrow> bool"
    and view :: "'s \<Rightarrow> 'e list"
  assumes push_view: "inv s \<Longrightarrow> push s x = Some s' \<Longrightarrow> inv s' \<and> view s' = view s @ [x]"
    and pop_view: "inv s \<Longrightarrow> view s = xs @ [x] \<Longrightarrow> \<exists>s'. pop s = (Some x, s') \<and> inv s' \<and> view s' = xs"
    and pop_empty: "inv s \<Longrightarrow> view s = [] \<Longrightarrow> pop s = (None, s)"
begin

lemma pushes_view: "inv s \<Longrightarrow> pushes push s xs = Some s' \<Longrightarrow> inv s' \<and> view s' = view s @ xs"
proof (induction xs arbitrary: s)
  case (Cons x xs)
  from Cons.prems(2) obtain s1 where s1: "push s x = Some s1" "pushes push s1 xs = Some s'" by (auto split: option.splits)
  from push_view [OF Cons.prems(1) s1(1)] Cons.IH [OF _ s1(2)] show ?case by simp
qed simp

lemma pops_view:
  assumes "inv s" and "view s = ys @ xs"
  shows "\<exists>s'. pops pop (length xs) s = (rev xs, s') \<and> inv s' \<and> view s' = ys"
  using assms
proof (induction xs arbitrary: s rule: rev_induct)
  case (snoc x xs)
  from pop_view [OF snoc.prems(1), of "ys @ xs" x] snoc.prems(2)
  obtain s1 where s1: "pop s = (Some x, s1)" "inv s1" "view s1 = ys @ xs" by auto
  from snoc.IH [OF s1(2,3)] s1(1) show ?case by auto
qed simp

lemma push_pop: "inv s \<Longrightarrow> pushes push s xs = Some s' \<Longrightarrow> \<exists>s''. pops pop (length xs) s' = (rev xs, s'') \<and> view s'' = view s"
  using pushes_view pops_view by blast

end

text \<open>The two operations as a client calls them, in a state that carries the allocator.\<close>

fun client_push :: "'a ptr_alloc \<times> ('a, 'c) stack_st \<Rightarrow> 'a option \<Rightarrow> ('a ptr_alloc \<times> ('a, 'c) stack_st) option" where
  "client_push (al, s) p = (case sk_push al s p of (0, r) \<Rightarrow> None | (_, None) \<Rightarrow> None | (_, Some s1) \<Rightarrow> Some (al, s1))"

fun client_pop :: "'a ptr_alloc \<times> ('a, 'c) stack_st \<Rightarrow> 'a option option \<times> ('a ptr_alloc \<times> ('a, 'c) stack_st)" where
  "client_pop (al, s) =
     (if sk_num (Some s) = 0 then (None, (al, s))
      else case sk_pop (Some s) of (p, None) \<Rightarrow> (None, (al, s)) | (p, Some s1) \<Rightarrow> (Some p, (al, s1)))"

interpretation sk: lifo client_push client_pop "\<lambda>(al, s). good_ptr_alloc al \<and> stack_ok s" "\<lambda>(al, s). elems s"
proof (unfold_locales, goal_cases)
  case (1 st x st')
  obtain al s where st: "st = (al, s)" by force
  with 1 obtain n r where p: "sk_insert al (Some s) x (st_num s) = (n, r)" "good_ptr_alloc al" "stack_ok s"
    by (cases "sk_insert al (Some s) x (st_num s)") auto
  with 1 st sk_insert_laws [OF p(2,3,1)] length_elems [OF p(3)] show ?case
    by (auto simp: sk_push_def split: nat.splits option.splits)
next
  case (2 st xs x)
  obtain al s where st: "st = (al, s)" by force
  with 2 have s: "good_ptr_alloc al" "stack_ok s" "elems s = xs @ [x]" by auto
  then have n: "length (elems s) = Suc (length xs)" "st_num s = Suc (length xs)" using length_elems [OF s(2)] by auto
  from sk_pop_shift_shows(1) [OF s(2)] n s(3) obtain s1 where "sk_pop (Some s) = (x, Some s1)" "stack_ok s1" "elems s1 = xs"
    by (auto simp: shows_list_def list_remove_def list_delete_def simp del: sk_pop.simps)
  with s st n show ?case by (auto simp del: sk_pop.simps)
next
  case (3 st)
  obtain al s where st: "st = (al, s)" by force
  with 3 have "st_num s = 0" using length_elems [of s] by auto
  with st show ?case by simp
qed

text \<open>
  The stack discipline: what a run of successful \<open>sk_push\<close> calls put on a stack, as many \<open>sk_pop\<close> calls give back in
  the opposite order, and leave the elements it had before.
\<close>

lemma sk_lifo:
  assumes "good_ptr_alloc al" and "stack_ok s" and "pushes client_push (al, s) xs = Some (al', s')"
  shows "\<exists>al'' s''. pops client_pop (length xs) (al', s') = (rev xs, (al'', s'')) \<and> elems s'' = elems s"
  using sk.push_pop [of "(al, s)" xs "(al', s')"] assms by auto

section \<open>Deep copies\<close>

text \<open>
  C26 (error).  \<open>sk_deep_copy\<close> is all or nothing.  When the copy function succeeds on every element that is
  not \<open>NULL\<close>, the result holds the copies in place and nothing is freed; otherwise there is no result and
  exactly the copies made before the first failure are handed to the free function.
\<close>

theorem sk_deep_copy_exact:
  assumes "good_ptr_alloc al" and "stack_ok s" and "sk_dup al struct_ok (Some s) = Some d"
  shows "case find (\<lambda>j. elems s ! j \<noteq> None \<and> copied copy (elems s) j = None) [0..<length (elems s)] of
     None \<Rightarrow> \<exists>r. sk_deep_copy al struct_ok copy (Some s) = (Some r, []) \<and> stack_ok r \<and>
       elems r = map (copied copy (elems s)) [0..<length (elems s)] \<and> st_comp r = st_comp s \<and> st_sorted r = st_sorted s
   | Some j \<Rightarrow> sk_deep_copy al struct_ok copy (Some s) = (None, List.map_filter (copied copy (elems s)) [0..<j])"
proof -
  note d = sk_dup_laws [OF assms]
  have "length (elems s) = st_num d" using length_elems [OF assms(2)] d(5) by simp
  from deep_copy_loop_exact [OF d(1) this le0, of copy] d show ?thesis
    unfolding sk_deep_copy_def using assms(3) by (auto simp: simp del: sk_dup.simps split: option.splits)
qed

theorem sk_deep_copy_exact_witness:
  "\<exists>s. number_stack [4, 2, 9] = Some s \<and> fst (sk_deep_copy null_ptr_alloc True (\<lambda>i x. if x = 9 then None else Some (x + 1)) (Some s)) = None \<and>
     snd (sk_deep_copy null_ptr_alloc True (\<lambda>i x. if x = 9 then None else Some (x + 1)) (Some s)) = [3, 5]"
proof -
  define s where "s = the (number_stack [4, 2, 9])"
  have n: "number_stack [4, 2, 9] = Some s" unfolding s_def by code_simp
  have e: "elems s = [Some 2, Some 4, Some 9]" unfolding s_def by code_simp
  have ok: "stack_ok s"
    using sk_reachable_keeps [OF good_null_ptr_alloc good_insertion_qsort number_stack_reachable [OF n]] by simp
  obtain d where "sk_dup null_ptr_alloc True (Some s) = Some d" by (simp add: null_ptr_alloc_def)
  from sk_deep_copy_exact [OF good_null_ptr_alloc ok this, of "\<lambda>i x. if x = 9 then None else Some (x + 1)"] n
  show ?thesis by (simp add: e copied_def upt_rec numeral_3_eq_3)
qed

section \<open>Setting an element\<close>

text \<open>
  C27 (error).  \<open>sk_set\<close> replaces an element and keeps the \<open>sorted\<close> flag, so the flag of a sorted stack can
  be wrong afterwards.  In any stack marked as sorted, with three elements or more, put a pointer that compares greater than
  all others into the first place: the stack still reports that it is sorted and is not, and \<open>sk_find\<close>, searching it by halves,
  does not find the pointer it holds.
\<close>

theorem sk_set_keeps_stale_flag:
  assumes "stack_ok s" and "st_sorted s" and "st_comp s = Some c" and "3 \<le> st_num s"
    and "\<And>k. 0 < k \<Longrightarrow> k < st_num s \<Longrightarrow> 0 < call_cmp c p (elems s ! k)"
  shows "\<exists>s'. sk_set (Some s) 0 p = (p, Some s') \<and> sk_is_sorted (Some s') \<and> \<not> ordered (call_cmp c) (elems s') \<and>
     sk_value (Some s') 0 = p \<and> sk_find call_cmp (Some s') p = None"
proof -
  define s' where "s' = s\<lparr>st_data := (st_data s)[0 := p]\<rparr>"
  have l: "length (elems s) = st_num s" "0 < length (st_data s)" using length_elems [OF assms(1)] assms(1) by (simp_all add: stack_ok_def)
  have e: "elems s' = (elems s)[0 := p]" by (simp add: s'_def elems_def take_update_swap)
  have "\<not> ordered (call_cmp c) (elems s')"
  proof
    assume "ordered (call_cmp c) (elems s')"
    then have "call_cmp c (elems s' ! 0) (elems s' ! 1) \<le> 0"
      unfolding ordered_def using sorted_wrt_nth_less [of "\<lambda>x y. call_cmp c x y \<le> 0" "elems s'" 0 1] assms(4) e l by simp
    with assms(5) [of 1] assms(4) e l show False by simp
  qed
  moreover have "sk_find call_cmp (Some s') p = None"
  proof (cases "p = None")
    case True
    then show ?thesis using assms(3) by (simp add: s'_def)
  next
    case False
    let ?dat = "st_data s'" and ?n = "st_num s"
    have gr: "0 < call_cmp c p (?dat ! k)" if "0 < k" "k < ?n" for k
      using assms(5) [OF that] that elems_nth [OF that(2)] by (simp add: s'_def)
    have "sk_bsearch (call_cmp c) p ?dat 0 ?n = sk_bsearch (call_cmp c) p ?dat ((?n - 1) div 2 + 1) ?n"
      using assms(4) gr [of "(?n - 1) div 2"] by (subst sk_bsearch.simps) (simp add: Let_def)
    also have "\<dots> = None"
    proof (rule sk_bsearch_None)
      fix k
      assume "(?n - 1) div 2 + 1 \<le> k" "k < ?n"
      then have "0 < call_cmp c p (?dat ! k)" by (intro gr) simp_all
      then show "call_cmp c p (?dat ! k) \<noteq> 0" by simp
    qed
    finally have "sk_bsearch (call_cmp c) p ?dat 0 (st_num s') = None" by (simp add: s'_def)
    then show ?thesis using False assms(2,3) by (simp add: s'_def)
  qed
  moreover have "sk_set (Some s) 0 p = (p, Some s')" "sk_is_sorted (Some s')" "sk_value (Some s') 0 = p"
    using assms(2,4) l(2) by (simp_all add: s'_def)
  ultimately show ?thesis by blast
qed

theorem sk_set_keeps_stale_flag_witness:
  "\<exists>s s'. number_stack [1, 2, 3] = Some s \<and> sk_set (Some s) 0 (Some 9) = (Some 9, Some s') \<and> sk_is_sorted (Some s') \<and>
     sk_find num_cmp (Some s') (Some 9) = None"
proof -
  define s where "s = the (number_stack [1, 2, 3])"
  have n: "number_stack [1, 2, 3] = Some s" unfolding s_def by code_simp
  have e: "elems s = [Some 1, Some 2, Some 3]" "st_sorted s" "st_comp s = Some ()" "st_num s = 3" unfolding s_def by code_simp+
  have ok: "stack_ok s"
    using sk_reachable_keeps [OF good_null_ptr_alloc good_insertion_qsort number_stack_reachable [OF n]] by simp
  have "0 < num_cmp () (Some 9) (elems s ! k)" if "0 < k" "k < st_num s" for k
    using that e by (auto simp: num_cmp_def nth_Cons less_Suc_eq numeral_3_eq_3 split: nat.splits)
  from sk_set_keeps_stale_flag [where call_cmp = num_cmp and p = "Some 9", OF ok e(2,3) _ this] e(4) n show ?thesis by auto
qed

end
