(* ===== verification/Lh_Table.thy ===== *)
theory Lh_Table
  imports Prelude "HOL-Library.Multiset" "HOL-Library.Code_Target_Numeral"
begin

text \<open>
  \<open>crypto/lhash/lhash.c\<close>: the chained hash table.  A chain is a list of items, a \<open>LHASH_ITEM **\<close> is the
  bucket and the position in its chain, with the end of the chain for a pointer to \<open>NULL\<close>.  Hash and
  comparison functions are known by their addresses; the \<open>call\<close> helpers give them their meaning.  \<open>al n\<close>
  says whether \<open>malloc\<close> of \<open>n\<close> bytes succeeds.  The stored data are pointers other than \<open>NULL\<close>.
\<close>

section \<open>State\<close>

definition kMinNumBuckets :: nat where "kMinNumBuckets = 16"

definition kMaxAverageChainLength :: nat where "kMaxAverageChainLength = 2"

definition kMinAverageChainLength :: nat where "kMinAverageChainLength = 1"

record 'a lhash_item =
  it_data :: 'a
  it_hash :: "32 word"

record ('a, 'h, 'c) lhash_st =
  lh_num_items :: nat
  lh_buckets :: "'a lhash_item list list"
  lh_num_buckets :: nat
  lh_callback_depth :: "32 word"
  lh_comp :: 'c
  lh_hash :: 'h

type_synonym ('a, 'h) hash_caller = "'h \<Rightarrow> 'a \<Rightarrow> 32 word"
type_synonym ('a, 'c) lh_cmp_caller = "'c \<Rightarrow> 'a \<Rightarrow> 'a \<Rightarrow> int"

section \<open>Operations\<close>

definition OPENSSL_lh_new :: "(nat \<Rightarrow> bool) \<Rightarrow> 'h \<Rightarrow> 'c \<Rightarrow> ('a, 'h, 'c) lhash_st option" where
  "OPENSSL_lh_new al hash_fn comp_fn =
     (if \<not> al 48 then None
      else if \<not> al (8 * kMinNumBuckets) then None
      else Some \<lparr>lh_num_items = 0, lh_buckets = replicate kMinNumBuckets [], lh_num_buckets = kMinNumBuckets,
                 lh_callback_depth = 0, lh_comp = comp_fn, lh_hash = hash_fn\<rparr>)"

text \<open>The items handed to \<open>free\<close>, in order.\<close>

definition OPENSSL_lh_free :: "('a, 'h, 'c) lhash_st option \<Rightarrow> 'a lhash_item list" where
  "OPENSSL_lh_free lh =
     (case lh of None \<Rightarrow> [] | Some t \<Rightarrow> concat (map (\<lambda>i. lh_buckets t ! i) [0..<lh_num_buckets t]))"

definition OPENSSL_lh_num_items :: "('a, 'h, 'c) lhash_st \<Rightarrow> nat" where
  "OPENSSL_lh_num_items lh = lh_num_items lh"

text \<open>The walk along a chain: the position of the first item that satisfies the test, or the end.\<close>

fun chain_pos :: "('i \<Rightarrow> bool) \<Rightarrow> 'i list \<Rightarrow> nat" where
  "chain_pos eq [] = 0"
| "chain_pos eq (cur # next) = (if eq cur then 0 else Suc (chain_pos eq next))"

definition get_next_ptr_and_hash ::
  "('a, 'h) hash_caller \<Rightarrow> ('a, 'c) lh_cmp_caller \<Rightarrow> ('a, 'h, 'c) lhash_st \<Rightarrow> 'a \<Rightarrow> nat \<times> nat \<times> 32 word" where
  "get_next_ptr_and_hash call_hash call_cmp lh dat =
     (let hash = call_hash (lh_hash lh) dat;
          b = unat hash mod lh_num_buckets lh
      in (b, chain_pos (\<lambda>cur. call_cmp (lh_comp lh) (it_data cur) dat = 0) (lh_buckets lh ! b), hash))"

definition get_next_ptr_by_key ::
  "('a, 'h, 'c) lhash_st \<Rightarrow> 'k \<Rightarrow> 32 word \<Rightarrow> ('k \<Rightarrow> 'a \<Rightarrow> int) \<Rightarrow> nat \<times> nat" where
  "get_next_ptr_by_key lh key key_hash cmp_key =
     (let b = unat key_hash mod lh_num_buckets lh
      in (b, chain_pos (\<lambda>cur. cmp_key key (it_data cur) = 0) (lh_buckets lh ! b)))"

definition item_at :: "('a, 'h, 'c) lhash_st \<Rightarrow> nat \<Rightarrow> nat \<Rightarrow> 'a lhash_item option" where
  "item_at lh b i = (if i < length (lh_buckets lh ! b) then Some (lh_buckets lh ! b ! i) else None)"

definition OPENSSL_lh_retrieve ::
  "('a, 'h) hash_caller \<Rightarrow> ('a, 'c) lh_cmp_caller \<Rightarrow> ('a, 'h, 'c) lhash_st \<Rightarrow> 'a \<Rightarrow> 'a option" where
  "OPENSSL_lh_retrieve call_hash call_cmp lh dat =
     (case get_next_ptr_and_hash call_hash call_cmp lh dat of (b, i, _) \<Rightarrow> map_option it_data (item_at lh b i))"

definition OPENSSL_lh_retrieve_key ::
  "('a, 'h, 'c) lhash_st \<Rightarrow> 'k \<Rightarrow> 32 word \<Rightarrow> ('k \<Rightarrow> 'a \<Rightarrow> int) \<Rightarrow> 'a option" where
  "OPENSSL_lh_retrieve_key lh key key_hash cmp_key =
     (case get_next_ptr_by_key lh key key_hash cmp_key of (b, i) \<Rightarrow> map_option it_data (item_at lh b i))"

text \<open>One item of the old table goes to the head of its new chain.\<close>

definition rebucket_item :: "nat \<Rightarrow> 'a lhash_item \<Rightarrow> 'a lhash_item list list \<Rightarrow> 'a lhash_item list list" where
  "rebucket_item new_num_buckets cur new_buckets =
     (let new_bucket = unat (it_hash cur) mod new_num_buckets
      in new_buckets[new_bucket := cur # new_buckets ! new_bucket])"

definition lh_rebucket :: "(nat \<Rightarrow> bool) \<Rightarrow> ('a, 'h, 'c) lhash_st \<Rightarrow> nat \<Rightarrow> ('a, 'h, 'c) lhash_st" where
  "lh_rebucket al lh new_num_buckets =
     (let alloc_size = size_wrap (8 * new_num_buckets)
      in if alloc_size div 8 \<noteq> new_num_buckets then lh
         else if \<not> al alloc_size then lh
         else lh\<lparr>lh_buckets := fold (\<lambda>i. fold (rebucket_item new_num_buckets) (lh_buckets lh ! i))
                                  [0..<lh_num_buckets lh] (replicate new_num_buckets []),
                 lh_num_buckets := new_num_buckets\<rparr>)"

definition lh_maybe_resize :: "(nat \<Rightarrow> bool) \<Rightarrow> ('a, 'h, 'c) lhash_st \<Rightarrow> ('a, 'h, 'c) lhash_st" where
  "lh_maybe_resize al lh =
     (if lh_callback_depth lh > 0 then lh
      else let avg_chain_length = lh_num_items lh div lh_num_buckets lh
           in if avg_chain_length > kMaxAverageChainLength then
                let new_num_buckets = size_wrap (lh_num_buckets lh * 2)
                in if new_num_buckets > lh_num_buckets lh then lh_rebucket al lh new_num_buckets else lh
              else if avg_chain_length < kMinAverageChainLength \<and> lh_num_buckets lh > kMinNumBuckets then
                let new_num_buckets = lh_num_buckets lh div 2;
                    new_num_buckets1 = (if new_num_buckets < kMinNumBuckets then kMinNumBuckets else new_num_buckets)
                in lh_rebucket al lh new_num_buckets1
              else lh)"

text \<open>\<open>OPENSSL_lh_insert\<close> returns its success, \<open>*old_data\<close> and the table.\<close>

definition OPENSSL_lh_insert :: "(nat \<Rightarrow> bool) \<Rightarrow> ('a, 'h) hash_caller \<Rightarrow> ('a, 'c) lh_cmp_caller \<Rightarrow>
    ('a, 'h, 'c) lhash_st \<Rightarrow> 'a \<Rightarrow> bool \<times> 'a option \<times> ('a, 'h, 'c) lhash_st" where
  "OPENSSL_lh_insert al call_hash call_cmp lh dat =
     (case get_next_ptr_and_hash call_hash call_cmp lh dat of (b, i, hash) \<Rightarrow>
        (case item_at lh b i of
           Some item \<Rightarrow>
             (True, Some (it_data item),
              lh\<lparr>lh_buckets := (lh_buckets lh)[b := (lh_buckets lh ! b)[i := item\<lparr>it_data := dat\<rparr>]]\<rparr>)
         | None \<Rightarrow>
             if \<not> al 24 then (False, None, lh)
             else (True, None,
                   lh_maybe_resize al
                     (lh\<lparr>lh_buckets := (lh_buckets lh)[b := lh_buckets lh ! b @ [\<lparr>it_data = dat, it_hash = hash\<rparr>]],
                         lh_num_items := size_wrap (lh_num_items lh + 1)\<rparr>))))"

definition OPENSSL_lh_delete :: "(nat \<Rightarrow> bool) \<Rightarrow> ('a, 'h) hash_caller \<Rightarrow> ('a, 'c) lh_cmp_caller \<Rightarrow>
    ('a, 'h, 'c) lhash_st \<Rightarrow> 'a \<Rightarrow> 'a option \<times> ('a, 'h, 'c) lhash_st" where
  "OPENSSL_lh_delete al call_hash call_cmp lh dat =
     (case get_next_ptr_and_hash call_hash call_cmp lh dat of (b, i, _) \<Rightarrow>
        (case item_at lh b i of
           None \<Rightarrow> (None, lh)
         | Some item \<Rightarrow>
             (Some (it_data item),
              lh_maybe_resize al
                (lh\<lparr>lh_buckets := (lh_buckets lh)[b := take i (lh_buckets lh ! b) @ drop (i + 1) (lh_buckets lh ! b)],
                    lh_num_items := size_wrap (lh_num_items lh + (2 ^ 64 - 1))\<rparr>))))"

text \<open>
  The iteration, with a callback that works on a state \<open>w\<close> of its own and leaves the table alone.
  \<open>callback_depth\<close> saturates at \<open>UINT_MAX\<close>.
\<close>

definition doall_enter :: "('a, 'h, 'c) lhash_st \<Rightarrow> ('a, 'h, 'c) lhash_st" where
  "doall_enter lh = (if lh_callback_depth lh < -1 then lh\<lparr>lh_callback_depth := lh_callback_depth lh + 1\<rparr> else lh)"

definition doall_leave :: "('a, 'h, 'c) lhash_st \<Rightarrow> ('a, 'h, 'c) lhash_st" where
  "doall_leave lh = (if lh_callback_depth lh < -1 then lh\<lparr>lh_callback_depth := lh_callback_depth lh - 1\<rparr> else lh)"

definition OPENSSL_lh_doall_arg ::
  "(nat \<Rightarrow> bool) \<Rightarrow> ('a \<Rightarrow> 'w \<Rightarrow> 'w) \<Rightarrow> ('a, 'h, 'c) lhash_st option \<Rightarrow> 'w \<Rightarrow> ('a, 'h, 'c) lhash_st option \<times> 'w" where
  "OPENSSL_lh_doall_arg al func lh w =
     (case lh of
        None \<Rightarrow> (None, w)
      | Some t \<Rightarrow>
          let t1 = doall_enter t;
              w1 = fold (\<lambda>i. fold (\<lambda>cur. func (it_data cur)) (lh_buckets t1 ! i)) [0..<lh_num_buckets t1] w
          in (Some (lh_maybe_resize al (doall_leave t1)), w1))"

end
