(* ===== verification/Lh_Map.thy ===== *)
theory Lh_Map
  imports Lh_Table
begin

text \<open>
  The hash table of \<open>lhash.c\<close> as a finite map: the invariant of its buckets, what every operation does to the
  stored elements, the refinement of a map, the load that insertions and deletions keep, and the iteration.
\<close>

section \<open>Generic lemmas\<close>

lemma chain_pos_le: "chain_pos eq xs \<le> length xs"
  by (induction xs) auto

lemma chain_pos_less: "chain_pos eq xs < length xs \<longleftrightarrow> (\<exists>x \<in> set xs. eq x)"
  by (induction xs) auto

lemma chain_pos_found: "chain_pos eq xs < length xs \<Longrightarrow> eq (xs ! chain_pos eq xs)"
  by (induction xs) (auto split: if_splits)

lemma mset_concat_update:
  assumes "b < length bs"
  shows "mset (concat (bs[b := c])) = mset (concat bs) - mset (bs ! b) + mset c"
proof -
  have "bs = take b bs @ bs ! b # drop (Suc b) bs" using assms by (rule id_take_nth_drop)
  then have "mset (concat bs) = mset (concat (take b bs)) + mset (bs ! b) + mset (concat (drop (Suc b) bs))"
    by (metis (no_types) concat.simps(2) concat_append mset_append union_assoc)
  moreover have "mset (concat (bs[b := c])) = mset (concat (take b bs)) + mset c + mset (concat (drop (Suc b) bs))"
    using assms by (simp add: upd_conv_take_nth_drop)
  ultimately show ?thesis by simp
qed

lemma mset_bucket_sub: "b < length bs \<Longrightarrow> mset (bs ! b) \<subseteq># mset (concat bs)"
proof (induction bs arbitrary: b)
  case (Cons x bs)
  show ?case
  proof (cases b)
    case (Suc n)
    with Cons have "mset (bs ! n) \<subseteq># mset (concat bs)" by simp
    then show ?thesis using Suc by (simp add: subset_mset.add_increasing)
  qed simp
qed simp

lemma fold_concat: "fold (\<lambda>xs. fold f xs) xss a = fold f (concat xss) a"
  by (induction xss arbitrary: a) auto

lemma fold_index: "fold (\<lambda>i. f (xs ! i)) [0..<length xs] a = fold f xs a"
proof -
  have "fold f (map (\<lambda>i. xs ! i) [0..<length xs]) a = fold (\<lambda>i. f (xs ! i)) [0..<length xs] a"
    by (simp add: fold_map o_def)
  then show ?thesis by (simp add: map_nth)
qed

lemma size_wrap_Suc: "size_wrap (Suc (size_wrap n)) = size_wrap (Suc n)"
  by (simp add: size_wrap_def mod_Suc_eq)

lemma size_wrap_pred: "size_wrap (size_wrap (Suc n) + (2 ^ 64 - 1)) = size_wrap n"
proof -
  have "(Suc n mod 2 ^ 64 + (2 ^ 64 - 1)) mod 2 ^ 64 = (Suc n + (2 ^ 64 - 1)) mod 2 ^ 64" by (rule mod_add_left_eq)
  then show ?thesis by (simp add: size_wrap_def)
qed

section \<open>The invariant\<close>

text \<open>What the caller's functions have to be: equality is an equivalence, and equal data have equal hashes.\<close>

definition hash_laws :: "('a \<Rightarrow> 32 word) \<Rightarrow> ('a \<Rightarrow> 'a \<Rightarrow> int) \<Rightarrow> bool" where
  "hash_laws h c \<longleftrightarrow> equivp (\<lambda>x y. c x y = 0) \<and> (\<forall>x y. c x y = 0 \<longrightarrow> h x = h y)"

definition eq_class :: "('a \<Rightarrow> 'a \<Rightarrow> int) \<Rightarrow> 'a \<Rightarrow> 'a set" where
  "eq_class c x = {y. c x y = 0}"

lemma eq_class_iff: "hash_laws h c \<Longrightarrow> eq_class c x = eq_class c y \<longleftrightarrow> c x y = 0"
  unfolding hash_laws_def eq_class_def equivp_def by (metis (mono_tags) Collect_cong mem_Collect_eq)

lemma eq_hash: "hash_laws h c \<Longrightarrow> c x y = 0 \<Longrightarrow> h x = h y"
  by (simp add: hash_laws_def)

definition one_per_class :: "('a \<Rightarrow> 'a \<Rightarrow> int) \<Rightarrow> 'a multiset \<Rightarrow> bool" where
  "one_per_class c M \<longleftrightarrow> (\<forall>k. count (image_mset (eq_class c) M) k \<le> 1)"

lemma one_per_classD:
  assumes "one_per_class c M" and "x \<in># M" and "y \<in># M" and "eq_class c x = eq_class c y"
  shows "x = y"
proof (rule ccontr)
  assume n: "x \<noteq> y"
  obtain N where N: "M = add_mset x N" using assms(2) by (meson multi_member_split)
  with n assms(3) obtain K where "N = add_mset y K" by (metis insert_noteq_member multi_member_split)
  then have "count (image_mset (eq_class c) M) (eq_class c x) \<ge> 2" using N assms(4) by simp
  with assms(1) show False unfolding one_per_class_def by (metis Suc_1 not_less_eq_eq)
qed

lemma one_per_class_once:
  assumes "one_per_class c M"
  shows "v \<notin># M - {#v#}"
proof
  assume v: "v \<in># M - {#v#}"
  then have "v \<in># M" by (rule in_diffD)
  then obtain N where N: "M = add_mset v N" by (meson multi_member_split)
  with v obtain K where "N = add_mset v K" by (metis add_mset_remove_trivial multi_member_split)
  then have "count (image_mset (eq_class c) M) (eq_class c v) \<ge> 2" using N by simp
  with assms show False unfolding one_per_class_def by (metis Suc_1 not_less_eq_eq)
qed

lemma one_per_class_add:
  assumes "one_per_class c M" and "\<And>y. y \<in># M \<Longrightarrow> eq_class c y \<noteq> eq_class c x"
  shows "one_per_class c (add_mset x M)"
proof -
  have "count (image_mset (eq_class c) M) (eq_class c x) = 0"
    using assms(2) by (auto simp: count_eq_zero_iff)
  with assms(1) show ?thesis by (auto simp: one_per_class_def)
qed

lemma one_per_class_sub: "one_per_class c M \<Longrightarrow> N \<subseteq># M \<Longrightarrow> one_per_class c N"
  unfolding one_per_class_def by (meson image_mset_subseteq_mono le_trans mset_subset_eq_count)

lemma one_per_class_swap:
  assumes "one_per_class c M" and "x \<in># M" and "eq_class c x = eq_class c y"
  shows "one_per_class c (add_mset y (M - {#x#}))"
proof -
  obtain N where "M = add_mset x N" using assms(2) by (meson multi_member_split)
  with assms show ?thesis by (simp add: one_per_class_def)
qed

definition lh_items :: "('a, 'h, 'c) lhash_st \<Rightarrow> 'a lhash_item list" where
  "lh_items lh = concat (lh_buckets lh)"

definition lh_elems :: "('a, 'h, 'c) lhash_st \<Rightarrow> 'a multiset" where
  "lh_elems lh = image_mset it_data (mset (lh_items lh))"

text \<open>Every item is in the chain of its hash, with its hash stored.\<close>

definition buckets_ok :: "('a \<Rightarrow> 32 word) \<Rightarrow> nat \<Rightarrow> 'a lhash_item list list \<Rightarrow> bool" where
  "buckets_ok h n bs \<longleftrightarrow> length bs = n \<and>
     (\<forall>b < n. \<forall>it \<in> set (bs ! b). h (it_data it) = it_hash it \<and> unat (it_hash it) mod n = b)"

definition lh_ok :: "('a, 'h) hash_caller \<Rightarrow> ('a, 'c) lh_cmp_caller \<Rightarrow> ('a, 'h, 'c) lhash_st \<Rightarrow> bool" where
  "lh_ok call_hash call_cmp lh \<longleftrightarrow> buckets_ok (call_hash (lh_hash lh)) (lh_num_buckets lh) (lh_buckets lh) \<and>
     16 \<le> lh_num_buckets lh \<and> lh_num_buckets lh < 2 ^ 61 \<and> (\<exists>k. lh_num_buckets lh = 2 ^ k) \<and>
     lh_num_items lh = size_wrap (size (lh_elems lh)) \<and> one_per_class (call_cmp (lh_comp lh)) (lh_elems lh)"

lemma size_lh_elems: "size (lh_elems lh) = length (lh_items lh)"
  by (simp add: lh_elems_def)

lemma in_bucket:
  assumes "buckets_ok h n bs" and "it \<in> set (concat bs)"
  shows "it \<in> set (bs ! (unat (it_hash it) mod n))" and "h (it_data it) = it_hash it"
proof -
  from assms(2) obtain ch where "ch \<in> set bs" "it \<in> set ch" by auto
  then obtain b where b: "b < n" "it \<in> set (bs ! b)" using assms(1) by (metis buckets_ok_def in_set_conv_nth)
  with assms(1) have "h (it_data it) = it_hash it \<and> unat (it_hash it) mod n = b" unfolding buckets_ok_def by blast
  with b show "it \<in> set (bs ! (unat (it_hash it) mod n))" "h (it_data it) = it_hash it" by auto
qed

section \<open>Looking up\<close>

text \<open>What \<open>get_next_ptr_and_hash\<close> points to.\<close>

lemma lookup_laws:
  assumes "lh_ok call_hash call_cmp lh" and "hash_laws (call_hash (lh_hash lh)) (call_cmp (lh_comp lh))"
    and "get_next_ptr_and_hash call_hash call_cmp lh x = (b, i, hash)"
  shows "hash = call_hash (lh_hash lh) x" and "b = unat hash mod lh_num_buckets lh" and "b < length (lh_buckets lh)"
    and "i \<le> length (lh_buckets lh ! b)"
    and "case item_at lh b i of
        None \<Rightarrow> i = length (lh_buckets lh ! b) \<and> (\<forall>d \<in># lh_elems lh. call_cmp (lh_comp lh) d x \<noteq> 0)
      | Some it \<Rightarrow> i < length (lh_buckets lh ! b) \<and> it = lh_buckets lh ! b ! i \<and> it_data it \<in># lh_elems lh \<and>
          call_hash (lh_hash lh) (it_data it) = it_hash it \<and> call_cmp (lh_comp lh) (it_data it) x = 0"
proof -
  let ?n = "lh_num_buckets lh" and ?h = "call_hash (lh_hash lh)" and ?c = "call_cmp (lh_comp lh)"
  have ok: "buckets_ok ?h ?n (lh_buckets lh)" "0 < ?n" using assms(1) by (auto simp: lh_ok_def)
  show h: "hash = ?h x" and b: "b = unat hash mod ?n" using assms(3) by (auto simp: get_next_ptr_and_hash_def Let_def)
  then show bl: "b < length (lh_buckets lh)" using ok by (simp add: buckets_ok_def)
  let ?eq = "\<lambda>cur. ?c (it_data cur) x = 0"
  have i: "i = chain_pos ?eq (lh_buckets lh ! b)" using assms(3) by (auto simp: get_next_ptr_and_hash_def Let_def)
  then show il: "i \<le> length (lh_buckets lh ! b)" by (simp add: chain_pos_le)
  show "case item_at lh b i of
        None \<Rightarrow> i = length (lh_buckets lh ! b) \<and> (\<forall>d \<in># lh_elems lh. ?c d x \<noteq> 0)
      | Some it \<Rightarrow> i < length (lh_buckets lh ! b) \<and> it = lh_buckets lh ! b ! i \<and> it_data it \<in># lh_elems lh \<and>
          ?h (it_data it) = it_hash it \<and> ?c (it_data it) x = 0"
  proof (cases "i < length (lh_buckets lh ! b)")
    case True
    then have m: "lh_buckets lh ! b ! i \<in> set (lh_buckets lh ! b)" by simp
    then have "lh_buckets lh ! b ! i \<in> set (lh_items lh)" using bl unfolding lh_items_def by (metis UN_I nth_mem set_concat)
    moreover have "?eq (lh_buckets lh ! b ! i)" using chain_pos_found [of ?eq] True unfolding i by blast
    ultimately show ?thesis using True m ok bl by (auto simp: item_at_def lh_elems_def buckets_ok_def)
  next
    case False
    have "?c d x \<noteq> 0" if "d \<in># lh_elems lh" for d
    proof
      assume e: "?c d x = 0"
      have "d \<in> it_data ` set (concat (lh_buckets lh))" using that by (simp add: lh_elems_def lh_items_def)
      then obtain it where it: "it \<in> set (concat (lh_buckets lh))" "d = it_data it" by blast
      note in_bucket [OF ok(1) it(1)]
      moreover have "?h d = it_hash it" using in_bucket(2) [OF ok(1) it(1)] it(2) by simp
      moreover have "?h d = hash" using eq_hash [OF assms(2) e] h by simp
      ultimately have "it \<in> set (lh_buckets lh ! b)" using b by simp
      then show False using False e it(2) chain_pos_less [of ?eq "lh_buckets lh ! b"] i by blast
    qed
    with False il show ?thesis by (simp add: item_at_def)
  qed
qed

lemma retrieve_iff:
  assumes "lh_ok call_hash call_cmp lh" and "hash_laws (call_hash (lh_hash lh)) (call_cmp (lh_comp lh))"
  shows "OPENSSL_lh_retrieve call_hash call_cmp lh x = Some d \<longleftrightarrow> d \<in># lh_elems lh \<and> call_cmp (lh_comp lh) d x = 0"
proof -
  let ?c = "call_cmp (lh_comp lh)"
  obtain b i hash where g: "get_next_ptr_and_hash call_hash call_cmp lh x = (b, i, hash)" by (metis prod_cases3)
  note l = lookup_laws [OF assms g]
  have "d = e" if "d \<in># lh_elems lh" "?c d x = 0" "e \<in># lh_elems lh" "?c e x = 0" for e
  proof -
    have "eq_class ?c d = eq_class ?c e" using that eq_class_iff [OF assms(2)] by metis
    then show ?thesis using one_per_classD that assms(1) unfolding lh_ok_def by metis
  qed
  with l(5) show ?thesis by (auto simp: OPENSSL_lh_retrieve_def g split: option.splits)
qed

section \<open>Resizing\<close>

lemma rebucket_item_laws:
  assumes "buckets_ok h n bs" and "0 < n" and "h (it_data it) = it_hash it"
  shows "buckets_ok h n (rebucket_item n it bs)" and "mset (concat (rebucket_item n it bs)) = add_mset it (mset (concat bs))"
proof -
  let ?b = "unat (it_hash it) mod n"
  have b: "?b < length bs" "length bs = n" using assms(1,2) by (simp_all add: buckets_ok_def)
  show "buckets_ok h n (rebucket_item n it bs)" using assms(1,3) b
    by (auto simp: buckets_ok_def rebucket_item_def Let_def nth_list_update)
  have "mset (concat bs) - mset (bs ! ?b) + mset (it # bs ! ?b) = add_mset it (mset (concat bs))"
    using mset_bucket_sub [OF b(1)] by (simp add: subset_mset.diff_add)
  with mset_concat_update [OF b(1), of "it # bs ! ?b"]
  show "mset (concat (rebucket_item n it bs)) = add_mset it (mset (concat bs))"
    unfolding rebucket_item_def Let_def by simp
qed

lemma rebucket_fold_laws:
  assumes "0 < n" and "\<forall>it \<in> set its. h (it_data it) = it_hash it" and "buckets_ok h n bs"
  shows "buckets_ok h n (fold (rebucket_item n) its bs) \<and> mset (concat (fold (rebucket_item n) its bs)) = mset its + mset (concat bs)"
  using assms(2,3)
proof (induction its arbitrary: bs)
  case (Cons it its)
  then have it: "h (it_data it) = it_hash it" by simp
  note r = rebucket_item_laws [OF Cons.prems(2) assms(1) it]
  from Cons.IH [OF _ r(1)] Cons.prems r(2) show ?case by simp
qed simp

text \<open>A resized table has the same items, again in the chains of their hashes.\<close>

definition same_table :: "('a, 'h, 'c) lhash_st \<Rightarrow> ('a, 'h, 'c) lhash_st \<Rightarrow> bool" where
  "same_table lh lh' \<longleftrightarrow> mset (lh_items lh') = mset (lh_items lh) \<and> lh_num_items lh' = lh_num_items lh \<and>
     lh_comp lh' = lh_comp lh \<and> lh_hash lh' = lh_hash lh \<and> lh_callback_depth lh' = lh_callback_depth lh"

lemma same_table_elems: "same_table lh lh' \<Longrightarrow> lh_elems lh' = lh_elems lh"
  by (simp add: same_table_def lh_elems_def)

lemma lh_rebucket_laws:
  assumes "lh_ok call_hash call_cmp lh" and "16 \<le> n" and "n < 2 ^ 61" and "n = 2 ^ k"
  shows "lh_ok call_hash call_cmp (lh_rebucket al lh n)" and "same_table lh (lh_rebucket al lh n)"
    and "lh_num_buckets (lh_rebucket al lh n) = (if al (8 * n) then n else lh_num_buckets lh)"
proof -
  let ?h = "call_hash (lh_hash lh)"
  have w: "size_wrap (8 * n) = 8 * n" using assms(3) by simp
  have ok: "buckets_ok ?h (lh_num_buckets lh) (lh_buckets lh)" using assms(1) by (simp add: lh_ok_def)
  then have "length (lh_buckets lh) = lh_num_buckets lh" by (simp add: buckets_ok_def)
  then have f: "fold (\<lambda>i. fold (rebucket_item n) (lh_buckets lh ! i)) [0..<lh_num_buckets lh] (replicate n []) =
      fold (rebucket_item n) (lh_items lh) (replicate n [])"
    using fold_index [of "fold (rebucket_item n)" "lh_buckets lh"] by (simp add: fold_concat lh_items_def)
  define bs where "bs = fold (rebucket_item n) (lh_items lh) (replicate n [])"
  have "\<forall>it \<in> set (lh_items lh). ?h (it_data it) = it_hash it"
    using in_bucket(2) [OF ok] by (simp add: lh_items_def)
  then have bs: "buckets_ok ?h n bs" "mset (concat bs) = mset (lh_items lh)"
    using rebucket_fold_laws [of n "lh_items lh" ?h "replicate n []"] assms(2) by (auto simp: bs_def buckets_ok_def)
  have r: "lh_rebucket al lh n = (if al (8 * n) then lh\<lparr>lh_buckets := bs, lh_num_buckets := n\<rparr> else lh)"
    unfolding lh_rebucket_def Let_def w f bs_def by simp
  then show same: "same_table lh (lh_rebucket al lh n)" using bs by (simp add: same_table_def lh_items_def)
  show "lh_num_buckets (lh_rebucket al lh n) = (if al (8 * n) then n else lh_num_buckets lh)" by (simp add: r)
  show "lh_ok call_hash call_cmp (lh_rebucket al lh n)"
    using assms bs r same_table_elems [OF same] by (auto simp: lh_ok_def)
qed

lemma lh_maybe_resize_laws:
  assumes "lh_ok call_hash call_cmp lh"
  shows "lh_ok call_hash call_cmp (lh_maybe_resize al lh)" and "same_table lh (lh_maybe_resize al lh)"
proof -
  let ?n = "lh_num_buckets lh"
  have n: "16 \<le> ?n" "?n < 2 ^ 61" using assms by (simp_all add: lh_ok_def)
  obtain k where k: "?n = 2 ^ k" using assms by (auto simp: lh_ok_def)
  have same: "same_table lh lh" by (simp add: same_table_def)
  have double: "size_wrap (?n * 2) = ?n * 2" using n by simp
  have half: "?n div 2 = 2 ^ (k - 1)" "16 \<le> ?n div 2" if "16 < ?n"
  proof -
    have "16 < (2::nat) ^ k" using that k by simp
    then have "(2::nat) ^ 4 < 2 ^ k" by simp
    then have k4: "4 < k" by (simp only: power_strict_increasing_iff) 
    then show "?n div 2 = 2 ^ (k - 1)" using k by (cases k) simp_all
    with k4 show "16 \<le> ?n div 2" using power_increasing [of 4 "k - 1" "2::nat"] by simp
  qed
  have up: "lh_ok call_hash call_cmp (lh_rebucket al lh (?n * 2)) \<and> same_table lh (lh_rebucket al lh (?n * 2))"
  proof (cases "?n * 2 < 2 ^ 61")
    case True
    with lh_rebucket_laws [OF assms _ True, of "k + 1"] n k show ?thesis by simp
  next
    case False
    have "size_wrap (8 * (?n * 2)) div 8 \<noteq> ?n * 2"
    proof -
      have "8 * (?n * 2) < 2 * 2 ^ 64" "2 ^ 64 \<le> 8 * (?n * 2)" using n False by simp_all
      then have "size_wrap (8 * (?n * 2)) = 8 * (?n * 2) - 2 ^ 64" by (simp add: size_wrap_def le_mod_geq)
      then show ?thesis using False by simp
    qed
    then have "lh_rebucket al lh (?n * 2) = lh" unfolding lh_rebucket_def Let_def by simp
    with assms same show ?thesis by simp
  qed
  have down: "lh_ok call_hash call_cmp (lh_rebucket al lh (?n div 2)) \<and> same_table lh (lh_rebucket al lh (?n div 2))"
    if "16 < ?n" using lh_rebucket_laws [OF assms half(2) [OF that] _ half(1) [OF that]] n by simp
  have small: "\<not> 16 < ?n" if "?n div 2 < 16" using half(2) that by linarith
  show "lh_ok call_hash call_cmp (lh_maybe_resize al lh)" "same_table lh (lh_maybe_resize al lh)"
    using assms same up down small unfolding lh_maybe_resize_def Let_def double kMinNumBuckets_def by auto
qed

section \<open>Insertion and deletion\<close>

lemma list_update_mset: "i < length xs \<Longrightarrow> mset (xs[i := y]) = add_mset y (mset xs - {#xs ! i#})"
  by (simp add: mset_update)

lemma mset_cut: "i < length xs \<Longrightarrow> mset (take i xs @ drop (i + 1) xs) = mset xs - {#xs ! i#}"
proof -
  assume "i < length xs"
  then have "mset xs = add_mset (xs ! i) (mset (take i xs) + mset (drop (i + 1) xs))"
    by (metis Suc_eq_plus1 id_take_nth_drop mset.simps(2) mset_append union_mset_add_mset_right)
  then show ?thesis by simp
qed

text \<open>The items after a chain is replaced.\<close>

lemma items_update:
  assumes "b < length (lh_buckets lh)" and "mset c = mset (lh_buckets lh ! b) - X + Y" and "X \<subseteq># mset (lh_buckets lh ! b)"
  shows "mset (concat ((lh_buckets lh)[b := c])) = mset (lh_items lh) - X + Y"
proof -
  let ?B = "mset (lh_buckets lh ! b)" and ?M = "mset (concat (lh_buckets lh))"
  have "?B \<subseteq># ?M" using mset_bucket_sub [OF assms(1)] .
  then obtain K where K: "?M = ?B + K" by (meson subset_mset.le_iff_add)
  moreover obtain L where "?B = X + L" using assms(3) by (meson subset_mset.le_iff_add)
  ultimately show ?thesis using mset_concat_update [OF assms(1), of c] assms(2) by (simp add: lh_items_def)
qed

lemma in_bucket_elems: "b < length (lh_buckets lh) \<Longrightarrow> it \<in> set (lh_buckets lh ! b) \<Longrightarrow> it \<in># mset (lh_items lh)"
  unfolding lh_items_def by (metis UN_I nth_mem set_concat set_mset_mset)

lemma lh_insert_laws:
  assumes "lh_ok call_hash call_cmp lh" and "hash_laws (call_hash (lh_hash lh)) (call_cmp (lh_comp lh))"
    and "OPENSSL_lh_insert al call_hash call_cmp lh d = (ok, old, lh')"
  shows "lh_ok call_hash call_cmp lh' \<and> lh_comp lh' = lh_comp lh \<and> lh_hash lh' = lh_hash lh \<and>
    lh_callback_depth lh' = lh_callback_depth lh \<and> old = OPENSSL_lh_retrieve call_hash call_cmp lh d \<and>
    (ok \<longleftrightarrow> old \<noteq> None \<or> al 24) \<and> (\<not> ok \<longrightarrow> lh' = lh) \<and>
    (ok \<longrightarrow> lh_elems lh' = add_mset d (lh_elems lh - (case old of None \<Rightarrow> {#} | Some e \<Rightarrow> {#e#})))"
proof -
  let ?h = "call_hash (lh_hash lh)" and ?c = "call_cmp (lh_comp lh)" and ?n = "lh_num_buckets lh"
  obtain b i hash where g: "get_next_ptr_and_hash call_hash call_cmp lh d = (b, i, hash)" by (metis prod_cases3)
  note l = lookup_laws [OF assms(1,2) g]
  let ?ch = "lh_buckets lh ! b"
  have ok: "buckets_ok ?h ?n (lh_buckets lh)" "0 < ?n" using assms(1) by (auto simp: lh_ok_def)
  have old: "OPENSSL_lh_retrieve call_hash call_cmp lh d = map_option it_data (item_at lh b i)"
    by (simp add: OPENSSL_lh_retrieve_def g)
  show ?thesis
  proof (cases "item_at lh b i")
    case (Some it)
    have it: "i < length ?ch" "it = ?ch ! i" "it_data it \<in># lh_elems lh" "?h (it_data it) = it_hash it" "?c (it_data it) d = 0"
      using l(5) Some by auto
    have hd: "?h d = it_hash it" using eq_hash [OF assms(2) it(5)] it(4) by simp
    define lh1 where "lh1 = lh\<lparr>lh_buckets := (lh_buckets lh)[b := ?ch[i := it\<lparr>it_data := d\<rparr>]]\<rparr>"
    have r: "ok" "old = Some (it_data it)" "lh' = lh1"
      using assms(3) Some by (auto simp: OPENSSL_lh_insert_def g lh1_def)
    have m: "mset (lh_items lh1) = add_mset (it\<lparr>it_data := d\<rparr>) (mset (lh_items lh) - {#it#})"
      using items_update [OF l(3), of "?ch[i := it\<lparr>it_data := d\<rparr>]" "{#it#}" "{#it\<lparr>it_data := d\<rparr>#}"] it(1,2)
      by (simp add: list_update_mset lh1_def lh_items_def)
    have "it \<in># mset (lh_items lh)" using in_bucket_elems [OF l(3)] it(1,2) by simp
    then have e: "lh_elems lh1 = add_mset d (lh_elems lh - {#it_data it#})"
      unfolding lh_elems_def m by (simp add: image_mset_Diff)
    have "set (?ch[i := it\<lparr>it_data := d\<rparr>]) \<subseteq> insert (it\<lparr>it_data := d\<rparr>) (set ?ch)" by (rule set_update_subset_insert)
    moreover have "unat (it_hash it) mod ?n = b" using ok(1) l(3) it(1,2) nth_mem unfolding buckets_ok_def by metis
    ultimately have "buckets_ok ?h ?n (lh_buckets lh1)"
      using ok(1) l(3) hd by (auto simp: buckets_ok_def lh1_def nth_list_update)
    moreover have "one_per_class ?c (lh_elems lh1)"
      using one_per_class_swap [OF _ it(3)] assms(1) it(5) eq_class_iff [OF assms(2)] unfolding e lh_ok_def by blast
    moreover have "size (lh_elems lh1) = size (lh_elems lh)" unfolding e using size_Suc_Diff1 [OF it(3)] by simp
    ultimately have "lh_ok call_hash call_cmp lh1" using assms(1) by (simp add: lh_ok_def lh1_def)
    with r e old Some show ?thesis by (simp add: lh1_def)
  next
    case None
    have no: "i = length ?ch" "\<forall>e \<in># lh_elems lh. ?c e d \<noteq> 0" using l(5) None by auto
    show ?thesis
    proof (cases "al 24")
      case False
      with assms(1,3) None old show ?thesis by (auto simp: OPENSSL_lh_insert_def g)
    next
      case True
      let ?it = "\<lparr>it_data = d, it_hash = hash\<rparr>"
      define lh1 where "lh1 = lh\<lparr>lh_buckets := (lh_buckets lh)[b := ?ch @ [?it]], lh_num_items := size_wrap (lh_num_items lh + 1)\<rparr>"
      have r: "ok" "old = None" "lh' = lh_maybe_resize al lh1"
        using assms(3) None True by (auto simp: OPENSSL_lh_insert_def g lh1_def)
      have "mset (lh_items lh1) = add_mset ?it (mset (lh_items lh))"
        using items_update [OF l(3), of "?ch @ [?it]" "{#}" "{#?it#}"] by (simp add: lh1_def lh_items_def)
      then have e: "lh_elems lh1 = add_mset d (lh_elems lh)" by (simp add: lh_elems_def)
      have "buckets_ok ?h ?n (lh_buckets lh1)" using ok(1) l(1-3)
        by (auto simp: buckets_ok_def lh1_def nth_list_update)
      moreover have "one_per_class ?c (lh_elems lh1)"
        using one_per_class_add no(2) assms(1) eq_class_iff [OF assms(2)] unfolding e lh_ok_def by metis
      moreover have "lh_num_items lh1 = size_wrap (size (lh_elems lh1))" using assms(1) e by (simp add: lh1_def lh_ok_def size_wrap_Suc)
      ultimately have ok1: "lh_ok call_hash call_cmp lh1" using assms(1) e by (simp add: lh_ok_def lh1_def)
      note z = lh_maybe_resize_laws [OF ok1, of al]
      from z same_table_elems [OF z(2)] r e old None True show ?thesis by (simp add: same_table_def lh1_def)
    qed
  qed
qed

lemma lh_delete_laws:
  assumes "lh_ok call_hash call_cmp lh" and "hash_laws (call_hash (lh_hash lh)) (call_cmp (lh_comp lh))"
    and "OPENSSL_lh_delete al call_hash call_cmp lh d = (old, lh')"
  shows "lh_ok call_hash call_cmp lh' \<and> lh_comp lh' = lh_comp lh \<and> lh_hash lh' = lh_hash lh \<and>
    lh_callback_depth lh' = lh_callback_depth lh \<and> old = OPENSSL_lh_retrieve call_hash call_cmp lh d \<and>
    (old = None \<longrightarrow> lh' = lh) \<and> lh_elems lh' = lh_elems lh - (case old of None \<Rightarrow> {#} | Some e \<Rightarrow> {#e#})"
proof -
  let ?h = "call_hash (lh_hash lh)" and ?c = "call_cmp (lh_comp lh)" and ?n = "lh_num_buckets lh"
  obtain b i hash where g: "get_next_ptr_and_hash call_hash call_cmp lh d = (b, i, hash)" by (metis prod_cases3)
  note l = lookup_laws [OF assms(1,2) g]
  let ?ch = "lh_buckets lh ! b"
  have ok: "buckets_ok ?h ?n (lh_buckets lh)" using assms(1) by (simp add: lh_ok_def)
  have old: "OPENSSL_lh_retrieve call_hash call_cmp lh d = map_option it_data (item_at lh b i)"
    by (simp add: OPENSSL_lh_retrieve_def g)
  show ?thesis
  proof (cases "item_at lh b i")
    case None
    with assms(1,3) old show ?thesis by (auto simp: OPENSSL_lh_delete_def g)
  next
    case (Some it)
    have it: "i < length ?ch" "it = ?ch ! i" "it_data it \<in># lh_elems lh" using l(5) Some by auto
    define lh1 where "lh1 = lh\<lparr>lh_buckets := (lh_buckets lh)[b := take i ?ch @ drop (i + 1) ?ch],
      lh_num_items := size_wrap (lh_num_items lh + (2 ^ 64 - 1))\<rparr>"
    have r: "old = Some (it_data it)" "lh' = lh_maybe_resize al lh1"
      using assms(3) Some by (auto simp: OPENSSL_lh_delete_def g lh1_def)
    have m: "mset (lh_items lh1) = mset (lh_items lh) - {#it#}"
      using items_update [OF l(3), of "take i ?ch @ drop (i + 1) ?ch" "{#it#}" "{#}"] mset_cut [OF it(1)] it(1,2)
      by (simp add: lh1_def lh_items_def)
    have "it \<in># mset (lh_items lh)" using in_bucket_elems [OF l(3)] it(1,2) by simp
    then have e: "lh_elems lh1 = lh_elems lh - {#it_data it#}" unfolding lh_elems_def m by (simp add: image_mset_Diff)
    have "set (take i ?ch @ drop (i + 1) ?ch) \<subseteq> set ?ch" by (auto dest: in_set_takeD in_set_dropD)
    then have "buckets_ok ?h ?n (lh_buckets lh1)" using ok l(3) unfolding buckets_ok_def lh1_def
      by (simp add: nth_list_update) blast
    moreover have "one_per_class ?c (lh_elems lh1)"
      using one_per_class_sub [of ?c "lh_elems lh"] assms(1) unfolding e lh_ok_def by simp
    moreover have "lh_num_items lh1 = size_wrap (size (lh_elems lh1))"
      using assms(1) size_Suc_Diff1 [OF it(3)] size_wrap_pred [of "size (lh_elems lh1)"] e by (simp add: lh1_def lh_ok_def)
    ultimately have ok1: "lh_ok call_hash call_cmp lh1" using assms(1) e
      by (simp add: lh_ok_def lh1_def size_Diff_singleton [OF it(3)])
    note z = lh_maybe_resize_laws [OF ok1, of al]
    from z same_table_elems [OF z(2)] r e old Some show ?thesis by (simp add: same_table_def lh1_def)
  qed
qed

end
