(* ===== verification/Lh_Reach.thy ===== *)
theory Lh_Reach
  imports Lh_Map
begin

text \<open>
  Histories of the hash table: an interface for containers of elements up to an equality, what a run of
  insertions and deletions means under it, the interpretation by \<open>lhash.c\<close>, the reachable tables, the load of
  their chains, and the iteration.
\<close>

section \<open>An interface for element maps\<close>

datatype 'a map_op = Put 'a | Del 'a

text \<open>The success flags and the elements returned by a run, with the state it leaves.\<close>

fun run_ops :: "('s \<Rightarrow> 'a \<Rightarrow> bool \<times> 'a option \<times> 's) \<Rightarrow> ('s \<Rightarrow> 'a \<Rightarrow> 'a option \<times> 's) \<Rightarrow> 's \<Rightarrow> 'a map_op list \<Rightarrow>
    (bool \<times> 'a option) list \<times> 's" where
  "run_ops put del s [] = ([], s)"
| "run_ops put del s (Put d # ops) =
     (case put s d of (ok, old, s1) \<Rightarrow> case run_ops put del s1 ops of (rs, s2) \<Rightarrow> ((ok, old) # rs, s2))"
| "run_ops put del s (Del d # ops) =
     (case del s d of (old, s1) \<Rightarrow> case run_ops put del s1 ops of (rs, s2) \<Rightarrow> ((True, old) # rs, s2))"

text \<open>
  A run in which every call has an environment of its own, here the behaviour of the allocator during the call.
\<close>

fun run_env :: "('e \<Rightarrow> 's \<Rightarrow> 'a \<Rightarrow> bool \<times> 'a option \<times> 's) \<Rightarrow> ('e \<Rightarrow> 's \<Rightarrow> 'a \<Rightarrow> 'a option \<times> 's) \<Rightarrow> 's \<Rightarrow>
    ('e \<times> 'a map_op) list \<Rightarrow> (bool \<times> 'a option) list \<times> 's" where
  "run_env put del s [] = ([], s)"
| "run_env put del s ((e, Put d) # ops) =
     (case put e s d of (ok, old, s1) \<Rightarrow> case run_env put del s1 ops of (rs, s2) \<Rightarrow> ((ok, old) # rs, s2))"
| "run_env put del s ((e, Del d) # ops) =
     (case del e s d of (old, s1) \<Rightarrow> case run_env put del s1 ops of (rs, s2) \<Rightarrow> ((True, old) # rs, s2))"

text \<open>
  The same run on a function from elements to the stored element.  The flag beside an operation tells whether
  there is memory for a new element; an insertion succeeds when there is or when it replaces an equal element,
  and otherwise changes nothing.
\<close>

fun spec_run :: "('a \<Rightarrow> 'a \<Rightarrow> bool) \<Rightarrow> ('a \<Rightarrow> 'a option) \<Rightarrow> (bool \<times> 'a map_op) list \<Rightarrow>
    (bool \<times> 'a option) list \<times> ('a \<Rightarrow> 'a option)" where
  "spec_run eq m [] = ([], m)"
| "spec_run eq m ((avail, Put d) # ops) =
     (if m d \<noteq> None \<or> avail
      then let (rs, m2) = spec_run eq (\<lambda>x. if eq d x then Some d else m x) ops in ((True, m d) # rs, m2)
      else let (rs, m2) = spec_run eq m ops in ((False, None) # rs, m2))"
| "spec_run eq m ((avail, Del d) # ops) =
     (let (rs, m2) = spec_run eq (\<lambda>x. if eq d x then None else m x) ops in ((True, m d) # rs, m2))"

locale element_map =
  fixes eq :: "'a \<Rightarrow> 'a \<Rightarrow> bool"
    and avail :: "'e \<Rightarrow> bool"
    and get :: "'s \<Rightarrow> 'a \<Rightarrow> 'a option"
    and put :: "'e \<Rightarrow> 's \<Rightarrow> 'a \<Rightarrow> bool \<times> 'a option \<times> 's"
    and del :: "'e \<Rightarrow> 's \<Rightarrow> 'a \<Rightarrow> 'a option \<times> 's"
    and inv :: "'s \<Rightarrow> bool"
  assumes put_old: "inv s \<Longrightarrow> put e s d = (ok, old, s') \<Longrightarrow> inv s' \<and> old = get s d \<and> (ok \<longleftrightarrow> get s d \<noteq> None \<or> avail e)"
    and put_ok: "inv s \<Longrightarrow> put e s d = (True, old, s') \<Longrightarrow> get s' x = (if eq d x then Some d else get s x)"
    and put_fail: "inv s \<Longrightarrow> put e s d = (False, old, s') \<Longrightarrow> get s' = get s"
    and del_old: "inv s \<Longrightarrow> del e s d = (old, s') \<Longrightarrow> inv s' \<and> old = get s d"
    and del_get: "inv s \<Longrightarrow> del e s d = (old, s') \<Longrightarrow> get s' x = (if eq d x then None else get s x)"
begin

lemma run_refines:
  assumes "inv s" and "run_env put del s ops = (rs, s')"
  shows "inv s' \<and> spec_run eq (get s) (map (\<lambda>(e, op). (avail e, op)) ops) = (rs, get s')"
  using assms
proof (induction ops arbitrary: s rs)
  case (Cons eop ops)
  obtain e op where eop: "eop = (e, op)" by (cases eop)
  show ?case
  proof (cases op)
    case (Put d)
    obtain ok old s1 where p: "put e s d = (ok, old, s1)" by (metis prod_cases3)
    with Cons.prems Put eop obtain rs1 where r: "run_env put del s1 ops = (rs1, s')" "rs = (ok, old) # rs1"
      by (auto split: prod.splits)
    note o = put_old [OF Cons.prems(1) p]
    have "get s1 = (if ok then (\<lambda>x. if eq d x then Some d else get s x) else get s)"
      using put_ok put_fail Cons.prems(1) p by (cases ok) (auto intro!: ext)
    with Cons.IH [OF _ r(1)] o r Put eop show ?thesis by auto
  next
    case (Del d)
    obtain old s1 where p: "del e s d = (old, s1)" by force
    with Cons.prems Del eop obtain rs1 where r: "run_env put del s1 ops = (rs1, s')" "rs = (True, old) # rs1"
      by (auto split: prod.splits)
    have "get s1 = (\<lambda>x. if eq d x then None else get s x)" using del_get [OF Cons.prems(1) p] by (auto intro!: ext)
    with Cons.IH [OF _ r(1)] del_old [OF Cons.prems(1) p] r Del eop show ?thesis by auto
  qed
qed simp

end

section \<open>The hash table as an element map\<close>

lemma in_diff_other: "u \<noteq> v \<Longrightarrow> v \<in># M - {#u#} \<longleftrightarrow> v \<in># M"
  by (simp flip: count_greater_zero_iff)

lemma option_eqI: "(\<And>v. a = Some v \<longleftrightarrow> b = Some v) \<Longrightarrow> a = b"
  by (cases a; cases b) auto

lemma eq_sym_trans:
  assumes "hash_laws h c"
  shows "c x x = 0" and "c x y = 0 \<Longrightarrow> c y x = 0" and "c x y = 0 \<Longrightarrow> c y z = 0 \<Longrightarrow> c x z = 0"
  using assms unfolding hash_laws_def by (meson equivp_reflp, meson equivp_symp, meson equivp_transp)

lemma retrieve_insert:
  assumes "lh_ok call_hash call_cmp lh" and "hash_laws (call_hash (lh_hash lh)) (call_cmp (lh_comp lh))"
    and "OPENSSL_lh_insert al call_hash call_cmp lh d = (True, old, lh')"
  shows "OPENSSL_lh_retrieve call_hash call_cmp lh' x =
    (if call_cmp (lh_comp lh) d x = 0 then Some d else OPENSSL_lh_retrieve call_hash call_cmp lh x)"
proof (rule option_eqI)
  fix v
  let ?c = "call_cmp (lh_comp lh)"
  note i = lh_insert_laws [OF assms]
  note e = eq_sym_trans [OF assms(2)]
  have r': "OPENSSL_lh_retrieve call_hash call_cmp lh' x = Some v \<longleftrightarrow> v \<in># lh_elems lh' \<and> ?c v x = 0"
    using retrieve_iff [of call_hash call_cmp lh'] i assms(2) by simp
  note r = retrieve_iff [OF assms(1,2)]
  have "lh_ok call_hash call_cmp lh'" "lh_comp lh' = lh_comp lh" using i by blast+
  then have one: "one_per_class ?c (lh_elems lh')" "one_per_class ?c (lh_elems lh)" using assms(1) by (auto simp: lh_ok_def)
  have d: "d \<in># lh_elems lh'" using i by simp
  show "OPENSSL_lh_retrieve call_hash call_cmp lh' x = Some v \<longleftrightarrow>
    (if ?c d x = 0 then Some d else OPENSSL_lh_retrieve call_hash call_cmp lh x) = Some v"
  proof (cases "?c d x = 0")
    case True
    have "v = d" if "v \<in># lh_elems lh'" "?c v x = 0"
      using one_per_classD [OF one(1) that(1) d] eq_class_iff [OF assms(2)] e True that(2) by metis
    with True d r' show ?thesis by auto
  next
    case False
    have "v \<in># lh_elems lh' \<longleftrightarrow> v \<in># lh_elems lh" if v: "?c v x = 0"
    proof -
      have n: "?c v d \<noteq> 0" using False e v by metis
      have "u \<noteq> v" if "old = Some u" for u using that i r n by auto
      moreover have "v \<noteq> d" using n e by metis
      ultimately show ?thesis using i by (cases old) (simp_all add: in_diff_other)
    qed
    with False r r' show ?thesis by auto
  qed
qed

lemma retrieve_delete:
  assumes "lh_ok call_hash call_cmp lh" and "hash_laws (call_hash (lh_hash lh)) (call_cmp (lh_comp lh))"
    and "OPENSSL_lh_delete al call_hash call_cmp lh d = (old, lh')"
  shows "OPENSSL_lh_retrieve call_hash call_cmp lh' x =
    (if call_cmp (lh_comp lh) d x = 0 then None else OPENSSL_lh_retrieve call_hash call_cmp lh x)"
proof (rule option_eqI)
  fix v
  let ?c = "call_cmp (lh_comp lh)"
  note i = lh_delete_laws [OF assms]
  note e = eq_sym_trans [OF assms(2)]
  have r': "OPENSSL_lh_retrieve call_hash call_cmp lh' x = Some v \<longleftrightarrow> v \<in># lh_elems lh' \<and> ?c v x = 0"
    using retrieve_iff [of call_hash call_cmp lh'] i assms(2) by simp
  note r = retrieve_iff [OF assms(1,2)]
  have one: "one_per_class ?c (lh_elems lh)" using assms(1) by (simp add: lh_ok_def)
  show "OPENSSL_lh_retrieve call_hash call_cmp lh' x = Some v \<longleftrightarrow>
    (if ?c d x = 0 then None else OPENSSL_lh_retrieve call_hash call_cmp lh x) = Some v"
  proof (cases "?c d x = 0")
    case True
    have "\<not> (v \<in># lh_elems lh' \<and> ?c v x = 0)"
    proof
      assume v: "v \<in># lh_elems lh' \<and> ?c v x = 0"
      then have "v \<in># lh_elems lh" using i by (auto dest: in_diffD split: option.splits)
      moreover have "?c v d = 0" using v True e by metis
      ultimately have "old = Some v" using i r by auto
      then have "v \<in># lh_elems lh - {#v#}" using v i by simp
      then show False using one_per_class_once [OF one] by blast
    qed
    with True r' show ?thesis by simp
  next
    case False
    have "v \<in># lh_elems lh' \<longleftrightarrow> v \<in># lh_elems lh" if v: "?c v x = 0"
    proof -
      have n: "?c v d \<noteq> 0" using False e v by metis
      have "u \<noteq> v" if "old = Some u" for u using that i r n by auto
      then show ?thesis using i by (cases old) (simp_all add: in_diff_other)
    qed
    with False r r' show ?thesis by auto
  qed
qed

interpretation lh: element_map "\<lambda>x y. call_cmp c x y = 0" "\<lambda>al. al 24" "OPENSSL_lh_retrieve call_hash call_cmp"
    "\<lambda>al. OPENSSL_lh_insert al call_hash call_cmp" "\<lambda>al. OPENSSL_lh_delete al call_hash call_cmp"
    "\<lambda>lh. lh_ok call_hash call_cmp lh \<and> lh_hash lh = h \<and> lh_comp lh = c \<and> hash_laws (call_hash h) (call_cmp c)"
  for call_hash call_cmp h c
proof (unfold_locales, goal_cases)
  case (1 s al d ok old s')
  with lh_insert_laws [of call_hash call_cmp s al d ok old s'] show ?case by auto
next
  case (2 s al d old s' x)
  with retrieve_insert [of call_hash call_cmp s al d old s' x] show ?case by auto
next
  case (3 s al d old s')
  with lh_insert_laws [of call_hash call_cmp s al d False old s'] show ?case by auto
next
  case (4 s al d old s')
  with lh_delete_laws [of call_hash call_cmp s al d old s'] show ?case by auto
next
  case (5 s al d old s' x)
  with retrieve_delete [of call_hash call_cmp s al d old s' x] show ?case by auto
qed

section \<open>Histories from a new table\<close>

lemma lh_new_laws:
  assumes "OPENSSL_lh_new al h c = Some t"
  shows "lh_ok call_hash call_cmp t" "lh_hash t = h" "lh_comp t = c" "lh_elems t = {#}" "lh_callback_depth t = 0"
    "lh_num_buckets t = 16" "lh_num_items t = 0"
proof -
  have t: "t = \<lparr>lh_num_items = 0, lh_buckets = replicate 16 [], lh_num_buckets = 16, lh_callback_depth = 0, lh_comp = c, lh_hash = h\<rparr>"
    using assms by (auto simp: OPENSSL_lh_new_def kMinNumBuckets_def split: if_splits)
  have "(16::nat) = 2 ^ 4" by simp
  then have "\<exists>k. (16::nat) = 2 ^ k" by blast
  then show "lh_ok call_hash call_cmp t" "lh_hash t = h" "lh_comp t = c" "lh_elems t = {#}" "lh_callback_depth t = 0"
    "lh_num_buckets t = 16" "lh_num_items t = 0"
    by (simp_all add: t lh_ok_def buckets_ok_def lh_elems_def lh_items_def one_per_class_def)
qed

text \<open>A table of key and value pairs, for the examples.\<close>

definition pair_hash :: "unit \<Rightarrow> nat \<times> nat \<Rightarrow> 32 word" where
  "pair_hash h x = word_of_nat (fst x)"

definition pair_cmp :: "unit \<Rightarrow> nat \<times> nat \<Rightarrow> nat \<times> nat \<Rightarrow> int" where
  "pair_cmp c x y = int (fst x) - int (fst y)"

definition pair_table :: "(nat \<times> nat, unit, unit) lhash_st" where
  "pair_table = the (OPENSSL_lh_new (\<lambda>_. True) () ())"

abbreviation pair_run :: "(nat \<Rightarrow> bool) \<Rightarrow> (nat \<times> nat) map_op list \<Rightarrow> (bool \<times> (nat \<times> nat) option) list \<times> (nat \<times> nat, unit, unit) lhash_st" where
  "pair_run al ops \<equiv> run_ops (OPENSSL_lh_insert al pair_hash pair_cmp) (OPENSSL_lh_delete al pair_hash pair_cmp) pair_table ops"

lemma pair_laws: "hash_laws (pair_hash h) (pair_cmp c)"
proof -
  have "equivp (\<lambda>x y. pair_cmp c x y = 0)" by (rule equivpI) (auto simp: pair_cmp_def reflp_def symp_def transp_def)
  then show ?thesis by (auto simp: hash_laws_def pair_cmp_def pair_hash_def)
qed

lemma pair_new: "OPENSSL_lh_new (\<lambda>_. True) () () = Some pair_table"
  by (simp add: pair_table_def OPENSSL_lh_new_def)

text \<open>
  C28 (refinement).  A table made by \<open>OPENSSL_lh_new\<close> behaves as a finite map under any sequence of
  insertions and deletions, each call with an allocator of its own: every call returns the element the map held,
  and afterwards \<open>OPENSSL_lh_retrieve\<close> looks up in the map.  An insertion fails exactly when there is no equal
  element and no memory for an item (24 bytes), and then changes nothing; that the array of buckets grows and
  shrinks, or could not for want of memory, is not visible.
\<close>

theorem lh_history_refines:
  assumes "hash_laws (call_hash h) (call_cmp c)" and "OPENSSL_lh_new al0 h c = Some t"
    and "run_env (\<lambda>al. OPENSSL_lh_insert al call_hash call_cmp) (\<lambda>al. OPENSSL_lh_delete al call_hash call_cmp) t ops = (rs, t')"
  shows "spec_run (\<lambda>x y. call_cmp c x y = 0) (\<lambda>_. None) (map (\<lambda>(al, op). (al 24, op)) ops) =
    (rs, OPENSSL_lh_retrieve call_hash call_cmp t')"
proof -
  note n = lh_new_laws [OF assms(2)]
  have "OPENSSL_lh_retrieve call_hash call_cmp t x = None" for x
    using retrieve_iff [OF n(1), where x = x] assms(1) n(2-4) by (cases "OPENSSL_lh_retrieve call_hash call_cmp t x") auto
  then have "OPENSSL_lh_retrieve call_hash call_cmp t = (\<lambda>_. None)" by auto
  with lh.run_refines [OF _ assms(3), of h c] assms(1) n(1-3) show ?thesis by simp
qed

theorem lh_history_refines_witness:
  "\<exists>t'. run_env (\<lambda>al. OPENSSL_lh_insert al pair_hash pair_cmp) (\<lambda>al. OPENSSL_lh_delete al pair_hash pair_cmp) pair_table
      [(\<lambda>_. True, Put (1, 10)), (\<lambda>_. False, Put (17, 20)), (\<lambda>_. False, Put (1, 30)), (\<lambda>_. True, Put (33, 40)), (\<lambda>_. False, Del (33, 0))] =
      ([(True, None), (False, None), (True, Some (1, 10)), (True, None), (True, Some (33, 40))], t') \<and>
    OPENSSL_lh_retrieve pair_hash pair_cmp t' (1, 0) = Some (1, 30) \<and> OPENSSL_lh_retrieve pair_hash pair_cmp t' (17, 0) = None"
proof -
  let ?ops = "[(\<lambda>_. True, Put (1, 10)), (\<lambda>_. False, Put (17, 20)), (\<lambda>_. False, Put (1, 30)), (\<lambda>_. True, Put (33, 40)),
    (\<lambda>_. False, Del (33, 0))] :: ((nat \<Rightarrow> bool) \<times> (nat \<times> nat) map_op) list"
  let ?run = "run_env (\<lambda>al. OPENSSL_lh_insert al pair_hash pair_cmp) (\<lambda>al. OPENSSL_lh_delete al pair_hash pair_cmp) pair_table ?ops"
  obtain rs t' where t: "?run = (rs, t')" by force
  have f: "spec_run (\<lambda>x y. pair_cmp () x y = 0) (\<lambda>_. None) (map (\<lambda>(al, op). (al 24, op)) ?ops) =
      (rs, OPENSSL_lh_retrieve pair_hash pair_cmp t')"
    using lh_history_refines [OF pair_laws pair_new t] .
  have "rs = [(True, None), (False, None), (True, Some (1, 10)), (True, None), (True, Some (33, 40))]"
    using f [THEN arg_cong [where f = fst]] by (simp add: pair_cmp_def Let_def)
  moreover have "OPENSSL_lh_retrieve pair_hash pair_cmp t' x =
      snd (spec_run (\<lambda>x y. pair_cmp () x y = 0) (\<lambda>_. None) (map (\<lambda>(al, op). (al 24, op)) ?ops)) x" for x
    unfolding f by simp
  then have "OPENSSL_lh_retrieve pair_hash pair_cmp t' (1, 0) = Some (1, 30)" "OPENSSL_lh_retrieve pair_hash pair_cmp t' (17, 0) = None"
    by (simp_all add: pair_cmp_def Let_def)
  ultimately show ?thesis using t by blast
qed

section \<open>Reachable tables\<close>

inductive lh_reachable :: "('a, 'h) hash_caller \<Rightarrow> ('a, 'c) lh_cmp_caller \<Rightarrow> 'h \<Rightarrow> 'c \<Rightarrow> ('a, 'h, 'c) lhash_st \<Rightarrow> bool"
  for call_hash call_cmp h c where
  lh_start: "OPENSSL_lh_new al h c = Some t \<Longrightarrow> lh_reachable call_hash call_cmp h c t"
| lh_insert: "lh_reachable call_hash call_cmp h c t \<Longrightarrow> OPENSSL_lh_insert al call_hash call_cmp t d = (ok, old, t') \<Longrightarrow>
    lh_reachable call_hash call_cmp h c t'"
| lh_delete: "lh_reachable call_hash call_cmp h c t \<Longrightarrow> OPENSSL_lh_delete al call_hash call_cmp t d = (old, t') \<Longrightarrow>
    lh_reachable call_hash call_cmp h c t'"
| lh_enter: "lh_reachable call_hash call_cmp h c t \<Longrightarrow> lh_reachable call_hash call_cmp h c (doall_enter t)"
| lh_leave: "lh_reachable call_hash call_cmp h c t \<Longrightarrow> lh_reachable call_hash call_cmp h c (lh_maybe_resize al (doall_leave t))"

lemma lh_ok_depth: "lh_ok call_hash call_cmp (t\<lparr>lh_callback_depth := n\<rparr>) \<longleftrightarrow> lh_ok call_hash call_cmp t"
  by (simp add: lh_ok_def lh_elems_def lh_items_def)

lemma doall_enter_leave_ok:
  "lh_ok call_hash call_cmp (doall_enter t) \<longleftrightarrow> lh_ok call_hash call_cmp t"
  "lh_ok call_hash call_cmp (doall_leave t) \<longleftrightarrow> lh_ok call_hash call_cmp t"
  "lh_items (doall_enter t) = lh_items t" "lh_items (doall_leave t) = lh_items t"
  "lh_hash (doall_enter t) = lh_hash t" "lh_comp (doall_enter t) = lh_comp t"
  "lh_hash (doall_leave t) = lh_hash t" "lh_comp (doall_leave t) = lh_comp t"
  by (simp_all add: doall_enter_def doall_leave_def lh_ok_depth lh_items_def)

text \<open>
  C29 (invariant).  In every table that \<open>OPENSSL_lh_new\<close>, insertions, deletions and iterations (entered and
  left at any point, with insertions and deletions in between) produce: the number of buckets is a power of two,
  at least 16, every item is in the chain of its hash, its hash is stored, no two items are equal, and
  \<open>num_items\<close> counts them.
\<close>

theorem lh_reachable_invariant:
  assumes "hash_laws (call_hash h) (call_cmp c)" and "lh_reachable call_hash call_cmp h c t"
  shows "lh_ok call_hash call_cmp t \<and> lh_hash t = h \<and> lh_comp t = c"
  using assms(2)
proof (induction rule: lh_reachable.induct)
  case (lh_start al t)
  then show ?case by (simp add: lh_new_laws)
next
  case (lh_insert t al d ok old t')
  with lh_insert_laws [OF _ _ lh_insert.hyps(2)] assms(1) show ?case by simp
next
  case (lh_delete t al d old t')
  with lh_delete_laws [OF _ _ lh_delete.hyps(2)] assms(1) show ?case by simp
next
  case (lh_enter t)
  then show ?case by (simp add: doall_enter_leave_ok)
next
  case (lh_leave t al)
  then have "lh_ok call_hash call_cmp (doall_leave t)" by (simp add: doall_enter_leave_ok)
  from lh_maybe_resize_laws [OF this, of al] lh_leave show ?case by (simp add: same_table_def doall_enter_leave_ok)
qed

theorem lh_reachable_invariant_witness:
  "lh_ok pair_hash pair_cmp (snd (snd (OPENSSL_lh_insert (\<lambda>_. True) pair_hash pair_cmp pair_table (5, 1))))"
proof -
  have "lh_reachable pair_hash pair_cmp () () pair_table" using lh_start [OF pair_new] .
  from lh_reachable_invariant [OF pair_laws lh_insert [OF this]] show ?thesis by (metis prod.collapse)
qed

section \<open>The load of the chains\<close>

definition lh_load :: "('a, 'h, 'c) lhash_st \<Rightarrow> bool" where
  "lh_load t \<longleftrightarrow> lh_num_items t < 3 * lh_num_buckets t \<and> (lh_num_buckets t = 16 \<or> lh_num_buckets t \<le> lh_num_items t)"

abbreviation mem :: "nat \<Rightarrow> bool" where "mem \<equiv> \<lambda>_. True"

lemma rebucket_num [simp]:
  "n < 2 ^ 61 \<Longrightarrow> lh_num_buckets (lh_rebucket mem t n) = n"
  "lh_num_items (lh_rebucket al t n) = lh_num_items t"
  "lh_callback_depth (lh_rebucket al t n) = lh_callback_depth t"
  by (simp_all add: lh_rebucket_def Let_def)

lemma resize_num_items: "lh_num_items (lh_maybe_resize al t) = lh_num_items t"
  by (simp add: lh_maybe_resize_def Let_def)

lemma div_less_one: "0 < (b::nat) \<Longrightarrow> n div b < 1 \<longleftrightarrow> n < b"
  by (simp add: div_eq_0_iff less_Suc0)

lemma div_above_two: "0 < (b::nat) \<Longrightarrow> n div b > 2 \<longleftrightarrow> 3 * b \<le> n"
  using less_eq_div_iff_mult_less_eq [of b 3 n] by auto

lemma resize_num_buckets:
  assumes "lh_callback_depth t = 0" and "lh_num_buckets t < 2 ^ 60" and "16 \<le> lh_num_buckets t"
    and "\<exists>k. lh_num_buckets t = 2 ^ k"
  shows "lh_num_buckets (lh_maybe_resize mem t) =
    (if 3 * lh_num_buckets t \<le> lh_num_items t then 2 * lh_num_buckets t
     else if lh_num_items t < lh_num_buckets t \<and> 16 < lh_num_buckets t then lh_num_buckets t div 2 else lh_num_buckets t)"
proof -
  let ?b = "lh_num_buckets t"
  have d: "0 < ?b" using assms(3) by simp
  have w: "size_wrap (?b * 2) = ?b * 2" using assms(2) by simp
  have half: "\<not> ?b div 2 < 16" if "16 < ?b"
  proof -
    obtain k where k: "?b = 2 ^ k" using assms(4) by blast
    with that have "(2::nat) ^ 4 < 2 ^ k" by simp
    then have "2 ^ 5 \<le> (2::nat) ^ k" by (metis Suc_leI eval_nat_numeral(3) power_increasing_iff power_strict_increasing_iff one_less_numeral_iff semiring_norm(76))
    then show ?thesis using k by simp
  qed
  show ?thesis
    using assms(1,2) half d
    unfolding lh_maybe_resize_def Let_def w kMaxAverageChainLength_def kMinAverageChainLength_def kMinNumBuckets_def
      div_less_one [OF d] div_above_two [OF d]
    by auto
qed

lemma resize_load:
  assumes "lh_callback_depth t = 0" and "16 \<le> lh_num_buckets t" and "\<exists>k. lh_num_buckets t = 2 ^ k" and "lh_num_items t < 2 ^ 59"
    and "lh_num_items t \<le> 3 * lh_num_buckets t" and "lh_num_buckets t = 16 \<or> lh_num_buckets t \<le> Suc (lh_num_items t)"
  shows "lh_load (lh_maybe_resize mem t)"
proof -
  let ?b = "lh_num_buckets t" and ?n = "lh_num_items t"
  note k = assms(2,3)
  have b: "?b < 2 ^ 60" using assms(4,6) by auto
  have d: "?b div 2 \<le> ?n \<and> ?n < 3 * (?b div 2)" if "?n < ?b" "16 < ?b" using that assms(6) by linarith
  note r = resize_num_buckets [OF assms(1) b k]
  show ?thesis
    using assms(5,6) d k(1) unfolding lh_load_def resize_num_items r by auto
qed

lemma insert_load:
  assumes "hash_laws (call_hash (lh_hash t)) (call_cmp (lh_comp t))" and "lh_ok call_hash call_cmp t" and "lh_load t"
    and "size (lh_elems t) < 2 ^ 59 - 1" and "lh_callback_depth t = 0" and "OPENSSL_lh_insert mem call_hash call_cmp t d = (ok, old, t')"
  shows "lh_load t'"
proof -
  have sz: "lh_num_items t = size (lh_elems t)" using assms(2,4) by (simp add: lh_ok_def)
  obtain b i hash where g: "get_next_ptr_and_hash call_hash call_cmp t d = (b, i, hash)" by (metis prod_cases3)
  note ok = lookup_laws [OF assms(2,1) g]
  show ?thesis
  proof (cases "item_at t b i")
    case (Some it)
    with assms(3,6) show ?thesis by (auto simp: OPENSSL_lh_insert_def g lh_load_def)
  next
    case None
    define t1 where "t1 = t\<lparr>lh_buckets := (lh_buckets t)[b := lh_buckets t ! b @ [\<lparr>it_data = d, it_hash = hash\<rparr>]],
                         lh_num_items := size_wrap (lh_num_items t + 1)\<rparr>"
    have t': "t' = lh_maybe_resize mem t1" using assms(6) None by (simp add: OPENSSL_lh_insert_def g t1_def)
    have n: "lh_num_items t1 = Suc (lh_num_items t)" "lh_num_buckets t1 = lh_num_buckets t" "lh_callback_depth t1 = 0"
      using assms(4,5) sz by (simp_all add: t1_def)
    have "16 \<le> lh_num_buckets t1" "\<exists>k. lh_num_buckets t1 = 2 ^ k" using assms(2) n(2) by (auto simp: lh_ok_def)
    then have "lh_load (lh_maybe_resize mem t1)"
      using resize_load [of t1] n assms(3,4) sz by (auto simp: lh_load_def)
    with t' show ?thesis by simp
  qed
qed

lemma delete_load:
  assumes "hash_laws (call_hash (lh_hash t)) (call_cmp (lh_comp t))" and "lh_ok call_hash call_cmp t" and "lh_load t"
    and "size (lh_elems t) < 2 ^ 59" and "lh_callback_depth t = 0" and "OPENSSL_lh_delete mem call_hash call_cmp t d = (old, t')"
  shows "lh_load t'"
proof -
  have sz: "lh_num_items t = size (lh_elems t)" using assms(2,4) by (simp add: lh_ok_def)
  obtain b i hash where g: "get_next_ptr_and_hash call_hash call_cmp t d = (b, i, hash)" by (metis prod_cases3)
  note ok = lookup_laws [OF assms(2,1) g]
  show ?thesis
  proof (cases "item_at t b i")
    case None
    with assms(3,6) show ?thesis by (auto simp: OPENSSL_lh_delete_def g lh_load_def)
  next
    case (Some it)
    define t1 where "t1 = t\<lparr>lh_buckets := (lh_buckets t)[b := take i (lh_buckets t ! b) @ drop (i + 1) (lh_buckets t ! b)],
                    lh_num_items := size_wrap (lh_num_items t + (2 ^ 64 - 1))\<rparr>"
    have t': "t' = lh_maybe_resize mem t1" using assms(6) Some by (simp add: OPENSSL_lh_delete_def g t1_def)
    have "it_data it \<in># lh_elems t" using ok(5) Some by auto
    then obtain m where m: "size (lh_elems t) = Suc m" using size_Suc_Diff1 by metis
    have n: "lh_num_items t1 = m" "lh_num_buckets t1 = lh_num_buckets t" "lh_callback_depth t1 = 0"
      using assms(4,5) size_wrap_pred [of m] m sz by (simp_all add: t1_def)
    have "16 \<le> lh_num_buckets t1" "\<exists>k. lh_num_buckets t1 = 2 ^ k" using assms(2) n(2) by (auto simp: lh_ok_def)
    then have "lh_load (lh_maybe_resize mem t1)"
      using resize_load [of t1] n assms(3,4) m sz by (auto simp: lh_load_def)
    with t' show ?thesis by simp
  qed
qed

lemma run_load:
  assumes "hash_laws (call_hash h) (call_cmp c)" and "lh_ok call_hash call_cmp t \<and> lh_hash t = h \<and> lh_comp t = c"
    and "lh_load t" and "lh_callback_depth t = 0" and "size (lh_elems t) + length ops < 2 ^ 59 - 1"
    and "run_ops (OPENSSL_lh_insert mem call_hash call_cmp) (OPENSSL_lh_delete mem call_hash call_cmp) t ops = (rs, t')"
  shows "lh_load t'"
  using assms(2-)
proof (induction ops arbitrary: t rs)
  case (Cons op ops)
  note ok = Cons.prems(1)
  have hl: "hash_laws (call_hash (lh_hash t)) (call_cmp (lh_comp t))" using ok assms(1) by simp
  show ?case
  proof (cases op)
    case (Put d)
    obtain good old t1 where p: "OPENSSL_lh_insert mem call_hash call_cmp t d = (good, old, t1)" by (metis prod_cases3)
    with Cons.prems(5) Put obtain rs1 where r:
      "run_ops (OPENSSL_lh_insert mem call_hash call_cmp) (OPENSSL_lh_delete mem call_hash call_cmp) t1 ops = (rs1, t')"
      by (auto split: prod.splits)
    note l = lh_insert_laws [OF conjunct1 [OF ok] hl p]
    have "size (lh_elems t1) \<le> Suc (size (lh_elems t))"
      using l size_Diff_submset by (cases good) (auto intro!: size_mset_mono split: option.splits)
    moreover have "lh_load t1" using insert_load [OF hl conjunct1 [OF ok] Cons.prems(2) _ Cons.prems(3) p] Cons.prems(4) by simp
    ultimately show ?thesis using Cons.IH [OF _ _ _ _ r] l ok Cons.prems(3,4) by simp
  next
    case (Del d)
    obtain old t1 where p: "OPENSSL_lh_delete mem call_hash call_cmp t d = (old, t1)" by force
    with Cons.prems(5) Del obtain rs1 where r:
      "run_ops (OPENSSL_lh_insert mem call_hash call_cmp) (OPENSSL_lh_delete mem call_hash call_cmp) t1 ops = (rs1, t')"
      by (auto split: prod.splits)
    note l = lh_delete_laws [OF conjunct1 [OF ok] hl p]
    have "size (lh_elems t1) \<le> size (lh_elems t)" using l by (auto intro!: size_mset_mono split: option.splits)
    moreover have "lh_load t1" using delete_load [OF hl conjunct1 [OF ok] Cons.prems(2) _ Cons.prems(3) p] Cons.prems(4) by simp
    ultimately show ?thesis using Cons.IH [OF _ _ _ _ r] l ok Cons.prems(3,4) by simp
  qed
qed simp

text \<open>
  C30 (bounds).  As long as memory is available, every history of insertions and deletions from a new table
  keeps the chains short and the bucket array small: on average fewer than three items in a chain, and no more
  buckets than items beyond the sixteen of a new table.  (The bound on the length of the history is beyond
  what an address space holds.)
\<close>

theorem lh_load_bounded:
  assumes "hash_laws (call_hash h) (call_cmp c)" and "OPENSSL_lh_new al0 h c = Some t"
    and "run_ops (OPENSSL_lh_insert (\<lambda>_. True) call_hash call_cmp) (OPENSSL_lh_delete (\<lambda>_. True) call_hash call_cmp) t ops = (rs, t')"
    and "length ops < 2 ^ 59 - 1"
  shows "lh_num_items t' < 3 * lh_num_buckets t' \<and> (lh_num_buckets t' = 16 \<or> lh_num_buckets t' \<le> lh_num_items t')"
proof -
  note n = lh_new_laws [OF assms(2)]
  have "lh_load t" using n by (simp add: lh_load_def)
  from run_load [OF assms(1) _ this n(5) _ assms(3)] n assms(4) show ?thesis by (simp add: lh_load_def)
qed

theorem lh_load_bounded_witness:
  "let t' = snd (pair_run (\<lambda>_. True) (map (\<lambda>k. Put (k, k)) [0..<48])) in
     lh_num_items t' < 3 * lh_num_buckets t' \<and> (lh_num_buckets t' = 16 \<or> lh_num_buckets t' \<le> lh_num_items t')"
proof -
  let ?ops = "map (\<lambda>k. Put (k, k)) [0..<48]"
  obtain rs t' where r: "pair_run (\<lambda>_. True) ?ops = (rs, t')" by force
  have "length ?ops < 2 ^ 59 - 1" by simp
  from lh_load_bounded [OF pair_laws pair_new r this] show ?thesis unfolding r Let_def snd_conv .
qed

section \<open>Iterating\<close>

lemma depth_max: "d + 1 = -1 \<longleftrightarrow> d = (-2 :: 32 word)"
proof -
  have "d + 1 = -1 \<longleftrightarrow> d = -1 - 1" by (metis add_diff_cancel_right' diff_add_cancel)
  then show ?thesis by simp
qed

text \<open>
  \<open>OPENSSL_lh_doall_arg\<close> calls the function once for every item, bucket by bucket and along
  each chain, and leaves a well-formed table with the same elements.  The saturating depth counter comes back
  to its value unless it was \<open>UINT_MAX - 1\<close>, which sticks at \<open>UINT_MAX\<close>.
\<close>

theorem lh_doall_exact:
  assumes "lh_ok call_hash call_cmp lh"
  shows "\<exists>lh'. OPENSSL_lh_doall_arg al func (Some lh) w = (Some lh', fold func (map it_data (concat (lh_buckets lh))) w) \<and>
    lh_ok call_hash call_cmp lh' \<and> lh_elems lh' = lh_elems lh \<and>
    lh_callback_depth lh' = (if lh_callback_depth lh = -2 then -1 else lh_callback_depth lh)"
proof -
  have l: "length (lh_buckets lh) = lh_num_buckets lh" using assms by (simp add: lh_ok_def buckets_ok_def)
  have same: "lh_buckets (doall_enter lh) = lh_buckets lh" "lh_num_buckets (doall_enter lh) = lh_num_buckets lh"
    by (simp_all add: doall_enter_def)
  have f: "fold (\<lambda>i. fold (\<lambda>cur. func (it_data cur)) (lh_buckets lh ! i)) [0..<lh_num_buckets lh] w =
      fold func (map it_data (concat (lh_buckets lh))) w"
    using fold_index [of "fold (\<lambda>cur. func (it_data cur))" "lh_buckets lh" w] l by (simp add: fold_concat fold_map o_def)
  have ok: "lh_ok call_hash call_cmp (doall_leave (doall_enter lh))" using assms by (simp add: doall_enter_leave_ok)
  have d: "lh_callback_depth (doall_leave (doall_enter lh)) = (if lh_callback_depth lh = -2 then -1 else lh_callback_depth lh)"
  proof (cases "lh_callback_depth lh < -1")
    case True
    have m: "lh_callback_depth lh + 1 = -1 \<longleftrightarrow> lh_callback_depth lh = -2" using depth_max [of "lh_callback_depth lh"] .
    have e: "lh_callback_depth (doall_enter lh) = lh_callback_depth lh + 1" using True by (simp add: doall_enter_def)
    show ?thesis
    proof (cases "lh_callback_depth lh = -2")
      case t: True
      with m have "lh_callback_depth lh + 1 = -1" by blast
      with t e show ?thesis unfolding doall_leave_def by simp
    next
      case False
      with m have "lh_callback_depth lh + 1 < -1" using word_order.not_eq_extremum by blast
      with False e show ?thesis unfolding doall_leave_def by simp
    qed
  next
    case False
    then have "lh_callback_depth lh = -1" using word_order.not_eq_extremum by blast
    then show ?thesis by (simp add: doall_enter_def doall_leave_def)
  qed
  note z = lh_maybe_resize_laws [OF ok, of al]
  have "lh_elems (lh_maybe_resize al (doall_leave (doall_enter lh))) = lh_elems lh"
    using same_table_elems [OF z(2)] by (simp add: lh_elems_def doall_enter_leave_ok)
  with z d show ?thesis by (simp add: OPENSSL_lh_doall_arg_def Let_def same f same_table_def)
qed






end
