(* ===== verification/Pb_In.thy ===== *)
theory Pb_In
  imports Codec "HOL-Library.Code_Target_Numeral"
begin

text \<open>
  The input streams of \<open>nanopb/pb_decode.c\<close> and the wire level readers: bytes, varints, tags, the skipping
  of fields, substreams and the scalar values.  A stream is a memory stream, as
  \<open>pb_istream_from_buffer\<close> makes it, so its callback is \<open>buf_read\<close> and its state is the rest of the buffer.
  \<open>PB_RETURN_ERROR\<close> keeps the first message.  A reader returns its value, or \<open>None\<close> for \<open>false\<close>, and the
  stream.
\<close>

section \<open>Streams\<close>

record pb_istream =
  is_state :: "byte list"
  bytes_left :: nat
  is_errmsg :: "string option"

text \<open>Wire types, the low three bits of a tag.\<close>

definition PB_WT_VARINT :: nat where "PB_WT_VARINT = 0"
definition PB_WT_64BIT :: nat where "PB_WT_64BIT = 1"
definition PB_WT_STRING :: nat where "PB_WT_STRING = 2"
definition PB_WT_32BIT :: nat where "PB_WT_32BIT = 5"

definition pb_set_error :: "pb_istream \<Rightarrow> string \<Rightarrow> pb_istream" where
  "pb_set_error s msg = s\<lparr>is_errmsg := (case is_errmsg s of None \<Rightarrow> Some msg | Some m \<Rightarrow> Some m)\<rparr>"

definition buf_read :: "pb_istream \<Rightarrow> nat \<Rightarrow> byte list \<times> pb_istream" where
  "buf_read s count = (take count (is_state s), s\<lparr>is_state := drop count (is_state s)\<rparr>)"

definition pb_read :: "pb_istream \<Rightarrow> nat \<Rightarrow> byte list option \<times> pb_istream" where
  "pb_read s count =
     (if count = 0 then (Some [], s)
      else if bytes_left s < count then (None, pb_set_error s ''end-of-stream'')
      else case buf_read s count of (bs, s1) \<Rightarrow> (Some bs, s1\<lparr>bytes_left := bytes_left s1 - count\<rparr>))"

definition pb_readbyte :: "pb_istream \<Rightarrow> byte option \<times> pb_istream" where
  "pb_readbyte s =
     (if bytes_left s = 0 then (None, pb_set_error s ''end-of-stream'')
      else case buf_read s 1 of (bs, s1) \<Rightarrow> (Some (hd bs), s1\<lparr>bytes_left := bytes_left s1 - 1\<rparr>))"

definition pb_istream_from_buffer :: "byte list \<Rightarrow> nat \<Rightarrow> pb_istream" where
  "pb_istream_from_buffer buf bufsize = \<lparr>is_state = buf, bytes_left = bufsize, is_errmsg = None\<rparr>"

lemma pb_readbyte_less [termination_simp]: "pb_readbyte s = (Some b, s1) \<Longrightarrow> bytes_left s1 < bytes_left s"
  by (auto simp: pb_readbyte_def buf_read_def split: if_splits)

lemma pb_read_less: "pb_read s n = (Some bs, s1) \<Longrightarrow> bytes_left s1 = bytes_left s - n \<and> (n \<noteq> 0 \<longrightarrow> n \<le> bytes_left s)"
  by (auto simp: pb_read_def buf_read_def split: if_splits)

lemma pb_read1_less [termination_simp]: "pb_read s (Suc 0) = (Some bs, s1) \<Longrightarrow> bytes_left s1 < bytes_left s"
  using pb_read_less [of s 1 bs s1] by auto

section \<open>Varints\<close>

text \<open>
  The loop of \<open>pb_decode_varint32_eof\<close> after its first byte.  \<open>bitpos\<close> is a \<open>uint_fast8_t\<close>, eight bits on
  the platforms of the application.  It gives the last byte, \<open>bitpos\<close> and the result.
\<close>

function varint32_loop :: "pb_istream \<Rightarrow> byte \<Rightarrow> u32 \<Rightarrow> (byte \<times> byte \<times> u32) option \<times> pb_istream" where
  "varint32_loop s bitpos result =
     (case pb_readbyte s of
        (None, s1) \<Rightarrow> (None, s1)
      | (Some byte, s1) \<Rightarrow>
          let sign_extension = (if bitpos < 63 then 0xff else 0x01);
              overflow = (bitpos \<ge> 32 \<and> byte AND 0x7f \<noteq> 0 \<and> (drop_bit 31 result = 0 \<or> byte \<noteq> sign_extension));
              result1 = (if bitpos \<ge> 32 then result else result OR push_bit (unat bitpos) (ucast (byte AND 0x7f)));
              bitpos1 = bitpos + 7
          in if overflow then (None, pb_set_error s1 ''varint overflow'')
             else if byte AND 0x80 \<noteq> 0 then varint32_loop s1 bitpos1 result1
             else (Some (byte, bitpos1, result1), s1))"
  by pat_completeness auto
termination
  by (relation "measure (\<lambda>(s, _, _). bytes_left s)") (auto dest: pb_readbyte_less [OF sym])

declare varint32_loop.simps [simp del]

text \<open>The value, whether \<open>*eof\<close> is set, and the stream.\<close>

definition pb_decode_varint32_eof :: "pb_istream \<Rightarrow> u32 option \<times> bool \<times> pb_istream" where
  "pb_decode_varint32_eof s =
     (case pb_readbyte s of
        (None, s1) \<Rightarrow> (None, bytes_left s1 = 0, s1)
      | (Some byte, s1) \<Rightarrow>
          if byte AND 0x80 = 0 then (Some (ucast byte), False, s1)
          else case varint32_loop s1 7 (ucast (byte AND 0x7f)) of
            (None, s2) \<Rightarrow> (None, False, s2)
          | (Some (byte1, bitpos, result), s2) \<Rightarrow>
              if bitpos = 35 \<and> byte1 AND 0x70 \<noteq> 0 then (None, False, pb_set_error s2 ''varint overflow'')
              else (Some result, False, s2))"

definition pb_decode_varint32 :: "pb_istream \<Rightarrow> u32 option \<times> pb_istream" where
  "pb_decode_varint32 s = (case pb_decode_varint32_eof s of (r, _, s1) \<Rightarrow> (r, s1))"

function varint_loop :: "pb_istream \<Rightarrow> byte \<Rightarrow> u64 \<Rightarrow> u64 option \<times> pb_istream" where
  "varint_loop s bitpos result =
     (if bitpos \<ge> 64 then (None, pb_set_error s ''varint overflow'')
      else case pb_readbyte s of
        (None, s1) \<Rightarrow> (None, s1)
      | (Some byte, s1) \<Rightarrow>
          let result1 = result OR push_bit (unat bitpos) (ucast (byte AND 0x7f));
              bitpos1 = bitpos + 7
          in if byte AND 0x80 \<noteq> 0 then varint_loop s1 bitpos1 result1 else (Some result1, s1))"
  by pat_completeness auto
termination
  by (relation "measure (\<lambda>(s, _, _). bytes_left s)") (auto dest: pb_readbyte_less [OF sym])

declare varint_loop.simps [simp del]

definition pb_decode_varint :: "pb_istream \<Rightarrow> u64 option \<times> pb_istream" where
  "pb_decode_varint s = varint_loop s 0 0"

function pb_skip_varint :: "pb_istream \<Rightarrow> bool \<times> pb_istream" where
  "pb_skip_varint s =
     (case pb_read s 1 of
        (None, s1) \<Rightarrow> (False, s1)
      | (Some bs, s1) \<Rightarrow> if hd bs AND 0x80 \<noteq> 0 then pb_skip_varint s1 else (True, s1))"
  by pat_completeness auto
termination
  by (relation "measure bytes_left") (auto dest: pb_read1_less [OF sym])

declare pb_skip_varint.simps [simp del]

section \<open>Fields on the wire\<close>

definition pb_skip_string :: "pb_istream \<Rightarrow> bool \<times> pb_istream" where
  "pb_skip_string s =
     (case pb_decode_varint32 s of
        (None, s1) \<Rightarrow> (False, s1)
      | (Some sz, s1) \<Rightarrow> (case pb_read s1 (unat sz) of (r, s2) \<Rightarrow> (r \<noteq> None, s2)))"

text \<open>The wire type and the tag, \<open>*eof\<close>, and the stream.\<close>

definition pb_decode_tag :: "pb_istream \<Rightarrow> (nat \<times> u32) option \<times> bool \<times> pb_istream" where
  "pb_decode_tag s =
     (case pb_decode_varint32_eof s of
        (None, eof, s1) \<Rightarrow> (None, eof, s1)
      | (Some temp, eof, s1) \<Rightarrow>
          if temp = 0 then (None, True, s1)
          else (Some (unat (temp AND 7), drop_bit 3 temp), eof, s1))"

definition pb_skip_field :: "pb_istream \<Rightarrow> nat \<Rightarrow> bool \<times> pb_istream" where
  "pb_skip_field s wire_type =
     (if wire_type = PB_WT_VARINT then pb_skip_varint s
      else if wire_type = PB_WT_64BIT then (case pb_read s 8 of (r, s1) \<Rightarrow> (r \<noteq> None, s1))
      else if wire_type = PB_WT_STRING then pb_skip_string s
      else if wire_type = PB_WT_32BIT then (case pb_read s 4 of (r, s1) \<Rightarrow> (r \<noteq> None, s1))
      else (False, pb_set_error s ''invalid wire_type''))"

text \<open>The bytes put in the caller's buffer of \<open>max_size\<close> bytes; \<open>sz\<close> counts those of a varint.\<close>

function raw_varint :: "pb_istream \<Rightarrow> nat \<Rightarrow> nat \<Rightarrow> byte list option \<times> pb_istream" where
  "raw_varint s sz max_size =
     (if sz + 1 > max_size then (None, s)
      else case pb_read s 1 of
        (None, s1) \<Rightarrow> (None, s1)
      | (Some bs, s1) \<Rightarrow>
          if hd bs AND 0x80 \<noteq> 0 then
            (case raw_varint s1 (sz + 1) max_size of
               (None, s2) \<Rightarrow> (None, s2)
             | (Some bs2, s2) \<Rightarrow> (Some (bs @ bs2), s2))
          else (Some bs, s1))"
  by pat_completeness auto
termination
  by (relation "measure (\<lambda>(s, _, _). bytes_left s)") (auto dest: pb_read1_less [OF sym])

declare raw_varint.simps [simp del]

definition read_raw_value :: "pb_istream \<Rightarrow> nat \<Rightarrow> nat \<Rightarrow> byte list option \<times> pb_istream" where
  "read_raw_value s wire_type max_size =
     (if wire_type = PB_WT_VARINT then raw_varint s 0 max_size
      else if wire_type = PB_WT_64BIT then pb_read s 8
      else if wire_type = PB_WT_32BIT then pb_read s 4
      else (None, pb_set_error s ''invalid wire_type''))"

text \<open>A substream shares the buffer of its parent, which gives up the bytes.\<close>

definition pb_make_string_substream :: "pb_istream \<Rightarrow> pb_istream option \<times> pb_istream" where
  "pb_make_string_substream s =
     (case pb_decode_varint32 s of
        (None, s1) \<Rightarrow> (None, s1)
      | (Some sz, s1) \<Rightarrow>
          if bytes_left s1 < unat sz then (None, pb_set_error s1 ''parent stream too short'')
          else (Some (s1\<lparr>bytes_left := unat sz\<rparr>), s1\<lparr>bytes_left := bytes_left s1 - unat sz\<rparr>))"

definition pb_close_string_substream :: "pb_istream \<Rightarrow> pb_istream \<Rightarrow> bool \<times> pb_istream" where
  "pb_close_string_substream s substream =
     (case (if bytes_left substream \<noteq> 0 then pb_read substream (bytes_left substream) else (Some [], substream)) of
        (None, _) \<Rightarrow> (False, s)
      | (Some _, sub1) \<Rightarrow> (True, s\<lparr>is_state := is_state sub1, is_errmsg := is_errmsg sub1\<rparr>))"

section \<open>Scalar values\<close>

definition pb_dec_bool :: "pb_istream \<Rightarrow> bool option \<times> pb_istream" where
  "pb_dec_bool s =
     (case pb_decode_varint32 s of (None, s1) \<Rightarrow> (None, s1) | (Some v, s1) \<Rightarrow> (Some (v \<noteq> 0), s1))"

definition pb_decode_bool :: "pb_istream \<Rightarrow> bool option \<times> pb_istream" where
  "pb_decode_bool s = pb_dec_bool s"

text \<open>An \<open>int64_t\<close> is kept as its 64 bits; \<open>sint\<close> is its value.\<close>

definition pb_decode_svarint :: "pb_istream \<Rightarrow> u64 option \<times> pb_istream" where
  "pb_decode_svarint s =
     (case pb_decode_varint s of
        (None, s1) \<Rightarrow> (None, s1)
      | (Some v, s1) \<Rightarrow> (Some (if v AND 1 \<noteq> 0 then NOT (drop_bit 1 v) else drop_bit 1 v), s1))"

definition pb_decode_fixed32 :: "pb_istream \<Rightarrow> u32 option \<times> pb_istream" where
  "pb_decode_fixed32 s =
     (case pb_read s 4 of
        (None, s1) \<Rightarrow> (None, s1)
      | (Some bytes, s1) \<Rightarrow>
          (Some (push_bit 0 (ucast (bytes ! 0)) OR push_bit 8 (ucast (bytes ! 1)) OR
                 push_bit 16 (ucast (bytes ! 2)) OR push_bit 24 (ucast (bytes ! 3))), s1))"

definition pb_decode_fixed64 :: "pb_istream \<Rightarrow> u64 option \<times> pb_istream" where
  "pb_decode_fixed64 s =
     (case pb_read s 8 of
        (None, s1) \<Rightarrow> (None, s1)
      | (Some bytes, s1) \<Rightarrow>
          (Some (push_bit 0 (ucast (bytes ! 0)) OR push_bit 8 (ucast (bytes ! 1)) OR
                 push_bit 16 (ucast (bytes ! 2)) OR push_bit 24 (ucast (bytes ! 3)) OR
                 push_bit 32 (ucast (bytes ! 4)) OR push_bit 40 (ucast (bytes ! 5)) OR
                 push_bit 48 (ucast (bytes ! 6)) OR push_bit 56 (ucast (bytes ! 7))), s1))"

end
