(* ===== verification/Pb_Out.thy ===== *)
theory Pb_Out
  imports Prelude "HOL-Library.Code_Target_Numeral"
begin

text \<open>
  The output streams of \<open>nanopb/pb_encode.c\<close> and the wire level writers.  A stream writes to a memory
  buffer, as \<open>pb_ostream_from_buffer\<close> makes it, or only counts (\<open>PB_OSTREAM_SIZING\<close>, a \<open>NULL\<close> callback).
  \<open>os_mem\<close> is the buffer and \<open>os_pos\<close> the offset of the pointer \<open>state\<close> in it.
\<close>

section \<open>Streams\<close>

record pb_ostream =
  os_sizing :: bool
  os_mem :: "byte list"
  os_pos :: nat
  max_size :: nat
  bytes_written :: nat
  os_errmsg :: "string option"

definition PB_OSTREAM_SIZING :: pb_ostream where
  "PB_OSTREAM_SIZING = \<lparr>os_sizing = True, os_mem = [], os_pos = 0, max_size = 0, bytes_written = 0, os_errmsg = None\<rparr>"

definition pb_oset_error :: "pb_ostream \<Rightarrow> string \<Rightarrow> pb_ostream" where
  "pb_oset_error s msg = s\<lparr>os_errmsg := (case os_errmsg s of None \<Rightarrow> Some msg | Some m \<Rightarrow> Some m)\<rparr>"

definition buf_write :: "pb_ostream \<Rightarrow> byte list \<Rightarrow> pb_ostream" where
  "buf_write s buf = s\<lparr>os_mem := mem_write (os_pos s) buf (os_mem s), os_pos := os_pos s + length buf\<rparr>"

definition pb_ostream_from_buffer :: "byte list \<Rightarrow> nat \<Rightarrow> pb_ostream" where
  "pb_ostream_from_buffer buf bufsize =
     \<lparr>os_sizing = False, os_mem = buf, os_pos = 0, max_size = bufsize, bytes_written = 0, os_errmsg = None\<rparr>"

text \<open>A sizing stream never looks at the bytes, only at their number.\<close>

definition pb_write :: "pb_ostream \<Rightarrow> byte list \<Rightarrow> bool \<times> pb_ostream" where
  "pb_write s buf =
     (let count = length buf;
          sum = size_wrap (bytes_written s + count)
      in if count > 0 \<and> \<not> os_sizing s then
           if sum < bytes_written s \<or> sum > max_size s then (False, pb_oset_error s ''stream full'')
           else (True, (buf_write s buf)\<lparr>bytes_written := sum\<rparr>)
         else (True, s\<lparr>bytes_written := sum\<rparr>))"

text \<open>\<open>pb_write\<close> with \<open>NULL\<close> data, used for sizing.\<close>

definition pb_write_null :: "pb_ostream \<Rightarrow> nat \<Rightarrow> bool \<times> pb_ostream" where
  "pb_write_null s count = (True, s\<lparr>bytes_written := size_wrap (bytes_written s + count)\<rparr>)"

section \<open>Scalar values and tags\<close>

text \<open>The bytes that \<open>pb_encode_varint\<close> puts in its buffer of ten.\<close>

function varint_buffer :: "u64 \<Rightarrow> byte list" where
  "varint_buffer v = (if v = 0 then [] else (ucast (v AND 0x7f) OR 0x80) # varint_buffer (drop_bit 7 v))"
  by pat_completeness auto
termination
  by (relation "measure unat") (auto simp: unat_drop_bit word_greater_zero_iff unat_gt_0)

declare varint_buffer.simps [simp del]

definition pb_encode_varint :: "pb_ostream \<Rightarrow> u64 \<Rightarrow> bool \<times> pb_ostream" where
  "pb_encode_varint s v =
     (if v \<le> 0x7f then pb_write s [ucast v]
      else let buffer = varint_buffer v;
               i = length buffer
           in pb_write s (buffer[i - 1 := buffer ! (i - 1) AND 0x7f]))"

definition pb_encode_svarint :: "pb_ostream \<Rightarrow> u64 \<Rightarrow> bool \<times> pb_ostream" where
  "pb_encode_svarint s v =
     pb_encode_varint s (if v <s 0 then NOT (push_bit 1 v) else push_bit 1 v)"

definition pb_encode_fixed32 :: "pb_ostream \<Rightarrow> u32 \<Rightarrow> bool \<times> pb_ostream" where
  "pb_encode_fixed32 s val =
     pb_write s [ucast (val AND 0xff), ucast (drop_bit 8 val AND 0xff), ucast (drop_bit 16 val AND 0xff),
                 ucast (drop_bit 24 val AND 0xff)]"

definition pb_encode_fixed64 :: "pb_ostream \<Rightarrow> u64 \<Rightarrow> bool \<times> pb_ostream" where
  "pb_encode_fixed64 s val =
     pb_write s [ucast (val AND 0xff), ucast (drop_bit 8 val AND 0xff), ucast (drop_bit 16 val AND 0xff),
                 ucast (drop_bit 24 val AND 0xff), ucast (drop_bit 32 val AND 0xff), ucast (drop_bit 40 val AND 0xff),
                 ucast (drop_bit 48 val AND 0xff), ucast (drop_bit 56 val AND 0xff)]"

definition pb_encode_tag :: "pb_ostream \<Rightarrow> nat \<Rightarrow> u32 \<Rightarrow> bool \<times> pb_ostream" where
  "pb_encode_tag s wiretype field_number =
     pb_encode_varint s (push_bit 3 (ucast field_number) OR word_of_nat wiretype)"

definition pb_encode_string :: "pb_ostream \<Rightarrow> byte list \<Rightarrow> bool \<times> pb_ostream" where
  "pb_encode_string s buffer =
     (case pb_encode_varint s (word_of_nat (length buffer)) of
        (False, s1) \<Rightarrow> (False, s1)
      | (True, s1) \<Rightarrow> pb_write s1 buffer)"

section \<open>What a writer promises\<close>

text \<open>
  A stream has room for what it may still write, inside its buffer.
\<close>

definition os_ok :: "pb_ostream \<Rightarrow> bool" where
  "os_ok s \<longleftrightarrow> max_size s < 2 ^ 64 \<and> bytes_written s < 2 ^ 64 \<and>
     (\<not> os_sizing s \<longrightarrow> bytes_written s \<le> max_size s \<and> os_pos s + max_size s \<le> length (os_mem s) + bytes_written s)"

text \<open>
  Writing the bytes \<open>bs\<close>: a sizing stream counts them; a memory stream with room for them has them after what it
  had, and one without room fails.  The rest of the buffer is not touched.
\<close>

definition emits :: "byte list \<Rightarrow> pb_ostream \<Rightarrow> bool \<Rightarrow> pb_ostream \<Rightarrow> bool" where
  "emits bs s ok s' \<longleftrightarrow> os_ok s' \<and> os_sizing s' = os_sizing s \<and> max_size s' = max_size s \<and>
     length (os_mem s') = length (os_mem s) \<and>
     (os_sizing s \<longrightarrow> ok \<and> bytes_written s' = size_wrap (bytes_written s + length bs)) \<and>
     (\<not> os_sizing s \<longrightarrow> (ok \<longleftrightarrow> bytes_written s + length bs \<le> max_size s)) \<and>
     (\<not> os_sizing s \<and> ok \<longrightarrow> bytes_written s' = bytes_written s + length bs \<and> os_pos s' = os_pos s + length bs \<and>
        take (os_pos s') (os_mem s') = take (os_pos s) (os_mem s) @ bs \<and>
        drop (os_pos s') (os_mem s') = drop (os_pos s') (os_mem s))"

lemma emitsD:
  assumes "emits bs s True s'" and "\<not> os_sizing s"
  shows "os_ok s'" "\<not> os_sizing s'" "max_size s' = max_size s" "length (os_mem s') = length (os_mem s)"
    "bytes_written s' = bytes_written s + length bs" "os_pos s' = os_pos s + length bs"
    "take (os_pos s') (os_mem s') = take (os_pos s) (os_mem s) @ bs"
    "drop (os_pos s') (os_mem s') = drop (os_pos s') (os_mem s)"
  using assms unfolding emits_def by blast+

lemma pb_write_emits:
  assumes "os_ok s" and "length bs < 2 ^ 64"
  shows "emits bs s (fst (pb_write s bs)) (snd (pb_write s bs))"
proof (cases "bs = [] \<or> os_sizing s")
  case True
  then have "pb_write s bs = (True, s\<lparr>bytes_written := size_wrap (bytes_written s + length bs)\<rparr>)"
    by (auto simp: pb_write_def Let_def)
  with True assms show ?thesis by (auto simp: emits_def os_ok_def)
next
  case False
  then have m: "\<not> os_sizing s" "0 < length bs" by simp_all
  with assms(1) have r: "bytes_written s \<le> max_size s" "max_size s < 2 ^ 64"
    "os_pos s + max_size s \<le> length (os_mem s) + bytes_written s" unfolding os_ok_def by blast+
  let ?sum = "size_wrap (bytes_written s + length bs)"
  show ?thesis
  proof (cases "bytes_written s + length bs \<le> max_size s")
    case fits: True
    then have sum: "?sum = bytes_written s + length bs" using r(2) by simp
    have w: "pb_write s bs = (True, (buf_write s bs)\<lparr>bytes_written := bytes_written s + length bs\<rparr>)"
      using m fits unfolding pb_write_def Let_def sum by simp
    have l: "os_pos s + length bs \<le> length (os_mem s)" using fits r(3) by linarith
    have "drop (os_pos s + length bs) (mem_write (os_pos s) bs (os_mem s)) = drop (os_pos s + length bs) (os_mem s)"
      using l by (intro drop_mem_write_after) simp_all
    with w m fits l r show ?thesis by (simp add: emits_def os_ok_def buf_write_def take_mem_write)
  next
    case False
    have "?sum < bytes_written s \<or> ?sum > max_size s"
    proof (cases "bytes_written s + length bs < 2 ^ 64")
      case True
      with False show ?thesis by simp
    next
      case wraps: False
      then have "?sum = bytes_written s + length bs - 2 ^ 64" using assms(2) r by (simp add: size_wrap_def le_mod_geq)
      with assms(2) wraps show ?thesis by linarith
    qed
    with m False have "pb_write s bs = (False, pb_oset_error s ''stream full'')" by (auto simp: pb_write_def Let_def)
    with m False assms(1) show ?thesis by (simp add: emits_def os_ok_def pb_oset_error_def)
  qed
qed

text \<open>Two writers in a row.\<close>

lemma emits_then:
  assumes "emits bs s True s1" and "emits cs s1 ok s2"
  shows "emits (bs @ cs) s ok s2"
proof -
  have "size_wrap (size_wrap (bytes_written s + length bs) + length cs) = size_wrap (bytes_written s + (length bs + length cs))"
    by (simp add: size_wrap_def mod_add_left_eq add.assoc)
  then have sizing: "os_sizing s \<Longrightarrow> emits (bs @ cs) s ok s2" using assms by (simp add: emits_def)
  have "emits (bs @ cs) s ok s2" if m: "\<not> os_sizing s"
  proof (cases ok)
    case False
    with assms m show ?thesis by (auto simp: emits_def)
  next
    case True
    have d1: "drop (os_pos s1) (os_mem s1) = drop (os_pos s1) (os_mem s)" "os_pos s1 = os_pos s + length bs"
      using assms(1) m unfolding emits_def by blast+
    have d2: "drop (os_pos s2) (os_mem s2) = drop (os_pos s2) (os_mem s1)" "os_pos s2 = length cs + os_pos s1"
      using assms m True unfolding emits_def by (blast, simp)
    have "drop (os_pos s2) (os_mem s1) = drop (length cs) (drop (os_pos s1) (os_mem s1))" using d2(2) by simp
    also have "\<dots> = drop (os_pos s2) (os_mem s)" unfolding d1(1) using d2(2) by simp
    finally have "drop (os_pos s2) (os_mem s2) = drop (os_pos s2) (os_mem s)" using d2(1) by simp
    moreover have "take (os_pos s1) (os_mem s1) = take (os_pos s) (os_mem s) @ bs"
      "take (os_pos s2) (os_mem s2) = take (os_pos s1) (os_mem s1) @ cs"
      using assms(1,2) m True unfolding emits_def by (blast, blast)
    then have "take (os_pos s2) (os_mem s2) = take (os_pos s) (os_mem s) @ bs @ cs" by simp
    ultimately have "take (os_pos s2) (os_mem s2) = take (os_pos s) (os_mem s) @ bs @ cs \<and>
        drop (os_pos s2) (os_mem s2) = drop (os_pos s2) (os_mem s)" by blast
    moreover have "os_ok s2 \<and> os_sizing s2 = os_sizing s \<and> max_size s2 = max_size s \<and> length (os_mem s2) = length (os_mem s) \<and>
        bytes_written s2 = bytes_written s + length (bs @ cs) \<and> os_pos s2 = os_pos s + length (bs @ cs) \<and>
        bytes_written s + length (bs @ cs) \<le> max_size s"
      using assms(1,2) m True d2(2) d1(2) unfolding emits_def by auto
    ultimately show ?thesis using m True unfolding emits_def by blast
  qed
  with sizing show ?thesis by blast
qed

lemma emits_fail:
  assumes "emits bs s False s1" and "os_ok s"
  shows "emits (bs @ cs) s False s1"
  using assms by (auto simp: emits_def)

end
