(* ===== verification/Pb_Wire.thy ===== *)
theory Pb_Wire
  imports Pb_In Pb_Out
begin

text \<open>
  The wire format of \<open>nanopb\<close>: what the readers of \<open>pb_decode.c\<close> accept and what the writers of
  \<open>pb_encode.c\<close> put, against one specification of varints and little-endian integers, and the round trips
  between the two files.
\<close>

section \<open>Reading bytes\<close>

definition is_bytes :: "pb_istream \<Rightarrow> byte list" where
  "is_bytes s = take (bytes_left s) (is_state s)"

definition is_ok :: "pb_istream \<Rightarrow> bool" where
  "is_ok s \<longleftrightarrow> bytes_left s \<le> length (is_state s)"

lemma length_is_bytes: "is_ok s \<Longrightarrow> length (is_bytes s) = bytes_left s"
  by (simp add: is_ok_def is_bytes_def)

lemma from_buffer_laws [simp]:
  "is_bytes (pb_istream_from_buffer b (length b)) = b" "is_ok (pb_istream_from_buffer b (length b))"
  by (simp_all add: pb_istream_from_buffer_def is_bytes_def is_ok_def)

lemma set_error_same [simp]:
  "is_bytes (pb_set_error s m) = is_bytes s" "is_ok (pb_set_error s m) = is_ok s"
  "bytes_left (pb_set_error s m) = bytes_left s" "is_state (pb_set_error s m) = is_state s"
  by (simp_all add: pb_set_error_def is_bytes_def is_ok_def)

lemma pb_readbyte_Nil: "is_ok s \<Longrightarrow> is_bytes s = [] \<Longrightarrow> pb_readbyte s = (None, pb_set_error s ''end-of-stream'')"
  using length_is_bytes [of s] by (simp add: pb_readbyte_def)

text \<open>The stream with the first \<open>n\<close> bytes consumed.\<close>

definition is_advance :: "nat \<Rightarrow> pb_istream \<Rightarrow> pb_istream" where
  "is_advance n s = s\<lparr>is_state := drop n (is_state s), bytes_left := bytes_left s - n\<rparr>"

lemma advance_laws [simp]:
  "is_bytes (is_advance n s) = drop n (is_bytes s)" "is_ok s \<Longrightarrow> is_ok (is_advance n s)"
  "is_errmsg (is_advance n s) = is_errmsg s" "bytes_left (is_advance n s) = bytes_left s - n"
  by (simp_all add: is_advance_def is_bytes_def is_ok_def drop_take)

lemma advance_advance [simp]: "is_advance m (is_advance n s) = is_advance (n + m) s"
  by (simp add: is_advance_def add.commute)

lemma advance_0 [simp]: "is_advance 0 s = s"
  by (simp add: is_advance_def)

lemma pb_readbyte_Cons:
  assumes "is_ok s" and "is_bytes s = b # bs"
  shows "pb_readbyte s = (Some b, is_advance 1 s)"
proof -
  have "bytes_left s \<noteq> 0" "is_state s \<noteq> []" using assms(2) by (auto simp: is_bytes_def intro: ccontr)
  moreover from this have "hd (is_state s) = b" using assms(2) by (cases "is_state s") (auto simp: is_bytes_def take_Cons')
  ultimately show ?thesis by (simp add: pb_readbyte_def buf_read_def is_advance_def hd_take)
qed

lemma pb_readbyte_Some:
  assumes "is_ok s" and "pb_readbyte s = (Some b, s1)"
  shows "is_bytes s = b # is_bytes s1 \<and> is_ok s1 \<and> s1 = is_advance 1 s"
proof (cases "is_bytes s")
  case Nil
  with assms pb_readbyte_Nil show ?thesis by simp
next
  case (Cons c cs)
  with assms pb_readbyte_Cons [OF assms(1) Cons] show ?thesis by auto
qed

lemma pb_read_iff:
  assumes "is_ok s"
  shows "pb_read s n =
    (if n \<le> length (is_bytes s) then (Some (take n (is_bytes s)), is_advance n s) else (None, pb_set_error s ''end-of-stream''))"
  using assms length_is_bytes [OF assms]
  by (auto simp: pb_read_def buf_read_def is_advance_def is_bytes_def min_def)

lemma pb_read_Some:
  assumes "is_ok s" and "pb_read s n = (Some bs, s1)"
  shows "is_bytes s = bs @ is_bytes s1 \<and> length bs = n \<and> is_ok s1 \<and> s1 = is_advance n s"
  using assms by (auto simp: pb_read_iff split: if_splits)

section \<open>Varints\<close>

function varint :: "nat \<Rightarrow> byte list" where
  "varint n = (if n < 128 then [byte_of n] else byte_of (128 + n mod 128) # varint (n div 128))"
  by pat_completeness auto
termination
  by (relation "measure id") auto

declare varint.simps [simp del]

fun varint_val :: "byte list \<Rightarrow> nat" where
  "varint_val [] = 0"
| "varint_val (b # bs) = unat b mod 128 + 128 * varint_val bs"

fun varint_form :: "byte list \<Rightarrow> bool" where
  "varint_form [] = False"
| "varint_form (b # bs) = (if unat b < 128 then bs = [] else varint_form bs)"

lemma varint_form_varint: "varint_form (varint n)"
proof (induction n rule: varint.induct)
  case (1 n)
  show ?case
  proof (cases "n < 128")
    case True
    then show ?thesis by (simp add: varint.simps [of n])
  next
    case False
    then have "varint_form (varint (n div 128))" using 1 by simp
    then show ?thesis using False by (simp add: varint.simps [of n] mod_less)
  qed
qed

lemma varint_val_varint [simp]: "varint_val (varint n) = n"
proof (induction n rule: varint.induct)
  case (1 n)
  show ?case
  proof (cases "n < 128")
    case True
    then show ?thesis by (simp add: varint.simps [of n])
  next
    case False
    have "(128 + n mod 128) mod 256 mod 128 = n mod 128" by (simp add: mod_less)
    with 1 False show ?thesis by (simp add: varint.simps [of n])
  qed
qed

lemma length_varint: "n < 128 ^ Suc k \<Longrightarrow> length (varint n) \<le> Suc k"
proof (induction k arbitrary: n)
  case 0
  then show ?case by (simp add: varint.simps [of n])
next
  case (Suc k)
  then have "n div 128 < 128 ^ Suc k" by (simp add: less_mult_imp_div_less)
  from Suc.IH [OF this] show ?case by (subst varint.simps) simp
qed

lemma varint_not_Nil [simp]: "varint n \<noteq> []"
  by (subst varint.simps) simp

lemma varint_val_less: "varint_val bs < 128 ^ length bs"
proof (induction bs)
  case (Cons b bs)
  have "unat b mod 128 < 128" by simp
  then have "unat b mod 128 + 128 * varint_val bs < 128 * Suc (varint_val bs)" by simp
  also have "\<dots> \<le> 128 * 128 ^ length bs" using Cons by (intro mult_le_mono2) simp
  finally show ?case by simp
qed simp

text \<open>Seven more bits on top of those gathered.\<close>

lemma or_shift:
  assumes "x < 2 ^ n"
  shows "word_of_nat x OR push_bit n (word_of_nat y) = (word_of_nat (x + 2 ^ n * y) :: 'a::len word)"
proof -
  have "push_bit n (word_of_nat y) OR (word_of_nat x :: 'a word) = push_bit n (word_of_nat y) + word_of_nat x"
    using assms by (intro shift_in_eq_plus [of n n]) simp_all
  then show ?thesis by (simp add: or.commute push_bit_eq_mult mult.commute)
qed

lemma ucast_byte_nat: "(ucast (b :: byte) :: 'a::len word) = word_of_nat (unat b)"
  by simp

lemma or_shift_byte:
  "x < 2 ^ n \<Longrightarrow> word_of_nat x OR push_bit n (ucast (b :: byte)) = (word_of_nat (x + 2 ^ n * unat b) :: 'a::len word)"
  unfolding ucast_byte_nat by (rule or_shift)

lemma varint_step:
  assumes "x < 2 ^ (7 * k)"
  shows "word_of_nat x OR push_bit (7 * k) (ucast ((b :: byte) AND 0x7f)) = (word_of_nat (x + 2 ^ (7 * k) * (unat b mod 128)) :: 'a::len word)"
    and "x + 2 ^ (7 * k) * (unat b mod 128) < 2 ^ (7 * Suc k)"
proof -
  show "word_of_nat x OR push_bit (7 * k) (ucast (b AND 0x7f)) = (word_of_nat (x + 2 ^ (7 * k) * (unat b mod 128)) :: 'a word)"
    using or_shift_byte [OF assms, of "b AND 0x7f"] by (simp only: unat_and_0x7f)
  have "x + 2 ^ (7 * k) * (unat b mod 128) < 2 ^ (7 * k) * Suc (unat b mod 128)" using assms by simp
  also have "\<dots> \<le> 2 ^ (7 * k) * 128" by (intro mult_le_mono2) (simp add: Suc_leI)
  finally show "x + 2 ^ (7 * k) * (unat b mod 128) < 2 ^ (7 * Suc k)" by (simp add: power_add)
qed

lemma varint_loop_exact:
  assumes "is_ok s" and "k \<le> 10" and "x < 2 ^ (7 * k)"
  shows "varint_loop s (word_of_nat (7 * k)) (word_of_nat x) = (Some v, s') \<longleftrightarrow>
    (\<exists>bs. varint_form bs \<and> k + length bs \<le> 10 \<and> is_bytes s = bs @ is_bytes s' \<and> s' = is_advance (length bs) s \<and>
       v = word_of_nat (x + 2 ^ (7 * k) * varint_val bs))"
  using assms
proof (induction "10 - k" arbitrary: k s x)
  case 0
  then have k: "k = 10" by simp
  have "varint_loop s 70 (word_of_nat x) = (None, pb_set_error s ''varint overflow'')"
    by (simp add: varint_loop.simps [of s 70])
  with k show ?case by auto
next
  case (Suc n)
  define w where "w = (word_of_nat (7 * k) :: byte)"
  have k: "k \<le> 9" using Suc.hyps(2) by simp
  then have w: "unat w = 7 * k" unfolding w_def by (intro unat_word_of_nat_id) simp
  have next_w: "w + 7 = word_of_nat (7 * Suc k)" by (simp add: w_def)
  have lt: "\<not> w \<ge> 64" using k w by (simp add: word_le_nat_alt)
  have "varint_loop s w (word_of_nat x) = (Some v, s') \<longleftrightarrow>
    (\<exists>bs. varint_form bs \<and> k + length bs \<le> 10 \<and> is_bytes s = bs @ is_bytes s' \<and> s' = is_advance (length bs) s \<and>
       v = word_of_nat (x + 2 ^ (7 * k) * varint_val bs))"
  proof (cases "is_bytes s")
    case Nil
    then have "varint_loop s w (word_of_nat x) = (None, pb_set_error s ''end-of-stream'')"
      using lt pb_readbyte_Nil [OF Suc.prems(1)] by (simp add: varint_loop.simps [of s w])
    with Nil show ?thesis by auto
  next
    case (Cons b bs)
    define x1 where "x1 = x + 2 ^ (7 * k) * (unat b mod 128)"
    note st = varint_step [OF Suc.prems(3), of b, folded x1_def]
    have e: "varint_loop s w (word_of_nat x) =
        (if b AND 0x80 \<noteq> 0 then varint_loop (is_advance 1 s) (word_of_nat (7 * Suc k)) (word_of_nat x1)
         else (Some (word_of_nat x1), is_advance 1 s))"
    proof -
      have "word_of_nat x OR push_bit (unat w) (ucast (b AND 0x7f)) = (word_of_nat x1 :: u64)" unfolding w using st(1) .
      then show ?thesis unfolding next_w [symmetric]
        using lt pb_readbyte_Cons [OF Suc.prems(1) Cons] by (simp add: varint_loop.simps [of s w] Let_def)
    qed
    show ?thesis
    proof (cases "unat b < 128")
      case True
      then have "varint_loop s w (word_of_nat x) = (Some (word_of_nat x1), is_advance 1 s)" using e byte_high_bit [of b] by simp
      then have L: "varint_loop s w (word_of_nat x) = (Some v, s') \<longleftrightarrow> v = word_of_nat x1 \<and> s' = is_advance 1 s" by auto
      have one: "ds = [b]" if "varint_form ds" "is_bytes s = ds @ zs" for ds zs using that Cons True by (cases ds) auto
      have v1: "x + 2 ^ (7 * k) * varint_val [b] = x1" by (simp add: x1_def)
      show ?thesis unfolding L
      proof
        assume "v = word_of_nat x1 \<and> s' = is_advance 1 s"
        moreover have "is_bytes s = [b] @ is_bytes (is_advance 1 s)" using Cons by simp
        ultimately show "\<exists>bs. varint_form bs \<and> k + length bs \<le> 10 \<and> is_bytes s = bs @ is_bytes s' \<and> s' = is_advance (length bs) s \<and>
            v = word_of_nat (x + 2 ^ (7 * k) * varint_val bs)"
          using True k by (intro exI [of _ "[b]"]) (simp add: v1 del: varint_val.simps of_nat_add of_nat_mult)
      next
        assume "\<exists>bs. varint_form bs \<and> k + length bs \<le> 10 \<and> is_bytes s = bs @ is_bytes s' \<and> s' = is_advance (length bs) s \<and>
            v = word_of_nat (x + 2 ^ (7 * k) * varint_val bs)"
        then obtain ds where ds: "varint_form ds" "is_bytes s = ds @ is_bytes s'" "s' = is_advance (length ds) s"
          "v = word_of_nat (x + 2 ^ (7 * k) * varint_val ds)" by blast
        show "v = word_of_nat x1 \<and> s' = is_advance 1 s" using ds(3,4) unfolding one [OF ds(1,2)] v1 by simp
      qed
    next
      case False
      have ok1: "is_ok (is_advance 1 s)" using Suc.prems(1) by simp
      have "varint_loop s w (word_of_nat x) = (Some v, s') \<longleftrightarrow>
        (\<exists>cs. varint_form cs \<and> Suc k + length cs \<le> 10 \<and> is_bytes (is_advance 1 s) = cs @ is_bytes s' \<and>
          s' = is_advance (length cs) (is_advance 1 s) \<and> v = word_of_nat (x1 + 2 ^ (7 * Suc k) * varint_val cs))"
        using Suc.hyps(1) [of "Suc k" "is_advance 1 s" x1, OF _ ok1 _ st(2)] Suc.hyps(2) e False k byte_high_bit [of b] by simp
      also have "\<dots> \<longleftrightarrow> (\<exists>bs. varint_form bs \<and> k + length bs \<le> 10 \<and> is_bytes s = bs @ is_bytes s' \<and> s' = is_advance (length bs) s \<and>
          v = word_of_nat (x + 2 ^ (7 * k) * varint_val bs))" (is "(\<exists>cs. ?P cs) \<longleftrightarrow> (\<exists>bs. ?Q bs)")
      proof
        have val: "x1 + 2 ^ (7 * Suc k) * varint_val cs = x + 2 ^ (7 * k) * varint_val (b # cs)" for cs
          by (simp add: x1_def power_add algebra_simps)
        show "\<exists>bs. ?Q bs" if "\<exists>cs. ?P cs"
        proof -
          from that obtain cs where cs: "varint_form cs" "Suc k + length cs \<le> 10" "is_bytes (is_advance 1 s) = cs @ is_bytes s'"
            "s' = is_advance (length cs) (is_advance 1 s)" and v: "v = word_of_nat (x1 + 2 ^ (7 * Suc k) * varint_val cs)" by blast
          have "varint_form (b # cs)" "k + length (b # cs) \<le> 10" "is_bytes s = (b # cs) @ is_bytes s'"
            "s' = is_advance (length (b # cs)) s" using cs Cons False by simp_all
          with v [unfolded val] show ?thesis by blast
        qed
        show "\<exists>cs. ?P cs" if "\<exists>bs. ?Q bs"
        proof -
          from that obtain ds where ds: "varint_form ds" "k + length ds \<le> 10" "is_bytes s = ds @ is_bytes s'" "s' = is_advance (length ds) s"
            and v: "v = word_of_nat (x + 2 ^ (7 * k) * varint_val ds)" by blast
          then obtain cs where d: "ds = b # cs" using Cons by (cases ds) auto
          have "varint_form cs" "Suc k + length cs \<le> 10" "is_bytes (is_advance 1 s) = cs @ is_bytes s'"
            "s' = is_advance (length cs) (is_advance 1 s)" using ds Cons False by (simp_all add: d)
          with v [unfolded d val [symmetric]] show ?thesis by blast
        qed
      qed
      finally show ?thesis .
    qed
  qed
  then show ?case unfolding w_def .
qed

lemma pb_decode_varint_exact:
  assumes "is_ok s"
  shows "pb_decode_varint s = (Some v, s') \<longleftrightarrow>
    (\<exists>bs. varint_form bs \<and> length bs \<le> 10 \<and> is_bytes s = bs @ is_bytes s' \<and> s' = is_advance (length bs) s \<and>
       v = word_of_nat (varint_val bs))"
  using varint_loop_exact [OF assms, of 0 0 v s'] by (simp add: pb_decode_varint_def)

section \<open>Writing varints\<close>

lemma varint_buffer_form:
  assumes "v \<noteq> 0"
  shows "varint_buffer v \<noteq> []" and
    "(varint_buffer v)[length (varint_buffer v) - 1 := varint_buffer v ! (length (varint_buffer v) - 1) AND 0x7f] = varint (unat v)"
proof -
  let ?P = "\<lambda>v. varint_buffer v \<noteq> [] \<and>
    (varint_buffer v)[length (varint_buffer v) - 1 := varint_buffer v ! (length (varint_buffer v) - 1) AND 0x7f] = varint (unat v)"
  have "?P v" using assms
  proof (induction v rule: varint_buffer.induct [case_names step])
    case (step v)
    let ?x = "ucast (v AND 0x7f) OR 0x80 :: byte" and ?r = "varint_buffer (drop_bit 7 v)"
    have e: "varint_buffer v = ?x # ?r" using step.prems by (simp add: varint_buffer.simps [of v])
    have "ucast (v AND 0x7f) = byte_of (unat v mod 128)"
      using unat_ucast_mask [of 7 v, where 'b = 8] by (simp add: mask_eq_exp_minus_1 byte_eq_iff mod_less)
    then have x: "?x = byte_of (128 + unat v mod 128)" using byte_or_0x80 [of "unat v mod 128"] by simp
    show ?case
    proof (cases "unat v < 128")
      case True
      then have "drop_bit 7 v = 0" by (simp add: drop_bit_eq_0_iff)
      then have "?r = []" by (simp add: varint_buffer.simps [of 0])
      moreover have "?x AND 0x7f = byte_of (unat v)" using True by (simp add: x byte_eq_iff)
      ultimately show ?thesis unfolding e using True by (simp add: varint.simps [of "unat v"])
    next
      case False
      then have "drop_bit 7 v \<noteq> 0" by (simp add: drop_bit_eq_0_iff)
      with step have IH: "?P (drop_bit 7 v)" by blast
      then obtain n where n: "length ?r = Suc n" by (cases ?r) auto
      have "(?x # ?r)[Suc n := ?r ! n AND 0x7f] = ?x # varint (unat v div 128)"
        using IH n by (simp add: unat_drop_bit)
      with e n x False show ?thesis by (simp add: varint.simps [of "unat v"])
    qed
  qed
  then show "varint_buffer v \<noteq> []" and
    "(varint_buffer v)[length (varint_buffer v) - 1 := varint_buffer v ! (length (varint_buffer v) - 1) AND 0x7f] = varint (unat v)"
    by simp_all
qed

lemma pb_encode_varint_writes: "pb_encode_varint s v = pb_write s (varint (unat v))"
proof (cases "unat v < 128")
  case True
  then have "ucast v = byte_of (unat v)" by (simp add: byte_of_def)
  moreover have "v \<le> 0x7f" using True by (simp add: word_le_nat_alt)
  ultimately show ?thesis using True by (simp add: pb_encode_varint_def varint.simps [of "unat v"])
next
  case False
  then have "\<not> v \<le> 0x7f" "v \<noteq> 0" by (auto simp: word_le_nat_alt)
  with varint_buffer_form(2) [of v] show ?thesis by (simp add: pb_encode_varint_def Let_def)
qed

text \<open>The buffer of ten bytes is large enough.\<close>

lemma length_varint_u64: "length (varint (unat (v :: u64))) \<le> 10"
proof -
  have "unat v < 128 ^ Suc 9" using unat_u64_less [of v] by simp
  from length_varint [OF this] show ?thesis by simp
qed

lemma varint_buffer_fits: "length (varint_buffer v) \<le> 10"
proof (cases "v = 0")
  case True
  then show ?thesis by (simp add: varint_buffer.simps [of 0])
next
  case False
  from varint_buffer_form(2) [OF this] have "length (varint_buffer v) = length (varint (unat v))"
    by (metis length_list_update)
  with length_varint_u64 [of v] show ?thesis by simp
qed

section \<open>The 32-bit reader\<close>

lemma last_varint: "unat (last (varint m)) * 128 ^ (length (varint m) - 1) \<le> m"
proof (induction m rule: varint.induct)
  case (1 m)
  show ?case
  proof (cases "m < 128")
    case True
    then show ?thesis by (simp add: varint.simps [of m])
  next
    case False
    let ?r = "varint (m div 128)"
    obtain l where l: "length ?r = Suc l" using varint_not_Nil by (cases ?r) auto
    have v: "varint m = byte_of (128 + m mod 128) # ?r" using False by (simp add: varint.simps [of m])
    have "unat (last ?r) * 128 ^ l \<le> m div 128" using 1 False l by simp
    then have "unat (last ?r) * (128 * 128 ^ l) \<le> m" by linarith
    then show ?thesis unfolding v by (simp add: l)
  qed
qed

lemma and_0x70: "unat (b :: byte) < 16 \<Longrightarrow> b AND 0x70 = 0"
proof -
  assume "unat b < 16"
  then have "b = b AND mask 4" by (simp add: byte_eq_iff unat_and_mask)
  then have "b AND 0x70 = b AND (mask 4 AND 0x70)" by (metis and.assoc)
  then show ?thesis by (simp add: mask_eq_exp_minus_1)
qed

lemma varint32_loop_reads:
  assumes "is_ok s" and "k \<le> 4" and "x < 2 ^ (7 * k)" and "x + 2 ^ (7 * k) * m < 2 ^ 32" and "is_bytes s = varint m @ rest"
  shows "varint32_loop s (word_of_nat (7 * k)) (word_of_nat x) =
    (Some (last (varint m), word_of_nat (7 * (k + length (varint m))), word_of_nat (x + 2 ^ (7 * k) * m)), is_advance (length (varint m)) s)"
  using assms
proof (induction m arbitrary: s k x rule: varint.induct)
  case (1 m)
  define w where "w = (word_of_nat (7 * k) :: byte)"
  have w: "unat w = 7 * k" unfolding w_def using 1 by (intro unat_word_of_nat_id) simp
  have next_w: "w + 7 = word_of_nat (7 * Suc k)" by (simp add: w_def)
  have lt: "\<not> w \<ge> 32" using "1.prems"(2) w by (simp add: word_le_nat_alt)
  obtain b bs where b: "varint m = b # bs" by (cases "varint m") auto
  have ub: "unat b mod 128 = m mod 128 \<and> (unat b < 128 \<longleftrightarrow> m < 128)"
    using b by (auto simp: varint.simps [of m] split: if_splits)
  define x1 where "x1 = x + 2 ^ (7 * k) * (unat b mod 128)"
  note st = varint_step [OF "1.prems"(3), of b, folded x1_def]
  have B: "is_bytes s = b # bs @ rest" using "1.prems"(5) b by simp
  have e: "varint32_loop s w (word_of_nat x) =
      (if b AND 0x80 \<noteq> 0 then varint32_loop (is_advance 1 s) (word_of_nat (7 * Suc k)) (word_of_nat x1)
       else (Some (b, word_of_nat (7 * Suc k), word_of_nat x1), is_advance 1 s))"
  proof -
    have "word_of_nat x OR push_bit (unat w) (ucast (b AND 0x7f)) = (word_of_nat x1 :: u32)" unfolding w using st(1) .
    then show ?thesis unfolding next_w [symmetric]
      using lt pb_readbyte_Cons [OF "1.prems"(1) B] by (simp add: varint32_loop.simps [of s w] Let_def)
  qed
  show ?case unfolding w_def [symmetric]
  proof (cases "m < 128")
    case True
    then have v: "varint m = [b]" using b by (simp add: varint.simps [of m])
    have "x1 = x + 2 ^ (7 * k) * m" using ub True by (simp add: x1_def)
    moreover have "b AND 0x80 = 0" using ub True byte_high_bit [of b] by blast
    ultimately show "varint32_loop s w (word_of_nat x) =
      (Some (last (varint m), word_of_nat (7 * (k + length (varint m))), word_of_nat (x + 2 ^ (7 * k) * m)), is_advance (length (varint m)) s)"
      unfolding v using e by (simp del: of_nat_add of_nat_mult)
  next
    case False
    let ?m = "m div 128"
    have bs: "bs = varint ?m" using b False by (simp add: varint.simps [of m])
    have m: "m = m mod 128 + 128 * ?m" by simp
    have val: "x1 + 2 ^ (7 * Suc k) * ?m = x + 2 ^ (7 * k) * m"
    proof -
      have "x1 + 2 ^ (7 * Suc k) * ?m = x + 2 ^ (7 * k) * (unat b mod 128 + 128 * ?m)"
        by (simp add: x1_def power_add distrib_left)
      also have "unat b mod 128 + 128 * ?m = m" using ub by simp
      finally show ?thesis .
    qed
    have "2 ^ (7 * Suc k) \<le> 2 ^ (7 * k) * m" using False by (simp add: power_add)
    then have "2 ^ (7 * Suc k) < (2::nat) ^ 32" using "1.prems"(4) by linarith
    then have "7 * Suc k < 32" by (simp only: power_strict_increasing_iff)
    then have k: "Suc k \<le> 4" by simp
    have "b AND 0x80 \<noteq> 0" using ub False byte_high_bit [of b] by blast
    moreover have "varint32_loop (is_advance 1 s) (word_of_nat (7 * Suc k)) (word_of_nat x1) =
      (Some (last (varint ?m), word_of_nat (7 * (Suc k + length (varint ?m))), word_of_nat (x1 + 2 ^ (7 * Suc k) * ?m)),
       is_advance (length (varint ?m)) (is_advance 1 s))"
      using False k st(2) "1.prems"(1,4) B bs val by (intro "1.IH") simp_all
    ultimately show "varint32_loop s w (word_of_nat x) =
      (Some (last (varint m), word_of_nat (7 * (k + length (varint m))), word_of_nat (x + 2 ^ (7 * k) * m)), is_advance (length (varint m)) s)"
      unfolding e val b bs by (simp del: of_nat_add of_nat_mult)
  qed
qed

lemma pb_decode_varint32_eof_reads:
  assumes "is_ok s" and "n < 2 ^ 32" and "is_bytes s = varint n @ rest"
  shows "pb_decode_varint32_eof s = (Some (word_of_nat n), False, is_advance (length (varint n)) s)"
proof -
  obtain b bs where b: "varint n = b # bs" by (cases "varint n") auto
  have ub: "unat b mod 128 = n mod 128 \<and> (unat b < 128 \<longleftrightarrow> n < 128)"
    using b by (auto simp: varint.simps [of n] split: if_splits)
  have B: "is_bytes s = b # bs @ rest" using assms(3) b by simp
  note r = pb_readbyte_Cons [OF assms(1) B]
  show ?thesis
  proof (cases "n < 128")
    case True
    then have "b AND 0x80 = 0" "bs = []" "unat b = n" using ub byte_high_bit [of b] b
      by (auto simp: varint.simps [of n])
    then show ?thesis using r b by (simp add: pb_decode_varint32_eof_def ucast_byte_nat del: word_of_nat_unat)
  next
    case False
    let ?m = "n div 128"
    have bs: "bs = varint ?m" using b False by (simp add: varint.simps [of n])
    have val: "n mod 128 + 2 ^ (7 * 1) * ?m = n" by simp
    have "(ucast (b AND 0x7f) :: u32) = word_of_nat (n mod 128)" using ub unfolding ucast_byte_nat by simp
    moreover have "varint32_loop (is_advance 1 s) (word_of_nat (7 * 1)) (word_of_nat (n mod 128)) =
      (Some (last (varint ?m), word_of_nat (7 * (1 + length (varint ?m))), word_of_nat (n mod 128 + 2 ^ (7 * 1) * ?m)),
       is_advance (length (varint ?m)) (is_advance 1 s))"
      using assms(1,2) B bs by (intro varint32_loop_reads) simp_all
    ultimately have l: "varint32_loop (is_advance 1 s) 7 (ucast (b AND 0x7f)) =
      (Some (last (varint ?m), word_of_nat (7 * (1 + length (varint ?m))), word_of_nat n), is_advance (length (varint n)) s)"
      unfolding val b bs by simp
    have "\<not> (word_of_nat (7 * (1 + length (varint ?m))) = (35 :: byte) \<and> last (varint ?m) AND 0x70 \<noteq> 0)"
    proof
      assume a: "word_of_nat (7 * (1 + length (varint ?m))) = (35 :: byte) \<and> last (varint ?m) AND 0x70 \<noteq> 0"
      have "?m < 128 ^ Suc 3" using assms(2) by simp
      from length_varint [OF this] have len: "length (varint ?m) \<le> 4" by simp
      then have "unat (word_of_nat (7 * (1 + length (varint ?m))) :: byte) = 7 * (1 + length (varint ?m))"
        by (intro unat_word_of_nat_id) simp
      with a have "length (varint ?m) = 4" by simp
      with last_varint [of ?m] have "unat (last (varint ?m)) * 128 ^ 3 \<le> ?m" by simp
      moreover have "?m < 2 ^ 25" using assms(2) by simp
      ultimately have "unat (last (varint ?m)) < 16" by simp
      from and_0x70 [OF this] a show False by blast
    qed
    moreover have "b AND 0x80 \<noteq> 0" using ub False byte_high_bit [of b] by blast
    ultimately show ?thesis using r l by (simp add: pb_decode_varint32_eof_def del: of_nat_add of_nat_mult)
  qed
qed

lemma pb_decode_varint32_reads:
  assumes "is_ok s" and "n < 2 ^ 32" and "is_bytes s = varint n @ rest"
  shows "pb_decode_varint32 s = (Some (word_of_nat n), is_advance (length (varint n)) s)"
  using pb_decode_varint32_eof_reads [OF assms] by (simp add: pb_decode_varint32_def)

end
