(* ===== verification/Pb_Codec.thy ===== *)
theory Pb_Codec
  imports Pb_Wire
begin

text \<open>
  The scalar codecs of \<open>nanopb\<close> as instances of one contract, a reader of \<open>pb_decode.c\<close> with the writer of
  \<open>pb_encode.c\<close> for the same values; tags, strings and the skipping of fields; and two inputs on which the
  32-bit varint reader accepts a value that does not fit.
\<close>

section \<open>The contract\<close>

fun write_all :: "(pb_ostream \<Rightarrow> 'a \<Rightarrow> bool \<times> pb_ostream) \<Rightarrow> pb_ostream \<Rightarrow> 'a list \<Rightarrow> bool \<times> pb_ostream" where
  "write_all wr s [] = (True, s)"
| "write_all wr s (a # as) = (case wr s a of (False, s1) \<Rightarrow> (False, s1) | (True, s1) \<Rightarrow> write_all wr s1 as)"

definition written :: "pb_ostream \<Rightarrow> pb_ostream \<Rightarrow> byte list" where
  "written s s' = drop (os_pos s) (take (os_pos s') (os_mem s'))"

text \<open>What was written is what is read back, to the last byte.\<close>

definition round_trips :: "(pb_ostream \<Rightarrow> 'a \<Rightarrow> bool \<times> pb_ostream) \<Rightarrow> (pb_istream \<Rightarrow> 'a option \<times> pb_istream) \<Rightarrow>
    pb_ostream \<Rightarrow> pb_ostream \<Rightarrow> 'a list \<Rightarrow> bool" where
  "round_trips wr get s s' as \<longleftrightarrow> (\<exists>i. read_many get (length as) (pb_istream_from_buffer (written s s') (length (written s s'))) =
     (Some as, i) \<and> is_bytes i = [])"

locale pb_codec = prefix_decoder "\<lambda>b. pb_istream_from_buffer b (length b)" is_bytes is_ok get enc
  for get :: "pb_istream \<Rightarrow> 'a option \<times> pb_istream" and enc :: "'a \<Rightarrow> byte list \<Rightarrow> bool" +
  fixes wr :: "pb_ostream \<Rightarrow> 'a \<Rightarrow> bool \<times> pb_ostream"
    and put :: "'a \<Rightarrow> byte list"
  assumes wr_emits: "os_ok s \<Longrightarrow> emits (put a) s (fst (wr s a)) (snd (wr s a))"
    and put_enc: "enc a (put a)"
begin

lemma write_all_emits:
  assumes "os_ok s"
  shows "emits (concat (map put as)) s (fst (write_all wr s as)) (snd (write_all wr s as))"
  using assms
proof (induction as arbitrary: s)
  case Nil
  then show ?case by (auto simp: emits_def os_ok_def)
next
  case (Cons a as)
  obtain ok s1 where w: "wr s a = (ok, s1)" by force
  with wr_emits [OF Cons.prems, of a] have e: "emits (put a) s ok s1" by simp
  show ?case
  proof (cases ok)
    case True
    from e have "os_ok s1" by (simp add: emits_def)
    from emits_then [OF _ Cons.IH [OF this]] e True w show ?thesis by simp
  next
    case False
    with emits_fail [OF _ Cons.prems] e w show ?thesis by simp
  qed
qed

lemma write_read:
  assumes "os_ok s" and "\<not> os_sizing s" and "write_all wr s as = (True, s')"
  shows "round_trips wr get s s' as"
proof -
  have e: "emits (concat (map put as)) s True s'" using write_all_emits [OF assms(1), of as] assms(3) by simp
  then have t: "take (os_pos s') (os_mem s') = take (os_pos s) (os_mem s) @ concat (map put as)"
    by (rule emitsD(7) [OF _ assms(2)])
  have "length (take (os_pos s) (os_mem s)) = os_pos s" using assms(1,2) by (auto simp: os_ok_def)
  with t have w: "written s s' = concat (map put as)" unfolding written_def t by (metis append_eq_conv_conj)
  have "list_all2 enc as (map put as)" using put_enc by (simp add: list_all2_conv_all_nth)
  from read_many_complete [OF ok_mk this, of "concat (map put as)" "[]"] bytes_mk [of "concat (map put as)"]
  show ?thesis by (auto simp: round_trips_def w)
qed

end

section \<open>Varints and zigzag\<close>

definition varint_enc :: "u64 \<Rightarrow> byte list \<Rightarrow> bool" where
  "varint_enc v bs \<longleftrightarrow> varint_form bs \<and> length bs \<le> 10 \<and> v = word_of_nat (varint_val bs)"

lemma pb_decode_varint_sound:
  "is_ok s \<Longrightarrow> pb_decode_varint s = (Some v, s') \<Longrightarrow> is_ok s' \<and> (\<exists>bs. varint_enc v bs \<and> is_bytes s = bs @ is_bytes s')"
  unfolding pb_decode_varint_exact varint_enc_def using advance_laws(2) by blast

lemma pb_decode_varint_complete:
  assumes "is_ok s" and "varint_enc v bs" and "is_bytes s = bs @ rest"
  shows "pb_decode_varint s = (Some v, is_advance (length bs) s) \<and> is_bytes (is_advance (length bs) s) = rest"
proof -
  have r: "is_bytes (is_advance (length bs) s) = rest" using assms(3) by simp
  then show ?thesis using assms unfolding pb_decode_varint_exact [OF assms(1)] varint_enc_def by blast
qed

lemma varint_enc_varint: "varint_enc v (varint (unat v))"
  using length_varint_u64 [of v] varint_form_varint [of "unat v"] by (simp add: varint_enc_def)

interpretation pb_varint: pb_codec pb_decode_varint varint_enc pb_encode_varint "\<lambda>v. varint (unat v)"
proof (unfold_locales, goal_cases)
  case (3 s a s')
  then show ?case using pb_decode_varint_sound by blast
next
  case (4 s a bs rest)
  then show ?case using pb_decode_varint_complete [OF 4] by auto
next
  case (5 s a)
  have "length (varint (unat a)) < 2 ^ 64" using length_varint_u64 [of a] by simp
  with 5 show ?case unfolding pb_encode_varint_writes by (rule pb_write_emits)
next
  case (6 a)
  show ?case by (rule varint_enc_varint)
qed simp_all

definition zigzag :: "u64 \<Rightarrow> u64" where
  "zigzag v = (if v <s 0 then NOT (push_bit 1 v) else push_bit 1 v)"

definition unzigzag :: "u64 \<Rightarrow> u64" where
  "unzigzag v = (if v AND 1 \<noteq> 0 then NOT (drop_bit 1 v) else drop_bit 1 v)"

lemma and_1_iff: "(v :: u64) AND 1 \<noteq> 0 \<longleftrightarrow> bit v 0"
  using and_exp_eq_0_iff_not_bit [of v 0] by simp

lemma sless_0_iff: "(v :: u64) <s 0 \<longleftrightarrow> bit v 63"
  using bit_last_iff [of v] by (simp add: word_sless_alt)

lemma unzigzag_zigzag: "unzigzag (zigzag v) = v"
proof (rule bit_word_eqI)
  fix n
  assume n: "n < LENGTH(64)"
  show "bit (unzigzag (zigzag v)) n \<longleftrightarrow> bit v n"
  proof (cases "bit v 63")
    case True
    have "bit (zigzag v) 0" using True by (simp add: zigzag_def sless_0_iff bit_simps del: push_bit_Suc)
    with True n show ?thesis
      by (cases "n = 63") (auto simp: unzigzag_def zigzag_def sless_0_iff and_1_iff bit_simps simp del: push_bit_Suc)
  next
    case False
    have "\<not> bit (zigzag v) 0" using False by (simp add: zigzag_def sless_0_iff bit_simps del: push_bit_Suc)
    with False n show ?thesis
      by (cases "n = 63") (auto simp: unzigzag_def zigzag_def sless_0_iff and_1_iff bit_simps simp del: push_bit_Suc)
  qed
qed

lemma pb_decode_svarint_eq:
  "pb_decode_svarint s = (case pb_decode_varint s of (r, s1) \<Rightarrow> (map_option unzigzag r, s1))"
  by (auto simp: pb_decode_svarint_def unzigzag_def split: prod.splits option.splits)

definition svarint_enc :: "u64 \<Rightarrow> byte list \<Rightarrow> bool" where
  "svarint_enc v bs \<longleftrightarrow> (\<exists>z. varint_enc z bs \<and> v = unzigzag z)"

interpretation pb_svarint: pb_codec pb_decode_svarint svarint_enc pb_encode_svarint "\<lambda>v. varint (unat (zigzag v))"
proof (unfold_locales, goal_cases)
  case (3 s a s')
  then obtain z where "pb_decode_varint s = (Some z, s')" "a = unzigzag z"
    by (auto simp: pb_decode_svarint_eq split: prod.splits)
  with pb_varint.get_sound [OF 3(1)] show ?case unfolding svarint_enc_def by blast
next
  case (4 s a bs rest)
  then obtain z where z: "varint_enc z bs" "a = unzigzag z" by (auto simp: svarint_enc_def)
  from pb_varint.get_complete [OF 4(1) z(1) 4(3)] z(2) show ?case by (auto simp: pb_decode_svarint_eq)
next
  case (5 s a)
  have "pb_encode_svarint s a = pb_encode_varint s (zigzag a)" by (simp add: pb_encode_svarint_def zigzag_def)
  with pb_varint.wr_emits [OF 5, of "zigzag a"] show ?case by simp
next
  case (6 a)
  show ?case unfolding svarint_enc_def using varint_enc_varint [of "zigzag a"] unzigzag_zigzag [of a] by metis
qed simp_all

section \<open>Fixed width integers\<close>

lemma le_bytes_value: "length bs = n \<Longrightarrow> le_bytes n (be_val (rev bs)) = bs"
  using be_bytes_be_val [of "rev bs"] by (simp add: le_bytes_def)

text \<open>The bytes of a value joined from the low end.\<close>

fun le_join :: "byte list \<Rightarrow> 'a::len word" where
  "le_join [] = 0"
| "le_join (b # bs) = ucast b OR push_bit 8 (le_join bs)"

lemma le_join_value: "le_join bs = (word_of_nat (be_val (rev bs)) :: 'a::len word)"
proof (induction bs)
  case (Cons b bs)
  have "(ucast b :: 'a word) OR push_bit 8 (word_of_nat (be_val (rev bs))) = word_of_nat (unat b + 2 ^ 8 * be_val (rev bs))"
    unfolding ucast_byte_nat by (rule or_shift) simp
  with Cons show ?case by (simp add: be_val_append algebra_simps)
qed simp

lemma decode_fixed_join:
  "push_bit 0 (ucast a) OR push_bit 8 (ucast b) OR push_bit 16 (ucast c) OR push_bit 24 (ucast (d :: byte)) =
     (le_join [a, b, c, d] :: u32)"
  by (simp add: push_bit_or)

lemma pb_decode_fixed32_join:
  "pb_decode_fixed32 s = (case pb_read s 4 of (None, s1) \<Rightarrow> (None, s1) | (Some bs, s1) \<Rightarrow> (Some (le_join (take 4 bs)), s1))"
  if "is_ok s"
proof (cases "pb_read s 4")
  case (Pair r s1)
  show ?thesis
  proof (cases r)
    case (Some bs)
    with Pair pb_read_Some [OF that, of 4] have "length bs = 4" by auto
    then obtain a b c d where "bs = [a, b, c, d]" by (auto simp: length_Suc_conv numeral_eq_Suc)
    with Pair Some show ?thesis by (simp add: pb_decode_fixed32_def push_bit_or)
  qed (simp add: Pair pb_decode_fixed32_def)
qed

lemma pb_decode_fixed64_join:
  "pb_decode_fixed64 s = (case pb_read s 8 of (None, s1) \<Rightarrow> (None, s1) | (Some bs, s1) \<Rightarrow> (Some (le_join (take 8 bs)), s1))"
  if "is_ok s"
proof (cases "pb_read s 8")
  case (Pair r s1)
  show ?thesis
  proof (cases r)
    case (Some bs)
    with Pair pb_read_Some [OF that, of 8] have "length bs = 8" by auto
    then obtain a b c d e f g h where "bs = [a, b, c, d, e, f, g, h]" by (auto simp: length_Suc_conv numeral_eq_Suc)
    with Pair Some show ?thesis by (simp add: pb_decode_fixed64_def push_bit_or)
  qed (simp add: Pair pb_decode_fixed64_def)
qed

lemma encode_byte: "(ucast (drop_bit k v AND 0xff) :: byte) = byte_of (unat (v :: 'a::len word) div 2 ^ k)"
  using unat_ucast_mask [of 8 "drop_bit k v", where 'b = 8] by (simp add: mask_eq_exp_minus_1 byte_eq_iff unat_drop_bit)

lemma encode_low_byte: "(ucast (v AND 0xff) :: byte) = byte_of (unat (v :: 'a::len word))"
  using encode_byte [of 0 v] by simp

lemma le_bytes_4: "le_bytes 4 n = [byte_of n, byte_of (n div 2 ^ 8), byte_of (n div 2 ^ 16), byte_of (n div 2 ^ 24)]"
  by (simp add: le_bytes_def bytes_simps div_mult2_eq [symmetric])

lemma le_bytes_8: "le_bytes 8 n = [byte_of n, byte_of (n div 2 ^ 8), byte_of (n div 2 ^ 16), byte_of (n div 2 ^ 24),
    byte_of (n div 2 ^ 32), byte_of (n div 2 ^ 40), byte_of (n div 2 ^ 48), byte_of (n div 2 ^ 56)]"
  by (simp add: le_bytes_def bytes_simps div_mult2_eq [symmetric])

lemma pb_encode_fixed32_writes: "pb_encode_fixed32 s v = pb_write s (le_bytes 4 (unat v))"
  unfolding pb_encode_fixed32_def encode_byte unfolding encode_low_byte le_bytes_4 ..

lemma pb_encode_fixed64_writes: "pb_encode_fixed64 s v = pb_write s (le_bytes 8 (unat v))"
  unfolding pb_encode_fixed64_def encode_byte unfolding encode_low_byte le_bytes_8 ..

text \<open>Reading a fixed number of bytes as a little-endian value.\<close>

lemma fixed_sound:
  assumes "is_ok s" and "pb_read s n = (Some bs, s')" and "a = (le_join (take n bs) :: 'a::len word)" and "256 ^ n = (2 :: nat) ^ LENGTH('a)"
  shows "is_ok s' \<and> is_bytes s = le_bytes n (unat a) @ is_bytes s'"
proof -
  have r: "is_bytes s = bs @ is_bytes s'" "is_ok s'" and n: "length bs = n" using pb_read_Some [OF assms(1,2)] by blast+
  then have "be_val (rev bs) < 2 ^ LENGTH('a)" unfolding assms(4) [symmetric] using be_val_less [of "rev bs"] by simp
  then have "unat (word_of_nat (be_val (rev bs)) :: 'a word) = be_val (rev bs)" by (rule unat_word_of_nat_id)
  then have "unat a = be_val (rev bs)" unfolding assms(3) le_join_value using n by simp
  then have "le_bytes n (unat a) = bs" using le_bytes_value [OF n] by simp
  with r show ?thesis by simp
qed

lemma fixed_complete:
  assumes "is_ok s" and "is_bytes s = le_bytes n (unat a) @ rest" and "256 ^ n = (2 :: nat) ^ LENGTH('a)"
  shows "pb_read s n = (Some (le_bytes n (unat (a :: 'a::len word))), is_advance n s)" and "le_join (take n (le_bytes n (unat a))) = a"
proof -
  show "pb_read s n = (Some (le_bytes n (unat a)), is_advance n s)" using assms(1,2) by (simp add: pb_read_iff)
  have "unat a < 256 ^ n" unfolding assms(3) by (rule unsigned_less)
  then show "le_join (take n (le_bytes n (unat a))) = a" by (simp add: le_join_value le_val_le_bytes)
qed

interpretation pb_fixed32: pb_codec pb_decode_fixed32 "\<lambda>a bs. bs = le_bytes 4 (unat a)" pb_encode_fixed32 "\<lambda>a. le_bytes 4 (unat a)"
proof (unfold_locales, goal_cases)
  case (3 s a s')
  then obtain bs where "pb_read s 4 = (Some bs, s')" "a = le_join (take 4 bs)"
    by (auto simp: pb_decode_fixed32_join split: prod.splits option.splits)
  from fixed_sound [OF 3(1) this] show ?case by auto
next
  case (4 s a bs rest)
  then have "is_bytes s = le_bytes 4 (unat a) @ rest" by simp
  from fixed_complete [OF 4(1) this] 4 show ?case by (auto simp: pb_decode_fixed32_join)
next
  case (5 s a)
  then show ?case unfolding pb_encode_fixed32_writes by (intro pb_write_emits) simp_all
qed simp_all

interpretation pb_fixed64: pb_codec pb_decode_fixed64 "\<lambda>a bs. bs = le_bytes 8 (unat a)" pb_encode_fixed64 "\<lambda>a. le_bytes 8 (unat a)"
proof (unfold_locales, goal_cases)
  case (3 s a s')
  then obtain bs where "pb_read s 8 = (Some bs, s')" "a = le_join (take 8 bs)"
    by (auto simp: pb_decode_fixed64_join split: prod.splits option.splits)
  from fixed_sound [OF 3(1) this] show ?case by auto
next
  case (4 s a bs rest)
  then have "is_bytes s = le_bytes 8 (unat a) @ rest" by simp
  from fixed_complete [OF 4(1) this] 4 show ?case by (auto simp: pb_decode_fixed64_join)
next
  case (5 s a)
  then show ?case unfolding pb_encode_fixed64_writes by (intro pb_write_emits) simp_all
qed simp_all

section \<open>Tags and strings\<close>

lemma tag_value:
  assumes "wt < 8"
  shows "unat (push_bit 3 (ucast (num :: u32)) OR word_of_nat wt :: u64) = 8 * unat num + wt"
proof -
  have "(ucast num :: u64) = word_of_nat (unat num)" by simp
  moreover have "(unat (ucast num :: u64) * 2 ^ 3 + wt) mod 2 ^ LENGTH(64) = 8 * unat num + wt"
    using unat_u32_less [of num] assms by (simp add: unat_ucast_up)
  ultimately show ?thesis using unat_shift_in [of wt 3 "ucast num :: u64"] assms by simp
qed

lemma pb_encode_tag_writes: "wt < 8 \<Longrightarrow> pb_encode_tag s wt num = pb_write s (varint (8 * unat num + wt))"
  unfolding pb_encode_tag_def pb_encode_varint_writes by (simp only: tag_value)

lemma pb_decode_tag_reads:
  assumes "is_ok s" and "wt < 8" and "0 < unat num" and "unat num < 2 ^ 29" and "is_bytes s = varint (8 * unat num + wt) @ rest"
  shows "pb_decode_tag s = (Some (wt, num), False, is_advance (length (varint (8 * unat num + wt))) s)"
proof -
  let ?n = "8 * unat num + wt"
  have n: "?n < 2 ^ 32" using assms(2,4) by simp
  have u: "unat (word_of_nat ?n :: u32) = ?n" using n by (intro unat_word_of_nat_id) simp
  have nz: "(word_of_nat ?n :: u32) \<noteq> 0" using u assms(3) by (metis add_is_0 less_numeral_extra(3) mult_is_0 unat_0 zero_neq_numeral)
  have w: "unat ((word_of_nat ?n :: u32) AND 7) = wt"
    using unat_and_mask [of "word_of_nat ?n :: u32" 3] u assms(2) by (simp add: mask_eq_exp_minus_1)
  have t: "drop_bit 3 (word_of_nat ?n :: u32) = num"
    using unat_drop_bit [of 3 "word_of_nat ?n :: u32"] u assms(2) by (intro word_unat_eq_iff [THEN iffD2]) simp
  show ?thesis using pb_decode_varint32_eof_reads [OF assms(1) n assms(5)] nz w t
    by (simp add: pb_decode_tag_def del: of_nat_add of_nat_mult)
qed

definition pb_string :: "byte list \<Rightarrow> byte list" where
  "pb_string bs = varint (length bs) @ bs"

lemma pb_encode_string_emits:
  assumes "os_ok s" and "length bs < 2 ^ 63"
  shows "emits (pb_string bs) s (fst (pb_encode_string s bs)) (snd (pb_encode_string s bs))"
proof -
  have u: "unat (word_of_nat (length bs) :: u64) = length bs" using assms(2) by (intro unat_word_of_nat_id) simp
  obtain ok s1 where w: "pb_encode_varint s (word_of_nat (length bs)) = (ok, s1)" by force
  have e: "emits (varint (length bs)) s ok s1" using pb_varint.wr_emits [OF assms(1), of "word_of_nat (length bs)"] w u by simp
  show ?thesis
  proof (cases ok)
    case True
    have "os_ok s1" using e by (simp add: emits_def)
    from pb_write_emits [OF this] assms(2) have "emits bs s1 (fst (pb_write s1 bs)) (snd (pb_write s1 bs))" by simp
    from emits_then [OF _ this] e True w show ?thesis by (simp add: pb_encode_string_def pb_string_def)
  next
    case False
    with emits_fail [OF _ assms(1), of "varint (length bs)" s1 bs] e w show ?thesis by (simp add: pb_encode_string_def pb_string_def)
  qed
qed

lemma make_substream_reads:
  assumes "is_ok s" and "length bs < 2 ^ 32" and "is_bytes s = pb_string bs @ rest"
  shows "\<exists>sub s'. pb_make_string_substream s = (Some sub, s') \<and> is_ok sub \<and> is_bytes sub = bs \<and> is_errmsg sub = is_errmsg s \<and>
    (\<forall>sub'. bytes_left sub' = 0 \<and> is_state sub' = drop (length bs) (is_state sub) \<longrightarrow>
       (\<exists>s''. pb_close_string_substream s' sub' = (True, s'') \<and> is_ok s'' \<and> is_bytes s'' = rest))"
proof -
  let ?l = "length (varint (length bs))"
  have B: "is_bytes s = varint (length bs) @ (bs @ rest)" using assms(3) by (simp add: pb_string_def)
  note v = pb_decode_varint32_reads [OF assms(1,2) B]
  have u: "unat (word_of_nat (length bs) :: u32) = length bs" using assms(2) by (intro unat_word_of_nat_id) simp
  define s1 where "s1 = is_advance ?l s"
  have s1: "is_ok s1" "is_bytes s1 = bs @ rest" "is_errmsg s1 = is_errmsg s" using assms(1) B by (simp_all add: s1_def)
  then have b: "bytes_left s1 = length bs + length rest" using length_is_bytes [of s1] by simp
  have take1: "take (bytes_left s1) (is_state s1) = bs @ rest" using s1(2) by (simp add: is_bytes_def)
  have len: "length bs + length rest \<le> length (is_state s1)" using s1(1) b by (simp add: is_ok_def)
  define sub where "sub = s1\<lparr>bytes_left := length bs\<rparr>"
  define s' where "s' = s1\<lparr>bytes_left := length rest\<rparr>"
  have m: "pb_make_string_substream s = (Some sub, s')"
    using v u b by (simp add: pb_make_string_substream_def s1_def sub_def s'_def)
  have "take (length bs) (take (bytes_left s1) (is_state s1)) = bs" unfolding take1 by simp
  then have sb: "is_ok sub \<and> is_bytes sub = bs" using b len by (simp add: sub_def is_ok_def is_bytes_def min_def)
  have "drop (length bs) (take (bytes_left s1) (is_state s1)) = rest" unfolding take1 by simp
  then have "take (length rest) (drop (length bs) (is_state s1)) = rest" unfolding b by (simp add: drop_take)
  then have "\<exists>s''. pb_close_string_substream s' sub' = (True, s'') \<and> is_ok s'' \<and> is_bytes s'' = rest"
    if "bytes_left sub' = 0 \<and> is_state sub' = drop (length bs) (is_state sub)" for sub'
    using that len by (simp add: pb_close_string_substream_def s'_def sub_def is_ok_def is_bytes_def)
  with m sb s1(3) show ?thesis by (auto simp: sub_def)
qed

section \<open>Properties\<close>

text \<open>
  C39 (roundtrip).  A sequence of values that \<open>pb_encode_varint\<close>, \<open>pb_encode_svarint\<close>, \<open>pb_encode_fixed32\<close> or
  \<open>pb_encode_fixed64\<close> wrote to a memory stream is read back, value for value and to the last byte, by
  \<open>pb_decode_varint\<close>, \<open>pb_decode_svarint\<close>, \<open>pb_decode_fixed32\<close> and \<open>pb_decode_fixed64\<close>.
\<close>

theorem pb_scalars_round_trip:
  assumes "os_ok s" and "\<not> os_sizing s"
  shows "(write_all pb_encode_varint s us = (True, s1) \<longrightarrow> round_trips pb_encode_varint pb_decode_varint s s1 us) \<and>
    (write_all pb_encode_svarint s vs = (True, s2) \<longrightarrow> round_trips pb_encode_svarint pb_decode_svarint s s2 vs) \<and>
    (write_all pb_encode_fixed32 s ws = (True, s3) \<longrightarrow> round_trips pb_encode_fixed32 pb_decode_fixed32 s s3 ws) \<and>
    (write_all pb_encode_fixed64 s xs = (True, s4) \<longrightarrow> round_trips pb_encode_fixed64 pb_decode_fixed64 s s4 xs)"
  using pb_varint.write_read pb_svarint.write_read pb_fixed32.write_read pb_fixed64.write_read assms by blast

definition out16 :: pb_ostream where
  "out16 = pb_ostream_from_buffer (replicate 16 0) 16"

lemma out16_ok: "os_ok out16" "\<not> os_sizing out16"
  by (simp_all add: out16_def pb_ostream_from_buffer_def os_ok_def)

theorem pb_scalars_round_trip_witness:
  "\<exists>s2. write_all pb_encode_svarint out16 [-1, 300] = (True, s2) \<and> written out16 s2 = [1, 0xd8, 0x04] \<and>
     round_trips pb_encode_svarint pb_decode_svarint out16 s2 [-1, 300]"
proof -
  define s2 where "s2 = snd (write_all pb_encode_svarint out16 [-1, 300])"
  have "fst (write_all pb_encode_svarint out16 [-1, 300])" by code_simp
  then have w: "write_all pb_encode_svarint out16 [-1, 300] = (True, s2)" by (simp add: s2_def prod_eq_iff)
  have "written out16 s2 = [1, 0xd8, 0x04]" unfolding s2_def by code_simp
  with w pb_scalars_round_trip [OF out16_ok, of "[]" out16 "[-1, 300]" s2 "[]" out16 "[]" out16] show ?thesis by blast
qed

text \<open>Bytes with the continuation bit, below and above bit 32.\<close>

lemma varint32_loop_continues:
  assumes "is_ok s" and "is_bytes s = cs @ rest" and "\<forall>c \<in> set cs. 128 \<le> unat c" and "k + length cs \<le> 5" and "x < 2 ^ (7 * k)"
  shows "varint32_loop s (word_of_nat (7 * k)) (word_of_nat x) =
    varint32_loop (is_advance (length cs) s) (word_of_nat (7 * (k + length cs))) (word_of_nat (x + 2 ^ (7 * k) * varint_val (cs @ [0])))"
  using assms
proof (induction cs arbitrary: s k x)
  case Nil
  then show ?case by simp
next
  case (Cons c cs)
  define w where "w = (word_of_nat (7 * k) :: byte)"
  define x1 where "x1 = x + 2 ^ (7 * k) * (unat c mod 128)"
  have w: "unat w = 7 * k" unfolding w_def using Cons.prems(4) by (intro unat_word_of_nat_id) simp
  have lt: "\<not> w \<ge> 32" using Cons.prems(4) w by (simp add: word_le_nat_alt)
  note st = varint_step [OF Cons.prems(5), of c, folded x1_def]
  have B: "is_bytes s = c # cs @ rest" using Cons.prems(2) by simp
  have hi: "c AND 0x80 \<noteq> 0" using Cons.prems(3) byte_high_bit [of c] by auto
  have n: "w + 7 = word_of_nat (7 * Suc k)" by (simp add: w_def)
  have "word_of_nat x OR push_bit (unat w) (ucast (c AND 0x7f)) = (word_of_nat x1 :: u32)" unfolding w using st(1) .
  then have "varint32_loop s w (word_of_nat x) = varint32_loop (is_advance 1 s) (word_of_nat (7 * Suc k)) (word_of_nat x1)"
    unfolding n [symmetric] using lt hi pb_readbyte_Cons [OF Cons.prems(1) B] by (simp add: varint32_loop.simps [of s w] Let_def)
  also have "\<dots> = varint32_loop (is_advance (length cs) (is_advance 1 s)) (word_of_nat (7 * (Suc k + length cs)))
      (word_of_nat (x1 + 2 ^ (7 * Suc k) * varint_val (cs @ [0])))"
    using Cons.prems B st(2) by (intro Cons.IH) simp_all
  also have "x1 + 2 ^ (7 * Suc k) * varint_val (cs @ [0]) = x + 2 ^ (7 * k) * varint_val ((c # cs) @ [0])"
    by (simp add: x1_def power_add distrib_left)
  finally show ?case by (simp add: w_def)
qed

lemma varint32_loop_padding:
  assumes "is_ok s" and "is_bytes s = replicate n 0x80 @ rest"
  shows "varint32_loop s w r = varint32_loop (is_advance n s) (w + 7 * word_of_nat n) r"
  using assms
proof (induction n arbitrary: s w)
  case (Suc n)
  then have B: "is_bytes s = 0x80 # replicate n 0x80 @ rest" by simp
  have "varint32_loop s w r = varint32_loop (is_advance 1 s) (w + 7) r"
    using pb_readbyte_Cons [OF Suc.prems(1) B] by (simp add: varint32_loop.simps [of s w] Let_def)
  also have "\<dots> = varint32_loop (is_advance n (is_advance 1 s)) (w + 7 + 7 * word_of_nat n) r"
    using Suc.prems(1) B by (intro Suc.IH) simp_all
  finally show ?case by (simp add: algebra_simps)
qed simp

lemma varint_form_continued: "\<forall>c \<in> set cs. 128 \<le> unat c \<Longrightarrow> unat b < 128 \<Longrightarrow> varint_form (cs @ [b])"
  by (induction cs) auto

lemma varint_val_padded: "varint_val (replicate n 0x80 @ [b]) = 128 ^ n * varint_val [b]"
  by (induction n) simp_all

text \<open>
  C40 (error).  The 32-bit varint reader does not reject every value that is too large.  The overflow test on bits 32 to 34
  is made only when the fifth byte is the last one: behind any five bytes that continue, a zero byte makes the reader
  return the value modulo \<open>2 ^ 32\<close>.  And the bit position, eight bits wide, wraps around in a long varint: \<open>b * 2 ^ 259\<close>,
  written in 38 bytes, is read as \<open>8 * b\<close>.
\<close>

theorem pb_varint32_accepts_overflow:
  assumes "is_ok s" and "is_bytes s = cs @ 0 # rest" and "length cs = 5" and "\<forall>c \<in> set cs. 128 \<le> unat c"
    and "is_ok t" and "is_bytes t = replicate 37 0x80 @ b # rest'" and "unat b < 128"
  shows "varint_form (cs @ [0]) \<and> (\<exists>r. pb_decode_varint32 s = (Some r, is_advance 6 s) \<and> unat r = varint_val (cs @ [0]) mod 2 ^ 32) \<and>
    varint_form (replicate 37 0x80 @ [b]) \<and> varint_val (replicate 37 0x80 @ [b]) = unat b * 2 ^ 259 \<and>
    (\<exists>r. pb_decode_varint32 t = (Some r, is_advance 38 t) \<and> unat r = 8 * unat b)"
proof (intro conjI)
  show "varint_form (cs @ [0])" "varint_form (replicate 37 0x80 @ [b])"
    using assms(4,7) by (auto intro!: varint_form_continued)
  show "varint_val (replicate 37 0x80 @ [b]) = unat b * 2 ^ 259"
  proof -
    have "(128 :: nat) ^ 37 = (2 ^ 7) ^ 37" by simp
    also have "\<dots> = 2 ^ (7 * 37)" by (rule power_mult [symmetric])
    finally have "(128 :: nat) ^ 37 = 2 ^ 259" by simp
    then show ?thesis unfolding varint_val_padded using assms(7) by simp
  qed
  show "\<exists>r. pb_decode_varint32 s = (Some r, is_advance 6 s) \<and> unat r = varint_val (cs @ [0]) mod 2 ^ 32"
  proof -
    obtain c ds where cs: "cs = c # ds" "length ds = 4" using assms(3) by (cases cs) auto
    have B: "is_bytes s = c # ds @ 0 # rest" using assms(2) cs by simp
    note r = pb_readbyte_Cons [OF assms(1) B]
    have c: "c AND 0x80 \<noteq> 0" "(ucast (c AND 0x7f) :: u32) = word_of_nat (unat c mod 128)"
      using assms(4) cs byte_high_bit [of c] unfolding ucast_byte_nat by (auto simp: unat_and_0x7f)
    define v where "v = unat c mod 128 + 2 ^ (7 * 1) * varint_val (ds @ [0])"
    have "varint32_loop (is_advance 1 s) (word_of_nat (7 * 1)) (word_of_nat (unat c mod 128)) =
        varint32_loop (is_advance (length ds) (is_advance 1 s)) (word_of_nat (7 * (1 + length ds))) (word_of_nat v)"
      unfolding v_def using assms(1,4) B cs by (intro varint32_loop_continues [where rest = "0 # rest"]) auto
    then have l: "varint32_loop (is_advance 1 s) 7 (word_of_nat (unat c mod 128)) = varint32_loop (is_advance 5 s) 35 (word_of_nat v)"
      using cs(2) by simp
    have z: "is_ok (is_advance 5 s)" "is_bytes (is_advance 5 s) = 0 # rest" using assms(1-3) by simp_all
    have "varint32_loop (is_advance 5 s) 35 (word_of_nat v) = (Some (0, 42, word_of_nat v), is_advance 6 s)"
      using pb_readbyte_Cons [OF z] by (simp add: varint32_loop.simps [of "is_advance 5 s"] Let_def)
    then have "pb_decode_varint32 s = (Some (word_of_nat v), is_advance 6 s)"
      using r c l by (simp add: pb_decode_varint32_def pb_decode_varint32_eof_def)
    moreover have "v = varint_val (cs @ [0])" by (simp add: v_def cs)
    ultimately show ?thesis by (auto simp: unat_of_nat)
  qed
  show "\<exists>r. pb_decode_varint32 t = (Some r, is_advance 38 t) \<and> unat r = 8 * unat b"
  proof -
    have R: "(replicate 37 0x80 :: byte list) = 0x80 # replicate 36 0x80" by (simp add: numeral_eq_Suc)
    have B: "is_bytes t = 0x80 # replicate 36 0x80 @ b # rest'" unfolding assms(6) R by simp
    note r = pb_readbyte_Cons [OF assms(5) B]
    have a: "is_ok (is_advance 1 t)" "is_bytes (is_advance 1 t) = replicate 36 0x80 @ b # rest'" using assms(5) B by simp_all
    have l: "varint32_loop (is_advance 1 t) 7 0 = varint32_loop (is_advance 37 t) 3 0"
    proof -
      have e: "(7 + 7 * word_of_nat 36 :: byte) = 3" by code_simp
      show ?thesis using varint32_loop_padding [OF a, of 7 0] unfolding e by simp
    qed
    have z: "is_ok (is_advance 37 t)" "is_bytes (is_advance 37 t) = b # rest'" using assms(5,6) by simp_all
    have b: "b AND 0x80 = 0" "b AND 0x7f = b" using assms(7) byte_high_bit [of b] by (auto simp: word_unat_eq_iff unat_and_0x7f)
    have "varint32_loop (is_advance 37 t) 3 0 = (Some (b, 10, push_bit 3 (ucast b)), is_advance 38 t)"
      using pb_readbyte_Cons [OF z] b by (simp add: varint32_loop.simps [of "is_advance 37 t"] Let_def word_le_nat_alt)
    then have "pb_decode_varint32 t = (Some (push_bit 3 (ucast b)), is_advance 38 t)"
      using r l by (simp add: pb_decode_varint32_def pb_decode_varint32_eof_def)
    moreover have "unat (push_bit 3 (ucast b) :: u32) = 8 * unat b"
    proof -
      have "push_bit 3 (ucast b) = (word_of_nat (8 * unat b) :: u32)" using or_shift_byte [of 0 3 b] by simp
      then show ?thesis using assms(7) by (simp only:) (rule unat_word_of_nat_id, simp)
    qed
    ultimately show ?thesis by blast
  qed
qed

theorem pb_varint32_accepts_overflow_witness:
  "(\<exists>s1. pb_decode_varint32 (pb_istream_from_buffer [0x80, 0x80, 0x80, 0x80, 0xf0, 0x00] 6) = (Some 0, s1)) \<and>
   varint_val [0x80, 0x80, 0x80, 0x80, 0xf0, 0x00] = 7 * 2 ^ 32 \<and>
   (\<exists>s1. pb_decode_varint32 (pb_istream_from_buffer (replicate 37 0x80 @ [1]) 38) = (Some 8, s1)) \<and>
   varint_val (replicate 37 0x80 @ [1]) = 2 ^ 259"
proof -
  let ?s = "pb_istream_from_buffer [0x80, 0x80, 0x80, 0x80, 0xf0, 0x00] 6" and ?t = "pb_istream_from_buffer (replicate 37 0x80 @ [1]) 38"
  have s: "is_ok ?s" "is_bytes ?s = [0x80, 0x80, 0x80, 0x80, 0xf0] @ 0 # []" 
    by (simp_all add: pb_istream_from_buffer_def is_bytes_def is_ok_def)
  have t: "is_ok ?t" "is_bytes ?t = replicate 37 0x80 @ 1 # []" using from_buffer_laws [of "replicate 37 0x80 @ [1]"] by simp_all
  have v: "varint_val [0x80, 0x80, 0x80, 0x80, 0xf0, 0x00] = 7 * 2 ^ 32" by simp
  have o: "length [0x80, 0x80, 0x80, 0x80, 0xf0 :: byte] = 5" "\<forall>c \<in> set [0x80, 0x80, 0x80, 0x80, 0xf0 :: byte]. 128 \<le> unat c"
    "unat (1 :: byte) < 128" by simp_all
  note w = pb_varint32_accepts_overflow [OF s o(1,2) t o(3)]
  then obtain r where r: "pb_decode_varint32 ?s = (Some r, is_advance 6 ?s)"
    "unat r = varint_val ([0x80, 0x80, 0x80, 0x80, 0xf0] @ [0]) mod 2 ^ 32" by blast
  from w obtain q where q: "pb_decode_varint32 ?t = (Some q, is_advance 38 ?t)" "unat q = 8 * unat (1 :: byte)" by blast
  have "unat r = 0" "unat q = unat (8 :: u32)" using r(2) v q(2) by simp_all
  then have "r = 0" "q = 8" by (simp_all only: unat_eq_0 word_unat_eq_iff)
  moreover have "varint_val (replicate 37 0x80 @ [1]) = unat (1 :: byte) * 2 ^ 259" using w by blast
  then have "varint_val (replicate 37 0x80 @ [1]) = 2 ^ 259" by (simp only: unsigned_1 mult_1)
  ultimately show ?thesis using r(1) q(1) v by blast
qed

end
