(* ===== verification/Pb_Field.thy ===== *)
theory Pb_Field
  imports Pb_In
begin

text \<open>
  The field descriptors of nanopb and the iterator over the fields of a message (\<open>pb.h\<close>, \<open>pb_common.c\<close>), in the
  configuration of the application: 32-bit \<open>pb_size_t\<close> and \<open>PB_ENABLE_MALLOC\<close>.  Memory is a byte for every address and the blocks that
  \<open>realloc\<close> gave out, integers in it are little-endian,
  pointers have 8 bytes, and the address 0 is \<open>NULL\<close>.  A pointer to a descriptor array is an index into the table of
  descriptor arrays, so message types may refer to each other in any way.
\<close>

section \<open>Memory\<close>

text \<open>The bytes, and the blocks allocated and not freed, with their sizes.\<close>

record heap =
  hp_mem :: "nat \<Rightarrow> byte"
  hp_live :: "nat \<rightharpoonup> nat"

definition load :: "heap \<Rightarrow> nat \<Rightarrow> nat \<Rightarrow> nat" where
  "load h a n = be_val (rev (map (hp_mem h) [a..<a + n]))"

definition store :: "heap \<Rightarrow> nat \<Rightarrow> byte list \<Rightarrow> heap" where
  "store h a bs = h\<lparr>hp_mem := (\<lambda>i. if a \<le> i \<and> i < a + length bs then bs ! (i - a) else hp_mem h i)\<rparr>"

definition store_int :: "heap \<Rightarrow> nat \<Rightarrow> nat \<Rightarrow> nat \<Rightarrow> heap" where
  "store_int h a n v = store h a (le_bytes n v)"

section \<open>Descriptors\<close>

datatype field_ptr = Null_ptr | Submsg nat | Default "byte list"

record pb_field =
  f_tag :: nat
  f_type :: byte
  f_data_offset :: nat
  f_size_offset :: int
  f_data_size :: nat
  f_array_size :: nat
  f_ptr :: field_ptr

definition PB_LAST_FIELD :: pb_field where
  "PB_LAST_FIELD = \<lparr>f_tag = 0, f_type = 0, f_data_offset = 0, f_size_offset = 0, f_data_size = 0, f_array_size = 0, f_ptr = Null_ptr\<rparr>"

definition PB_ATYPE :: "byte \<Rightarrow> byte" where "PB_ATYPE x = x AND 0xc0"
definition PB_HTYPE :: "byte \<Rightarrow> byte" where "PB_HTYPE x = x AND 0x30"
definition PB_LTYPE :: "byte \<Rightarrow> byte" where "PB_LTYPE x = x AND 0x0f"

definition PB_LTYPE_BOOL :: byte where "PB_LTYPE_BOOL = 0x00"
definition PB_LTYPE_VARINT :: byte where "PB_LTYPE_VARINT = 0x01"
definition PB_LTYPE_UVARINT :: byte where "PB_LTYPE_UVARINT = 0x02"
definition PB_LTYPE_SVARINT :: byte where "PB_LTYPE_SVARINT = 0x03"
definition PB_LTYPE_FIXED32 :: byte where "PB_LTYPE_FIXED32 = 0x04"
definition PB_LTYPE_FIXED64 :: byte where "PB_LTYPE_FIXED64 = 0x05"
definition PB_LTYPE_LAST_PACKABLE :: byte where "PB_LTYPE_LAST_PACKABLE = 0x05"
definition PB_LTYPE_BYTES :: byte where "PB_LTYPE_BYTES = 0x06"
definition PB_LTYPE_STRING :: byte where "PB_LTYPE_STRING = 0x07"
definition PB_LTYPE_SUBMESSAGE :: byte where "PB_LTYPE_SUBMESSAGE = 0x08"
definition PB_LTYPE_EXTENSION :: byte where "PB_LTYPE_EXTENSION = 0x09"
definition PB_LTYPE_FIXED_LENGTH_BYTES :: byte where "PB_LTYPE_FIXED_LENGTH_BYTES = 0x0a"

definition PB_HTYPE_REQUIRED :: byte where "PB_HTYPE_REQUIRED = 0x00"
definition PB_HTYPE_OPTIONAL :: byte where "PB_HTYPE_OPTIONAL = 0x10"
definition PB_HTYPE_REPEATED :: byte where "PB_HTYPE_REPEATED = 0x20"
definition PB_HTYPE_ONEOF :: byte where "PB_HTYPE_ONEOF = 0x30"

definition PB_ATYPE_STATIC :: byte where "PB_ATYPE_STATIC = 0x00"
definition PB_ATYPE_POINTER :: byte where "PB_ATYPE_POINTER = 0x80"
definition PB_ATYPE_CALLBACK :: byte where "PB_ATYPE_CALLBACK = 0x40"

definition PB_SIZE_MAX :: nat where "PB_SIZE_MAX = 2 ^ 32 - 1"
definition PB_MAX_REQUIRED_FIELDS :: nat where "PB_MAX_REQUIRED_FIELDS = 64"

lemmas pb_type_defs = PB_ATYPE_def PB_HTYPE_def PB_LTYPE_def PB_LTYPE_BOOL_def PB_LTYPE_VARINT_def PB_LTYPE_UVARINT_def
  PB_LTYPE_SVARINT_def PB_LTYPE_FIXED32_def PB_LTYPE_FIXED64_def PB_LTYPE_LAST_PACKABLE_def PB_LTYPE_BYTES_def
  PB_LTYPE_STRING_def PB_LTYPE_SUBMESSAGE_def PB_LTYPE_EXTENSION_def PB_LTYPE_FIXED_LENGTH_BYTES_def PB_HTYPE_REQUIRED_def
  PB_HTYPE_OPTIONAL_def PB_HTYPE_REPEATED_def PB_HTYPE_ONEOF_def PB_ATYPE_STATIC_def PB_ATYPE_POINTER_def
  PB_ATYPE_CALLBACK_def

section \<open>The field iterator\<close>

text \<open>\<open>it_pos\<close> is an index into the descriptor array \<open>it_start\<close>.\<close>

record pb_field_iter =
  it_start :: "pb_field list"
  it_pos :: nat
  required_field_index :: nat
  dest_struct :: nat
  pData :: nat
  pSize :: nat

text \<open>The offset of an item of an array: a product of two \<open>pb_size_t\<close>, taken in 32 bits.\<close>

definition item_offset :: "pb_field \<Rightarrow> nat \<Rightarrow> nat" where
  "item_offset f n = (f_data_size f * n) mod 2 ^ 32"

definition iter_field :: "pb_field_iter \<Rightarrow> pb_field" where
  "iter_field iter = it_start iter ! it_pos iter"

definition add_offset :: "nat \<Rightarrow> int \<Rightarrow> nat" where
  "add_offset a d = nat (int a + d)"

definition pb_field_iter_begin :: "pb_field list \<Rightarrow> nat \<Rightarrow> bool \<times> pb_field_iter" where
  "pb_field_iter_begin flds dest =
     (let f = flds ! 0;
          dat = (if dest = 0 then 0 else dest + f_data_offset f);
          siz = (if dest = 0 then 0 else add_offset dat (f_size_offset f))
      in (f_tag f \<noteq> 0,
          \<lparr>it_start = flds, it_pos = 0, required_field_index = 0, dest_struct = dest, pData = dat, pSize = siz\<rparr>))"

definition pb_field_iter_next :: "pb_field_iter \<Rightarrow> bool \<times> pb_field_iter" where
  "pb_field_iter_next iter =
     (let prev = iter_field iter
      in if f_tag prev = 0 then (False, iter)
         else let iter1 = iter\<lparr>it_pos := it_pos iter + 1\<rparr>;
                  f = iter_field iter1
           in if f_tag f = 0 then (False, snd (pb_field_iter_begin (it_start iter) (dest_struct iter)))
              else if PB_HTYPE (f_type prev) = PB_HTYPE_ONEOF \<and> PB_HTYPE (f_type f) = PB_HTYPE_ONEOF \<and>
                      f_data_offset f = PB_SIZE_MAX
              then (True, iter1)
              else let prev_size =
                         (if PB_ATYPE (f_type prev) = PB_ATYPE_STATIC \<and> PB_HTYPE (f_type prev) = PB_HTYPE_REPEATED
                          then f_data_size prev * f_array_size prev
                          else if PB_ATYPE (f_type prev) = PB_ATYPE_POINTER then 8
                          else f_data_size prev);
                       req = (if PB_HTYPE (f_type prev) = PB_HTYPE_REQUIRED then required_field_index iter + 1
                              else required_field_index iter);
                       dat = pData iter + prev_size + f_data_offset f
                   in (True, iter1\<lparr>required_field_index := req, pData := dat,
                                   pSize := add_offset dat (f_size_offset f)\<rparr>))"

text \<open>
  The search of \<open>pb_field_iter_find\<close> goes around the array until it is back where it started; \<open>n\<close> bounds the
  number of steps, and the length of the array is enough.
\<close>

fun find_field :: "nat \<Rightarrow> (pb_field \<Rightarrow> bool) \<Rightarrow> nat \<Rightarrow> pb_field_iter \<Rightarrow> bool \<times> pb_field_iter" where
  "find_field 0 found first iter = (False, iter)"
| "find_field (Suc n) found first iter =
     (if found (iter_field iter) then (True, iter)
      else let iter1 = snd (pb_field_iter_next iter)
           in if it_pos iter1 = first then (False, iter1) else find_field n found first iter1)"

definition pb_field_iter_find :: "pb_field_iter \<Rightarrow> nat \<Rightarrow> bool \<times> pb_field_iter" where
  "pb_field_iter_find iter tag =
     find_field (length (it_start iter)) (\<lambda>f. f_tag f = tag \<and> PB_LTYPE (f_type f) \<noteq> PB_LTYPE_EXTENSION) (it_pos iter) iter"

definition find_extension_field :: "pb_field_iter \<Rightarrow> bool \<times> pb_field_iter" where
  "find_extension_field iter =
     find_field (length (it_start iter)) (\<lambda>f. PB_LTYPE (f_type f) = PB_LTYPE_EXTENSION) (it_pos iter) iter"

end
