(* ===== verification/Pb_Encode.thy ===== *)
theory Pb_Encode
  imports Pb_Field Pb_Out
begin

text \<open>
  The message encoder of \<open>nanopb/pb_encode.c\<close>.  The message is read from memory, which encoding does not change; the
  user's functions write to the stream only.  A result \<open>None\<close> means that the code does not return or that its
  behaviour is undefined.  The encoder of submessages is a parameter of the functions that need it; the recursion is
  tied in \<open>encode_msg\<close>, whose first argument bounds the nesting of messages in memory.
\<close>

type_synonym enc_result = "(bool \<times> pb_ostream) option"
type_synonym sub_encoder = "nat \<Rightarrow> pb_ostream \<Rightarrow> nat \<Rightarrow> enc_result"

record pb_enc_extension_type =
  xe_encode :: "(pb_ostream \<Rightarrow> nat \<Rightarrow> heap \<Rightarrow> bool \<times> pb_ostream) option"
  xe_arg :: nat

record pb_enc_env =
  ee_fields :: "nat \<Rightarrow> pb_field list"
  ee_encode :: "nat \<Rightarrow> pb_ostream \<Rightarrow> pb_field \<Rightarrow> nat \<Rightarrow> heap \<Rightarrow> bool \<times> pb_ostream"
  ee_ext_type :: "nat \<Rightarrow> pb_enc_extension_type"
  ee_nest :: nat

section \<open>Field encoders\<close>

definition read_bytes :: "heap \<Rightarrow> nat \<Rightarrow> nat \<Rightarrow> byte list" where
  "read_bytes h a n = map (hp_mem h) [a..<a + n]"

definition safe_read_bool :: "heap \<Rightarrow> nat \<Rightarrow> bool" where
  "safe_read_bool h a = (load h a 1 \<noteq> 0)"

definition pb_enc_bool :: "heap \<Rightarrow> pb_ostream \<Rightarrow> nat \<Rightarrow> bool \<times> pb_ostream" where
  "pb_enc_bool h s src = pb_encode_varint s (if safe_read_bool h src then 1 else 0)"

text \<open>An integer of \<open>n\<close> bytes, extended to 64 bits.\<close>

definition load_signed :: "heap \<Rightarrow> nat \<Rightarrow> nat \<Rightarrow> u64" where
  "load_signed h a n = signed_take_bit (8 * n - 1) (word_of_nat (load h a n))"

definition load_unsigned :: "heap \<Rightarrow> nat \<Rightarrow> nat \<Rightarrow> u64" where
  "load_unsigned h a n = word_of_nat (load h a n)"

definition integer_size :: "pb_field \<Rightarrow> bool" where
  "integer_size f \<longleftrightarrow> f_data_size f = 1 \<or> f_data_size f = 2 \<or> f_data_size f = 4 \<or> f_data_size f = 8"

definition pb_enc_varint :: "heap \<Rightarrow> pb_ostream \<Rightarrow> pb_field \<Rightarrow> nat \<Rightarrow> bool \<times> pb_ostream" where
  "pb_enc_varint h s f src =
     (if integer_size f then pb_encode_varint s (load_signed h src (f_data_size f))
      else (False, pb_oset_error s ''invalid data_size''))"

definition pb_enc_uvarint :: "heap \<Rightarrow> pb_ostream \<Rightarrow> pb_field \<Rightarrow> nat \<Rightarrow> bool \<times> pb_ostream" where
  "pb_enc_uvarint h s f src =
     (if integer_size f then pb_encode_varint s (load_unsigned h src (f_data_size f))
      else (False, pb_oset_error s ''invalid data_size''))"

definition pb_enc_svarint :: "heap \<Rightarrow> pb_ostream \<Rightarrow> pb_field \<Rightarrow> nat \<Rightarrow> bool \<times> pb_ostream" where
  "pb_enc_svarint h s f src =
     (if integer_size f then pb_encode_svarint s (load_signed h src (f_data_size f))
      else (False, pb_oset_error s ''invalid data_size''))"

definition pb_enc_fixed32 :: "heap \<Rightarrow> pb_ostream \<Rightarrow> nat \<Rightarrow> bool \<times> pb_ostream" where
  "pb_enc_fixed32 h s src = pb_encode_fixed32 s (word_of_nat (load h src 4))"

definition pb_enc_fixed64 :: "heap \<Rightarrow> pb_ostream \<Rightarrow> nat \<Rightarrow> bool \<times> pb_ostream" where
  "pb_enc_fixed64 h s src = pb_encode_fixed64 s (word_of_nat (load h src 8))"

text \<open>The room in a static field is computed in 64 bits, and wraps for a field of less than four bytes.\<close>

definition pb_enc_bytes :: "heap \<Rightarrow> pb_ostream \<Rightarrow> pb_field \<Rightarrow> nat \<Rightarrow> bool \<times> pb_ostream" where
  "pb_enc_bytes h s f src =
     (let n = load h src 4
      in if src = 0 then pb_encode_string s []
         else if PB_ATYPE (f_type f) = PB_ATYPE_STATIC \<and> n > size_wrap (f_data_size f + (2 ^ 64 - 4))
         then (False, pb_oset_error s ''bytes size exceeded'')
         else pb_encode_string s (read_bytes h (src + 4) n))"

fun string_length :: "nat \<Rightarrow> heap \<Rightarrow> nat \<Rightarrow> nat" where
  "string_length 0 h p = 0"
| "string_length (Suc n) h p = (if hp_mem h p = 0 then 0 else Suc (string_length n h (p + 1)))"

definition pb_enc_string :: "heap \<Rightarrow> pb_ostream \<Rightarrow> pb_field \<Rightarrow> nat \<Rightarrow> bool \<times> pb_ostream" where
  "pb_enc_string h s f src =
     (let room = (if PB_ATYPE (f_type f) = PB_ATYPE_POINTER then 2 ^ 64 - 1 else f_data_size f)
      in if src = 0 then pb_encode_string s [] else pb_encode_string s (read_bytes h src (string_length room h src)))"

definition pb_enc_fixed_length_bytes :: "heap \<Rightarrow> pb_ostream \<Rightarrow> pb_field \<Rightarrow> nat \<Rightarrow> bool \<times> pb_ostream" where
  "pb_enc_fixed_length_bytes h s f src = pb_encode_string s (read_bytes h src (f_data_size f))"

text \<open>A submessage is encoded twice, the first time to know its size.\<close>

definition pb_encode_submessage :: "sub_encoder \<Rightarrow> pb_ostream \<Rightarrow> nat \<Rightarrow> nat \<Rightarrow> enc_result" where
  "pb_encode_submessage sub s i src =
     (case sub i PB_OSTREAM_SIZING src of
        None \<Rightarrow> None
      | Some (False, ss) \<Rightarrow> Some (False, s\<lparr>os_errmsg := os_errmsg ss\<rparr>)
      | Some (True, ss) \<Rightarrow>
          let len = bytes_written ss
          in (case pb_encode_varint s (word_of_nat len) of
                (False, s1) \<Rightarrow> Some (False, s1)
              | (True, s1) \<Rightarrow>
                  if os_sizing s1 then Some (pb_write_null s1 len)
                  else if size_wrap (bytes_written s1 + len) > max_size s1
                  then Some (False, pb_oset_error s1 ''stream full'')
                  else (case sub i \<lparr>os_sizing = False, os_mem = os_mem s1, os_pos = os_pos s1, max_size = len,
                              bytes_written = 0, os_errmsg = None\<rparr> src of
                          None \<Rightarrow> None
                        | Some (status, ss2) \<Rightarrow>
                            let s2 = s1\<lparr>bytes_written := size_wrap (bytes_written s1 + bytes_written ss2),
                                        os_mem := os_mem ss2, os_pos := os_pos ss2, os_errmsg := os_errmsg ss2\<rparr>
                            in if bytes_written ss2 \<noteq> len then Some (False, pb_oset_error s2 ''submsg size changed'')
                               else Some (status, s2))))"

definition pb_enc_submessage :: "sub_encoder \<Rightarrow> pb_ostream \<Rightarrow> pb_field \<Rightarrow> nat \<Rightarrow> enc_result" where
  "pb_enc_submessage sub s f src =
     (case f_ptr f of
        Null_ptr \<Rightarrow> Some (False, pb_oset_error s ''invalid field descriptor'')
      | Submsg i \<Rightarrow> pb_encode_submessage sub s i src
      | Default _ \<Rightarrow> None)"

definition PB_ENCODERS :: "heap \<Rightarrow> sub_encoder \<Rightarrow> pb_field \<Rightarrow> pb_ostream \<Rightarrow> nat \<Rightarrow> enc_result" where
  "PB_ENCODERS h sub f s src =
     (let l = PB_LTYPE (f_type f)
      in if l = PB_LTYPE_BOOL then Some (pb_enc_bool h s src)
         else if l = PB_LTYPE_VARINT then Some (pb_enc_varint h s f src)
         else if l = PB_LTYPE_UVARINT then Some (pb_enc_uvarint h s f src)
         else if l = PB_LTYPE_SVARINT then Some (pb_enc_svarint h s f src)
         else if l = PB_LTYPE_FIXED32 then Some (pb_enc_fixed32 h s src)
         else if l = PB_LTYPE_FIXED64 then Some (pb_enc_fixed64 h s src)
         else if l = PB_LTYPE_BYTES then Some (pb_enc_bytes h s f src)
         else if l = PB_LTYPE_STRING then Some (pb_enc_string h s f src)
         else if l = PB_LTYPE_SUBMESSAGE then pb_enc_submessage sub s f src
         else if l = PB_LTYPE_FIXED_LENGTH_BYTES then Some (pb_enc_fixed_length_bytes h s f src)
         else None)"

section \<open>Tags and arrays\<close>

definition field_wire_type :: "pb_field \<Rightarrow> nat option" where
  "field_wire_type f =
     (let l = PB_LTYPE (f_type f)
      in if l = PB_LTYPE_BOOL \<or> l = PB_LTYPE_VARINT \<or> l = PB_LTYPE_UVARINT \<or> l = PB_LTYPE_SVARINT then Some 0
         else if l = PB_LTYPE_FIXED32 then Some 5
         else if l = PB_LTYPE_FIXED64 then Some 1
         else if l = PB_LTYPE_BYTES \<or> l = PB_LTYPE_STRING \<or> l = PB_LTYPE_SUBMESSAGE \<or> l = PB_LTYPE_FIXED_LENGTH_BYTES then Some 2
         else None)"

definition pb_encode_tag_for_field :: "pb_ostream \<Rightarrow> pb_field \<Rightarrow> bool \<times> pb_ostream" where
  "pb_encode_tag_for_field s f =
     (case field_wire_type f of
        None \<Rightarrow> (False, pb_oset_error s ''invalid field type'')
      | Some wt \<Rightarrow> pb_encode_tag s wt (word_of_nat (f_tag f)))"

text \<open>The items of an array one after the other, \<open>width\<close> bytes apart.\<close>

fun encode_items :: "nat \<Rightarrow> (pb_ostream \<Rightarrow> nat \<Rightarrow> enc_result) \<Rightarrow> nat \<Rightarrow> pb_ostream \<Rightarrow> nat \<Rightarrow> enc_result" where
  "encode_items 0 enc width s p = Some (True, s)"
| "encode_items (Suc n) enc width s p =
     (case enc s p of
        None \<Rightarrow> None
      | Some (False, s1) \<Rightarrow> Some (False, s1)
      | Some (True, s1) \<Rightarrow> encode_items n enc width s1 (p + width))"

definition array_packed :: "heap \<Rightarrow> sub_encoder \<Rightarrow> pb_ostream \<Rightarrow> pb_field \<Rightarrow> nat \<Rightarrow> nat \<Rightarrow> enc_result" where
  "array_packed h sub s f p count =
     (let items = encode_items count (PB_ENCODERS h sub f) (f_data_size f);
          l = PB_LTYPE (f_type f)
      in case pb_encode_tag s 2 (word_of_nat (f_tag f)) of
           (False, s1) \<Rightarrow> Some (False, s1)
         | (True, s1) \<Rightarrow>
             (case (if l = PB_LTYPE_FIXED32 then Some (Inr (4 * count))
                    else if l = PB_LTYPE_FIXED64 then Some (Inr (8 * count))
                    else map_option (\<lambda>(ok, ss). if ok then Inr (bytes_written ss) else Inl ()) (items PB_OSTREAM_SIZING p)) of
                None \<Rightarrow> None
              | Some (Inl _) \<Rightarrow> Some (False, s1)
              | Some (Inr len) \<Rightarrow>
                  (case pb_encode_varint s1 (word_of_nat len) of
                     (False, s2) \<Rightarrow> Some (False, s2)
                   | (True, s2) \<Rightarrow> if os_sizing s2 then Some (pb_write_null s2 len) else items s2 p)))"

text \<open>The entries of an array of strings or bytes that is a pointer are pointers themselves.\<close>

definition array_item :: "heap \<Rightarrow> sub_encoder \<Rightarrow> pb_field \<Rightarrow> pb_ostream \<Rightarrow> nat \<Rightarrow> enc_result" where
  "array_item h sub f s p =
     (case pb_encode_tag_for_field s f of
        (False, s1) \<Rightarrow> Some (False, s1)
      | (True, s1) \<Rightarrow>
          PB_ENCODERS h sub f s1
            (if PB_ATYPE (f_type f) = PB_ATYPE_POINTER \<and>
                (PB_LTYPE (f_type f) = PB_LTYPE_STRING \<or> PB_LTYPE (f_type f) = PB_LTYPE_BYTES)
             then load h p 8 else p))"

definition encode_array :: "heap \<Rightarrow> sub_encoder \<Rightarrow> pb_ostream \<Rightarrow> pb_field \<Rightarrow> nat \<Rightarrow> nat \<Rightarrow> enc_result" where
  "encode_array h sub s f p count =
     (if count = 0 then Some (True, s)
      else if PB_ATYPE (f_type f) \<noteq> PB_ATYPE_POINTER \<and> count > f_array_size f
      then Some (False, pb_oset_error s ''array max size exceeded'')
      else if PB_LTYPE (f_type f) \<le> PB_LTYPE_LAST_PACKABLE then array_packed h sub s f p count
      else encode_items count (array_item h sub f) (f_data_size f) s p)"

section \<open>Default values of proto3\<close>

fun every_field :: "nat \<Rightarrow> (pb_field_iter \<Rightarrow> bool option) \<Rightarrow> pb_field_iter \<Rightarrow> bool option" where
  "every_field 0 check iter = None"
| "every_field (Suc n) check iter =
     (case check iter of
        None \<Rightarrow> None
      | Some False \<Rightarrow> Some False
      | Some True \<Rightarrow> (case pb_field_iter_next iter of
                        (True, iter1) \<Rightarrow> every_field n check iter1
                      | (False, _) \<Rightarrow> Some True))"

text \<open>The part of the check that looks at the value; \<open>sub\<close> checks a static submessage.\<close>

definition zero_value :: "(nat \<Rightarrow> nat \<Rightarrow> bool option) \<Rightarrow> heap \<Rightarrow> pb_field \<Rightarrow> nat \<Rightarrow> bool option" where
  "zero_value sub h f p =
     (let l = PB_LTYPE (f_type f);
          static = (PB_ATYPE (f_type f) = PB_ATYPE_STATIC)
      in if static \<and> l = PB_LTYPE_BYTES then Some (load h p 4 = 0)
         else if static \<and> l = PB_LTYPE_STRING then Some (hp_mem h p = 0)
         else if static \<and> l = PB_LTYPE_FIXED_LENGTH_BYTES then Some (f_data_size f = 0)
         else if static \<and> l = PB_LTYPE_SUBMESSAGE then (case f_ptr f of Submsg i \<Rightarrow> sub i p | _ \<Rightarrow> None)
         else if PB_ATYPE (f_type f) = PB_ATYPE_POINTER \<and> l > PB_LTYPE_LAST_PACKABLE then Some (load h p 8 = 0)
         else Some (\<forall>b \<in> set (read_bytes h p (f_data_size f)). b = 0))"

fun check_default :: "nat \<Rightarrow> pb_enc_env \<Rightarrow> heap \<Rightarrow> pb_field \<Rightarrow> nat \<Rightarrow> bool option" where
  "check_default 0 E h f p = None"
| "check_default (Suc d) E h f p =
     (let type = f_type f;
          sz = add_offset p (f_size_offset f);
          sub = (\<lambda>i q. let flds = ee_fields E i in
                   case pb_field_iter_begin flds q of
                     (False, _) \<Rightarrow> Some True
                   | (True, iter) \<Rightarrow> every_field (length flds) (\<lambda>it. check_default d E h (iter_field it) (pData it)) iter)
      in if PB_HTYPE type = PB_HTYPE_REQUIRED then Some False
         else if PB_HTYPE type = PB_HTYPE_REPEATED \<and> f_size_offset f \<noteq> 0 then Some (load h sz 4 = 0)
         else if PB_HTYPE type = PB_HTYPE_REPEATED \<and> PB_ATYPE type = PB_ATYPE_STATIC then Some False
         else if PB_HTYPE type = PB_HTYPE_ONEOF then Some (load h sz 4 = 0)
         else if PB_HTYPE type = PB_HTYPE_OPTIONAL \<and> f_size_offset f \<noteq> 0 then Some (\<not> safe_read_bool h sz)
         else zero_value sub h f p)"

definition pb_check_proto3_default_value :: "pb_enc_env \<Rightarrow> heap \<Rightarrow> pb_field \<Rightarrow> nat \<Rightarrow> bool option" where
  "pb_check_proto3_default_value E h f p = check_default (Suc (ee_nest E)) E h f p"

section \<open>Fields\<close>

text \<open>The tag and the value of a field that is not an array.\<close>

definition encode_single :: "heap \<Rightarrow> sub_encoder \<Rightarrow> pb_ostream \<Rightarrow> pb_field \<Rightarrow> nat \<Rightarrow> enc_result" where
  "encode_single h sub s f p =
     (case pb_encode_tag_for_field s f of
        (False, s1) \<Rightarrow> Some (False, s1)
      | (True, s1) \<Rightarrow> PB_ENCODERS h sub f s1 p)"

text \<open>
  The entry of \<open>PB_ENCODERS\<close> is read first, and there are eleven.  \<open>pSize\<close> points into the message, or to \<open>implicit_has\<close>
  when the field has no \<open>size_offset\<close>; a oneof without one would read a counter from a \<open>bool\<close>.
\<close>

definition encode_basic_field :: "pb_enc_env \<Rightarrow> heap \<Rightarrow> sub_encoder \<Rightarrow> pb_ostream \<Rightarrow> pb_field \<Rightarrow> nat \<Rightarrow> enc_result" where
  "encode_basic_field E h sub s f p0 =
     (if PB_LTYPE_FIXED_LENGTH_BYTES < PB_LTYPE (f_type f) then None
      else let type = f_type f;
          sz = add_offset p0 (f_size_offset f);
          pointer = (PB_ATYPE type = PB_ATYPE_POINTER);
          p = (if pointer then load h p0 8 else p0)
      in case (if f_size_offset f = 0 \<and> PB_HTYPE type = PB_HTYPE_OPTIONAL
               then map_option Not (pb_check_proto3_default_value E h f p0) else Some True) of
           None \<Rightarrow> None
         | Some implicit \<Rightarrow>
             let has = (if f_size_offset f \<noteq> 0 then safe_read_bool h sz else if pointer then p \<noteq> 0 else implicit)
             in if PB_HTYPE type = PB_HTYPE_REQUIRED then
                  (if p = 0 then Some (False, pb_oset_error s ''missing required field'') else encode_single h sub s f p)
                else if PB_HTYPE type = PB_HTYPE_OPTIONAL then
                  (if has then encode_single h sub s f p else Some (True, s))
                else if PB_HTYPE type = PB_HTYPE_REPEATED then
                  encode_array h sub s f p (if f_size_offset f \<noteq> 0 then load h sz 4 else f_array_size f)
                else if f_size_offset f = 0 then None
                else if load h sz 4 = f_tag f then encode_single h sub s f p
                else Some (True, s))"

definition encode_callback_field :: "pb_enc_env \<Rightarrow> heap \<Rightarrow> pb_ostream \<Rightarrow> pb_field \<Rightarrow> nat \<Rightarrow> bool \<times> pb_ostream" where
  "encode_callback_field E h s f p =
     (let fn = load h p 8
      in if fn = 0 then (True, s)
         else case ee_encode E fn s f (p + 8) h of
                (ok, s1) \<Rightarrow> if ok then (True, s1) else (False, pb_oset_error s1 ''callback error''))"

definition encode_field :: "pb_enc_env \<Rightarrow> heap \<Rightarrow> sub_encoder \<Rightarrow> pb_ostream \<Rightarrow> pb_field \<Rightarrow> nat \<Rightarrow> enc_result" where
  "encode_field E h sub s f p =
     (let a = PB_ATYPE (f_type f)
      in if a = PB_ATYPE_STATIC \<or> a = PB_ATYPE_POINTER then encode_basic_field E h sub s f p
         else if a = PB_ATYPE_CALLBACK then Some (encode_callback_field E h s f p)
         else Some (False, pb_oset_error s ''invalid field type''))"

definition default_extension_encoder :: "pb_enc_env \<Rightarrow> heap \<Rightarrow> sub_encoder \<Rightarrow> pb_ostream \<Rightarrow> nat \<Rightarrow> enc_result" where
  "default_extension_encoder E h sub s ext =
     (let f = ee_fields E (xe_arg (ee_ext_type E (load h ext 8))) ! 0
      in encode_field E h sub s f (if PB_ATYPE (f_type f) = PB_ATYPE_POINTER then ext + 8 else load h (ext + 8) 8))"

partial_function (option) encode_extension_field :: "pb_enc_env \<Rightarrow> heap \<Rightarrow> sub_encoder \<Rightarrow> pb_ostream \<Rightarrow> nat \<Rightarrow> enc_result" where
  "encode_extension_field E h sub s ext =
     (if ext = 0 then Some (True, s)
      else case (case xe_encode (ee_ext_type E (load h ext 8)) of
                   Some enc \<Rightarrow> Some (enc s ext h)
                 | None \<Rightarrow> default_extension_encoder E h sub s ext) of
             None \<Rightarrow> None
           | Some (status, s1) \<Rightarrow>
               if \<not> status then Some (False, s1) else encode_extension_field E h sub s1 (load h (ext + 16) 8))"

declare encode_extension_field.simps [code]

section \<open>Messages\<close>

definition encode_one :: "pb_enc_env \<Rightarrow> heap \<Rightarrow> sub_encoder \<Rightarrow> pb_field_iter \<Rightarrow> pb_ostream \<Rightarrow> enc_result" where
  "encode_one E h sub iter s =
     (let f = iter_field iter
      in if PB_LTYPE (f_type f) = PB_LTYPE_EXTENSION then encode_extension_field E h sub s (load h (pData iter) 8)
         else encode_field E h sub s f (pData iter))"

fun encode_fields :: "nat \<Rightarrow> (pb_field_iter \<Rightarrow> pb_ostream \<Rightarrow> enc_result) \<Rightarrow> pb_field_iter \<Rightarrow> pb_ostream \<Rightarrow> enc_result" where
  "encode_fields 0 enc iter s = None"
| "encode_fields (Suc n) enc iter s =
     (case enc iter s of
        None \<Rightarrow> None
      | Some (False, s1) \<Rightarrow> Some (False, s1)
      | Some (True, s1) \<Rightarrow> (case pb_field_iter_next iter of
                             (True, iter1) \<Rightarrow> encode_fields n enc iter1 s1
                           | (False, _) \<Rightarrow> Some (True, s1)))"

fun encode_msg :: "nat \<Rightarrow> pb_enc_env \<Rightarrow> heap \<Rightarrow> sub_encoder" where
  "encode_msg 0 E h i s src = None"
| "encode_msg (Suc d) E h i s src =
     (let flds = ee_fields E i
      in case pb_field_iter_begin flds src of
           (False, _) \<Rightarrow> Some (True, s)
         | (True, iter) \<Rightarrow> encode_fields (length flds) (encode_one E h (\<lambda>i1 s1 src1. encode_msg d E h i1 s1 src1)) iter s)"

definition pb_encode :: "pb_enc_env \<Rightarrow> heap \<Rightarrow> pb_ostream \<Rightarrow> nat \<Rightarrow> nat \<Rightarrow> enc_result" where
  "pb_encode E h s i src = encode_msg (ee_nest E) E h i s src"

definition pb_encode_delimited :: "pb_enc_env \<Rightarrow> heap \<Rightarrow> pb_ostream \<Rightarrow> nat \<Rightarrow> nat \<Rightarrow> enc_result" where
  "pb_encode_delimited E h s i src = pb_encode_submessage (\<lambda>i1 s1 src1. pb_encode E h s1 i1 src1) s i src"

definition pb_encode_nullterminated :: "pb_enc_env \<Rightarrow> heap \<Rightarrow> pb_ostream \<Rightarrow> nat \<Rightarrow> nat \<Rightarrow> enc_result" where
  "pb_encode_nullterminated E h s i src =
     (case pb_encode E h s i src of
        None \<Rightarrow> None
      | Some (False, s1) \<Rightarrow> Some (False, s1)
      | Some (True, s1) \<Rightarrow> Some (pb_write s1 [0]))"

text \<open>The size, or \<open>None\<close> for \<open>false\<close>.\<close>

definition pb_get_encoded_size :: "pb_enc_env \<Rightarrow> heap \<Rightarrow> nat \<Rightarrow> nat \<Rightarrow> nat option option" where
  "pb_get_encoded_size E h i src =
     map_option (\<lambda>(ok, s). if ok then Some (bytes_written s) else None) (pb_encode E h PB_OSTREAM_SIZING i src)"

end
