(* ===== verification/Pb_Decode.thy ===== *)
theory Pb_Decode
  imports Pb_Field
begin

text \<open>
  The field decoders of \<open>nanopb/pb_decode.c\<close>, the default values of a message, the allocation of pointer fields and
  the release of a message, with \<open>PB_ENABLE_MALLOC\<close> as the application is built.  A result \<open>None\<close> means that the
  code does not return or that its behaviour is undefined: a callback that never consumes its input, a cyclic list of
  extensions, a \<open>NULL\<close> entry of the decoder table, a \<open>free\<close> or \<open>realloc\<close> of what is not an allocated block.  The
  decoder of submessages is passed to the functions that need it; the recursion is tied in \<open>decode_msg\<close>.
\<close>

type_synonym dec_result = "(bool \<times> pb_istream \<times> heap) option"
type_synonym sub_decoder = "bool \<Rightarrow> nat \<Rightarrow> pb_istream \<Rightarrow> nat \<Rightarrow> heap \<Rightarrow> dec_result"

text \<open>
  The surroundings: the descriptor arrays, the user's decoding functions and extension types by their addresses,
  \<open>realloc\<close>, which chooses the address of a block or fails with 0, and a bound for the nesting of messages in memory.
\<close>

record pb_extension_type =
  xt_decode :: "(pb_istream \<Rightarrow> nat \<Rightarrow> nat \<Rightarrow> nat \<Rightarrow> heap \<Rightarrow> bool \<times> pb_istream \<times> heap) option"
  xt_arg :: nat

record pb_env =
  pe_fields :: "nat \<Rightarrow> pb_field list"
  pe_decode :: "nat \<Rightarrow> pb_istream \<Rightarrow> pb_field \<Rightarrow> nat \<Rightarrow> heap \<Rightarrow> bool \<times> pb_istream \<times> heap"
  pe_ext_type :: "nat \<Rightarrow> pb_extension_type"
  pe_realloc :: "heap \<Rightarrow> nat \<Rightarrow> nat \<Rightarrow> nat"
  pe_nest :: nat

section \<open>Allocation\<close>

text \<open>\<open>realloc\<close> keeps the contents as far as both blocks reach, and the old block when it fails.\<close>

definition pb_realloc :: "pb_env \<Rightarrow> nat \<Rightarrow> nat \<Rightarrow> heap \<Rightarrow> (nat \<times> heap) option" where
  "pb_realloc E p n h =
     (if p \<noteq> 0 \<and> hp_live h p = None then None
      else let q = pe_realloc E h p n;
               old = (if p = 0 then 0 else case hp_live h p of None \<Rightarrow> 0 | Some m \<Rightarrow> m);
               h1 = store h q (map (hp_mem h) [p..<p + min old n])
           in if q = 0 then Some (0, h) else Some (q, h1\<lparr>hp_live := (hp_live h1)(p := None, q \<mapsto> n)\<rparr>))"

definition pb_free :: "nat \<Rightarrow> heap \<Rightarrow> heap option" where
  "pb_free p h =
     (if p = 0 then Some h
      else if hp_live h p = None then None else Some (h\<lparr>hp_live := (hp_live h)(p := None)\<rparr>))"

definition allocate_field :: "pb_env \<Rightarrow> pb_istream \<Rightarrow> nat \<Rightarrow> nat \<Rightarrow> nat \<Rightarrow> heap \<Rightarrow> dec_result" where
  "allocate_field E s dat data_size array_size h =
     (let check_limit = 2 ^ 32;
          size_max = 2 ^ 64 - 1
      in if data_size = 0 \<or> array_size = 0 then Some (False, pb_set_error s ''invalid size'', h)
         else if (data_size \<ge> check_limit \<or> array_size \<ge> check_limit) \<and> size_max div array_size < data_size
         then Some (False, pb_set_error s ''size too large'', h)
         else case pb_realloc E (load h dat 8) (array_size * data_size) h of
                None \<Rightarrow> None
              | Some (ptr, h1) \<Rightarrow>
                  if ptr = 0 then Some (False, pb_set_error s ''realloc failed'', h1)
                  else Some (True, s, store_int h1 dat 8 ptr))"

section \<open>Default values\<close>

text \<open>A \<open>pb_extension_t\<close> has its type at offset 0, \<open>dest\<close> at 8, \<open>next\<close> at 16 and \<open>found\<close> at 24.\<close>

definition iter_from_extension :: "pb_env \<Rightarrow> nat \<Rightarrow> heap \<Rightarrow> pb_field_iter" where
  "iter_from_extension E ext h =
     (let flds = pe_fields E (xt_arg (pe_ext_type E (load h ext 8)));
          dest = load h (ext + 8) 8;
          iter = snd (pb_field_iter_begin flds dest)
      in iter\<lparr>pData := (if PB_ATYPE (f_type (flds ! 0)) = PB_ATYPE_POINTER then ext + 8 else dest), pSize := ext + 24\<rparr>)"

text \<open>The walk along a list of extensions.\<close>

partial_function (option) each_extension :: "(nat \<Rightarrow> heap \<Rightarrow> heap option) \<Rightarrow> nat \<Rightarrow> heap \<Rightarrow> heap option" where
  "each_extension act ext h =
     (if ext = 0 then Some h
      else case act ext h of
             None \<Rightarrow> None
           | Some h1 \<Rightarrow> each_extension act (load h1 (ext + 16) 8) h1)"

declare each_extension.simps [code]

text \<open>The loop over the fields; \<open>n\<close> bounds the number of fields.\<close>

fun each_field :: "nat \<Rightarrow> (pb_field_iter \<Rightarrow> 'b \<Rightarrow> 'b option) \<Rightarrow> pb_field_iter \<Rightarrow> 'b \<Rightarrow> 'b option" where
  "each_field 0 act iter h = None"
| "each_field (Suc n) act iter h =
     (case act iter h of
        None \<Rightarrow> None
      | Some h1 \<Rightarrow> (case pb_field_iter_next iter of
                     (True, iter1) \<Rightarrow> each_field n act iter1 h1
                   | (False, _) \<Rightarrow> Some h1))"

text \<open>
  \<open>pb_field_set_to_default\<close> and \<open>pb_message_set_to_defaults\<close>; the first argument bounds the nesting of static
  submessages, and \<open>2 * pe_nest E\<close> is enough when they are nested \<open>pe_nest E\<close> deep.
\<close>

fun field_set_to_default :: "nat \<Rightarrow> pb_env \<Rightarrow> pb_field_iter \<Rightarrow> heap \<Rightarrow> heap option"
  and message_set_to_defaults :: "nat \<Rightarrow> pb_env \<Rightarrow> nat \<Rightarrow> nat \<Rightarrow> heap \<Rightarrow> heap option" where
  "field_set_to_default 0 E iter h = None"
| "field_set_to_default (Suc d) E iter h =
     (let f = iter_field iter;
          type = f_type f
      in if PB_LTYPE type = PB_LTYPE_EXTENSION
         then each_extension
                (\<lambda>ext h1. let h2 = store_int h1 (ext + 24) 1 0 in field_set_to_default d E (iter_from_extension E ext h2) h2)
                (load h (pData iter) 8) h
         else if PB_ATYPE type = PB_ATYPE_STATIC then
           let has = (PB_HTYPE type = PB_HTYPE_OPTIONAL \<and> pSize iter \<noteq> pData iter);
               counted = (\<not> has \<and> (PB_HTYPE type = PB_HTYPE_REPEATED \<or> PB_HTYPE type = PB_HTYPE_ONEOF));
               h1 = (if has then store_int h (pSize iter) 1 0
                     else if counted then store_int h (pSize iter) 4 0 else h)
           in if counted then Some h1
              else if PB_LTYPE type = PB_LTYPE_SUBMESSAGE then
                (case f_ptr f of Submsg i \<Rightarrow> message_set_to_defaults d E i (pData iter) h1 | _ \<Rightarrow> None)
              else (case f_ptr f of
                      Default bs \<Rightarrow> Some (store h1 (pData iter) (take (f_data_size f) bs))
                    | _ \<Rightarrow> Some (store h1 (pData iter) (replicate (f_data_size f) 0)))
         else if PB_ATYPE type = PB_ATYPE_POINTER then
           let h1 = store_int h (pData iter) 8 0
           in if PB_HTYPE type = PB_HTYPE_REPEATED \<or> PB_HTYPE type = PB_HTYPE_ONEOF
              then Some (store_int h1 (pSize iter) 4 0) else Some h1
         else Some h)"
| "message_set_to_defaults 0 E i dest h = None"
| "message_set_to_defaults (Suc d) E i dest h =
     (let flds = pe_fields E i
      in case pb_field_iter_begin flds dest of
           (False, _) \<Rightarrow> Some h
         | (True, iter) \<Rightarrow> each_field (length flds) (\<lambda>it h1. field_set_to_default d E it h1) iter h)"

definition pb_message_set_to_defaults :: "pb_env \<Rightarrow> nat \<Rightarrow> nat \<Rightarrow> heap \<Rightarrow> heap option" where
  "pb_message_set_to_defaults E i dest h = message_set_to_defaults (2 * pe_nest E) E i dest h"

section \<open>Release\<close>

fun each_item :: "nat \<Rightarrow> (nat \<Rightarrow> heap \<Rightarrow> heap option) \<Rightarrow> nat \<Rightarrow> nat \<Rightarrow> heap \<Rightarrow> heap option" where
  "each_item 0 act p width h = Some h"
| "each_item (Suc n) act p width h =
     (case act p h of None \<Rightarrow> None | Some h1 \<Rightarrow> each_item n act (p + width) width h1)"

text \<open>The number of submessages of a field.\<close>

definition release_count :: "pb_field_iter \<Rightarrow> heap \<Rightarrow> nat" where
  "release_count iter h =
     (let f = iter_field iter;
          static = (PB_ATYPE (f_type f) = PB_ATYPE_STATIC);
          count = (if static \<and> pSize iter = pData iter then f_array_size f else load h (pSize iter) 4)
      in if PB_HTYPE (f_type f) \<noteq> PB_HTYPE_REPEATED then 1
         else if static \<and> count > f_array_size f then f_array_size f else count)"

text \<open>The blocks of a pointer field itself.\<close>

definition release_pointer :: "pb_field_iter \<Rightarrow> heap \<Rightarrow> heap option" where
  "release_pointer iter h =
     (let type = f_type (iter_field iter);
          repeated = (PB_HTYPE type = PB_HTYPE_REPEATED)
      in if PB_ATYPE type \<noteq> PB_ATYPE_POINTER then Some h
         else case (if repeated \<and> (PB_LTYPE type = PB_LTYPE_STRING \<or> PB_LTYPE type = PB_LTYPE_BYTES)
                    then each_item (load h (pSize iter) 4)
                           (\<lambda>p h1. map_option (\<lambda>h2. store_int h2 p 8 0) (pb_free (load h1 p 8) h1)) (load h (pData iter) 8) 8 h
                    else Some h) of
                None \<Rightarrow> None
              | Some h1 \<Rightarrow>
                  let h2 = (if repeated then store_int h1 (pSize iter) 4 0 else h1)
                  in map_option (\<lambda>h3. store_int h3 (pData iter) 8 0) (pb_free (load h2 (pData iter) 8) h2))"

text \<open>\<open>pb_release_single_field\<close> and \<open>pb_release\<close>; the first argument bounds the nesting.\<close>

fun release_field :: "nat \<Rightarrow> pb_env \<Rightarrow> pb_field_iter \<Rightarrow> heap \<Rightarrow> heap option"
  and release_msg :: "nat \<Rightarrow> pb_env \<Rightarrow> nat \<Rightarrow> nat \<Rightarrow> heap \<Rightarrow> heap option" where
  "release_field 0 E iter h = None"
| "release_field (Suc d) E iter h =
     (let f = iter_field iter;
          type = f_type f;
          pItem = (if PB_ATYPE type = PB_ATYPE_POINTER then load h (pData iter) 8 else pData iter)
      in if PB_HTYPE type = PB_HTYPE_ONEOF \<and> load h (pSize iter) 4 \<noteq> f_tag f then Some h
         else case (if PB_LTYPE type = PB_LTYPE_EXTENSION
                    then each_extension (\<lambda>ext h1. release_field d E (iter_from_extension E ext h1) h1) (load h (pData iter) 8) h
                    else if PB_LTYPE type = PB_LTYPE_SUBMESSAGE \<and> PB_ATYPE type \<noteq> PB_ATYPE_CALLBACK \<and> pItem \<noteq> 0
                    then each_item (release_count iter h)
                           (\<lambda>p h1. case f_ptr f of Submsg i \<Rightarrow> release_msg d E i p h1 | _ \<Rightarrow> None) pItem (f_data_size f) h
                    else Some h) of
                None \<Rightarrow> None
              | Some h1 \<Rightarrow> release_pointer iter h1)"
| "release_msg 0 E i dest h = None"
| "release_msg (Suc d) E i dest h =
     (let flds = pe_fields E i
      in if dest = 0 then Some h
         else case pb_field_iter_begin flds dest of
                (False, _) \<Rightarrow> Some h
              | (True, iter) \<Rightarrow> each_field (length flds) (\<lambda>it h1. release_field d E it h1) iter h)"

definition pb_release_single_field :: "pb_env \<Rightarrow> pb_field_iter \<Rightarrow> heap \<Rightarrow> heap option" where
  "pb_release_single_field E iter h = release_field (2 * pe_nest E) E iter h"

definition pb_release :: "pb_env \<Rightarrow> nat \<Rightarrow> nat \<Rightarrow> heap \<Rightarrow> heap option" where
  "pb_release E i dest h = release_msg (2 * pe_nest E) E i dest h"

text \<open>A field of a oneof releases the one it replaces; the iterator goes to that field and back.\<close>

definition pb_release_union_field :: "pb_env \<Rightarrow> pb_istream \<Rightarrow> pb_field_iter \<Rightarrow> heap \<Rightarrow>
    (bool \<times> pb_istream \<times> heap \<times> pb_field_iter) option" where
  "pb_release_union_field E s iter h =
     (let old_tag = load h (pSize iter) 4;
          new_tag = f_tag (iter_field iter)
      in if old_tag = 0 \<or> old_tag = new_tag then Some (True, s, h, iter)
         else case pb_field_iter_find iter old_tag of
                (False, it1) \<Rightarrow> Some (False, pb_set_error s ''invalid union tag'', h, it1)
              | (True, it1) \<Rightarrow>
                  (case pb_release_single_field E it1 h of
                     None \<Rightarrow> None
                   | Some h1 \<Rightarrow>
                       (case pb_field_iter_find it1 new_tag of
                          (False, it2) \<Rightarrow> Some (False, pb_set_error s ''iterator error'', h1, it2)
                        | (True, it2) \<Rightarrow>
                            Some (True, s,
                              (if PB_ATYPE (f_type (iter_field it2)) = PB_ATYPE_POINTER then store_int h1 (pData it2) 8 0 else h1),
                              it2))))"

text \<open>A new item that holds a pointer or a submessage is cleared.\<close>

definition initialize_pointer_field :: "pb_env \<Rightarrow> nat \<Rightarrow> pb_field \<Rightarrow> heap \<Rightarrow> heap option" where
  "initialize_pointer_field E pItem f h =
     (let l = PB_LTYPE (f_type f)
      in if l = PB_LTYPE_STRING \<or> l = PB_LTYPE_BYTES then Some (store_int h pItem 8 0)
         else if l = PB_LTYPE_SUBMESSAGE then
           (case f_ptr f of
              Submsg i \<Rightarrow> pb_message_set_to_defaults E i pItem (store h pItem (replicate (f_data_size f) 0))
            | _ \<Rightarrow> None)
         else Some h)"

section \<open>Field decoders\<close>

definition dec_bool :: "pb_istream \<Rightarrow> nat \<Rightarrow> heap \<Rightarrow> bool \<times> pb_istream \<times> heap" where
  "dec_bool s dest h =
     (case pb_dec_bool s of
        (None, s1) \<Rightarrow> (False, s1, h)
      | (Some b, s1) \<Rightarrow> (True, s1, store_int h dest 1 (if b then 1 else 0)))"

text \<open>The value cut to \<open>n\<close> bytes and extended again, as the assignment to \<open>clamped\<close> does.\<close>

definition clamp_signed :: "nat \<Rightarrow> u64 \<Rightarrow> u64" where
  "clamp_signed n v = signed_take_bit (8 * n - 1) v"

definition clamp_unsigned :: "nat \<Rightarrow> u64 \<Rightarrow> u64" where
  "clamp_unsigned n v = take_bit (8 * n) v"

definition store_clamped :: "(nat \<Rightarrow> u64 \<Rightarrow> u64) \<Rightarrow> u64 \<Rightarrow> pb_istream \<Rightarrow> pb_field \<Rightarrow> nat \<Rightarrow> heap \<Rightarrow> bool \<times> pb_istream \<times> heap" where
  "store_clamped clamp v s f dest h =
     (let n = f_data_size f
      in if n = 8 \<or> n = 4 \<or> n = 2 \<or> n = 1 then
           let h1 = store_int h dest n (unat v)
           in if clamp n v \<noteq> v then (False, pb_set_error s ''integer too large'', h1) else (True, s, h1)
         else (False, pb_set_error s ''invalid data_size'', h))"

definition pb_dec_varint :: "pb_istream \<Rightarrow> pb_field \<Rightarrow> nat \<Rightarrow> heap \<Rightarrow> bool \<times> pb_istream \<times> heap" where
  "pb_dec_varint s f dest h =
     (case pb_decode_varint s of
        (None, s1) \<Rightarrow> (False, s1, h)
      | (Some value, s1) \<Rightarrow>
          let svalue = (if f_data_size f = 8 then value else clamp_signed 4 value)
          in store_clamped clamp_signed svalue s1 f dest h)"

definition pb_dec_uvarint :: "pb_istream \<Rightarrow> pb_field \<Rightarrow> nat \<Rightarrow> heap \<Rightarrow> bool \<times> pb_istream \<times> heap" where
  "pb_dec_uvarint s f dest h =
     (case pb_decode_varint s of
        (None, s1) \<Rightarrow> (False, s1, h)
      | (Some value, s1) \<Rightarrow> store_clamped clamp_unsigned value s1 f dest h)"

definition pb_dec_svarint :: "pb_istream \<Rightarrow> pb_field \<Rightarrow> nat \<Rightarrow> heap \<Rightarrow> bool \<times> pb_istream \<times> heap" where
  "pb_dec_svarint s f dest h =
     (case pb_decode_svarint s of
        (None, s1) \<Rightarrow> (False, s1, h)
      | (Some value, s1) \<Rightarrow> store_clamped clamp_signed value s1 f dest h)"

definition pb_dec_fixed32 :: "pb_istream \<Rightarrow> nat \<Rightarrow> heap \<Rightarrow> bool \<times> pb_istream \<times> heap" where
  "pb_dec_fixed32 s dest h =
     (case pb_decode_fixed32 s of
        (None, s1) \<Rightarrow> (False, s1, h) | (Some v, s1) \<Rightarrow> (True, s1, store_int h dest 4 (unat v)))"

definition pb_dec_fixed64 :: "pb_istream \<Rightarrow> nat \<Rightarrow> heap \<Rightarrow> bool \<times> pb_istream \<times> heap" where
  "pb_dec_fixed64 s dest h =
     (case pb_decode_fixed64 s of
        (None, s1) \<Rightarrow> (False, s1, h) | (Some v, s1) \<Rightarrow> (True, s1, store_int h dest 8 (unat v)))"

text \<open>\<open>pb_read\<close> into memory.\<close>

definition read_to :: "pb_istream \<Rightarrow> nat \<Rightarrow> nat \<Rightarrow> heap \<Rightarrow> bool \<times> pb_istream \<times> heap" where
  "read_to s dest n h =
     (case pb_read s n of (None, s1) \<Rightarrow> (False, s1, h) | (Some bs, s1) \<Rightarrow> (True, s1, store h dest bs))"

text \<open>A \<open>pb_bytes_array_t\<close> is its size in four bytes and then the bytes.\<close>

definition bytes_to :: "pb_istream \<Rightarrow> nat \<Rightarrow> nat \<Rightarrow> heap \<Rightarrow> bool \<times> pb_istream \<times> heap" where
  "bytes_to s bdest n h = read_to s (bdest + 4) n (store_int h bdest 4 n)"

definition pb_dec_bytes :: "pb_env \<Rightarrow> pb_istream \<Rightarrow> pb_field \<Rightarrow> nat \<Rightarrow> heap \<Rightarrow> dec_result" where
  "pb_dec_bytes E s f dest h =
     (case pb_decode_varint32 s of
        (None, s1) \<Rightarrow> Some (False, s1, h)
      | (Some sz, s1) \<Rightarrow>
          let n = unat sz;
              alloc_size = n + 4
          in if n > PB_SIZE_MAX then Some (False, pb_set_error s1 ''bytes overflow'', h)
             else if n > alloc_size then Some (False, pb_set_error s1 ''size too large'', h)
             else if PB_ATYPE (f_type f) = PB_ATYPE_POINTER then
               if bytes_left s1 < n then Some (False, pb_set_error s1 ''end-of-stream'', h)
               else (case allocate_field E s1 dest alloc_size 1 h of
                       None \<Rightarrow> None
                     | Some (False, s2, h1) \<Rightarrow> Some (False, s2, h1)
                     | Some (True, s2, h1) \<Rightarrow> Some (bytes_to s2 (load h1 dest 8) n h1))
             else if alloc_size > f_data_size f then Some (False, pb_set_error s1 ''bytes overflow'', h)
             else Some (bytes_to s1 dest n h))"

text \<open>The space for the terminator is computed in 32 bits; the terminator is put even when the read fails.\<close>

definition string_to :: "pb_istream \<Rightarrow> nat \<Rightarrow> nat \<Rightarrow> heap \<Rightarrow> bool \<times> pb_istream \<times> heap" where
  "string_to s dest n h = (case read_to s dest n h of (status, s1, h1) \<Rightarrow> (status, s1, store_int h1 (dest + n) 1 0))"

definition pb_dec_string :: "pb_env \<Rightarrow> pb_istream \<Rightarrow> pb_field \<Rightarrow> nat \<Rightarrow> heap \<Rightarrow> dec_result" where
  "pb_dec_string E s f dest h =
     (case pb_decode_varint32 s of
        (None, s1) \<Rightarrow> Some (False, s1, h)
      | (Some sz, s1) \<Rightarrow>
          let n = unat sz;
              alloc_size = unat (sz + 1)
          in if alloc_size < n then Some (False, pb_set_error s1 ''size too large'', h)
             else if PB_ATYPE (f_type f) = PB_ATYPE_POINTER then
               if bytes_left s1 < n then Some (False, pb_set_error s1 ''end-of-stream'', h)
               else (case allocate_field E s1 dest alloc_size 1 h of
                       None \<Rightarrow> None
                     | Some (False, s2, h1) \<Rightarrow> Some (False, s2, h1)
                     | Some (True, s2, h1) \<Rightarrow> Some (string_to s2 (load h1 dest 8) n h1))
             else if alloc_size > f_data_size f then Some (False, pb_set_error s1 ''string overflow'', h)
             else Some (string_to s1 dest n h))"

definition pb_dec_submessage :: "sub_decoder \<Rightarrow> pb_istream \<Rightarrow> pb_field \<Rightarrow> nat \<Rightarrow> heap \<Rightarrow> dec_result" where
  "pb_dec_submessage sub s f dest h =
     (case pb_make_string_substream s of
        (None, s1) \<Rightarrow> Some (False, s1, h)
      | (Some substream, s1) \<Rightarrow>
          (case f_ptr f of
             Submsg fields_id \<Rightarrow>
               (case sub (PB_HTYPE (f_type f) = PB_HTYPE_REPEATED) fields_id substream dest h of
                  None \<Rightarrow> None
                | Some (status, substream1, h1) \<Rightarrow>
                    (case pb_close_string_substream s1 substream1 of (ok, s2) \<Rightarrow> Some (if ok then status else False, s2, h1)))
           | Null_ptr \<Rightarrow> Some (False, pb_set_error s1 ''invalid field descriptor'', h)
           | Default _ \<Rightarrow> None))"

definition pb_dec_fixed_length_bytes :: "pb_istream \<Rightarrow> pb_field \<Rightarrow> nat \<Rightarrow> heap \<Rightarrow> bool \<times> pb_istream \<times> heap" where
  "pb_dec_fixed_length_bytes s f dest h =
     (case pb_decode_varint32 s of
        (None, s1) \<Rightarrow> (False, s1, h)
      | (Some sz, s1) \<Rightarrow>
          let n = unat sz
          in if n > PB_SIZE_MAX then (False, pb_set_error s1 ''bytes overflow'', h)
             else if n = 0 then (True, s1, store h dest (replicate (f_data_size f) 0))
             else if n \<noteq> f_data_size f then (False, pb_set_error s1 ''incorrect fixed length bytes size'', h)
             else read_to s1 dest (f_data_size f) h)"

text \<open>The table of decoders.\<close>

definition PB_DECODERS :: "pb_env \<Rightarrow> sub_decoder \<Rightarrow> pb_field \<Rightarrow> pb_istream \<Rightarrow> nat \<Rightarrow> heap \<Rightarrow> dec_result" where
  "PB_DECODERS E sub f s dest h =
     (let l = PB_LTYPE (f_type f)
      in if l = PB_LTYPE_BOOL then Some (dec_bool s dest h)
         else if l = PB_LTYPE_VARINT then Some (pb_dec_varint s f dest h)
         else if l = PB_LTYPE_UVARINT then Some (pb_dec_uvarint s f dest h)
         else if l = PB_LTYPE_SVARINT then Some (pb_dec_svarint s f dest h)
         else if l = PB_LTYPE_FIXED32 then Some (pb_dec_fixed32 s dest h)
         else if l = PB_LTYPE_FIXED64 then Some (pb_dec_fixed64 s dest h)
         else if l = PB_LTYPE_BYTES then pb_dec_bytes E s f dest h
         else if l = PB_LTYPE_STRING then pb_dec_string E s f dest h
         else if l = PB_LTYPE_SUBMESSAGE then pb_dec_submessage sub s f dest h
         else if l = PB_LTYPE_FIXED_LENGTH_BYTES then Some (pb_dec_fixed_length_bytes s f dest h)
         else None)"

end
