(* ===== verification/Pb_Message.thy ===== *)
theory Pb_Message
  imports Pb_Decode
begin

text \<open>
  Fields and messages of \<open>nanopb/pb_decode.c\<close>: static and pointer fields of every rule (required, optional,
  repeated and packed, oneof), callback fields, extensions, and the loop over a message with its checks of
  required and fixed count fields.
\<close>

section \<open>Fields\<close>

text \<open>
  Where the counter of a repeated field is: in the message, or in the local variable of \<open>pb_decode_noinit\<close> for an
  array of fixed size.
\<close>

datatype size_ptr = At nat | Fixed_count

fun read_count :: "heap \<Rightarrow> nat \<Rightarrow> size_ptr \<Rightarrow> nat" where
  "read_count h fc (At a) = load h a 4"
| "read_count h fc Fixed_count = fc"

fun write_count :: "heap \<Rightarrow> nat \<Rightarrow> size_ptr \<Rightarrow> nat \<Rightarrow> heap \<times> nat" where
  "write_count h fc (At a) v = (store_int h a 4 v, fc)"
| "write_count h fc Fixed_count v = (h, v mod 2 ^ 32)"

text \<open>A result with the fixed count.\<close>

type_synonym field_result = "(bool \<times> pb_istream \<times> heap \<times> nat) option"

definition with_count :: "nat \<Rightarrow> dec_result \<Rightarrow> field_result" where
  "with_count fc r = map_option (\<lambda>(ok, s, h). (ok, s, h, fc)) r"

text \<open>The loop over a packed array; \<open>n\<close> bounds the number of items, of at least one byte each.\<close>

fun packed_loop :: "nat \<Rightarrow> (pb_istream \<Rightarrow> nat \<Rightarrow> heap \<Rightarrow> dec_result) \<Rightarrow> pb_field \<Rightarrow> nat \<Rightarrow> size_ptr \<Rightarrow>
    pb_istream \<Rightarrow> heap \<Rightarrow> nat \<Rightarrow> field_result" where
  "packed_loop 0 func f dat sp s h fc =
     (if bytes_left s > 0 \<and> read_count h fc sp < f_array_size f then None else Some (True, s, h, fc))"
| "packed_loop (Suc n) func f dat sp s h fc =
     (if bytes_left s > 0 \<and> read_count h fc sp < f_array_size f then
        (case func s (dat + item_offset f (read_count h fc sp)) h of
           None \<Rightarrow> None
         | Some (False, s1, h1) \<Rightarrow> Some (False, s1, h1, fc)
         | Some (True, s1, h1) \<Rightarrow>
             (case write_count h1 fc sp (read_count h1 fc sp + 1) of
                (h2, fc2) \<Rightarrow> packed_loop n func f dat sp s1 h2 fc2))
      else Some (True, s, h, fc))"

definition decode_packed :: "(pb_istream \<Rightarrow> nat \<Rightarrow> heap \<Rightarrow> dec_result) \<Rightarrow> pb_field \<Rightarrow> nat \<Rightarrow> size_ptr \<Rightarrow>
    pb_istream \<Rightarrow> heap \<Rightarrow> nat \<Rightarrow> field_result" where
  "decode_packed func f dat sp s h fc =
     (case pb_make_string_substream s of
        (None, s1) \<Rightarrow> Some (False, s1, h, fc)
      | (Some substream, s1) \<Rightarrow>
          (case packed_loop (bytes_left substream) func f dat sp substream h fc of
             None \<Rightarrow> None
           | Some (status, substream1, h1, fc1) \<Rightarrow>
               if bytes_left substream1 \<noteq> 0 then Some (False, pb_set_error s1 ''array overflow'', h1, fc1)
               else case pb_close_string_substream s1 substream1 of
                 (ok, s2) \<Rightarrow> Some (if ok then status else False, s2, h1, fc1)))"

definition decode_static_field :: "pb_env \<Rightarrow> sub_decoder \<Rightarrow> pb_istream \<Rightarrow> nat \<Rightarrow> pb_field_iter \<Rightarrow> size_ptr \<Rightarrow> heap \<Rightarrow> nat \<Rightarrow> field_result" where
  "decode_static_field E sub s wire_type iter sp h fc =
     (let f = iter_field iter;
          type = f_type f;
          func = PB_DECODERS E sub f
      in if PB_HTYPE type = PB_HTYPE_REQUIRED then with_count fc (func s (pData iter) h)
         else if PB_HTYPE type = PB_HTYPE_OPTIONAL then
           let h1 = (case sp of At a \<Rightarrow> if a \<noteq> pData iter then store_int h a 1 1 else h | Fixed_count \<Rightarrow> h)
           in with_count fc (func s (pData iter) h1)
         else if PB_HTYPE type = PB_HTYPE_REPEATED then
           (if wire_type = PB_WT_STRING \<and> PB_LTYPE type \<le> PB_LTYPE_LAST_PACKABLE
            then decode_packed func f (pData iter) sp s h fc
            else let size = read_count h fc sp
                 in case write_count h fc sp (size + 1) of (h1, fc1) \<Rightarrow>
                      if size \<ge> f_array_size f then Some (False, pb_set_error s ''array overflow'', h1, fc1)
                      else with_count fc1 (func s (pData iter + item_offset f size) h1))
         else
           (case sp of
              Fixed_count \<Rightarrow> None
            | At a \<Rightarrow>
                let fresh_msg = (PB_LTYPE type = PB_LTYPE_SUBMESSAGE \<and> load h a 4 \<noteq> f_tag f);
                    h0 = store h (pData iter) (replicate (f_data_size f) 0)
                in case (if \<not> fresh_msg then Some h
                         else case f_ptr f of Submsg i \<Rightarrow> pb_message_set_to_defaults E i (pData iter) h0 | _ \<Rightarrow> None) of
                     None \<Rightarrow> None
                   | Some h1 \<Rightarrow> with_count fc (func s (pData iter) (store_int h1 a 4 (f_tag f)))))"

section \<open>Pointer fields\<close>

text \<open>
  An item of a packed array.  \<open>s1\<close> is the stream of the message, which gets the error of a full counter; the result
  has the new \<open>allocated_size\<close>.  A \<open>data_size\<close> of 0 divides by zero.
\<close>

definition ptr_packed_item :: "pb_env \<Rightarrow> (pb_istream \<Rightarrow> nat \<Rightarrow> heap \<Rightarrow> dec_result) \<Rightarrow> pb_field_iter \<Rightarrow> size_ptr \<Rightarrow>
    nat \<Rightarrow> pb_istream \<Rightarrow> pb_istream \<Rightarrow> heap \<Rightarrow> nat \<Rightarrow> (bool \<times> nat \<times> pb_istream \<times> pb_istream \<times> heap \<times> nat) option" where
  "ptr_packed_item E func iter sp allocated_size s1 sub h fc =
     (let f = iter_field iter;
          size = read_count h fc sp;
          grow = (size + 1 > allocated_size);
          remain = (bytes_left sub - 1) div f_data_size f + 1;
          alloc1 = (if \<not> grow then allocated_size
                    else if remain < PB_SIZE_MAX - allocated_size then allocated_size + remain
                    else allocated_size + 1)
      in if size = PB_SIZE_MAX
         then Some (False, allocated_size, s1\<lparr>is_errmsg := Some ''too many array entries''\<rparr>, sub, h, fc)
         else if grow \<and> f_data_size f = 0 then None
         else case (if grow then allocate_field E sub (pData iter) (f_data_size f) alloc1 h else Some (True, sub, h)) of
                None \<Rightarrow> None
              | Some (False, sub1, h1) \<Rightarrow> Some (False, alloc1, s1, sub1, h1, fc)
              | Some (True, sub1, h1) \<Rightarrow>
                  let pItem = load h1 (pData iter) 8 + item_offset f (read_count h1 fc sp)
                  in if pItem = 0 then Some (False, alloc1, s1, sub1, h1, fc)
                     else (case initialize_pointer_field E pItem f h1 of
                             None \<Rightarrow> None
                           | Some h2 \<Rightarrow>
                               (case func sub1 pItem h2 of
                                  None \<Rightarrow> None
                                | Some (False, sub2, h3) \<Rightarrow> Some (False, alloc1, s1, sub2, h3, fc)
                                | Some (True, sub2, h3) \<Rightarrow>
                                    (case write_count h3 fc sp (read_count h3 fc sp + 1) of
                                       (h4, fc1) \<Rightarrow> Some (True, alloc1, s1, sub2, h4, fc1)))))"

text \<open>The loop; \<open>n\<close> bounds the number of items, of at least one byte each.\<close>

fun ptr_packed_loop :: "nat \<Rightarrow> pb_env \<Rightarrow> (pb_istream \<Rightarrow> nat \<Rightarrow> heap \<Rightarrow> dec_result) \<Rightarrow> pb_field_iter \<Rightarrow> size_ptr \<Rightarrow>
    nat \<Rightarrow> pb_istream \<Rightarrow> pb_istream \<Rightarrow> heap \<Rightarrow> nat \<Rightarrow> (bool \<times> pb_istream \<times> pb_istream \<times> heap \<times> nat) option" where
  "ptr_packed_loop 0 E func iter sp al s1 sub h fc = (if bytes_left sub \<noteq> 0 then None else Some (True, s1, sub, h, fc))"
| "ptr_packed_loop (Suc n) E func iter sp al s1 sub h fc =
     (if bytes_left sub \<noteq> 0 then
        (case ptr_packed_item E func iter sp al s1 sub h fc of
           None \<Rightarrow> None
         | Some (False, _, s2, sub1, h1, fc1) \<Rightarrow> Some (False, s2, sub1, h1, fc1)
         | Some (True, al1, s2, sub1, h1, fc1) \<Rightarrow> ptr_packed_loop n E func iter sp al1 s2 sub1 h1 fc1)
      else Some (True, s1, sub, h, fc))"

definition decode_pointer_packed :: "pb_env \<Rightarrow> (pb_istream \<Rightarrow> nat \<Rightarrow> heap \<Rightarrow> dec_result) \<Rightarrow> pb_field_iter \<Rightarrow> size_ptr \<Rightarrow>
    pb_istream \<Rightarrow> heap \<Rightarrow> nat \<Rightarrow> field_result" where
  "decode_pointer_packed E func iter sp s h fc =
     (case pb_make_string_substream s of
        (None, s1) \<Rightarrow> Some (False, s1, h, fc)
      | (Some substream, s1) \<Rightarrow>
          (case ptr_packed_loop (bytes_left substream) E func iter sp (read_count h fc sp) s1 substream h fc of
             None \<Rightarrow> None
           | Some (status, s2, substream1, h1, fc1) \<Rightarrow>
               (case pb_close_string_substream s2 substream1 of (ok, s3) \<Rightarrow> Some (if ok then status else False, s3, h1, fc1))))"

definition decode_pointer_single :: "pb_env \<Rightarrow> sub_decoder \<Rightarrow> pb_istream \<Rightarrow> pb_field_iter \<Rightarrow> size_ptr \<Rightarrow> heap \<Rightarrow> dec_result" where
  "decode_pointer_single E sub s iter sp h =
     (let f = iter_field iter;
          type = f_type f;
          func = PB_DECODERS E sub f
      in case (if PB_LTYPE type = PB_LTYPE_SUBMESSAGE \<and> load h (pData iter) 8 \<noteq> 0 then pb_release_single_field E iter h
               else Some h) of
           None \<Rightarrow> None
         | Some h1 \<Rightarrow>
             let h2 = (if PB_HTYPE type = PB_HTYPE_ONEOF then
                         (case sp of At a \<Rightarrow> store_int h1 a 4 (f_tag f) | Fixed_count \<Rightarrow> h1) else h1)
             in if PB_LTYPE type = PB_LTYPE_STRING \<or> PB_LTYPE type = PB_LTYPE_BYTES then func s (pData iter) h2
                else (case allocate_field E s (pData iter) (f_data_size f) 1 h2 of
                        None \<Rightarrow> None
                      | Some (False, s1, h3) \<Rightarrow> Some (False, s1, h3)
                      | Some (True, s1, h3) \<Rightarrow>
                          (case initialize_pointer_field E (load h3 (pData iter) 8) f h3 of
                             None \<Rightarrow> None
                           | Some h4 \<Rightarrow> func s1 (load h4 (pData iter) 8) h4)))"

definition decode_pointer_field :: "pb_env \<Rightarrow> sub_decoder \<Rightarrow> pb_istream \<Rightarrow> nat \<Rightarrow> pb_field_iter \<Rightarrow> size_ptr \<Rightarrow> heap \<Rightarrow> nat \<Rightarrow> field_result" where
  "decode_pointer_field E sub s wire_type iter sp h fc =
     (let f = iter_field iter;
          func = PB_DECODERS E sub f;
          size = read_count h fc sp
      in if PB_HTYPE (f_type f) \<noteq> PB_HTYPE_REPEATED then with_count fc (decode_pointer_single E sub s iter sp h)
         else if wire_type = PB_WT_STRING \<and> PB_LTYPE (f_type f) \<le> PB_LTYPE_LAST_PACKABLE
         then decode_pointer_packed E func iter sp s h fc
         else if size = PB_SIZE_MAX then Some (False, pb_set_error s ''too many array entries'', h, fc)
         else case allocate_field E s (pData iter) (f_data_size f) (size + 1) h of
                None \<Rightarrow> None
              | Some (False, s1, h1) \<Rightarrow> Some (False, s1, h1, fc)
              | Some (True, s1, h1) \<Rightarrow>
                  let pItem = load h1 (pData iter) 8 + item_offset f (read_count h1 fc sp)
                  in case write_count h1 fc sp (read_count h1 fc sp + 1) of
                       (h2, fc1) \<Rightarrow>
                         (case initialize_pointer_field E pItem f h2 of
                            None \<Rightarrow> None
                          | Some h3 \<Rightarrow> with_count fc1 (func s1 pItem h3)))"

section \<open>Callback fields\<close>

text \<open>The user's function runs until it has consumed the substream.\<close>

partial_function (option) callback_loop ::
  "(pb_istream \<Rightarrow> heap \<Rightarrow> bool \<times> pb_istream \<times> heap) \<Rightarrow> pb_istream \<Rightarrow> heap \<Rightarrow> dec_result" where
  "callback_loop cb s h =
     (case cb s h of
        (ok, s1, h1) \<Rightarrow>
          if \<not> ok then Some (False, s1, h1)
          else if bytes_left s1 \<noteq> 0 then callback_loop cb s1 h1 else Some (True, s1, h1))"

declare callback_loop.simps [code]

text \<open>A \<open>pb_callback_t\<close> is the address of the function and the argument.\<close>

definition decode_callback_field :: "pb_env \<Rightarrow> pb_istream \<Rightarrow> nat \<Rightarrow> pb_field_iter \<Rightarrow> heap \<Rightarrow> dec_result" where
  "decode_callback_field E s wire_type iter h =
     (let fn = load h (pData iter) 8;
          arg = pData iter + 8;
          f = iter_field iter
      in if pData iter = 0 \<or> fn = 0 then (case pb_skip_field s wire_type of (ok, s1) \<Rightarrow> Some (ok, s1, h))
         else if wire_type = PB_WT_STRING then
           (case pb_make_string_substream s of
              (None, s1) \<Rightarrow> Some (False, s1, h)
            | (Some substream, s1) \<Rightarrow>
                (case callback_loop (\<lambda>ss hh. pe_decode E (load hh (pData iter) 8) ss f arg hh) substream h of
                   None \<Rightarrow> None
                 | Some (ok, substream1, h1) \<Rightarrow>
                     if \<not> ok then Some (False, pb_set_error s1 ''callback failed'', h1)
                     else case pb_close_string_substream s1 substream1 of (ok2, s2) \<Rightarrow> Some (ok2, s2, h1)))
         else
           (case read_raw_value s wire_type 10 of
              (None, s1) \<Rightarrow> Some (False, s1, h)
            | (Some buffer, s1) \<Rightarrow>
                (case pe_decode E fn (pb_istream_from_buffer buffer (length buffer)) f arg h of
                   (ok, _, h1) \<Rightarrow> Some (ok, s1, h1))))"

text \<open>
  The field the iterator is at.  A oneof first releases the field it replaces; the result has the iterator after that.
\<close>

definition decode_field :: "pb_env \<Rightarrow> sub_decoder \<Rightarrow> pb_istream \<Rightarrow> nat \<Rightarrow> pb_field_iter \<Rightarrow> size_ptr \<Rightarrow> heap \<Rightarrow> nat \<Rightarrow>
    (bool \<times> pb_istream \<times> heap \<times> nat \<times> pb_field_iter) option" where
  "decode_field E sub s wire_type iter sp h fc =
     (case (if PB_HTYPE (f_type (iter_field iter)) = PB_HTYPE_ONEOF then pb_release_union_field E s iter h
            else Some (True, s, h, iter)) of
        None \<Rightarrow> None
      | Some (False, s1, h1, it1) \<Rightarrow> Some (False, s1, h1, fc, it1)
      | Some (True, s1, h1, it1) \<Rightarrow>
          let a = PB_ATYPE (f_type (iter_field it1));
              sp1 = (case sp of Fixed_count \<Rightarrow> Fixed_count | At _ \<Rightarrow> At (pSize it1))
          in map_option (\<lambda>(ok, s2, h2, fc2). (ok, s2, h2, fc2, it1))
               (if a = PB_ATYPE_STATIC then decode_static_field E sub s1 wire_type it1 sp1 h1 fc
                else if a = PB_ATYPE_POINTER then decode_pointer_field E sub s1 wire_type it1 sp1 h1 fc
                else if a = PB_ATYPE_CALLBACK then with_count fc (decode_callback_field E s1 wire_type it1 h1)
                else Some (False, pb_set_error s1 ''invalid field type'', h1, fc)))"

section \<open>Extensions\<close>

definition default_extension_decoder :: "pb_env \<Rightarrow> sub_decoder \<Rightarrow> pb_istream \<Rightarrow> nat \<Rightarrow> nat \<Rightarrow> nat \<Rightarrow> heap \<Rightarrow> dec_result" where
  "default_extension_decoder E sub s ext tag wire_type h =
     (let f = pe_fields E (xt_arg (pe_ext_type E (load h ext 8))) ! 0
      in if f_tag f \<noteq> tag then Some (True, s, h)
         else let iter = iter_from_extension E ext h;
                  h1 = store_int h (ext + 24) 1 1
              in map_option (\<lambda>(ok, s1, h2, _). (ok, s1, h2)) (decode_field E sub s wire_type iter (At (pSize iter)) h1 0))"

partial_function (option) decode_extension_loop ::
  "pb_env \<Rightarrow> sub_decoder \<Rightarrow> nat \<Rightarrow> pb_istream \<Rightarrow> nat \<Rightarrow> nat \<Rightarrow> nat \<Rightarrow> heap \<Rightarrow> dec_result" where
  "decode_extension_loop E sub p s tag wire_type ext h =
     (if ext \<noteq> 0 \<and> p = bytes_left s then
        (case (case xt_decode (pe_ext_type E (load h ext 8)) of
                 Some decode \<Rightarrow> Some (decode s ext tag wire_type h)
               | None \<Rightarrow> default_extension_decoder E sub s ext tag wire_type h) of
           None \<Rightarrow> None
         | Some (status, s1, h1) \<Rightarrow>
             if \<not> status then Some (False, s1, h1)
             else decode_extension_loop E sub p s1 tag wire_type (load h1 (ext + 16) 8) h1)
      else Some (True, s, h))"

declare decode_extension_loop.simps [code]

definition decode_extension :: "pb_env \<Rightarrow> sub_decoder \<Rightarrow> pb_istream \<Rightarrow> nat \<Rightarrow> nat \<Rightarrow> pb_field_iter \<Rightarrow> heap \<Rightarrow> dec_result" where
  "decode_extension E sub s tag wire_type iter h =
     decode_extension_loop E sub (bytes_left s) s tag wire_type (load h (pData iter) 8) h"

section \<open>Messages\<close>

text \<open>The local variables of \<open>pb_decode_noinit\<close>; a pointer to a field is its index.\<close>

record noinit_state =
  ns_iter :: pb_field_iter
  fields_seen :: "u32 list"
  extension_range_start :: nat
  fixed_count_field :: "nat option"
  fixed_count_size :: nat

definition fixed_count_wrong :: "noinit_state \<Rightarrow> bool" where
  "fixed_count_wrong l =
     (case fixed_count_field l of
        None \<Rightarrow> False
      | Some i \<Rightarrow> fixed_count_size l \<noteq> f_array_size (it_start (ns_iter l) ! i))"

text \<open>A field that no descriptor matches: an extension, or skipped.\<close>

definition decode_unknown :: "pb_env \<Rightarrow> sub_decoder \<Rightarrow> pb_istream \<Rightarrow> nat \<Rightarrow> nat \<Rightarrow> noinit_state \<Rightarrow> heap \<Rightarrow>
    (bool \<times> pb_istream \<times> heap \<times> noinit_state) option" where
  "decode_unknown E sub s tag wire_type l h =
     (let skip = (\<lambda>s1 h1 l1. case pb_skip_field s1 wire_type of (ok, s2) \<Rightarrow> Some (ok, s2, h1, l1))
      in if tag \<ge> extension_range_start l then
           (case find_extension_field (ns_iter l) of
              (found, iter1) \<Rightarrow>
                let l1 = l\<lparr>ns_iter := iter1,
                           extension_range_start := (if found then f_tag (iter_field iter1) else 2 ^ 32 - 1)\<rparr>
                in if tag \<ge> extension_range_start l1 then
                     (case decode_extension E sub s tag wire_type iter1 h of
                        None \<Rightarrow> None
                      | Some (False, s1, h1) \<Rightarrow> Some (False, s1, h1, l1)
                      | Some (True, s1, h1) \<Rightarrow>
                          if bytes_left s \<noteq> bytes_left s1 then Some (True, s1, h1, l1) else skip s1 h1 l1)
                   else skip s h l1)
         else skip s h l)"

text \<open>A field with a descriptor.\<close>

definition decode_known :: "pb_env \<Rightarrow> sub_decoder \<Rightarrow> pb_istream \<Rightarrow> nat \<Rightarrow> noinit_state \<Rightarrow> heap \<Rightarrow>
    (bool \<times> pb_istream \<times> heap \<times> noinit_state) option" where
  "decode_known E sub s wire_type l h =
     (let iter = ns_iter l;
          f = iter_field iter;
          fixed = (PB_HTYPE (f_type f) = PB_HTYPE_REPEATED \<and> pSize iter = pData iter);
          other = (fixed_count_field l \<noteq> Some (it_pos iter))
      in if fixed \<and> other \<and> fixed_count_wrong l
         then Some (False, pb_set_error s ''wrong size for fixed count field'', h, l)
         else
           let l1 = (if fixed \<and> other then l\<lparr>fixed_count_field := Some (it_pos iter), fixed_count_size := 0\<rparr> else l);
               i = required_field_index iter;
               l2 = (if PB_HTYPE (f_type f) = PB_HTYPE_REQUIRED \<and> i < PB_MAX_REQUIRED_FIELDS
                     then l1\<lparr>fields_seen := (fields_seen l1)[i div 32 := fields_seen l1 ! (i div 32) OR push_bit (i mod 32) 1]\<rparr>
                     else l1)
           in case decode_field E sub s wire_type iter (if fixed then Fixed_count else At (pSize iter)) h (fixed_count_size l2) of
                None \<Rightarrow> None
              | Some (ok, s1, h1, fc, it1) \<Rightarrow> Some (ok, s1, h1, l2\<lparr>ns_iter := it1, fixed_count_size := fc\<rparr>))"

text \<open>The loop; \<open>n\<close> bounds the number of fields, of at least one byte each.\<close>

fun decode_fields :: "nat \<Rightarrow> pb_env \<Rightarrow> sub_decoder \<Rightarrow> pb_istream \<Rightarrow> noinit_state \<Rightarrow> heap \<Rightarrow>
    (bool \<times> pb_istream \<times> heap \<times> noinit_state) option" where
  "decode_fields 0 E sub s l h = (if bytes_left s \<noteq> 0 then None else Some (True, s, h, l))"
| "decode_fields (Suc n) E sub s l h =
     (if bytes_left s \<noteq> 0 then
        (case pb_decode_tag s of
           (None, eof, s1) \<Rightarrow> Some (eof, s1, h, l)
         | (Some (wire_type, tag), eof, s1) \<Rightarrow>
             (case pb_field_iter_find (ns_iter l) (unat tag) of
                (found, iter1) \<Rightarrow>
                  (case (if found then decode_known E sub s1 wire_type (l\<lparr>ns_iter := iter1\<rparr>) h
                         else decode_unknown E sub s1 (unat tag) wire_type (l\<lparr>ns_iter := iter1\<rparr>) h) of
                     None \<Rightarrow> None
                   | Some (False, s2, h2, l2) \<Rightarrow> Some (False, s2, h2, l2)
                   | Some (True, s2, h2, l2) \<Rightarrow> decode_fields n E sub s2 l2 h2)))
      else Some (True, s, h, l))"

text \<open>The iterator walks to the end of the array; the number of required fields and the type of the last field.\<close>

fun count_required :: "nat \<Rightarrow> pb_field_iter \<Rightarrow> nat \<times> byte \<times> pb_field_iter" where
  "count_required 0 iter = (required_field_index iter, f_type (iter_field iter), iter)"
| "count_required (Suc n) iter =
     (case pb_field_iter_next iter of
        (True, iter1) \<Rightarrow> count_required n iter1
      | (False, iter1) \<Rightarrow> (required_field_index iter, f_type (iter_field iter), iter1))"

definition required_missing :: "noinit_state \<Rightarrow> bool" where
  "required_missing l =
     (case count_required (length (it_start (ns_iter l))) (ns_iter l) of
        (req, last_type, iter) \<Rightarrow>
          let req1 = (if PB_HTYPE last_type = PB_HTYPE_REQUIRED \<and> f_tag (iter_field iter) \<noteq> 0 then req + 1 else req);
              req2 = (if req1 > PB_MAX_REQUIRED_FIELDS then PB_MAX_REQUIRED_FIELDS else req1)
          in req2 > 0 \<and>
             ((\<exists>i < req2 div 32. fields_seen l ! i \<noteq> -1) \<or>
              req2 mod 32 \<noteq> 0 \<and> fields_seen l ! (req2 div 32) \<noteq> drop_bit (32 - req2 mod 32) (-1)))"

definition decode_noinit :: "pb_env \<Rightarrow> sub_decoder \<Rightarrow> nat \<Rightarrow> pb_istream \<Rightarrow> nat \<Rightarrow> heap \<Rightarrow> dec_result" where
  "decode_noinit E sub i s dest h =
     (let l0 = \<lparr>ns_iter = snd (pb_field_iter_begin (pe_fields E i) dest), fields_seen = [0, 0],
                extension_range_start = 0, fixed_count_field = None, fixed_count_size = 0\<rparr>
      in case decode_fields (bytes_left s) E sub s l0 h of
           None \<Rightarrow> None
         | Some (ok, s1, h1, l) \<Rightarrow>
             if \<not> ok then Some (False, s1, h1)
             else if fixed_count_wrong l then Some (False, pb_set_error s1 ''wrong size for fixed count field'', h1)
             else if required_missing l then Some (False, pb_set_error s1 ''missing required field'', h1)
             else Some (True, s1, h1))"

text \<open>\<open>pb_decode\<close>, with \<open>init\<close>, and \<open>pb_decode_noinit\<close>; the first argument bounds the nesting.\<close>

fun decode_msg :: "nat \<Rightarrow> pb_env \<Rightarrow> sub_decoder" where
  "decode_msg 0 E init i s dest h = None"
| "decode_msg (Suc d) E init i s dest h =
     (let noinit = decode_noinit E (\<lambda>init1 i1 s1 dest1 h2. decode_msg d E init1 i1 s1 dest1 h2) i s dest
      in if \<not> init then noinit h
         else case pb_message_set_to_defaults E i dest h of
                None \<Rightarrow> None
              | Some h1 \<Rightarrow>
                  (case noinit h1 of
                     None \<Rightarrow> None
                   | Some (True, s2, h2) \<Rightarrow> Some (True, s2, h2)
                   | Some (False, s2, h2) \<Rightarrow> map_option (\<lambda>h3. (False, s2, h3)) (pb_release E i dest h2)))"

definition pb_decode_noinit :: "pb_env \<Rightarrow> pb_istream \<Rightarrow> nat \<Rightarrow> nat \<Rightarrow> heap \<Rightarrow> dec_result" where
  "pb_decode_noinit E s i dest h = decode_msg (Suc (bytes_left s)) E False i s dest h"

definition pb_decode :: "pb_env \<Rightarrow> pb_istream \<Rightarrow> nat \<Rightarrow> nat \<Rightarrow> heap \<Rightarrow> dec_result" where
  "pb_decode E s i dest h = decode_msg (Suc (bytes_left s)) E True i s dest h"

definition decode_delimited :: "(pb_istream \<Rightarrow> dec_result) \<Rightarrow> pb_istream \<Rightarrow> heap \<Rightarrow> dec_result" where
  "decode_delimited dec s h =
     (case pb_make_string_substream s of
        (None, s1) \<Rightarrow> Some (False, s1, h)
      | (Some substream, s1) \<Rightarrow>
          (case dec substream of
             None \<Rightarrow> None
           | Some (status, substream1, h1) \<Rightarrow>
               (case pb_close_string_substream s1 substream1 of (ok, s2) \<Rightarrow> Some (if ok then status else False, s2, h1))))"

definition pb_decode_delimited_noinit :: "pb_env \<Rightarrow> pb_istream \<Rightarrow> nat \<Rightarrow> nat \<Rightarrow> heap \<Rightarrow> dec_result" where
  "pb_decode_delimited_noinit E s i dest h = decode_delimited (\<lambda>substream. pb_decode_noinit E substream i dest h) s h"

definition pb_decode_delimited :: "pb_env \<Rightarrow> pb_istream \<Rightarrow> nat \<Rightarrow> nat \<Rightarrow> heap \<Rightarrow> dec_result" where
  "pb_decode_delimited E s i dest h = decode_delimited (\<lambda>substream. pb_decode E substream i dest h) s h"

definition pb_decode_nullterminated :: "pb_env \<Rightarrow> pb_istream \<Rightarrow> nat \<Rightarrow> nat \<Rightarrow> heap \<Rightarrow> dec_result" where
  "pb_decode_nullterminated E s i dest h = pb_decode E s i dest h"

end
