(* ===== verification/Pb_Iter.thy ===== *)
theory Pb_Iter
  imports Pb_Message
begin

text \<open>
  The field iterator over a descriptor array: its position determines it, the search for a tag goes around the array
  and finds a field with the tag if there is one, and where it stands in the structure.
\<close>

text \<open>The kinds of a field.\<close>

lemma PB_HTYPE_cases:
  obtains "PB_HTYPE t = PB_HTYPE_REQUIRED" | "PB_HTYPE t = PB_HTYPE_OPTIONAL" | "PB_HTYPE t = PB_HTYPE_REPEATED" | "PB_HTYPE t = PB_HTYPE_ONEOF"
proof -
  have "t AND 0x30 \<in> {0, 0x10, 0x20, 0x30}"
  proof -
    have "bit (t AND 0x30) n \<longleftrightarrow> (n = 4 \<and> bit t 4) \<or> (n = 5 \<and> bit t 5)" for n
      by (auto simp: bit_and_iff bit_numeral_rec bit_1_iff numeral_eq_Suc split: nat.splits)
    then have "t AND 0x30 = (if bit t 4 then 0x10 else 0) OR (if bit t 5 then 0x20 else 0)"
      by (intro bit_word_eqI) (auto simp: bit_or_iff bit_numeral_rec bit_1_iff numeral_eq_Suc split: nat.splits)
    then show ?thesis by auto
  qed
  then show thesis using that by (auto simp: PB_HTYPE_def PB_HTYPE_REQUIRED_def PB_HTYPE_OPTIONAL_def PB_HTYPE_REPEATED_def PB_HTYPE_ONEOF_def)
qed

section \<open>Positions\<close>

definition field_count :: "pb_field list \<Rightarrow> nat" where
  "field_count flds = length (takeWhile (\<lambda>f. f_tag f \<noteq> 0) flds)"

text \<open>The array ends with \<open>PB_LAST_FIELD\<close>.\<close>

definition terminated :: "pb_field list \<Rightarrow> bool" where
  "terminated flds \<longleftrightarrow> field_count flds < length flds \<and> flds ! field_count flds = PB_LAST_FIELD"

lemma tag_nonzero: "k < field_count flds \<Longrightarrow> f_tag (flds ! k) \<noteq> 0"
proof -
  assume "k < field_count flds"
  then have k: "k < length (takeWhile (\<lambda>f. f_tag f \<noteq> 0) flds)" by (simp add: field_count_def)
  from nth_mem [OF k] have "f_tag (takeWhile (\<lambda>f. f_tag f \<noteq> 0) flds ! k) \<noteq> 0" by (blast dest: set_takeWhileD)
  then show ?thesis unfolding takeWhile_nth [OF k] .
qed

lemma tag_zero: "terminated flds \<Longrightarrow> f_tag (flds ! field_count flds) = 0"
  by (simp add: terminated_def PB_LAST_FIELD_def)

primrec iter_at :: "pb_field list \<Rightarrow> nat \<Rightarrow> nat \<Rightarrow> pb_field_iter" where
  "iter_at flds dest 0 = snd (pb_field_iter_begin flds dest)"
| "iter_at flds dest (Suc k) = snd (pb_field_iter_next (iter_at flds dest k))"

text \<open>The positions the iterator can have: those of the fields, and 0 in an empty array.\<close>

definition position :: "pb_field list \<Rightarrow> nat \<Rightarrow> bool" where
  "position flds k \<longleftrightarrow> k < field_count flds \<or> k = 0"

lemma begin_iter_at: "pb_field_iter_begin flds dest = (f_tag (flds ! 0) \<noteq> 0, iter_at flds dest 0)"
  by (simp add: pb_field_iter_begin_def Let_def)

lemma iter_at_pos:
  assumes "terminated flds" and "position flds k"
  shows "it_pos (iter_at flds dest k) = k" and "it_start (iter_at flds dest k) = flds"
    and "dest_struct (iter_at flds dest k) = dest" and "iter_field (iter_at flds dest k) = flds ! k"
proof -
  have "k < field_count flds \<or> k = 0 \<Longrightarrow>
    it_pos (iter_at flds dest k) = k \<and> it_start (iter_at flds dest k) = flds \<and> dest_struct (iter_at flds dest k) = dest"
  proof (induction k)
    case 0
    then show ?case by (simp add: pb_field_iter_begin_def Let_def)
  next
    case (Suc k)
    then have "it_pos (iter_at flds dest k) = k" "it_start (iter_at flds dest k) = flds" "dest_struct (iter_at flds dest k) = dest"
      by simp_all
    then show ?case using Suc.prems tag_nonzero [of k flds] tag_nonzero [of "Suc k" flds]
      by (simp add: pb_field_iter_next_def Let_def iter_field_def)
  qed
  then show "it_pos (iter_at flds dest k) = k" "it_start (iter_at flds dest k) = flds"
    "dest_struct (iter_at flds dest k) = dest" "iter_field (iter_at flds dest k) = flds ! k"
    using assms(2) by (simp_all add: position_def iter_field_def)
qed

definition next_pos :: "pb_field list \<Rightarrow> nat \<Rightarrow> nat" where
  "next_pos flds k = (if Suc k < field_count flds then Suc k else 0)"

lemma position_next: "position flds (next_pos flds k)"
  by (simp add: position_def next_pos_def)

lemma next_iter_at:
  assumes "terminated flds" and "position flds k"
  shows "pb_field_iter_next (iter_at flds dest k) = (Suc k < field_count flds, iter_at flds dest (next_pos flds k))"
proof (cases "k < field_count flds")
  case True
  note p = iter_at_pos [OF assms, of dest]
  show ?thesis
  proof (cases "Suc k < field_count flds")
    case True
    have "fst (pb_field_iter_next (iter_at flds dest k))"
      using p tag_nonzero [OF True] tag_nonzero [of k flds] True by (simp add: pb_field_iter_next_def Let_def iter_field_def)
    then show ?thesis using True by (simp add: next_pos_def prod_eq_iff)
  next
    case False
    then have "Suc k = field_count flds" using \<open>k < field_count flds\<close> by simp
    then have "f_tag (flds ! Suc k) = 0" using tag_zero [OF assms(1)] by simp
    then show ?thesis using p tag_nonzero [OF True] False
      by (simp add: pb_field_iter_next_def Let_def iter_field_def next_pos_def)
  qed
next
  case False
  then have "field_count flds = 0" "k = 0" using assms(2) by (auto simp: position_def)
  then show ?thesis using iter_at_pos [OF assms, of dest] tag_zero [OF assms(1)]
    by (simp add: pb_field_iter_next_def Let_def next_pos_def del: iter_at.simps)
qed

section \<open>The search\<close>

text \<open>The positions still to visit from \<open>j\<close> before the search is back at \<open>a\<close>.\<close>

definition ahead :: "pb_field list \<Rightarrow> nat \<Rightarrow> nat \<Rightarrow> nat set" where
  "ahead flds a j = (if a \<le> j then {j..<field_count flds} \<union> {..<a} else {j..<a})"

definition ahead_count :: "pb_field list \<Rightarrow> nat \<Rightarrow> nat \<Rightarrow> nat" where
  "ahead_count flds a j = (if a \<le> j then field_count flds - j + a else a - j)"

lemma find_field_exact:
  assumes "terminated flds" and "a < field_count flds" and "j < field_count flds" and "ahead_count flds a j \<le> n"
  shows "(\<exists>k \<in> ahead flds a j. found (flds ! k) \<and> find_field n found a (iter_at flds dest j) = (True, iter_at flds dest k)) \<or>
         (\<forall>k \<in> ahead flds a j. \<not> found (flds ! k)) \<and> find_field n found a (iter_at flds dest j) = (False, iter_at flds dest a)"
  using assms(3,4)
proof (induction n arbitrary: j)
  case 0
  then show ?case using assms(2) by (auto simp: ahead_count_def split: if_splits)
next
  case (Suc n)
  have p: "position flds j" using Suc.prems by (simp add: position_def)
  note f = iter_at_pos(4) [OF assms(1) p] and nx = next_iter_at [OF assms(1) p, of dest]
  have j: "j \<in> ahead flds a j" using Suc.prems by (auto simp: ahead_def)
  show ?case
  proof (cases "found (flds ! j)")
    case True
    then show ?thesis using j f by auto
  next
    case False
    let ?j = "next_pos flds j"
    have jp: "it_pos (iter_at flds dest ?j) = ?j" by (rule iter_at_pos(1) [OF assms(1) position_next])
    have e: "find_field (Suc n) found a (iter_at flds dest j) =
        (if ?j = a then (False, iter_at flds dest ?j) else find_field n found a (iter_at flds dest ?j))"
      using False f nx jp by (simp add: Let_def)
    show ?thesis
    proof (cases "?j = a")
      case True
      then have "ahead flds a j = {j}" using Suc.prems assms(2) by (auto simp: ahead_def next_pos_def split: if_splits)
      then show ?thesis using e True False by simp
    next
      case ne: False
      then have A: "ahead flds a j = insert j (ahead flds a ?j)"
        using Suc.prems assms(2) by (auto simp: ahead_def next_pos_def split: if_splits)
      have "ahead_count flds a ?j \<le> n" "?j < field_count flds"
        using Suc.prems assms(2) ne by (auto simp: ahead_count_def next_pos_def split: if_splits)
      from Suc.IH [OF this(2,1)] show ?thesis using A e ne False by auto
    qed
  qed
qed

lemma ahead_all: "a < field_count flds \<Longrightarrow> ahead flds a a = {..<field_count flds}"
  by (auto simp: ahead_def)

lemma find_from:
  assumes "terminated flds" and "a < field_count flds"
  shows "(\<exists>k < field_count flds. found (flds ! k) \<and>
            find_field (length flds) found a (iter_at flds dest a) = (True, iter_at flds dest k)) \<or>
         (\<forall>k < field_count flds. \<not> found (flds ! k)) \<and>
            find_field (length flds) found a (iter_at flds dest a) = (False, iter_at flds dest a)"
proof -
  have "ahead_count flds a a \<le> length flds" using assms by (auto simp: ahead_count_def terminated_def)
  from find_field_exact [OF assms(1,2,2) this, of found dest] show ?thesis unfolding ahead_all [OF assms(2)] by auto
qed

text \<open>In an empty array only the end mark is looked at.\<close>

lemma find_empty:
  assumes "terminated flds" and "field_count flds = 0"
  shows "find_field (length flds) found 0 (iter_at flds dest 0) = (found (flds ! 0), iter_at flds dest 0)"
proof -
  obtain m where m: "length flds = Suc m" using assms(1) by (cases "length flds") (auto simp: terminated_def)
  have p: "position flds 0" by (simp add: position_def)
  have "next_pos flds 0 = 0" using assms(2) by (simp add: next_pos_def)
  then show ?thesis unfolding m
    using iter_at_pos [OF assms(1) p, of dest] next_iter_at [OF assms(1) p, of dest] by (simp add: Let_def del: iter_at.simps)
qed

lemma pb_field_iter_find_at:
  assumes "terminated flds" and "position flds a"
  shows "\<exists>found k. pb_field_iter_find (iter_at flds dest a) tag = (found, iter_at flds dest k) \<and> position flds k \<and>
    (found \<longrightarrow> f_tag (flds ! k) = tag \<and> PB_LTYPE (f_type (flds ! k)) \<noteq> PB_LTYPE_EXTENSION) \<and>
    (\<not> found \<longrightarrow> k = a \<and> (\<forall>j < field_count flds. f_tag (flds ! j) = tag \<longrightarrow> PB_LTYPE (f_type (flds ! j)) = PB_LTYPE_EXTENSION))"
proof (cases "a < field_count flds")
  case True
  from find_from [OF assms(1) True, of "\<lambda>f. f_tag f = tag \<and> PB_LTYPE (f_type f) \<noteq> PB_LTYPE_EXTENSION" dest]
  show ?thesis using iter_at_pos [OF assms, of dest] assms(2)
    by (auto simp: pb_field_iter_find_def position_def simp del: iter_at.simps)
next
  case False
  then have "field_count flds = 0" "a = 0" using assms(2) by (auto simp: position_def)
  then show ?thesis using find_empty [OF assms(1)] iter_at_pos [OF assms, of dest]
    by (auto simp: pb_field_iter_find_def position_def simp del: iter_at.simps)
qed

lemma find_extension_field_at:
  assumes "terminated flds" and "position flds a" and "\<forall>j < field_count flds. PB_LTYPE (f_type (flds ! j)) \<noteq> PB_LTYPE_EXTENSION"
  shows "find_extension_field (iter_at flds dest a) = (False, iter_at flds dest a)"
proof (cases "a < field_count flds")
  case True
  from find_from [OF assms(1) True, of "\<lambda>f. PB_LTYPE (f_type f) = PB_LTYPE_EXTENSION" dest]
  show ?thesis using iter_at_pos [OF assms(1,2), of dest] assms(3) by (auto simp: find_extension_field_def simp del: iter_at.simps)
next
  case False
  then have "field_count flds = 0" "a = 0" using assms(2) by (auto simp: position_def)
  moreover have "PB_LTYPE (f_type (flds ! 0)) \<noteq> PB_LTYPE_EXTENSION" if "field_count flds = 0"
    using that assms(1) by (simp add: terminated_def PB_LAST_FIELD_def pb_type_defs)
  ultimately show ?thesis using find_empty [OF assms(1)] iter_at_pos [OF assms(1,2), of dest]
    by (auto simp: find_extension_field_def simp del: iter_at.simps)
qed

end
