(* ===== verification/Pb_Layout.thy ===== *)
theory Pb_Layout
  imports Pb_Iter
begin

text \<open>
  The layout that a descriptor array gives a message structure, as the macros of \<open>pb.h\<close> compute it with \<open>offsetof\<close>:
  where each field and its counter are, and when all of them lie inside the structure.
\<close>

section \<open>Offsets\<close>

definition in_union :: "pb_field list \<Rightarrow> nat \<Rightarrow> bool" where
  "in_union flds k \<longleftrightarrow> PB_HTYPE (f_type (flds ! k)) = PB_HTYPE_ONEOF \<and> PB_HTYPE (f_type (flds ! Suc k)) = PB_HTYPE_ONEOF \<and>
     f_data_offset (flds ! Suc k) = PB_SIZE_MAX"

definition member_size :: "pb_field \<Rightarrow> nat" where
  "member_size f =
     (if PB_ATYPE (f_type f) = PB_ATYPE_STATIC \<and> PB_HTYPE (f_type f) = PB_HTYPE_REPEATED then f_data_size f * f_array_size f
      else if PB_ATYPE (f_type f) = PB_ATYPE_POINTER then 8
      else f_data_size f)"

lemma member_size_static:
  "PB_ATYPE (f_type f) = PB_ATYPE_STATIC \<Longrightarrow>
    member_size f = (if PB_HTYPE (f_type f) = PB_HTYPE_REPEATED then f_data_size f * f_array_size f else f_data_size f)"
  by (auto simp: member_size_def pb_type_defs)

fun field_off :: "pb_field list \<Rightarrow> nat \<Rightarrow> nat" where
  "field_off flds 0 = f_data_offset (flds ! 0)"
| "field_off flds (Suc k) =
     (if in_union flds k then field_off flds k else field_off flds k + member_size (flds ! k) + f_data_offset (flds ! Suc k))"

fun size_off :: "pb_field list \<Rightarrow> nat \<Rightarrow> int" where
  "size_off flds 0 = int (field_off flds 0) + f_size_offset (flds ! 0)"
| "size_off flds (Suc k) =
     (if in_union flds k then size_off flds k else int (field_off flds (Suc k)) + f_size_offset (flds ! Suc k))"

lemma iter_at_data:
  assumes "terminated flds" and "position flds k" and "dest \<noteq> 0"
  shows "pData (iter_at flds dest k) = dest + field_off flds k"
    and "pSize (iter_at flds dest k) = nat (int dest + size_off flds k)"
proof -
  have "position flds k \<Longrightarrow> pData (iter_at flds dest k) = dest + field_off flds k \<and>
    pSize (iter_at flds dest k) = nat (int dest + size_off flds k)"
  proof (induction k)
    case 0
    then show ?case using assms(3) by (simp add: pb_field_iter_begin_def Let_def add_offset_def add.assoc)
  next
    case (Suc k)
    then have k: "Suc k < field_count flds" and p: "position flds k" by (simp_all add: position_def)
    note IH = Suc.IH [OF p] and at = iter_at_pos [OF assms(1) p, of dest]
    have t: "f_tag (flds ! k) \<noteq> 0" "f_tag (flds ! Suc k) \<noteq> 0" using tag_nonzero [OF k] tag_nonzero [of k flds] k by simp_all
    show ?case using IH at t
      by (simp add: pb_field_iter_next_def Let_def iter_field_def in_union_def member_size_def add_offset_def add.assoc)
  qed
  with assms(2) show "pData (iter_at flds dest k) = dest + field_off flds k"
    "pSize (iter_at flds dest k) = nat (int dest + size_off flds k)" by blast+
qed

section \<open>Layouts without pointers\<close>

text \<open>
  The sizes of the structures, the depth of the structures nested in them, and the number of message types.
\<close>

record pb_layout =
  lay_size :: "nat \<Rightarrow> nat"
  lay_nest :: "nat \<Rightarrow> nat"
  lay_count :: nat

definition item_ok :: "pb_layout \<Rightarrow> nat \<Rightarrow> pb_field \<Rightarrow> bool" where
  "item_ok L i f =
     (let l = PB_LTYPE (f_type f)
      in if l = PB_LTYPE_BOOL then 1 \<le> f_data_size f
         else if l = PB_LTYPE_FIXED32 then 4 \<le> f_data_size f
         else if l = PB_LTYPE_FIXED64 then 8 \<le> f_data_size f
         else if l = PB_LTYPE_SUBMESSAGE then
           (case f_ptr f of
              Submsg j \<Rightarrow> j < lay_count L \<and> lay_size L j \<le> f_data_size f \<and> lay_nest L j < lay_nest L i
            | _ \<Rightarrow> False)
         else l \<le> PB_LTYPE_FIXED_LENGTH_BYTES \<and> l \<noteq> PB_LTYPE_EXTENSION)"

definition counter_ok :: "nat \<Rightarrow> pb_field \<Rightarrow> nat \<Rightarrow> int \<Rightarrow> bool" where
  "counter_ok sz f off soff =
     (let h = PB_HTYPE (f_type f)
      in if h = PB_HTYPE_REQUIRED then True
         else if h = PB_HTYPE_OPTIONAL then soff = int off \<or> 0 \<le> soff \<and> soff + 1 \<le> int sz
         else 0 \<le> soff \<and> soff + 4 \<le> int sz)"

definition field_ok :: "pb_layout \<Rightarrow> nat \<Rightarrow> pb_field \<Rightarrow> nat \<Rightarrow> int \<Rightarrow> bool" where
  "field_ok L i f off soff \<longleftrightarrow>
     PB_LTYPE (f_type f) \<noteq> PB_LTYPE_EXTENSION \<and>
     (if PB_ATYPE (f_type f) = PB_ATYPE_STATIC
      then item_ok L i f \<and> off + member_size f \<le> lay_size L i \<and> counter_ok (lay_size L i) f off soff
      else PB_ATYPE (f_type f) = PB_ATYPE_CALLBACK)"

text \<open>Even an empty structure has a byte.\<close>

definition message_ok :: "pb_env \<Rightarrow> pb_layout \<Rightarrow> nat \<Rightarrow> bool" where
  "message_ok E L i \<longleftrightarrow> terminated (pe_fields E i) \<and> 1 \<le> lay_size L i \<and> 1 \<le> lay_nest L i \<and> lay_nest L i \<le> pe_nest E \<and>
     (\<forall>k < field_count (pe_fields E i). field_ok L i (pe_fields E i ! k) (field_off (pe_fields E i) k) (size_off (pe_fields E i) k))"

definition static_layout :: "pb_env \<Rightarrow> pb_layout \<Rightarrow> bool" where
  "static_layout E L \<longleftrightarrow> (\<forall>i < lay_count L. message_ok E L i)"

lemma static_layoutD:
  assumes "static_layout E L" and "i < lay_count L"
  shows "terminated (pe_fields E i)" and "1 \<le> lay_size L i" and "1 \<le> lay_nest L i" and "lay_nest L i \<le> pe_nest E"
    and "k < field_count (pe_fields E i) \<Longrightarrow>
      field_ok L i (pe_fields E i ! k) (field_off (pe_fields E i) k) (size_off (pe_fields E i) k)"
  using assms by (simp_all add: static_layout_def message_ok_def)

section \<open>An iterator inside a message\<close>

definition iter_in :: "pb_env \<Rightarrow> pb_layout \<Rightarrow> nat \<Rightarrow> nat \<Rightarrow> pb_field_iter \<Rightarrow> bool" where
  "iter_in E L i dest it \<longleftrightarrow> (\<exists>k. position (pe_fields E i) k \<and> it = iter_at (pe_fields E i) dest k)"

text \<open>The field an iterator stands at, its counter included, lies inside the structure.\<close>

lemma iter_inside:
  assumes "static_layout E L" and "i < lay_count L" and "dest \<noteq> 0"
    and "k < field_count (pe_fields E i)" and "it = iter_at (pe_fields E i) dest k" and "f = pe_fields E i ! k"
  shows "iter_field it = f"
    and "PB_LTYPE (f_type f) \<noteq> PB_LTYPE_EXTENSION" and "PB_ATYPE (f_type f) = PB_ATYPE_STATIC \<or> PB_ATYPE (f_type f) = PB_ATYPE_CALLBACK"
    and "dest \<le> pData it"
    and "PB_ATYPE (f_type f) = PB_ATYPE_STATIC \<Longrightarrow> item_ok L i f \<and> pData it + member_size f \<le> dest + lay_size L i"
    and "PB_ATYPE (f_type f) = PB_ATYPE_STATIC \<Longrightarrow> PB_HTYPE (f_type f) = PB_HTYPE_OPTIONAL \<Longrightarrow> pSize it \<noteq> pData it \<Longrightarrow>
      dest \<le> pSize it \<and> pSize it + 1 \<le> dest + lay_size L i"
    and "PB_ATYPE (f_type f) = PB_ATYPE_STATIC \<Longrightarrow> PB_HTYPE (f_type f) = PB_HTYPE_REPEATED \<or> PB_HTYPE (f_type f) = PB_HTYPE_ONEOF \<Longrightarrow>
      dest \<le> pSize it \<and> pSize it + 4 \<le> dest + lay_size L i"
proof -
  note t = static_layoutD(1) [OF assms(1,2)] and ok = static_layoutD(5) [OF assms(1,2,4)]
  have p: "position (pe_fields E i) k" using assms(4) by (simp add: position_def)
  note at = iter_at_pos(4) [OF t p, of dest] iter_at_data [OF t p assms(3)]
  show "iter_field it = f" "PB_LTYPE (f_type f) \<noteq> PB_LTYPE_EXTENSION"
    "PB_ATYPE (f_type f) = PB_ATYPE_STATIC \<or> PB_ATYPE (f_type f) = PB_ATYPE_CALLBACK" "dest \<le> pData it"
    using at ok assms(5,6) by (simp_all add: field_ok_def split: if_splits)
  show "PB_ATYPE (f_type f) = PB_ATYPE_STATIC \<Longrightarrow> item_ok L i f \<and> pData it + member_size f \<le> dest + lay_size L i"
    using at ok assms(5,6) by (simp add: field_ok_def)
  show "PB_ATYPE (f_type f) = PB_ATYPE_STATIC \<Longrightarrow> PB_HTYPE (f_type f) = PB_HTYPE_OPTIONAL \<Longrightarrow> pSize it \<noteq> pData it \<Longrightarrow>
      dest \<le> pSize it \<and> pSize it + 1 \<le> dest + lay_size L i"
    using at ok assms(5,6) by (auto simp: field_ok_def counter_ok_def Let_def pb_type_defs split: if_splits)
  show "PB_ATYPE (f_type f) = PB_ATYPE_STATIC \<Longrightarrow> PB_HTYPE (f_type f) = PB_HTYPE_REPEATED \<or> PB_HTYPE (f_type f) = PB_HTYPE_ONEOF \<Longrightarrow>
      dest \<le> pSize it \<and> pSize it + 4 \<le> dest + lay_size L i"
    using at ok assms(5,6) by (auto simp: field_ok_def counter_ok_def Let_def pb_type_defs split: if_splits)
qed

end
