(* ===== verification/Pb_Enc_Spec.thy ===== *)
theory Pb_Enc_Spec
  imports Pb_Encode Pb_Layout Pb_Codec
begin

text \<open>
  The encoding of a message as bytes, without streams, sizing passes and buffers, and the proof that every encoder of
  \<open>pb_encode.c\<close> writes it: into a sizing stream, into a buffer with room for it, or not at all when there is none.
\<close>

section \<open>The specification\<close>

text \<open>
  \<open>None\<close> where the code has no result or the bytes are more than an object can have, \<open>Some None\<close> for an error, and else the
  bytes.
\<close>

type_synonym spec_bytes = "byte list option option"

definition emit :: "byte list \<Rightarrow> spec_bytes" where
  "emit bs = Some (Some bs)"

definition then_bytes :: "spec_bytes \<Rightarrow> spec_bytes \<Rightarrow> spec_bytes" where
  "then_bytes a b =
     (case a of None \<Rightarrow> None | Some None \<Rightarrow> Some None | Some (Some x) \<Rightarrow>
        if length x < 2 ^ 63 then map_option (map_option ((@) x)) b else None)"

definition all_bytes :: "spec_bytes list \<Rightarrow> spec_bytes" where
  "all_bytes as = foldr then_bytes as (emit [])"

text \<open>The value of a field at \<open>src\<close>.\<close>

definition value_bytes :: "heap \<Rightarrow> (nat \<Rightarrow> nat \<Rightarrow> spec_bytes) \<Rightarrow> pb_field \<Rightarrow> nat \<Rightarrow> spec_bytes" where
  "value_bytes h sub f src =
     (let l = PB_LTYPE (f_type f);
          n = f_data_size f;
          integer = (\<lambda>v. if integer_size f then emit (varint (unat v)) else Some None);
          room = (if PB_ATYPE (f_type f) = PB_ATYPE_POINTER then 2 ^ 64 - 1 else n)
      in if l = PB_LTYPE_BOOL then emit (varint (if safe_read_bool h src then 1 else 0))
         else if l = PB_LTYPE_VARINT then integer (load_signed h src n)
         else if l = PB_LTYPE_UVARINT then integer (load_unsigned h src n)
         else if l = PB_LTYPE_SVARINT then integer (zigzag (load_signed h src n))
         else if l = PB_LTYPE_FIXED32 then emit (read_bytes h src 4)
         else if l = PB_LTYPE_FIXED64 then emit (read_bytes h src 8)
         else if l = PB_LTYPE_BYTES then
           (if src = 0 then emit (pb_string [])
            else if PB_ATYPE (f_type f) = PB_ATYPE_STATIC \<and> load h src 4 > size_wrap (n + (2 ^ 64 - 4)) then Some None
            else emit (pb_string (read_bytes h (src + 4) (load h src 4))))
         else if l = PB_LTYPE_STRING then
           emit (pb_string (if src = 0 then [] else read_bytes h src (string_length room h src)))
         else if l = PB_LTYPE_SUBMESSAGE then
           (case f_ptr f of
              Null_ptr \<Rightarrow> Some None
            | Submsg i \<Rightarrow> map_option (map_option pb_string) (sub i src)
            | Default _ \<Rightarrow> None)
         else if l = PB_LTYPE_FIXED_LENGTH_BYTES then emit (pb_string (read_bytes h src n))
         else None)"

definition tag_bytes :: "nat \<Rightarrow> nat \<Rightarrow> byte list" where
  "tag_bytes wt num = varint (8 * num + wt)"

text \<open>
  The wire types of the encoding: 0 for a varint, 1 and 5 for eight and four bytes, 2 for a length and so many bytes.
\<close>

definition wire_types :: "(byte \<times> nat) list" where
  "wire_types = [(PB_LTYPE_BOOL, 0), (PB_LTYPE_VARINT, 0), (PB_LTYPE_UVARINT, 0), (PB_LTYPE_SVARINT, 0), (PB_LTYPE_FIXED32, 5),
     (PB_LTYPE_FIXED64, 1), (PB_LTYPE_BYTES, 2), (PB_LTYPE_STRING, 2), (PB_LTYPE_SUBMESSAGE, 2), (PB_LTYPE_FIXED_LENGTH_BYTES, 2)]"

definition field_tag_bytes :: "pb_field \<Rightarrow> spec_bytes" where
  "field_tag_bytes f = (case map_of wire_types (PB_LTYPE (f_type f)) of None \<Rightarrow> Some None | Some wt \<Rightarrow> emit (tag_bytes wt (f_tag f)))"

definition single_bytes :: "heap \<Rightarrow> (nat \<Rightarrow> nat \<Rightarrow> spec_bytes) \<Rightarrow> pb_field \<Rightarrow> nat \<Rightarrow> spec_bytes" where
  "single_bytes h sub f p = then_bytes (field_tag_bytes f) (value_bytes h sub f p)"

definition array_bytes :: "heap \<Rightarrow> (nat \<Rightarrow> nat \<Rightarrow> spec_bytes) \<Rightarrow> pb_field \<Rightarrow> nat \<Rightarrow> nat \<Rightarrow> spec_bytes" where
  "array_bytes h sub f p count =
     (let at = (\<lambda>k. p + k * f_data_size f);
          item = (\<lambda>q. if PB_ATYPE (f_type f) = PB_ATYPE_POINTER \<and>
                         (PB_LTYPE (f_type f) = PB_LTYPE_STRING \<or> PB_LTYPE (f_type f) = PB_LTYPE_BYTES)
                      then load h q 8 else q)
      in if count = 0 then emit []
         else if PB_ATYPE (f_type f) \<noteq> PB_ATYPE_POINTER \<and> count > f_array_size f then Some None
         else if PB_LTYPE (f_type f) \<le> PB_LTYPE_LAST_PACKABLE then
           then_bytes (emit (tag_bytes 2 (f_tag f)))
             (map_option (map_option pb_string) (all_bytes (map (\<lambda>k. value_bytes h sub f (at k)) [0..<count])))
         else all_bytes (map (\<lambda>k. then_bytes (field_tag_bytes f) (value_bytes h sub f (item (at k)))) [0..<count]))"

text \<open>
  Whether a field of a structure is absent.  A required field never is, nor an array without a counter; a field with a flag, a
  counter or a oneof number is absent when that is 0; any other field is when it holds the default value of its
  type: a null pointer, no callback, an empty string, a submessage whose fields are all absent, or zero.
  \<open>None\<close> stands for a descriptor that means nothing, or for more nesting than \<open>d\<close>.
\<close>

fun all_absent :: "bool option list \<Rightarrow> bool option" where
  "all_absent [] = Some True"
| "all_absent (a # as) = (case a of None \<Rightarrow> None | Some False \<Rightarrow> Some False | Some True \<Rightarrow> all_absent as)"

fun absent :: "nat \<Rightarrow> pb_enc_env \<Rightarrow> heap \<Rightarrow> pb_field \<Rightarrow> nat \<Rightarrow> bool option" where
  "absent 0 E h f p = None"
| "absent (Suc d) E h f p =
     (let l = PB_LTYPE (f_type f);
          a = PB_ATYPE (f_type f);
          ht = PB_HTYPE (f_type f);
          n = f_data_size f;
          sz = add_offset p (f_size_offset f)
      in if ht = PB_HTYPE_REQUIRED then Some False
         else if ht = PB_HTYPE_ONEOF \<or> ht = PB_HTYPE_REPEATED \<and> f_size_offset f \<noteq> 0 then Some (load h sz 4 = 0)
         else if f_size_offset f \<noteq> 0 then Some (load h sz 1 = 0)
         else if a = PB_ATYPE_POINTER then Some (load h p 8 = 0)
         else if a = PB_ATYPE_CALLBACK then
           Some (load h p 8 = 0 \<and> (l \<noteq> PB_LTYPE_EXTENSION \<longrightarrow> load h (p + 8) 8 = 0))
         else if a \<noteq> PB_ATYPE_STATIC then None
         else if ht = PB_HTYPE_REPEATED then Some False
         else if l = PB_LTYPE_BYTES then Some (load h p 4 = 0)
         else if l = PB_LTYPE_STRING then Some (string_length n h p = 0)
         else if l = PB_LTYPE_FIXED_LENGTH_BYTES then Some (n = 0)
         else if l = PB_LTYPE_SUBMESSAGE then
           (case f_ptr f of
              Submsg i \<Rightarrow> let flds = ee_fields E i in
                if p = 0 then None
                else all_absent (map (\<lambda>k. absent d E h (flds ! k) (p + field_off flds k)) [0..<field_count flds])
            | _ \<Rightarrow> None)
         else Some (load h p n = 0))"

definition basic_bytes :: "pb_enc_env \<Rightarrow> heap \<Rightarrow> (nat \<Rightarrow> nat \<Rightarrow> spec_bytes) \<Rightarrow> pb_field \<Rightarrow> nat \<Rightarrow> spec_bytes" where
  "basic_bytes E h sub f p0 =
     (if PB_LTYPE_FIXED_LENGTH_BYTES < PB_LTYPE (f_type f) then None
      else let type = f_type f;
          sz = add_offset p0 (f_size_offset f);
          explicit = (f_size_offset f \<noteq> 0);
          pointer = (PB_ATYPE type = PB_ATYPE_POINTER);
          p = (if pointer then load h p0 8 else p0);
          single = single_bytes h sub f p
      in if PB_HTYPE type = PB_HTYPE_REQUIRED then (if p = 0 then Some None else single)
         else if PB_HTYPE type = PB_HTYPE_OPTIONAL then
           (case absent (Suc (ee_nest E)) E h f p0 of None \<Rightarrow> None | Some zero \<Rightarrow> if zero then emit [] else single)
         else if PB_HTYPE type = PB_HTYPE_REPEATED then
           array_bytes h sub f p (if explicit then load h sz 4 else f_array_size f)
         else if \<not> explicit then None
         else if load h sz 4 = f_tag f then single
         else emit [])"

text \<open>What the functions of the user write, by their address, field and argument.\<close>

type_synonym callback_bytes = "nat \<Rightarrow> pb_field \<Rightarrow> nat \<Rightarrow> heap \<Rightarrow> byte list option"

definition field_bytes :: "pb_enc_env \<Rightarrow> callback_bytes \<Rightarrow> heap \<Rightarrow> (nat \<Rightarrow> nat \<Rightarrow> spec_bytes) \<Rightarrow> pb_field \<Rightarrow> nat \<Rightarrow> spec_bytes" where
  "field_bytes E cb h sub f p =
     (let a = PB_ATYPE (f_type f)
      in if PB_LTYPE (f_type f) = PB_LTYPE_EXTENSION then (if load h p 8 = 0 then emit [] else None)
         else if a = PB_ATYPE_STATIC \<or> a = PB_ATYPE_POINTER then basic_bytes E h sub f p
         else if a = PB_ATYPE_CALLBACK then (if load h p 8 = 0 then emit [] else Some (cb (load h p 8) f (p + 8) h))
         else Some None)"

fun msg_bytes :: "nat \<Rightarrow> pb_enc_env \<Rightarrow> callback_bytes \<Rightarrow> heap \<Rightarrow> nat \<Rightarrow> nat \<Rightarrow> spec_bytes" where
  "msg_bytes 0 E cb h i src = None"
| "msg_bytes (Suc d) E cb h i src =
     (let flds = ee_fields E i
      in if src = 0 then None
         else all_bytes (map (\<lambda>k. field_bytes E cb h (\<lambda>i1 src1. msg_bytes d E cb h i1 src1) (flds ! k) (src + field_off flds k))
                [0..<field_count flds]))"

definition message_bytes :: "pb_enc_env \<Rightarrow> callback_bytes \<Rightarrow> heap \<Rightarrow> nat \<Rightarrow> nat \<Rightarrow> spec_bytes" where
  "message_bytes E cb h i src = msg_bytes (ee_nest E) E cb h i src"

section \<open>Writing a specification\<close>

text \<open>Objects are smaller than \<open>2 ^ 63\<close> bytes.\<close>

definition os_room :: "pb_ostream \<Rightarrow> bool" where
  "os_room s \<longleftrightarrow> os_ok s \<and> max_size s < 2 ^ 63"

definition encodes :: "spec_bytes \<Rightarrow> (pb_ostream \<Rightarrow> enc_result) \<Rightarrow> bool" where
  "encodes sp enc \<longleftrightarrow> (\<forall>s. os_room s \<longrightarrow>
     (case sp of
        None \<Rightarrow> True
      | Some None \<Rightarrow> (\<exists>s1. enc s = Some (False, s1))
      | Some (Some bs) \<Rightarrow> length bs < 2 ^ 63 \<longrightarrow> (\<exists>ok s1. enc s = Some (ok, s1) \<and> emits bs s ok s1)))"

lemma encodesD:
  assumes "encodes sp enc" and "os_room s"
  shows "sp = Some None \<Longrightarrow> \<exists>s1. enc s = Some (False, s1)"
    and "sp = Some (Some bs) \<Longrightarrow> length bs < 2 ^ 63 \<Longrightarrow> \<exists>ok s1. enc s = Some (ok, s1) \<and> emits bs s ok s1"
  using assms by (auto simp: encodes_def)

lemma emits_room: "emits bs s True s1 \<Longrightarrow> os_room s \<Longrightarrow> os_room s1"
  by (simp add: emits_def os_room_def)

lemma emits_nil: "os_ok s \<Longrightarrow> emits [] s True s"
  by (auto simp: emits_def os_ok_def)

lemma encodes_nil: "encodes (emit []) (\<lambda>s. Some (True, s))"
  by (auto simp: encodes_def emit_def os_room_def intro: emits_nil)

lemma encodes_error: "encodes (Some None) (\<lambda>s. Some (False, err s))"
  by (simp add: encodes_def)

lemma encodes_none: "encodes None enc"
  by (simp add: encodes_def)

lemma encodes_emit:
  assumes "\<And>s. os_ok s \<Longrightarrow> emits bs s (fst (w s)) (snd (w s))"
  shows "encodes (emit bs) (\<lambda>s. Some (w s))"
  using assms by (auto simp: encodes_def emit_def os_room_def) (metis prod.collapse)

lemma encodes_then:
  assumes "encodes a first" and "encodes b second"
  shows "encodes (then_bytes a b)
    (\<lambda>s. case first s of None \<Rightarrow> None | Some (False, s1) \<Rightarrow> Some (False, s1) | Some (True, s1) \<Rightarrow> second s1)"
    (is "encodes _ ?enc")
  unfolding encodes_def
proof (intro allI impI)
  fix s
  assume s: "os_room s"
  note A = encodesD [OF assms(1) s]
  consider "a = None" | "a = Some None" | x where "a = Some (Some x)" by (cases a) (auto split: option.splits)
  then show "case then_bytes a b of None \<Rightarrow> True | Some None \<Rightarrow> \<exists>s1. ?enc s = Some (False, s1)
      | Some (Some bs) \<Rightarrow> length bs < 2 ^ 63 \<longrightarrow> (\<exists>ok s1. ?enc s = Some (ok, s1) \<and> emits bs s ok s1)"
  proof cases
    case 2
    then show ?thesis using A(1) by (auto simp: then_bytes_def)
  next
    case (3 x)
    show ?thesis
    proof (cases "length x < 2 ^ 63")
      case True
      from A(2) [OF 3 this] obtain ok s1 where f: "first s = Some (ok, s1)" "emits x s ok s1" by blast
      show ?thesis
      proof (cases ok)
        case False
        have "emits (x @ cs) s False s1" for cs using f(2) False s by (auto simp: os_room_def intro: emits_fail)
        then show ?thesis using f(1) False 3 by (auto simp: then_bytes_def split: option.splits)
      next
        case ok: True
        then have "os_room s1" using emits_room [of x s s1] f(2) s by simp
        from encodesD [OF assms(2) this] f ok 3 emits_then [of x s s1] show ?thesis
          by (auto simp: then_bytes_def split: option.splits)
      qed
    next
      case False
      then show ?thesis using 3 A
        by (cases b) (auto simp: then_bytes_def split: option.splits)
    qed
  qed (simp add: then_bytes_def)
qed

section \<open>Field encoders\<close>

lemma load_less: "load h a n < 256 ^ n"
  using be_val_less [of "rev (map (hp_mem h) [a..<a + n])"] by (simp add: load_def)

lemma le_bytes_load: "le_bytes n (load h a n) = read_bytes h a n"
  unfolding load_def read_bytes_def by (rule le_bytes_value) simp

lemma length_read_bytes [simp]: "length (read_bytes h a n) = n"
  by (simp add: read_bytes_def)

lemma encodes_varint: "encodes (emit (varint (unat v))) (\<lambda>s. Some (pb_encode_varint s v))"
  by (rule encodes_emit) (rule pb_varint.wr_emits)

lemma encodes_string: "encodes (emit (pb_string bs)) (\<lambda>s. Some (pb_encode_string s bs))"
  unfolding encodes_def emit_def
proof (intro allI impI, simp, intro impI)
  fix s
  assume "os_room s" "length (pb_string bs) < 9223372036854775808"
  then have "os_ok s" "length bs < 2 ^ 63" by (simp_all add: os_room_def pb_string_def)
  from pb_encode_string_emits [OF this] show "\<exists>ok s1. pb_encode_string s bs = (ok, s1) \<and> emits (pb_string bs) s ok s1"
    by (metis prod.collapse)
qed

lemma encodes_fixed:
  "encodes (emit (read_bytes h src 4)) (\<lambda>s. Some (pb_enc_fixed32 h s src))"
  "encodes (emit (read_bytes h src 8)) (\<lambda>s. Some (pb_enc_fixed64 h s src))"
proof -
  have "load h src 4 < 2 ^ 32" "load h src 8 < 2 ^ 64" using load_less [of h src 4] load_less [of h src 8] by simp_all
  then have u: "unat (word_of_nat (load h src 4) :: u32) = load h src 4" "unat (word_of_nat (load h src 8) :: u64) = load h src 8"
    by (simp_all add: unat_of_nat)
  show "encodes (emit (read_bytes h src 4)) (\<lambda>s. Some (pb_enc_fixed32 h s src))"
    using pb_fixed32.wr_emits [where a = "word_of_nat (load h src 4)"] unfolding u le_bytes_load
    by (intro encodes_emit) (simp add: pb_enc_fixed32_def)
  show "encodes (emit (read_bytes h src 8)) (\<lambda>s. Some (pb_enc_fixed64 h s src))"
    using pb_fixed64.wr_emits [where a = "word_of_nat (load h src 8)"] unfolding u le_bytes_load
    by (intro encodes_emit) (simp add: pb_enc_fixed64_def)
qed

lemma encodes_tag:
  assumes "wt < 8" and "num < 2 ^ 32"
  shows "encodes (emit (tag_bytes wt num)) (\<lambda>s. Some (pb_encode_tag s wt (word_of_nat num)))"
proof (rule encodes_emit)
  fix s
  assume s: "os_ok s"
  have u: "unat (word_of_nat num :: u32) = num" using assms(2) by (simp add: unat_of_nat)
  have n: "8 * num + wt < 2 ^ 35" using assms by simp
  then have "8 * num + wt < 128 ^ Suc 4" by simp
  from length_varint [OF this] have "length (tag_bytes wt num) < 2 ^ 64" by (simp add: tag_bytes_def)
  from pb_write_emits [OF s this] show "emits (tag_bytes wt num) s (fst (pb_encode_tag s wt (word_of_nat num))) (snd (pb_encode_tag s wt (word_of_nat num)))"
    unfolding pb_encode_tag_writes [OF assms(1)] u tag_bytes_def .
qed

text \<open>The two passes over a submessage.\<close>

lemma sizing_room: "os_room PB_OSTREAM_SIZING"
  by (simp add: os_room_def os_ok_def PB_OSTREAM_SIZING_def)

lemma sizing_size: "emits bs PB_OSTREAM_SIZING ok ss \<Longrightarrow> length bs < 2 ^ 63 \<Longrightarrow> ok \<and> bytes_written ss = length bs"
  by (simp add: emits_def PB_OSTREAM_SIZING_def)

lemma write_null_emits: "os_ok s \<Longrightarrow> os_sizing s \<Longrightarrow> n = length bs \<Longrightarrow> emits bs s (fst (pb_write_null s n)) (snd (pb_write_null s n))"
  by (simp add: pb_write_null_def emits_def os_ok_def)

lemma encodes_submessage:
  assumes "encodes sp (\<lambda>s. sub i s src)"
  shows "encodes (map_option (map_option pb_string) sp) (\<lambda>s. pb_encode_submessage sub s i src)"
  unfolding encodes_def
proof (intro allI impI)
  fix s
  assume s: "os_room s"
  note sz = encodesD [OF assms sizing_room]
  consider "sp = None" | "sp = Some None" | bs where "sp = Some (Some bs)" by (cases sp) (auto split: option.splits)
  then show "case map_option (map_option pb_string) sp of None \<Rightarrow> True | Some None \<Rightarrow> \<exists>s1. pb_encode_submessage sub s i src = Some (False, s1)
      | Some (Some bs) \<Rightarrow> length bs < 2 ^ 63 \<longrightarrow> (\<exists>ok s1. pb_encode_submessage sub s i src = Some (ok, s1) \<and> emits bs s ok s1)"
  proof cases
    case 2
    then show ?thesis using sz(1) by (auto simp: pb_encode_submessage_def)
  next
    case (3 bs)
    have "\<exists>ok s1. pb_encode_submessage sub s i src = Some (ok, s1) \<and> emits (pb_string bs) s ok s1"
      if "length (pb_string bs) < 2 ^ 63"
    proof -
      have len: "length bs < 2 ^ 63" using that by (simp add: pb_string_def)
      from sz(2) [OF 3 len] obtain ok ss where "sub i PB_OSTREAM_SIZING src = Some (ok, ss)"
        and e0: "emits bs PB_OSTREAM_SIZING ok ss" by blast
      with sizing_size [OF e0 len] have ss: "sub i PB_OSTREAM_SIZING src = Some (True, ss)" "bytes_written ss = length bs" by simp_all
      have u: "unat (word_of_nat (length bs) :: u64) = length bs" using len by (simp add: unat_of_nat)
      obtain ok1 s1 where v: "pb_encode_varint s (word_of_nat (length bs)) = (ok1, s1)" by force
      have e1: "emits (varint (length bs)) s ok1 s1"
        using pb_varint.wr_emits [of s "word_of_nat (length bs)"] s v u by (simp add: os_room_def)
      note E = pb_encode_submessage_def [of sub s i src, unfolded ss(1), simplified, unfolded Let_def ss(2) v, simplified]
      show ?thesis
      proof (cases ok1)
        case False
        then have "emits (pb_string bs) s False s1" using emits_fail [of "varint (length bs)" s s1 bs] e1 s
          by (simp add: pb_string_def os_room_def)
        then show ?thesis using False by (auto simp: E)
      next
        case ok1: True
        have r1: "os_room s1" using emits_room [of _ s s1] e1 ok1 s by simp
        have join: "emits (pb_string bs) s ok' s'" if "emits bs s1 ok' s'" for ok' s'
          using emits_then [OF _ that] e1 ok1 by (simp add: pb_string_def)
        show ?thesis
        proof (cases "os_sizing s1")
          case True
          obtain ok2 s2 where n: "pb_write_null s1 (length bs) = (ok2, s2)" by force
          have "emits bs s1 ok2 s2" using write_null_emits [OF _ True refl, of bs] r1 n by (simp add: os_room_def)
          then show ?thesis using ok1 True n join by (auto simp: E)
        next
          case real: False
          have r: "bytes_written s1 \<le> max_size s1" "max_size s1 < 2 ^ 63" "os_pos s1 + max_size s1 \<le> length (os_mem s1) + bytes_written s1"
            "max_size s1 < 2 ^ 64" "bytes_written s1 < 2 ^ 64"
            using r1 real unfolding os_room_def os_ok_def by blast+
          then have w: "size_wrap (bytes_written s1 + length bs) = bytes_written s1 + length bs" using len by simp
          show ?thesis
          proof (cases "bytes_written s1 + length bs \<le> max_size s1")
            case False
            then have "emits bs s1 False (pb_oset_error s1 ''stream full'')"
              using real r1 by (simp add: emits_def pb_oset_error_def os_room_def os_ok_def)
            from join [OF this] show ?thesis using ok1 real False unfolding E w by auto
          next
            case fits: True
            let ?sub = "\<lparr>os_sizing = False, os_mem = os_mem s1, os_pos = os_pos s1, max_size = length bs, bytes_written = 0, os_errmsg = None\<rparr>"
            have "os_room ?sub" using len r(3) fits by (simp add: os_room_def os_ok_def)
            from encodesD(2) [OF assms this 3 len] obtain ok2 ss2 where p2: "sub i ?sub src = Some (ok2, ss2)" "emits bs ?sub ok2 ss2" by blast
            then have ok2: ok2 by (simp add: emits_def)
            note d = emitsD [OF p2(2) [unfolded eqTrueI [OF ok2]], simplified]
            define s2 where "s2 = s1\<lparr>bytes_written := size_wrap (bytes_written s1 + bytes_written ss2),
                                        os_mem := os_mem ss2, os_pos := os_pos ss2, os_errmsg := os_errmsg ss2\<rparr>"
            have bw: "bytes_written ss2 = length bs" using d(5) by simp
            have "emits bs s1 True s2"
              unfolding emits_def s2_def bw w using real r fits d(4,6,7,8) by (simp add: os_ok_def)
            from join [OF this] show ?thesis using ok1 real fits p2(1) ok2 bw unfolding E w s2_def by auto
          qed
        qed
      qed
    qed
    then show ?thesis using 3 by simp
  qed simp
qed

end
