(* ===== verification/Pb_Enc_Exact.thy ===== *)
theory Pb_Enc_Exact
  imports Pb_Enc_Spec
begin

text \<open>Every encoder writes its specification: values, arrays, fields and messages.\<close>

section \<open>Values\<close>

lemma encodes_cong:
  assumes "encodes sp enc" and "\<And>s. enc' s = enc s"
  shows "encodes sp enc'"
proof -
  have "enc' = enc" by (rule ext) (rule assms(2))
  then show ?thesis using assms(1) by simp
qed

lemma encodes_if:
  assumes "c \<Longrightarrow> encodes a e1" and "\<not> c \<Longrightarrow> encodes b e2"
  shows "encodes (if c then a else b) (\<lambda>s. if c then e1 s else e2 s)"
  using assms by (cases c) simp_all

lemma encodes_integer:
  assumes "\<And>s. w s = (if c then g s else (False, err s))" and "encodes (emit bs) (\<lambda>s. Some (g s))"
  shows "encodes (if c then emit bs else Some None) (\<lambda>s. Some (w s))"
  using assms encodes_error by (cases c) simp_all

lemma pb_encode_svarint_zigzag: "pb_encode_svarint s v = pb_encode_varint s (zigzag v)"
  by (simp add: pb_encode_svarint_def zigzag_def)

text \<open>What a function takes for the encoder of submessages.\<close>

definition sub_encodes :: "(nat \<Rightarrow> nat \<Rightarrow> spec_bytes) \<Rightarrow> sub_encoder \<Rightarrow> bool" where
  "sub_encodes sp sub \<longleftrightarrow> (\<forall>i src. encodes (sp i src) (\<lambda>s. sub i s src))"

lemma encodes_value:
  assumes "sub_encodes sp sub"
  shows "encodes (value_bytes h sp f src) (\<lambda>s. PB_ENCODERS h sub f s src)"
proof -
  define l where "l = PB_LTYPE (f_type f)"
  note E = PB_ENCODERS_def [of h sub f _ src, unfolded Let_def, folded l_def]
  note V = value_bytes_def [of h sp f src, unfolded Let_def, folded l_def]
  have one: "unat (if b then 1 else 0 :: u64) = (if b then 1 else 0)" for b by simp
  consider "l = PB_LTYPE_BOOL" | "l = PB_LTYPE_VARINT" | "l = PB_LTYPE_UVARINT" | "l = PB_LTYPE_SVARINT" | "l = PB_LTYPE_FIXED32"
    | "l = PB_LTYPE_FIXED64" | "l = PB_LTYPE_BYTES" | "l = PB_LTYPE_STRING" | "l = PB_LTYPE_SUBMESSAGE" | "l = PB_LTYPE_FIXED_LENGTH_BYTES"
    | "value_bytes h sp f src = None" unfolding V by argo
  then show ?thesis
  proof cases
    case 1
    then show ?thesis using encodes_varint [of "if safe_read_bool h src then 1 else 0"]
      by (simp add: V E one pb_enc_bool_def pb_type_defs)
  next
    case 2
    have "encodes (if integer_size f then emit (varint (unat (load_signed h src (f_data_size f)))) else Some None)
      (\<lambda>s. Some (pb_enc_varint h s f src))"
      by (rule encodes_integer [OF pb_enc_varint_def encodes_varint])
    with 2 show ?thesis by (simp add: V E pb_type_defs split del: if_split)
  next
    case 3
    have "encodes (if integer_size f then emit (varint (unat (load_unsigned h src (f_data_size f)))) else Some None)
      (\<lambda>s. Some (pb_enc_uvarint h s f src))"
      by (rule encodes_integer [OF pb_enc_uvarint_def encodes_varint])
    with 3 show ?thesis by (simp add: V E pb_type_defs split del: if_split)
  next
    case 4
    have "encodes (if integer_size f then emit (varint (unat (zigzag (load_signed h src (f_data_size f))))) else Some None)
      (\<lambda>s. Some (pb_enc_svarint h s f src))"
      by (rule encodes_integer [OF pb_enc_svarint_def [unfolded pb_encode_svarint_zigzag] encodes_varint])
    with 4 show ?thesis by (simp add: V E pb_type_defs split del: if_split)
  next
    case 5
    then show ?thesis using encodes_fixed(1) [of h src] by (simp add: V E pb_type_defs)
  next
    case 6
    then show ?thesis using encodes_fixed(2) [of h src] by (simp add: V E pb_type_defs)
  next
    case 7
    have "encodes (value_bytes h sp f src) (\<lambda>s. Some (pb_enc_bytes h s f src))"
    proof (cases "src \<noteq> 0 \<and> PB_ATYPE (f_type f) = PB_ATYPE_STATIC \<and> load h src 4 > size_wrap (f_data_size f + (2 ^ 64 - 4))")
      case True
      then show ?thesis using 7 encodes_error by (simp add: V pb_enc_bytes_def Let_def pb_type_defs)
    next
      case False
      then show ?thesis using 7 encodes_string unfolding V pb_enc_bytes_def Let_def
        by (cases "src = 0") (auto simp add: pb_type_defs)
    qed
    then show ?thesis using 7 by (simp add: E pb_type_defs)
  next
    case 8
    then show ?thesis using encodes_string by (simp add: V E pb_type_defs pb_enc_string_def Let_def)
  next
    case 9
    show ?thesis
    proof (cases "f_ptr f")
      case (Submsg i)
      have "encodes (sp i src) (\<lambda>s. sub i s src)" using assms by (simp add: sub_encodes_def)
      from encodes_submessage [where sub = sub and i = i and src = src, OF this] show ?thesis using 9 Submsg by (simp add: V E pb_type_defs pb_enc_submessage_def)
    qed (use 9 encodes_error encodes_none in \<open>simp_all add: V E pb_type_defs pb_enc_submessage_def\<close>)
  next
    case 10
    then show ?thesis using encodes_string by (simp add: V E pb_type_defs pb_enc_fixed_length_bytes_def)
  qed (simp add: encodes_none)
qed

section \<open>Arrays\<close>

lemma field_wire_type_spec: "field_wire_type f = map_of wire_types (PB_LTYPE (f_type f))"
  by (simp add: field_wire_type_def wire_types_def Let_def)

lemma encodes_field_tag:
  assumes "f_tag f < 2 ^ 32"
  shows "encodes (field_tag_bytes f) (\<lambda>s. Some (pb_encode_tag_for_field s f))"
proof (cases "field_wire_type f")
  case None
  then show ?thesis using encodes_error by (simp add: field_tag_bytes_def pb_encode_tag_for_field_def field_wire_type_spec)
next
  case (Some wt)
  then have "wt < 8" by (auto simp: field_wire_type_def Let_def split: if_splits)
  from encodes_tag [OF this assms] Some show ?thesis
    by (simp add: field_tag_bytes_def pb_encode_tag_for_field_def field_wire_type_spec)
qed

lemma encodes_items:
  assumes "\<And>q. encodes (item q) (\<lambda>s. enc s q)"
  shows "encodes (all_bytes (map (\<lambda>k. item (p + k * w)) [0..<n])) (\<lambda>s. encode_items n enc w s p)"
proof (induction n arbitrary: p)
  case 0
  then show ?case using encodes_nil by (simp add: all_bytes_def)
next
  case (Suc n)
  have m: "map (\<lambda>k. item (p + k * w)) [0..<Suc n] = item p # map (\<lambda>k. item (p + w + k * w)) [0..<n]"
    unfolding upt_conv_Cons [OF zero_less_Suc] map_Suc_upt [symmetric] by (simp add: add.assoc)
  show ?case unfolding m using encodes_then [OF assms [of p] Suc.IH [of "p + w"]]
    by (simp add: all_bytes_def)
qed

text \<open>A length and then the items, with the length known before.\<close>

lemma encodes_sized:
  assumes "encodes sp items"
    and "sp = Some None \<Longrightarrow> sz = Some (Inl ())"
    and "\<And>bs. sp = Some (Some bs) \<Longrightarrow> length bs < 2 ^ 63 \<Longrightarrow> sz = Some (Inr (length bs))"
  shows "encodes (map_option (map_option pb_string) sp)
    (\<lambda>s. case sz of None \<Rightarrow> None | Some (Inl _) \<Rightarrow> Some (False, s)
       | Some (Inr len) \<Rightarrow> (case pb_encode_varint s (word_of_nat len) of
            (False, s2) \<Rightarrow> Some (False, s2)
          | (True, s2) \<Rightarrow> if os_sizing s2 then Some (pb_write_null s2 len) else items s2))"
    (is "encodes _ ?enc")
  unfolding encodes_def
proof (intro allI impI)
  fix s
  assume s: "os_room s"
  consider "sp = None" | "sp = Some None" | bs where "sp = Some (Some bs)" by (cases sp) (auto split: option.splits)
  then show "case map_option (map_option pb_string) sp of None \<Rightarrow> True | Some None \<Rightarrow> \<exists>s1. ?enc s = Some (False, s1)
      | Some (Some bs) \<Rightarrow> length bs < 2 ^ 63 \<longrightarrow> (\<exists>ok s1. ?enc s = Some (ok, s1) \<and> emits bs s ok s1)"
  proof cases
    case 2
    then show ?thesis using assms(2) by simp
  next
    case (3 bs)
    have "\<exists>ok s1. ?enc s = Some (ok, s1) \<and> emits (pb_string bs) s ok s1" if "length (pb_string bs) < 2 ^ 63"
    proof -
      have len: "length bs < 2 ^ 63" using that by (simp add: pb_string_def)
      note sz = assms(3) [OF 3 len]
      have u: "unat (word_of_nat (length bs) :: u64) = length bs" using len by (simp add: unat_of_nat)
      obtain ok1 s1 where v: "pb_encode_varint s (word_of_nat (length bs)) = (ok1, s1)" by force
      have e1: "emits (varint (length bs)) s ok1 s1"
        using pb_varint.wr_emits [of s "word_of_nat (length bs)"] s v u by (simp add: os_room_def)
      show ?thesis
      proof (cases ok1)
        case False
        then have "emits (pb_string bs) s False s1" using emits_fail [of "varint (length bs)" s s1 bs] e1 s
          by (simp add: pb_string_def os_room_def)
        then show ?thesis using False sz v by auto
      next
        case ok1: True
        have r1: "os_room s1" using emits_room [of _ s s1] e1 ok1 s by simp
        have join: "emits (pb_string bs) s ok' s'" if "emits bs s1 ok' s'" for ok' s'
          using emits_then [OF _ that] e1 ok1 by (simp add: pb_string_def)
        show ?thesis
        proof (cases "os_sizing s1")
          case True
          obtain ok2 s2 where n: "pb_write_null s1 (length bs) = (ok2, s2)" by force
          have "emits bs s1 ok2 s2" using write_null_emits [OF _ True refl, of bs] r1 n by (simp add: os_room_def)
          then show ?thesis using ok1 True n join sz v by auto
        next
          case False
          from encodesD(2) [OF assms(1) r1 3 len] obtain ok2 s2 where "items s1 = Some (ok2, s2)" "emits bs s1 ok2 s2" by blast
          then show ?thesis using ok1 False join sz v by auto
        qed
      qed
    qed
    then show ?thesis using 3 by simp
  qed simp
qed

lemma all_bytes_fixed:
  assumes "all_bytes (map (\<lambda>k. emit (g k)) ks) = Some r" and "\<And>k. length (g k) = w"
  shows "\<exists>bs. r = Some bs \<and> length bs = w * length ks"
  using assms(1)
proof (induction ks arbitrary: r)
  case Nil
  then show ?case by (simp add: all_bytes_def emit_def)
next
  case (Cons k ks)
  then obtain r2 where r2: "all_bytes (map (\<lambda>k. emit (g k)) ks) = Some r2" "r = map_option ((@) (g k)) r2"
    by (auto simp: all_bytes_def then_bytes_def emit_def split: if_splits)
  from Cons.IH [OF this(1)] this(2) show ?case using assms(2) by auto
qed

lemma encodes_packed:
  assumes sub: "sub_encodes sp sub" and tag: "f_tag f < 2 ^ 32"
  shows "encodes (then_bytes (emit (tag_bytes 2 (f_tag f)))
      (map_option (map_option pb_string) (all_bytes (map (\<lambda>k. value_bytes h sp f (p + k * f_data_size f)) [0..<count]))))
    (\<lambda>s. array_packed h sub s f p count)"
proof -
  define l where "l = PB_LTYPE (f_type f)"
  define items where "items = encode_items count (PB_ENCODERS h sub f) (f_data_size f)"
  define its where "its = all_bytes (map (\<lambda>k. value_bytes h sp f (p + k * f_data_size f)) [0..<count])"
  define sz where "sz = (if l = PB_LTYPE_FIXED32 then Some (Inr (4 * count))
      else if l = PB_LTYPE_FIXED64 then Some (Inr (8 * count))
      else map_option (\<lambda>(ok, ss). if ok then Inr (bytes_written ss) else Inl ()) (items PB_OSTREAM_SIZING p))"
  have I: "encodes its (\<lambda>s. items s p)"
    unfolding its_def items_def by (rule encodes_items [OF encodes_value [OF sub]])
  have fixed: "\<exists>bs. r = Some bs \<and> length bs = w * count"
    if "its = Some r" "\<And>q. value_bytes h sp f q = emit (read_bytes h q w)" for r w
    using all_bytes_fixed [of "\<lambda>k. read_bytes h (p + k * f_data_size f) w" "[0..<count]" r w] that by (simp add: its_def)
  have v4: "value_bytes h sp f q = emit (read_bytes h q 4)" if "l = PB_LTYPE_FIXED32" for q
    using that by (simp add: value_bytes_def Let_def l_def pb_type_defs)
  have v8: "value_bytes h sp f q = emit (read_bytes h q 8)" if "l = PB_LTYPE_FIXED64" for q
    using that by (simp add: value_bytes_def Let_def l_def pb_type_defs)
  note S = encodesD [OF I sizing_room]
  have e: "sz = Some (Inl ())" if "its = Some None"
  proof (cases "l = PB_LTYPE_FIXED32 \<or> l = PB_LTYPE_FIXED64")
    case True
    then show ?thesis using fixed [OF that v4] fixed [OF that v8] by blast
  next
    case False
    then show ?thesis using S(1) [OF that] by (auto simp: sz_def)
  qed
  have o: "sz = Some (Inr (length bs))" if "its = Some (Some bs)" "length bs < 2 ^ 63" for bs
  proof (cases "l = PB_LTYPE_FIXED32 \<or> l = PB_LTYPE_FIXED64")
    case True
    then show ?thesis using fixed [OF that(1) v4] fixed [OF that(1) v8] by (auto simp: sz_def pb_type_defs)
  next
    case False
    from S(2) [OF that] obtain ok ss where "items PB_OSTREAM_SIZING p = Some (ok, ss)" "emits bs PB_OSTREAM_SIZING ok ss" by blast
    then show ?thesis using False sizing_size [OF _ that(2)] by (auto simp: sz_def)
  qed
  have t: "encodes (emit (tag_bytes 2 (f_tag f))) (\<lambda>s. Some (pb_encode_tag s 2 (word_of_nat (f_tag f))))"
    by (rule encodes_tag [OF _ tag]) simp
  show ?thesis
    unfolding its_def [symmetric]
    by (rule encodes_cong [OF encodes_then [OF t encodes_sized [OF I e o]]], assumption+)
      (simp only: array_packed_def Let_def items_def l_def sz_def option.case)
qed

lemma encodes_tagged:
  assumes "sub_encodes sp sub" and "f_tag f < 2 ^ 32"
  shows "encodes (then_bytes (field_tag_bytes f) (value_bytes h sp f q))
    (\<lambda>s. case pb_encode_tag_for_field s f of (False, s1) \<Rightarrow> Some (False, s1) | (True, s1) \<Rightarrow> PB_ENCODERS h sub f s1 q)"
  by (rule encodes_cong [OF encodes_then [OF encodes_field_tag [OF assms(2)] encodes_value [OF assms(1)]]])
    (simp only: option.case)

lemma encodes_array:
  assumes "sub_encodes sp sub" and "f_tag f < 2 ^ 32"
  shows "encodes (array_bytes h sp f p count) (\<lambda>s. encode_array h sub s f p count)"
proof -
  let ?item = "\<lambda>q. if PB_ATYPE (f_type f) = PB_ATYPE_POINTER \<and>
                         (PB_LTYPE (f_type f) = PB_LTYPE_STRING \<or> PB_LTYPE (f_type f) = PB_LTYPE_BYTES)
                      then load h q 8 else q"
  have I: "encodes (all_bytes (map (\<lambda>k. then_bytes (field_tag_bytes f) (value_bytes h sp f (?item (p + k * f_data_size f)))) [0..<count]))
    (\<lambda>s. encode_items count (array_item h sub f) (f_data_size f) s p)"
    by (rule encodes_items, unfold array_item_def) (rule encodes_tagged [OF assms])
  show ?thesis
    unfolding array_bytes_def encode_array_def Let_def
    by (intro encodes_if encodes_nil encodes_error encodes_packed [OF assms] I)
qed

section \<open>The check for default values\<close>

lemma be_val_zero: "be_val bs = 0 \<longleftrightarrow> (\<forall>b \<in> set bs. b = 0)"
  by (induction bs) (auto simp: unat_eq_0)

lemma load_zero: "(\<forall>b \<in> set (read_bytes h p n). b = 0) \<longleftrightarrow> load h p n = 0"
  by (simp add: load_def read_bytes_def be_val_zero)

lemma load_split: "load h p (m + n) = 0 \<longleftrightarrow> load h p m = 0 \<and> load h (p + m) n = 0"
proof -
  have "read_bytes h p (m + n) = read_bytes h p m @ read_bytes h (p + m) n"
    using upt_add_eq_append [of p "p + m" n] by (simp add: read_bytes_def add.assoc)
  then show ?thesis unfolding load_zero [symmetric] by (simp only: set_append ball_Un)
qed

lemma every_field_at:
  assumes "terminated flds" and "k < field_count flds" and "field_count flds \<le> k + n"
    and "\<And>j. k \<le> j \<Longrightarrow> j < field_count flds \<Longrightarrow> g j \<noteq> None \<Longrightarrow> check (iter_at flds q j) = g j"
    and "all_absent (map g [k..<field_count flds]) = Some z"
  shows "every_field n check (iter_at flds q k) = Some z"
  using assms(2-)
proof (induction n arbitrary: k)
  case 0
  then show ?case by simp
next
  case (Suc n)
  have p: "position flds k" using Suc.prems by (simp add: position_def)
  note nx = next_iter_at [OF assms(1) p, of q]
  have m: "map g [k..<field_count flds] = g k # map g [Suc k..<field_count flds]"
    using Suc.prems by (simp add: upt_conv_Cons)
  from Suc.prems(4) m obtain v where v: "g k = Some v" by (cases "g k") auto
  then have c: "check (iter_at flds q k) = Some v" using Suc.prems(1) Suc.prems(3) [of k] by simp
  show ?case
  proof (cases v)
    case False
    then show ?thesis using Suc.prems(4) v c m by simp
  next
    case True
    then have r: "all_absent (map g [Suc k..<field_count flds]) = Some z" using Suc.prems(4) v m by simp
    show ?thesis
    proof (cases "Suc k < field_count flds")
      case more: True
      have "every_field n check (iter_at flds q (Suc k)) = Some z"
        by (rule Suc.IH [OF more]) (use Suc.prems r in auto)
      then show ?thesis using more c True by (simp add: nx next_pos_def del: iter_at.simps)
    next
      case False
      then show ?thesis using r c True by (simp add: nx del: iter_at.simps)
    qed
  qed
qed

text \<open>
  Where the check of the code is the one of the specification.  It looks at the pointer itself only for the larger
  types, so a pointer to a number or a bool needs a flag; and it relies on the sizes the generator gives.
\<close>

definition checkable :: "pb_field \<Rightarrow> bool" where
  "checkable f \<longleftrightarrow>
     (PB_ATYPE (f_type f) = PB_ATYPE_POINTER \<and> f_size_offset f = 0 \<and> PB_HTYPE (f_type f) \<noteq> PB_HTYPE_REQUIRED \<and>
        PB_HTYPE (f_type f) \<noteq> PB_HTYPE_ONEOF \<longrightarrow> PB_LTYPE_LAST_PACKABLE < PB_LTYPE (f_type f)) \<and>
     (PB_ATYPE (f_type f) = PB_ATYPE_CALLBACK \<longrightarrow>
        f_data_size f = (if PB_LTYPE (f_type f) = PB_LTYPE_EXTENSION then 8 else 16)) \<and>
     (PB_ATYPE (f_type f) = PB_ATYPE_STATIC \<and> PB_LTYPE (f_type f) = PB_LTYPE_STRING \<longrightarrow> 0 < f_data_size f)"

definition checks_ok :: "pb_enc_env \<Rightarrow> bool" where
  "checks_ok E \<longleftrightarrow> (\<forall>i. \<forall>f \<in> set (ee_fields E i).
     (PB_ATYPE (f_type f) = PB_ATYPE_STATIC \<longrightarrow> checkable f) \<and>
     (\<forall>j. PB_ATYPE (f_type f) = PB_ATYPE_STATIC \<and> PB_HTYPE (f_type f) = PB_HTYPE_OPTIONAL \<and> f_size_offset f = 0 \<and>
        PB_LTYPE (f_type f) = PB_LTYPE_SUBMESSAGE \<and> f_ptr f = Submsg j \<longrightarrow> (\<forall>g \<in> set (ee_fields E j). checkable g)))"

lemma check_default_absent:
  assumes ok: "checks_ok E" and tm: "\<And>i. terminated (ee_fields E i)"
  shows "\<lbrakk>absent d E h f p = Some z; checkable f; f \<in> set (ee_fields E i)\<rbrakk> \<Longrightarrow> check_default d E h f p = Some z"
proof (induction d arbitrary: f p i z)
  case 0
  then show ?case by simp
next
  case (Suc d)
  define l a ht n sz where "l = PB_LTYPE (f_type f)" and "a = PB_ATYPE (f_type f)" and "ht = PB_HTYPE (f_type f)"
    and "n = f_data_size f" and "sz = add_offset p (f_size_offset f)"
  note A = absent.simps(2) [of d E h f p, unfolded Let_def, folded l_def a_def ht_def n_def sz_def]
  note C = check_default.simps(2) [of d E h f p, unfolded Let_def zero_value_def, folded l_def a_def ht_def n_def sz_def]
  have h: "ht = PB_HTYPE_REQUIRED \<or> ht = PB_HTYPE_OPTIONAL \<or> ht = PB_HTYPE_REPEATED \<or> ht = PB_HTYPE_ONEOF"
    unfolding ht_def by (rule PB_HTYPE_cases [of "f_type f"]) simp_all
  have dist: "PB_HTYPE_REQUIRED \<noteq> PB_HTYPE_OPTIONAL" "PB_HTYPE_REQUIRED \<noteq> PB_HTYPE_REPEATED" "PB_HTYPE_REQUIRED \<noteq> PB_HTYPE_ONEOF"
    "PB_HTYPE_OPTIONAL \<noteq> PB_HTYPE_REPEATED" "PB_HTYPE_OPTIONAL \<noteq> PB_HTYPE_ONEOF" "PB_HTYPE_REPEATED \<noteq> PB_HTYPE_ONEOF"
    "PB_ATYPE_POINTER \<noteq> PB_ATYPE_CALLBACK" "PB_ATYPE_STATIC \<noteq> PB_ATYPE_POINTER" "PB_ATYPE_STATIC \<noteq> PB_ATYPE_CALLBACK"
    by (simp_all add: PB_HTYPE_REQUIRED_def PB_HTYPE_OPTIONAL_def PB_HTYPE_REPEATED_def PB_HTYPE_ONEOF_def
        PB_ATYPE_STATIC_def PB_ATYPE_POINTER_def PB_ATYPE_CALLBACK_def)
  note ck = Suc.prems(2) [unfolded checkable_def, folded l_def a_def ht_def n_def]
  show ?case
  proof (cases "ht = PB_HTYPE_REQUIRED \<or> ht = PB_HTYPE_ONEOF \<or> f_size_offset f \<noteq> 0 \<or> ht = PB_HTYPE_REPEATED \<and> a = PB_ATYPE_STATIC")
    case True
    then consider "ht = PB_HTYPE_REQUIRED" | "ht = PB_HTYPE_ONEOF" | "ht = PB_HTYPE_REPEATED" "f_size_offset f \<noteq> 0"
      | "ht = PB_HTYPE_OPTIONAL" "f_size_offset f \<noteq> 0" | "ht = PB_HTYPE_REPEATED" "a = PB_ATYPE_STATIC" "f_size_offset f = 0"
      using h by blast
    then show ?thesis
    proof cases
      case 1
      then show ?thesis using Suc.prems(1) unfolding A C by simp
    next
      case 2
      then show ?thesis using Suc.prems(1) dist unfolding A C by simp
    next
      case 3
      then show ?thesis using Suc.prems(1) dist unfolding A C by simp
    next
      case 4
      then show ?thesis using Suc.prems(1) dist unfolding A C safe_read_bool_def by simp
    next
      case 5
      then show ?thesis using Suc.prems(1) dist unfolding A C by simp
    qed
  next
    case plain: False
    have A1: "absent (Suc d) E h f p =
       (if a = PB_ATYPE_POINTER then Some (load h p 8 = 0)
        else if a = PB_ATYPE_CALLBACK then Some (load h p 8 = 0 \<and> (l \<noteq> PB_LTYPE_EXTENSION \<longrightarrow> load h (p + 8) 8 = 0))
        else if a \<noteq> PB_ATYPE_STATIC then None
        else if ht = PB_HTYPE_REPEATED then Some False
        else if l = PB_LTYPE_BYTES then Some (load h p 4 = 0)
        else if l = PB_LTYPE_STRING then Some (string_length n h p = 0)
        else if l = PB_LTYPE_FIXED_LENGTH_BYTES then Some (n = 0)
        else if l = PB_LTYPE_SUBMESSAGE then
          (case f_ptr f of
             Submsg i \<Rightarrow> let flds = ee_fields E i in
               if p = 0 then None
               else all_absent (map (\<lambda>k. absent d E h (flds ! k) (p + field_off flds k)) [0..<field_count flds])
           | _ \<Rightarrow> None)
        else Some (load h p n = 0))"
      unfolding A Let_def using plain by (simp split del: if_split)
    have C1: "check_default (Suc d) E h f p = zero_value (\<lambda>i q. let flds = ee_fields E i in
                   case pb_field_iter_begin flds q of
                     (False, _) \<Rightarrow> Some True
                   | (True, iter) \<Rightarrow> every_field (length flds) (\<lambda>it. check_default d E h (iter_field it) (pData it)) iter) h f p"
      using plain unfolding check_default.simps(2) Let_def a_def ht_def by auto
    note Z = C1 [unfolded zero_value_def Let_def, folded l_def a_def n_def]
    consider "a = PB_ATYPE_POINTER" | "a = PB_ATYPE_CALLBACK" | "a = PB_ATYPE_STATIC"
      using Suc.prems(1) unfolding A1 by (auto split: if_splits)
    then show ?thesis
    proof cases
      case 1
      then have "PB_LTYPE_LAST_PACKABLE < l" using ck plain by blast
      with 1 Suc.prems(1) dist show ?thesis unfolding A1 Z by simp
    next
      case 2
      then have n: "n = (if l = PB_LTYPE_EXTENSION then 8 else 16)" using ck by blast
      have "load h p 16 = 0 \<longleftrightarrow> load h p 8 = 0 \<and> load h (p + 8) 8 = 0" using load_split [of h p 8 8] by simp
      with 2 n Suc.prems(1) dist show ?thesis unfolding A1 Z load_zero by (auto split: if_splits)
    next
      case 3
      have lt: "PB_LTYPE_STRING \<noteq> PB_LTYPE_FIXED_LENGTH_BYTES" "PB_LTYPE_BYTES \<noteq> PB_LTYPE_FIXED_LENGTH_BYTES"
        "PB_LTYPE_STRING \<noteq> PB_LTYPE_BYTES"
        by (simp_all add: PB_LTYPE_BYTES_def PB_LTYPE_STRING_def PB_LTYPE_FIXED_LENGTH_BYTES_def)
      have nr: "ht \<noteq> PB_HTYPE_REPEATED" using plain 3 by blast
      have str: "l = PB_LTYPE_STRING \<Longrightarrow> string_length n h p = 0 \<longleftrightarrow> hp_mem h p = 0" using ck 3 by (cases n) auto
      show ?thesis
      proof (cases "l = PB_LTYPE_SUBMESSAGE")
        case False
        then show ?thesis using Suc.prems(1) 3 nr dist str lt unfolding A1 Z load_zero by (simp split: if_splits)
      next
        case True
        then have l: "l \<noteq> PB_LTYPE_BYTES" "l \<noteq> PB_LTYPE_STRING" "l \<noteq> PB_LTYPE_FIXED_LENGTH_BYTES"
          by (simp_all add: PB_LTYPE_SUBMESSAGE_def PB_LTYPE_BYTES_def PB_LTYPE_STRING_def PB_LTYPE_FIXED_LENGTH_BYTES_def)
        with Suc.prems(1) True 3 nr dist obtain j where j: "f_ptr f = Submsg j" and p: "p \<noteq> 0"
          and al: "all_absent (map (\<lambda>k. absent d E h (ee_fields E j ! k) (p + field_off (ee_fields E j) k)) [0..<field_count (ee_fields E j)]) = Some z"
          unfolding A1 Let_def by (auto split: field_ptr.splits if_splits)
        let ?flds = "ee_fields E j"
        have ht: "ht = PB_HTYPE_OPTIONAL" using h plain 3 by blast
        then have g: "checkable x" if "x \<in> set ?flds" for x
          using ok Suc.prems(3) plain 3 True j that unfolding checks_ok_def l_def a_def ht_def by blast
        have "check_default d E h (iter_field (iter_at ?flds p k)) (pData (iter_at ?flds p k)) = absent d E h (?flds ! k) (p + field_off ?flds k)"
          if k: "k < field_count ?flds" and s: "absent d E h (?flds ! k) (p + field_off ?flds k) \<noteq> None" for k
        proof -
          have pos: "position ?flds k" using k by (simp add: position_def)
          have m: "?flds ! k \<in> set ?flds" using k tm [of j] by (intro nth_mem) (simp add: terminated_def)
          from s obtain v where v: "absent d E h (?flds ! k) (p + field_off ?flds k) = Some v" by blast
          from Suc.IH [OF v g [OF m] m] v show ?thesis
            unfolding iter_at_pos(4) [OF tm pos] iter_at_data(1) [OF tm pos p] by simp
        qed
        note step = this
        have "(case pb_field_iter_begin ?flds p of (False, _) \<Rightarrow> Some True
            | (True, iter) \<Rightarrow> every_field (length ?flds) (\<lambda>it. check_default d E h (iter_field it) (pData it)) iter) = Some z"
        proof (cases "field_count ?flds = 0")
          case True
          then show ?thesis using al tag_zero [OF tm [of j]] by (simp add: begin_iter_at del: iter_at.simps)
        next
          case False
          then have c: "0 < field_count ?flds" by simp
          have "every_field (length ?flds) (\<lambda>it. check_default d E h (iter_field it) (pData it)) (iter_at ?flds p 0) = Some z"
            by (rule every_field_at [OF tm c _ _ al]) (use tm [of j] step in \<open>auto simp: terminated_def\<close>)
          then show ?thesis using tag_nonzero [OF c] by (simp add: begin_iter_at del: iter_at.simps)
        qed
        then show ?thesis using True 3 l j unfolding Z by simp
      qed
    qed
  qed
qed

section \<open>Fields\<close>

lemma encodes_single:
  assumes "sub_encodes sp sub" and "f_tag f < 2 ^ 32"
  shows "encodes (single_bytes h sp f p) (\<lambda>s. encode_single h sub s f p)"
  unfolding single_bytes_def encode_single_def by (rule encodes_tagged [OF assms])

lemma encodes_basic:
  assumes sub: "sub_encodes sp sub" and tag: "f_tag f < 2 ^ 32" and ok: "checks_ok E" "\<And>i. terminated (ee_fields E i)" "f \<in> set (ee_fields E i)"
    and a: "PB_ATYPE (f_type f) = PB_ATYPE_STATIC \<or> PB_ATYPE (f_type f) = PB_ATYPE_POINTER"
  shows "encodes (basic_bytes E h sp f p0) (\<lambda>s. encode_basic_field E h sub s f p0)"
proof (cases "PB_LTYPE_FIXED_LENGTH_BYTES < PB_LTYPE (f_type f)")
  case True
  then show ?thesis by (simp add: basic_bytes_def encodes_none)
next
  case entry: False
  note B = basic_bytes_def [of E h sp f p0, simplified entry if_False]
  note C = encode_basic_field_def [of E h sub _ f p0, simplified entry if_False]
  show ?thesis
proof (cases "PB_HTYPE (f_type f) = PB_HTYPE_OPTIONAL")
  case True
  note single = encodes_single [OF sub tag]
  have r: "PB_HTYPE (f_type f) \<noteq> PB_HTYPE_REQUIRED" "PB_HTYPE (f_type f) \<noteq> PB_HTYPE_ONEOF" "PB_HTYPE (f_type f) \<noteq> PB_HTYPE_REPEATED"
    "PB_ATYPE_STATIC \<noteq> PB_ATYPE_POINTER"
    using True by (auto simp: PB_HTYPE_REQUIRED_def PB_HTYPE_OPTIONAL_def PB_HTYPE_REPEATED_def PB_HTYPE_ONEOF_def
        PB_ATYPE_STATIC_def PB_ATYPE_POINTER_def)
  show ?thesis
  proof (cases "f_size_offset f = 0")
    case False
    then show ?thesis using True r encodes_nil single
      by (auto simp: B C Let_def safe_read_bool_def)
  next
    case unflagged: True
    show ?thesis
    proof (cases "PB_ATYPE (f_type f) = PB_ATYPE_POINTER")
      case p: True
      obtain z where "pb_check_proto3_default_value E h f p0 = Some z"
        using p True r unflagged
        by (cases "PB_LTYPE_LAST_PACKABLE < PB_LTYPE (f_type f)") (auto simp: pb_check_proto3_default_value_def Let_def zero_value_def)
      then show ?thesis using p True r unflagged encodes_nil single
        by (simp add: B C Let_def)
    next
      case False
      then have st: "PB_ATYPE (f_type f) = PB_ATYPE_STATIC" using a by blast
      have ck: "checkable f" using ok(1,3) st unfolding checks_ok_def by blast
      show ?thesis
      proof (cases "absent (Suc (ee_nest E)) E h f p0")
        case None
        then show ?thesis using True r unfolding B Let_def by (simp add: encodes_none del: absent.simps)
      next
        case (Some z)
        from check_default_absent [OF ok(1,2) this ck ok(3)] have c: "pb_check_proto3_default_value E h f p0 = Some z"
          by (simp only: pb_check_proto3_default_value_def)
        show ?thesis using Some c True False r unflagged encodes_nil single
          unfolding B C Let_def by (cases z) (simp_all del: absent.simps)
      qed
    qed
  qed
next
  case False
  note intros = encodes_if encodes_nil encodes_error encodes_none encodes_single [OF sub tag] encodes_array [OF sub tag]
  consider (required) "PB_HTYPE (f_type f) = PB_HTYPE_REQUIRED"
    | (rest) "PB_HTYPE (f_type f) \<noteq> PB_HTYPE_REQUIRED" "f_size_offset f \<noteq> 0"
    | (repeated) "f_size_offset f = 0" "PB_HTYPE (f_type f) = PB_HTYPE_REPEATED"
    | (other) "f_size_offset f = 0" "PB_HTYPE (f_type f) \<noteq> PB_HTYPE_REQUIRED"
        "PB_HTYPE (f_type f) \<noteq> PB_HTYPE_OPTIONAL" "PB_HTYPE (f_type f) \<noteq> PB_HTYPE_REPEATED"
    using False by blast
  then show ?thesis
  proof cases
    case required
    then show ?thesis unfolding B C Let_def
      by (simp add: pb_type_defs split del: if_split cong: if_cong) (intro intros)
  next
    case rest
    then show ?thesis using False unfolding B C Let_def
      by (simp split del: if_split cong: if_cong) (intro intros)
  next
    case repeated
    then show ?thesis unfolding B C Let_def
      by (simp add: pb_type_defs split del: if_split cong: if_cong) (intro intros)
  next
    case other
    then have "basic_bytes E h sp f p0 = None" by (simp add: B Let_def)
    then show ?thesis by (simp add: encodes_none)
  qed
qed
qed

text \<open>The functions of the user write the same bytes each time, or fail each time.\<close>

definition callbacks_write :: "pb_enc_env \<Rightarrow> callback_bytes \<Rightarrow> bool" where
  "callbacks_write E cb \<longleftrightarrow> (\<forall>fn f arg h s. os_room s \<longrightarrow>
     (case ee_encode E fn s f arg h of (ok, s1) \<Rightarrow>
        case cb fn f arg h of None \<Rightarrow> \<not> ok | Some bs \<Rightarrow> length bs < 2 ^ 63 \<longrightarrow> emits bs s ok s1))"

lemma emits_oset_error: "emits bs s False s1 \<Longrightarrow> emits bs s False (pb_oset_error s1 msg)"
  by (cases s1) (simp add: emits_def pb_oset_error_def os_ok_def)

lemma encodes_callback:
  assumes "callbacks_write E cb"
  shows "encodes (if load h p 8 = 0 then emit [] else Some (cb (load h p 8) f (p + 8) h)) (\<lambda>s. Some (encode_callback_field E h s f p))"
proof (cases "load h p 8 = 0")
  case True
  then show ?thesis using encodes_nil by (simp add: encode_callback_field_def Let_def)
next
  case False
  let ?cb = "cb (load h p 8) f (p + 8) h"
  have r: "case ?cb of None \<Rightarrow> \<exists>s1. encode_callback_field E h s f p = (False, s1)
     | Some bs \<Rightarrow> length bs < 2 ^ 63 \<longrightarrow> (\<exists>ok s1. encode_callback_field E h s f p = (ok, s1) \<and> emits bs s ok s1)"
    if s: "os_room s" for s
  proof -
    obtain ok s1 where u: "ee_encode E (load h p 8) s f (p + 8) h = (ok, s1)" by force
    note w = assms [unfolded callbacks_write_def, rule_format, where fn = "load h p 8" and f = f and arg = "p + 8" and h = h, OF s,
      unfolded u prod.case]
    have c: "encode_callback_field E h s f p = (if ok then (True, s1) else (False, pb_oset_error s1 ''callback error''))"
      using False by (simp add: encode_callback_field_def Let_def u)
    show ?thesis
    proof (cases ?cb)
      case None
      then show ?thesis using w c by simp
    next
      case (Some bs)
      then show ?thesis using w c emits_oset_error [of bs s s1] by (cases ok) auto
    qed
  qed
  show ?thesis unfolding encodes_def
  proof (intro allI impI)
    fix s
    assume "os_room s"
    from r [OF this] False show "case if load h p 8 = 0 then emit [] else Some ?cb of None \<Rightarrow> True
      | Some None \<Rightarrow> \<exists>s1. Some (encode_callback_field E h s f p) = Some (False, s1)
      | Some (Some bs) \<Rightarrow> length bs < 2 ^ 63 \<longrightarrow> (\<exists>ok s1. Some (encode_callback_field E h s f p) = Some (ok, s1) \<and> emits bs s ok s1)"
      by (cases ?cb) simp_all
  qed
qed

lemma encodes_field:
  assumes "sub_encodes sp sub" and "f_tag f < 2 ^ 32" and "callbacks_write E cb" and "iter_field iter = f"
    and "checks_ok E" and "\<And>i. terminated (ee_fields E i)" and "f \<in> set (ee_fields E i)"
  shows "encodes (field_bytes E cb h sp f (pData iter)) (\<lambda>s. encode_one E h sub iter s)"
proof -
  have x: "encodes (if load h (pData iter) 8 = 0 then emit [] else None) (\<lambda>s. encode_extension_field E h sub s (load h (pData iter) 8))"
    by (auto simp: encode_extension_field.simps [of _ _ _ _ 0] intro: encodes_nil encodes_none)
  show ?thesis
    unfolding field_bytes_def encode_one_def encode_field_def Let_def assms(4)
    by (intro encodes_if x encodes_basic [OF assms(1,2,5,6,7)] encodes_callback [OF assms(3)] encodes_error)
qed

section \<open>Messages\<close>

lemma encodes_loop:
  assumes "terminated flds" and "k < field_count flds" and "field_count flds \<le> k + n"
    and enc: "\<And>k. k < field_count flds \<Longrightarrow> encodes (g k) (\<lambda>s. enc (iter_at flds src k) s)"
  shows "encodes (all_bytes (map g [k..<field_count flds])) (\<lambda>s. encode_fields n enc (iter_at flds src k) s)"
  using assms(2,3)
proof (induction n arbitrary: k)
  case 0
  then show ?case by simp
next
  case (Suc n)
  have "position flds k" using Suc.prems by (simp add: position_def)
  note nx = next_iter_at [OF assms(1) this, of src]
  have m: "map g [k..<field_count flds] = g k # map g [Suc k..<field_count flds]"
    using Suc.prems by (simp add: upt_conv_Cons)
  have rest: "encodes (all_bytes (map g [Suc k..<field_count flds])) (\<lambda>s. case pb_field_iter_next (iter_at flds src k) of
      (True, iter1) \<Rightarrow> encode_fields n enc iter1 s | (False, _) \<Rightarrow> Some (True, s))"
  proof (cases "Suc k < field_count flds")
    case True
    from Suc.IH [OF this] Suc.prems True show ?thesis unfolding nx next_pos_def by simp
  next
    case False
    then show ?thesis using Suc.prems encodes_nil unfolding nx by (simp add: all_bytes_def)
  qed
  show ?case unfolding m using encodes_then [OF enc [OF Suc.prems(1)] rest] by (simp add: all_bytes_def)
qed

text \<open>What the generator makes of a message: the end mark, and tags of 32 bits.\<close>

definition descriptors_ok :: "pb_enc_env \<Rightarrow> bool" where
  "descriptors_ok E \<longleftrightarrow> (\<forall>i. terminated (ee_fields E i) \<and> (\<forall>f \<in> set (ee_fields E i). f_tag f < 2 ^ 32))"

lemma encodes_msg:
  assumes E: "descriptors_ok E" and ck: "checks_ok E" and cb: "callbacks_write E cb"
  shows "encodes (msg_bytes d E cb h i src) (\<lambda>s. encode_msg d E h i s src)"
proof (induction d arbitrary: i src)
  case 0
  show ?case by (simp add: encodes_none)
next
  case (Suc d)
  let ?flds = "ee_fields E i"
  have tm: "terminated (ee_fields E i)" for i using E by (simp add: descriptors_ok_def)
  then have t: "terminated ?flds" .
  show ?case
  proof (cases "src = 0 \<or> field_count ?flds = 0")
    case True
    then show ?thesis using encodes_none encodes_nil tag_zero [OF t]
      by (auto simp: begin_iter_at all_bytes_def Let_def simp del: iter_at.simps)
  next
    case False
    then have src: "src \<noteq> 0" and c: "0 < field_count ?flds" by simp_all
    let ?sub = "\<lambda>i1 s1 src1. encode_msg d E h i1 s1 src1"
    let ?sp = "\<lambda>i1 src1. msg_bytes d E cb h i1 src1"
    have sub: "sub_encodes ?sp ?sub" unfolding sub_encodes_def by (intro allI Suc.IH)
    have g: "encodes (field_bytes E cb h ?sp (?flds ! k) (src + field_off ?flds k)) (\<lambda>s. encode_one E h ?sub (iter_at ?flds src k) s)"
      if k: "k < field_count ?flds" for k
    proof -
      have p: "position ?flds k" using k by (simp add: position_def)
      have "k < length ?flds" using k t by (simp add: terminated_def)
      then have m: "?flds ! k \<in> set ?flds" by (rule nth_mem)
      then have "f_tag (?flds ! k) < 2 ^ 32" using E unfolding descriptors_ok_def by blast
      from encodes_field [OF sub this cb iter_at_pos(4) [OF t p, of src] ck tm m, of h]
      show ?thesis unfolding iter_at_data(1) [OF t p src] .
    qed
    have n: "field_count ?flds \<le> 0 + length ?flds" using t by (simp add: terminated_def)
    have b: "pb_field_iter_begin ?flds src = (True, iter_at ?flds src 0)"
      using tag_nonzero [OF c] unfolding begin_iter_at by simp
    have "encode_msg (Suc d) E h i s src = encode_fields (length ?flds) (encode_one E h ?sub) (iter_at ?flds src 0) s" for s
      by (simp only: encode_msg.simps Let_def b prod.case bool.case)
    moreover have "msg_bytes (Suc d) E cb h i src =
        all_bytes (map (\<lambda>k. field_bytes E cb h ?sp (?flds ! k) (src + field_off ?flds k)) [0..<field_count ?flds])"
      using src by (simp only: msg_bytes.simps Let_def if_False)
    ultimately show ?thesis 
      using encodes_loop [OF t c n, where src = src and enc = "encode_one E h ?sub"
        and g = "\<lambda>k. field_bytes E cb h ?sp (?flds ! k) (src + field_off ?flds k)", OF g] by simp
  qed
qed

end
