(* ===== verification/Pb_Progress.thy ===== *)
theory Pb_Progress
  imports Pb_Wire
begin

text \<open>
  What the readers of \<open>pb_decode.c\<close> do to their stream when they succeed: they advance it, and those that read a
  value advance it by at least a byte.
\<close>

definition is_after :: "pb_istream \<Rightarrow> pb_istream \<Rightarrow> bool" where
  "is_after s s1 \<longleftrightarrow> (\<exists>n \<le> bytes_left s. is_state s1 = drop n (is_state s) \<and> bytes_left s1 = bytes_left s - n)"

definition is_past :: "pb_istream \<Rightarrow> pb_istream \<Rightarrow> bool" where
  "is_past s s1 \<longleftrightarrow> is_after s s1 \<and> bytes_left s1 < bytes_left s"

lemma is_after_refl [simp, intro]: "is_after s s"
  by (auto simp: is_after_def intro: exI [of _ 0])

lemma is_after_trans [trans]: "is_after s t \<Longrightarrow> is_after t u \<Longrightarrow> is_after s u"
proof -
  assume "is_after s t" "is_after t u"
  then obtain m n where "m \<le> bytes_left s" "is_state t = drop m (is_state s)" "bytes_left t = bytes_left s - m"
    "n \<le> bytes_left t" "is_state u = drop n (is_state t)" "bytes_left u = bytes_left t - n" by (auto simp: is_after_def)
  then show ?thesis unfolding is_after_def by (intro exI [of _ "m + n"]) (simp add: add.commute)
qed

lemma is_after_le: "is_after s t \<Longrightarrow> bytes_left t \<le> bytes_left s"
  by (auto simp: is_after_def)

lemma is_past_after: "is_past s t \<Longrightarrow> is_after s t"
  by (simp add: is_past_def)

lemma is_past_less: "is_past s t \<Longrightarrow> bytes_left t < bytes_left s"
  by (simp add: is_past_def)

lemma is_past_trans [trans]:
  "is_past s t \<Longrightarrow> is_after t u \<Longrightarrow> is_past s u" "is_after s t \<Longrightarrow> is_past t u \<Longrightarrow> is_past s u"
  using is_after_trans is_after_le by (force simp: is_past_def)+

lemma is_after_error [simp]: "is_after s (pb_set_error t m) = is_after s t"
  by (simp add: is_after_def)

lemma is_after_errmsg [simp]: "is_after s (t\<lparr>is_errmsg := m\<rparr>) = is_after s t" "is_after (s\<lparr>is_errmsg := m\<rparr>) t = is_after s t"
  by (simp_all add: is_after_def)

lemma is_after_drop [simp]:
  "n \<le> bytes_left s \<Longrightarrow> is_after s (s\<lparr>is_state := drop n (is_state s), bytes_left := bytes_left s - n\<rparr>)"
  by (auto simp: is_after_def)

lemma is_after_bytes: "is_after s t \<Longrightarrow> is_ok s \<Longrightarrow> is_ok t \<and> (\<exists>bs. is_bytes s = bs @ is_bytes t)"
proof -
  assume "is_after s t" and ok: "is_ok s"
  then obtain n where n: "n \<le> bytes_left s" "is_state t = drop n (is_state s)" "bytes_left t = bytes_left s - n"
    by (auto simp: is_after_def)
  then have "is_bytes s = take n (is_state s) @ is_bytes t"
    using take_add [of n "bytes_left s - n" "is_state s"] by (simp add: is_bytes_def)
  then show ?thesis using n ok by (auto simp: is_ok_def)
qed

section \<open>The readers\<close>

lemma pb_read_after: "pb_read s n = (Some bs, s1) \<Longrightarrow> is_after s s1"
  by (auto simp: pb_read_def buf_read_def split: if_splits)

lemma pb_read_count: "pb_read s n = (Some bs, s1) \<Longrightarrow> bytes_left s1 = bytes_left s - n \<and> length bs \<le> n"
  by (auto simp: pb_read_def buf_read_def split: if_splits)

lemma pb_read_past: "pb_read s n = (Some bs, s1) \<Longrightarrow> 0 < n \<Longrightarrow> is_past s s1"
  using pb_read_after [of s n bs s1] by (auto simp: is_past_def pb_read_def buf_read_def split: if_splits)

lemma pb_readbyte_past: "pb_readbyte s = (Some b, s1) \<Longrightarrow> is_past s s1"
  using is_after_drop [of 1 s] by (auto simp: pb_readbyte_def buf_read_def is_past_def split: if_splits)

lemma varint32_loop_past: "varint32_loop s bitpos result = (Some r, s1) \<Longrightarrow> is_past s s1"
proof (induction s bitpos result rule: varint32_loop.induct)
  case (1 s bitpos result)
  note E = varint32_loop.simps [of s bitpos result]
  obtain r0 s2 where r: "pb_readbyte s = (r0, s2)" by force
  show ?case
  proof (cases r0)
    case None
    then show ?thesis using 1(2) E r by simp
  next
    case (Some b)
    have p: "is_past s s2" using pb_readbyte_past r Some by simp
    show ?thesis using 1(2) 1(1) [OF r [unfolded Some, symmetric] refl refl refl refl refl] p is_past_trans(1) [OF p] is_past_after
      unfolding E r Some by (auto simp: Let_def split: if_splits)
  qed
qed

lemma pb_decode_varint32_eof_past: "pb_decode_varint32_eof s = (Some v, e, s1) \<Longrightarrow> is_past s s1"
  using varint32_loop_past pb_readbyte_past
  by (fastforce simp: pb_decode_varint32_eof_def split: prod.splits option.splits if_splits intro: is_past_trans(1) is_past_after)

lemma pb_decode_varint32_past: "pb_decode_varint32 s = (Some v, s1) \<Longrightarrow> is_past s s1"
  using pb_decode_varint32_eof_past by (auto simp: pb_decode_varint32_def split: prod.splits)

lemma varint_loop_past: "varint_loop s bitpos result = (Some r, s1) \<Longrightarrow> is_past s s1"
proof (induction s bitpos result rule: varint_loop.induct)
  case (1 s bitpos result)
  note E = varint_loop.simps [of s bitpos result]
  obtain r0 s2 where r: "pb_readbyte s = (r0, s2)" by force
  show ?case
  proof (cases "r0 = None \<or> 64 \<le> bitpos")
    case True
    then show ?thesis using 1(2) E r by (auto split: if_splits)
  next
    case False
    then obtain b where b: "r0 = Some b" and nb: "\<not> 64 \<le> bitpos" by auto
    have p: "is_past s s2" using pb_readbyte_past r b by simp
    show ?thesis using 1(2) 1(1) [OF nb r [unfolded b, symmetric] refl refl refl] nb p is_past_trans(1) [OF p] is_past_after
      unfolding E r b by (auto simp: Let_def split: if_splits)
  qed
qed

lemma pb_decode_varint_past: "pb_decode_varint s = (Some v, s1) \<Longrightarrow> is_past s s1"
  using varint_loop_past by (simp add: pb_decode_varint_def)

lemma pb_decode_svarint_past: "pb_decode_svarint s = (Some v, s1) \<Longrightarrow> is_past s s1"
  using pb_decode_varint_past by (auto simp: pb_decode_svarint_def split: prod.splits option.splits)

lemma pb_decode_fixed_past:
  "pb_decode_fixed32 s = (Some v, s1) \<Longrightarrow> is_past s s1" "pb_decode_fixed64 s = (Some w, s1) \<Longrightarrow> is_past s s1"
  by (auto simp: pb_decode_fixed32_def pb_decode_fixed64_def dest: pb_read_past split: prod.splits option.splits)

lemma pb_dec_bool_past: "pb_dec_bool s = (Some v, s1) \<Longrightarrow> is_past s s1"
  using pb_decode_varint32_past by (auto simp: pb_dec_bool_def split: prod.splits option.splits)

lemma pb_skip_varint_after: "pb_skip_varint s = (True, s1) \<Longrightarrow> is_after s s1"
proof (induction s rule: pb_skip_varint.induct)
  case (1 s)
  note E = pb_skip_varint.simps [of s]
  obtain r0 s2 where r: "pb_read s 1 = (r0, s2)" by force
  show ?case
  proof (cases r0)
    case None
    then show ?thesis using 1(2) E r by simp
  next
    case (Some bs)
    then have p: "is_after s s2" using pb_read_after [of s 1 bs s2] r by blast
    show ?thesis using 1(2) 1(1) [OF r [symmetric] Some] p is_after_trans [OF p]
      unfolding E r Some by (auto split: if_splits)
  qed
qed

lemma pb_skip_string_after: "pb_skip_string s = (True, s1) \<Longrightarrow> is_after s s1"
  by (auto simp: pb_skip_string_def split: prod.splits option.splits
      dest!: pb_decode_varint32_past pb_read_after intro: is_after_trans is_past_after)

lemma pb_skip_field_after: "pb_skip_field s wt = (True, s1) \<Longrightarrow> is_after s s1"
  using pb_skip_varint_after pb_skip_string_after pb_read_after
  by (fastforce simp: pb_skip_field_def split: prod.splits if_splits)

lemma raw_varint_after: "raw_varint s n m = (Some bs, s1) \<Longrightarrow> is_after s s1"
proof (induction s n m arbitrary: bs rule: raw_varint.induct)
  case (1 s n m)
  note E = raw_varint.simps [of s n m]
  obtain r0 s2 where r: "pb_read s 1 = (r0, s2)" by force
  show ?case
  proof (cases "r0 = None \<or> n + 1 > m")
    case True
    then show ?thesis using 1(2) E r by (auto split: if_splits)
  next
    case False
    then obtain cs where c: "r0 = Some cs" and le: "\<not> n + 1 > m" by auto
    then have p: "is_after s s2" using pb_read_after [of s 1 cs s2] r by blast
    show ?thesis using 1(2) 1(1) [OF le r [symmetric] c] le p is_after_trans [OF p]
      unfolding E r c by (auto split: if_splits prod.splits option.splits)
  qed
qed

lemma read_raw_value_after: "read_raw_value s wt m = (Some bs, s1) \<Longrightarrow> is_after s s1"
  using raw_varint_after pb_read_after by (fastforce simp: read_raw_value_def split: if_splits)

lemma pb_decode_tag_past: "pb_decode_tag s = (Some x, e, s1) \<Longrightarrow> is_past s s1"
  using pb_decode_varint32_eof_past by (auto simp: pb_decode_tag_def split: prod.splits option.splits if_splits)

lemma pb_decode_tag_end: "pb_decode_tag s = (None, True, s1) \<Longrightarrow> bytes_left s \<noteq> 0 \<Longrightarrow> is_past s s1"
  using pb_decode_varint32_eof_past
  by (auto simp: pb_decode_tag_def pb_decode_varint32_eof_def pb_readbyte_def buf_read_def split: prod.splits option.splits if_splits)

section \<open>Substreams\<close>

lemma make_substream:
  assumes "pb_make_string_substream s = (Some sub, s1)"
  shows "\<exists>n. is_past s (s1\<lparr>bytes_left := bytes_left s1 + n\<rparr>) \<and> bytes_left sub = n \<and> is_state sub = is_state s1"
  using assms pb_decode_varint32_past
  by (fastforce simp: pb_make_string_substream_def is_past_def is_after_def split: prod.splits option.splits if_splits)

lemma make_substream_less: "pb_make_string_substream s = (Some sub, s1) \<Longrightarrow> bytes_left sub < bytes_left s"
  using make_substream by (fastforce simp: is_past_def)

text \<open>Closing a substream leaves the stream behind it, however much of the substream was read.\<close>

lemma close_substream:
  assumes "pb_make_string_substream s = (Some sub, s1)" and "is_after sub sub1"
  shows "\<exists>s2. pb_close_string_substream (s1\<lparr>is_errmsg := m\<rparr>) sub1 = (True, s2) \<and> is_past s s2 \<and>
    is_state s2 = drop (bytes_left sub) (is_state sub) \<and> bytes_left s2 = bytes_left s1"
proof -
  from make_substream [OF assms(1)] obtain n where n: "is_past s (s1\<lparr>bytes_left := bytes_left s1 + n\<rparr>)" "bytes_left sub = n"
    "is_state sub = is_state s1" by blast
  from assms(2) obtain k where k: "k \<le> bytes_left sub" "is_state sub1 = drop k (is_state sub)" "bytes_left sub1 = bytes_left sub - k"
    by (auto simp: is_after_def)
  let ?s2 = "s1\<lparr>is_state := drop (bytes_left sub) (is_state sub), is_errmsg := is_errmsg sub1\<rparr>"
  have "pb_close_string_substream (s1\<lparr>is_errmsg := m\<rparr>) sub1 = (True, ?s2)"
    using k by (auto simp: pb_close_string_substream_def pb_read_def buf_read_def)
  moreover have "is_after (s1\<lparr>bytes_left := bytes_left s1 + n\<rparr>) ?s2"
    unfolding is_after_def using n by (intro exI [of _ n]) simp
  with n(1) have "is_past s ?s2" by (rule is_past_trans)
  ultimately show ?thesis by simp
qed

lemma close_substream':
  assumes "pb_make_string_substream s = (Some sub, s1)" and "is_after sub sub1"
  shows "\<exists>s2. pb_close_string_substream s1 sub1 = (True, s2) \<and> is_past s s2 \<and>
    is_state s2 = drop (bytes_left sub) (is_state sub) \<and> bytes_left s2 = bytes_left s1"
  using close_substream [OF assms, of "is_errmsg s1"] by simp

end
