(* ===== verification/Pb_Safe.thy ===== *)
theory Pb_Safe
  imports Pb_Layout Pb_Progress
begin

text \<open>
  Termination and memory safety of the message decoder on layouts without pointer and extension fields: with
  callbacks that consume their input and write only to memory of their own, every function of the decoder returns,
  advances the stream when it succeeds, and writes nowhere but in the structure and the memory of the callbacks.
\<close>

section \<open>Writes\<close>

definition same_outside :: "nat set \<Rightarrow> heap \<Rightarrow> heap \<Rightarrow> bool" where
  "same_outside A h h1 \<longleftrightarrow> (\<forall>a. a \<notin> A \<longrightarrow> hp_mem h1 a = hp_mem h a)"

lemma same_refl [simp, intro]: "same_outside A h h"
  by (simp add: same_outside_def)

lemma same_trans [trans]: "same_outside A h h1 \<Longrightarrow> same_outside A h1 h2 \<Longrightarrow> same_outside A h h2"
  by (simp add: same_outside_def)

lemma same_mono: "same_outside A h h1 \<Longrightarrow> A \<subseteq> B \<Longrightarrow> same_outside B h h1"
  by (auto simp: same_outside_def)

lemma same_store: "{a..<a + length bs} \<subseteq> A \<Longrightarrow> same_outside A h (store h a bs)"
  by (auto simp: same_outside_def store_def subset_eq)

lemma same_store_int: "{a..<a + n} \<subseteq> A \<Longrightarrow> same_outside A h (store_int h a n v)"
  by (simp add: store_int_def same_store)

lemma same_store_after: "same_outside A h h1 \<Longrightarrow> {a..<a + n} \<subseteq> A \<Longrightarrow> same_outside A h (store_int h1 a n v)"
  using same_store_int same_trans by blast

text \<open>A result: it exists, the stream is advanced on success, and only \<open>A\<close> is written.\<close>

definition fine :: "(pb_istream \<Rightarrow> pb_istream \<Rightarrow> bool) \<Rightarrow> nat set \<Rightarrow> pb_istream \<Rightarrow> heap \<Rightarrow> dec_result \<Rightarrow> bool" where
  "fine P A s h r \<longleftrightarrow> (case r of None \<Rightarrow> False | Some (ok, s1, h1) \<Rightarrow> (ok \<longrightarrow> P s s1) \<and> same_outside A h h1)"

definition fine_with :: "(pb_istream \<Rightarrow> pb_istream \<Rightarrow> bool) \<Rightarrow> nat set \<Rightarrow> ('a \<Rightarrow> bool) \<Rightarrow> pb_istream \<Rightarrow> heap \<Rightarrow>
    (bool \<times> pb_istream \<times> heap \<times> 'a) option \<Rightarrow> bool" where
  "fine_with P A Q s h r \<longleftrightarrow>
     (case r of None \<Rightarrow> False | Some (ok, s1, h1, x) \<Rightarrow> (ok \<longrightarrow> P s s1) \<and> same_outside A h h1 \<and> Q x)"

lemma fine_simps [simp]:
  "fine P A s h (Some (ok, s1, h1)) \<longleftrightarrow> (ok \<longrightarrow> P s s1) \<and> same_outside A h h1" "\<not> fine P A s h None"
  "fine_with P A Q s h (Some (ok, s1, h1, x)) \<longleftrightarrow> (ok \<longrightarrow> P s s1) \<and> same_outside A h h1 \<and> Q x" "\<not> fine_with P A Q s h None"
  by (simp_all add: fine_def fine_with_def)

lemma fineE:
  assumes "fine P A s h r"
  obtains ok s1 h1 where "r = Some (ok, s1, h1)" and "ok \<longrightarrow> P s s1" and "same_outside A h h1"
  using assms by (cases r) (auto simp: fine_def)

lemma fine_withE:
  assumes "fine_with P A Q s h r"
  obtains ok s1 h1 x where "r = Some (ok, s1, h1, x)" and "ok \<longrightarrow> P s s1" and "same_outside A h h1" and "Q x"
  using assms by (cases r) (auto simp: fine_with_def)

lemma fine_returns: "fine P A s h r \<Longrightarrow> r \<noteq> None"
  by (cases r) simp_all

lemma fine_with_count: "fine P A s h r \<Longrightarrow> fine_with P A (\<lambda>_. True) s h (with_count fc r)"
  by (erule fineE) (simp add: with_count_def)

lemma fine_mono: "fine P A s h r \<Longrightarrow> A \<subseteq> B \<Longrightarrow> (\<And>s1. P s s1 \<Longrightarrow> P' s s1) \<Longrightarrow> fine P' B s h r"
  by (erule fineE) (auto intro: same_mono)

lemma fine_after_store: "fine P A s h1 r \<Longrightarrow> same_outside A h h1 \<Longrightarrow> fine P A s h r"
  by (erule fineE) (auto intro: same_trans)

lemma fine_with_after_store: "fine_with P A Q s h1 r \<Longrightarrow> same_outside A h h1 \<Longrightarrow> fine_with P A Q s h r"
  by (erule fine_withE) (auto intro: same_trans)

lemma fine_after: "fine is_after A s1 h r \<Longrightarrow> is_after s s1 \<Longrightarrow> fine is_after A s h r"
  by (erule fineE) (auto intro: is_after_trans)

lemma fine_with_after: "fine_with is_after A Q s1 h r \<Longrightarrow> is_after s s1 \<Longrightarrow> fine_with is_after A Q s h r"
  by (erule fine_withE) (auto intro: is_after_trans)

section \<open>Scalar, bytes and string items\<close>

lemma read_to_fine:
  assumes "{dest..<dest + n} \<subseteq> A"
  shows "fine is_after A s h (Some (read_to s dest n h))"
proof -
  obtain r s1 where r: "pb_read s n = (r, s1)" by force
  show ?thesis
  proof (cases r)
    case (Some bs)
    with r have "is_after s s1" "length bs \<le> n" using pb_read_after pb_read_count by blast+
    moreover from this(2) have "{dest..<dest + length bs} \<subseteq> A" using assms by auto
    ultimately show ?thesis using r Some by (auto simp: read_to_def intro: same_store)
  qed (simp add: r read_to_def)
qed

lemma store_clamped_fine:
  "is_past s0 s \<Longrightarrow> {dest..<dest + f_data_size f} \<subseteq> A \<Longrightarrow> fine is_past A s0 h (Some (store_clamped c v s f dest h))"
  using same_store_int [of dest "f_data_size f" A h "unat v"] by (auto simp: store_clamped_def Let_def)

lemma scalar_fine:
  assumes "PB_LTYPE (f_type f) \<le> PB_LTYPE_LAST_PACKABLE" and "item_ok L i f" and "{dest..<dest + f_data_size f} \<subseteq> A"
  shows "fine is_past A s h (PB_DECODERS E sub f s dest h)"
proof -
  have ok: "PB_LTYPE (f_type f) = PB_LTYPE_BOOL \<Longrightarrow> {dest..<dest + 1} \<subseteq> A"
    "PB_LTYPE (f_type f) = PB_LTYPE_FIXED32 \<Longrightarrow> {dest..<dest + 4} \<subseteq> A"
    "PB_LTYPE (f_type f) = PB_LTYPE_FIXED64 \<Longrightarrow> {dest..<dest + 8} \<subseteq> A"
    using assms(2,3) by (auto simp: item_ok_def Let_def subset_eq pb_type_defs)
  have b: "PB_LTYPE (f_type f) = PB_LTYPE_BOOL \<Longrightarrow> fine is_past A s h (Some (dec_bool s dest h))"
    using ok(1) pb_dec_bool_past by (auto simp: dec_bool_def intro: same_store_int split: prod.splits option.splits)
  have v: "fine is_past A s h (Some (pb_dec_varint s f dest h))" "fine is_past A s h (Some (pb_dec_uvarint s f dest h))"
    "fine is_past A s h (Some (pb_dec_svarint s f dest h))"
    using assms(3) pb_decode_varint_past pb_decode_svarint_past
    by (auto simp: pb_dec_varint_def pb_dec_uvarint_def pb_dec_svarint_def Let_def
        intro!: store_clamped_fine split: prod.splits option.splits)
  have f: "PB_LTYPE (f_type f) = PB_LTYPE_FIXED32 \<Longrightarrow> fine is_past A s h (Some (pb_dec_fixed32 s dest h))"
    "PB_LTYPE (f_type f) = PB_LTYPE_FIXED64 \<Longrightarrow> fine is_past A s h (Some (pb_dec_fixed64 s dest h))"
    using ok(2,3) pb_decode_fixed_past
    by (auto simp: pb_dec_fixed32_def pb_dec_fixed64_def intro: same_store_int split: prod.splits option.splits)
  have "PB_LTYPE (f_type f) \<in> {PB_LTYPE_BOOL, PB_LTYPE_VARINT, PB_LTYPE_UVARINT, PB_LTYPE_SVARINT, PB_LTYPE_FIXED32, PB_LTYPE_FIXED64}"
  proof -
    have "unat (PB_LTYPE (f_type f)) \<le> 5" using assms(1) by (simp add: PB_LTYPE_LAST_PACKABLE_def word_le_nat_alt)
    then have "unat (PB_LTYPE (f_type f)) \<in> {0, 1, 2, 3, 4, 5}" by auto
    then show ?thesis by (auto simp: pb_type_defs word_unat_eq_iff)
  qed
  then show ?thesis using b v f unfolding PB_DECODERS_def Let_def by (auto simp: pb_type_defs)
qed

lemma bytes_fine:
  assumes "PB_ATYPE (f_type f) \<noteq> PB_ATYPE_POINTER" and "{dest..<dest + f_data_size f} \<subseteq> A"
  shows "fine is_after A s h (pb_dec_bytes E s f dest h)"
proof -
  obtain r s1 where r: "pb_decode_varint32 s = (r, s1)" by force
  show ?thesis
  proof (cases r)
    case (Some sz)
    have "fine is_after A s h (Some (bytes_to s1 dest (unat sz) h))" if "unat sz + 4 \<le> f_data_size f"
    proof -
      have "{dest..<dest + 4} \<subseteq> A" "{dest + 4..<dest + 4 + unat sz} \<subseteq> A" using that assms(2) by auto
      from fine_after_store [OF read_to_fine [OF this(2), of s1] same_store_int [OF this(1)]]
      have "fine is_after A s1 h (Some (bytes_to s1 dest (unat sz) h))" by (simp add: bytes_to_def)
      moreover have "is_after s s1" using pb_decode_varint32_past r Some is_past_after by blast
      ultimately show ?thesis by (rule fine_after)
    qed
    then show ?thesis using r Some assms(1) by (auto simp: pb_dec_bytes_def Let_def)
  qed (simp add: r pb_dec_bytes_def)
qed

lemma unat_minus_one_word_32: "unat (-1 :: u32) = 2 ^ 32 - 1"
  by (simp add: unsigned_minus_1_eq_mask mask_eq_exp_minus_1)

lemma unat_Suc_no_wrap: "\<not> unat (sz + 1) < unat sz \<Longrightarrow> unat (sz + 1) = Suc (unat sz)" for sz :: u32
proof (cases "unat sz = 2 ^ 32 - 1")
  case True
  then have "sz = -1" by (simp add: word_unat_eq_iff unat_minus_one_word_32)
  then show "\<not> unat (sz + 1) < unat sz \<Longrightarrow> ?thesis" by (simp add: unat_minus_one_word_32)
next
  case False
  then have "unat sz + 1 < 2 ^ 32" using unat_u32_less [of sz] by simp
  then show ?thesis by (simp add: unat_word_ariths)
qed

lemma string_fine:
  assumes "PB_ATYPE (f_type f) \<noteq> PB_ATYPE_POINTER" and "{dest..<dest + f_data_size f} \<subseteq> A"
  shows "fine is_after A s h (pb_dec_string E s f dest h)"
proof -
  obtain r s1 where r: "pb_decode_varint32 s = (r, s1)" by force
  show ?thesis
  proof (cases r)
    case (Some sz)
    have "fine is_after A s h (Some (string_to s1 dest (unat sz) h))"
      if "unat (sz + 1) \<le> f_data_size f" "\<not> unat (sz + 1) < unat sz"
    proof -
      have "{dest..<dest + unat sz} \<subseteq> A" "{dest + unat sz..<dest + unat sz + 1} \<subseteq> A"
        using that(1) unat_Suc_no_wrap [OF that(2)] assms(2) by auto
      moreover have "is_after s s1" using pb_decode_varint32_past r Some is_past_after by blast
      moreover obtain ok s2 h2 where t: "read_to s1 dest (unat sz) h = (ok, s2, h2)" by (cases "read_to s1 dest (unat sz) h") auto
      ultimately show ?thesis using read_to_fine [of dest "unat sz" A s1 h]
        by (auto simp: string_to_def intro: is_after_trans same_store_after)
    qed
    then show ?thesis using r Some assms(1) by (auto simp: pb_dec_string_def Let_def)
  qed (simp add: r pb_dec_string_def)
qed

lemma fixed_length_bytes_fine:
  assumes "{dest..<dest + f_data_size f} \<subseteq> A"
  shows "fine is_after A s h (Some (pb_dec_fixed_length_bytes s f dest h))"
proof -
  obtain r s1 where r: "pb_decode_varint32 s = (r, s1)" by force
  show ?thesis
  proof (cases r)
    case (Some sz)
    have a: "is_after s s1" using pb_decode_varint32_past r Some is_past_after by blast
    moreover have "fine is_after A s h (Some (read_to s1 dest (f_data_size f) h))"
      by (rule fine_after [OF read_to_fine [OF assms] a])
    moreover have "same_outside A h (store h dest (replicate (f_data_size f) 0))" using assms by (intro same_store) simp
    ultimately show ?thesis using r Some
      by (auto simp: pb_dec_fixed_length_bytes_def Let_def)
  qed (simp add: r pb_dec_fixed_length_bytes_def)
qed

end
