(* ===== verification/Pb_Total.thy ===== *)
theory Pb_Total
  imports Pb_Safe
begin

text \<open>
  Default values, release, fields and messages on layouts without pointer and extension fields: the decoder returns
  whatever the input, writes only inside the message, and advances the stream.
\<close>

section \<open>Default values and release\<close>

lemma each_field_same:
  assumes "terminated flds"
    and act: "\<And>k h. k < field_count flds \<Longrightarrow> \<exists>h1. act (iter_at flds dest k) h = Some h1 \<and> same_outside A h h1"
    and "k < field_count flds" and "field_count flds - k \<le> n"
  shows "\<exists>h1. each_field n act (iter_at flds dest k) h = Some h1 \<and> same_outside A h h1"
  using assms(3,4)
proof (induction n arbitrary: k h)
  case (Suc n)
  have p: "position flds k" using Suc.prems by (simp add: position_def)
  note nx = next_iter_at [OF assms(1) p, of dest]
  obtain h1 where h1: "act (iter_at flds dest k) h = Some h1" "same_outside A h h1" using act [OF Suc.prems(1)] by blast
  show ?case
  proof (cases "Suc k < field_count flds")
    case True
    then have "field_count flds - Suc k \<le> n" using Suc.prems by simp
    from Suc.IH [OF True this, of h1] obtain h2 where "each_field n act (iter_at flds dest (Suc k)) h1 = Some h2" "same_outside A h1 h2"
      by blast
    then show ?thesis using h1 nx True same_trans by (auto simp: next_pos_def simp del: iter_at.simps)
  next
    case False
    then show ?thesis using h1 nx by (simp del: iter_at.simps)
  qed
qed simp

lemma region_mono: "(a :: nat) \<le> b \<Longrightarrow> b + n \<le> a + m \<Longrightarrow> {b..<b + n} \<subseteq> {a..<a + m}"
  by auto

text \<open>A static submessage lies inside the structure and is nested less deep.\<close>

lemma submessage_inside:
  assumes "item_ok L i f" and "PB_LTYPE (f_type f) = PB_LTYPE_SUBMESSAGE"
  obtains j where "f_ptr f = Submsg j" and "j < lay_count L" and "lay_size L j \<le> f_data_size f" and "lay_nest L j < lay_nest L i"
  using assms by (auto simp: item_ok_def Let_def pb_type_defs split: field_ptr.splits)

lemma field_default:
  assumes lay: "static_layout E L" "i < lay_count L" "dest \<noteq> 0" and k: "k < field_count (pe_fields E i)"
    and d: "2 * lay_nest L i \<le> Suc (Suc d)"
    and IH: "\<And>j dest h. j < lay_count L \<Longrightarrow> dest \<noteq> 0 \<Longrightarrow> 2 * lay_nest L j \<le> d \<Longrightarrow>
      \<exists>h1. message_set_to_defaults d E j dest h = Some h1 \<and> same_outside {dest..<dest + lay_size L j} h h1"
  shows "\<exists>h1. field_set_to_default (Suc d) E (iter_at (pe_fields E i) dest k) h = Some h1 \<and>
    same_outside {dest..<dest + lay_size L i} h h1"
proof -
  define it where "it = iter_at (pe_fields E i) dest k"
  define f where "f = pe_fields E i ! k"
  define A where "A = {dest..<dest + lay_size L i}"
  note at = iter_inside [OF lay k it_def f_def]
  have data: "{pData it..<pData it + f_data_size f} \<subseteq> A"
    if "PB_ATYPE (f_type f) = PB_ATYPE_STATIC" "PB_HTYPE (f_type f) \<noteq> PB_HTYPE_REPEATED"
  proof -
    have "pData it + f_data_size f \<le> dest + lay_size L i" using at(5) that by (simp add: member_size_static)
    from region_mono [OF at(4) this] show ?thesis by (simp add: A_def)
  qed
  have init: "\<exists>h1. (if PB_LTYPE (f_type f) = PB_LTYPE_SUBMESSAGE then
        (case f_ptr f of Submsg i \<Rightarrow> message_set_to_defaults d E i (pData it) h0 | _ \<Rightarrow> None)
      else (case f_ptr f of
              Default bs \<Rightarrow> Some (store h0 (pData it) (take (f_data_size f) bs))
            | _ \<Rightarrow> Some (store h0 (pData it) (replicate (f_data_size f) 0)))) = Some h1 \<and> same_outside A h0 h1"
    if s: "PB_ATYPE (f_type f) = PB_ATYPE_STATIC" "PB_HTYPE (f_type f) \<noteq> PB_HTYPE_REPEATED" for h0
  proof (cases "PB_LTYPE (f_type f) = PB_LTYPE_SUBMESSAGE")
    case True
    from submessage_inside [OF _ this] at(5) s obtain j where j: "f_ptr f = Submsg j" "j < lay_count L" "lay_size L j \<le> f_data_size f"
      "lay_nest L j < lay_nest L i" by blast
    have "2 * lay_nest L j \<le> d" "pData it \<noteq> 0" using j(4) d at(4) lay(3) by simp_all
    from IH [OF j(2) this(2,1), of h0] obtain h1 where
      "message_set_to_defaults d E j (pData it) h0 = Some h1" "same_outside {pData it..<pData it + lay_size L j} h0 h1" by blast
    moreover have "{pData it..<pData it + lay_size L j} \<subseteq> A" using data [OF s] j(3) by auto
    ultimately show ?thesis using True j(1) by (auto intro: same_mono)
  next
    case False
    have "{pData it..<pData it + length (take (f_data_size f) bs)} \<subseteq> A" for bs :: "byte list"
      by (rule order_trans [OF _ data [OF s]]) auto
    then show ?thesis using False same_store data [OF s] by (cases "f_ptr f") auto
  qed
  have has: "PB_ATYPE (f_type f) = PB_ATYPE_STATIC \<Longrightarrow> PB_HTYPE (f_type f) = PB_HTYPE_OPTIONAL \<Longrightarrow> pSize it \<noteq> pData it \<Longrightarrow>
      same_outside A h (store_int h (pSize it) 1 0)"
    using at(6) region_mono [of dest "pSize it" 1] by (intro same_store_int) (simp add: A_def)
  have cnt: "PB_ATYPE (f_type f) = PB_ATYPE_STATIC \<Longrightarrow> PB_HTYPE (f_type f) = PB_HTYPE_REPEATED \<or> PB_HTYPE (f_type f) = PB_HTYPE_ONEOF \<Longrightarrow>
      same_outside A h (store_int h (pSize it) 4 0)"
    using at(7) region_mono [of dest "pSize it" 4] by (intro same_store_int) (auto simp: A_def)
  note E = field_set_to_default.simps(2) [of d E it h]
  have "\<exists>h1. field_set_to_default (Suc d) E it h = Some h1 \<and> same_outside A h h1"
  proof (cases "PB_ATYPE (f_type f) = PB_ATYPE_STATIC")
    case False
    then have "PB_ATYPE (f_type f) \<noteq> PB_ATYPE_POINTER" using at(3) by (auto simp: pb_type_defs)
    then show ?thesis using False at(1,2) by (simp add: E Let_def)
  next
    case s: True
    show ?thesis
    proof (cases "PB_HTYPE (f_type f) = PB_HTYPE_REPEATED \<or> PB_HTYPE (f_type f) = PB_HTYPE_ONEOF")
      case True
      then have "PB_HTYPE (f_type f) \<noteq> PB_HTYPE_OPTIONAL" by (auto simp: pb_type_defs)
      then show ?thesis using s at(1,2) True cnt by (simp add: E Let_def)
    next
      case False
      define h0 where "h0 = (if PB_HTYPE (f_type f) = PB_HTYPE_OPTIONAL \<and> pSize it \<noteq> pData it then store_int h (pSize it) 1 0 else h)"
      have "same_outside A h h0" using has s by (simp add: h0_def)
      moreover have "field_set_to_default (Suc d) E it h = (if PB_LTYPE (f_type f) = PB_LTYPE_SUBMESSAGE then
        (case f_ptr f of Submsg i \<Rightarrow> message_set_to_defaults d E i (pData it) h0 | _ \<Rightarrow> None)
      else (case f_ptr f of
              Default bs \<Rightarrow> Some (store h0 (pData it) (take (f_data_size f) bs))
            | _ \<Rightarrow> Some (store h0 (pData it) (replicate (f_data_size f) 0))))"
        using False at(2) s unfolding E Let_def h0_def at(1) by (cases "f_ptr f") simp_all
      ultimately show ?thesis using init [OF s, of h0] False same_trans by auto
    qed
  qed
  then show ?thesis by (simp add: it_def A_def)
qed

lemma message_default:
  assumes "static_layout E L" and "i < lay_count L" and "dest \<noteq> 0" and "2 * lay_nest L i \<le> d"
  shows "\<exists>h1. message_set_to_defaults d E i dest h = Some h1 \<and> same_outside {dest..<dest + lay_size L i} h h1"
  using assms(2-4)
proof (induction d arbitrary: i dest h rule: less_induct)
  case (less d)
  note lay = static_layoutD [OF assms(1) less.prems(1)]
  have "2 \<le> d" using lay(3) less.prems(3) by simp
  then obtain e where d: "d = Suc (Suc e)" by (metis add_2_eq_Suc le_Suc_ex)
  have field: "\<exists>h1. field_set_to_default (Suc e) E (iter_at (pe_fields E i) dest k) h = Some h1 \<and>
      same_outside {dest..<dest + lay_size L i} h h1" if "k < field_count (pe_fields E i)" for k h
    using less.prems d by (intro field_default [OF assms(1) less.prems(1,2) that _ less.IH]) auto
  show ?case
  proof (cases "field_count (pe_fields E i) = 0")
    case True
    then have "f_tag (pe_fields E i ! 0) = 0" using tag_zero [OF lay(1)] by simp
    then show ?thesis by (simp add: d begin_iter_at Let_def del: iter_at.simps)
  next
    case False
    then have "f_tag (pe_fields E i ! 0) \<noteq> 0" by (simp add: tag_nonzero)
    moreover have "field_count (pe_fields E i) - 0 \<le> length (pe_fields E i)" using lay(1) by (simp add: terminated_def)
    ultimately show ?thesis using each_field_same [where act = "field_set_to_default (Suc e) E" and dest = dest and k = 0 and h = h and
          n = "length (pe_fields E i)", OF lay(1) field] False
      by (simp add: d begin_iter_at Let_def del: iter_at.simps)
  qed
qed

lemma defaults_inside:
  assumes "static_layout E L" and "i < lay_count L" and "dest \<noteq> 0"
  obtains h1 where "pb_message_set_to_defaults E i dest h = Some h1" and "same_outside {dest..<dest + lay_size L i} h h1"
  using message_default [OF assms, of "2 * pe_nest E" h] static_layoutD(4) [OF assms(1,2)]
  by (auto simp: pb_message_set_to_defaults_def)

text \<open>There is nothing to release.\<close>

lemma each_field_none:
  assumes "terminated flds" and "\<And>k h. k < field_count flds \<Longrightarrow> act (iter_at flds dest k) h = Some h"
    and "k < field_count flds" and "field_count flds - k \<le> n"
  shows "each_field n act (iter_at flds dest k) h = Some h"
  using assms(3,4)
proof (induction n arbitrary: k)
  case (Suc n)
  have p: "position flds k" using Suc.prems by (simp add: position_def)
  then show ?case using Suc next_iter_at [OF assms(1) p, of dest] assms(2) [of k h]
    by (auto simp: next_pos_def simp del: iter_at.simps)
qed simp

lemma each_item_none: "(\<And>q h. p \<le> q \<Longrightarrow> act q h = Some h) \<Longrightarrow> each_item n act p w h = Some h"
  by (induction n arbitrary: p) simp_all

lemma field_release:
  assumes lay: "static_layout E L" "i < lay_count L" "dest \<noteq> 0" and k: "k < field_count (pe_fields E i)"
    and d: "2 * lay_nest L i \<le> Suc (Suc d)"
    and IH: "\<And>j dest h. j < lay_count L \<Longrightarrow> dest \<noteq> 0 \<Longrightarrow> 2 * lay_nest L j \<le> d \<Longrightarrow> release_msg d E j dest h = Some h"
  shows "release_field (Suc d) E (iter_at (pe_fields E i) dest k) h = Some h"
proof -
  define it where "it = iter_at (pe_fields E i) dest k"
  define f where "f = pe_fields E i ! k"
  note at = iter_inside [OF lay k it_def f_def]
  have np: "PB_ATYPE (f_type f) \<noteq> PB_ATYPE_POINTER" using at(3) by (auto simp: pb_type_defs)
  have r: "release_pointer it h = Some h" using np at(1) by (simp add: release_pointer_def Let_def)
  have sub: "each_item (release_count it h) (\<lambda>p h1. case f_ptr f of Submsg i \<Rightarrow> release_msg d E i p h1 | _ \<Rightarrow> None)
      (pData it) (f_data_size f) h = Some h"
    if "PB_LTYPE (f_type f) = PB_LTYPE_SUBMESSAGE" "PB_ATYPE (f_type f) \<noteq> PB_ATYPE_CALLBACK"
  proof -
    from that(2) at(3,5) have "item_ok L i f" by auto
    from submessage_inside [OF this that(1)] obtain j where j: "f_ptr f = Submsg j" "j < lay_count L" "lay_nest L j < lay_nest L i"
      by blast
    then have "release_msg d E j q h1 = Some h1" if "pData it \<le> q" for q h1
      using that d at(4) lay(3) by (intro IH) simp_all
    then show ?thesis using j(1) by (intro each_item_none) simp
  qed
  have "release_field (Suc d) E it h = Some h"
    using at(1,2) np r sub by (simp add: Let_def)
  then show ?thesis by (simp add: it_def)
qed

lemma message_release:
  assumes "static_layout E L" and "i < lay_count L" and "dest \<noteq> 0" and "2 * lay_nest L i \<le> d"
  shows "release_msg d E i dest h = Some h"
  using assms(2-4)
proof (induction d arbitrary: i dest h rule: less_induct)
  case (less d)
  note lay = static_layoutD [OF assms(1) less.prems(1)]
  have "2 \<le> d" using lay(3) less.prems(3) by simp
  then obtain e where d: "d = Suc (Suc e)" by (metis add_2_eq_Suc le_Suc_ex)
  have field: "release_field (Suc e) E (iter_at (pe_fields E i) dest k) h = Some h" if "k < field_count (pe_fields E i)" for k h
    using less.prems d by (intro field_release [OF assms(1) less.prems(1,2) that _ less.IH]) auto
  show ?case
  proof (cases "field_count (pe_fields E i) = 0")
    case True
    then have "f_tag (pe_fields E i ! 0) = 0" using tag_zero [OF lay(1)] by simp
    then show ?thesis by (simp add: d begin_iter_at Let_def del: iter_at.simps)
  next
    case False
    then have "f_tag (pe_fields E i ! 0) \<noteq> 0" by (simp add: tag_nonzero)
    moreover have "field_count (pe_fields E i) - 0 \<le> length (pe_fields E i)" using lay(1) by (simp add: terminated_def)
    ultimately show ?thesis using each_field_none [where act = "release_field (Suc e) E" and dest = dest and k = 0 and h = h and
          n = "length (pe_fields E i)", OF lay(1) field] False less.prems(2)
      by (simp add: d begin_iter_at Let_def del: iter_at.simps)
  qed
qed

lemma release_nothing:
  assumes "static_layout E L" and "i < lay_count L" and "dest \<noteq> 0"
  shows "pb_release E i dest h = Some h"
    and "k < field_count (pe_fields E i) \<Longrightarrow> pb_release_single_field E (iter_at (pe_fields E i) dest k) h = Some h"
proof -
  note lay = static_layoutD [OF assms(1,2)]
  show "pb_release E i dest h = Some h" using message_release [OF assms, of "2 * pe_nest E"] lay(4) by (simp add: pb_release_def)
  show "pb_release_single_field E (iter_at (pe_fields E i) dest k) h = Some h" if k: "k < field_count (pe_fields E i)"
  proof -
    obtain d where d: "2 * pe_nest E = Suc d" using lay(3,4) by (cases "2 * pe_nest E") auto
    then have "2 * lay_nest L i \<le> Suc (Suc d)" using lay(4) by simp
    then show ?thesis unfolding pb_release_single_field_def d
      by (rule field_release [OF assms k]) (rule message_release [OF assms(1)])
  qed
qed

end
