(* ===== verification/Pb_Field_Safe.thy ===== *)
theory Pb_Field_Safe
  imports Pb_Total
begin

text \<open>The decoding of a single field: submessages, packed and repeated fields, oneofs and callbacks.\<close>

section \<open>Submessages\<close>

text \<open>What the decoder of a field may assume of the decoder of shorter messages.\<close>

definition sub_ok :: "pb_layout \<Rightarrow> nat set \<Rightarrow> nat \<Rightarrow> sub_decoder \<Rightarrow> bool" where
  "sub_ok L W n sub \<longleftrightarrow> (\<forall>init j s dest h. j < lay_count L \<longrightarrow> dest \<noteq> 0 \<longrightarrow> bytes_left s < n \<longrightarrow>
     fine is_after ({dest..<dest + lay_size L j} \<union> W) s h (sub init j s dest h))"

lemma sub_ok_mono: "sub_ok L W n sub \<Longrightarrow> m \<le> n \<Longrightarrow> sub_ok L W m sub"
  by (auto simp: sub_ok_def)

lemma submessage_fine:
  assumes "sub_ok L W (bytes_left s) sub" and "item_ok L i f" and "PB_LTYPE (f_type f) = PB_LTYPE_SUBMESSAGE"
    and "{dest..<dest + f_data_size f} \<subseteq> A" and "W \<subseteq> A" and "dest \<noteq> 0"
  shows "fine is_after A s h (pb_dec_submessage sub s f dest h)"
proof -
  obtain r s1 where r: "pb_make_string_substream s = (r, s1)" by force
  show ?thesis
  proof (cases r)
    case None
    then show ?thesis using r by (simp add: pb_dec_submessage_def)
  next
    case (Some ss)
    note mk = r [unfolded Some]
    from submessage_inside [OF assms(2,3)] obtain j where j: "f_ptr f = Submsg j" "j < lay_count L" "lay_size L j \<le> f_data_size f"
      by blast
    have "fine is_after ({dest..<dest + lay_size L j} \<union> W) ss h (sub (PB_HTYPE (f_type f) = PB_HTYPE_REPEATED) j ss dest h)"
      using assms(1,6) j(2) make_substream_less [OF mk] by (simp add: sub_ok_def)
    then obtain ok ss1 h1 where u: "sub (PB_HTYPE (f_type f) = PB_HTYPE_REPEATED) j ss dest h = Some (ok, ss1, h1)"
      "ok \<longrightarrow> is_after ss ss1" "same_outside ({dest..<dest + lay_size L j} \<union> W) h h1" by (rule fineE)
    have "{dest..<dest + lay_size L j} \<union> W \<subseteq> A" using assms(4,5) j(3) by auto
    with u(3) have w: "same_outside A h h1" by (rule same_mono)
    show ?thesis
    proof (cases ok)
      case True
      then have "is_after ss ss1" using u(2) by blast
      from close_substream' [OF mk this] obtain s2 where "pb_close_string_substream s1 ss1 = (True, s2)" "is_past s s2" by blast
      then show ?thesis using mk j(1) u(1) True w is_past_after by (simp add: pb_dec_submessage_def)
    next
      case False
      then show ?thesis using mk j(1) u(1) w by (auto simp: pb_dec_submessage_def split: prod.splits)
    qed
  qed
qed

lemma decoder_fine:
  assumes "sub_ok L W (bytes_left s) sub" and "item_ok L i f" and "PB_ATYPE (f_type f) \<noteq> PB_ATYPE_POINTER"
    and "{dest..<dest + f_data_size f} \<subseteq> A" and "W \<subseteq> A" and "dest \<noteq> 0"
  shows "fine is_after A s h (PB_DECODERS E sub f s dest h)"
proof (cases "PB_LTYPE (f_type f) \<le> PB_LTYPE_LAST_PACKABLE")
  case True
  from scalar_fine [OF this assms(2,4)] show ?thesis by (rule fine_mono) (auto intro: is_past_after)
next
  case False
  define l where "l = unat (PB_LTYPE (f_type f))"
  have "5 < l" using False by (simp add: l_def PB_LTYPE_LAST_PACKABLE_def word_le_nat_alt)
  have "PB_LTYPE (f_type f) \<le> 0xa \<or> PB_LTYPE (f_type f) = PB_LTYPE_SUBMESSAGE" and ne: "PB_LTYPE (f_type f) \<noteq> PB_LTYPE_EXTENSION"
    using assms(2) by (auto simp: item_ok_def Let_def pb_type_defs split: if_splits)
  then have "l \<le> 10" by (auto simp: l_def word_le_nat_alt PB_LTYPE_SUBMESSAGE_def)
  moreover have "l \<noteq> 9" using ne by (auto simp: l_def PB_LTYPE_EXTENSION_def word_unat_eq_iff)
  ultimately have "l \<in> {6, 7, 8, 10}" using \<open>5 < l\<close> by auto
  then consider "PB_LTYPE (f_type f) = 6" | "PB_LTYPE (f_type f) = 7" | "PB_LTYPE (f_type f) = 8" | "PB_LTYPE (f_type f) = 10"
    by (auto simp: l_def word_unat_eq_iff)
  then show ?thesis
  proof cases
    case 1
    then show ?thesis using bytes_fine [OF assms(3,4), of s h E] by (simp add: PB_DECODERS_def pb_type_defs)
  next
    case 2
    then show ?thesis using string_fine [OF assms(3,4), of s h E] by (simp add: PB_DECODERS_def pb_type_defs)
  next
    case 3
    then show ?thesis using submessage_fine [OF assms(1,2) _ assms(4,5,6), of h] by (simp add: PB_DECODERS_def pb_type_defs)
  next
    case 4
    then show ?thesis using fixed_length_bytes_fine [OF assms(4), of s h] by (simp add: PB_DECODERS_def pb_type_defs)
  qed
qed

section \<open>Packed and repeated fields\<close>

text \<open>Where a counter may be.\<close>

definition count_in :: "nat set \<Rightarrow> size_ptr \<Rightarrow> bool" where
  "count_in A sp \<longleftrightarrow> (case sp of At a \<Rightarrow> {a..<a + 4} \<subseteq> A | Fixed_count \<Rightarrow> True)"

lemma write_count_same: "count_in A sp \<Longrightarrow> write_count h fc sp v = (h1, fc1) \<Longrightarrow> same_outside A h h1"
  by (cases sp) (auto simp: count_in_def intro: same_store_int)

text \<open>An item is inside the array: the product in 32 bits is at most the product.\<close>

lemma item_inside:
  assumes "{dat..<dat + f_data_size f * f_array_size f} \<subseteq> A" and "n < f_array_size f"
  shows "{dat + item_offset f n..<dat + item_offset f n + f_data_size f} \<subseteq> A"
proof -
  have "item_offset f n \<le> f_data_size f * n" by (simp add: item_offset_def)
  moreover have "f_data_size f * Suc n \<le> f_data_size f * f_array_size f" using assms(2) by (intro mult_le_mono2) simp
  ultimately have "{dat + item_offset f n..<dat + item_offset f n + f_data_size f} \<subseteq> {dat..<dat + f_data_size f * f_array_size f}"
    by auto
  with assms(1) show ?thesis by blast
qed

lemma packed_loop_fine:
  assumes item: "\<And>s p h. {p..<p + f_data_size f} \<subseteq> A \<Longrightarrow> fine is_past A s h (func s p h)"
    and arr: "{dat..<dat + f_data_size f * f_array_size f} \<subseteq> A" and cnt: "count_in A sp"
    and "bytes_left s \<le> n"
  shows "fine_with is_after A (\<lambda>_. True) s h (packed_loop n func f dat sp s h fc)"
  using assms(4)
proof (induction n arbitrary: s h fc)
  case 0
  then show ?case by simp
next
  case (Suc n)
  show ?case
  proof (cases "bytes_left s > 0 \<and> read_count h fc sp < f_array_size f")
    case False
    then show ?thesis by auto
  next
    case True
    from item [OF item_inside [OF arr, of "read_count h fc sp"]] True
    have "fine is_past A s h (func s (dat + item_offset f (read_count h fc sp)) h)" by blast
    then obtain ok s1 h1 where u: "func s (dat + item_offset f (read_count h fc sp)) h = Some (ok, s1, h1)" "ok \<longrightarrow> is_past s s1"
      "same_outside A h h1" by (rule fineE)
    show ?thesis
    proof (cases ok)
      case False
      then show ?thesis using True u by simp
    next
      case ok: True
      obtain h2 fc2 where w: "write_count h1 fc sp (read_count h1 fc sp + 1) = (h2, fc2)" by force
      have past: "is_past s s1" using u(2) ok by blast
      then have "bytes_left s1 \<le> n" using Suc.prems by (auto dest: is_past_less)
      from Suc.IH [OF this, of h2 fc2] have "fine_with is_after A (\<lambda>_. True) s h2 (packed_loop n func f dat sp s1 h2 fc2)"
        by (rule fine_with_after) (rule is_past_after [OF past])
      moreover have "same_outside A h h2" using u(3) write_count_same [OF cnt w] by (rule same_trans)
      ultimately have "fine_with is_after A (\<lambda>_. True) s h (packed_loop n func f dat sp s1 h2 fc2)" by (rule fine_with_after_store)
      then show ?thesis using True u(1) ok w by simp
    qed
  qed
qed

lemma decode_packed_fine:
  assumes item: "\<And>s p h. {p..<p + f_data_size f} \<subseteq> A \<Longrightarrow> fine is_past A s h (func s p h)"
    and arr: "{dat..<dat + f_data_size f * f_array_size f} \<subseteq> A" and cnt: "count_in A sp"
  shows "fine_with is_after A (\<lambda>_. True) s h (decode_packed func f dat sp s h fc)"
proof -
  obtain r s1 where r: "pb_make_string_substream s = (r, s1)" by force
  show ?thesis
  proof (cases r)
    case None
    then show ?thesis using r by (simp add: decode_packed_def)
  next
    case (Some ss)
    note mk = r [unfolded Some]
    have "fine_with is_after A (\<lambda>_. True) ss h (packed_loop (bytes_left ss) func f dat sp ss h fc)"
      by (rule packed_loop_fine [OF item arr cnt order_refl])
    then obtain ok ss1 h1 fc1 where u: "packed_loop (bytes_left ss) func f dat sp ss h fc = Some (ok, ss1, h1, fc1)"
      "ok \<longrightarrow> is_after ss ss1" "same_outside A h h1" by (rule fine_withE)
    show ?thesis
    proof (cases "ok \<and> bytes_left ss1 = 0")
      case True
      then have "is_after ss ss1" using u(2) by blast
      from close_substream' [OF mk this] obtain s2 where "pb_close_string_substream s1 ss1 = (True, s2)" "is_past s s2" by blast
      then show ?thesis using mk u(1,3) True is_past_after by (simp add: decode_packed_def)
    next
      case False
      then show ?thesis using mk u(1,3) by (auto simp: decode_packed_def split: prod.splits)
    qed
  qed
qed

section \<open>Static fields\<close>

text \<open>What is known of the field the iterator stands at.\<close>

definition static_site :: "pb_layout \<Rightarrow> nat \<Rightarrow> nat set \<Rightarrow> pb_field_iter \<Rightarrow> size_ptr \<Rightarrow> bool" where
  "static_site L i A it sp \<longleftrightarrow> (let f = iter_field it in
     item_ok L i f \<and> PB_ATYPE (f_type f) = PB_ATYPE_STATIC \<and> pData it \<noteq> 0 \<and> {pData it..<pData it + member_size f} \<subseteq> A \<and>
     (PB_HTYPE (f_type f) = PB_HTYPE_OPTIONAL \<longrightarrow> (case sp of At a \<Rightarrow> a \<noteq> pData it \<longrightarrow> {a..<a + 1} \<subseteq> A | Fixed_count \<Rightarrow> True)) \<and>
     (PB_HTYPE (f_type f) = PB_HTYPE_REPEATED \<longrightarrow> count_in A sp) \<and>
     (PB_HTYPE (f_type f) = PB_HTYPE_ONEOF \<longrightarrow> (\<exists>a. sp = At a \<and> {a..<a + 4} \<subseteq> A)))"

end
