(* ===== verification/Pb_Msg_Safe.thy ===== *)
theory Pb_Msg_Safe
  imports Pb_Field_Safe
begin

text \<open>Static fields, callback fields, oneofs, and whole messages.\<close>

section \<open>Static fields\<close>

lemma static_field_fine:
  assumes lay: "static_layout E L" and site: "static_site L i A it sp" and sub: "sub_ok L W (bytes_left s) sub" and W: "W \<subseteq> A"
  shows "fine_with is_after A (\<lambda>_. True) s h (decode_static_field E sub s wt it sp h fc)"
proof -
  define f where "f = iter_field it"
  define p where "p = pData it"
  note site = site [unfolded static_site_def Let_def, folded f_def p_def]
  have ok: "item_ok L i f" and np: "PB_ATYPE (f_type f) \<noteq> PB_ATYPE_POINTER" and p0: "p \<noteq> 0" using site by (auto simp: pb_type_defs)
  have mem: "{p..<p + member_size f} \<subseteq> A" and st: "PB_ATYPE (f_type f) = PB_ATYPE_STATIC" using site by auto
  have dec: "fine_with is_after A (\<lambda>_. True) s h (with_count fc1 (PB_DECODERS E sub f s q h1))"
    if "{q..<q + f_data_size f} \<subseteq> A" "q \<noteq> 0" "same_outside A h h1" for q h1 fc1
    using fine_with_after_store [OF fine_with_count [OF decoder_fine [OF sub ok np that(1) W that(2)]] that(3)] .
  have one: "{p..<p + f_data_size f} \<subseteq> A" if "PB_HTYPE (f_type f) \<noteq> PB_HTYPE_REPEATED"
    using mem that by (simp add: member_size_static [OF st])
  note E = decode_static_field_def [of E sub s wt it sp h fc, unfolded Let_def, folded f_def p_def]
  show ?thesis
  proof (rule PB_HTYPE_cases [of "f_type f"])
    assume "PB_HTYPE (f_type f) = PB_HTYPE_REQUIRED"
    then show ?thesis using dec [OF _ p0 same_refl] one by (simp add: E pb_type_defs)
  next
    assume o: "PB_HTYPE (f_type f) = PB_HTYPE_OPTIONAL"
    then have "same_outside A h (case sp of At a \<Rightarrow> if a \<noteq> p then store_int h a 1 1 else h | Fixed_count \<Rightarrow> h)"
      using site by (auto intro: same_store_int split: size_ptr.splits)
    then show ?thesis using dec [OF _ p0] one o by (simp add: E pb_type_defs)
  next
    assume r: "PB_HTYPE (f_type f) = PB_HTYPE_REPEATED"
    then have arr: "{p..<p + f_data_size f * f_array_size f} \<subseteq> A" and cnt: "count_in A sp"
      using mem site by (simp_all add: member_size_static [OF st])
    show ?thesis
    proof (cases "wt = PB_WT_STRING \<and> PB_LTYPE (f_type f) \<le> PB_LTYPE_LAST_PACKABLE")
      case True
      then have "fine is_past A s' h' (PB_DECODERS E sub f s' q h')" if "{q..<q + f_data_size f} \<subseteq> A" for s' q h'
        using scalar_fine [OF _ ok that] by blast
      from decode_packed_fine [where func = "PB_DECODERS E sub f", OF this arr cnt, of s h fc] show ?thesis
        using r True unfolding E by (simp add: pb_type_defs)
    next
      case False
      obtain h1 fc1 where w: "write_count h fc sp (read_count h fc sp + 1) = (h1, fc1)" by force
      note same = write_count_same [OF cnt w]
      show ?thesis
      proof (cases "read_count h fc sp \<ge> f_array_size f")
        case True
        then show ?thesis using r False w same unfolding E by (auto simp: pb_type_defs)
      next
        case in_array: False
        then have "{p + item_offset f (read_count h fc sp)..<p + item_offset f (read_count h fc sp) + f_data_size f} \<subseteq> A"
          by (intro item_inside [OF arr]) simp
        from dec [OF this _ same, of fc1] have
          "fine_with is_after A (\<lambda>_. True) s h (with_count fc1 (PB_DECODERS E sub f s (p + item_offset f (read_count h fc sp)) h1))"
          using p0 by simp
        then show ?thesis using r False in_array w unfolding E by (auto simp: pb_type_defs)
      qed
    qed
  next
    assume o: "PB_HTYPE (f_type f) = PB_HTYPE_ONEOF"
    then obtain a where a: "sp = At a" "{a..<a + 4} \<subseteq> A" and data: "{p..<p + f_data_size f} \<subseteq> A"
      using site one by (auto simp: pb_type_defs)
    define fresh where "fresh = (PB_LTYPE (f_type f) = PB_LTYPE_SUBMESSAGE \<and> load h a 4 \<noteq> f_tag f)"
    have "\<exists>h1. (if \<not> fresh then Some h
         else case f_ptr f of Submsg i \<Rightarrow> pb_message_set_to_defaults E i p (store h p (replicate (f_data_size f) 0)) | _ \<Rightarrow> None) = Some h1 \<and>
         same_outside A h h1"
    proof (cases fresh)
      case False
      then show ?thesis by simp
    next
      case True
      then obtain j where j: "f_ptr f = Submsg j" "j < lay_count L" "lay_size L j \<le> f_data_size f"
        using submessage_inside [OF ok] by (auto simp: fresh_def)
      obtain h1 where h1: "pb_message_set_to_defaults E j p (store h p (replicate (f_data_size f) 0)) = Some h1"
        "same_outside {p..<p + lay_size L j} (store h p (replicate (f_data_size f) 0)) h1"
        by (rule defaults_inside [OF lay j(2) p0])
      have "{p..<p + lay_size L j} \<subseteq> A" using j(3) data by auto
      with h1(2) have "same_outside A (store h p (replicate (f_data_size f) 0)) h1" by (rule same_mono)
      with same_store [of p "replicate (f_data_size f) 0" A h] data have "same_outside A h h1" by (auto intro: same_trans)
      then show ?thesis using True j(1) h1(1) by simp
    qed
    then obtain h1 where h1: "(if \<not> fresh then Some h
         else case f_ptr f of Submsg i \<Rightarrow> pb_message_set_to_defaults E i p (store h p (replicate (f_data_size f) 0)) | _ \<Rightarrow> None) = Some h1"
      "same_outside A h h1" by blast
    have "same_outside A h (store_int h1 a 4 (f_tag f))" using h1(2) a(2) by (rule same_store_after)
    from dec [OF data p0 this, of fc] show ?thesis using o a(1) h1(1) unfolding E fresh_def by (simp add: pb_type_defs)
  qed
qed

section \<open>Callback fields\<close>

text \<open>
  The decoding functions of the user write only to \<open>W\<close>, and when they succeed they have consumed input, unless there
  was none.
\<close>

definition callbacks_ok :: "pb_env \<Rightarrow> nat set \<Rightarrow> bool" where
  "callbacks_ok E W \<longleftrightarrow> (\<forall>fn s f arg h. case pe_decode E fn s f arg h of (ok, s1, h1) \<Rightarrow>
     same_outside W h h1 \<and> (ok \<longrightarrow> is_after s s1 \<and> (bytes_left s \<noteq> 0 \<longrightarrow> bytes_left s1 < bytes_left s)))"

lemma callbacksD:
  assumes "callbacks_ok E W" and "pe_decode E fn s f arg h = (ok, s1, h1)"
  shows "same_outside W h h1" and "ok \<Longrightarrow> is_after s s1" and "ok \<Longrightarrow> bytes_left s \<noteq> 0 \<Longrightarrow> bytes_left s1 < bytes_left s"
  using assms(1) [unfolded callbacks_ok_def, rule_format, where fn = fn and s = s and f = f and arg = arg and h = h] assms(2) by auto

lemma callback_loop_fine:
  assumes "callbacks_ok E W"
  shows "fine is_after W s h (callback_loop (\<lambda>ss hh. pe_decode E (fn hh) ss f arg hh) s h)"
proof (induction "bytes_left s" arbitrary: s h rule: less_induct)
  case less
  obtain ok s1 h1 where c: "pe_decode E (fn h) s f arg h = (ok, s1, h1)" by (cases "pe_decode E (fn h) s f arg h") auto
  note D = callbacksD [OF assms c]
  note E = callback_loop.simps [of "\<lambda>ss hh. pe_decode E (fn hh) ss f arg hh" s h]
  show ?case
  proof (cases "ok \<and> bytes_left s1 \<noteq> 0")
    case True
    then have "is_after s s1" "bytes_left s \<noteq> 0" using D(2) is_after_le [of s s1] by auto
    then have "fine is_after W s1 h1 (callback_loop (\<lambda>ss hh. pe_decode E (fn hh) ss f arg hh) s1 h1)"
      using D(3) True by (intro less) simp
    from fine_after_store [OF fine_after [OF this \<open>is_after s s1\<close>] D(1)] show ?thesis using True c by (simp add: E)
  next
    case False
    then show ?thesis using c D by (auto simp: E)
  qed
qed

lemma callback_field_fine:
  assumes cb: "callbacks_ok E W" and W: "W \<subseteq> A"
  shows "fine is_after A s h (decode_callback_field E s wt it h)"
proof -
  define fn where "fn = (\<lambda>hh. load hh (pData it) 8)"
  note E = decode_callback_field_def [of E s wt it h, unfolded Let_def, folded fn_def]
  consider "pData it = 0 \<or> fn h = 0" | "\<not> (pData it = 0 \<or> fn h = 0)" "wt = PB_WT_STRING" | "\<not> (pData it = 0 \<or> fn h = 0)" "wt \<noteq> PB_WT_STRING"
    by argo
  then show ?thesis
  proof cases
    case 1
    then show ?thesis using pb_skip_field_after by (auto simp: E fn_def split: prod.splits)
  next
    case 2
    obtain r s1 where r: "pb_make_string_substream s = (r, s1)" by force
    show ?thesis
    proof (cases r)
      case None
      then show ?thesis using r 2 unfolding E by (simp add: fn_def)
    next
      case (Some ss)
      note mk = r [unfolded Some]
      define res where "res = callback_loop (\<lambda>ss hh. pe_decode E (load hh (pData it) 8) ss (iter_field it) (pData it + 8) hh) ss h"
      have "fine is_after W ss h res" unfolding res_def by (rule callback_loop_fine [OF cb])
      then obtain ok ss1 h1 where u: "res = Some (ok, ss1, h1)" "ok \<longrightarrow> is_after ss ss1" "same_outside W h h1" by (rule fineE)
      have w: "same_outside A h h1" using u(3) W by (rule same_mono)
      note E' = decode_callback_field_def [of E s wt it h, unfolded Let_def]
      show ?thesis
      proof (cases ok)
        case True
        then have "is_after ss ss1" using u(2) by blast
        from close_substream' [OF mk this] obtain s2 where "pb_close_string_substream s1 ss1 = (True, s2)" "is_past s s2" by blast
        then show ?thesis using mk u(1) True w is_past_after 2 unfolding E' res_def fn_def by simp
      next
        case False
        then show ?thesis using mk u(1) w 2 unfolding E' res_def fn_def by simp
      qed
    qed
  next
    case 3
    obtain r s1 where r: "read_raw_value s wt 10 = (r, s1)" by force
    show ?thesis
    proof (cases r)
      case None
      then show ?thesis using r 3 unfolding E by (simp add: fn_def)
    next
      case (Some bs)
      have a: "is_after s s1" using read_raw_value_after r Some by blast
      obtain ok s2 h1 where c: "pe_decode E (fn h) (pb_istream_from_buffer bs (length bs)) (iter_field it) (pData it + 8) h = (ok, s2, h1)"
        by (cases "pe_decode E (fn h) (pb_istream_from_buffer bs (length bs)) (iter_field it) (pData it + 8) h") auto
      have "same_outside A h h1" using callbacksD(1) [OF cb c] W by (rule same_mono)
      then show ?thesis using r Some 3 a c unfolding E by (simp add: fn_def)
    qed
  qed
qed

end
