(* ===== verification/Pb_Returns.thy ===== *)
theory Pb_Returns
  imports Pb_Msg_Safe
begin

text \<open>
  The decoder of messages as a whole: oneofs, the loop over the fields of a message, nested messages, and the
  properties of \<open>pb_decode\<close> and \<open>pb_decode_delimited\<close>.
\<close>

section \<open>A field of a message\<close>

abbreviation region :: "pb_layout \<Rightarrow> nat set \<Rightarrow> nat \<Rightarrow> nat \<Rightarrow> nat set" where
  "region L W i dest \<equiv> {dest..<dest + lay_size L i} \<union> W"

definition stands_in :: "pb_field list \<Rightarrow> nat \<Rightarrow> pb_field_iter \<Rightarrow> bool" where
  "stands_in flds dest it \<longleftrightarrow> (\<exists>k < field_count flds. it = iter_at flds dest k)"

lemma static_site_at:
  assumes "static_layout E L" and "i < lay_count L" and "dest \<noteq> 0" and "stands_in (pe_fields E i) dest it"
    and st: "PB_ATYPE (f_type (iter_field it)) = PB_ATYPE_STATIC"
    and sp: "sp = At (pSize it) \<or> sp = Fixed_count \<and> PB_HTYPE (f_type (iter_field it)) = PB_HTYPE_REPEATED"
  shows "static_site L i (region L W i dest) it sp"
proof -
  obtain k where k: "k < field_count (pe_fields E i)" "it = iter_at (pe_fields E i) dest k" using assms(4) by (auto simp: stands_in_def)
  note at = iter_inside [OF assms(1-3) k refl]
  have f: "iter_field it = pe_fields E i ! k" by (rule at(1))
  note st = st [unfolded f] and sp = sp [unfolded f]
  have "{pData it..<pData it + member_size (pe_fields E i ! k)} \<subseteq> region L W i dest" using at(4) at(5) [OF st] by auto
  moreover have "PB_HTYPE (f_type (pe_fields E i ! k)) = PB_HTYPE_OPTIONAL \<Longrightarrow> pSize it \<noteq> pData it \<Longrightarrow>
      {pSize it..<pSize it + 1} \<subseteq> region L W i dest"
    using at(6) [OF st] by auto
  moreover have "PB_HTYPE (f_type (pe_fields E i ! k)) = PB_HTYPE_REPEATED \<or> PB_HTYPE (f_type (pe_fields E i ! k)) = PB_HTYPE_ONEOF \<Longrightarrow>
      {pSize it..<pSize it + 4} \<subseteq> region L W i dest"
    using at(7) [OF st] by auto
  ultimately show ?thesis using at(4) at(5) [OF st] st sp assms(3)
    by (auto simp: static_site_def f Let_def count_in_def pb_type_defs)
qed

lemma release_union_at:
  assumes lay: "static_layout E L" "i < lay_count L" "dest \<noteq> 0" and at: "stands_in (pe_fields E i) dest it"
  shows "\<exists>ok s1 it1. pb_release_union_field E s it h = Some (ok, s1, h, it1) \<and> (ok \<longrightarrow> s1 = s) \<and> stands_in (pe_fields E i) dest it1"
proof -
  let ?fl = "pe_fields E i"
  note t = static_layoutD(1) [OF lay(1,2)]
  obtain k where k: "k < field_count ?fl" "it = iter_at ?fl dest k" using at by (auto simp: stands_in_def)
  have find: "\<exists>found k2. pb_field_iter_find (iter_at ?fl dest k1) tag = (found, iter_at ?fl dest k2) \<and> k2 < field_count ?fl"
    if "k1 < field_count ?fl" for k1 tag
    using pb_field_iter_find_at [OF t, of k1 dest tag] that by (fastforce simp: position_def)
  show ?thesis
  proof (cases "load h (pSize it) 4 = 0 \<or> load h (pSize it) 4 = f_tag (iter_field it)")
    case True
    then have "pb_release_union_field E s it h = Some (True, s, h, it)" by (simp add: pb_release_union_field_def Let_def)
    then show ?thesis using at by blast
  next
    case False
    obtain found k1 where k1: "pb_field_iter_find it (load h (pSize it) 4) = (found, iter_at ?fl dest k1)" "k1 < field_count ?fl"
      using find [OF k(1)] k(2) by blast
    obtain found2 k2 where k2: "pb_field_iter_find (iter_at ?fl dest k1) (f_tag (iter_field it)) = (found2, iter_at ?fl dest k2)"
      "k2 < field_count ?fl" using find [OF k1(2)] by blast
    have np: "PB_ATYPE (f_type (iter_field (iter_at ?fl dest k2))) \<noteq> PB_ATYPE_POINTER"
      using iter_inside(1,3) [OF lay k2(2) refl refl] by (auto simp: pb_type_defs)
    have "stands_in ?fl dest (iter_at ?fl dest k1)" "stands_in ?fl dest (iter_at ?fl dest k2)" using k1(2) k2(2) by (auto simp: stands_in_def)
    then show ?thesis using False k1(1) k2(1) np release_nothing(2) [OF lay k1(2)]
      by (cases found; cases found2) (auto simp: pb_release_union_field_def Let_def)
  qed
qed

lemma decode_field_fine:
  assumes lay: "static_layout E L" "i < lay_count L" "dest \<noteq> 0" and cb: "callbacks_ok E W"
    and at: "stands_in (pe_fields E i) dest it" and sub: "sub_ok L W (bytes_left s) sub"
    and sp: "sp = At (pSize it) \<or> sp = Fixed_count \<and> PB_HTYPE (f_type (iter_field it)) = PB_HTYPE_REPEATED"
  shows "fine_with is_after (region L W i dest) (\<lambda>(_, it1). stands_in (pe_fields E i) dest it1) s h (decode_field E sub s wt it sp h fc)"
proof -
  let ?A = "region L W i dest"
  have step: "fine_with is_after ?A (\<lambda>(_, it1). stands_in (pe_fields E i) dest it1) s h
      (map_option (\<lambda>(ok, s2, h2, fc2). (ok, s2, h2, fc2, it1))
        (if PB_ATYPE (f_type (iter_field it1)) = PB_ATYPE_STATIC then decode_static_field E sub s wt it1 sp1 h fc
         else if PB_ATYPE (f_type (iter_field it1)) = PB_ATYPE_POINTER then decode_pointer_field E sub s wt it1 sp1 h fc
         else if PB_ATYPE (f_type (iter_field it1)) = PB_ATYPE_CALLBACK then with_count fc (decode_callback_field E s wt it1 h)
         else Some (False, pb_set_error s ''invalid field type'', h, fc)))"
    if it1: "stands_in (pe_fields E i) dest it1"
      and sp1: "sp1 = At (pSize it1) \<or> sp1 = Fixed_count \<and> PB_HTYPE (f_type (iter_field it1)) = PB_HTYPE_REPEATED" for it1 sp1
  proof -
    obtain k where "k < field_count (pe_fields E i)" "it1 = iter_at (pe_fields E i) dest k" using it1 by (auto simp: stands_in_def)
    from iter_inside(1,3) [OF lay this refl]
    have a: "PB_ATYPE (f_type (iter_field it1)) = PB_ATYPE_STATIC \<or> PB_ATYPE (f_type (iter_field it1)) = PB_ATYPE_CALLBACK" by simp
    have "fine_with is_after ?A (\<lambda>_. True) s h
       (if PB_ATYPE (f_type (iter_field it1)) = PB_ATYPE_STATIC then decode_static_field E sub s wt it1 sp1 h fc
         else if PB_ATYPE (f_type (iter_field it1)) = PB_ATYPE_POINTER then decode_pointer_field E sub s wt it1 sp1 h fc
         else if PB_ATYPE (f_type (iter_field it1)) = PB_ATYPE_CALLBACK then with_count fc (decode_callback_field E s wt it1 h)
         else Some (False, pb_set_error s ''invalid field type'', h, fc))"
      using static_field_fine [OF lay(1) static_site_at [OF lay it1 _ sp1] sub, of W] a
        fine_with_count [OF callback_field_fine [OF cb, of ?A]] by (auto simp: pb_type_defs)
    then show ?thesis by (rule fine_withE) (use it1 in simp)
  qed
  show ?thesis
  proof (cases "PB_HTYPE (f_type (iter_field it)) = PB_HTYPE_ONEOF")
    case True
    then have sp: "sp = At (pSize it)" using sp by (auto simp: pb_type_defs)
    from release_union_at [OF lay at, of s h] obtain ok s1 it1 where
      r: "pb_release_union_field E s it h = Some (ok, s1, h, it1)" "ok \<longrightarrow> s1 = s" "stands_in (pe_fields E i) dest it1" by blast
    show ?thesis
    proof (cases ok)
      case False
      then show ?thesis using True r by (simp add: decode_field_def)
    next
      case ok: True
      then show ?thesis using step [OF r(3), of "At (pSize it1)"] True r sp by (simp add: decode_field_def Let_def)
    qed
  next
    case False
    from step [OF at, of sp] sp have "fine_with is_after ?A (\<lambda>(_, it1). stands_in (pe_fields E i) dest it1) s h
      (map_option (\<lambda>(ok, s2, h2, fc2). (ok, s2, h2, fc2, it))
        (if PB_ATYPE (f_type (iter_field it)) = PB_ATYPE_STATIC then decode_static_field E sub s wt it sp h fc
         else if PB_ATYPE (f_type (iter_field it)) = PB_ATYPE_POINTER then decode_pointer_field E sub s wt it sp h fc
         else if PB_ATYPE (f_type (iter_field it)) = PB_ATYPE_CALLBACK then with_count fc (decode_callback_field E s wt it h)
         else Some (False, pb_set_error s ''invalid field type'', h, fc)))" by blast
    moreover have "(case sp of At _ \<Rightarrow> At (pSize it) | Fixed_count \<Rightarrow> Fixed_count) = sp" using sp by auto
    ultimately show ?thesis using False by (simp add: decode_field_def Let_def split del: if_split cong: if_cong)
  qed
qed

section \<open>The fields of a message\<close>

definition at_position :: "pb_field list \<Rightarrow> nat \<Rightarrow> noinit_state \<Rightarrow> bool" where
  "at_position flds dest l \<longleftrightarrow> (\<exists>k. position flds k \<and> ns_iter l = iter_at flds dest k)"

lemma known_fine:
  assumes lay: "static_layout E L" "i < lay_count L" "dest \<noteq> 0" and cb: "callbacks_ok E W"
    and at: "stands_in (pe_fields E i) dest (ns_iter l)" and sub: "sub_ok L W (bytes_left s) sub"
  shows "fine_with is_after (region L W i dest) (at_position (pe_fields E i) dest) s h (decode_known E sub s wt l h)"
proof -
  define it where "it = ns_iter l"
  define fixed where "fixed = (PB_HTYPE (f_type (iter_field it)) = PB_HTYPE_REPEATED \<and> pSize it = pData it)"
  define sp where "sp = (if fixed then Fixed_count else At (pSize it))"
  have pos: "at_position (pe_fields E i) dest (l'\<lparr>ns_iter := it1, fixed_count_size := fc\<rparr>)" if "stands_in (pe_fields E i) dest it1" for l' it1 fc
    using that by (auto simp: stands_in_def at_position_def position_def)
  have pos0: "at_position (pe_fields E i) dest l" using at by (auto simp: stands_in_def at_position_def position_def)
  have "fine_with is_after (region L W i dest) (\<lambda>(_, it1). stands_in (pe_fields E i) dest it1) s h
      (decode_field E sub s wt it sp h fc)" for fc
    using at by (intro decode_field_fine [OF lay cb _ sub]) (auto simp: it_def sp_def fixed_def)
  note F = this
  have R: "\<exists>ok s1 h1 fc1 it1. decode_field E sub s wt it sp h fc = Some (ok, s1, h1, fc1, it1) \<and> (ok \<longrightarrow> is_after s s1) \<and>
      same_outside (region L W i dest) h h1 \<and> stands_in (pe_fields E i) dest it1" for fc
  proof -
    from F [of fc] obtain ok s1 h1 x where "decode_field E sub s wt it sp h fc = Some (ok, s1, h1, x)" "ok \<longrightarrow> is_after s s1"
      "same_outside (region L W i dest) h h1" "case x of (_, it1) \<Rightarrow> stands_in (pe_fields E i) dest it1" by (rule fine_withE)
    then show ?thesis by (cases x) auto
  qed
  show ?thesis
  proof (cases "fixed \<and> fixed_count_field l \<noteq> Some (it_pos it) \<and> fixed_count_wrong l")
    case True
    then show ?thesis using pos0 by (simp add: decode_known_def Let_def it_def fixed_def)
  next
    case False
    define l1 where "l1 = (if fixed \<and> fixed_count_field l \<noteq> Some (it_pos it)
      then l\<lparr>fixed_count_field := Some (it_pos it), fixed_count_size := 0\<rparr> else l)"
    define r where "r = required_field_index it"
    define l2 where "l2 = (if PB_HTYPE (f_type (iter_field it)) = PB_HTYPE_REQUIRED \<and> r < PB_MAX_REQUIRED_FIELDS
      then l1\<lparr>fields_seen := (fields_seen l1)[r div 32 := fields_seen l1 ! (r div 32) OR push_bit (r mod 32) 1]\<rparr> else l1)"
    have e: "decode_known E sub s wt l h =
        (case decode_field E sub s wt it sp h (fixed_count_size l2) of
           None \<Rightarrow> None
         | Some (ok, s1, h1, fc, it1) \<Rightarrow> Some (ok, s1, h1, l2\<lparr>ns_iter := it1, fixed_count_size := fc\<rparr>))"
      using False unfolding decode_known_def Let_def it_def [symmetric] fixed_def [symmetric] sp_def [symmetric] l1_def [symmetric]
        r_def [symmetric] l2_def [symmetric] by auto
    from R [of "fixed_count_size l2"] show ?thesis unfolding e using pos by auto
  qed
qed

text \<open>
  In an empty message the number 0 finds the end mark, which is then decoded as a required \<open>bool\<close> at the start of the
  structure.
\<close>

lemma last_field_decode:
  assumes "iter_field it = PB_LAST_FIELD"
  shows "decode_field E sub s wt it sp h fc = (case dec_bool s (pData it) h of (ok, s1, h1) \<Rightarrow> Some (ok, s1, h1, fc, it))"
  using assms by (simp add: decode_field_def decode_static_field_def PB_LAST_FIELD_def PB_DECODERS_def pb_type_defs with_count_def
      split: prod.splits)

lemma known_empty:
  assumes lay: "static_layout E L" "i < lay_count L" "dest \<noteq> 0" and "field_count (pe_fields E i) = 0"
    and at: "ns_iter l = iter_at (pe_fields E i) dest 0"
  shows "fine_with is_after (region L W i dest) (at_position (pe_fields E i) dest) s h (decode_known E sub s wt l h)"
proof -
  note D = static_layoutD [OF lay(1,2)]
  have p: "position (pe_fields E i) 0" by (simp add: position_def)
  have f: "iter_field (ns_iter l) = PB_LAST_FIELD" using iter_at_pos(4) [OF D(1) p] D(1) assms(4) unfolding at by (simp add: terminated_def)
  have "pData (ns_iter l) = dest" using iter_at_data(1) [OF D(1) p lay(3)] D(1) assms(4)
    unfolding at by (simp add: terminated_def PB_LAST_FIELD_def)
  then have "{pData (ns_iter l)..<pData (ns_iter l) + 1} \<subseteq> region L W i dest" using D(2) by auto
  then have "fine is_after (region L W i dest) s h (Some (dec_bool s (pData (ns_iter l)) h))"
    using pb_dec_bool_past is_past_after by (auto simp: dec_bool_def intro: same_store_int split: prod.splits option.splits)
  then obtain ok s1 h1 where d: "dec_bool s (pData (ns_iter l)) h = (ok, s1, h1)" "ok \<longrightarrow> is_after s s1" "same_outside (region L W i dest) h h1"
    by (auto elim: fineE)
  have "\<exists>k. position (pe_fields E i) k \<and> ns_iter l = iter_at (pe_fields E i) dest k" using at p by blast
  then show ?thesis using d
    by (simp add: decode_known_def Let_def f last_field_decode PB_LAST_FIELD_def pb_type_defs at_position_def)
qed

lemma unknown_fine:
  assumes lay: "static_layout E L" "i < lay_count L" and at: "at_position (pe_fields E i) dest l" and "tag < 2 ^ 32 - 1"
  shows "fine_with is_after (region L W i dest) (at_position (pe_fields E i) dest) s h (decode_unknown E sub s tag wt l h)"
proof -
  let ?fl = "pe_fields E i"
  note D = static_layoutD [OF lay]
  obtain k where k: "position ?fl k" "ns_iter l = iter_at ?fl dest k" using at by (auto simp: at_position_def)
  have "\<forall>j < field_count ?fl. PB_LTYPE (f_type (?fl ! j)) \<noteq> PB_LTYPE_EXTENSION" using D(5) by (simp add: field_ok_def)
  from find_extension_field_at [OF D(1) k(1) this] have f: "find_extension_field (ns_iter l) = (False, ns_iter l)" using k(2) by simp
  have e: "decode_unknown E sub s tag wt l h =
      (case pb_skip_field s wt of (ok, s2) \<Rightarrow>
         Some (ok, s2, h, if tag \<ge> extension_range_start l then l\<lparr>ns_iter := ns_iter l, extension_range_start := 2 ^ 32 - 1\<rparr> else l))"
    using f assms(4) by (simp add: decode_unknown_def Let_def split: prod.splits)
  show ?thesis unfolding e using pb_skip_field_after [of s wt] at by (auto simp: at_position_def split: prod.splits)
qed

text \<open>
  A decoder that succeeds has used its stream up, or stopped behind a tag of value 0, which \<open>pb_decode_tag\<close> takes as
  the end.
\<close>

definition ended :: "pb_istream \<Rightarrow> pb_istream \<Rightarrow> bool" where
  "ended s s1 \<longleftrightarrow> is_after s s1 \<and> (bytes_left s1 = 0 \<or> (\<exists>t. is_after s t \<and> bytes_left t \<noteq> 0 \<and> pb_decode_tag t = (None, True, s1)))"

lemma ended_after: "is_after s s1 \<Longrightarrow> ended s1 s2 \<Longrightarrow> ended s s2"
  unfolding ended_def by (meson is_after_trans)

lemma fine_with_ended: "fine_with ended A Q s1 h r \<Longrightarrow> is_after s s1 \<Longrightarrow> fine_with ended A Q s h r"
  by (erule fine_withE) (auto intro: ended_after)

lemma decode_tag_bound: "pb_decode_tag s = (Some (wt, tag), e, s1) \<Longrightarrow> unat tag < 2 ^ 32 - 1"
proof -
  assume "pb_decode_tag s = (Some (wt, tag), e, s1)"
  then obtain temp :: u32 where t: "tag = drop_bit 3 temp" by (auto simp: pb_decode_tag_def split: prod.splits option.splits if_splits)
  have "unat temp div 8 < 2 ^ 29" using unat_u32_less [of temp] by simp
  then show ?thesis unfolding t by (simp add: unat_drop_bit)
qed

lemma decode_fields_fine:
  assumes lay: "static_layout E L" "i < lay_count L" "dest \<noteq> 0" and cb: "callbacks_ok E W"
    and "at_position (pe_fields E i) dest l" and "sub_ok L W (bytes_left s) sub" and "bytes_left s \<le> n"
  shows "fine_with ended (region L W i dest) (\<lambda>_. True) s h (decode_fields n E sub s l h)"
  using assms(5-)
proof (induction n arbitrary: s l h)
  case 0
  then show ?case by (simp add: ended_def)
next
  case (Suc n)
  note t = static_layoutD(1) [OF lay(1,2)]
  show ?case
  proof (cases "bytes_left s = 0")
    case True
    then show ?thesis by (simp add: ended_def)
  next
    case left: False
    obtain r e s1 where tag: "pb_decode_tag s = (r, e, s1)" by (cases "pb_decode_tag s") auto
    show ?thesis
    proof (cases r)
      case None
      have "ended s s1" if e
      proof -
        from tag None that have z: "pb_decode_tag s = (None, True, s1)" by simp
        from pb_decode_tag_end [OF z left] have "is_after s s1" by (rule is_past_after)
        with z left show ?thesis unfolding ended_def using is_after_refl [of s] by blast
      qed
      then show ?thesis using left tag None by simp
    next
      case (Some wtag)
      obtain wt num where w: "wtag = (wt, num)" by force
      note tag = tag [unfolded Some w]
      from tag have past: "is_past s s1" by (rule pb_decode_tag_past)
      have sub1: "sub_ok L W (bytes_left s1) sub" using Suc.prems(2) past by (auto intro: sub_ok_mono is_after_le is_past_after)
      obtain k where k: "position (pe_fields E i) k" "ns_iter l = iter_at (pe_fields E i) dest k"
        using Suc.prems(1) by (auto simp: at_position_def)
      obtain found k1 where f: "pb_field_iter_find (ns_iter l) (unat num) = (found, iter_at (pe_fields E i) dest k1)" "position (pe_fields E i) k1"
        using pb_field_iter_find_at [OF t k(1)] k(2) by metis
      define l1 where "l1 = l\<lparr>ns_iter := iter_at (pe_fields E i) dest k1\<rparr>"
      define res where "res = (if found then decode_known E sub s1 wt l1 h else decode_unknown E sub s1 (unat num) wt l1 h)"
      have l1: "ns_iter l1 = iter_at (pe_fields E i) dest k1" "at_position (pe_fields E i) dest l1"
        using f(2) by (auto simp: l1_def at_position_def)
      have "fine_with is_after (region L W i dest) (at_position (pe_fields E i) dest) s1 h res"
      proof (cases "found \<and> k1 < field_count (pe_fields E i)")
        case True
        then have "stands_in (pe_fields E i) dest (ns_iter l1)" using l1(1) by (auto simp: stands_in_def)
        from known_fine [OF lay cb this sub1] True show ?thesis by (simp add: res_def)
      next
        case False
        show ?thesis
        proof (cases found)
          case True
          then have "k1 = 0" "field_count (pe_fields E i) = 0" using False f(2) by (auto simp: position_def)
          from known_empty [OF lay this(2)] l1(1) this(1) True show ?thesis by (simp add: res_def)
        next
          case nf: False
          from unknown_fine [OF lay(1,2) l1(2) decode_tag_bound [OF tag]] nf show ?thesis by (simp add: res_def)
        qed
      qed
      then obtain ok s2 h2 l2 where R: "res = Some (ok, s2, h2, l2)" "ok \<longrightarrow> is_after s1 s2" "same_outside (region L W i dest) h h2"
        "at_position (pe_fields E i) dest l2" by (rule fine_withE)
      have e: "decode_fields (Suc n) E sub s l h =
        (case res of None \<Rightarrow> None | Some (False, s2, h2, l2) \<Rightarrow> Some (False, s2, h2, l2)
         | Some (True, s2, h2, l2) \<Rightarrow> decode_fields n E sub s2 l2 h2)"
        using left tag f(1) by (simp add: res_def l1_def)
      show ?thesis
      proof (cases ok)
        case False
        then show ?thesis using R unfolding e by simp
      next
        case True
        then have "is_past s s2" using past R(2) is_past_trans(1) by blast
        moreover from this have "sub_ok L W (bytes_left s2) sub" "bytes_left s2 \<le> n"
          using Suc.prems(2,3) by (auto intro: sub_ok_mono is_after_le is_past_after dest: is_past_less)
        ultimately have "fine_with ended (region L W i dest) (\<lambda>_. True) s h2 (decode_fields n E sub s2 l2 h2)"
          using fine_with_ended [OF Suc.IH [OF R(4), of s2 h2]] is_past_after by blast
        from fine_with_after_store [OF this R(3)] show ?thesis using R(1) True unfolding e by simp
      qed
    qed
  qed
qed

section \<open>Messages\<close>

lemma decode_noinit_fine:
  assumes lay: "static_layout E L" "i < lay_count L" "dest \<noteq> 0" and cb: "callbacks_ok E W" and "sub_ok L W (bytes_left s) sub"
  shows "fine ended (region L W i dest) s h (decode_noinit E sub i s dest h)"
proof -
  define l0 where "l0 = \<lparr>ns_iter = snd (pb_field_iter_begin (pe_fields E i) dest), fields_seen = [0, 0],
                extension_range_start = 0, fixed_count_field = None, fixed_count_size = 0\<rparr>"
  have "at_position (pe_fields E i) dest l0" by (auto simp: at_position_def l0_def position_def intro!: exI [of _ 0])
  from decode_fields_fine [OF lay cb this assms(5) order_refl, of h] obtain ok s1 h1 l where
    "decode_fields (bytes_left s) E sub s l0 h = Some (ok, s1, h1, l)" "ok \<longrightarrow> ended s s1" "same_outside (region L W i dest) h h1"
    by (rule fine_withE)
  then show ?thesis by (auto simp: decode_noinit_def Let_def l0_def [symmetric])
qed

lemma decode_msg_fine:
  assumes lay: "static_layout E L" and cb: "callbacks_ok E W"
    and "i < lay_count L" and "dest \<noteq> 0" and "bytes_left s < d"
  shows "fine ended (region L W i dest) s h (decode_msg d E init i s dest h)"
  using assms(3-)
proof (induction d arbitrary: init i s dest h)
  case (Suc d)
  note li = lay Suc.prems(1,2)
  have "sub_ok L W (bytes_left s) (\<lambda>init1 i1 s1 dest1 h2. decode_msg d E init1 i1 s1 dest1 h2)"
    using Suc by (auto simp: sub_ok_def ended_def intro!: fine_mono [OF Suc.IH])
  note noinit = decode_noinit_fine [OF li cb this]
  show ?case
  proof (cases init)
    case False
    then show ?thesis using noinit by simp
  next
    case True
    obtain h0 where h0: "pb_message_set_to_defaults E i dest h = Some h0" "same_outside {dest..<dest + lay_size L i} h h0"
      by (rule defaults_inside [OF li])
    have w: "same_outside (region L W i dest) h h0" using h0(2) by (rule same_mono) blast
    from fine_after_store [OF noinit w] obtain ok s1 h1 where
      R: "decode_noinit E (\<lambda>init1 i1 s1 dest1 h2. decode_msg d E init1 i1 s1 dest1 h2) i s dest h0 = Some (ok, s1, h1)"
      "ok \<longrightarrow> ended s s1" "same_outside (region L W i dest) h h1" by (rule fineE)
    then show ?thesis using True h0(1) release_nothing(1) [OF li] by (cases ok) (simp_all add: Let_def)
  qed
qed simp

lemma pb_decode_fine:
  assumes "static_layout E L" and "callbacks_ok E W" and "i < lay_count L" and "dest \<noteq> 0"
  shows "fine ended (region L W i dest) s h (pb_decode E s i dest h)"
    and "fine ended (region L W i dest) s h (pb_decode_noinit E s i dest h)"
  unfolding pb_decode_def pb_decode_noinit_def by (rule decode_msg_fine [OF assms], simp)+

end
