(* ===== verification/Pb_Decode_Props.thy ===== *)
theory Pb_Decode_Props
  imports Pb_Returns
begin

text \<open>
  The properties of the message decoder, at a message with a required integer, an optional string, a repeated packed
  integer, a submessage with a oneof, and a callback; and where the decoder writes although it should not.
\<close>

section \<open>An example\<close>

definition fd :: "nat \<Rightarrow> byte \<Rightarrow> nat \<Rightarrow> int \<Rightarrow> nat \<Rightarrow> nat \<Rightarrow> field_ptr \<Rightarrow> pb_field" where
  "fd tag type off soff sz n ptr = \<lparr>f_tag = tag, f_type = type, f_data_offset = off, f_size_offset = soff,
     f_data_size = sz, f_array_size = n, f_ptr = ptr\<rparr>"

definition demo_fields :: "nat \<Rightarrow> pb_field list" where
  "demo_fields i =
     (if i = 0 then
        [fd 1 0x01 0 0 4 0 Null_ptr, fd 2 0x17 4 (-4) 8 0 Null_ptr, fd 3 0x22 4 (-4) 4 2 Null_ptr,
         fd 4 0x18 4 (-4) 8 0 (Submsg 1), fd 5 0x51 0 0 16 0 Null_ptr, PB_LAST_FIELD]
      else [fd 1 0x31 4 (-4) 4 0 Null_ptr, fd 2 0x30 PB_SIZE_MAX (-4) 1 0 Null_ptr, PB_LAST_FIELD])"

text \<open>The callback stores each byte at the address 2000.\<close>

definition demo_callback :: "nat \<Rightarrow> pb_istream \<Rightarrow> pb_field \<Rightarrow> nat \<Rightarrow> heap \<Rightarrow> bool \<times> pb_istream \<times> heap" where
  "demo_callback fn s f arg h =
     (case pb_readbyte s of (None, s1) \<Rightarrow> (False, s1, h) | (Some b, s1) \<Rightarrow> (True, s1, store h 2000 [b]))"

definition demo_env :: pb_env where
  "demo_env = \<lparr>pe_fields = demo_fields, pe_decode = demo_callback, pe_ext_type = (\<lambda>_. \<lparr>xt_decode = None, xt_arg = 0\<rparr>),
     pe_realloc = (\<lambda>h p n. if n \<le> 100 then 5000 else 0), pe_nest = 2\<rparr>"

definition demo_layout :: pb_layout where
  "demo_layout = \<lparr>lay_size = (\<lambda>i. if i = 0 then 56 else 8), lay_nest = (\<lambda>i. if i = 0 then 2 else 1), lay_count = 2\<rparr>"

definition demo_heap :: heap where
  "demo_heap = \<lparr>hp_mem = (\<lambda>a. if a = 1040 then 1 else 0), hp_live = (\<lambda>_. None)\<rparr>"

definition demo_input :: "byte list" where
  "demo_input = [0x08, 0x96, 0x01, 0x12, 2, 0x41, 0x42, 0x1a, 2, 7, 9, 0x22, 2, 0x10, 1, 0x2a, 2, 0x55, 0x66]"

definition from_bytes :: "byte list \<Rightarrow> pb_istream" where
  "from_bytes bs = pb_istream_from_buffer bs (length bs)"

lemma demo_message_0: "message_ok demo_env demo_layout 0"
  by code_simp

lemma demo_message_1: "message_ok demo_env demo_layout 1"
  by code_simp

lemma demo_static: "static_layout demo_env demo_layout"
  using demo_message_0 demo_message_1 by (auto simp: static_layout_def demo_layout_def less_2_cases_iff)

lemma demo_callbacks: "callbacks_ok demo_env {2000}"
  using pb_readbyte_past
  by (auto simp: callbacks_ok_def demo_env_def demo_callback_def intro: same_store is_past_after is_past_less split: prod.splits option.splits)

section \<open>Termination, safety, progress\<close>

text \<open>
  C33 (termination).  For message types laid out without pointer and extension fields and callbacks that consume their
  input, \<open>pb_decode\<close>, \<open>pb_decode_noinit\<close> and \<open>pb_decode_delimited\<close> return for every input, however its submessages
  nest, and none of the undefined cases is reached (a \<open>NULL\<close> entry of the decoder table, a \<open>NULL\<close> descriptor, a wrong
  \<open>free\<close>).
\<close>

theorem pb_decode_returns:
  assumes "static_layout E L" and "callbacks_ok E W" and "i < lay_count L" and "dest \<noteq> 0"
  shows "pb_decode E s i dest h \<noteq> None \<and> pb_decode_noinit E s i dest h \<noteq> None \<and> pb_decode_delimited E s i dest h \<noteq> None"
proof -
  have d: "pb_decode E s' i dest h \<noteq> None" "pb_decode_noinit E s' i dest h \<noteq> None" for s'
    using fine_returns [OF pb_decode_fine(1) [OF assms, of s' h]] fine_returns [OF pb_decode_fine(2) [OF assms, of s' h]] by blast+
  have "pb_decode_delimited E s i dest h \<noteq> None"
  proof
    assume "pb_decode_delimited E s i dest h = None"
    then obtain sub where "pb_decode E sub i dest h = None"
      by (auto simp: pb_decode_delimited_def decode_delimited_def split: prod.splits option.splits)
    with d(1) show False by blast
  qed
  with d show ?thesis by blast
qed

theorem pb_decode_returns_witness:
  "pb_decode demo_env (from_bytes demo_input) 0 1000 demo_heap \<noteq> None \<and>
   pb_decode_noinit demo_env (from_bytes demo_input) 0 1000 demo_heap \<noteq> None \<and>
   pb_decode_delimited demo_env (from_bytes demo_input) 0 1000 demo_heap \<noteq> None"
  by (rule pb_decode_returns [OF demo_static demo_callbacks]) (simp_all add: demo_layout_def)

text \<open>
  C32 (memory safety).  For message types laid out without pointer and extension fields, in which every array with a
  fixed count has room for the four bytes of a counter (\<open>counter_ok\<close>, part of \<open>static_layout\<close>; C36 is about the others), and
  callbacks that consume their input: for every input and every contents of memory, also of the counters in the
  structure, decoding writes only to the structure and to the memory of the callbacks, whether it succeeds or not.
\<close>

theorem pb_decode_inside:
  assumes "static_layout E L" and "callbacks_ok E W" and "i < lay_count L" and "dest \<noteq> 0"
    and "pb_decode E s i dest h = Some (ok, s1, h1) \<or> pb_decode_noinit E s i dest h = Some (ok, s1, h1)"
    and "a < dest \<or> dest + lay_size L i \<le> a" and "a \<notin> W"
  shows "hp_mem h1 a = hp_mem h a"
  using pb_decode_fine [OF assms(1-4), of s h] assms(5-7) by (auto simp: same_outside_def)

theorem pb_decode_inside_witness:
  "\<exists>s1 h1. pb_decode demo_env (from_bytes [0x10, 1]) 1 1000 demo_heap = Some (True, s1, h1) \<and>
     hp_mem h1 1008 = hp_mem demo_heap 1008"
proof -
  have "case pb_decode demo_env (from_bytes [0x10, 1]) 1 1000 demo_heap of Some (ok, _, _) \<Rightarrow> ok | None \<Rightarrow> False" by code_simp
  then obtain s1 h1 where r: "pb_decode demo_env (from_bytes [0x10, 1]) 1 1000 demo_heap = Some (True, s1, h1)"
    by (auto split: option.splits)
  from pb_decode_inside [OF demo_static demo_callbacks _ _ disjI1 [OF r], of 1008] have "hp_mem h1 1008 = hp_mem demo_heap 1008"
    by (simp add: demo_layout_def)
  with r show ?thesis by blast
qed

text \<open>
  C34 (progress).  A delimited decode that succeeds has read a length and then consumed exactly that many bytes, the
  message itself, whose decoder has used them up or stopped behind a zero tag.
\<close>

theorem pb_decode_delimited_consumes:
  assumes "static_layout E L" and "callbacks_ok E W" and "i < lay_count L" and "dest \<noteq> 0" and "is_ok s"
    and "pb_decode_delimited E s i dest h = Some (True, s1, h1)"
  shows "\<exists>n s0 sub sub1. pb_decode_varint32 s = (Some n, s0) \<and> is_bytes s0 = is_bytes sub @ is_bytes s1 \<and>
    length (is_bytes sub) = unat n \<and> is_ok s1 \<and> pb_decode E sub i dest h = Some (True, sub1, h1) \<and> ended sub sub1"
proof -
  obtain sub t where mk: "pb_make_string_substream s = (Some sub, t)"
    using assms(6) by (auto simp: pb_decode_delimited_def decode_delimited_def split: prod.splits option.splits)
  then obtain n s0 where n: "pb_decode_varint32 s = (Some n, s0)" "unat n \<le> bytes_left s0"
    and sub: "sub = s0\<lparr>bytes_left := unat n\<rparr>" and t: "t = s0\<lparr>bytes_left := bytes_left s0 - unat n\<rparr>"
    by (auto simp: pb_make_string_substream_def split: prod.splits option.splits if_splits)
  from pb_decode_fine(1) [OF assms(1-4), of sub h] obtain ok sub1 h' where
    r: "pb_decode E sub i dest h = Some (ok, sub1, h')" "ok \<longrightarrow> ended sub sub1" by (rule fineE)
  have ok: "ok" and h': "h' = h1"
    using assms(6) mk r(1) by (auto simp: pb_decode_delimited_def decode_delimited_def split: prod.splits if_splits)
  then have e: "ended sub sub1" using r(2) by simp
  then have "is_after sub sub1" by (simp add: ended_def)
  from close_substream' [OF mk this] obtain s2 where c: "pb_close_string_substream t sub1 = (True, s2)"
    "is_state s2 = drop (bytes_left sub) (is_state sub)" "bytes_left s2 = bytes_left t" by blast
  have s1: "s1 = s2" using assms(6) mk r(1) ok c(1) by (simp add: pb_decode_delimited_def decode_delimited_def)
  have ok0: "is_ok s0" using is_after_bytes [OF is_past_after [OF pb_decode_varint32_past [OF n(1)]] assms(5)] by blast
  have "is_bytes s0 = is_bytes sub @ is_bytes s1"
    using take_add [of "unat n" "bytes_left s0 - unat n" "is_state s0"] n(2) c(2,3) by (simp add: s1 sub t is_bytes_def)
  moreover have "length (is_bytes sub) = unat n" using ok0 n(2) by (simp add: sub is_bytes_def is_ok_def)
  moreover have "is_ok s1" using ok0 n(2) c(2,3) by (simp add: s1 sub t is_ok_def)
  moreover have "pb_decode E sub i dest h = Some (True, sub1, h1)" using r(1) ok h' by simp
  ultimately show ?thesis using n(1) e by blast
qed

theorem pb_decode_delimited_consumes_witness:
  "\<exists>s1 h1. pb_decode_delimited demo_env (from_bytes [2, 0x10, 1, 7]) 1 1000 demo_heap = Some (True, s1, h1) \<and>
     (\<exists>n s0 sub sub1. pb_decode_varint32 (from_bytes [2, 0x10, 1, 7]) = (Some n, s0) \<and> is_bytes s0 = is_bytes sub @ is_bytes s1 \<and>
       length (is_bytes sub) = unat n \<and> is_ok s1 \<and> pb_decode demo_env sub 1 1000 demo_heap = Some (True, sub1, h1) \<and> ended sub sub1)"
proof -
  have "case pb_decode_delimited demo_env (from_bytes [2, 0x10, 1, 7]) 1 1000 demo_heap of Some (ok, _, _) \<Rightarrow> ok | None \<Rightarrow> False"
    by code_simp
  then obtain s1 h1 where r: "pb_decode_delimited demo_env (from_bytes [2, 0x10, 1, 7]) 1 1000 demo_heap = Some (True, s1, h1)"
    by (auto split: option.splits)
  have "is_ok (from_bytes [2, 0x10, 1, 7])" by (simp only: from_bytes_def from_buffer_laws)
  from pb_decode_delimited_consumes [OF demo_static demo_callbacks _ _ this r] r show ?thesis by (simp add: demo_layout_def)
qed

section \<open>Strings\<close>

lemma map_store: "map (hp_mem (store h a bs)) [a..<a + length bs] = bs"
  by (rule nth_equalityI) (simp_all add: store_def)

lemma store_before: "i < a \<or> a + length bs \<le> i \<Longrightarrow> hp_mem (store h a bs) i = hp_mem h i"
  by (auto simp: store_def)

lemma store_live [simp]: "hp_live (store h a bs) = hp_live h" "hp_live (store_int h a n v) = hp_live h"
  by (simp_all add: store_def store_int_def)

lemma load_store_int: "v < 256 ^ n \<Longrightarrow> load (store_int h a n v) a n = v"
  using map_store [of h a "le_bytes n v"] by (simp add: load_def store_int_def le_val_le_bytes)

lemma load_same: "(\<And>i. a \<le> i \<Longrightarrow> i < a + n \<Longrightarrow> hp_mem h1 i = hp_mem h i) \<Longrightarrow> load h1 a n = load h a n"
  unfolding load_def by (intro arg_cong [where f = be_val] arg_cong [where f = rev] map_cong) auto

lemma string_to_exact:
  assumes "is_ok s" and "string_to s p n h = (True, s1, h1)"
  shows "is_bytes s = map (hp_mem h1) [p..<p + n] @ is_bytes s1" and "hp_mem h1 (p + n) = 0"
    and "hp_live h1 = hp_live h" and "i < p \<or> p + n < i \<Longrightarrow> hp_mem h1 i = hp_mem h i"
proof -
  obtain bs where bs: "pb_read s n = (Some bs, s1)" and h1: "h1 = store_int (store h p bs) (p + n) 1 0"
    using assms(2) by (auto simp: string_to_def read_to_def split: prod.splits option.splits)
  have r: "is_bytes s = bs @ is_bytes s1" "length bs = n" using pb_read_Some [OF assms(1) bs] by blast+
  have z: "le_bytes 1 0 = [0]" by (simp add: le_bytes_def bytes_simps byte_of_def)
  have "map (hp_mem h1) [p..<p + n] = map (hp_mem (store h p bs)) [p..<p + n]"
    unfolding h1 store_int_def by (intro map_cong refl store_before) auto
  also have "\<dots> = bs" using map_store [of h p bs] r(2) by simp
  finally show "is_bytes s = map (hp_mem h1) [p..<p + n] @ is_bytes s1" using r(1) by simp
  show "hp_mem h1 (p + n) = 0" unfolding h1 store_int_def z by (simp add: store_def)
  show "hp_live h1 = hp_live h" by (simp add: h1)
  show "hp_mem h1 i = hp_mem h i" if "i < p \<or> p + n < i"
    using that r(2) unfolding h1 store_int_def z by (auto simp: store_def)
qed

text \<open>A new block lies within 64 bits of address space and apart from the pointer at \<open>dest\<close>.\<close>

definition alloc_apart :: "pb_env \<Rightarrow> nat \<Rightarrow> bool" where
  "alloc_apart E dest \<longleftrightarrow> (\<forall>h p n. pe_realloc E h p n \<noteq> 0 \<longrightarrow>
     pe_realloc E h p n + n \<le> 2 ^ 64 \<and> (pe_realloc E h p n + n \<le> dest \<or> dest + 8 \<le> pe_realloc E h p n))"

lemma allocate_field_exact:
  assumes "alloc_apart E dest" and "allocate_field E s dest data_size n h = Some (True, s1, h1)"
  shows "\<exists>q. q \<noteq> 0 \<and> load h1 dest 8 = q \<and> hp_live h1 q = Some (n * data_size) \<and> s1 = s \<and> q + n * data_size \<le> 2 ^ 64 \<and>
    (q + n * data_size \<le> dest \<or> dest + 8 \<le> q)"
proof -
  obtain q h2 where q: "pb_realloc E (load h dest 8) (n * data_size) h = Some (q, h2)" "q \<noteq> 0"
    and h1: "h1 = store_int h2 dest 8 q" "s1 = s"
    using assms(2) by (auto simp: allocate_field_def Let_def split: if_splits option.splits)
  then have a: "q = pe_realloc E h (load h dest 8) (n * data_size)" and l: "hp_live h2 q = Some (n * data_size)"
    by (auto simp: pb_realloc_def Let_def split: if_splits)
  with assms(1) q(2) have b: "q + n * data_size \<le> 2 ^ 64" "q + n * data_size \<le> dest \<or> dest + 8 \<le> q" by (auto simp: alloc_apart_def)
  have "0 < n * data_size" using assms(2) by (auto simp: allocate_field_def Let_def split: if_splits)
  then have "q < q + n * data_size" by simp
  from this b(1) have "q < 2 ^ 64" by (rule less_le_trans)
  then have "q < 256 ^ 8" by simp
  then have "load h1 dest 8 = q" unfolding h1(1) by (rule load_store_int)
  then show ?thesis using b l q(2) h1 by simp
qed

text \<open>Where a decoded string is, and the room it has.\<close>

definition string_at :: "pb_field \<Rightarrow> nat \<Rightarrow> heap \<Rightarrow> nat" where
  "string_at f dest h = (if PB_ATYPE (f_type f) = PB_ATYPE_POINTER then load h dest 8 else dest)"

definition string_room :: "pb_field \<Rightarrow> nat \<Rightarrow> heap \<Rightarrow> nat" where
  "string_room f dest h =
     (if PB_ATYPE (f_type f) = PB_ATYPE_POINTER then (case hp_live h (string_at f dest h) of None \<Rightarrow> 0 | Some n \<Rightarrow> n)
      else f_data_size f)"

text \<open>
  C35 (type).  A string that \<open>pb_dec_string\<close> decodes, into the structure or into a block of its own, is the bytes of the
  input followed by the terminator, and lies with its terminator inside its room.
\<close>

theorem pb_dec_string_terminated:
  assumes "is_ok s" and "alloc_apart E dest" and "pb_dec_string E s f dest h = Some (True, s1, h1)"
  shows "\<exists>n s0. pb_decode_varint32 s = (Some n, s0) \<and> unat n < string_room f dest h1 \<and>
    is_bytes s0 = map (hp_mem h1) [string_at f dest h1..<string_at f dest h1 + unat n] @ is_bytes s1 \<and>
    hp_mem h1 (string_at f dest h1 + unat n) = 0"
proof -
  obtain n s0 where n: "pb_decode_varint32 s = (Some n, s0)"
    using assms(3) by (auto simp: pb_dec_string_def split: prod.splits option.splits)
  have ok: "is_ok s0" using is_after_bytes [OF is_past_after [OF pb_decode_varint32_past [OF n]] assms(1)] by blast
  have wrap: "unat (n + 1) = Suc (unat n)"
    by (rule unat_Suc_no_wrap) (use assms(3) n in \<open>auto simp: pb_dec_string_def Let_def split: if_splits\<close>)
  show ?thesis
  proof (cases "PB_ATYPE (f_type f) = PB_ATYPE_POINTER")
    case False
    then have "string_to s0 dest (unat n) h = (True, s1, h1)" "Suc (unat n) \<le> f_data_size f"
      using assms(3) n wrap by (auto simp: pb_dec_string_def Let_def split: if_splits)
    from string_to_exact [OF ok this(1)] this(2) n False show ?thesis by (auto simp: string_at_def string_room_def)
  next
    case True
    then obtain s2 h2 where al: "allocate_field E s0 dest (Suc (unat n)) 1 h = Some (True, s2, h2)"
      and st: "string_to s2 (load h2 dest 8) (unat n) h2 = (True, s1, h1)"
      using assms(3) n wrap by (auto simp: pb_dec_string_def Let_def split: if_splits option.splits bool.splits)
    from allocate_field_exact [OF assms(2) al] obtain q where q: "load h2 dest 8 = q" "hp_live h2 q = Some (Suc (unat n))" "s2 = s0"
      "q + Suc (unat n) \<le> dest \<or> dest + 8 \<le> q" by auto
    note st = string_to_exact [OF ok st [unfolded q(1,3)]]
    have "load h1 dest 8 = load h2 dest 8" using q(4) by (intro load_same st(4)) auto
    with st(1-3) n True q(1,2) show ?thesis by (auto simp: string_at_def string_room_def)
  qed
qed

theorem pb_dec_string_terminated_witness:
  "\<exists>s1 h1. pb_dec_string demo_env (from_bytes [2, 0x41, 0x42]) (fd 6 0x97 0 0 1 0 Null_ptr) 1000 demo_heap = Some (True, s1, h1) \<and>
    (\<exists>n s0. pb_decode_varint32 (from_bytes [2, 0x41, 0x42]) = (Some n, s0) \<and>
      unat n < string_room (fd 6 0x97 0 0 1 0 Null_ptr) 1000 h1 \<and>
      is_bytes s0 = map (hp_mem h1) [string_at (fd 6 0x97 0 0 1 0 Null_ptr) 1000 h1..<string_at (fd 6 0x97 0 0 1 0 Null_ptr) 1000 h1 + unat n] @ is_bytes s1 \<and>
      hp_mem h1 (string_at (fd 6 0x97 0 0 1 0 Null_ptr) 1000 h1 + unat n) = 0)"
proof -
  have "case pb_dec_string demo_env (from_bytes [2, 0x41, 0x42]) (fd 6 0x97 0 0 1 0 Null_ptr) 1000 demo_heap of
      Some (ok, _, _) \<Rightarrow> ok | None \<Rightarrow> False" by code_simp
  then obtain s1 h1 where r:
    "pb_dec_string demo_env (from_bytes [2, 0x41, 0x42]) (fd 6 0x97 0 0 1 0 Null_ptr) 1000 demo_heap = Some (True, s1, h1)"
    by (auto split: option.splits)
  have "is_ok (from_bytes [2, 0x41, 0x42])" by (simp only: from_bytes_def from_buffer_laws)
  moreover have "alloc_apart demo_env 1000" by (auto simp: alloc_apart_def demo_env_def)
  ultimately show ?thesis using pb_dec_string_terminated [OF _ _ r] r by blast
qed

section \<open>Writes that should not be\<close>

text \<open>
  The comment in \<open>pb_decode_noinit\<close> says that \<open>pb_field_iter_find\<close> handles empty message types correctly.  A field with
  the number 0 finds the end mark there and is decoded as a required \<open>bool\<close>, whatever its wire type.
\<close>

lemma empty_message_decodes_zero:
  assumes "terminated flds" and "field_count flds = 0" and "dest \<noteq> 0" and "ns_iter l = iter_at flds dest 0"
    and "fixed_count_field l = None" and "dec_bool s dest h = (ok, s1, h1)"
  shows "pb_field_iter_find (ns_iter l) 0 = (True, ns_iter l) \<and>
    (\<exists>l1. decode_known E sub s wire_type l h = Some (ok, s1, h1, l1))"
proof -
  have p: "position flds 0" by (simp add: position_def)
  note it = iter_at_pos [OF assms(1) p, of dest]
  have f: "iter_field (iter_at flds dest 0) = PB_LAST_FIELD" using it(4) assms(1,2) by (simp add: terminated_def)
  have "flds ! 0 = PB_LAST_FIELD" using assms(1,2) by (simp add: terminated_def)
  then have d: "pData (iter_at flds dest 0) = dest" using assms(3) by (simp add: pb_field_iter_begin_def Let_def PB_LAST_FIELD_def)
  have "pb_field_iter_find (ns_iter l) 0 = (True, ns_iter l)"
    using find_empty [OF assms(1,2)] it \<open>flds ! 0 = PB_LAST_FIELD\<close>
    by (simp add: pb_field_iter_find_def assms(4) PB_LAST_FIELD_def pb_type_defs del: iter_at.simps)
  moreover have "\<exists>l1. decode_known E sub s wire_type l h = Some (ok, s1, h1, l1)"
    unfolding decode_known_def Let_def assms(4) f
    using d f assms(6) by (simp add: PB_LAST_FIELD_def pb_type_defs decode_field_def decode_static_field_def PB_DECODERS_def
        with_count_def Let_def del: iter_at.simps)
  ultimately show ?thesis by blast
qed

lemma each_field_last:
  assumes "terminated flds" and "field_count flds = Suc k" and "j \<le> k" and "k < j + n"
    and "each_field n act (iter_at flds dest j) h = Some h1"
  shows "\<exists>h0. act (iter_at flds dest k) h0 = Some h1"
  using assms(3-)
proof (induction n arbitrary: j h)
  case (Suc n)
  have p: "position flds j" using Suc.prems assms(2) by (simp add: position_def)
  note nx = next_iter_at [OF assms(1) p, of dest]
  obtain h2 where h2: "act (iter_at flds dest j) h = Some h2" using Suc.prems(3) by (auto split: option.splits)
  show ?case
  proof (cases "j = k")
    case True
    then have "\<not> Suc j < field_count flds" using assms(2) by simp
    with Suc.prems(3) h2 nx True show ?thesis by auto
  next
    case False
    then have "Suc j < field_count flds" using Suc.prems(1) assms(2) by simp
    with Suc.prems h2 nx False have "each_field n act (iter_at flds dest (Suc j)) h2 = Some h1"
      by (simp add: next_pos_def del: iter_at.simps)
    from Suc.IH [OF _ _ this] Suc.prems False show ?thesis by simp
  qed
qed simp

text \<open>The default value of an array with a fixed count, wherever it stands in its message: four zero bytes at its start.\<close>

lemma fixed_count_default:
  assumes "terminated (pe_fields E i)" and "k < field_count (pe_fields E i)" and "f = pe_fields E i ! k" and "dest \<noteq> 0"
    and "PB_HTYPE (f_type f) = PB_HTYPE_REPEATED" and "PB_ATYPE (f_type f) = PB_ATYPE_STATIC"
    and "PB_LTYPE (f_type f) \<noteq> PB_LTYPE_EXTENSION" and "f_size_offset f = 0"
  shows "field_set_to_default (Suc d) E (iter_at (pe_fields E i) dest k) h =
    Some (store_int h (dest + field_off (pe_fields E i) k) 4 0)"
proof -
  have p: "position (pe_fields E i) k" using assms(2) by (simp add: position_def)
  have dist: "PB_HTYPE_REPEATED \<noteq> PB_HTYPE_OPTIONAL" by (simp add: PB_HTYPE_REPEATED_def PB_HTYPE_OPTIONAL_def)
  have "size_off (pe_fields E i) k = int (field_off (pe_fields E i) k)"
    using assms(3,5,8) by (cases k) (auto simp: in_union_def PB_HTYPE_REPEATED_def PB_HTYPE_ONEOF_def)
  then have sz: "pSize (iter_at (pe_fields E i) dest k) = dest + field_off (pe_fields E i) k"
    using iter_at_data(2) [OF assms(1) p assms(4)] by (simp add: add_offset_def nat_add_distrib del: iter_at.simps)
  show ?thesis
    using assms(3,5-7) dist sz iter_at_pos(4) [OF assms(1) p, of dest] by (simp add: Let_def del: iter_at.simps)
qed

text \<open>
  C36 (error).  An array with a fixed count has no counter: its \<open>size_offset\<close> is 0, so that \<open>pSize\<close> is where the array starts.
  But \<open>pb_field_set_to_default\<close> clears a counter of four bytes there.  When such an array is the last field of a message,
  of any number of items of any size, setting the message to its defaults leaves zero in the four bytes from the start of
  the array, also in those behind a shorter array, that is behind the structure.  \<open>pb_decode\<close> does so before it reads any
  input: with the array as the only field and no input it succeeds and leaves the memory like that.
\<close>

theorem pb_decode_stray_writes:
  assumes "terminated (pe_fields E i)" and "field_count (pe_fields E i) = Suc k" and "f = pe_fields E i ! k" and "dest \<noteq> 0"
    and "PB_HTYPE (f_type f) = PB_HTYPE_REPEATED" and "PB_ATYPE (f_type f) = PB_ATYPE_STATIC"
    and "PB_LTYPE (f_type f) \<noteq> PB_LTYPE_EXTENSION" and "f_size_offset f = 0"
    and "pb_message_set_to_defaults E i dest h = Some h1"
  shows "(\<forall>a \<in> {dest + field_off (pe_fields E i) k..<dest + field_off (pe_fields E i) k + 4}. hp_mem h1 a = 0) \<and>
    (k = 0 \<and> bytes_left s = 0 \<longrightarrow> pb_decode E s i dest h = Some (True, s, h1))"
proof
  let ?flds = "pe_fields E i"
  have c: "k < field_count ?flds" "0 < field_count ?flds" using assms(2) by simp_all
  have b: "pb_field_iter_begin ?flds dest = (True, iter_at ?flds dest 0)"
    using tag_nonzero [OF c(2)] by (simp add: begin_iter_at del: iter_at.simps)
  obtain d where d: "2 * pe_nest E = Suc (Suc d)" using assms(9)
    by (cases "pe_nest E") (auto simp: pb_message_set_to_defaults_def)
  have "each_field (length ?flds) (\<lambda>it h1. field_set_to_default (Suc d) E it h1) (iter_at ?flds dest 0) h = Some h1"
    using assms(9) b by (simp add: pb_message_set_to_defaults_def d Let_def del: iter_at.simps field_set_to_default.simps)
  from each_field_last [OF assms(1,2) _ _ this] assms(1,2) obtain h0 where
    "field_set_to_default (Suc d) E (iter_at ?flds dest k) h0 = Some h1" by (auto simp: terminated_def)
  then have h1: "h1 = store_int h0 (dest + field_off ?flds k) 4 0"
    unfolding fixed_count_default [OF assms(1) c(1) assms(3-8)] by simp
  have "le_bytes 4 0 = [0, 0, 0, 0]" by (simp add: le_bytes_def bytes_simps byte_of_def)
  then show "\<forall>a \<in> {dest + field_off ?flds k..<dest + field_off ?flds k + 4}. hp_mem h1 a = 0"
    by (auto simp: h1 store_int_def store_def nth_Cons split: nat.splits)
  show "k = 0 \<and> bytes_left s = 0 \<longrightarrow> pb_decode E s i dest h = Some (True, s, h1)"
  proof
    assume s: "k = 0 \<and> bytes_left s = 0"
    have p: "position ?flds 0" by (simp add: position_def)
    define l where "l = \<lparr>ns_iter = iter_at ?flds dest 0, fields_seen = [0, 0], extension_range_start = 0,
      fixed_count_field = None, fixed_count_size = 0\<rparr>"
    have nx: "pb_field_iter_next (iter_at ?flds dest 0) = (False, iter_at ?flds dest 0)"
      using next_iter_at [OF assms(1) p, of dest] s assms(2) by (simp add: next_pos_def del: iter_at.simps)
    have r: "required_field_index (iter_at ?flds dest 0) = 0" by (simp add: pb_field_iter_begin_def Let_def)
    have t: "f_type (iter_field (iter_at ?flds dest 0)) = f_type f" using iter_at_pos(4) [OF assms(1) p] s assms(3) by simp
    obtain m where m: "length ?flds = Suc m" using assms(1) by (cases "length ?flds") (auto simp: terminated_def)
    have "\<not> required_missing l"
      using nx r t assms(5) iter_at_pos(2) [OF assms(1) p, of dest] m
      by (simp add: required_missing_def l_def Let_def PB_HTYPE_REPEATED_def PB_HTYPE_REQUIRED_def del: iter_at.simps)
    moreover have "\<not> fixed_count_wrong l" by (simp add: fixed_count_wrong_def l_def)
    ultimately have "decode_noinit E sub i s dest h1 = Some (True, s, h1)" for sub
      using s b by (simp add: decode_noinit_def Let_def l_def del: iter_at.simps)
    then show "pb_decode E s i dest h = Some (True, s, h1)"
      using assms(9) by (simp add: pb_decode_def Let_def)
  qed
qed

text \<open>An array of two bytes, and nothing else.\<close>

definition pair_env :: pb_env where
  "pair_env = demo_env\<lparr>pe_fields := (\<lambda>_. [fd 1 0x20 0 0 1 2 Null_ptr, PB_LAST_FIELD])\<rparr>"

theorem pb_decode_stray_writes_witness:
  "\<exists>h1. pb_decode pair_env (from_bytes []) 0 1000 (demo_heap\<lparr>hp_mem := (\<lambda>_. 7)\<rparr>) = Some (True, from_bytes [], h1) \<and>
     hp_mem h1 1002 = 0 \<and> hp_mem h1 1003 = 0"
proof -
  let ?h = "demo_heap\<lparr>hp_mem := (\<lambda>_. 7)\<rparr>" and ?f = "fd 1 0x20 0 0 1 2 Null_ptr"
  have F: "pe_fields pair_env 0 = [?f, PB_LAST_FIELD]" by (simp add: pair_env_def)
  have t: "terminated (pe_fields pair_env 0)" "field_count (pe_fields pair_env 0) = Suc 0"
    by (simp_all add: F terminated_def field_count_def fd_def PB_LAST_FIELD_def)
  have "pb_message_set_to_defaults pair_env 0 1000 ?h \<noteq> None" by code_simp
  then obtain h1 where h1: "pb_message_set_to_defaults pair_env 0 1000 ?h = Some h1" by blast
  have o: "field_off (pe_fields pair_env 0) 0 = 0" by (simp add: F fd_def)
  from pb_decode_stray_writes [OF t _ _ _ _ _ _ h1, of ?f "from_bytes []"]
  have "(\<forall>a \<in> {1000..<1004}. hp_mem h1 a = 0) \<and> pb_decode pair_env (from_bytes []) 0 1000 ?h = Some (True, from_bytes [], h1)"
    by (simp add: F o fd_def pb_type_defs from_bytes_def pb_istream_from_buffer_def)
  then show ?thesis by auto
qed

end
