(* ===== verification/Pb_Encode_Props.thy ===== *)
theory Pb_Encode_Props
  imports Pb_Enc_Exact Pb_Decode_Props
begin

text \<open>
  The properties of the message encoder, at the message of \<open>Pb_Decode_Props\<close>, and a message of which it leaves out a
  field that is present.
\<close>

section \<open>An example\<close>

definition demo_writer :: "nat \<Rightarrow> pb_ostream \<Rightarrow> pb_field \<Rightarrow> nat \<Rightarrow> heap \<Rightarrow> bool \<times> pb_ostream" where
  "demo_writer fn s f arg h = pb_write s [0x2a, 1, 0x55]"

definition demo_enc_env :: pb_enc_env where
  "demo_enc_env = \<lparr>ee_fields = demo_fields, ee_encode = demo_writer, ee_ext_type = (\<lambda>_. \<lparr>xe_encode = None, xe_arg = 0\<rparr>), ee_nest = 2\<rparr>"

definition demo_callback_bytes :: callback_bytes where
  "demo_callback_bytes fn f arg h = Some [0x2a, 1, 0x55]"

lemma demo_fields_ok: "terminated (demo_fields i) \<and> (\<forall>f \<in> set (demo_fields i). f_tag f < 2 ^ 32)"
  by (simp add: demo_fields_def terminated_def field_count_def fd_def PB_LAST_FIELD_def)

lemma demo_descriptors: "descriptors_ok demo_enc_env"
  using demo_fields_ok unfolding descriptors_ok_def demo_enc_env_def by simp

lemma demo_writes: "callbacks_write demo_enc_env demo_callback_bytes"
proof -
  have "emits [0x2a, 1, 0x55] s ok s1" if "os_room s" "pb_write s [0x2a, 1, 0x55] = (ok, s1)" for s ok s1
    using pb_write_emits [of s "[0x2a, 1, 0x55]"] that by (simp add: os_room_def)
  then show ?thesis
    unfolding callbacks_write_def demo_enc_env_def demo_callback_bytes_def demo_writer_def by (simp split: prod.splits)
qed

lemma demo_checks: "checks_ok demo_enc_env"
proof -
  have "\<forall>f \<in> set (demo_fields i). checkable f" for i
    by (auto simp: demo_fields_def fd_def PB_LAST_FIELD_def checkable_def pb_type_defs)
  then show ?thesis unfolding checks_ok_def demo_enc_env_def by simp
qed

section \<open>Exactness\<close>

text \<open>
  C37 (refinement). The message encoder of nanopb implements the encoding of a message as a string of bytes: for a message
  that has an encoding, \<open>pb_encode\<close> on any stream, whether it counts or writes into a buffer, emits exactly its bytes,
  succeeds just when they fit and writes nothing else, \<open>pb_encode_delimited\<close> emits them behind their length, and
  \<open>pb_get_encoded_size\<close> returns how many they are; for a message that has none all three fail.  The wire types of the fields
  (\<open>wire_types\<close>) and which fields are absent (\<open>absent\<close>) are part of the specification.  \<open>checks_ok\<close> excludes
  descriptors for which the code's own test for default values differs: above all, in a submessage without a flag, pointers
  to numbers without a flag, the case of C38.
\<close>
theorem pb_encode_exact:
  assumes "descriptors_ok E" and "checks_ok E" and "callbacks_write E cb" and "os_room s" and "message_bytes E cb h i src = Some r"
    and "\<And>bs. r = Some bs \<Longrightarrow> length (pb_string bs) < 2 ^ 63"
  shows "case r of
      None \<Rightarrow> (\<exists>s1. pb_encode E h s i src = Some (False, s1)) \<and> (\<exists>s1. pb_encode_delimited E h s i src = Some (False, s1)) \<and>
        pb_get_encoded_size E h i src = Some None
    | Some bs \<Rightarrow> (\<exists>ok s1. pb_encode E h s i src = Some (ok, s1) \<and> emits bs s ok s1) \<and>
        (\<exists>ok s1. pb_encode_delimited E h s i src = Some (ok, s1) \<and> emits (pb_string bs) s ok s1) \<and>
        pb_get_encoded_size E h i src = Some (Some (length bs))"
proof -
  have e: "encodes (message_bytes E cb h i src) (\<lambda>s. pb_encode E h s i src)"
    unfolding message_bytes_def pb_encode_def by (rule encodes_msg [OF assms(1,2,3)])
  have d: "encodes (map_option (map_option pb_string) (message_bytes E cb h i src)) (\<lambda>s. pb_encode_delimited E h s i src)"
    unfolding pb_encode_delimited_def by (rule encodes_submessage [where sub = "\<lambda>i1 s1 src1. pb_encode E h s1 i1 src1", OF e])
  note E1 = encodesD [OF e assms(4)] and E2 = encodesD [OF d assms(4)] and E3 = encodesD [OF e sizing_room]
  show ?thesis
  proof (cases r)
    case None
    then show ?thesis using E1(1) E2(1) E3(1) assms(5) by (auto simp: pb_get_encoded_size_def)
  next
    case (Some bs)
    then have l: "length (pb_string bs) < 2 ^ 63" "length bs < 2 ^ 63" using assms(6) by (simp_all add: pb_string_def)
    then have "pb_get_encoded_size E h i src = Some (Some (length bs))"
      using E3(2) [of bs] Some assms(5) sizing_size by (fastforce simp: pb_get_encoded_size_def)
    then show ?thesis using E1(2) [of bs] E2(2) [of "pb_string bs"] l Some assms(5) by simp
  qed
qed

definition demo_struct :: heap where
  "demo_struct = \<lparr>hp_mem = (\<lambda>a. case map_of [(1000, 0x96), (1004, 1), (1008, 0x41), (1009, 0x42), (1016, 2), (1020, 7), (1024, 9),
     (1028, 1), (1032, 2), (1036, 1), (1040, 1)] a of Some b \<Rightarrow> b | None \<Rightarrow> 0), hp_live = (\<lambda>_. None)\<rparr>"

definition demo_output :: "byte list" where
  "demo_output = [0x08, 0x96, 0x01, 0x12, 2, 0x41, 0x42, 0x1a, 2, 7, 9, 0x22, 2, 0x10, 1, 0x2a, 1, 0x55]"

definition demo_stream :: pb_ostream where
  "demo_stream = \<lparr>os_sizing = False, os_mem = replicate 18 0, os_pos = 0, max_size = 18, bytes_written = 0, os_errmsg = None\<rparr>"

lemma demo_message: "message_bytes demo_enc_env demo_callback_bytes demo_struct 0 1000 = Some (Some demo_output)"
  by code_simp

lemma pb_encode_exact_witness:
  "\<exists>ok s1. pb_encode demo_enc_env demo_struct demo_stream 0 1000 = Some (ok, s1) \<and> ok \<and> os_mem s1 = demo_output"
proof -
  have room: "os_room demo_stream" by (simp add: os_room_def os_ok_def demo_stream_def)
  have "length (pb_string demo_output) < 2 ^ 63" by code_simp
  then have "length (pb_string bs) < 2 ^ 63" if "Some demo_output = Some bs" for bs using that by simp
  from pb_encode_exact [OF demo_descriptors demo_checks demo_writes room demo_message this] obtain ok s1
    where r: "pb_encode demo_enc_env demo_struct demo_stream 0 1000 = Some (ok, s1)" "emits demo_output demo_stream ok s1"
    by auto
  have "length demo_output = 18" by (simp add: demo_output_def)
  with r(2) have ok: "ok" by (simp add: emits_def demo_stream_def)
  note d = emitsD [OF r(2) [unfolded eqTrueI [OF ok]]]
  have "os_pos s1 = 18" "drop 18 (os_mem s1) = []" "take 18 (os_mem s1) = demo_output"
    using d \<open>length demo_output = 18\<close> by (simp_all add: demo_stream_def)
  then show ?thesis using r(1) ok by (metis append_Nil2 append_take_drop_id)
qed

section \<open>A field left out\<close>

text \<open>
  A message with a submessage that has no flag (proto3), which holds one pointer to a bool.  The pointer is at 1000.
\<close>

definition lean_env :: pb_enc_env where
  "lean_env = demo_enc_env\<lparr>ee_fields := (\<lambda>i. if i = 0 then [fd 1 0x18 0 0 8 0 (Submsg 1), PB_LAST_FIELD]
     else [fd 1 0x90 0 0 1 0 Null_ptr, PB_LAST_FIELD])\<rparr>"

definition lean_struct :: "byte \<Rightarrow> heap" where
  "lean_struct b = \<lparr>hp_mem = (\<lambda>a. if a = 1000 then b else if a = 1001 then 0x50 else if a = 0x5000 \<or> a = 0x5001 then 1 else 0),
     hp_live = (\<lambda>_. None)\<rparr>"

text \<open>A pointer to a number or a bool in a field without a flag, not null, with zero in the bytes that the check reads.\<close>

definition overlooked :: "heap \<Rightarrow> pb_field \<Rightarrow> nat \<Rightarrow> bool" where
  "overlooked h g q \<longleftrightarrow> PB_HTYPE (f_type g) = PB_HTYPE_OPTIONAL \<and> f_size_offset g = 0 \<and> PB_ATYPE (f_type g) = PB_ATYPE_POINTER \<and>
     PB_LTYPE (f_type g) \<le> PB_LTYPE_LAST_PACKABLE \<and> load h q 8 \<noteq> 0 \<and> load h q (f_data_size g) = 0"

lemma overlooked_default: "overlooked h g q \<Longrightarrow> check_default (Suc d) E h g q = Some True"
  by (simp add: overlooked_def check_default.simps zero_value_def Let_def load_zero pb_type_defs not_less)

lemma overlooked_encoded:
  "overlooked h g q \<Longrightarrow> encode_basic_field E h sub s g q = encode_single h sub s g (load h q 8)"
  using le_less_trans [of "PB_LTYPE (f_type g)" PB_LTYPE_LAST_PACKABLE PB_LTYPE_FIXED_LENGTH_BYTES]
  by (auto simp: overlooked_def encode_basic_field_def pb_check_proto3_default_value_def check_default.simps zero_value_def
      Let_def load_zero pb_type_defs not_less)

text \<open>
  C38 (error). The zero check of \<open>pb_check_proto3_default_value\<close> reads only as many bytes of a pointer as the value it
  points to has.  Let a submessage without a flag consist of fields that are absent but for some pointers to numbers
  or bools, not null, whose first bytes happen to be zero: it is left out as a whole and nothing is written, although each of
  those fields is encoded, with its value, when it stands in the message itself.
\<close>
theorem pb_encode_drops_pointer:
  assumes "PB_HTYPE (f_type f) = PB_HTYPE_OPTIONAL" and "PB_ATYPE (f_type f) = PB_ATYPE_STATIC" and "f_size_offset f = 0"
    and "PB_LTYPE (f_type f) = PB_LTYPE_SUBMESSAGE" and "f_ptr f = Submsg i" and "terminated (ee_fields E i)" and "p \<noteq> 0"
    and "ee_nest E = Suc d"
    and "\<And>k. k < field_count (ee_fields E i) \<Longrightarrow> overlooked h (ee_fields E i ! k) (p + field_off (ee_fields E i) k) \<or>
           check_default (Suc d) E h (ee_fields E i ! k) (p + field_off (ee_fields E i) k) = Some True"
    and "k < field_count (ee_fields E i)" and "overlooked h (ee_fields E i ! k) (p + field_off (ee_fields E i) k)"
  shows "encode_basic_field E h sub s f p = Some (True, s) \<and>
    encode_basic_field E h sub s (ee_fields E i ! k) (p + field_off (ee_fields E i) k) =
      encode_single h sub s (ee_fields E i ! k) (load h (p + field_off (ee_fields E i) k) 8)"
proof -
  let ?flds = "ee_fields E i"
  let ?check = "\<lambda>it. check_default (Suc d) E h (iter_field it) (pData it)"
  have c: "0 < field_count ?flds" using assms(10) by simp
  have g: "?check (iter_at ?flds p j) = Some True" if j: "j < field_count ?flds" for j
  proof -
    have pos: "position ?flds j" using j by (simp add: position_def)
    show ?thesis using assms(9) [OF j] overlooked_default
      unfolding iter_at_pos(4) [OF assms(6) pos] iter_at_data(1) [OF assms(6) pos assms(7)] by blast
  qed
  have al: "all_absent (map (\<lambda>_. Some True) ks) = Some True" for ks :: "nat list" by (induction ks) simp_all
  have "every_field (length ?flds) ?check (iter_at ?flds p 0) = Some True"
    by (rule every_field_at [OF assms(6) c _ _ al]) (use assms(6) g in \<open>auto simp: terminated_def simp del: check_default.simps\<close>)
  moreover have "pb_field_iter_begin ?flds p = (True, iter_at ?flds p 0)"
    using tag_nonzero [OF c] by (simp add: begin_iter_at del: iter_at.simps)
  ultimately have "pb_check_proto3_default_value E h f p = Some True"
    using assms(1-5) unfolding pb_check_proto3_default_value_def assms(8) check_default.simps(2) [of "Suc d"] zero_value_def Let_def
    by (simp add: PB_HTYPE_OPTIONAL_def PB_HTYPE_REQUIRED_def PB_HTYPE_REPEATED_def PB_HTYPE_ONEOF_def PB_LTYPE_SUBMESSAGE_def
        PB_LTYPE_BYTES_def PB_LTYPE_STRING_def PB_LTYPE_FIXED_LENGTH_BYTES_def del: check_default.simps iter_at.simps)
  then have "encode_basic_field E h sub s f p = Some (True, s)"
    using assms(1-4) unfolding encode_basic_field_def Let_def
    by (simp add: PB_HTYPE_OPTIONAL_def PB_HTYPE_REQUIRED_def PB_ATYPE_STATIC_def PB_ATYPE_POINTER_def
        PB_LTYPE_FIXED_LENGTH_BYTES_def PB_LTYPE_SUBMESSAGE_def)
  with overlooked_encoded [OF assms(11)] show ?thesis by simp
qed

text \<open>The pointer 0x5000 to \<open>true\<close> is dropped with its submessage.\<close>

theorem pb_encode_drops_pointer_witness:
  "encode_basic_field lean_env (lean_struct 0) (\<lambda>i s src. None) PB_OSTREAM_SIZING (fd 1 0x18 0 0 8 0 (Submsg 1)) 1000 =
    Some (True, PB_OSTREAM_SIZING)"
proof -
  let ?flds = "ee_fields lean_env 1"
  have t: "terminated ?flds" "field_count ?flds = 1"
    by (simp_all add: lean_env_def terminated_def field_count_def fd_def PB_LAST_FIELD_def)
  have o: "overlooked (lean_struct 0) (?flds ! 0) (1000 + field_off ?flds 0)" by code_simp
  have "ee_nest lean_env = Suc 1" by (simp add: lean_env_def demo_enc_env_def)
  from pb_encode_drops_pointer [OF _ _ _ _ _ t(1) _ this, where k = 0 and f = "fd 1 0x18 0 0 8 0 (Submsg 1)" and p = 1000
      and h = "lean_struct 0" and s = PB_OSTREAM_SIZING and sub = "\<lambda>i s src. None"] t(2) o
  show ?thesis by (simp add: fd_def pb_type_defs)
qed

end
