(* ===== verification/Bio_Buf.thy ===== *)
theory Bio_Buf
  imports Prelude "HOL-Library.Monad_Syntax"
begin

unbundle bit_operations_syntax

text \<open>
  The growing buffers of \<open>crypto/buf/buf.c\<close> and the objects of \<open>crypto/bio\<close>: a \<open>BIO\<close>, what its method keeps behind
  \<open>ptr\<close> (a buffer, or one half of a pair), and the store of all of them by address.  An address of \<open>0\<close> is \<open>NULL\<close>.  A
  C \<open>int\<close> or \<open>long\<close> is an \<open>int\<close>; where the code converts to \<open>int\<close> the wrap-around is \<open>c_int\<close>.
\<close>

definition c_int :: "int \<Rightarrow> int" where
  "c_int i = (i + 2 ^ 31) mod 2 ^ 32 - 2 ^ 31"

definition INT_MAX :: int where
  "INT_MAX = 2 ^ 31 - 1"

lemma c_int_id: "- (2 ^ 31) \<le> i \<Longrightarrow> i \<le> INT_MAX \<Longrightarrow> c_int i = i"
  by (simp add: c_int_def INT_MAX_def)

text \<open>An assertion, or a condition without which the behaviour is undefined.\<close>

definition must :: "bool \<Rightarrow> unit option" where
  "must c = (if c then Some () else None)"

lemma must_simps [simp]: "must c \<bind> f = (if c then f () else None)"
  by (simp add: must_def)

section \<open>Growing buffers\<close>

text \<open>
  \<open>data\<close> is a block and the place in it: a read-only memory BIO moves it through the caller's buffer.
\<close>

record buf_mem =
  bm_length :: nat
  bm_data :: "byte list option"
  bm_off :: nat
  bm_max :: nat

definition BUF_MEM_new :: "allocator \<Rightarrow> buf_mem option" where
  "BUF_MEM_new al = (case al 24 of None \<Rightarrow> None | Some _ \<Rightarrow> Some \<lparr>bm_length = 0, bm_data = None, bm_off = 0, bm_max = 0\<rparr>)"

definition BUF_MEM_reserve :: "allocator \<Rightarrow> buf_mem \<Rightarrow> nat \<Rightarrow> bool \<times> buf_mem" where
  "BUF_MEM_reserve al b cap =
     (if bm_max b \<ge> cap then (True, b)
      else let n = size_wrap (cap + 3)
           in if n < cap then (False, b)
              else let alloc_size = size_wrap (n div 3 * 4)
                   in if alloc_size div 4 \<noteq> n div 3 then (False, b)
                      else (case realloc_block al (case bm_data b of None \<Rightarrow> [] | Some blk \<Rightarrow> blk) alloc_size of
                              None \<Rightarrow> (False, b)
                            | Some new_buf \<Rightarrow> (True, b\<lparr>bm_data := Some new_buf, bm_max := alloc_size\<rparr>)))"

definition bm_write :: "buf_mem \<Rightarrow> nat \<Rightarrow> byte list \<Rightarrow> buf_mem" where
  "bm_write b i bs = b\<lparr>bm_data := map_option (mem_write (bm_off b + i) bs) (bm_data b)\<rparr>"

definition BUF_MEM_grow :: "allocator \<Rightarrow> buf_mem \<Rightarrow> nat \<Rightarrow> nat \<times> buf_mem" where
  "BUF_MEM_grow al b len =
     (case BUF_MEM_reserve al b len of
        (False, b1) \<Rightarrow> (0, b1)
      | (True, b1) \<Rightarrow>
          let b2 = (if bm_length b1 < len then bm_write b1 (bm_length b1) (replicate (len - bm_length b1) 0) else b1)
          in (len, b2\<lparr>bm_length := len\<rparr>))"

definition BUF_MEM_grow_clean :: "allocator \<Rightarrow> buf_mem \<Rightarrow> nat \<Rightarrow> nat \<times> buf_mem" where
  "BUF_MEM_grow_clean al b len = BUF_MEM_grow al b len"

definition BUF_MEM_append :: "allocator \<Rightarrow> buf_mem \<Rightarrow> byte list \<Rightarrow> bool \<times> buf_mem" where
  "BUF_MEM_append al b bs =
     (if bs = [] then (True, b)
      else let new_len = size_wrap (bm_length b + length bs)
           in if new_len < length bs then (False, b)
              else (case BUF_MEM_reserve al b new_len of
                      (False, b1) \<Rightarrow> (False, b1)
                    | (True, b1) \<Rightarrow> (True, (bm_write b1 (bm_length b1) bs)\<lparr>bm_length := new_len\<rparr>)))"

text \<open>The bytes a buffer holds, and its invariant: no block is longer than \<open>2 ^ 63 - 1\<close> bytes.\<close>

definition bm_bytes :: "buf_mem \<Rightarrow> byte list" where
  "bm_bytes b = (case bm_data b of None \<Rightarrow> [] | Some blk \<Rightarrow> take (bm_length b) (drop (bm_off b) blk))"

definition bm_ok :: "buf_mem \<Rightarrow> bool" where
  "bm_ok b \<longleftrightarrow> bm_length b \<le> bm_max b \<and> bm_max b < 2 ^ 63 \<and>
     (case bm_data b of None \<Rightarrow> bm_max b = 0 \<and> bm_off b = 0 | Some blk \<Rightarrow> length blk = bm_max b \<and> bm_off b + bm_length b \<le> bm_max b)"

text \<open>An allocator that gives no block an object cannot have.\<close>

definition sized_alloc :: "allocator \<Rightarrow> bool" where
  "sized_alloc al \<longleftrightarrow> good_alloc al \<and> (\<forall>n blk. al n = Some blk \<longrightarrow> n < 2 ^ 63)"

lemma bm_bytes_length: "bm_ok b \<Longrightarrow> length (bm_bytes b) = bm_length b"
  by (auto simp: bm_ok_def bm_bytes_def split: option.splits)

lemma BUF_MEM_reserve_laws:
  assumes "sized_alloc al" and "bm_ok b" and "bm_off b = 0" and "BUF_MEM_reserve al b cap = (ok, b1)"
  shows "bm_ok b1" and "bm_bytes b1 = bm_bytes b" and "bm_off b1 = 0" and "bm_length b1 = bm_length b" and "ok \<Longrightarrow> cap \<le> bm_max b1"
    and "\<not> ok \<Longrightarrow> b1 = b"
proof -
  have "bm_ok b1 \<and> bm_bytes b1 = bm_bytes b \<and> bm_off b1 = 0 \<and> bm_length b1 = bm_length b \<and> (ok \<longrightarrow> cap \<le> bm_max b1) \<and> (\<not> ok \<longrightarrow> b1 = b)"
  proof (cases "ok \<and> bm_max b < cap")
    case False
    then show ?thesis using assms by (auto simp: BUF_MEM_reserve_def Let_def split: if_splits option.splits)
  next
    case True
    define n where "n = size_wrap (cap + 3)"
    define sz where "sz = size_wrap (n div 3 * 4)"
    define old where "old = (case bm_data b of None \<Rightarrow> [] | Some blk \<Rightarrow> blk)"
    from True assms(4) obtain new where r: "cap \<le> n" "sz div 4 = n div 3" "realloc_block al old sz = Some new"
      and b1: "b1 = b\<lparr>bm_data := Some new, bm_max := sz\<rparr>"
      by (auto simp: BUF_MEM_reserve_def Let_def n_def [symmetric] sz_def [symmetric] old_def [symmetric] split: if_splits option.splits)
    have old: "length old = bm_max b" using assms(2) by (auto simp: bm_ok_def old_def split: option.splits)
    have "n = cap + 3"
    proof (rule ccontr)
      assume "n \<noteq> cap + 3"
      then have "2 ^ 64 \<le> cap + 3" using size_wrap_small [of "cap + 3"] n_def by linarith
      with r(1) n_def size_wrap_less [of "cap + 3"] show False by (simp add: size_wrap_def le_mod_geq)
    qed
    then have c: "cap \<le> sz" using r(2) by linarith
    have g: "good_alloc al" using assms(1) by (simp add: sized_alloc_def)
    have "sz < 2 ^ 63" using assms(1) r(3) by (auto simp: sized_alloc_def realloc_block_def split: option.splits)
    have le: "length old \<le> sz" using old True c by simp
    note new = realloc_block_SomeD [OF g r(3) le]
    have t: "take (bm_length b) new = take (bm_length b) old"
      using assms(2) new(2) old by (metis bm_ok_def min.absorb1 take_take)
    show ?thesis using True b1 c new assms(2,3) \<open>sz < 2 ^ 63\<close> t old le
      by (auto simp: bm_ok_def bm_bytes_def old_def split: option.splits)
  qed
  then show "bm_ok b1" "bm_bytes b1 = bm_bytes b" "bm_off b1 = 0" "bm_length b1 = bm_length b" "ok \<Longrightarrow> cap \<le> bm_max b1" "\<not> ok \<Longrightarrow> b1 = b"
    by blast+
qed

section \<open>BIO objects\<close>

record bio_bio =
  bb_peer :: nat
  bb_closed :: bool
  bb_len :: nat
  bb_offset :: nat
  bb_size :: nat
  bb_buf :: "byte list option"
  bb_request :: nat

datatype bio_method = Mem_method | Pair_method

datatype bio_ptr = Null_data | Mem_data buf_mem | Pair_data bio_bio

record bio =
  bio_method :: bio_method
  bio_init :: bool
  bio_shutdown :: int
  bio_flags :: u32
  bio_retry_reason :: int
  bio_num :: int
  bio_references :: nat
  bio_ptr :: bio_ptr
  bio_next :: nat
  bio_num_read :: nat
  bio_num_write :: nat

type_synonym bios = "nat \<Rightarrow> bio option"

definition BIO_FLAGS_READ :: u32 where "BIO_FLAGS_READ = 0x01"
definition BIO_FLAGS_WRITE :: u32 where "BIO_FLAGS_WRITE = 0x02"
definition BIO_FLAGS_IO_SPECIAL :: u32 where "BIO_FLAGS_IO_SPECIAL = 0x04"
definition BIO_FLAGS_RWS :: u32 where "BIO_FLAGS_RWS = BIO_FLAGS_READ OR BIO_FLAGS_WRITE OR BIO_FLAGS_IO_SPECIAL"
definition BIO_FLAGS_SHOULD_RETRY :: u32 where "BIO_FLAGS_SHOULD_RETRY = 0x08"
definition BIO_FLAGS_MEM_RDONLY :: u32 where "BIO_FLAGS_MEM_RDONLY = 0x200"
definition kRetryFlags :: u32 where "kRetryFlags = BIO_FLAGS_RWS OR BIO_FLAGS_SHOULD_RETRY"

definition BIO_set_flags :: "bio \<Rightarrow> u32 \<Rightarrow> bio" where
  "BIO_set_flags bio flags = bio\<lparr>bio_flags := bio_flags bio OR flags\<rparr>"

definition BIO_clear_flags :: "bio \<Rightarrow> u32 \<Rightarrow> bio" where
  "BIO_clear_flags bio flags = bio\<lparr>bio_flags := bio_flags bio AND NOT flags\<rparr>"

definition BIO_test_flags :: "bio \<Rightarrow> u32 \<Rightarrow> u32" where
  "BIO_test_flags bio flags = bio_flags bio AND flags"

definition BIO_should_read :: "bio \<Rightarrow> bool" where
  "BIO_should_read bio \<longleftrightarrow> BIO_test_flags bio BIO_FLAGS_READ \<noteq> 0"

definition BIO_should_write :: "bio \<Rightarrow> bool" where
  "BIO_should_write bio \<longleftrightarrow> BIO_test_flags bio BIO_FLAGS_WRITE \<noteq> 0"

definition BIO_should_retry :: "bio \<Rightarrow> bool" where
  "BIO_should_retry bio \<longleftrightarrow> BIO_test_flags bio BIO_FLAGS_SHOULD_RETRY \<noteq> 0"

definition BIO_should_io_special :: "bio \<Rightarrow> bool" where
  "BIO_should_io_special bio \<longleftrightarrow> BIO_test_flags bio BIO_FLAGS_IO_SPECIAL \<noteq> 0"

definition BIO_set_retry_read :: "bio \<Rightarrow> bio" where
  "BIO_set_retry_read bio = bio\<lparr>bio_flags := bio_flags bio OR (BIO_FLAGS_READ OR BIO_FLAGS_SHOULD_RETRY)\<rparr>"

definition BIO_set_retry_write :: "bio \<Rightarrow> bio" where
  "BIO_set_retry_write bio = bio\<lparr>bio_flags := bio_flags bio OR (BIO_FLAGS_WRITE OR BIO_FLAGS_SHOULD_RETRY)\<rparr>"

definition BIO_set_retry_special :: "bio \<Rightarrow> bio" where
  "BIO_set_retry_special bio = bio\<lparr>bio_flags := bio_flags bio OR (BIO_FLAGS_READ OR BIO_FLAGS_IO_SPECIAL)\<rparr>"

definition BIO_get_retry_flags :: "bio \<Rightarrow> u32" where
  "BIO_get_retry_flags bio = bio_flags bio AND kRetryFlags"

definition BIO_clear_retry_flags :: "bio \<Rightarrow> bio" where
  "BIO_clear_retry_flags bio = bio\<lparr>bio_flags := bio_flags bio AND NOT kRetryFlags, bio_retry_reason := 0\<rparr>"

end
