(* ===== verification/Bio_Mem.thy ===== *)
theory Bio_Mem
  imports Bio_Buf
begin

text \<open>
  Memory BIOs (\<open>crypto/bio/bio_mem.c\<close>), on the object itself.  A result \<open>None\<close> is undefined behaviour: a \<open>BIO\<close> without a
  buffer, or an overflow of a signed integer.
\<close>

section \<open>Methods\<close>

definition mem_data :: "bio \<Rightarrow> buf_mem option" where
  "mem_data bio = (case bio_ptr bio of Mem_data b \<Rightarrow> Some b | _ \<Rightarrow> None)"

definition mem_rdonly :: "bio \<Rightarrow> bool" where
  "mem_rdonly bio \<longleftrightarrow> bio_flags bio AND BIO_FLAGS_MEM_RDONLY \<noteq> 0"

definition mem_new :: "allocator \<Rightarrow> bio \<Rightarrow> bool \<times> bio" where
  "mem_new al bio =
     (case BUF_MEM_new al of
        None \<Rightarrow> (False, bio)
      | Some b \<Rightarrow> (True, bio\<lparr>bio_shutdown := 1, bio_init := True, bio_num := -1, bio_ptr := Mem_data b\<rparr>))"

definition mem_free :: "bio \<Rightarrow> bio" where
  "mem_free bio =
     (if bio_shutdown bio = 0 \<or> \<not> bio_init bio \<or> bio_ptr bio = Null_data then bio else bio\<lparr>bio_ptr := Null_data\<rparr>)"

definition mem_read :: "bio \<Rightarrow> int \<Rightarrow> (int \<times> byte list \<times> bio) option" where
  "mem_read bio0 outl =
     do { b \<leftarrow> mem_data bio0;
          let bio = BIO_clear_retry_flags bio0;
          let ret = (if int (bm_length b) < INT_MAX \<and> outl > int (bm_length b) then int (bm_length b) else outl);
          if ret > 0 then
            let n = nat ret;
                b1 = b\<lparr>bm_length := bm_length b - n\<rparr>;
                b2 = (if mem_rdonly bio then b1\<lparr>bm_off := bm_off b + n\<rparr> else bm_write b1 0 (drop n (bm_bytes b)))
            in Some (ret, take n (bm_bytes b), bio\<lparr>bio_ptr := Mem_data b2\<rparr>)
          else if bm_length b = 0 then
            Some (bio_num bio, [], if bio_num bio \<noteq> 0 then BIO_set_retry_read bio else bio)
          else Some (ret, [], bio) }"

definition mem_write_bio :: "allocator \<Rightarrow> bio \<Rightarrow> byte list \<Rightarrow> (int \<times> bio) option" where
  "mem_write_bio al bio0 bs =
     do { b \<leftarrow> mem_data bio0;
          if mem_rdonly bio0 then Some (-1, bio0)
          else
            let bio = BIO_clear_retry_flags bio0;
                blen = c_int (int (bm_length b));
                inl = int (length bs)
            in if blen < 0 then None
               else if INT_MAX - blen < inl then Some (-1, bio)
               else (case BUF_MEM_grow_clean al b (nat (blen + inl)) of (r, b1) \<Rightarrow>
                       if r \<noteq> nat blen + length bs then Some (-1, bio\<lparr>bio_ptr := Mem_data b1\<rparr>)
                       else Some (inl, bio\<lparr>bio_ptr := Mem_data (bm_write b1 (nat blen) bs)\<rparr>)) }"

text \<open>The number of bytes up to and with the first newline, or all of them.\<close>

fun line_length :: "byte list \<Rightarrow> nat" where
  "line_length [] = 0"
| "line_length (c # cs) = (if c = 10 then 1 else Suc (line_length cs))"

text \<open>The result has the bytes put into the caller's buffer, with the terminator.\<close>

definition mem_gets :: "bio \<Rightarrow> int \<Rightarrow> (int \<times> byte list \<times> bio) option" where
  "mem_gets bio0 n =
     do { b \<leftarrow> mem_data bio0;
          let bio = BIO_clear_retry_flags bio0;
          let len = c_int (int (bm_length b));
          let j = (if n - 1 < len then n - 1 else len);
          if j \<le> 0 then Some (0, if n > 0 then [0] else [], bio)
          else do { (i, out, bio1) \<leftarrow> mem_read bio (int (line_length (take (nat j) (bm_bytes b))));
                    Some (i, if i > 0 then out @ [0] else out, bio1) } }"

definition BIO_CTRL_RESET :: int where "BIO_CTRL_RESET = 1"
definition BIO_CTRL_EOF :: int where "BIO_CTRL_EOF = 2"
definition BIO_CTRL_INFO :: int where "BIO_CTRL_INFO = 3"
definition BIO_CTRL_GET_CLOSE :: int where "BIO_CTRL_GET_CLOSE = 8"
definition BIO_CTRL_SET_CLOSE :: int where "BIO_CTRL_SET_CLOSE = 9"
definition BIO_CTRL_PENDING :: int where "BIO_CTRL_PENDING = 10"
definition BIO_CTRL_FLUSH :: int where "BIO_CTRL_FLUSH = 11"
definition BIO_CTRL_WPENDING :: int where "BIO_CTRL_WPENDING = 13"
definition BIO_C_SET_BUF_MEM :: int where "BIO_C_SET_BUF_MEM = 114"
definition BIO_C_GET_BUF_MEM_PTR :: int where "BIO_C_GET_BUF_MEM_PTR = 115"
definition BIO_C_SET_BUF_MEM_EOF_RETURN :: int where "BIO_C_SET_BUF_MEM_EOF_RETURN = 130"

text \<open>
  The reset of a read-only buffer moves \<open>data\<close> back; of a writable one it clears the whole block.  \<open>ptr\<close> is only
  read by \<open>BIO_C_SET_BUF_MEM\<close>; what the two commands that hand out a pointer put behind it is not a result.
\<close>

definition mem_reset :: "bio \<Rightarrow> buf_mem \<Rightarrow> buf_mem option" where
  "mem_reset bio b =
     (if bm_data b = None then Some b
      else if mem_rdonly bio then
        do { must (bm_max b - bm_length b \<le> bm_off b);
             Some (b\<lparr>bm_off := bm_off b - (bm_max b - bm_length b), bm_length := bm_max b\<rparr>) }
      else Some ((bm_write b 0 (replicate (bm_max b) 0))\<lparr>bm_length := 0\<rparr>))"

definition mem_ctrl :: "bio \<Rightarrow> int \<Rightarrow> int \<Rightarrow> bio_ptr \<Rightarrow> (int \<times> bio) option" where
  "mem_ctrl bio cmd num ptr =
     (if cmd = BIO_CTRL_RESET then do { b \<leftarrow> mem_data bio; b1 \<leftarrow> mem_reset bio b; Some (1, bio\<lparr>bio_ptr := Mem_data b1\<rparr>) }
      else if cmd = BIO_CTRL_EOF then do { b \<leftarrow> mem_data bio; Some (if bm_length b = 0 then 1 else 0, bio) }
      else if cmd = BIO_C_SET_BUF_MEM_EOF_RETURN then Some (1, bio\<lparr>bio_num := c_int num\<rparr>)
      else if cmd = BIO_CTRL_INFO then do { b \<leftarrow> mem_data bio; Some (int (bm_length b), bio) }
      else if cmd = BIO_C_SET_BUF_MEM then Some (1, (mem_free bio)\<lparr>bio_shutdown := c_int num, bio_ptr := ptr\<rparr>)
      else if cmd = BIO_C_GET_BUF_MEM_PTR then Some (1, bio)
      else if cmd = BIO_CTRL_GET_CLOSE then Some (bio_shutdown bio, bio)
      else if cmd = BIO_CTRL_SET_CLOSE then Some (1, bio\<lparr>bio_shutdown := c_int num\<rparr>)
      else if cmd = BIO_CTRL_WPENDING then Some (0, bio)
      else if cmd = BIO_CTRL_PENDING then do { b \<leftarrow> mem_data bio; Some (int (bm_length b), bio) }
      else if cmd = BIO_CTRL_FLUSH then Some (1, bio)
      else Some (0, bio))"

section \<open>A memory BIO as a string of bytes\<close>

text \<open>Read-only BIOs have a buffer of the caller; the others start at the beginning of their block.\<close>

definition bm_place :: "bool \<Rightarrow> buf_mem \<Rightarrow> bool" where
  "bm_place rdonly b \<longleftrightarrow> (if rdonly then bm_off b + bm_length b = bm_max b \<and> int (bm_max b) \<le> INT_MAX else bm_off b = 0)"

definition mem_ok :: "bio \<Rightarrow> bool" where
  "mem_ok bio \<longleftrightarrow> bio_method bio = Mem_method \<and> bio_init bio \<and>
     (\<exists>b. bio_ptr bio = Mem_data b \<and> bm_ok b \<and> int (bm_length b) \<le> INT_MAX \<and> bm_place (mem_rdonly bio) b)"

definition mem_content :: "bio \<Rightarrow> byte list" where
  "mem_content bio = (case bio_ptr bio of Mem_data b \<Rightarrow> bm_bytes b | _ \<Rightarrow> [])"

text \<open>Everything but the flags and the buffer stays.\<close>

definition same_bio :: "bio \<Rightarrow> bio \<Rightarrow> bool" where
  "same_bio bio bio1 \<longleftrightarrow> bio_method bio1 = bio_method bio \<and> bio_init bio1 = bio_init bio \<and> bio_num bio1 = bio_num bio \<and>
     bio_shutdown bio1 = bio_shutdown bio \<and> bio_references bio1 = bio_references bio \<and> bio_next bio1 = bio_next bio \<and>
     bio_num_read bio1 = bio_num_read bio \<and> bio_num_write bio1 = bio_num_write bio \<and> mem_rdonly bio1 = mem_rdonly bio"

lemma retry_flags_rdonly [simp]: "mem_rdonly (BIO_clear_retry_flags bio) = mem_rdonly bio" "mem_rdonly (BIO_set_retry_read bio) = mem_rdonly bio"
proof -
  have "NOT kRetryFlags AND BIO_FLAGS_MEM_RDONLY = BIO_FLAGS_MEM_RDONLY" by code_simp
  then show "mem_rdonly (BIO_clear_retry_flags bio) = mem_rdonly bio"
    by (simp add: mem_rdonly_def BIO_clear_retry_flags_def and.assoc)
  have "(BIO_FLAGS_READ OR BIO_FLAGS_SHOULD_RETRY) AND BIO_FLAGS_MEM_RDONLY = 0" by code_simp
  then show "mem_rdonly (BIO_set_retry_read bio) = mem_rdonly bio"
    by (simp add: mem_rdonly_def BIO_set_retry_read_def bit.conj_disj_distrib2)
qed

lemma clear_retry_simps [simp]:
  "bio_ptr (BIO_clear_retry_flags bio) = bio_ptr bio" "bio_num (BIO_clear_retry_flags bio) = bio_num bio"
  "bio_method (BIO_clear_retry_flags bio) = bio_method bio" "bio_init (BIO_clear_retry_flags bio) = bio_init bio"
  "bio_ptr (BIO_set_retry_read bio) = bio_ptr bio" "bio_num (BIO_set_retry_read bio) = bio_num bio"
  "bio_method (BIO_set_retry_read bio) = bio_method bio" "bio_init (BIO_set_retry_read bio) = bio_init bio"
  by (simp_all add: BIO_clear_retry_flags_def BIO_set_retry_read_def)

lemma same_bio_clear [simp]: "same_bio bio (BIO_clear_retry_flags bio)" "same_bio bio (BIO_set_retry_read (BIO_clear_retry_flags bio))"
  by (simp_all add: same_bio_def) (simp_all add: BIO_clear_retry_flags_def BIO_set_retry_read_def)

lemma mem_rdonly_ptr [simp]: "mem_rdonly (bio\<lparr>bio_ptr := p\<rparr>) = mem_rdonly bio"
  by (simp add: mem_rdonly_def)

lemma same_bio_ptr: "same_bio bio bio1 \<Longrightarrow> same_bio bio (bio1\<lparr>bio_ptr := p\<rparr>)"
  by (simp add: same_bio_def)

lemma mem_okE:
  assumes "mem_ok bio"
  obtains b where "bio_ptr bio = Mem_data b" "bm_ok b" "int (bm_length b) \<le> INT_MAX" "bm_place (mem_rdonly bio) b"
    "mem_data bio = Some b" "mem_content bio = bm_bytes b" "length (bm_bytes b) = bm_length b"
proof -
  from assms obtain b where b: "bio_ptr bio = Mem_data b" "bm_ok b" "int (bm_length b) \<le> INT_MAX" "bm_place (mem_rdonly bio) b"
    unfolding mem_ok_def by blast
  then show thesis using bm_bytes_length [OF b(2)] by (intro that [of b]) (simp_all add: mem_data_def mem_content_def)
qed

lemma mem_okI:
  assumes "mem_ok bio" and "same_bio bio bio1" and "bio_ptr bio1 = Mem_data b" and "bm_ok b" and "int (bm_length b) \<le> INT_MAX"
    and "bm_place (mem_rdonly bio) b"
  shows "mem_ok bio1"
  using assms by (auto simp: mem_ok_def same_bio_def)

text \<open>A read takes the front of the string.\<close>

lemma mem_read_data:
  assumes "mem_ok bio" and "0 < n" and "n \<le> INT_MAX" and "mem_content bio \<noteq> []"
  shows "\<exists>bio1. mem_read bio n = Some (int (length (take (nat n) (mem_content bio))), take (nat n) (mem_content bio), bio1) \<and>
    mem_ok bio1 \<and> mem_content bio1 = drop (nat n) (mem_content bio) \<and> same_bio bio bio1 \<and> bio_flags bio1 = bio_flags bio AND NOT kRetryFlags"
proof -
  from assms(1) obtain b where b: "bio_ptr bio = Mem_data b" "bm_ok b" "int (bm_length b) \<le> INT_MAX" "bm_place (mem_rdonly bio) b"
    "mem_data bio = Some b" "mem_content bio = bm_bytes b" "length (bm_bytes b) = bm_length b" by (rule mem_okE)
  define m where "m = min (nat n) (bm_length b)"
  have ret: "(if int (bm_length b) < INT_MAX \<and> n > int (bm_length b) then int (bm_length b) else n) = int m"
    using assms(2,3) b(3) by (auto simp: m_def)
  have m: "0 < m" "m \<le> bm_length b" using assms(2,4) b(6) by (auto simp: m_def b(7) [symmetric])
  have t: "take (nat n) (bm_bytes b) = take m (bm_bytes b)" "drop (nat n) (bm_bytes b) = drop m (bm_bytes b)"
    using b(7) by (simp_all add: m_def min_def)
  define b2 where "b2 = (if mem_rdonly bio then b\<lparr>bm_length := bm_length b - m, bm_off := bm_off b + m\<rparr>
    else bm_write (b\<lparr>bm_length := bm_length b - m\<rparr>) 0 (drop m (bm_bytes b)))"
  have b2: "bm_ok b2 \<and> bm_length b2 = bm_length b - m \<and> bm_bytes b2 = drop m (bm_bytes b) \<and> bm_place (mem_rdonly bio) b2"
  proof (cases "bm_data b")
    case None
    then show ?thesis using m b(2) by (simp add: bm_ok_def)
  next
    case (Some blk)
    show ?thesis
    proof (cases "mem_rdonly bio")
      case True
      then show ?thesis using b(2,4) m Some by (auto simp: b2_def bm_ok_def bm_bytes_def bm_place_def drop_take add.commute)
    next
      case False
      with b(2,4) Some have o: "bm_off b = 0" "length blk = bm_max b" "bm_length b \<le> bm_max b" by (simp_all add: bm_ok_def bm_place_def)
      have "take (bm_length b - m) (mem_write 0 (drop m (bm_bytes b)) blk) = drop m (bm_bytes b)"
        using take_mem_write [of 0 "drop m (bm_bytes b)" blk] o b(7) by simp
      then show ?thesis using False o b(2) m Some b(7) by (auto simp: b2_def bm_ok_def bm_bytes_def bm_write_def bm_place_def)
    qed
  qed
  have "mem_read bio n = Some (int m, take m (bm_bytes b), (BIO_clear_retry_flags bio)\<lparr>bio_ptr := Mem_data b2\<rparr>)"
    using m by (simp add: mem_read_def b(5) ret Let_def b2_def)
  moreover have "mem_ok ((BIO_clear_retry_flags bio)\<lparr>bio_ptr := Mem_data b2\<rparr>)"
    by (rule mem_okI [OF assms(1) same_bio_ptr [OF same_bio_clear(1)], where b = b2]) (use b2 b(3) m in auto)
  moreover have "bio_flags ((BIO_clear_retry_flags bio)\<lparr>bio_ptr := Mem_data b2\<rparr>) = bio_flags bio AND NOT kRetryFlags"
    by (simp add: BIO_clear_retry_flags_def)
  ultimately show ?thesis using b2 t b(6,7) m by (simp add: mem_content_def same_bio_ptr)
qed

lemma mem_read_empty:
  assumes "mem_ok bio" and "0 < n" and "mem_content bio = []"
  shows "\<exists>bio1. mem_read bio n = Some (bio_num bio, [], bio1) \<and> mem_ok bio1 \<and> mem_content bio1 = [] \<and> same_bio bio bio1 \<and>
    (BIO_should_retry bio1 \<longleftrightarrow> bio_num bio \<noteq> 0)"
proof -
  from assms(1) obtain b where b: "bio_ptr bio = Mem_data b" "bm_ok b" "int (bm_length b) \<le> INT_MAX" "bm_place (mem_rdonly bio) b"
    "mem_data bio = Some b" "mem_content bio = bm_bytes b" "length (bm_bytes b) = bm_length b" by (rule mem_okE)
  have z: "bm_length b = 0" using b(6,7) assms(3) by simp
  let ?bio = "if bio_num bio \<noteq> 0 then BIO_set_retry_read (BIO_clear_retry_flags bio) else BIO_clear_retry_flags bio"
  have "mem_read bio n = Some (bio_num bio, [], ?bio)"
    using assms(2) z by (simp add: mem_read_def b(5) Let_def INT_MAX_def)
  moreover have same: "same_bio bio ?bio" by simp
  moreover have "mem_ok ?bio" by (rule mem_okI [OF assms(1) same _ b(2,3)]) (use b in auto)
  moreover have "NOT kRetryFlags AND BIO_FLAGS_SHOULD_RETRY = 0"
    "(BIO_FLAGS_READ OR BIO_FLAGS_SHOULD_RETRY) AND BIO_FLAGS_SHOULD_RETRY = BIO_FLAGS_SHOULD_RETRY" "BIO_FLAGS_SHOULD_RETRY \<noteq> 0" by code_simp+
  then have "BIO_should_retry ?bio \<longleftrightarrow> bio_num bio \<noteq> 0"
    by (simp add: BIO_should_retry_def BIO_test_flags_def BIO_set_retry_read_def BIO_clear_retry_flags_def bit.conj_disj_distrib2 and.assoc)
  ultimately show ?thesis using b(1,6) assms(3) by (auto simp: mem_content_def)
qed

text \<open>A write appends to the string, or changes only flags and the room behind it.\<close>

lemma bm_write_append:
  assumes "bm_ok b" and "bm_off b = 0" and "bm_length b + length bs \<le> bm_max b"
  shows "bm_bytes ((bm_write b (bm_length b) bs)\<lparr>bm_length := bm_length b + length bs\<rparr>) = bm_bytes b @ bs"
    and "bm_ok ((bm_write b (bm_length b) bs)\<lparr>bm_length := bm_length b + length bs\<rparr>)"
proof -
  show "bm_bytes ((bm_write b (bm_length b) bs)\<lparr>bm_length := bm_length b + length bs\<rparr>) = bm_bytes b @ bs"
    using assms by (cases "bm_data b") (auto simp: bm_bytes_def bm_write_def bm_ok_def take_mem_write)
  show "bm_ok ((bm_write b (bm_length b) bs)\<lparr>bm_length := bm_length b + length bs\<rparr>)"
    using assms by (cases "bm_data b") (auto simp: bm_write_def bm_ok_def)
qed

lemma BUF_MEM_grow_laws:
  assumes "sized_alloc al" and "bm_ok b" and "bm_off b = 0" and "bm_length b \<le> len" and "BUF_MEM_grow al b len = (r, b1)"
  shows "bm_ok b1" and "bm_off b1 = 0" and "r = len \<Longrightarrow> 0 < len \<Longrightarrow> bm_bytes b1 = bm_bytes b @ replicate (len - bm_length b) 0"
    and "r \<noteq> len \<Longrightarrow> bm_bytes b1 = bm_bytes b \<and> bm_length b1 = bm_length b"
proof -
  obtain ok b2 where r: "BUF_MEM_reserve al b len = (ok, b2)" by force
  note l = BUF_MEM_reserve_laws [OF assms(1-3) r]
  have "bm_ok b1 \<and> bm_off b1 = 0 \<and> (r = len \<longrightarrow> 0 < len \<longrightarrow> bm_bytes b1 = bm_bytes b @ replicate (len - bm_length b) 0) \<and>
    (r \<noteq> len \<longrightarrow> bm_bytes b1 = bm_bytes b \<and> bm_length b1 = bm_length b)"
  proof (cases ok)
    case False
    then show ?thesis using assms l r by (auto simp: BUF_MEM_grow_def)
  next
    case True
    define pad where "pad = replicate (len - bm_length b) (0 :: byte)"
    have max: "bm_length b2 + length pad \<le> bm_max b2" using l True assms(4) by (simp add: pad_def)
    have b1: "r = len" "b1 = (bm_write b2 (bm_length b2) pad)\<lparr>bm_length := bm_length b2 + length pad\<rparr>"
      using assms(4,5) r True l(4) by (auto simp: BUF_MEM_grow_def Let_def pad_def bm_write_def split: if_splits)
        (cases "bm_data b2"; simp)+
    show ?thesis using bm_write_append [OF l(1,3) max] l b1 by (simp add: pad_def bm_write_def)
  qed
  then show "bm_ok b1" "bm_off b1 = 0" "r = len \<Longrightarrow> 0 < len \<Longrightarrow> bm_bytes b1 = bm_bytes b @ replicate (len - bm_length b) 0"
    "r \<noteq> len \<Longrightarrow> bm_bytes b1 = bm_bytes b \<and> bm_length b1 = bm_length b" by blast+
qed

lemma bm_overwrite:
  assumes "bm_ok b" and "bm_off b = 0" and "bm_bytes b = xs @ ys" and "length zs = length ys"
  shows "bm_bytes (bm_write b (length xs) zs) = xs @ zs" and "bm_ok (bm_write b (length xs) zs)"
proof -
  have l: "bm_length b = length xs + length ys" using bm_bytes_length [OF assms(1)] assms(3) by simp
  have "bm_bytes (bm_write b (length xs) zs) = xs @ zs \<and> bm_ok (bm_write b (length xs) zs)"
  proof (cases "bm_data b")
    case None
    then show ?thesis using assms l by (auto simp: bm_bytes_def bm_write_def bm_ok_def)
  next
    case (Some blk)
    have blk: "length blk = bm_max b" "bm_length b \<le> bm_max b" using assms(1) Some by (simp_all add: bm_ok_def)
    have "take (length xs) blk = take (length xs) (take (bm_length b) blk)" using l by (simp add: min_def)
    also have "\<dots> = xs" using assms(2,3) Some by (simp add: bm_bytes_def)
    finally have "take (bm_length b) (mem_write (length xs) zs blk) = xs @ zs"
      using take_mem_write [of "length xs" zs blk] blk l assms(4) by simp
    moreover have "length (mem_write (length xs) zs blk) = bm_max b" using blk l assms(4) by simp
    ultimately show ?thesis using assms(1,2) Some by (auto simp: bm_bytes_def bm_write_def bm_ok_def)
  qed
  then show "bm_bytes (bm_write b (length xs) zs) = xs @ zs" "bm_ok (bm_write b (length xs) zs)" by blast+
qed

lemma mem_write_exact:
  assumes "sized_alloc al" and "mem_ok bio" and "bs \<noteq> []" and "int (length bs) \<le> INT_MAX"
  shows "\<exists>ret bio1. mem_write_bio al bio bs = Some (ret, bio1) \<and> mem_ok bio1 \<and> same_bio bio bio1 \<and>
    (ret = int (length bs) \<and> \<not> mem_rdonly bio \<and> mem_content bio1 = mem_content bio @ bs \<or> ret = -1 \<and> mem_content bio1 = mem_content bio)"
proof -
  from assms(2) obtain b where b: "bio_ptr bio = Mem_data b" "bm_ok b" "int (bm_length b) \<le> INT_MAX" "bm_place (mem_rdonly bio) b"
    "mem_data bio = Some b" "mem_content bio = bm_bytes b" "length (bm_bytes b) = bm_length b" by (rule mem_okE)
  let ?bio = "BIO_clear_retry_flags bio"
  have c: "c_int (int (bm_length b)) = int (bm_length b)" using b(3) by (simp add: c_int_id)
  consider "mem_rdonly bio" | "\<not> mem_rdonly bio" "INT_MAX - int (bm_length b) < int (length bs)"
    | "\<not> mem_rdonly bio" "int (bm_length b) + int (length bs) \<le> INT_MAX" by linarith
  then show ?thesis
  proof cases
    case 1
    then show ?thesis using assms(2) by (auto simp: mem_write_bio_def b(5) same_bio_def)
  next
    case 2
    have "mem_ok ?bio" by (rule mem_okI [OF assms(2) same_bio_clear(1) _ b(2,3)]) (use b in auto)
    then show ?thesis using 2 b(1,6) by (simp add: mem_write_bio_def b(5) c Let_def mem_content_def)
  next
    case 3
    define len where "len = bm_length b + length bs"
    have off: "bm_off b = 0" using b(4) 3(1) by (simp add: bm_place_def)
    have n: "nat (int (bm_length b) + int (length bs)) = len" by (simp add: len_def)
    obtain r b1 where g: "BUF_MEM_grow al b len = (r, b1)" by force
    have E: "mem_write_bio al bio bs = Some (if r \<noteq> len then (-1, ?bio\<lparr>bio_ptr := Mem_data b1\<rparr>)
        else (int (length bs), ?bio\<lparr>bio_ptr := Mem_data (bm_write b1 (bm_length b) bs)\<rparr>))"
      using 3 g by (simp add: mem_write_bio_def b(5) c Let_def BUF_MEM_grow_clean_def len_def nat_add_distrib)
    have le: "bm_length b \<le> len" "0 < len" using assms(3) by (simp_all add: len_def)
    note gl = BUF_MEM_grow_laws [OF assms(1) b(2) off le(1) g]
    show ?thesis
    proof (cases "r = len")
      case True
      have bs: "bm_bytes b1 = bm_bytes b @ replicate (length bs) 0" using gl(3) [OF True le(2)] by (simp add: len_def)
      note o = bm_overwrite [OF gl(1,2) bs, of bs]
      have l1: "bm_length (bm_write b1 (bm_length b) bs) = len"
        using bm_bytes_length [OF gl(1)] bs b(7) by (simp add: bm_write_def len_def)
      have "mem_ok (?bio\<lparr>bio_ptr := Mem_data (bm_write b1 (bm_length b) bs)\<rparr>)"
        by (rule mem_okI [OF assms(2) same_bio_ptr [OF same_bio_clear(1)], where b = "bm_write b1 (bm_length b) bs"])
          (use o b(7) l1 3 gl(2) in \<open>simp_all add: len_def bm_write_def bm_place_def\<close>)
      then show ?thesis using 3 True o b(6,7) same_bio_ptr [OF same_bio_clear(1), of bio] unfolding E
        by (simp add: mem_content_def)
    next
      case False
      have "mem_ok (?bio\<lparr>bio_ptr := Mem_data b1\<rparr>)"
        by (rule mem_okI [OF assms(2) same_bio_ptr [OF same_bio_clear(1)], where b = b1]) (use gl False b(3) 3(1) in \<open>simp_all add: bm_place_def\<close>)
      then show ?thesis using 3 False gl(4) b(6) same_bio_ptr [OF same_bio_clear(1), of bio] unfolding E
        by (simp add: mem_content_def)
    qed
  qed
qed

end
