(* ===== verification/Bio_Pair.thy ===== *)
theory Bio_Pair
  imports Bio_Mem
begin

text \<open>
  BIO pairs (\<open>crypto/bio/pair.c\<close>): two BIOs, each with a ring buffer for what it writes, and a pointer to the other.  The
  operations work on the store of all BIOs; a result \<open>None\<close> means that an assertion of the code fails or that a pointer
  is not valid.
\<close>

definition upd :: "bios \<Rightarrow> nat \<Rightarrow> (bio \<Rightarrow> bio) \<Rightarrow> bios" where
  "upd B a f = B(a := map_option f (B a))"

definition half :: "bios \<Rightarrow> nat \<Rightarrow> bio_bio option" where
  "half B a = do { bio \<leftarrow> B a; case bio_ptr bio of Pair_data b \<Rightarrow> Some b | _ \<Rightarrow> None }"

definition set_half :: "bios \<Rightarrow> nat \<Rightarrow> bio_bio \<Rightarrow> bios" where
  "set_half B a b = upd B a (\<lambda>bio. bio\<lparr>bio_ptr := Pair_data b\<rparr>)"

section \<open>Creation and destruction\<close>

definition bio_new :: "allocator \<Rightarrow> bio \<Rightarrow> bool \<times> bio" where
  "bio_new al bio =
     (case al 56 of
        None \<Rightarrow> (False, bio)
      | Some _ \<Rightarrow> (True, bio\<lparr>bio_ptr := Pair_data \<lparr>bb_peer = 0, bb_closed = False, bb_len = 0, bb_offset = 0,
                                  bb_size = 17 * 1024, bb_buf = None, bb_request = 0\<rparr>\<rparr>))"

definition bio_destroy_pair :: "bios \<Rightarrow> nat \<Rightarrow> bios option" where
  "bio_destroy_pair B a =
     do { bio \<leftarrow> B a;
          if bio_ptr bio = Null_data then Some B
          else do {
            b \<leftarrow> half B a;
            let p = bb_peer b;
            if p = 0 then Some B
            else do {
              pb \<leftarrow> half B p;
              must (bb_peer pb = a);
              must (bb_buf pb \<noteq> None);
              let B1 = upd (set_half B p (pb\<lparr>bb_peer := 0, bb_len := 0, bb_offset := 0\<rparr>)) p (\<lambda>bio. bio\<lparr>bio_init := False\<rparr>);
              b1 \<leftarrow> half B1 a;
              must (bb_buf b1 \<noteq> None);
              Some (upd (set_half B1 a (b1\<lparr>bb_peer := 0, bb_len := 0, bb_offset := 0\<rparr>)) a (\<lambda>bio. bio\<lparr>bio_init := False\<rparr>)) } } }"

definition bio_free :: "bios \<Rightarrow> nat \<Rightarrow> bios option" where
  "bio_free B a =
     do { b \<leftarrow> half B a; if bb_peer b \<noteq> 0 then bio_destroy_pair B a else Some B }"

section \<open>The ring buffer\<close>

text \<open>
  The loops run once or twice, a chunk each time.  A chunk of zero bytes would change nothing, so that the code would not return; the first
  argument counts the bytes to go and is enough otherwise.
\<close>

definition size_sub :: "nat \<Rightarrow> nat \<Rightarrow> nat" where
  "size_sub a b = size_wrap (a + (2 ^ 64 - b))"

definition read_chunk :: "nat \<Rightarrow> bio_bio \<Rightarrow> (byte list \<times> nat \<times> bio_bio) option" where
  "read_chunk rest b =
     do { must (rest \<le> bb_len b);
          let chunk = (if size_wrap (bb_offset b + rest) \<le> bb_size b then rest else size_sub (bb_size b) (bb_offset b));
          must (size_wrap (bb_offset b + chunk) \<le> bb_size b);
          blk \<leftarrow> bb_buf b;
          must (bb_offset b + chunk \<le> length blk);
          let len = size_sub (bb_len b) chunk;
          let offset = bb_offset b + chunk;
          must (if len \<noteq> 0 then offset \<le> bb_size b else chunk = rest);
          Some (take chunk (drop (bb_offset b) blk), size_sub rest chunk,
                b\<lparr>bb_len := len, bb_offset := (if len \<noteq> 0 \<and> offset \<noteq> bb_size b then offset else 0)\<rparr>) }"

primrec ring_read :: "nat \<Rightarrow> nat \<Rightarrow> bio_bio \<Rightarrow> (byte list \<times> bio_bio) option" where
  "ring_read 0 rest b = None"
| "ring_read (Suc n) rest b =
     do { (out, rest1, b1) \<leftarrow> read_chunk rest b;
          if rest1 = 0 then Some (out, b1)
          else do { (out1, b2) \<leftarrow> ring_read n rest1 b1; Some (out @ out1, b2) } }"

definition write_chunk :: "byte list \<Rightarrow> bio_bio \<Rightarrow> (byte list \<times> bio_bio) option" where
  "write_chunk bs b =
     do { must (size_wrap (bb_len b + length bs) \<le> bb_size b);
          let off = size_wrap (bb_offset b + bb_len b);
          let write_offset = (if off \<ge> bb_size b then off - bb_size b else off);
          let chunk = (if size_wrap (write_offset + length bs) \<le> bb_size b then length bs else size_sub (bb_size b) write_offset);
          blk \<leftarrow> bb_buf b;
          must (write_offset + chunk \<le> length blk);
          let b1 = b\<lparr>bb_buf := Some (mem_write write_offset (take chunk bs) blk), bb_len := size_wrap (bb_len b + chunk)\<rparr>;
          must (bb_len b1 \<le> bb_size b1);
          Some (drop chunk bs, b1) }"

primrec ring_write :: "nat \<Rightarrow> byte list \<Rightarrow> bio_bio \<Rightarrow> bio_bio option" where
  "ring_write 0 bs b = None"
| "ring_write (Suc n) bs b =
     do { (rest, b1) \<leftarrow> write_chunk bs b;
          if rest = [] then Some b1 else ring_write n rest b1 }"

section \<open>Reading and writing\<close>

text \<open>The number of bytes asked for is positive, as \<open>BIO_read\<close> and \<open>BIO_write\<close> make sure.\<close>

definition bio_read :: "bios \<Rightarrow> nat \<Rightarrow> nat \<Rightarrow> (int \<times> byte list \<times> bios) option" where
  "bio_read B0 a n =
     do { bio \<leftarrow> B0 a;
          let B = upd B0 a BIO_clear_retry_flags;
          if \<not> bio_init bio then Some (0, [], B)
          else do {
            b \<leftarrow> half B a;
            must (bb_peer b \<noteq> 0);
            let p = bb_peer b;
            pb0 \<leftarrow> half B p;
            must (bb_buf pb0 \<noteq> None);
            let pb = pb0\<lparr>bb_request := 0\<rparr>;
            if n = 0 then Some (0, [], set_half B p pb)
            else if bb_len pb = 0 then
              (if bb_closed pb then Some (0, [], set_half B p pb)
               else Some (-1, [], set_half (upd B a BIO_set_retry_read) p
                                    (pb\<lparr>bb_request := (if n \<le> bb_size pb then n else bb_size pb)\<rparr>)))
            else do {
              let m = (if bb_len pb < n then bb_len pb else n);
              (out, pb1) \<leftarrow> ring_read m m pb;
              Some (int m, out, set_half B p pb1) } } }"

definition bio_write :: "bios \<Rightarrow> nat \<Rightarrow> byte list \<Rightarrow> (int \<times> bios) option" where
  "bio_write B0 a bs =
     do { bio \<leftarrow> B0 a;
          let B = upd B0 a BIO_clear_retry_flags;
          if \<not> bio_init bio \<or> bs = [] then Some (0, B)
          else do {
            b0 \<leftarrow> half B a;
            must (bb_peer b0 \<noteq> 0);
            must (bb_buf b0 \<noteq> None);
            let b = b0\<lparr>bb_request := 0\<rparr>;
            let B1 = set_half B a b;
            if bb_closed b then Some (-1, B1)
            else do {
              must (bb_len b \<le> bb_size b);
              if bb_len b = bb_size b then Some (-1, upd B1 a BIO_set_retry_write)
              else do {
                let n = min (length bs) (bb_size b - bb_len b);
                b1 \<leftarrow> ring_write n (take n bs) b;
                Some (int n, set_half B1 a b1) } } } }"

text \<open>A half keeps the size asked for even if its buffer cannot be allocated.\<close>

definition attach_buf :: "allocator \<Rightarrow> bio_bio \<Rightarrow> nat \<Rightarrow> bool \<times> bio_bio" where
  "attach_buf al b writebuf_len =
     (if bb_buf b \<noteq> None then (True, b)
      else let b1 = (if writebuf_len \<noteq> 0 then b\<lparr>bb_size := writebuf_len\<rparr> else b)
           in case al (bb_size b1) of
                None \<Rightarrow> (False, b1)
              | Some blk \<Rightarrow> (True, b1\<lparr>bb_buf := Some blk, bb_len := 0, bb_offset := 0\<rparr>))"

definition bio_make_pair :: "allocator \<Rightarrow> bios \<Rightarrow> nat \<Rightarrow> nat \<Rightarrow> nat \<Rightarrow> nat \<Rightarrow> (bool \<times> bios) option" where
  "bio_make_pair al B a1 a2 len1 len2 =
     do { b1 \<leftarrow> half B a1;
          b2 \<leftarrow> half B a2;
          if bb_peer b1 \<noteq> 0 \<or> bb_peer b2 \<noteq> 0 then Some (False, B)
          else case attach_buf al b1 len1 of
            (False, c1) \<Rightarrow> Some (False, set_half B a1 c1)
          | (True, c1) \<Rightarrow> (case attach_buf al b2 len2 of
              (False, c2) \<Rightarrow> Some (False, set_half (set_half B a1 c1) a2 c2)
            | (True, c2) \<Rightarrow>
                let B1 = set_half B a1 (c1\<lparr>bb_peer := a2, bb_closed := False, bb_request := 0\<rparr>);
                    B2 = set_half B1 a2 (c2\<lparr>bb_peer := a1, bb_closed := False, bb_request := 0\<rparr>)
                in Some (True, upd (upd B2 a1 (\<lambda>bio. bio\<lparr>bio_init := True\<rparr>)) a2 (\<lambda>bio. bio\<lparr>bio_init := True\<rparr>))) }"

definition BIO_C_GET_WRITE_BUF_SIZE :: int where "BIO_C_GET_WRITE_BUF_SIZE = 137"
definition BIO_C_GET_WRITE_GUARANTEE :: int where "BIO_C_GET_WRITE_GUARANTEE = 140"
definition BIO_C_GET_READ_REQUEST :: int where "BIO_C_GET_READ_REQUEST = 141"
definition BIO_C_SHUTDOWN_WR :: int where "BIO_C_SHUTDOWN_WR = 142"
definition BIO_C_RESET_READ_REQUEST :: int where "BIO_C_RESET_READ_REQUEST = 147"

text \<open>\<open>ptr\<close> is the address of another BIO, read by \<open>BIO_CTRL_EOF\<close> only.\<close>

definition bio_ctrl :: "bios \<Rightarrow> nat \<Rightarrow> int \<Rightarrow> int \<Rightarrow> nat \<Rightarrow> (int \<times> bios) option" where
  "bio_ctrl B a cmd num ptr =
     do { bio \<leftarrow> B a;
          b \<leftarrow> half B a;
          if cmd = BIO_C_GET_WRITE_BUF_SIZE then Some (int (bb_size b), B)
          else if cmd = BIO_C_GET_WRITE_GUARANTEE then
            Some (if bb_peer b = 0 \<or> bb_closed b then 0 else int (size_sub (bb_size b) (bb_len b)), B)
          else if cmd = BIO_C_GET_READ_REQUEST then Some (int (bb_request b), B)
          else if cmd = BIO_C_RESET_READ_REQUEST then Some (1, set_half B a (b\<lparr>bb_request := 0\<rparr>))
          else if cmd = BIO_C_SHUTDOWN_WR then Some (1, set_half B a (b\<lparr>bb_closed := True\<rparr>))
          else if cmd = BIO_CTRL_GET_CLOSE then Some (bio_shutdown bio, B)
          else if cmd = BIO_CTRL_SET_CLOSE then Some (1, upd B a (\<lambda>bio. bio\<lparr>bio_shutdown := c_int num\<rparr>))
          else if cmd = BIO_CTRL_PENDING then
            (if bb_peer b \<noteq> 0 then do { pb \<leftarrow> half B (bb_peer b); Some (int (bb_len pb), B) } else Some (0, B))
          else if cmd = BIO_CTRL_WPENDING then Some (if bb_buf b \<noteq> None then int (bb_len b) else 0, B)
          else if cmd = BIO_CTRL_FLUSH then Some (1, B)
          else if cmd = BIO_CTRL_EOF then
            (if ptr \<noteq> 0 then do { ob \<leftarrow> half B ptr; Some (if bb_len ob = 0 \<and> bb_closed ob then 1 else 0, B) } else Some (1, B))
          else Some (0, B) }"

section \<open>The ring as a queue\<close>

definition ring_ok :: "bio_bio \<Rightarrow> bool" where
  "ring_ok b \<longleftrightarrow> bb_len b \<le> bb_size b \<and> bb_offset b < bb_size b \<and> bb_size b < 2 ^ 63 \<and>
     (\<exists>blk. bb_buf b = Some blk \<and> length blk = bb_size b)"

definition ring_bytes :: "bio_bio \<Rightarrow> byte list" where
  "ring_bytes b = (case bb_buf b of None \<Rightarrow> [] | Some blk \<Rightarrow> take (bb_len b) (drop (bb_offset b) blk @ take (bb_offset b) blk))"

lemma ring_okE:
  assumes "ring_ok b"
  obtains blk where "bb_buf b = Some blk" "length blk = bb_size b" "bb_len b \<le> bb_size b" "bb_offset b < bb_size b" "bb_size b < 2 ^ 63"
    "ring_bytes b = take (bb_len b) (drop (bb_offset b) blk @ take (bb_offset b) blk)" "length (ring_bytes b) = bb_len b"
  using assms by (auto simp: ring_ok_def ring_bytes_def)

lemma size_sub_small: "b \<le> a \<Longrightarrow> a < 2 ^ 64 \<Longrightarrow> size_sub a b = a - b"
proof -
  assume "b \<le> a" "a < 2 ^ 64"
  then have e: "a + (2 ^ 64 - b) = (a - b) + 2 ^ 64" by simp
  show ?thesis unfolding size_sub_def size_wrap_def e using \<open>a < 2 ^ 64\<close> by simp
qed

text \<open>A chunk, and two of them, take from the front and add at the end.\<close>

lemma read_chunk_exact:
  assumes "ring_ok b" and "0 < rest" and "rest \<le> bb_len b"
  shows "\<exists>c b1. read_chunk rest b = Some (take c (ring_bytes b), rest - c, b1) \<and> 0 < c \<and> c \<le> rest \<and> ring_ok b1 \<and>
    ring_bytes b1 = drop c (ring_bytes b) \<and> bb_len b1 = bb_len b - c \<and> (c < rest \<longrightarrow> bb_offset b1 = 0) \<and> (bb_offset b = 0 \<longrightarrow> c = rest) \<and>
    bb_size b1 = bb_size b \<and> bb_peer b1 = bb_peer b \<and> bb_closed b1 = bb_closed b \<and> bb_request b1 = bb_request b"
proof -
  from assms(1) obtain blk where r: "bb_buf b = Some blk" "length blk = bb_size b" "bb_len b \<le> bb_size b" "bb_offset b < bb_size b" "bb_size b < 2 ^ 63"
    "ring_bytes b = take (bb_len b) (drop (bb_offset b) blk @ take (bb_offset b) blk)" "length (ring_bytes b) = bb_len b" by (rule ring_okE)
  define c where "c = (if bb_offset b + rest \<le> bb_size b then rest else bb_size b - bb_offset b)"
  have c: "0 < c" "c \<le> rest" "c \<le> bb_size b - bb_offset b" "bb_offset b + c \<le> bb_size b" using assms(2) r(4) by (auto simp: c_def)
  have w: "size_wrap (bb_offset b + rest) = bb_offset b + rest" "size_wrap (bb_offset b + c) = bb_offset b + c"
    using assms(3) r(3-5) c by simp_all
  have s: "size_sub (bb_size b) (bb_offset b) = bb_size b - bb_offset b" "size_sub (bb_len b) c = bb_len b - c" "size_sub rest c = rest - c"
    using assms(3) r(3-5) c by (simp_all add: size_sub_small)
  have chunk: "(if size_wrap (bb_offset b + rest) \<le> bb_size b then rest else size_sub (bb_size b) (bb_offset b)) = c"
    unfolding w s c_def ..
  define b1 where "b1 = b\<lparr>bb_len := bb_len b - c, bb_offset := (if bb_len b - c \<noteq> 0 \<and> bb_offset b + c \<noteq> bb_size b then bb_offset b + c else 0)\<rparr>"
  have last: "bb_len b - c = 0 \<Longrightarrow> c = rest" using c assms(3) by simp
  have e: "read_chunk rest b = Some (take c (drop (bb_offset b) blk), rest - c, b1)"
    unfolding read_chunk_def chunk unfolding Let_def w s b1_def using assms(3) c r(1,2) last by simp
  have t: "take c (drop (bb_offset b) blk) = take c (ring_bytes b)"
    unfolding r(6) using c assms(3) r(2) by (simp add: min_def)
  have d: "ring_bytes b1 = drop c (ring_bytes b)"
  proof (cases "bb_len b - c \<noteq> 0 \<and> bb_offset b + c \<noteq> bb_size b")
    case True
    have "drop c (drop (bb_offset b) blk) = drop (bb_offset b + c) blk" "take (bb_offset b + c) blk = take (bb_offset b) blk @ take c (drop (bb_offset b) blk)"
      by (simp_all add: take_add add.commute [of c])
    with True have "drop (bb_offset b + c) blk @ take (bb_offset b + c) blk = drop c (drop (bb_offset b) blk @ take (bb_offset b) blk) @ take c (drop (bb_offset b) blk)"
      using c r(2) by simp
    then show ?thesis using True c assms(3) r unfolding r(6) by (simp add: b1_def ring_bytes_def drop_take)
  next
    case False
    show ?thesis
    proof (cases "bb_len b - c = 0")
      case True
      then have "drop c (ring_bytes b) = []" using r(7) by simp
      then show ?thesis using True r(1) by (simp add: b1_def ring_bytes_def)
    next
      case False
      with \<open>\<not> (bb_len b - c \<noteq> 0 \<and> bb_offset b + c \<noteq> bb_size b)\<close> have "bb_offset b + c = bb_size b" by simp
      then have "drop (bb_offset b) blk = take c (drop (bb_offset b) blk)" "length (drop (bb_offset b) blk) = c" using r(2) by simp_all
      then have "drop c (drop (bb_offset b) blk @ take (bb_offset b) blk) = take (bb_offset b) blk" by simp
      then have "drop c (ring_bytes b) = take (bb_len b - c) (take (bb_offset b) blk)" unfolding r(6) drop_take by (rule arg_cong)
      also have "bb_len b - c \<le> bb_offset b" using r(3) \<open>bb_offset b + c = bb_size b\<close> by linarith
      then have "take (bb_len b - c) (take (bb_offset b) blk) = take (bb_len b - c) blk" by (simp add: min_absorb1)
      finally show ?thesis using False \<open>bb_offset b + c = bb_size b\<close> r(1) by (simp add: b1_def ring_bytes_def)
    qed
  qed
  have "ring_ok b1" using r c by (auto simp: ring_ok_def b1_def)
  moreover have "c < rest \<Longrightarrow> bb_offset b1 = 0" using r(4) by (auto simp: c_def b1_def split: if_splits)
  moreover have "bb_offset b = 0 \<Longrightarrow> c = rest" using assms(3) r(3) by (simp add: c_def)
  ultimately show ?thesis using e t d c by (auto simp: b1_def)
qed

lemma ring_read_exact:
  assumes "ring_ok b" and "0 < n" and "n \<le> bb_len b"
  shows "\<exists>b1. ring_read n n b = Some (take n (ring_bytes b), b1) \<and> ring_ok b1 \<and> ring_bytes b1 = drop n (ring_bytes b) \<and>
    bb_size b1 = bb_size b \<and> bb_peer b1 = bb_peer b \<and> bb_closed b1 = bb_closed b \<and> bb_request b1 = bb_request b"
proof -
  obtain m where m: "n = Suc m" using assms(2) by (cases n) simp_all
  from read_chunk_exact [OF assms] obtain c b1 where c: "read_chunk n b = Some (take c (ring_bytes b), n - c, b1)" "0 < c" "c \<le> n"
    "ring_ok b1" "ring_bytes b1 = drop c (ring_bytes b)" "bb_len b1 = bb_len b - c" "c < n \<longrightarrow> bb_offset b1 = 0"
    "bb_size b1 = bb_size b \<and> bb_peer b1 = bb_peer b \<and> bb_closed b1 = bb_closed b \<and> bb_request b1 = bb_request b" by blast
  show ?thesis
  proof (cases "c = n")
    case True
    then show ?thesis using c m by simp
  next
    case False
    then have rest: "0 < n - c" "n - c \<le> bb_len b1" using c(2,3,6) assms(3) by simp_all
    then obtain k where k: "m = Suc k" using c(2) m by (cases m) simp_all
    from read_chunk_exact [OF c(4) rest] c(3,7) False obtain b2 where
      c2: "read_chunk (n - c) b1 = Some (take (n - c) (ring_bytes b1), 0, b2)" "ring_ok b2" "ring_bytes b2 = drop (n - c) (ring_bytes b1)"
        "bb_size b2 = bb_size b1 \<and> bb_peer b2 = bb_peer b1 \<and> bb_closed b2 = bb_closed b1 \<and> bb_request b2 = bb_request b1"
      by (metis diff_self_eq_0 le_neq_implies_less)
    have "take n (ring_bytes b) = take c (ring_bytes b) @ take (n - c) (drop c (ring_bytes b))" "drop n (ring_bytes b) = drop (n - c) (drop c (ring_bytes b))"
      using c(3) take_add [of c "n - c" "ring_bytes b"] by simp_all
    moreover have "ring_read n n b = Some (take c (ring_bytes b) @ take (n - c) (ring_bytes b1), b2)"
      using c(1) rest(1) c2(1) by (simp only: m k ring_read.simps) (simp add: m k)
    ultimately show ?thesis using c2 c(5,8) by simp
  qed
qed

lemma write_chunk_exact:
  assumes "ring_ok b" and "bs \<noteq> []" and "length bs \<le> bb_size b - bb_len b"
  shows "\<exists>c b1. write_chunk bs b = Some (drop c bs, b1) \<and> 0 < c \<and> c \<le> length bs \<and> ring_ok b1 \<and>
    ring_bytes b1 = ring_bytes b @ take c bs \<and> bb_len b1 = bb_len b + c \<and> (c < length bs \<longrightarrow> bb_size b \<le> bb_offset b1 + bb_len b1) \<and>
    (bb_size b \<le> bb_offset b + bb_len b \<longrightarrow> c = length bs) \<and>
    bb_size b1 = bb_size b \<and> bb_peer b1 = bb_peer b \<and> bb_closed b1 = bb_closed b \<and> bb_request b1 = bb_request b"
proof -
  from assms(1) obtain blk where r: "bb_buf b = Some blk" "length blk = bb_size b" "bb_len b \<le> bb_size b" "bb_offset b < bb_size b" "bb_size b < 2 ^ 63"
    "ring_bytes b = take (bb_len b) (drop (bb_offset b) blk @ take (bb_offset b) blk)" "length (ring_bytes b) = bb_len b" by (rule ring_okE)
  have pos: "0 < length bs" using assms(2) by simp
  define w where "w = (if bb_offset b + bb_len b \<ge> bb_size b then bb_offset b + bb_len b - bb_size b else bb_offset b + bb_len b)"
  define c where "c = (if w + length bs \<le> bb_size b then length bs else bb_size b - w)"
  have w: "w < bb_size b" using r(3,4) by (auto simp: w_def)
  have c: "0 < c" "c \<le> length bs" "w + c \<le> bb_size b" using pos w by (auto simp: c_def)
  have sw: "size_wrap (bb_len b + length bs) = bb_len b + length bs" "size_wrap (bb_offset b + bb_len b) = bb_offset b + bb_len b"
    "size_wrap (w + length bs) = w + length bs" "size_wrap (bb_len b + c) = bb_len b + c" "size_sub (bb_size b) w = bb_size b - w"
    using assms(3) r(3-5) w c by (simp_all add: size_sub_small)
  define b1 where "b1 = b\<lparr>bb_buf := Some (mem_write w (take c bs) blk), bb_len := bb_len b + c\<rparr>"
  have e: "write_chunk bs b = Some (drop c bs, b1)"
    unfolding write_chunk_def Let_def sw w_def [symmetric] c_def [symmetric] b1_def using assms(3) c r(1,2,3) by simp
  have l1: "length (mem_write w (take c bs) blk) = bb_size b" using c r(2) by simp
  have l2: "length (ring_bytes b1) = bb_len b + c"
    using l1 c assms(3) r(3,4) by (simp add: b1_def ring_bytes_def del: take_append)
  have d: "ring_bytes b1 = ring_bytes b @ take c bs"
  proof (rule nth_equalityI)
    show "length (ring_bytes b1) = length (ring_bytes b @ take c bs)"
      using l2 c(2) r(7) by simp
  next
    fix i
    assume "i < length (ring_bytes b1)"
    then have i: "i < bb_len b + c" using l2 by simp
    have le: "bb_len b + c \<le> bb_size b" using c assms(3) r(3) by simp
    define j where "j = (if bb_offset b + i < bb_size b then bb_offset b + i else bb_offset b + i - bb_size b)"
    have "ring_bytes b1 ! i = mem_write w (take c bs) blk ! j"
      using i l1 le r(4) by (auto simp: b1_def ring_bytes_def nth_append j_def add.commute)
    also have "\<dots> = (if j < w then blk ! j else if j < w + c then bs ! (j - w) else blk ! j)"
      using c r(2) w by (auto simp: mem_write_def nth_append min_def)
    also have "\<dots> = (ring_bytes b @ take c bs) ! i"
    proof (cases "i < bb_len b")
      case True
      then have "ring_bytes b ! i = blk ! j" using r(2-4) unfolding r(6) by (auto simp: nth_append j_def add.commute)
      moreover have "\<not> (w \<le> j \<and> j < w + c)" using True c le r(3,4) by (auto simp: w_def j_def c_def split: if_splits)
      ultimately show ?thesis using True r(7) by (auto simp: nth_append)
    next
      case False
      then have "j = w + (i - bb_len b)" using i le c r(3,4) by (auto simp: w_def j_def c_def split: if_splits)
      then have "\<not> j < w" "j < w + c" "j - w = i - bb_len b" using False i by simp_all
      then show ?thesis using False i r(7) by (simp add: nth_append)
    qed
    finally show "ring_bytes b1 ! i = (ring_bytes b @ take c bs) ! i" .
  qed
  have "ring_ok b1" using r c l1 assms(3) by (auto simp: ring_ok_def b1_def)
  moreover have "c < length bs \<Longrightarrow> bb_size b \<le> bb_offset b1 + bb_len b1" using r(3,4) by (auto simp: b1_def c_def w_def split: if_splits)
  moreover have "bb_size b \<le> bb_offset b + bb_len b \<Longrightarrow> c = length bs" using assms(3) r(3,4) by (auto simp: c_def w_def split: if_splits)
  ultimately show ?thesis using e d c by (auto simp: b1_def)
qed

lemma ring_write_exact:
  assumes "ring_ok b" and "bs \<noteq> []" and "length bs \<le> bb_size b - bb_len b"
  shows "\<exists>b1. ring_write (length bs) bs b = Some b1 \<and> ring_ok b1 \<and> ring_bytes b1 = ring_bytes b @ bs \<and>
    bb_size b1 = bb_size b \<and> bb_peer b1 = bb_peer b \<and> bb_closed b1 = bb_closed b \<and> bb_request b1 = bb_request b"
proof -
  obtain m where m: "length bs = Suc m" using assms(2) by (cases bs) simp_all
  from write_chunk_exact [OF assms] obtain c b1 where c: "write_chunk bs b = Some (drop c bs, b1)" "0 < c" "c \<le> length bs"
    "ring_ok b1" "ring_bytes b1 = ring_bytes b @ take c bs" "bb_len b1 = bb_len b + c" "c < length bs \<longrightarrow> bb_size b \<le> bb_offset b1 + bb_len b1"
    "bb_size b1 = bb_size b \<and> bb_peer b1 = bb_peer b \<and> bb_closed b1 = bb_closed b \<and> bb_request b1 = bb_request b" by blast
  show ?thesis
  proof (cases "c = length bs")
    case True
    then show ?thesis using c m by simp
  next
    case False
    then have ne: "drop c bs \<noteq> []" and cl: "c < length bs" using c(3) by simp_all
    have le: "length (drop c bs) \<le> bb_size b1 - bb_len b1" using c(3,6,8) assms(3) by simp
    obtain k where k: "m = Suc k" using c(2) cl m by (cases m) simp_all
    have full: "bb_size b1 \<le> bb_offset b1 + bb_len b1" using c(7,8) cl by simp
    from write_chunk_exact [OF c(4) ne le] full obtain b2 where
      c2: "write_chunk (drop c bs) b1 = Some ([], b2)" "ring_ok b2" "ring_bytes b2 = ring_bytes b1 @ drop c bs"
        "bb_size b2 = bb_size b1 \<and> bb_peer b2 = bb_peer b1 \<and> bb_closed b2 = bb_closed b1 \<and> bb_request b2 = bb_request b1"
      by (metis drop_all order_refl take_all)
    have "ring_write (length bs) bs b = Some b2"
      using c(1) ne c2(1) by (simp only: m k ring_write.simps) simp
    then show ?thesis using c2 c(5,8) by simp
  qed
qed

end
