(* ===== verification/Bio.thy ===== *)
theory Bio
  imports Bio_Pair
begin

text \<open>
  The interface of \<open>crypto/bio/bio.c\<close> over the two kinds of BIO, and the functions of \<open>bio_mem.c\<close> and \<open>pair.c\<close> that go
  through it.  \<open>fresh\<close> chooses the address of a new BIO; \<open>0\<close> means that there is no memory.  A result \<open>None\<close> means that a
  pointer is not valid, an assertion fails, the program is aborted, or the code does not return.
\<close>

section \<open>Creation, references, chains\<close>

definition BIO_new :: "allocator \<Rightarrow> (bios \<Rightarrow> nat) \<Rightarrow> bio_method \<Rightarrow> bios \<Rightarrow> nat \<times> bios" where
  "BIO_new al fresh m B =
     (let a = fresh B;
          bio = \<lparr>bio_method = m, bio_init = False, bio_shutdown = 1, bio_flags = 0, bio_retry_reason = 0, bio_num = 0,
                 bio_references = 1, bio_ptr = Null_data, bio_next = 0, bio_num_read = 0, bio_num_write = 0\<rparr>
      in if a = 0 then (0, B)
         else case (case m of Mem_method \<Rightarrow> mem_new al bio | Pair_method \<Rightarrow> bio_new al bio) of
                (False, _) \<Rightarrow> (0, B)
              | (True, bio1) \<Rightarrow> (a, B(a := Some bio1)))"

definition CRYPTO_REFCOUNT_MAX :: nat where
  "CRYPTO_REFCOUNT_MAX = 0xffffffff"

definition CRYPTO_refcount_dec_and_test_zero :: "nat \<Rightarrow> (bool \<times> nat) option" where
  "CRYPTO_refcount_dec_and_test_zero n =
     (if n = 0 then None else if n = CRYPTO_REFCOUNT_MAX then Some (False, n) else Some (n - 1 = 0, n - 1))"

definition CRYPTO_refcount_inc :: "nat \<Rightarrow> nat" where
  "CRYPTO_refcount_inc n = (if n = CRYPTO_REFCOUNT_MAX then n else n + 1)"

definition BIO_up_ref :: "bios \<Rightarrow> nat \<Rightarrow> bios option" where
  "BIO_up_ref B a = do { bio \<leftarrow> B a; Some (B(a := Some (bio\<lparr>bio_references := CRYPTO_refcount_inc (bio_references bio)\<rparr>))) }"

definition BIO_pop :: "bios \<Rightarrow> nat \<Rightarrow> (nat \<times> bios) option" where
  "BIO_pop B a = (if a = 0 then Some (0, B) else do { bio \<leftarrow> B a; Some (bio_next bio, B(a := Some (bio\<lparr>bio_next := 0\<rparr>))) })"

definition bio_destroy :: "bios \<Rightarrow> nat \<Rightarrow> bios option" where
  "bio_destroy B a =
     do { bio \<leftarrow> B a;
          case bio_method bio of Mem_method \<Rightarrow> Some (B(a := Some (mem_free bio))) | Pair_method \<Rightarrow> bio_free B a }"

text \<open>One round of the loop of \<open>BIO_free\<close>: whether the object is gone, and the next one.\<close>

definition free_one :: "bios \<Rightarrow> nat \<Rightarrow> (bool \<times> nat \<times> bios) option" where
  "free_one B a =
     do { bio \<leftarrow> B a;
          (zero, refs) \<leftarrow> CRYPTO_refcount_dec_and_test_zero (bio_references bio);
          let B1 = B(a := Some (bio\<lparr>bio_references := refs\<rparr>));
          if \<not> zero then Some (False, 0, B1)
          else do { (nxt, B2) \<leftarrow> BIO_pop B1 a;
                    B3 \<leftarrow> bio_destroy B2 a;
                    Some (True, nxt, B3(a := None)) } }"

partial_function (option) BIO_free :: "nat \<Rightarrow> bios \<Rightarrow> (bool \<times> bios) option" where
  "BIO_free a B =
     (if a = 0 then Some (True, B)
      else case free_one B a of
             None \<Rightarrow> None
           | Some (gone, nxt, B1) \<Rightarrow> if \<not> gone then Some (False, B1) else BIO_free nxt B1)"

declare BIO_free.simps [code]

definition BIO_vfree :: "nat \<Rightarrow> bios \<Rightarrow> bios option" where
  "BIO_vfree a B = map_option snd (BIO_free a B)"

definition BIO_free_all :: "nat \<Rightarrow> bios \<Rightarrow> bios option" where
  "BIO_free_all a B = map_option snd (BIO_free a B)"

definition BIO_next :: "bios \<Rightarrow> nat \<Rightarrow> nat option" where
  "BIO_next B a = (if a = 0 then Some 0 else map_option bio_next (B a))"

partial_function (option) last_bio :: "bios \<Rightarrow> nat \<Rightarrow> nat option" where
  "last_bio B a = (case B a of None \<Rightarrow> None | Some bio \<Rightarrow> if bio_next bio = 0 then Some a else last_bio B (bio_next bio))"

declare last_bio.simps [code]

definition BIO_push :: "bios \<Rightarrow> nat \<Rightarrow> nat \<Rightarrow> (nat \<times> bios) option" where
  "BIO_push B a appended =
     (if a = 0 then Some (0, B)
      else do { l \<leftarrow> last_bio B a; Some (a, upd B l (\<lambda>bio. bio\<lparr>bio_next := appended\<rparr>)) })"

definition BIO_TYPE_MEM :: u32 where "BIO_TYPE_MEM = 1 OR 0x400"
definition BIO_TYPE_BIO :: u32 where "BIO_TYPE_BIO = 19 OR 0x400"

definition BIO_method_type :: "bio \<Rightarrow> u32" where
  "BIO_method_type bio = (case bio_method bio of Mem_method \<Rightarrow> BIO_TYPE_MEM | Pair_method \<Rightarrow> BIO_TYPE_BIO)"

partial_function (option) find_type :: "bios \<Rightarrow> u32 \<Rightarrow> nat \<Rightarrow> nat option" where
  "find_type B type a =
     (case B a of
        None \<Rightarrow> None
      | Some bio \<Rightarrow>
          if (if type AND 0xff = 0 then BIO_method_type bio AND type \<noteq> 0 else BIO_method_type bio = type) then Some a
          else if bio_next bio = 0 then Some 0
          else find_type B type (bio_next bio))"

declare find_type.simps [code]

definition BIO_find_type :: "bios \<Rightarrow> nat \<Rightarrow> u32 \<Rightarrow> nat option" where
  "BIO_find_type B a type = (if a = 0 then Some 0 else find_type B type a)"

definition BIO_copy_next_retry :: "bios \<Rightarrow> nat \<Rightarrow> bios option" where
  "BIO_copy_next_retry B a =
     do { bio \<leftarrow> B a;
          nb \<leftarrow> B (bio_next bio);
          Some (B(a := Some ((BIO_set_flags (BIO_clear_retry_flags bio) (BIO_get_retry_flags nb))\<lparr>bio_retry_reason := bio_retry_reason nb\<rparr>))) }"

section \<open>Input and output\<close>

definition bread :: "bios \<Rightarrow> nat \<Rightarrow> int \<Rightarrow> (int \<times> byte list \<times> bios) option" where
  "bread B a len =
     do { bio \<leftarrow> B a;
          case bio_method bio of
            Mem_method \<Rightarrow> do { (ret, out, bio1) \<leftarrow> mem_read bio len; Some (ret, out, B(a := Some bio1)) }
          | Pair_method \<Rightarrow> bio_read B a (nat len) }"

definition bwrite :: "allocator \<Rightarrow> bios \<Rightarrow> nat \<Rightarrow> byte list \<Rightarrow> (int \<times> bios) option" where
  "bwrite al B a bs =
     do { bio \<leftarrow> B a;
          case bio_method bio of
            Mem_method \<Rightarrow> do { (ret, bio1) \<leftarrow> mem_write_bio al bio bs; Some (ret, B(a := Some bio1)) }
          | Pair_method \<Rightarrow> bio_write B a bs }"

definition count_read :: "int \<Rightarrow> bio \<Rightarrow> bio" where
  "count_read ret bio = (if ret > 0 then bio\<lparr>bio_num_read := size_wrap (bio_num_read bio + nat ret)\<rparr> else bio)"

definition count_write :: "int \<Rightarrow> bio \<Rightarrow> bio" where
  "count_write ret bio = (if ret > 0 then bio\<lparr>bio_num_write := size_wrap (bio_num_write bio + nat ret)\<rparr> else bio)"

definition BIO_read :: "bios \<Rightarrow> nat \<Rightarrow> int \<Rightarrow> (int \<times> byte list \<times> bios) option" where
  "BIO_read B a len =
     (if a = 0 then Some (-2, [], B)
      else do {
        bio \<leftarrow> B a;
        if \<not> bio_init bio then Some (-2, [], B)
        else if len \<le> 0 then Some (0, [], B)
        else do { (ret, out, B1) \<leftarrow> bread B a len; Some (ret, out, upd B1 a (count_read ret)) } })"

text \<open>A pair has no method for lines.\<close>

definition BIO_gets :: "bios \<Rightarrow> nat \<Rightarrow> int \<Rightarrow> (int \<times> byte list \<times> bios) option" where
  "BIO_gets B a len =
     (if a = 0 then Some (-2, [], B)
      else do {
        bio \<leftarrow> B a;
        if bio_method bio = Pair_method \<or> \<not> bio_init bio then Some (-2, [], B)
        else if len \<le> 0 then Some (0, [], B)
        else do { (ret, out, bio1) \<leftarrow> mem_gets bio len; Some (ret, out, upd (B(a := Some bio1)) a (count_read ret)) } })"

text \<open>The caller's buffer has \<open>inl\<close> bytes or more.\<close>

definition BIO_write :: "allocator \<Rightarrow> bios \<Rightarrow> nat \<Rightarrow> byte list \<Rightarrow> int \<Rightarrow> (int \<times> bios) option" where
  "BIO_write al B a bs inl =
     (if a = 0 then Some (-2, B)
      else do {
        bio \<leftarrow> B a;
        if \<not> bio_init bio then Some (-2, B)
        else if inl \<le> 0 then Some (0, B)
        else do { (ret, B1) \<leftarrow> bwrite al B a (take (nat inl) bs); Some (ret, upd B1 a (count_write ret)) } })"

primrec write_all_loop :: "nat \<Rightarrow> allocator \<Rightarrow> bios \<Rightarrow> nat \<Rightarrow> byte list \<Rightarrow> (bool \<times> bios) option" where
  "write_all_loop 0 al B a bs = (if bs = [] then Some (True, B) else None)"
| "write_all_loop (Suc n) al B a bs =
     (if bs = [] then Some (True, B)
      else do {
        (ret, B1) \<leftarrow> BIO_write al B a bs (if int (length bs) > INT_MAX then INT_MAX else int (length bs));
        if ret \<le> 0 then Some (False, B1) else write_all_loop n al B1 a (drop (nat ret) bs) })"

definition BIO_write_all :: "allocator \<Rightarrow> bios \<Rightarrow> nat \<Rightarrow> byte list \<Rightarrow> (bool \<times> bios) option" where
  "BIO_write_all al B a bs = write_all_loop (length bs) al B a bs"

definition BIO_puts :: "allocator \<Rightarrow> bios \<Rightarrow> nat \<Rightarrow> byte list \<Rightarrow> (int \<times> bios) option" where
  "BIO_puts al B a str = (let s = takeWhile (\<lambda>c. c \<noteq> 0) str in BIO_write al B a s (c_int (int (length s))))"

primrec indent_loop :: "nat \<Rightarrow> allocator \<Rightarrow> bios \<Rightarrow> nat \<Rightarrow> (bool \<times> bios) option" where
  "indent_loop 0 al B a = Some (True, B)"
| "indent_loop (Suc n) al B a =
     do { (ret, B1) \<leftarrow> BIO_puts al B a [0x20, 0]; if ret \<noteq> 1 then Some (False, B1) else indent_loop n al B1 a }"

definition BIO_indent :: "allocator \<Rightarrow> bios \<Rightarrow> nat \<Rightarrow> nat \<Rightarrow> nat \<Rightarrow> (bool \<times> bios) option" where
  "BIO_indent al B a indent max_indent = indent_loop (if indent > max_indent then max_indent else indent) al B a"

section \<open>Control\<close>

datatype bio_arg = Null_arg | Bio_arg nat | Buf_arg buf_mem

definition BIO_ctrl :: "bios \<Rightarrow> nat \<Rightarrow> int \<Rightarrow> int \<Rightarrow> bio_arg \<Rightarrow> (int \<times> bios) option" where
  "BIO_ctrl B a cmd larg parg =
     (if a = 0 then Some (0, B)
      else do {
        bio \<leftarrow> B a;
        case bio_method bio of
          Mem_method \<Rightarrow> do { (ret, bio1) \<leftarrow> mem_ctrl bio cmd larg (case parg of Buf_arg b \<Rightarrow> Mem_data b | _ \<Rightarrow> Null_data);
                             Some (ret, B(a := Some bio1)) }
        | Pair_method \<Rightarrow> bio_ctrl B a cmd larg (case parg of Bio_arg p \<Rightarrow> p | _ \<Rightarrow> 0) })"

definition BIO_flush :: "bios \<Rightarrow> nat \<Rightarrow> (int \<times> bios) option" where
  "BIO_flush B a = BIO_ctrl B a BIO_CTRL_FLUSH 0 Null_arg"

definition BIO_reset :: "bios \<Rightarrow> nat \<Rightarrow> (int \<times> bios) option" where
  "BIO_reset B a = BIO_ctrl B a BIO_CTRL_RESET 0 Null_arg"

definition BIO_eof :: "bios \<Rightarrow> nat \<Rightarrow> (int \<times> bios) option" where
  "BIO_eof B a = BIO_ctrl B a BIO_CTRL_EOF 0 Null_arg"

definition BIO_pending :: "bios \<Rightarrow> nat \<Rightarrow> nat option" where
  "BIO_pending B a = do { (r, _) \<leftarrow> BIO_ctrl B a BIO_CTRL_PENDING 0 Null_arg; if r < 0 then None else Some (nat r) }"

definition BIO_ctrl_pending :: "bios \<Rightarrow> nat \<Rightarrow> nat option" where
  "BIO_ctrl_pending B a = BIO_pending B a"

definition BIO_wpending :: "bios \<Rightarrow> nat \<Rightarrow> nat option" where
  "BIO_wpending B a = do { (r, _) \<leftarrow> BIO_ctrl B a BIO_CTRL_WPENDING 0 Null_arg; if r < 0 then None else Some (nat r) }"

definition BIO_set_close :: "bios \<Rightarrow> nat \<Rightarrow> int \<Rightarrow> (int \<times> bios) option" where
  "BIO_set_close B a close_flag = BIO_ctrl B a BIO_CTRL_SET_CLOSE close_flag Null_arg"

definition BIO_number_read :: "bio \<Rightarrow> nat" where "BIO_number_read bio = bio_num_read bio"
definition BIO_number_written :: "bio \<Rightarrow> nat" where "BIO_number_written bio = bio_num_write bio"

section \<open>Memory BIOs and pairs\<close>

text \<open>The length of the text is computed before the pointer is tested.\<close>

definition BIO_new_mem_buf :: "allocator \<Rightarrow> (bios \<Rightarrow> nat) \<Rightarrow> bios \<Rightarrow> byte list option \<Rightarrow> int \<Rightarrow> (nat \<times> bios) option" where
  "BIO_new_mem_buf al fresh B buf len =
     do { n \<leftarrow> (if len < 0 then map_option (\<lambda>s. length (takeWhile (\<lambda>c. c \<noteq> 0) s)) buf else Some (nat len));
          if buf = None \<and> len \<noteq> 0 then Some (0, B)
          else case BIO_new al fresh Mem_method B of
            (a, B1) \<Rightarrow>
              if a = 0 then Some (0, B1)
              else do {
                bio \<leftarrow> B1 a;
                b \<leftarrow> mem_data bio;
                let b1 = b\<lparr>bm_data := map_option (take n) buf, bm_length := n, bm_max := n\<rparr>;
                let bio1 = bio\<lparr>bio_ptr := Mem_data b1, bio_flags := bio_flags bio OR BIO_FLAGS_MEM_RDONLY, bio_num := 0\<rparr>;
                Some (a, B1(a := Some bio1)) } }"

definition BIO_mem_contents :: "bio \<Rightarrow> (byte list \<times> nat) option option" where
  "BIO_mem_contents bio =
     (if bio_method bio \<noteq> Mem_method then Some None else do { b \<leftarrow> mem_data bio; Some (Some (bm_bytes b, bm_length b)) })"

definition BIO_get_mem_data :: "bios \<Rightarrow> nat \<Rightarrow> (int \<times> bios) option" where
  "BIO_get_mem_data B a = BIO_ctrl B a BIO_CTRL_INFO 0 Null_arg"

definition BIO_set_mem_buf :: "bios \<Rightarrow> nat \<Rightarrow> buf_mem \<Rightarrow> int \<Rightarrow> (int \<times> bios) option" where
  "BIO_set_mem_buf B a b take_ownership = BIO_ctrl B a BIO_C_SET_BUF_MEM take_ownership (Buf_arg b)"

definition BIO_set_mem_eof_return :: "bios \<Rightarrow> nat \<Rightarrow> int \<Rightarrow> (int \<times> bios) option" where
  "BIO_set_mem_eof_return B a eof_value = BIO_ctrl B a BIO_C_SET_BUF_MEM_EOF_RETURN eof_value Null_arg"

definition BIO_new_bio_pair :: "allocator \<Rightarrow> (bios \<Rightarrow> nat) \<Rightarrow> bios \<Rightarrow> nat \<Rightarrow> nat \<Rightarrow> (bool \<times> nat \<times> nat \<times> bios) option" where
  "BIO_new_bio_pair al fresh B len1 len2 =
     (case BIO_new al fresh Pair_method B of
        (a1, B1) \<Rightarrow> (case BIO_new al fresh Pair_method B1 of
          (a2, B2) \<Rightarrow>
            do { (ok, B3) \<leftarrow> (if a1 = 0 \<or> a2 = 0 then Some (False, B2) else bio_make_pair al B2 a1 a2 len1 len2);
                 if ok then Some (True, a1, a2, B3)
                 else do { (_, B4) \<leftarrow> BIO_free a1 B3;
                           (_, B5) \<leftarrow> BIO_free a2 B4;
                           Some (False, 0, 0, B5) } }))"

definition BIO_ctrl_get_read_request :: "bios \<Rightarrow> nat \<Rightarrow> (int \<times> bios) option" where
  "BIO_ctrl_get_read_request B a = BIO_ctrl B a BIO_C_GET_READ_REQUEST 0 Null_arg"

definition BIO_ctrl_get_write_guarantee :: "bios \<Rightarrow> nat \<Rightarrow> (int \<times> bios) option" where
  "BIO_ctrl_get_write_guarantee B a = BIO_ctrl B a BIO_C_GET_WRITE_GUARANTEE 0 Null_arg"

definition BIO_shutdown_wr :: "bios \<Rightarrow> nat \<Rightarrow> (int \<times> bios) option" where
  "BIO_shutdown_wr B a = BIO_ctrl B a BIO_C_SHUTDOWN_WR 0 Null_arg"

end
