(* ===== verification/Bio_Reach.thy ===== *)
theory Bio_Reach
  imports Bio
begin

text \<open>
  The store of BIOs under every sequence of calls: an invariant that every call keeps and under which no assertion of the
  code fails, and the two queues of a pair.  Chains of BIOs (\<open>BIO_push\<close>) are left out: every BIO is a chain of one.
\<close>

section \<open>The invariant\<close>

definition half_ok :: "bios \<Rightarrow> nat \<Rightarrow> bio \<Rightarrow> bio_bio \<Rightarrow> bool" where
  "half_ok B a bio b \<longleftrightarrow>
     (if bb_peer b = 0 then \<not> bio_init bio
      else bio_init bio \<and> ring_ok b \<and> bb_peer b \<noteq> a \<and>
        (\<exists>pbio pb. B (bb_peer b) = Some pbio \<and> bio_method pbio = Pair_method \<and> bio_ptr pbio = Pair_data pb \<and> bb_peer pb = a))"

definition obj_ok :: "bios \<Rightarrow> nat \<Rightarrow> bio \<Rightarrow> bool" where
  "obj_ok B a bio \<longleftrightarrow> 0 < bio_references bio \<and> bio_references bio \<le> CRYPTO_REFCOUNT_MAX \<and> bio_next bio = 0 \<and>
     (case bio_method bio of
        Mem_method \<Rightarrow> mem_ok bio
      | Pair_method \<Rightarrow> \<exists>b. bio_ptr bio = Pair_data b \<and> half_ok B a bio b)"

definition store_ok :: "bios \<Rightarrow> bool" where
  "store_ok B \<longleftrightarrow> B 0 = None \<and> (\<forall>a bio. B a = Some bio \<longrightarrow> obj_ok B a bio)"

lemma store_okD: "store_ok B \<Longrightarrow> B a = Some bio \<Longrightarrow> obj_ok B a bio"
  by (simp add: store_ok_def)

section \<open>Changes that keep the shape\<close>

definition keeps_ptr :: "bio_ptr \<Rightarrow> bio_ptr \<Rightarrow> bool" where
  "keeps_ptr p q \<longleftrightarrow> (\<forall>b. p = Pair_data b \<longrightarrow> (\<exists>c. q = Pair_data c \<and> bb_peer c = bb_peer b \<and> (ring_ok b \<longrightarrow> ring_ok c)))"

definition keeps :: "bio \<Rightarrow> bio \<Rightarrow> bool" where
  "keeps bio bio1 \<longleftrightarrow> bio_method bio1 = bio_method bio \<and> bio_init bio1 = bio_init bio \<and> bio_references bio1 = bio_references bio \<and>
     bio_next bio1 = bio_next bio \<and> (mem_ok bio \<longrightarrow> mem_ok bio1) \<and> keeps_ptr (bio_ptr bio) (bio_ptr bio1)"

definition keeps_store :: "bios \<Rightarrow> bios \<Rightarrow> bool" where
  "keeps_store B B1 \<longleftrightarrow> (\<forall>a. rel_option keeps (B a) (B1 a))"

lemma keeps_ptr_refl [simp]: "keeps_ptr p p"
  by (simp add: keeps_ptr_def)

lemma keeps_refl [simp]: "keeps bio bio"
  by (simp add: keeps_def)

lemma keeps_ptr_trans: "keeps_ptr p q \<Longrightarrow> keeps_ptr q r \<Longrightarrow> keeps_ptr p r"
  unfolding keeps_ptr_def by fastforce

lemma keeps_trans: "keeps a b \<Longrightarrow> keeps b c \<Longrightarrow> keeps a c"
  by (simp add: keeps_def keeps_ptr_trans [of _ "bio_ptr b"])

lemma keeps_store_refl [simp]: "keeps_store B B"
  by (simp add: keeps_store_def option.rel_refl)

lemma keeps_store_trans: "keeps_store A B \<Longrightarrow> keeps_store B C \<Longrightarrow> keeps_store A C"
proof (unfold keeps_store_def, rule allI)
  fix a
  assume "\<forall>a. rel_option keeps (A a) (B a)" "\<forall>a. rel_option keeps (B a) (C a)"
  then have "rel_option keeps (A a) (B a)" "rel_option keeps (B a) (C a)" by blast+
  then show "rel_option keeps (A a) (C a)" by (cases "A a"; cases "B a"; cases "C a") (auto intro: keeps_trans)
qed

lemma keeps_storeD:
  assumes "keeps_store B B1" and "B1 a = Some bio1"
  obtains bio where "B a = Some bio" "keeps bio bio1"
  using assms unfolding keeps_store_def by (metis option_rel_Some2)

lemma keeps_storeD2:
  assumes "keeps_store B B1" and "B a = Some bio"
  obtains bio1 where "B1 a = Some bio1" "keeps bio bio1"
  using assms unfolding keeps_store_def by (metis option_rel_Some1)

lemma store_ok_keeps:
  assumes "store_ok B" and "keeps_store B B1"
  shows "store_ok B1"
proof -
  have "obj_ok B1 a bio1" if b1: "B1 a = Some bio1" for a bio1
  proof -
    obtain bio where bio: "B a = Some bio" "keeps bio bio1" by (rule keeps_storeD [OF assms(2) b1])
    note o = store_okD [OF assms(1) bio(1)]
    show ?thesis
    proof (cases "bio_method bio")
      case Mem_method
      then show ?thesis using o bio(2) by (simp add: obj_ok_def keeps_def)
    next
      case Pair_method
      then obtain b where b: "bio_ptr bio = Pair_data b" "half_ok B a bio b" using o by (auto simp: obj_ok_def)
      then obtain c where c: "bio_ptr bio1 = Pair_data c" "bb_peer c = bb_peer b" "ring_ok b \<longrightarrow> ring_ok c"
        using bio(2) by (auto simp: keeps_def keeps_ptr_def)
      have "half_ok B1 a bio1 c"
      proof (cases "bb_peer b = 0")
        case True
        then show ?thesis using b(2) c bio(2) by (simp add: half_ok_def keeps_def)
      next
        case False
        with b(2) obtain pbio pb where p: "B (bb_peer b) = Some pbio" "bio_method pbio = Pair_method" "bio_ptr pbio = Pair_data pb" "bb_peer pb = a"
          by (auto simp: half_ok_def)
        obtain pbio1 where "B1 (bb_peer b) = Some pbio1" "keeps pbio pbio1" by (rule keeps_storeD2 [OF assms(2) p(1)])
        with p show ?thesis using False b(2) c bio(2) by (auto simp: half_ok_def keeps_def keeps_ptr_def)
      qed
      then show ?thesis using o bio(2) Pair_method c(1) by (simp add: obj_ok_def keeps_def)
    qed
  qed
  moreover have "B1 0 = None" using assms by (metis keeps_storeD not_None_eq store_ok_def)
  ultimately show ?thesis by (simp add: store_ok_def)
qed

lemma keeps_store_upd: "(\<And>bio. B a = Some bio \<Longrightarrow> keeps bio (f bio)) \<Longrightarrow> keeps_store B (upd B a f)"
  by (auto simp: keeps_store_def upd_def option.rel_map option.rel_refl rel_option_iff split: option.splits)

lemma keeps_store_set:
  assumes "B a = Some bio" and "keeps bio bio1"
  shows "keeps_store B (B(a := Some bio1))"
  using assms by (simp add: keeps_store_def option.rel_refl)

lemma keeps_same_bio: "same_bio bio bio1 \<Longrightarrow> (mem_ok bio \<Longrightarrow> mem_ok bio1) \<Longrightarrow> keeps_ptr (bio_ptr bio) (bio_ptr bio1) \<Longrightarrow> keeps bio bio1"
  by (simp add: keeps_def same_bio_def)

lemma keeps_flags [simp]:
  "keeps bio (BIO_clear_retry_flags bio)" "keeps bio (BIO_set_retry_read bio)" "keeps bio (BIO_set_retry_write bio)"
  "keeps bio (count_read r bio)" "keeps bio (count_write r bio)"
proof -
  have w: "mem_rdonly (BIO_set_retry_write bio) = mem_rdonly bio"
  proof -
    have "(BIO_FLAGS_WRITE OR BIO_FLAGS_SHOULD_RETRY) AND BIO_FLAGS_MEM_RDONLY = 0" by code_simp
    then show ?thesis by (simp add: mem_rdonly_def BIO_set_retry_write_def bit.conj_disj_distrib2)
  qed
  have "mem_ok bio \<Longrightarrow> mem_ok (BIO_clear_retry_flags bio)" "mem_ok bio \<Longrightarrow> mem_ok (BIO_set_retry_read bio)"
    by (simp_all add: mem_ok_def)
  moreover have "mem_ok bio \<Longrightarrow> mem_ok (BIO_set_retry_write bio)" unfolding mem_ok_def w by (simp add: BIO_set_retry_write_def)
  ultimately show "keeps bio (BIO_clear_retry_flags bio)" "keeps bio (BIO_set_retry_read bio)" "keeps bio (BIO_set_retry_write bio)"
    by (simp_all add: keeps_def) (simp_all add: BIO_clear_retry_flags_def BIO_set_retry_read_def BIO_set_retry_write_def)
  show "keeps bio (count_read r bio)" "keeps bio (count_write r bio)"
    by (simp_all add: keeps_def count_read_def count_write_def mem_ok_def mem_rdonly_def)
qed

lemma ptr_flags [simp]:
  "bio_ptr (BIO_set_retry_write bio) = bio_ptr bio" "bio_ptr (count_read r bio) = bio_ptr bio" "bio_ptr (count_write r bio) = bio_ptr bio"
  by (simp_all add: BIO_set_retry_write_def count_read_def count_write_def)

lemma half_upd: "(\<And>bio. bio_ptr (f bio) = bio_ptr bio) \<Longrightarrow> half (upd B a f) c = half B c"
  by (cases "B c") (auto simp: half_def upd_def)

lemma half_set_half: "half B a \<noteq> None \<Longrightarrow> half (set_half B a b) c = (if c = a then Some b else half B c)"
  by (cases "B a") (auto simp: half_def set_half_def upd_def)

lemma keeps_set_half:
  assumes "half B a = Some b" and "bb_peer c = bb_peer b" and "ring_ok b \<Longrightarrow> ring_ok c"
  shows "keeps_store B (set_half B a c)"
  unfolding set_half_def
proof (rule keeps_store_upd)
  fix bio
  assume "B a = Some bio"
  with assms(1) have "bio_ptr bio = Pair_data b" by (auto simp: half_def split: bio_ptr.splits)
  with assms(2,3) show "keeps bio (bio\<lparr>bio_ptr := Pair_data c\<rparr>)" by (auto simp: keeps_def keeps_ptr_def mem_ok_def)
qed

section \<open>The queues of a pair\<close>

definition queue :: "bios \<Rightarrow> nat \<Rightarrow> byte list" where
  "queue B a = (case half B a of None \<Rightarrow> [] | Some b \<Rightarrow> ring_bytes b)"

text \<open>\<open>a\<close> reads what \<open>p\<close> writes.\<close>

definition joined :: "bios \<Rightarrow> nat \<Rightarrow> nat \<Rightarrow> bool" where
  "joined B a p \<longleftrightarrow> p \<noteq> 0 \<and> (\<exists>bio b. B a = Some bio \<and> bio_method bio = Pair_method \<and> bio_ptr bio = Pair_data b \<and> bb_peer b = p)"

lemma joinedE:
  assumes "store_ok B" and "joined B a p"
  obtains bio b pbio pb where "B a = Some bio" "bio_method bio = Pair_method" "bio_init bio" "half B a = Some b" "bb_peer b = p" "ring_ok b"
    "B p = Some pbio" "bio_method pbio = Pair_method" "half B p = Some pb" "bb_peer pb = a" "ring_ok pb" "a \<noteq> p" "a \<noteq> 0" "p \<noteq> 0" "bio_init pbio"
proof -
  from assms(2) obtain bio b where b: "p \<noteq> 0" "B a = Some bio" "bio_method bio = Pair_method" "bio_ptr bio = Pair_data b" "bb_peer b = p"
    unfolding joined_def by blast
  with store_okD [OF assms(1) b(2)] have h: "half_ok B a bio b" by (simp add: obj_ok_def)
  with b obtain pbio pb where p: "B p = Some pbio" "bio_method pbio = Pair_method" "bio_ptr pbio = Pair_data pb" "bb_peer pb = a"
    by (auto simp: half_ok_def)
  have "a \<noteq> 0" using assms(1) b(2) unfolding store_ok_def by (metis option.distinct(1))
  with store_okD [OF assms(1) p(1)] p have "half_ok B p pbio pb" "bb_peer pb \<noteq> 0" by (simp_all add: obj_ok_def)
  then show thesis using b h p \<open>a \<noteq> 0\<close>
    by (intro that [of bio b pbio pb]) (auto simp: half_ok_def half_def)
qed

lemma joined_sym: "store_ok B \<Longrightarrow> joined B a p \<Longrightarrow> joined B p a"
  by (erule (1) joinedE) (auto simp: joined_def half_def split: bio_ptr.splits)

lemma joined_keeps:
  assumes "joined B a p" and "keeps_store B B1"
  shows "joined B1 a p"
proof -
  from assms(1) obtain bio b where b: "p \<noteq> 0" "B a = Some bio" "bio_method bio = Pair_method" "bio_ptr bio = Pair_data b" "bb_peer b = p"
    unfolding joined_def by blast
  obtain bio1 where "B1 a = Some bio1" "keeps bio bio1" by (rule keeps_storeD2 [OF assms(2) b(2)])
  with b show ?thesis by (auto simp: joined_def keeps_def keeps_ptr_def)
qed

text \<open>A call changes the queue of \<open>q\<close> only as said.\<close>

definition moves :: "bios \<Rightarrow> nat \<Rightarrow> byte list \<Rightarrow> byte list \<Rightarrow> bios \<Rightarrow> bool" where
  "moves B q taken added B1 \<longleftrightarrow> keeps_store B B1 \<and> queue B q @ added = taken @ queue B1 q \<and> (\<forall>c. c \<noteq> q \<longrightarrow> queue B1 c = queue B c)"

lemma queue_half: "half B a = half B1 a \<Longrightarrow> queue B1 a = queue B a"
  by (simp add: queue_def)

lemma moves_upd:
  assumes "moves B q taken added B1" and "\<And>bio. keeps bio (f bio)" and "\<And>bio. bio_ptr (f bio) = bio_ptr bio"
  shows "moves B q taken added (upd B1 a f)"
proof -
  have "keeps_store B (upd B1 a f)"
    using assms(1) keeps_store_trans [OF _ keeps_store_upd [of B1 a f, OF assms(2)]] by (simp add: moves_def)
  then show ?thesis using assms(1) half_upd [of f B1 a, OF assms(3)] by (simp add: moves_def queue_def)
qed

lemma moves_set_half:
  assumes "keeps_store B B0" and "\<And>c. half B0 c = half B c" and "half B q = Some b"
    and "bb_peer b1 = bb_peer b" and "ring_ok b \<Longrightarrow> ring_ok b1" and "ring_bytes b @ added = taken @ ring_bytes b1"
  shows "moves B q taken added (set_half B0 q b1)"
proof -
  have h: "half B0 q = Some b" using assms(2,3) by simp
  have "keeps_store B (set_half B0 q b1)"
    using keeps_store_trans [OF assms(1) keeps_set_half [OF h assms(4,5)]] .
  then show ?thesis using assms(2,3,6) half_set_half [of B0 q b1] h by (simp add: moves_def queue_def)
qed

lemma moves_nothing: "keeps_store B B1 \<Longrightarrow> (\<And>c. half B1 c = half B c) \<Longrightarrow> moves B q [] [] B1"
  by (simp add: moves_def queue_def)

definition closed :: "bios \<Rightarrow> nat \<Rightarrow> bool" where
  "closed B a = (case half B a of None \<Rightarrow> False | Some b \<Rightarrow> bb_closed b)"

definition capacity :: "bios \<Rightarrow> nat \<Rightarrow> nat" where
  "capacity B a = (case half B a of None \<Rightarrow> 0 | Some b \<Rightarrow> bb_size b)"

lemma ring_request [simp]: "ring_ok (b\<lparr>bb_request := r\<rparr>) = ring_ok b" "ring_bytes (b\<lparr>bb_request := r\<rparr>) = ring_bytes b"
  by (cases "bb_buf b"; simp add: ring_ok_def ring_bytes_def)+

lemma clear_store:
  shows "keeps_store B (upd B a BIO_clear_retry_flags)" and "half (upd B a BIO_clear_retry_flags) c = half B c"
  using keeps_store_upd [of B a BIO_clear_retry_flags] half_upd [of BIO_clear_retry_flags B a c] by simp_all

lemma bio_read_exact:
  assumes "store_ok B" and "joined B a p" and "0 < n"
  shows "\<exists>r out B1. bio_read B a n = Some (r, out, B1) \<and> moves B p out [] B1 \<and>
    (if queue B p = [] then out = [] \<and> r = (if closed B p then 0 else -1) else out = take n (queue B p) \<and> r = int (length out))"
proof -
  obtain bio b pbio pb where j: "B a = Some bio" "bio_method bio = Pair_method" "bio_init bio" "half B a = Some b" "bb_peer b = p" "ring_ok b"
    "B p = Some pbio" "bio_method pbio = Pair_method" "half B p = Some pb" "bb_peer pb = a" "ring_ok pb" "a \<noteq> p" "a \<noteq> 0" "p \<noteq> 0" "bio_init pbio"
    using assms(1,2) by (rule joinedE)
  let ?B = "upd B a BIO_clear_retry_flags"
  let ?pb = "pb\<lparr>bb_request := 0\<rparr>"
  from j(11) obtain blk where r: "bb_buf pb = Some blk" "length (ring_bytes pb) = bb_len pb" by (rule ring_okE) blast
  have q: "queue B p = ring_bytes pb" "closed B p = bb_closed pb" using j(9) by (simp_all add: queue_def closed_def)
  note E = bio_read_def [of B a n, unfolded j(1) Let_def clear_store(2) j(4), simplified, unfolded j(5,9), simplified]
  show ?thesis
  proof (cases "bb_len pb = 0")
    case True
    show ?thesis
    proof (cases "bb_closed pb")
      case c: True
      have "moves B p [] [] (set_half ?B p ?pb)"
        by (rule moves_set_half [OF clear_store j(9)]) simp_all
      then show ?thesis using True c r q j assms(3) by (simp add: E)
    next
      case False
      let ?B1 = "upd ?B a BIO_set_retry_read"
      let ?pb1 = "?pb\<lparr>bb_request := (if n \<le> bb_size pb then n else bb_size pb)\<rparr>"
      have "keeps_store B ?B1" "half ?B1 c = half B c" for c
        using keeps_store_trans [OF clear_store(1) keeps_store_upd [of ?B a BIO_set_retry_read]] half_upd [of BIO_set_retry_read ?B a c] clear_store(2)
        by simp_all
      from moves_set_half [OF this j(9), of ?pb1 "[]" "[]"] have "moves B p [] [] (set_half ?B1 p ?pb1)" by simp
      then show ?thesis using True False r q j assms(3) by (auto simp: E)
    qed
  next
    case False
    define m where "m = (if bb_len pb < n then bb_len pb else n)"
    have m: "0 < m" "m \<le> bb_len ?pb" using False assms(3) by (auto simp: m_def)
    have ok: "ring_ok ?pb" using j(11) by simp
    from ring_read_exact [OF ok m] obtain pb1 where p1: "ring_read m m ?pb = Some (take m (ring_bytes pb), pb1)" "ring_ok pb1"
      "ring_bytes pb1 = drop m (ring_bytes pb)" "bb_peer pb1 = bb_peer pb" by auto
    have "moves B p (take m (ring_bytes pb)) [] (set_half ?B p pb1)"
      by (rule moves_set_half [OF clear_store j(9)]) (simp_all add: p1)
    moreover have "take m (ring_bytes pb) = take n (ring_bytes pb)" "length (take n (ring_bytes pb)) = m"
      using r(2) by (simp_all add: m_def)
    moreover have "ring_bytes pb \<noteq> []" using False r(2) by auto
    moreover have "bio_read B a n = Some (int m, take m (ring_bytes pb), set_half ?B p pb1)"
      using False r j assms(3) p1(1) by (cases "bb_len pb < n") (simp_all add: E m_def)
    ultimately show ?thesis using q by simp
  qed
qed

lemma bio_write_exact:
  assumes "store_ok B" and "joined B a p" and "bs \<noteq> []"
  shows "\<exists>r B1. bio_write B a bs = Some (r, B1) \<and> moves B a [] (take (nat r) bs) B1 \<and>
    r = (if closed B a \<or> length (queue B a) = capacity B a then -1 else int (min (length bs) (capacity B a - length (queue B a))))"
proof -
  obtain bio b pbio pb where j: "B a = Some bio" "bio_method bio = Pair_method" "bio_init bio" "half B a = Some b" "bb_peer b = p" "ring_ok b"
    "B p = Some pbio" "bio_method pbio = Pair_method" "half B p = Some pb" "bb_peer pb = a" "ring_ok pb" "a \<noteq> p" "a \<noteq> 0" "p \<noteq> 0" "bio_init pbio"
    using assms(1,2) by (rule joinedE)
  let ?B = "upd B a BIO_clear_retry_flags"
  let ?b = "b\<lparr>bb_request := 0\<rparr>"
  from j(6) obtain blk where r: "bb_buf b = Some blk" "length (ring_bytes b) = bb_len b" "bb_len b \<le> bb_size b" by (rule ring_okE) blast
  have q: "queue B a = ring_bytes b" "closed B a = bb_closed b" "capacity B a = bb_size b" using j(4) by (simp_all add: queue_def closed_def capacity_def)
  have m0: "moves B a [] [] (set_half ?B a ?b)" by (rule moves_set_half [OF clear_store j(4)]) simp_all
  note E = bio_write_def [of B a bs, unfolded j(1) Let_def clear_store(2) j(4), simplified]
  consider "bb_closed b" | "\<not> bb_closed b" "bb_len b = bb_size b" | "\<not> bb_closed b" "bb_len b < bb_size b" using r(3) by linarith
  then show ?thesis
  proof cases
    case 1
    then show ?thesis using m0 r q j assms(3) by (simp add: E)
  next
    case 2
    have "moves B a [] [] (upd (set_half ?B a ?b) a BIO_set_retry_write)" by (rule moves_upd [OF m0]) simp_all
    then show ?thesis using 2 r q j assms(3) by (simp add: E)
  next
    case 3
    define n where "n = min (length bs) (bb_size b - bb_len b)"
    have n: "take n bs \<noteq> []" "length (take n bs) = n" "n \<le> bb_size ?b - bb_len ?b" using 3(2) assms(3) by (auto simp: n_def)
    have ok: "ring_ok ?b" using j(6) by simp
    from ring_write_exact [OF ok n(1)] n(2,3) obtain b1 where b1: "ring_write n (take n bs) ?b = Some b1" "ring_ok b1"
      "ring_bytes b1 = ring_bytes b @ take n bs" "bb_peer b1 = bb_peer b" by auto
    have h: "half (set_half ?B a ?b) a = Some ?b" using j(4) by (simp add: half_set_half clear_store)
    have "set_half (set_half ?B a ?b) a b1 = set_half ?B a b1"
      using j(1) by (simp add: set_half_def upd_def fun_eq_iff)
    moreover have "moves B a [] (take n bs) (set_half ?B a b1)"
      by (rule moves_set_half [OF clear_store j(4)]) (simp_all add: b1)
    moreover have "bio_write B a bs = Some (int n, set_half (set_half ?B a ?b) a b1)"
      using 3 r j assms(3) b1(1) unfolding E n_def by simp
    ultimately show ?thesis using q r(2) 3 by (simp add: n_def)
  qed
qed

end
