(* ===== verification/Bio_Io.thy ===== *)
theory Bio_Io
  imports Bio_Reach
begin

text \<open>
  Input, output and control on any BIO of the store: every call is defined, keeps the invariant, and changes the queues
  of the pairs only as its event says; from this the stream of bytes of a pair under any interleaving of calls.
\<close>

section \<open>Events\<close>

datatype io_event = Wrote nat "byte list" | Got nat "byte list" | Quiet

fun wrote_to :: "nat \<Rightarrow> io_event \<Rightarrow> byte list" where
  "wrote_to p (Wrote a bs) = (if a = p then bs else [])"
| "wrote_to p _ = []"

fun got_from :: "nat \<Rightarrow> io_event \<Rightarrow> byte list" where
  "got_from a (Got c bs) = (if c = a then bs else [])"
| "got_from a _ = []"

definition effect :: "bios \<Rightarrow> io_event \<Rightarrow> bios \<Rightarrow> bool" where
  "effect B ev B1 \<longleftrightarrow> keeps_store B B1 \<and> (\<forall>a p. joined B a p \<longrightarrow> queue B p @ wrote_to p ev = got_from a ev @ queue B1 p)"

lemma joined_unique: "joined B a p \<Longrightarrow> joined B a q \<Longrightarrow> p = q"
  by (auto simp: joined_def)

lemma joined_unique2: "store_ok B \<Longrightarrow> joined B a p \<Longrightarrow> joined B c p \<Longrightarrow> a = c"
  using joined_unique joined_sym by blast

lemma effect_read: "store_ok B \<Longrightarrow> joined B a p \<Longrightarrow> moves B p out [] B1 \<Longrightarrow> effect B (Got a out) B1"
  unfolding effect_def moves_def using joined_unique joined_unique2 by fastforce

lemma effect_write: "store_ok B \<Longrightarrow> joined B a p \<Longrightarrow> moves B a [] bs B1 \<Longrightarrow> effect B (Wrote a bs) B1"
  unfolding effect_def moves_def by fastforce

lemma effect_same: "keeps_store B B1 \<Longrightarrow> (\<And>c. queue B1 c = queue B c) \<Longrightarrow> effect B Quiet B1"
  by (simp add: effect_def)

lemma effect_refl: "effect B (Got a []) B" "effect B (Wrote a []) B" "effect B Quiet B"
  by (simp_all add: effect_def)

text \<open>A memory BIO is not part of a pair.\<close>

lemma mem_queue:
  assumes "B a = Some bio" and "bio_method bio = Mem_method" and "store_ok B" and "keeps bio bio1"
  shows "queue (B(a := Some bio1)) c = queue B c" and "joined B c p \<Longrightarrow> c \<noteq> a \<and> p \<noteq> a"
proof -
  have m: "mem_ok bio" using store_okD [OF assms(3,1)] assms(2) by (simp add: obj_ok_def)
  then have "mem_ok bio1" using assms(4) by (simp add: keeps_def)
  with m have "half B a = None" "half (B(a := Some bio1)) a = None" using assms(1) by (auto simp: half_def mem_ok_def)
  then show "queue (B(a := Some bio1)) c = queue B c" by (cases "c = a") (simp_all add: queue_def half_def)
  assume j: "joined B c p"
  then have "c \<noteq> a" using assms(1,2) by (auto simp: joined_def)
  moreover have "p \<noteq> a" using joined_sym [OF assms(3) j] assms(1,2) by (auto simp: joined_def)
  ultimately show "c \<noteq> a \<and> p \<noteq> a" ..
qed

lemma mem_effect:
  assumes "B a = Some bio" and "bio_method bio = Mem_method" and "store_ok B" and "keeps bio bio1"
  shows "effect B (Got a out) (B(a := Some bio1))" and "effect B (Wrote a bs) (B(a := Some bio1))" and "effect B Quiet (B(a := Some bio1))"
proof -
  note q = mem_queue [OF assms]
  show "effect B (Got a out) (B(a := Some bio1))" "effect B (Wrote a bs) (B(a := Some bio1))" "effect B Quiet (B(a := Some bio1))"
    using keeps_store_set [where B = B and a = a, OF assms(1,4)] q by (auto simp: effect_def)
qed

lemma store_addr: "store_ok B \<Longrightarrow> B a = Some bio \<Longrightarrow> a \<noteq> 0"
  unfolding store_ok_def by (metis option.distinct(1))

lemma mem_object: "store_ok B \<Longrightarrow> B a = Some bio \<Longrightarrow> bio_method bio = Mem_method \<Longrightarrow> mem_ok bio \<and> bio_init bio \<and> a \<noteq> 0"
  using store_okD [of B a bio] store_addr [of B a bio] by (simp add: obj_ok_def mem_ok_def)

text \<open>A half is joined to a peer, or it is not initialised.\<close>

lemma pair_object:
  assumes "store_ok B" and "B a = Some bio" and "bio_method bio = Pair_method"
  obtains "\<not> bio_init bio" "a \<noteq> 0" "half B a \<noteq> None" | p where "joined B a p" "bio_init bio" "a \<noteq> 0" "half B a \<noteq> None"
proof -
  have a: "a \<noteq> 0" by (rule store_addr [OF assms(1,2)])
  from store_okD [OF assms(1,2)] assms(3) obtain b where b: "bio_ptr bio = Pair_data b" "half_ok B a bio b" by (auto simp: obj_ok_def)
  then have h: "half B a = Some b" using assms(2) by (simp add: half_def)
  show thesis
  proof (cases "bb_peer b = 0")
    case True
    then show thesis using b a h by (intro that(1)) (simp_all add: half_ok_def)
  next
    case False
    then have "joined B a (bb_peer b)" using assms b by (auto simp: joined_def)
    then show thesis using False b a h by (intro that(2)) (simp_all add: half_ok_def)
  qed
qed

section \<open>Reading and writing\<close>

lemma upd_set: "B a = Some bio \<Longrightarrow> upd (B(a := Some bio1)) a f = B(a := Some (f bio1))"
  by (simp add: upd_def)

lemma BIO_read_mem:
  assumes "store_ok B" and "B a = Some bio" and "bio_method bio = Mem_method" and "0 < n" and "n \<le> INT_MAX"
  shows "\<exists>r out bio1. BIO_read B a n = Some (r, out, B(a := Some bio1)) \<and> keeps bio bio1 \<and> mem_content bio = out @ mem_content bio1 \<and>
    bio_num bio1 = bio_num bio \<and> mem_rdonly bio1 = mem_rdonly bio \<and>
    (if mem_content bio = [] then out = [] \<and> r = bio_num bio else out = take (nat n) (mem_content bio) \<and> r = int (length out))"
proof -
  note m = mem_object [OF assms(1-3)]
  have "\<exists>r out bio1. mem_read bio n = Some (r, out, bio1) \<and> mem_ok bio1 \<and> same_bio bio bio1 \<and> mem_content bio = out @ mem_content bio1 \<and>
    (if mem_content bio = [] then out = [] \<and> r = bio_num bio else out = take (nat n) (mem_content bio) \<and> r = int (length out))"
  proof (cases "mem_content bio = []")
    case True
    with mem_read_empty [of bio n] m assms(4) obtain bio1 where "mem_read bio n = Some (bio_num bio, [], bio1)" "mem_ok bio1"
      "mem_content bio1 = []" "same_bio bio bio1" by blast
    with True show ?thesis by simp
  next
    case False
    with mem_read_data [of bio n] m assms(4,5) obtain bio1 where
      "mem_read bio n = Some (int (length (take (nat n) (mem_content bio))), take (nat n) (mem_content bio), bio1)" "mem_ok bio1"
      "mem_content bio1 = drop (nat n) (mem_content bio)" "same_bio bio bio1" by blast
    with False show ?thesis
      by (intro exI [of _ "int (length (take (nat n) (mem_content bio)))"] exI [of _ "take (nat n) (mem_content bio)"] exI [of _ bio1]) simp
  qed
  then obtain r out bio1 where r: "mem_read bio n = Some (r, out, bio1)" "mem_ok bio1" "same_bio bio bio1" "mem_content bio = out @ mem_content bio1"
    "if mem_content bio = [] then out = [] \<and> r = bio_num bio else out = take (nat n) (mem_content bio) \<and> r = int (length out)" by blast
  have "keeps_ptr (bio_ptr bio) (bio_ptr bio1)" using m by (auto simp: keeps_ptr_def mem_ok_def)
  then have k: "keeps bio (count_read r bio1)" using keeps_trans [OF keeps_same_bio [OF r(3)] keeps_flags(4)] r(2) by simp
  have "BIO_read B a n = Some (r, out, B(a := Some (count_read r bio1)))"
    using m assms(2-4) r(1) by (simp add: BIO_read_def bread_def upd_set)
  moreover have "mem_content bio = out @ mem_content (count_read r bio1)" unfolding r(4) by (simp add: mem_content_def)
  moreover have "bio_num (count_read r bio1) = bio_num bio" "mem_rdonly (count_read r bio1) = mem_rdonly bio"
    using r(3) by (simp_all add: count_read_def same_bio_def mem_rdonly_def)
  ultimately show ?thesis using k r(5) by blast
qed

lemma BIO_read_pair:
  assumes "store_ok B" and "joined B a p" and "0 < n"
  shows "\<exists>r out B1. BIO_read B a n = Some (r, out, B1) \<and> moves B p out [] B1 \<and>
    (if queue B p = [] then out = [] \<and> r = (if closed B p then 0 else -1) else out = take (nat n) (queue B p) \<and> r = int (length out))"
proof -
  have n: "0 < nat n" using assms(3) by simp
  from bio_read_exact [OF assms(1,2) n] obtain r out B1 where
    r: "bio_read B a (nat n) = Some (r, out, B1)" "moves B p out [] B1"
      "if queue B p = [] then out = [] \<and> r = (if closed B p then 0 else -1) else out = take (nat n) (queue B p) \<and> r = int (length out)" by blast
  obtain bio where "B a = Some bio" "bio_method bio = Pair_method" "bio_init bio" "a \<noteq> 0" using assms(1,2) by (rule joinedE)
  then have "BIO_read B a n = Some (r, out, upd B1 a (count_read r))" using r(1) assms(3) by (simp add: BIO_read_def bread_def)
  moreover have "moves B p out [] (upd B1 a (count_read r))" by (rule moves_upd [OF r(2)]) simp_all
  ultimately show ?thesis using r(3) by blast
qed

lemma BIO_write_pair:
  assumes "store_ok B" and "joined B a p" and "bs \<noteq> []"
  shows "\<exists>r B1. BIO_write al B a bs (int (length bs)) = Some (r, B1) \<and> moves B a [] (take (nat r) bs) B1 \<and>
    r = (if closed B a \<or> length (queue B a) = capacity B a then -1 else int (min (length bs) (capacity B a - length (queue B a))))"
proof -
  from bio_write_exact [OF assms] obtain r B1 where r: "bio_write B a bs = Some (r, B1)" "moves B a [] (take (nat r) bs) B1"
    "r = (if closed B a \<or> length (queue B a) = capacity B a then -1 else int (min (length bs) (capacity B a - length (queue B a))))" by blast
  obtain bio where "B a = Some bio" "bio_method bio = Pair_method" "bio_init bio" "a \<noteq> 0" using assms(1,2) by (rule joinedE)
  then have "BIO_write al B a bs (int (length bs)) = Some (r, upd B1 a (count_write r))"
    using r(1) assms(3) by (simp add: BIO_write_def bwrite_def)
  moreover have "moves B a [] (take (nat r) bs) (upd B1 a (count_write r))" by (rule moves_upd [OF r(2)]) simp_all
  ultimately show ?thesis using r(3) by blast
qed

lemma BIO_write_mem:
  assumes "sized_alloc al" and "store_ok B" and "B a = Some bio" and "bio_method bio = Mem_method" and "bs \<noteq> []" and "int (length bs) \<le> INT_MAX"
  shows "\<exists>r bio1. BIO_write al B a bs (int (length bs)) = Some (r, B(a := Some bio1)) \<and> keeps bio bio1 \<and>
    mem_content bio1 = mem_content bio @ take (nat r) bs \<and> bio_num bio1 = bio_num bio \<and> mem_rdonly bio1 = mem_rdonly bio \<and>
    (r = int (length bs) \<or> r = -1)"
proof -
  note m = mem_object [OF assms(2-4)]
  from mem_write_exact [OF assms(1) _ assms(5,6), of bio] m obtain r bio1 where
    r: "mem_write_bio al bio bs = Some (r, bio1)" "mem_ok bio1" "same_bio bio bio1" "mem_content bio1 = mem_content bio @ take (nat r) bs"
      "r = int (length bs) \<or> r = -1" by fastforce
  have "keeps_ptr (bio_ptr bio) (bio_ptr bio1)" using m by (auto simp: keeps_ptr_def mem_ok_def)
  then have k: "keeps bio (count_write r bio1)" using keeps_trans [OF keeps_same_bio [OF r(3)] keeps_flags(5)] r(2) by simp
  have "BIO_write al B a bs (int (length bs)) = Some (r, B(a := Some (count_write r bio1)))"
    using m assms(3-5) r(1) by (simp add: BIO_write_def bwrite_def upd_set)
  moreover have "mem_content (count_write r bio1) = mem_content bio @ take (nat r) bs" using r(4) by (simp add: mem_content_def)
  moreover have "bio_num (count_write r bio1) = bio_num bio" "mem_rdonly (count_write r bio1) = mem_rdonly bio"
    using r(3) by (simp_all add: count_write_def same_bio_def mem_rdonly_def)
  ultimately show ?thesis using k r(5) by blast
qed

lemma BIO_read_total:
  assumes "store_ok B" and "a = 0 \<or> B a \<noteq> None" and "n \<le> INT_MAX"
  shows "\<exists>r out B1. BIO_read B a n = Some (r, out, B1) \<and> effect B (Got a out) B1"
proof (cases "a = 0 \<or> n \<le> 0 \<or> (\<forall>bio. B a = Some bio \<longrightarrow> \<not> bio_init bio)")
  case True
  then have "\<exists>r. BIO_read B a n = Some (r, [], B)" using assms(2) by (auto simp: BIO_read_def)
  then show ?thesis using effect_refl by blast
next
  case False
  then obtain bio where b: "B a = Some bio" "bio_init bio" "0 < n" by auto
  show ?thesis
  proof (cases "bio_method bio")
    case Mem_method
    from BIO_read_mem [OF assms(1) b(1) Mem_method b(3) assms(3)] mem_effect(1) [OF b(1) Mem_method assms(1)] show ?thesis by blast
  next
    case Pair_method
    then obtain p where "joined B a p" using pair_object [OF assms(1) b(1) Pair_method] b(2) by metis
    from BIO_read_pair [OF assms(1) this b(3)] effect_read [OF assms(1) this] show ?thesis by blast
  qed
qed

lemma BIO_write_total:
  assumes "sized_alloc al" and "store_ok B" and "a = 0 \<or> B a \<noteq> None" and "int (length bs) \<le> INT_MAX"
  shows "\<exists>r B1. BIO_write al B a bs (int (length bs)) = Some (r, B1) \<and> effect B (Wrote a (take (nat r) bs)) B1"
proof (cases "a = 0 \<or> bs = [] \<or> (\<forall>bio. B a = Some bio \<longrightarrow> \<not> bio_init bio)")
  case True
  then have "\<exists>r. r \<le> 0 \<and> BIO_write al B a bs (int (length bs)) = Some (r, B)" using assms(3) by (auto simp: BIO_write_def)
  then show ?thesis using effect_refl(2) [of B a] by auto
next
  case False
  then obtain bio where b: "B a = Some bio" "bio_init bio" "bs \<noteq> []" using assms(3) by auto
  show ?thesis
  proof (cases "bio_method bio")
    case Mem_method
    from BIO_write_mem [OF assms(1,2) b(1) Mem_method b(3) assms(4)] mem_effect(2) [OF b(1) Mem_method assms(2)] show ?thesis by blast
  next
    case Pair_method
    then obtain p where "joined B a p" using pair_object [OF assms(2) b(1) Pair_method] b(2) by metis
    from BIO_write_pair [OF assms(2) this b(3)] effect_write [OF assms(2) this] show ?thesis by blast
  qed
qed

section \<open>Lines and control\<close>

lemma line_length_bounds: "xs \<noteq> [] \<Longrightarrow> 0 < line_length xs \<and> line_length xs \<le> length xs"
proof (induction xs)
  case (Cons c cs)
  then show ?case by (cases "cs = []") auto
qed simp

lemma mem_gets_total:
  assumes "mem_ok bio" and "n \<le> INT_MAX"
  shows "\<exists>r out bio1. mem_gets bio n = Some (r, out, bio1) \<and> mem_ok bio1 \<and> same_bio bio bio1"
proof -
  from assms(1) obtain b where b: "bio_ptr bio = Mem_data b" "bm_ok b" "int (bm_length b) \<le> INT_MAX" "bm_place (mem_rdonly bio) b"
    "mem_data bio = Some b" "mem_content bio = bm_bytes b" "length (bm_bytes b) = bm_length b" by (rule mem_okE)
  let ?bio = "BIO_clear_retry_flags bio"
  have ok: "mem_ok ?bio" by (rule mem_okI [OF assms(1) same_bio_clear(1), where b = b]) (use b in simp_all)
  define j where "j = (if n - 1 < c_int (int (bm_length b)) then n - 1 else c_int (int (bm_length b)))"
  have c: "c_int (int (bm_length b)) = int (bm_length b)" using b(3) by (simp add: c_int_id)
  note E = mem_gets_def [of bio n, unfolded b(5) Option.bind.bind_lunit Let_def, folded j_def]
  show ?thesis
  proof (cases "j \<le> 0")
    case True
    then show ?thesis using ok by (simp add: E)
  next
    case False
    define i where "i = line_length (take (nat j) (bm_bytes b))"
    have ne: "take (nat j) (bm_bytes b) \<noteq> []" "mem_content ?bio \<noteq> []"
      using False b(1,6,7) c by (auto simp: j_def mem_content_def split: if_splits)
    have "0 < i" "i \<le> length (take (nat j) (bm_bytes b))" using line_length_bounds [OF ne(1)] by (simp_all add: i_def)
    then have i: "0 < int i" "int i \<le> INT_MAX" using b(3,7) by auto
    from mem_read_data [OF ok i ne(2)] obtain r out bio1 where
      "mem_read ?bio (int i) = Some (r, out, bio1)" "mem_ok bio1" "same_bio ?bio bio1" by blast
    moreover have "same_bio bio bio1" using calculation(3) same_bio_clear(1) [of bio] by (simp add: same_bio_def)
    ultimately show ?thesis using False by (simp add: E i_def [symmetric])
  qed
qed

lemma mem_ctrl_total:
  assumes "mem_ok bio" and "cmd \<noteq> BIO_C_SET_BUF_MEM"
  shows "\<exists>r bio1. mem_ctrl bio cmd num p = Some (r, bio1) \<and> keeps bio bio1"
proof -
  from assms(1) obtain b where b: "bio_ptr bio = Mem_data b" "bm_ok b" "int (bm_length b) \<le> INT_MAX" "bm_place (mem_rdonly bio) b"
    "mem_data bio = Some b" "mem_content bio = bm_bytes b" "length (bm_bytes b) = bm_length b" by (rule mem_okE)
  have np: "keeps_ptr (bio_ptr bio) q" for q using b(1) by (simp add: keeps_ptr_def)
  consider "cmd = BIO_CTRL_RESET" | "cmd = BIO_C_SET_BUF_MEM_EOF_RETURN" | "cmd = BIO_CTRL_SET_CLOSE"
    | "cmd \<noteq> BIO_CTRL_RESET" "cmd \<noteq> BIO_C_SET_BUF_MEM_EOF_RETURN" "cmd \<noteq> BIO_CTRL_SET_CLOSE" by blast
  then show ?thesis
  proof cases
    case 1
    have "\<exists>b1. mem_reset bio b = Some b1 \<and> bm_ok b1 \<and> bm_place (mem_rdonly bio) b1 \<and> int (bm_length b1) \<le> INT_MAX"
    proof (cases "bm_data b")
      case None
      then show ?thesis using b(2-4) by (auto simp: mem_reset_def)
    next
      case (Some blk)
      then show ?thesis using b(2-4)
        by (cases "mem_rdonly bio") (auto simp: mem_reset_def bm_ok_def bm_place_def bm_write_def INT_MAX_def)
    qed
    then obtain b1 where b1: "mem_reset bio b = Some b1" "bm_ok b1" "bm_place (mem_rdonly bio) b1" "int (bm_length b1) \<le> INT_MAX" by blast
    have "mem_ok (bio\<lparr>bio_ptr := Mem_data b1\<rparr>)" using assms(1) b1 by (simp add: mem_ok_def)
    then have "keeps bio (bio\<lparr>bio_ptr := Mem_data b1\<rparr>)" using np by (simp add: keeps_def)
    then show ?thesis using 1 b(5) b1(1) by (simp add: mem_ctrl_def)
  next
    case 2
    have "keeps bio (bio\<lparr>bio_num := c_int num\<rparr>)" by (simp add: keeps_def mem_ok_def mem_rdonly_def)
    then show ?thesis using 2 by (simp add: mem_ctrl_def BIO_CTRL_RESET_def BIO_CTRL_EOF_def BIO_C_SET_BUF_MEM_EOF_RETURN_def)
  next
    case 3
    have "keeps bio (bio\<lparr>bio_shutdown := c_int num\<rparr>)" by (simp add: keeps_def mem_ok_def mem_rdonly_def)
    then show ?thesis using 3 by (simp add: mem_ctrl_def BIO_CTRL_RESET_def BIO_CTRL_EOF_def BIO_C_SET_BUF_MEM_EOF_RETURN_def
          BIO_CTRL_SET_CLOSE_def BIO_CTRL_GET_CLOSE_def BIO_CTRL_INFO_def BIO_C_SET_BUF_MEM_def BIO_C_GET_BUF_MEM_PTR_def)
  next
    case 4
    then have "\<exists>r. mem_ctrl bio cmd num p = Some (r, bio)" using assms(2) by (simp add: mem_ctrl_def b(5))
    then show ?thesis by auto
  qed
qed

lemma pair_ctrl_total:
  assumes "store_ok B" and "B a = Some bio" and "bio_method bio = Pair_method"
  shows "\<exists>r B1. bio_ctrl B a cmd num 0 = Some (r, B1) \<and> effect B Quiet B1"
proof -
  obtain b where b: "half B a = Some b" using pair_object [OF assms] by (metis option.exhaust)
  have pend: "half B (bb_peer b) \<noteq> None" if "bb_peer b \<noteq> 0"
  proof -
    have "bio_ptr bio = Pair_data b" using b assms(2) by (auto simp: half_def split: bio_ptr.splits)
    then have "joined B a (bb_peer b)" using that assms(2,3) by (auto simp: joined_def)
    then show ?thesis using joinedE [OF assms(1)] by (metis option.distinct(1))
  qed
  have set: "effect B Quiet (set_half B a c)" if "bb_peer c = bb_peer b" "ring_ok b \<Longrightarrow> ring_ok c" "ring_bytes c = ring_bytes b" for c
  proof -
    have m: "moves B a [] [] (set_half B a c)" using moves_set_half [of B B a b c "[]" "[]"] b that by simp
    show ?thesis
    proof (rule effect_same)
      show "keeps_store B (set_half B a c)" using m by (simp add: moves_def)
      show "queue (set_half B a c) d = queue B d" for d using m by (cases "d = a") (simp_all add: moves_def)
    qed
  qed
  consider "cmd = BIO_C_RESET_READ_REQUEST" | "cmd = BIO_C_SHUTDOWN_WR" | "cmd = BIO_CTRL_SET_CLOSE"
    | "cmd \<noteq> BIO_C_RESET_READ_REQUEST" "cmd \<noteq> BIO_C_SHUTDOWN_WR" "cmd \<noteq> BIO_CTRL_SET_CLOSE" by blast
  then show ?thesis
  proof cases
    case 1
    have "effect B Quiet (set_half B a (b\<lparr>bb_request := 0\<rparr>))" by (rule set) simp_all
    then show ?thesis using 1 assms(2) b by (simp add: bio_ctrl_def BIO_C_RESET_READ_REQUEST_def BIO_C_GET_WRITE_BUF_SIZE_def
          BIO_C_GET_WRITE_GUARANTEE_def BIO_C_GET_READ_REQUEST_def)
  next
    case 2
    have "effect B Quiet (set_half B a (b\<lparr>bb_closed := True\<rparr>))"
      by (rule set) (auto simp: ring_ok_def ring_bytes_def split: option.split)
    then show ?thesis using 2 assms(2) b by (simp add: bio_ctrl_def BIO_C_SHUTDOWN_WR_def BIO_C_RESET_READ_REQUEST_def BIO_C_GET_WRITE_BUF_SIZE_def
          BIO_C_GET_WRITE_GUARANTEE_def BIO_C_GET_READ_REQUEST_def)
  next
    case 3
    let ?f = "\<lambda>bio. bio\<lparr>bio_shutdown := c_int num\<rparr>"
    have "keeps_store B (upd B a ?f)" by (rule keeps_store_upd) (simp add: keeps_def mem_ok_def mem_rdonly_def)
    moreover have "half (upd B a ?f) c = half B c" for c by (rule half_upd) simp
    ultimately have "effect B Quiet (upd B a ?f)" by (intro effect_same) (simp_all add: queue_def)
    then show ?thesis using 3 assms(2) b by (simp add: bio_ctrl_def BIO_CTRL_SET_CLOSE_def BIO_CTRL_GET_CLOSE_def BIO_C_SHUTDOWN_WR_def
          BIO_C_RESET_READ_REQUEST_def BIO_C_GET_WRITE_BUF_SIZE_def BIO_C_GET_WRITE_GUARANTEE_def BIO_C_GET_READ_REQUEST_def)
  next
    case 4
    then have "\<exists>r. bio_ctrl B a cmd num 0 = Some (r, B)" using assms(2) b pend by (auto simp: bio_ctrl_def)
    then show ?thesis using effect_refl(3) by blast
  qed
qed

lemma BIO_ctrl_total:
  assumes "store_ok B" and "a = 0 \<or> B a \<noteq> None" and "cmd \<noteq> BIO_C_SET_BUF_MEM"
  shows "\<exists>r B1. BIO_ctrl B a cmd larg Null_arg = Some (r, B1) \<and> effect B Quiet B1"
proof (cases "a = 0")
  case True
  then show ?thesis using effect_refl(3) by (auto simp: BIO_ctrl_def)
next
  case False
  with assms(2) obtain bio where b: "B a = Some bio" by auto
  show ?thesis
  proof (cases "bio_method bio")
    case Mem_method
    then have "mem_ok bio" using mem_object [OF assms(1) b] by blast
    from mem_ctrl_total [OF this assms(3), of larg Null_data] mem_effect(3) [OF b Mem_method assms(1)] show ?thesis
      using False b Mem_method by (auto simp: BIO_ctrl_def)
  next
    case Pair_method
    from pair_ctrl_total [OF assms(1) b this, of cmd larg] show ?thesis using False b Pair_method by (simp add: BIO_ctrl_def)
  qed
qed

lemma BIO_gets_total:
  assumes "store_ok B" and "a = 0 \<or> B a \<noteq> None" and "n \<le> INT_MAX"
  shows "\<exists>r out B1. BIO_gets B a n = Some (r, out, B1) \<and> effect B Quiet B1"
proof (cases "a = 0 \<or> n \<le> 0 \<or> (\<forall>bio. B a = Some bio \<longrightarrow> bio_method bio = Pair_method \<or> \<not> bio_init bio)")
  case True
  then have "\<exists>r. BIO_gets B a n = Some (r, [], B)" using assms(2) by (auto simp: BIO_gets_def)
  then show ?thesis using effect_refl(3) by blast
next
  case False
  then obtain bio where b: "B a = Some bio" "bio_init bio" "bio_method bio = Mem_method" by (auto intro: bio_method.exhaust)
  have m: "mem_ok bio" using mem_object [OF assms(1) b(1,3)] by blast
  from mem_gets_total [OF m assms(3)] obtain r out bio1 where r: "mem_gets bio n = Some (r, out, bio1)" "mem_ok bio1" "same_bio bio bio1" by blast
  have "keeps_ptr (bio_ptr bio) (bio_ptr bio1)" using m by (auto simp: keeps_ptr_def mem_ok_def)
  then have "keeps bio (count_read r bio1)" using keeps_trans [OF keeps_same_bio [OF r(3)] keeps_flags(4)] r(2) by simp
  from mem_effect(3) [OF b(1,3) assms(1) this] show ?thesis using False b r(1) by (simp add: BIO_gets_def upd_set)
qed

section \<open>The stream of a pair\<close>

inductive io_step :: "allocator \<Rightarrow> bios \<Rightarrow> io_event \<Rightarrow> bios \<Rightarrow> bool" where
  io_read: "BIO_read B a n = Some (r, out, B1) \<Longrightarrow> n \<le> INT_MAX \<Longrightarrow> io_step al B (Got a out) B1"
| io_gets: "BIO_gets B a n = Some (r, out, B1) \<Longrightarrow> n \<le> INT_MAX \<Longrightarrow> io_step al B Quiet B1"
| io_write: "BIO_write al B a bs (int (length bs)) = Some (r, B1) \<Longrightarrow> int (length bs) \<le> INT_MAX \<Longrightarrow>
    io_step al B (Wrote a (take (nat r) bs)) B1"
| io_ctrl: "BIO_ctrl B a cmd larg Null_arg = Some (r, B1) \<Longrightarrow> cmd \<noteq> BIO_C_SET_BUF_MEM \<Longrightarrow> io_step al B Quiet B1"

lemma defined_at:
  "BIO_read B a n = Some x \<Longrightarrow> a = 0 \<or> B a \<noteq> None" "BIO_gets B a n = Some x \<Longrightarrow> a = 0 \<or> B a \<noteq> None"
  "BIO_write al B a bs n = Some y \<Longrightarrow> a = 0 \<or> B a \<noteq> None" "BIO_ctrl B a cmd larg parg = Some y \<Longrightarrow> a = 0 \<or> B a \<noteq> None"
  by (auto simp: BIO_read_def BIO_gets_def BIO_write_def BIO_ctrl_def split: Option.bind_splits if_splits)

lemma io_step_effect:
  assumes "io_step al B ev B1" and "sized_alloc al" and "store_ok B"
  shows "effect B ev B1"
  using assms(1)
proof cases
  case (io_read a n r out)
  from BIO_read_total [OF assms(3) defined_at(1) [OF io_read(2)] io_read(3)] io_read show ?thesis by auto
next
  case (io_gets a n r out)
  from BIO_gets_total [OF assms(3) defined_at(2) [OF io_gets(2)] io_gets(3)] io_gets show ?thesis by auto
next
  case (io_write a bs r)
  from BIO_write_total [OF assms(2,3) defined_at(3) [OF io_write(2)] io_write(3)] io_write show ?thesis by auto
next
  case (io_ctrl a cmd larg r)
  from BIO_ctrl_total [OF assms(3) defined_at(4) [OF io_ctrl(2)] io_ctrl(3), of larg] io_ctrl show ?thesis by auto
qed

inductive io_run :: "allocator \<Rightarrow> bios \<Rightarrow> io_event list \<Rightarrow> bios \<Rightarrow> bool" where
  io_stop: "io_run al B [] B"
| io_more: "io_step al B ev B1 \<Longrightarrow> io_run al B1 evs B2 \<Longrightarrow> io_run al B (ev # evs) B2"

lemma io_run_stream:
  assumes "io_run al B evs B1" and "sized_alloc al" and "store_ok B" and "joined B a p"
  shows "store_ok B1 \<and> joined B1 a p \<and> queue B p @ concat (map (wrote_to p) evs) = concat (map (got_from a) evs) @ queue B1 p"
  using assms
proof (induction rule: io_run.induct)
  case (io_stop al B)
  then show ?case by simp
next
  case (io_more al B ev B1 evs B2)
  have e: "effect B ev B1" by (rule io_step_effect [OF io_more.hyps(1) io_more.prems(1,2)])
  then have k: "keeps_store B B1" and q: "queue B p @ wrote_to p ev = got_from a ev @ queue B1 p"
    using io_more.prems(3) by (simp_all add: effect_def)
  note io_more.IH [OF io_more.prems(1) store_ok_keeps [OF io_more.prems(2) k] joined_keeps [OF io_more.prems(3) k]]
  then have IH: "store_ok B2" "joined B2 a p" "queue B1 p @ concat (map (wrote_to p) evs) = concat (map (got_from a) evs) @ queue B2 p" by blast+
  have "queue B p @ wrote_to p ev @ concat (map (wrote_to p) evs) = got_from a ev @ queue B1 p @ concat (map (wrote_to p) evs)"
    using q by (simp flip: append_assoc)
  then show ?case using IH by simp
qed

end
