(* ===== verification/Bio_Store.thy ===== *)
theory Bio_Store
  imports Bio_Io
begin

text \<open>Creating and freeing BIOs, and the stores that can be reached.\<close>

section \<open>Adding and removing objects\<close>

definition good_fresh :: "(bios \<Rightarrow> nat) \<Rightarrow> bool" where
  "good_fresh fresh \<longleftrightarrow> (\<forall>B. fresh B \<noteq> 0 \<longrightarrow> B (fresh B) = None)"

lemma obj_ok_mono:
  assumes "obj_ok B c bio" and "\<And>b x. bio_ptr bio = Pair_data b \<Longrightarrow> bb_peer b \<noteq> 0 \<Longrightarrow> B (bb_peer b) = Some x \<Longrightarrow> B1 (bb_peer b) = Some x"
  shows "obj_ok B1 c bio"
proof (cases "bio_method bio")
  case Mem_method
  then show ?thesis using assms(1) by (simp add: obj_ok_def)
next
  case Pair_method
  then obtain b where b: "bio_ptr bio = Pair_data b" "half_ok B c bio b" using assms(1) by (auto simp: obj_ok_def)
  have "half_ok B1 c bio b" using b(2) assms(2) [OF b(1)] unfolding half_ok_def by (auto split: if_splits)
  then show ?thesis using assms(1) b(1) Pair_method by (simp add: obj_ok_def)
qed

lemma store_ok_add:
  assumes "store_ok B" and "B a = None" and "a \<noteq> 0" and "obj_ok (B(a := Some bio)) a bio"
  shows "store_ok (B(a := Some bio))"
proof -
  have "obj_ok (B(a := Some bio)) c x" if "(B(a := Some bio)) c = Some x" for c x
  proof (cases "c = a")
    case True
    then show ?thesis using that assms(4) by simp
  next
    case False
    then have "B c = Some x" using that by simp
    from store_okD [OF assms(1) this] show ?thesis by (rule obj_ok_mono) (use assms(2) in auto)
  qed
  then show ?thesis using assms(1,3) by (simp add: store_ok_def)
qed

text \<open>The new object of each kind.\<close>

lemma BIO_new_cases:
  assumes "good_fresh fresh" and "BIO_new al fresh m B = (a, B1)"
  obtains "a = 0" "B1 = B" | bio where "a \<noteq> 0" "B a = None" "B1 = B(a := Some bio)" "bio_method bio = m" "bio_references bio = 1" "bio_next bio = 0"
    "m = Mem_method \<Longrightarrow> bio_init bio \<and> \<not> mem_rdonly bio \<and> bio_ptr bio = Mem_data \<lparr>bm_length = 0, bm_data = None, bm_off = 0, bm_max = 0\<rparr>"
    "m = Pair_method \<Longrightarrow> \<not> bio_init bio \<and> bio_ptr bio = Pair_data \<lparr>bb_peer = 0, bb_closed = False, bb_len = 0, bb_offset = 0,
       bb_size = 17 * 1024, bb_buf = None, bb_request = 0\<rparr>"
proof (cases "a = 0")
  case True
  then have "B1 = B" using assms(2) by (auto simp: BIO_new_def Let_def split: if_splits prod.splits bool.splits)
  with True show thesis by (rule that(1))
next
  case False
  show thesis
  proof (cases m)
    case Mem_method
    then show thesis using False assms
      by (intro that(2) [of "the (B1 a)"])
        (auto simp: BIO_new_def Let_def mem_new_def BUF_MEM_new_def good_fresh_def mem_rdonly_def split: if_splits option.splits)
  next
    case Pair_method
    then show thesis using False assms
      by (intro that(2) [of "the (B1 a)"])
        (auto simp: BIO_new_def Let_def bio_new_def good_fresh_def split: if_splits option.splits)
  qed
qed

lemma BIO_new_address:
  assumes "good_fresh fresh" and "BIO_new al fresh m B = (a, B1)"
  shows "a = 0 \<or> B a = None \<and> B1 a \<noteq> None" and "B c \<noteq> None \<Longrightarrow> B1 c \<noteq> None"
  using BIO_new_cases [OF assms] by (metis fun_upd_apply option.distinct(1))+

lemma refcount_max: "1 \<le> CRYPTO_REFCOUNT_MAX"
  by (simp add: CRYPTO_REFCOUNT_MAX_def)

lemma new_mem_ok:
  assumes "good_fresh fresh" and "store_ok B" and "BIO_new al fresh Mem_method B = (a, B1)"
  shows "store_ok B1"
  using assms(1,3)
proof (rule BIO_new_cases)
  fix bio
  assume n: "a \<noteq> 0" "B a = None" "B1 = B(a := Some bio)" "bio_method bio = Mem_method" "bio_references bio = 1" "bio_next bio = 0"
    "Mem_method = Mem_method \<Longrightarrow> bio_init bio \<and> \<not> mem_rdonly bio \<and> bio_ptr bio = Mem_data \<lparr>bm_length = 0, bm_data = None, bm_off = 0, bm_max = 0\<rparr>"
  then have "mem_ok bio" by (simp add: mem_ok_def bm_ok_def bm_place_def INT_MAX_def)
  with n refcount_max have "obj_ok B1 a bio" by (simp add: obj_ok_def)
  with store_ok_add [OF assms(2) n(2,1)] n(3) show ?thesis by simp
qed (use assms(2) in simp)

lemma new_mem_buf_ok:
  assumes "good_fresh fresh" and "store_ok B" and "BIO_new_mem_buf al fresh B buf len = Some (a, B1)" and "len \<le> INT_MAX"
    and "\<And>s. buf = Some s \<Longrightarrow> len \<le> int (length s) \<and> int (length (takeWhile (\<lambda>c. c \<noteq> 0) s)) \<le> INT_MAX"
  shows "store_ok B1"
proof -
  obtain a0 B0 where new: "BIO_new al fresh Mem_method B = (a0, B0)" by force
  have ok0: "store_ok B0" by (rule new_mem_ok [OF assms(1,2) new])
  define n where "n = (if len < 0 then map_option (\<lambda>s. length (takeWhile (\<lambda>c. c \<noteq> 0) s)) buf else Some (nat len))"
  note E = assms(3) [unfolded BIO_new_mem_buf_def, folded n_def]
  from E obtain k where k: "n = Some k" by (cases n) simp_all
  show ?thesis
  proof (cases "buf = None \<and> len \<noteq> 0 \<or> a0 = 0")
    case True
    then show ?thesis using E k new ok0 assms(2) by (auto split: if_splits)
  next
    case False
    then have nb: "\<not> (buf = None \<and> len \<noteq> 0)" and na: "a0 \<noteq> 0" by simp_all
    obtain bio where b: "B a0 = None" "B0 = B(a0 := Some bio)" "bio_method bio = Mem_method" "bio_references bio = 1" "bio_next bio = 0" "bio_init bio"
      "bio_ptr bio = Mem_data \<lparr>bm_length = 0, bm_data = None, bm_off = 0, bm_max = 0\<rparr>"
      using BIO_new_cases [OF assms(1) new] False by metis
    define bm where "bm = \<lparr>bm_length = k, bm_data = map_option (take k) buf, bm_off = 0, bm_max = k\<rparr>"
    define x where "x = bio\<lparr>bio_ptr := Mem_data bm, bio_flags := bio_flags bio OR BIO_FLAGS_MEM_RDONLY, bio_num := 0\<rparr>"
    note E1 = E [unfolded k Option.bind.bind_lunit if_not_P [OF nb] new prod.case if_not_P [OF na]]
    have B1: "B1 = B(a0 := Some x)" using E1 b(2,7) by (auto simp: mem_data_def x_def bm_def Let_def)
    have kb: "int k \<le> INT_MAX \<and> (case buf of None \<Rightarrow> k = 0 | Some s \<Rightarrow> k \<le> length s)"
    proof (cases buf)
      case None
      then show ?thesis using False k by (auto simp: n_def INT_MAX_def)
    next
      case (Some s)
      then show ?thesis using assms(4) assms(5) [OF Some] k length_takeWhile_le [of "\<lambda>c. c \<noteq> 0" s] by (auto simp: n_def split: if_splits)
    qed
    have "BIO_FLAGS_MEM_RDONLY \<noteq> 0" by (simp add: BIO_FLAGS_MEM_RDONLY_def)
    then have "mem_rdonly x" by (simp add: mem_rdonly_def x_def bit.conj_disj_distrib2)
    moreover have "bm_ok bm" using kb by (auto simp: bm_ok_def bm_def INT_MAX_def split: option.splits)
    ultimately have "mem_ok x" using b kb by (simp add: mem_ok_def x_def bm_def bm_place_def)
    then have "obj_ok B1 a0 x" using b refcount_max by (simp add: obj_ok_def x_def)
    then show ?thesis using store_ok_add [OF assms(2) b(1)] False B1 by simp
  qed
qed

section \<open>Freeing\<close>

lemma store_ok_remove:
  assumes "store_ok B" and "\<And>c. \<not> joined B c a"
  shows "store_ok (B(a := None))"
proof -
  have "obj_ok (B(a := None)) c x" if c: "c \<noteq> a" "B c = Some x" for c x
  proof (rule obj_ok_mono [OF store_okD [OF assms(1) c(2)]])
    fix b y
    assume b: "bio_ptr x = Pair_data b" "bb_peer b \<noteq> 0" "B (bb_peer b) = Some y"
    have "bio_method x = Pair_method" using store_okD [OF assms(1) c(2)] b(1) by (cases "bio_method x") (auto simp: obj_ok_def mem_ok_def)
    then have "joined B c (bb_peer b)" using b c(2) by (simp add: joined_def)
    with assms(2) have "bb_peer b \<noteq> a" by metis
    with b(3) show "(B(a := None)) (bb_peer b) = Some y" by simp
  qed
  then show ?thesis using assms(1) by (auto simp: store_ok_def split: if_splits)
qed

text \<open>The halves of a pair come apart: both are not initialised and joined to none.\<close>

definition loose :: "bio \<Rightarrow> bio_bio \<Rightarrow> bio" where
  "loose bio b = bio\<lparr>bio_ptr := Pair_data (b\<lparr>bb_peer := 0, bb_len := 0, bb_offset := 0\<rparr>), bio_init := False\<rparr>"

lemma destroy_pair_exact:
  assumes "B a = Some bio" and "bio_ptr bio = Pair_data b" and "bb_peer b = p" and "p \<noteq> 0" and "p \<noteq> a" and "bb_buf b \<noteq> None"
    and "B p = Some pbio" and "bio_ptr pbio = Pair_data pb" and "bb_peer pb = a" and "bb_buf pb \<noteq> None"
  shows "bio_destroy_pair B a = Some (B(p := Some (loose pbio pb), a := Some (loose bio b)))"
  using assms by (simp add: bio_destroy_pair_def set_half_def upd_def half_def loose_def)

lemma unjoin_ok:
  assumes "store_ok B" and "joined B a p" and "B p = Some pbio" and "bio_ptr pbio = Pair_data pb"
  shows "store_ok (B(p := Some (loose pbio pb), a := None))"
proof -
  let ?B1 = "B(p := Some (loose pbio pb), a := None)"
  have pa: "p \<noteq> a" "p \<noteq> 0" using assms(1,2) by (auto elim: joinedE)
  have "obj_ok ?B1 c z" if c: "?B1 c = Some z" for c z
  proof (cases "c = p")
    case True
    then have "z = loose pbio pb" using c pa by simp
    moreover have "bio_method pbio = Pair_method" using assms(1-3) by (auto elim: joinedE)
    ultimately show ?thesis using store_okD [OF assms(1,3)] by (simp add: obj_ok_def half_ok_def loose_def)
  next
    case False
    then have ca: "c \<noteq> a" and z: "B c = Some z" using c by (auto split: if_splits)
    show ?thesis
    proof (rule obj_ok_mono [OF store_okD [OF assms(1) z]])
      fix d w
      assume d: "bio_ptr z = Pair_data d" "bb_peer d \<noteq> 0" "B (bb_peer d) = Some w"
      have "bio_method z = Pair_method" using store_okD [OF assms(1) z] d(1) by (cases "bio_method z") (auto simp: obj_ok_def mem_ok_def)
      then have jc: "joined B c (bb_peer d)" using d z by (simp add: joined_def)
      have "bb_peer d \<noteq> p" using joined_unique2 [OF assms(1) _ assms(2)] jc ca by metis
      moreover have "bb_peer d \<noteq> a" using joined_unique2 [OF assms(1) _ joined_sym [OF assms(1,2)]] jc False by metis
      ultimately show "?B1 (bb_peer d) = Some w" using d(3) by simp
    qed
  qed
  then show ?thesis using assms(1) pa(2) by (simp add: store_ok_def)
qed

lemma bio_destroy_ok:
  assumes "store_ok B" and "B a = Some bio"
  shows "\<exists>B1. bio_destroy (B(a := Some (bio\<lparr>bio_references := r\<rparr>))) a = Some B1 \<and> store_ok (B1(a := None)) \<and>
    (\<forall>c. c \<noteq> a \<longrightarrow> (B1 c = None) = (B c = None))"
proof (cases "bio_method bio")
  case Mem_method
  then have "\<not> joined B a c" for c using assms(2) by (simp add: joined_def)
  then have "\<not> joined B c a" for c using joined_sym [OF assms(1)] by blast
  from store_ok_remove [OF assms(1) this] show ?thesis using Mem_method assms(2) by (simp add: bio_destroy_def)
next
  case Pair_method
  show ?thesis
  proof (rule pair_object [OF assms Pair_method])
    assume u: "\<not> bio_init bio" "half B a \<noteq> None"
    then obtain b where b: "half B a = Some b" by auto
    then have ptr: "bio_ptr bio = Pair_data b" using assms(2) by (auto simp: half_def split: bio_ptr.splits)
    have nj: "\<not> joined B a p" for p
    proof
      assume "joined B a p"
      with assms u(1) show False by (auto elim: joinedE)
    qed
    then have "bb_peer b = 0" using assms(2) Pair_method ptr by (auto simp: joined_def)
    moreover have "\<not> joined B c a" for c using nj joined_sym [OF assms(1)] by blast
    ultimately have "store_ok (B(a := None))" "bio_destroy (B(a := Some (bio\<lparr>bio_references := r\<rparr>))) a = Some (B(a := Some (bio\<lparr>bio_references := r\<rparr>)))"
      using store_ok_remove [OF assms(1)] Pair_method ptr by (blast, simp add: bio_destroy_def bio_free_def half_def)
    then show ?thesis by simp
  next
    fix p
    assume p: "joined B a p"
    obtain b pbio pb where j: "half B a = Some b" "bb_peer b = p" "ring_ok b"
      "B p = Some pbio" "half B p = Some pb" "bb_peer pb = a" "ring_ok pb" "a \<noteq> p" "p \<noteq> 0"
      using assms(1) p by (rule joinedE)
    have ptr: "bio_ptr bio = Pair_data b" "bio_ptr pbio = Pair_data pb" using j(1,4,5) assms(2) by (auto simp: half_def split: bio_ptr.splits)
    have bufs: "bb_buf b \<noteq> None" "bb_buf pb \<noteq> None" using j(3,7) by (auto simp: ring_ok_def)
    let ?bio = "bio\<lparr>bio_references := r\<rparr>"
    let ?B = "B(a := Some ?bio)"
    have "bio_destroy_pair ?B a = Some (?B(p := Some (loose pbio pb), a := Some (loose ?bio b)))"
      by (rule destroy_pair_exact) (use j ptr bufs in simp_all)
    then have "bio_destroy ?B a = Some (?B(p := Some (loose pbio pb), a := Some (loose ?bio b)))"
      using Pair_method ptr(1) j(2,9) by (simp add: bio_destroy_def bio_free_def half_def)
    moreover have "(?B(p := Some (loose pbio pb), a := Some (loose ?bio b)))(a := None) = B(p := Some (loose pbio pb), a := None)"
      using j(8) by (auto simp: fun_eq_iff)
    ultimately show ?thesis using unjoin_ok [OF assms(1) p j(4) ptr(2)] j(4) by simp
  qed
qed

lemma keeps_refs:
  assumes "store_ok B" and "B a = Some bio" and "0 < r" and "r \<le> CRYPTO_REFCOUNT_MAX"
  shows "store_ok (B(a := Some (bio\<lparr>bio_references := r\<rparr>)))"
proof -
  let ?B = "B(a := Some (bio\<lparr>bio_references := r\<rparr>))"
  have "obj_ok ?B c x" if x: "?B c = Some x" for c x
  proof -
    obtain y where y: "B c = Some y" "bio_method x = bio_method y" "bio_init x = bio_init y" "bio_ptr x = bio_ptr y" "bio_next x = bio_next y"
      "mem_ok x = mem_ok y" "bio_references x = bio_references y \<or> bio_references x = r"
      using x assms(2) by (cases "c = a") (auto simp: mem_ok_def mem_rdonly_def)
    have h: "half_ok B c y b \<Longrightarrow> half_ok ?B c x b" for b using y(3) assms(2) by (auto simp: half_ok_def split: if_splits)
    show ?thesis using store_okD [OF assms(1) y(1)] y(2-7) assms(3,4) h
      unfolding obj_ok_def y(2) by (cases "bio_method y") auto
  qed
  then show ?thesis using assms(1) store_addr [OF assms(1,2)] by (simp add: store_ok_def)
qed

lemma BIO_free_ok:
  assumes "store_ok B" and "a = 0 \<or> B a \<noteq> None"
  shows "\<exists>gone B1. BIO_free a B = Some (gone, B1) \<and> store_ok B1 \<and> (\<forall>c. c \<noteq> a \<longrightarrow> (B1 c = None) = (B c = None))"
proof (cases "a = 0")
  case True
  then show ?thesis using assms(1) by (auto simp: BIO_free.simps [of 0 B])
next
  case False
  with assms(2) obtain bio where b: "B a = Some bio" by auto
  note o = store_okD [OF assms(1) b]
  let ?r = "bio_references bio - 1"
  show ?thesis
  proof (cases "bio_references bio = 1")
    case last: True
    let ?B1 = "B(a := Some (bio\<lparr>bio_references := 0\<rparr>))"
    have nx: "bio\<lparr>bio_references := 0, bio_next := 0\<rparr> = bio\<lparr>bio_references := 0\<rparr>" using o by (cases bio) (simp add: obj_ok_def)
    from bio_destroy_ok [OF assms(1) b] obtain B2 where d: "bio_destroy ?B1 a = Some B2" "store_ok (B2(a := None))"
      "\<forall>c. c \<noteq> a \<longrightarrow> (B2 c = None) = (B c = None)" by blast
    have dn: "bio_destroy (B(a := Some (bio\<lparr>bio_references := 0, bio_next := 0\<rparr>))) a = Some B2" by (simp only: nx d(1))
    have "free_one B a = Some (True, 0, B2(a := None))"
      using last o b dn by (simp add: free_one_def CRYPTO_refcount_dec_and_test_zero_def CRYPTO_REFCOUNT_MAX_def BIO_pop_def False obj_ok_def)
    then show ?thesis using False d(2,3) by (auto simp: BIO_free.simps [of a B] BIO_free.simps [of 0])
  next
    case more: False
    define r where "r = (if bio_references bio = CRYPTO_REFCOUNT_MAX then bio_references bio else bio_references bio - 1)"
    have r: "0 < r" "r \<le> CRYPTO_REFCOUNT_MAX" using o more by (auto simp: r_def obj_ok_def)
    have "free_one B a = Some (False, 0, B(a := Some (bio\<lparr>bio_references := r\<rparr>)))"
      using more o b r by (auto simp: free_one_def CRYPTO_refcount_dec_and_test_zero_def r_def obj_ok_def)
    then show ?thesis using False keeps_refs [OF assms(1) b r] by (auto simp: BIO_free.simps [of a B])
  qed
qed

section \<open>Pairs\<close>

lemma new_half_ok:
  assumes "good_fresh fresh" and "store_ok B" and "BIO_new al fresh Pair_method B = (a, B1)"
  shows "store_ok B1"
  using assms(1,3)
proof (rule BIO_new_cases)
  fix bio
  assume n: "a \<noteq> 0" "B a = None" "B1 = B(a := Some bio)" "bio_method bio = Pair_method" "bio_references bio = 1" "bio_next bio = 0"
    "Pair_method = Pair_method \<Longrightarrow> \<not> bio_init bio \<and> bio_ptr bio = Pair_data \<lparr>bb_peer = 0, bb_closed = False, bb_len = 0, bb_offset = 0,
       bb_size = 17 * 1024, bb_buf = None, bb_request = 0\<rparr>"
  then have "obj_ok B1 a bio" using refcount_max by (simp add: obj_ok_def half_ok_def)
  with store_ok_add [OF assms(2) n(2,1)] n(3) show ?thesis by simp
qed (use assms(2) in simp)

lemma attach_buf_ok:
  assumes "sized_alloc al" and "attach_buf al b len = (ok, c)" and "bb_buf b = None" and "0 < bb_size b"
  shows "bb_peer c = bb_peer b" and "ok \<Longrightarrow> ring_ok c"
proof -
  have l: "al n = Some blk \<Longrightarrow> length blk = n \<and> n < 2 ^ 63" for n blk
    using assms(1) by (auto simp: sized_alloc_def dest: good_allocD)
  show "bb_peer c = bb_peer b" "ok \<Longrightarrow> ring_ok c"
    using assms(2-4) by (auto simp: attach_buf_def Let_def ring_ok_def dest: l split: if_splits option.splits)
qed

text \<open>The two halves in their store.\<close>

lemma join_ok:
  assumes "store_ok B" and "B a1 = None" and "B a2 = None" and "a1 \<noteq> a2" and "a1 \<noteq> 0" and "a2 \<noteq> 0"
    and "bio_method x1 = Pair_method" "bio_init x1" "bio_references x1 = 1" "bio_next x1 = 0" "bio_ptr x1 = Pair_data c1" "bb_peer c1 = a2" "ring_ok c1"
    and "bio_method x2 = Pair_method" "bio_init x2" "bio_references x2 = 1" "bio_next x2 = 0" "bio_ptr x2 = Pair_data c2" "bb_peer c2 = a1" "ring_ok c2"
  shows "store_ok (B(a1 := Some x1, a2 := Some x2))"
proof -
  let ?B = "B(a1 := Some x1, a2 := Some x2)"
  have "obj_ok ?B c z" if c: "?B c = Some z" for c z
  proof -
    consider "z = x1" "c = a1" | "z = x2" "c = a2" | "B c = Some z"
    proof (cases "c = a1 \<or> c = a2")
      case True
      then show thesis using c assms(4) that(1,2) by auto
    next
      case False
      then show thesis using c by (intro that(3)) simp
    qed
    then show ?thesis
    proof cases
      case 1
      have "half_ok ?B a1 x1 c1" using assms(4-6,8,12,13) assms(14,18,19) by (simp add: half_ok_def)
      then show ?thesis using 1 assms(7,9,10,11) refcount_max by (simp add: obj_ok_def)
    next
      case 2
      have "half_ok ?B a2 x2 c2" using assms(4-7,11,12,15,19,20) by (simp add: half_ok_def)
      then show ?thesis using 2 assms(14,16,17,18) refcount_max by (simp add: obj_ok_def)
    next
      case 3
      from store_okD [OF assms(1) 3] show ?thesis by (rule obj_ok_mono) (use assms(2,3) in auto)
    qed
  qed
  then show ?thesis using assms(1,5,6) by (simp add: store_ok_def)
qed

lemma new_bio_pair_ok:
  assumes "sized_alloc al" and "good_fresh fresh" and "store_ok B"
  shows "\<exists>ok a1 a2 B1. BIO_new_bio_pair al fresh B len1 len2 = Some (ok, a1, a2, B1) \<and> store_ok B1 \<and> (ok \<longrightarrow> joined B1 a1 a2)"
proof -
  obtain a1 B1 where n1: "BIO_new al fresh Pair_method B = (a1, B1)" by force
  obtain a2 B2 where n2: "BIO_new al fresh Pair_method B1 = (a2, B2)" by force
  have s1: "store_ok B1" by (rule new_half_ok [OF assms(2,3) n1])
  have s2: "store_ok B2" by (rule new_half_ok [OF assms(2) s1 n2])
  have undo: "\<exists>a1 a2 B5. BIO_free a1' B3 \<bind> (\<lambda>(_, B4). BIO_free a2' B4 \<bind> (\<lambda>(_, B5). Some (False, 0 :: nat, 0 :: nat, B5))) = Some (False, a1, a2, B5) \<and> store_ok B5"
    if "store_ok B3" "a1' = 0 \<or> B3 a1' \<noteq> None" "a2' = 0 \<or> B3 a2' \<noteq> None" "a1' \<noteq> a2' \<or> a1' = 0" for B3 a1' a2'
  proof -
    from BIO_free_ok [OF that(1,2)] obtain g B4 where f: "BIO_free a1' B3 = Some (g, B4)" "store_ok B4" "\<forall>c. c \<noteq> a1' \<longrightarrow> (B4 c = None) = (B3 c = None)" by blast
    have "a2' = 0 \<or> B4 a2' \<noteq> None"
      using f(3) that(3,4) by (cases "a1' = 0") metis+
    from BIO_free_ok [OF f(2) this] f(1) show ?thesis by auto
  qed
  show ?thesis
  proof (cases "a1 = 0 \<or> a2 = 0")
    case True
    have "a1 = 0 \<or> B2 a1 \<noteq> None" "a2 = 0 \<or> B2 a2 \<noteq> None" "a1 \<noteq> a2 \<or> a1 = 0"
      using BIO_new_address [OF assms(2) n1] BIO_new_address [OF assms(2) n2] True by (blast, blast, auto)
    from undo [OF s2 this] True n1 n2 show ?thesis by (auto simp: BIO_new_bio_pair_def)
  next
    case False
    define b where "b = \<lparr>bb_peer = 0, bb_closed = False, bb_len = 0, bb_offset = 0, bb_size = 17 * 1024, bb_buf = None, bb_request = 0\<rparr>"
    obtain x1 where x1: "B a1 = None" "B1 = B(a1 := Some x1)" "bio_method x1 = Pair_method" "bio_references x1 = 1" "bio_next x1 = 0" "bio_ptr x1 = Pair_data b"
      using BIO_new_cases [OF assms(2) n1] False by (metis b_def)
    obtain x2 where x2: "B1 a2 = None" "B2 = B1(a2 := Some x2)" "bio_method x2 = Pair_method" "bio_references x2 = 1" "bio_next x2 = 0" "bio_ptr x2 = Pair_data b"
      using BIO_new_cases [OF assms(2) n2] False by (metis b_def)
    have ne: "a1 \<noteq> a2" "B a2 = None" using x1(2) x2(1) by (auto split: if_splits)
    have h: "half B2 a1 = Some b" "half B2 a2 = Some b" using x1(2,6) x2(2,6) ne by (simp_all add: half_def)
    have b: "bb_buf b = None" "0 < bb_size b" "bb_peer b = 0" "\<not> ring_ok b" by (simp_all add: b_def ring_ok_def)
    obtain ok1 c1 where c1: "attach_buf al b len1 = (ok1, c1)" by force
    obtain ok2 c2 where c2: "attach_buf al b len2 = (ok2, c2)" by force
    note a1 = attach_buf_ok [OF assms(1) c1 b(1,2)] and a2 = attach_buf_ok [OF assms(1) c2 b(1,2)]
    define B3 where "B3 = (if ok1 then set_half (set_half B2 a1 c1) a2 c2 else set_half B2 a1 c1)"
    have k1: "keeps_store B2 (set_half B2 a1 c1)" by (rule keeps_set_half [OF h(1)]) (use a1 b in simp_all)
    have h2: "half (set_half B2 a1 c1) a2 = Some b" using half_set_half [of B2 a1 c1 a2] h ne by simp
    have "keeps_store (set_half B2 a1 c1) (set_half (set_half B2 a1 c1) a2 c2)" by (rule keeps_set_half [OF h2]) (use a2 b in simp_all)
    then have k3: "keeps_store B2 B3" using k1 keeps_store_trans by (auto simp: B3_def)
    show ?thesis
    proof (cases "ok1 \<and> ok2")
      case False
      then have m: "bio_make_pair al B2 a1 a2 len1 len2 = Some (False, B3)"
        using h b(3) c1 c2 by (cases ok1) (simp_all add: bio_make_pair_def B3_def)
      have "B3 a1 \<noteq> None" "B3 a2 \<noteq> None" using x1(2) x2(2) by (simp_all add: B3_def set_half_def upd_def)
      then show ?thesis using undo [OF store_ok_keeps [OF s2 k3], of a1 a2] ne \<open>\<not> (a1 = 0 \<or> a2 = 0)\<close> n1 n2 m by (auto simp: BIO_new_bio_pair_def)
    next
      case True
      define y1 where "y1 = x1\<lparr>bio_ptr := Pair_data (c1\<lparr>bb_peer := a2, bb_closed := False, bb_request := 0\<rparr>), bio_init := True\<rparr>"
      define y2 where "y2 = x2\<lparr>bio_ptr := Pair_data (c2\<lparr>bb_peer := a1, bb_closed := False, bb_request := 0\<rparr>), bio_init := True\<rparr>"
      have m: "bio_make_pair al B2 a1 a2 len1 len2 = Some (True, B(a1 := Some y1, a2 := Some y2))"
        using True h b(3) c1 c2 x1(2) x2(2) ne by (simp add: bio_make_pair_def Let_def set_half_def upd_def y1_def y2_def fun_upd_twist)
      have r: "ring_ok c1" "ring_ok c2" using True a1(2) a2(2) by simp_all
      have "store_ok (B(a1 := Some y1, a2 := Some y2))"
      proof (rule join_ok [OF assms(3) x1(1) ne(2,1)])
        show "bio_ptr y1 = Pair_data (c1\<lparr>bb_peer := a2, bb_closed := False, bb_request := 0\<rparr>)"
          "bio_ptr y2 = Pair_data (c2\<lparr>bb_peer := a1, bb_closed := False, bb_request := 0\<rparr>)" by (simp_all add: y1_def y2_def)
      qed (use False x1 x2 r in \<open>simp_all add: y1_def y2_def ring_ok_def\<close>)
      moreover have "joined (B(a1 := Some y1, a2 := Some y2)) a1 a2" using False ne(1) x1(3) by (simp add: joined_def y1_def)
      ultimately show ?thesis using m False n1 n2 by (auto simp: BIO_new_bio_pair_def)
    qed
  qed
qed

section \<open>Reachable stores\<close>

text \<open>The caller's buffer of a memory BIO is as long as he says, and no longer than an \<open>int\<close> can count.\<close>

inductive bio_reachable :: "allocator \<Rightarrow> (bios \<Rightarrow> nat) \<Rightarrow> bios \<Rightarrow> bool" for al fresh where
  no_bios: "bio_reachable al fresh (\<lambda>_. None)"
| io: "bio_reachable al fresh B \<Longrightarrow> io_step al B ev B1 \<Longrightarrow> bio_reachable al fresh B1"
| new_mem: "bio_reachable al fresh B \<Longrightarrow> BIO_new al fresh Mem_method B = (a, B1) \<Longrightarrow> bio_reachable al fresh B1"
| new_mem_buf: "bio_reachable al fresh B \<Longrightarrow> BIO_new_mem_buf al fresh B buf len = Some (a, B1) \<Longrightarrow> len \<le> INT_MAX \<Longrightarrow>
    (\<forall>s. buf = Some s \<longrightarrow> len \<le> int (length s) \<and> int (length (takeWhile (\<lambda>c. c \<noteq> 0) s)) \<le> INT_MAX) \<Longrightarrow> bio_reachable al fresh B1"
| new_pair: "bio_reachable al fresh B \<Longrightarrow> BIO_new_bio_pair al fresh B len1 len2 = Some (ok, a1, a2, B1) \<Longrightarrow> bio_reachable al fresh B1"
| up_ref: "bio_reachable al fresh B \<Longrightarrow> BIO_up_ref B a = Some B1 \<Longrightarrow> bio_reachable al fresh B1"
| free: "bio_reachable al fresh B \<Longrightarrow> BIO_free a B = Some (gone, B1) \<Longrightarrow> bio_reachable al fresh B1"

lemma up_ref_ok: "store_ok B \<Longrightarrow> BIO_up_ref B a = Some B1 \<Longrightarrow> store_ok B1"
proof -
  assume s: "store_ok B" and u: "BIO_up_ref B a = Some B1"
  then obtain bio where b: "B a = Some bio" "B1 = B(a := Some (bio\<lparr>bio_references := CRYPTO_refcount_inc (bio_references bio)\<rparr>))"
    by (auto simp: BIO_up_ref_def split: Option.bind_splits)
  have "0 < CRYPTO_refcount_inc (bio_references bio)" "CRYPTO_refcount_inc (bio_references bio) \<le> CRYPTO_REFCOUNT_MAX"
    using store_okD [OF s b(1)] by (auto simp: CRYPTO_refcount_inc_def obj_ok_def)
  from keeps_refs [OF s b(1) this] b(2) show ?thesis by simp
qed

lemma free_defined: "BIO_free a B = Some x \<Longrightarrow> a = 0 \<or> B a \<noteq> None"
  by (cases "B a") (simp_all add: BIO_free.simps [of a B] free_one_def split: if_splits)

lemma reachable_ok: "bio_reachable al fresh B \<Longrightarrow> sized_alloc al \<Longrightarrow> good_fresh fresh \<Longrightarrow> store_ok B"
proof (induction rule: bio_reachable.induct)
  case no_bios
  then show ?case by (simp add: store_ok_def)
next
  case (io B ev B1)
  then show ?case using io_step_effect store_ok_keeps by (metis effect_def)
next
  case (new_mem B a B1)
  then show ?case using new_mem_ok by blast
next
  case (new_mem_buf B buf len a B1)
  then show ?case using new_mem_buf_ok by blast
next
  case (new_pair B len1 len2 ok a1 a2 B1)
  then show ?case using new_bio_pair_ok [of al fresh B len1 len2] by auto
next
  case (up_ref B a B1)
  then show ?case using up_ref_ok by blast
next
  case (free B a gone B1)
  then show ?case using BIO_free_ok [where a = a and B = B, OF _ free_defined [OF free.hyps(2)]] by auto
qed

end
