(* ===== verification/Bio_Asn1.thy ===== *)
theory Bio_Asn1
  imports Bio Der_Parse
begin

text \<open>
  Reading a whole ASN.1 element from a BIO (\<open>BIO_read_asn1\<close> and the functions it uses, \<open>crypto/bio/bio.c\<close>).  The BIO is a
  function \<open>rd\<close> on a state, its \<open>BIO_read\<close>; the interface \<open>byte_source\<close> says what is needed of it, and both kinds of BIO
  provide it.  An output buffer is a block and the number of bytes of it that are said to be filled.
\<close>

type_synonym 's reader = "int \<Rightarrow> 's \<Rightarrow> (int \<times> byte list \<times> 's) option"

section \<open>The code\<close>

text \<open>
  The results: whether all bytes were read, whether the end was met at the first read, and the bytes.  Each round reads a
  byte or more, so that the length bounds their number.
\<close>

primrec read_full_loop :: "nat \<Rightarrow> 's reader \<Rightarrow> bool \<Rightarrow> nat \<Rightarrow> 's \<Rightarrow> (bool \<times> bool \<times> byte list \<times> 's) option" where
  "read_full_loop 0 rd first_read len s = (if len = 0 then Some (True, False, [], s) else None)"
| "read_full_loop (Suc k) rd first_read len s =
     (if len = 0 then Some (True, False, [], s)
      else do {
        (ret, bs, s1) \<leftarrow> rd (if int len \<le> INT_MAX then int len else INT_MAX) s;
        if ret \<le> 0 then Some (False, first_read \<and> ret = 0, [], s1)
        else do { (ok, eof, bs1, s2) \<leftarrow> read_full_loop k rd False (size_sub len (nat ret)) s1;
                  Some (ok, eof, bs @ bs1, s2) } })"

definition bio_read_full :: "'s reader \<Rightarrow> nat \<Rightarrow> 's \<Rightarrow> (bool \<times> bool \<times> byte list \<times> 's) option" where
  "bio_read_full rd len s = read_full_loop len rd True len s"

definition kChunkSize :: nat where
  "kChunkSize = 4096"

definition read_all_grow :: "allocator \<Rightarrow> nat \<Rightarrow> byte list \<Rightarrow> nat \<Rightarrow> byte list option" where
  "read_all_grow al max_len out got =
     (let len = length out
      in if len < max_len \<and> size_sub len got < kChunkSize div 2 then
           let l1 = size_wrap (len + kChunkSize)
           in realloc_block al out (if l1 < kChunkSize \<or> l1 > max_len then max_len else l1)
         else Some out)"

text \<open>
  A negative result other than \<open>-1\<close> is added to the count; a write in front of the block or behind it, and the
  failure of the assertion on \<open>todo\<close>, are \<open>None\<close>.
\<close>

partial_function (option) read_all_loop ::
  "allocator \<Rightarrow> 's reader \<Rightarrow> nat \<Rightarrow> byte list \<Rightarrow> nat \<Rightarrow> 's \<Rightarrow> ((byte list \<times> nat) option \<times> 's) option" where
  "read_all_loop al rd max_len out got s =
     (if got = length out then Some (None, s)
      else if \<not> int (size_sub (length out) got) < INT_MAX then None
      else case rd (int (size_sub (length out) got)) s of
             None \<Rightarrow> None
           | Some (n, bs, s1) \<Rightarrow>
               if bs \<noteq> [] \<and> got + length bs > length out then None
               else if n = 0 then Some (Some (out, got), s1)
               else if n = -1 then Some (None, s1)
               else case read_all_grow al max_len (mem_write got bs out) (nat ((int got + n) mod 2 ^ 64)) of
                      None \<Rightarrow> Some (None, s1)
                    | Some out1 \<Rightarrow> read_all_loop al rd max_len out1 (nat ((int got + n) mod 2 ^ 64)) s1)"

declare read_all_loop.simps [code]

definition bio_read_all :: "allocator \<Rightarrow> 's reader \<Rightarrow> byte list \<Rightarrow> nat \<Rightarrow> 's \<Rightarrow> ((byte list \<times> nat) option \<times> 's) option" where
  "bio_read_all al rd prefx max_len s =
     (let len0 = size_wrap (length prefx + kChunkSize);
          len = (if len0 > max_len then max_len else len0)
      in if len < length prefx then Some (None, s)
         else case al len of
                None \<Rightarrow> Some (None, s)
              | Some blk \<Rightarrow> read_all_loop al rd max_len (mem_write 0 prefx blk) (length prefx) s)"

text \<open>The part after the header: \<open>len\<close> contents bytes.\<close>

definition read_asn1_body :: "allocator \<Rightarrow> 's reader \<Rightarrow> byte list \<Rightarrow> nat \<Rightarrow> nat \<Rightarrow> 's \<Rightarrow> ((byte list \<times> nat) option \<times> 's) option" where
  "read_asn1_body al rd header len max_len s =
     (let header_len = length header
      in if size_wrap (len + header_len) < len \<or> size_wrap (len + header_len) > max_len \<or> int len > INT_MAX then Some (None, s)
         else let len1 = size_wrap (len + header_len)
              in case al len1 of
                   None \<Rightarrow> Some (None, s)
                 | Some blk \<Rightarrow>
                     do { (ok, _, bs, s1) \<leftarrow> bio_read_full rd (size_sub len1 header_len) s;
                          Some (if ok then Some (mem_write header_len bs (mem_write 0 header blk), len1) else None, s1) })"

definition BIO_read_asn1 :: "allocator \<Rightarrow> 's reader \<Rightarrow> nat \<Rightarrow> 's \<Rightarrow> ((byte list \<times> nat) option \<times> 's) option" where
  "BIO_read_asn1 al rd max_len s =
     do { (ok, eof, header, s1) \<leftarrow> bio_read_full rd 2 s;
          if \<not> ok then Some (None, s1)
          else
            let tag = header ! 0;
                length_byte = header ! 1
            in if tag AND 0x1f = 0x1f then Some (None, s1)
               else if length_byte AND 0x80 = 0 then read_asn1_body al rd header (unat length_byte) max_len s1
               else
                 let num_bytes = unat (length_byte AND 0x7f)
                 in if tag AND 0x20 \<noteq> 0 \<and> num_bytes = 0 then bio_read_all al rd header max_len s1
                    else if num_bytes = 0 \<or> num_bytes > 4 then Some (None, s1)
                    else do {
                      (ok2, _, lens, s2) \<leftarrow> bio_read_full rd num_bytes s1;
                      if \<not> ok2 then Some (None, s2)
                      else
                        let len32 = foldl (\<lambda>v b. push_bit 8 v OR ucast b) (0 :: u32) lens
                        in if len32 < 128 \<or> drop_bit ((num_bytes - 1) * 8) len32 = 0 then Some (None, s2)
                           else read_asn1_body al rd (header @ lens) (unat len32) max_len s2 } }"

section \<open>What is read\<close>

text \<open>An element with a one-byte identifier and the shortest length, and one with an indefinite length.\<close>

definition asn1_definite :: "byte list \<Rightarrow> bool" where
  "asn1_definite e \<longleftrightarrow> (\<exists>b v. e = b # der_len (length v) @ v \<and> b AND 0x1f \<noteq> 0x1f \<and> int (length v) \<le> INT_MAX)"

definition asn1_indefinite :: "byte list \<Rightarrow> bool" where
  "asn1_indefinite e \<longleftrightarrow> (\<exists>b v. e = b # 0x80 # v \<and> b AND 0x1f \<noteq> 0x1f \<and> b AND 0x20 \<noteq> 0)"

text \<open>The block returned holds an element from the front of the input.\<close>

definition element_read :: "nat \<Rightarrow> byte list \<Rightarrow> (byte list \<times> nat) option \<Rightarrow> byte list \<Rightarrow> bool" where
  "element_read max_len inp r rest \<longleftrightarrow> (\<forall>blk n. r = Some (blk, n) \<longrightarrow> n \<le> length blk \<and> inp = take n blk @ rest \<and>
     (asn1_definite (take n blk) \<and> n \<le> max_len \<or> asn1_indefinite (take n blk) \<and> rest = []))"

lemma element_read_None [simp]: "element_read max_len inp None rest"
  by (simp add: element_read_def)

lemma len32_value:
  assumes "length bs \<le> 4"
  shows "unat (foldl (\<lambda>v b. push_bit 8 v OR ucast b) (0 :: u32) bs) = be_val bs"
proof -
  have "foldl (\<lambda>v b. push_bit 8 v OR ucast b) (0 :: u32) bs = word_of_nat (be_val bs)" for bs
    by (induction bs rule: rev_induct) (simp_all add: shift_in_byte add.commute)
  moreover have "be_val bs < 2 ^ 32"
    using be_val_less [of bs] power_increasing [of "length bs" 4 "256 :: nat"] assms by simp
  ultimately show ?thesis by (simp add: unat_word_of_nat_id)
qed

lemma mem_write_all: "length hs + length bs = length blk \<Longrightarrow> mem_write (length hs) bs (mem_write 0 hs blk) = hs @ bs"
  by (simp add: mem_write_def)

section \<open>The interface\<close>

locale byte_source =
  fixes ok :: "'s \<Rightarrow> bool"
    and avail :: "'s \<Rightarrow> byte list"
    and rd :: "'s reader"
  assumes rd_data: "\<lbrakk>ok s; 0 < n; n \<le> INT_MAX; avail s \<noteq> []\<rbrakk> \<Longrightarrow>
      \<exists>s1. rd n s = Some (int (length (take (nat n) (avail s))), take (nat n) (avail s), s1) \<and> ok s1 \<and> avail s1 = drop (nat n) (avail s)"
    and rd_empty: "\<lbrakk>ok s; 0 < n; n \<le> INT_MAX; avail s = []\<rbrakk> \<Longrightarrow>
      \<exists>r s1. rd n s = Some (r, [], s1) \<and> ok s1 \<and> avail s1 = [] \<and> (r = 0 \<or> r = -1)"
begin

lemma read_full_loop_exact:
  assumes "ok s" and "len \<le> k" and "len < 2 ^ 64"
  shows "\<exists>eof s1. read_full_loop k rd first_read len s = Some (len \<le> length (avail s), eof, take len (avail s), s1) \<and>
    ok s1 \<and> avail s1 = drop len (avail s)"
  using assms
proof (induction k arbitrary: first_read len s)
  case 0
  then show ?case by auto
next
  case (Suc k)
  show ?case
  proof (cases "len = 0")
    case True
    then show ?thesis using Suc.prems by auto
  next
    case False
    define n where "n = (if int len \<le> INT_MAX then int len else INT_MAX)"
    have n: "0 < n" "n \<le> INT_MAX" "nat n \<le> len" using False by (auto simp: n_def INT_MAX_def)
    show ?thesis
    proof (cases "avail s = []")
      case True
      from rd_empty [OF Suc.prems(1) n(1,2) True] obtain r s1 where
        "rd n s = Some (r, [], s1)" "ok s1" "avail s1 = []" "r \<le> 0" by auto
      then show ?thesis using False True by (simp add: n_def)
    next
      case ne: False
      define m where "m = length (take (nat n) (avail s))"
      have m: "0 < m" "m \<le> len" using n ne by (auto simp: m_def)
      from rd_data [OF Suc.prems(1) n(1,2) ne] obtain s1 where
        s1: "rd n s = Some (int m, take (nat n) (avail s), s1)" "ok s1" "avail s1 = drop (nat n) (avail s)"
        unfolding m_def by blast
      have sub: "size_sub len (nat (int m)) = len - m" using m(2) Suc.prems(3) by (simp add: size_sub_small)
      have le: "len - m \<le> k" "len - m < 2 ^ 64" using m Suc.prems(2,3) by simp_all
      from Suc.IH [OF s1(2) le, of False] obtain eof s2 where
        IH: "read_full_loop k rd False (len - m) s1 = Some (len - m \<le> length (avail s1), eof, take (len - m) (avail s1), s2)"
          "ok s2" "avail s2 = drop (len - m) (avail s1)" by blast
      have e: "read_full_loop (Suc k) rd first_read len s =
          Some (len - m \<le> length (avail s1), eof, take (nat n) (avail s) @ take (len - m) (avail s1), s2)"
        using False s1(1) m(1) IH(1) sub unfolding n_def by simp
      show ?thesis
      proof (cases "nat n \<le> length (avail s)")
        case True
        then have m': "m = nat n" by (simp add: m_def)
        have "take (nat n) (avail s) @ take (len - nat n) (drop (nat n) (avail s)) = take len (avail s)"
          "drop (len - nat n) (drop (nat n) (avail s)) = drop len (avail s)"
          using n(3) take_add [of "nat n" "len - nat n" "avail s"] True by (simp_all add: add.commute)
        moreover have "len - nat n \<le> length (avail s) - nat n \<longleftrightarrow> len \<le> length (avail s)" using n(3) True by linarith
        ultimately show ?thesis using e IH(2,3) s1(3) m' by simp
      next
        case short: False
        then have "m = length (avail s)" "avail s1 = []" using s1(3) by (simp_all add: m_def)
        moreover have "length (avail s) < len" using short n(3) by simp
        ultimately show ?thesis using e IH(2,3) short by simp
      qed
    qed
  qed
qed

lemma read_full_exact:
  assumes "ok s" and "len < 2 ^ 64"
  shows "\<exists>eof s1. bio_read_full rd len s = Some (len \<le> length (avail s), eof, take len (avail s), s1) \<and> ok s1 \<and> avail s1 = drop len (avail s)"
  unfolding bio_read_full_def by (rule read_full_loop_exact [OF assms(1) order_refl assms(2)])

lemma read_body_exact:
  assumes "ok s" and "good_alloc al" and "length header \<le> 6" and "len < 2 ^ 32"
  defines "n \<equiv> length header + len"
  shows "\<exists>s1. ok s1 \<and> read_asn1_body al rd header len max_len s =
     Some (if n \<le> max_len \<and> int len \<le> INT_MAX \<and> al n \<noteq> None \<and> len \<le> length (avail s) then Some (header @ take len (avail s), n) else None, s1) \<and>
     (n \<le> max_len \<and> int len \<le> INT_MAX \<and> al n \<noteq> None \<longrightarrow> avail s1 = drop len (avail s))"
proof -
  have w: "size_wrap (len + length header) = n" using assms(3,4) by (simp add: n_def add.commute)
  have sub: "size_sub n (length header) = len" using assms(3,4) by (simp add: n_def size_sub_small)
  have le: "\<not> n < len" by (simp add: n_def)
  note E = read_asn1_body_def [of al rd header len max_len s, unfolded Let_def w]
  show ?thesis
  proof (cases "n \<le> max_len \<and> int len \<le> INT_MAX \<and> al n \<noteq> None")
    case False
    then show ?thesis using assms(1) le by (auto simp: E split: option.splits)
  next
    case True
    then obtain blk where blk: "al n = Some blk" "length blk = n" using assms(2) by (auto dest: good_allocD)
    from read_full_exact [OF assms(1), of len] assms(4) obtain eof s1 where
      r: "bio_read_full rd len s = Some (len \<le> length (avail s), eof, take len (avail s), s1)" "ok s1" "avail s1 = drop len (avail s)" by auto
    have "len \<le> length (avail s) \<Longrightarrow>
        mem_write (length header) (take len (avail s)) (mem_write 0 header blk) = header @ take len (avail s)"
      by (rule mem_write_all) (simp add: blk(2) n_def)
    then show ?thesis using True blk(1) r le sub by (auto simp: E)
  qed
qed

text \<open>What remains is read whole, or not at all.\<close>

lemma read_all_loop_exact:
  assumes "ok s" and "sized_alloc al" and "got \<le> length out" and "length out < 2 ^ 63" and "length out - got \<le> 2 * kChunkSize"
  shows "\<exists>r s1. read_all_loop al rd max_len out got s = Some (r, s1) \<and> ok s1 \<and>
    (\<forall>blk n. r = Some (blk, n) \<longrightarrow> n \<le> length blk \<and> take n blk = take got out @ avail s \<and> avail s1 = [])"
  using assms(1,3-5)
proof (induction "length (avail s)" arbitrary: s out got rule: less_induct)
  case less
  note E = read_all_loop.simps [of al rd max_len out got s]
  show ?case
  proof (cases "got = length out")
    case True
    then have "read_all_loop al rd max_len out got s = Some (None, s)" by (subst E) simp
    then show ?thesis using less.prems(1) by blast
  next
    case neq: False
    define todo where "todo = length out - got"
    have sub: "size_sub (length out) got = todo" using less.prems(2,3) by (simp add: todo_def size_sub_small)
    have t: "0 < int todo" "int todo < INT_MAX" "int todo \<le> INT_MAX"
      using neq less.prems(2,4) by (simp_all add: todo_def INT_MAX_def kChunkSize_def)
    show ?thesis
    proof (cases "avail s = []")
      case True
      from rd_empty [OF less.prems(1) t(1,3) True] obtain r s1 where
        r: "rd (int todo) s = Some (r, [], s1)" "ok s1" "avail s1 = []" "r = 0 \<or> r = -1" by blast
      then show ?thesis using neq t(2) sub True less.prems(2) by (auto simp: E)
    next
      case ne: False
      define bs where "bs = take todo (avail s)"
      from rd_data [OF less.prems(1) t(1,3) ne] obtain s1 where
        s1: "rd (int todo) s = Some (int (length bs), bs, s1)" "ok s1" "avail s1 = drop todo (avail s)" by (auto simp: bs_def)
      have bs: "0 < length bs" "length bs \<le> todo" using ne t(1) by (simp_all add: bs_def)
      have le: "got + length bs \<le> length out" using bs(2) neq less.prems(2) by (simp add: todo_def)
      define got1 where "got1 = got + length bs"
      have g: "nat ((int got + int (length bs)) mod 2 ^ 64) = got1"
        using le less.prems(3) by (simp add: got1_def nat_mod_distrib flip: of_nat_add)
      define out0 where "out0 = mem_write got bs out"
      have out0: "length out0 = length out" "take got1 out0 = take got out @ bs"
        using le take_mem_write [of got bs out] by (simp_all add: out0_def got1_def)
      have "bs \<noteq> []" using bs(1) by simp
      then have e: "read_all_loop al rd max_len out got s =
          (case read_all_grow al max_len out0 got1 of None \<Rightarrow> Some (None, s1) | Some out1 \<Rightarrow> read_all_loop al rd max_len out1 got1 s1)"
        using neq t(2) s1(1) bs(1) le g unfolding E if_not_P [OF neq] sub out0_def by (simp cong: option.case_cong)
      have dec: "length (avail s1) < length (avail s)" using s1(3) ne t(1) by simp
      have whole: "bs @ avail s1 = avail s" using s1(3) by (simp add: bs_def)
      show ?thesis
      proof (cases "read_all_grow al max_len out0 got1")
        case None
        then show ?thesis using e s1(2) by simp
      next
        case (Some out1)
        have grown: "length out1 < 2 ^ 63 \<and> got1 \<le> length out1 \<and> length out1 - got1 \<le> 2 * kChunkSize \<and> take got1 out1 = take got1 out0"
        proof (cases "length out0 < max_len \<and> size_sub (length out0) got1 < kChunkSize div 2")
          case False
          then have "out1 = out0" using Some by (auto simp: read_all_grow_def Let_def)
          then show ?thesis using out0(1) less.prems le by (simp add: got1_def)
        next
          case True
          define l2 where "l2 = (if size_wrap (length out0 + kChunkSize) < kChunkSize \<or> size_wrap (length out0 + kChunkSize) > max_len then max_len
            else size_wrap (length out0 + kChunkSize))"
          have w: "size_wrap (length out0 + kChunkSize) = length out0 + kChunkSize"
            using out0(1) less.prems(3) by (simp add: kChunkSize_def)
          then have l2: "length out0 \<le> l2" "l2 \<le> length out0 + kChunkSize" using True by (auto simp: l2_def)
          have s: "realloc_block al out0 l2 = Some out1" using Some True by (simp add: read_all_grow_def Let_def l2_def)
          have ga: "good_alloc al" using assms(2) by (simp add: sized_alloc_def)
          have "l2 < 2 ^ 63" using assms(2) s by (auto simp: sized_alloc_def realloc_block_def split: option.splits)
          note o = realloc_block_SomeD [OF ga s l2(1)]
          have ss: "size_sub (length out0) got1 = length out0 - got1" using out0(1) le less.prems(3) by (simp add: got1_def size_sub_small)
          have "got1 \<le> length out0" using out0(1) le by (simp add: got1_def)
          moreover have "take got1 out1 = take got1 (take (length out0) out1)" using calculation by (simp add: min_def)
          then have "take got1 out1 = take got1 out0" unfolding o(2) .
          moreover have "length out0 - got1 < kChunkSize div 2" using True ss by simp
          ultimately show ?thesis using o(1) \<open>l2 < 2 ^ 63\<close> l2 by (simp add: kChunkSize_def)
        qed
        from less.hyps [OF dec s1(2)] grown obtain r s2 where
          "read_all_loop al rd max_len out1 got1 s1 = Some (r, s2)" "ok s2"
          "\<forall>blk n. r = Some (blk, n) \<longrightarrow> n \<le> length blk \<and> take n blk = take got1 out1 @ avail s1 \<and> avail s2 = []" by blast
        then show ?thesis using e Some grown out0(2) whole by auto
      qed
    qed
  qed
qed

lemma read_all_exact:
  assumes "ok s" and "sized_alloc al"
  shows "\<exists>r s1. bio_read_all al rd prefix max_len s = Some (r, s1) \<and> ok s1 \<and>
    (\<forall>blk n. r = Some (blk, n) \<longrightarrow> n \<le> length blk \<and> take n blk = prefix @ avail s \<and> avail s1 = [])"
proof -
  define len where "len = (if size_wrap (length prefix + kChunkSize) > max_len then max_len else size_wrap (length prefix + kChunkSize))"
  note E = bio_read_all_def [of al rd prefix max_len s, unfolded Let_def, folded len_def]
  show ?thesis
  proof (cases "len < length prefix \<or> al len = None")
    case True
    then show ?thesis using assms(1) by (auto simp: E)
  next
    case False
    then obtain blk where blk: "al len = Some blk" "length prefix \<le> len" by auto
    then have l: "length blk = len" "len < 2 ^ 63" using assms(2) by (auto simp: sized_alloc_def dest: good_allocD)
    let ?out = "mem_write 0 prefix blk"
    have "len \<le> length prefix + kChunkSize" using size_wrap_le [of "length prefix + kChunkSize"] by (auto simp: len_def)
    then have o: "length prefix \<le> length ?out" "length ?out < 2 ^ 63" "length ?out - length prefix \<le> 2 * kChunkSize" "take (length prefix) ?out = prefix"
      using blk(2) l take_mem_write [of 0 prefix blk] by simp_all
    from read_all_loop_exact [OF assms o(1-3), of max_len] show ?thesis using False blk o(4) by (simp add: E)
  qed
qed

text \<open>Whatever is returned is an element from the front of the source.\<close>

lemma read_body_sound:
  assumes "ok s1" and "good_alloc al" and "length hs \<le> 6" and "len < 2 ^ 32" and "hs = b # der_len len" and "b AND 0x1f \<noteq> 0x1f"
  shows "\<exists>r s2. read_asn1_body al rd hs len max_len s1 = Some (r, s2) \<and> ok s2 \<and> element_read max_len (hs @ avail s1) r (avail s2)"
proof -
  from read_body_exact [OF assms(1-4), of max_len] obtain s2 where s2: "ok s2"
    "read_asn1_body al rd hs len max_len s1 = Some (if length hs + len \<le> max_len \<and> int len \<le> INT_MAX \<and> al (length hs + len) \<noteq> None \<and> len \<le> length (avail s1)
       then Some (hs @ take len (avail s1), length hs + len) else None, s2)"
    "length hs + len \<le> max_len \<and> int len \<le> INT_MAX \<and> al (length hs + len) \<noteq> None \<longrightarrow> avail s2 = drop len (avail s1)" by blast
  have "asn1_definite (hs @ take len (avail s1))" if "len \<le> length (avail s1)" "int len \<le> INT_MAX"
    unfolding asn1_definite_def using that assms(5,6) by (intro exI [of _ b] exI [of _ "take len (avail s1)"]) simp
  then show ?thesis using s2 by (auto simp: element_read_def)
qed

text \<open>The long form: \<open>k\<close> bytes of length.\<close>

lemma read_long_sound:
  assumes s1: "ok s1" and ga: "good_alloc al" and tag: "b AND 0x1f \<noteq> 0x1f" and k: "0 < k" "k \<le> 4" "l = byte_of (128 + k)"
  defines "len32 \<equiv> \<lambda>lens. foldl (\<lambda>v b. push_bit 8 v OR ucast b) (0 :: u32) lens"
  shows "\<exists>r s3. do { (ok2, _, lens, s2) \<leftarrow> bio_read_full rd k s1;
       if \<not> ok2 then Some (None, s2)
       else if len32 lens < 128 \<or> drop_bit ((k - 1) * 8) (len32 lens) = 0 then Some (None, s2)
       else read_asn1_body al rd ([b, l] @ lens) (unat (len32 lens)) max_len s2 } = Some (r, s3) \<and> ok s3 \<and>
     element_read max_len ([b, l] @ avail s1) r (avail s3)"
proof -
  have "k < 2 ^ 64" using k(2) by simp
  from read_full_exact [OF s1 this] obtain eof s2 where
    f: "bio_read_full rd k s1 = Some (k \<le> length (avail s1), eof, take k (avail s1), s2)" "ok s2" "avail s2 = drop k (avail s1)" by auto
  show ?thesis
  proof (cases "k \<le> length (avail s1)")
    case False
    then show ?thesis using f by simp
  next
    case True
    define p where "p = take k (avail s1)"
    have p: "length p = k" "[b, l] @ avail s1 = ([b, l] @ p) @ avail s2" using True f(3) by (simp_all add: p_def)
    have u: "unat (len32 p) = be_val p" unfolding len32_def by (rule len32_value) (simp add: p k)
    show ?thesis
    proof (cases "len32 p < 128 \<or> drop_bit ((k - 1) * 8) (len32 p) = 0")
      case True
      then show ?thesis using f \<open>k \<le> length (avail s1)\<close> by (auto simp: p_def [symmetric])
    next
      case False
      have "(2 :: nat) ^ ((k - 1) * 8) = 256 ^ (k - 1)" by (simp add: power_mult mult.commute [of _ 8])
      with False have "128 \<le> be_val p" "256 ^ (k - 1) \<le> be_val p" using u by (simp_all add: word_less_nat_alt drop_bit_eq_0_iff)
      then have hs: "[b, l] @ p = b # der_len (be_val p)" using der_len_long [OF p(1) k(1,2)] k(3) by simp
      have "be_val p < 2 ^ 32" using be_val_less [of p] power_increasing [of k 4 "256 :: nat"] k(2) p(1) by simp
      moreover have "length ([b, l] @ p) \<le> 6" using p(1) k(2) by simp
      ultimately have "\<exists>r s3. read_asn1_body al rd ([b, l] @ p) (be_val p) max_len s2 = Some (r, s3) \<and> ok s3 \<and>
          element_read max_len (([b, l] @ p) @ avail s2) r (avail s3)"
        using read_body_sound [OF f(2) ga _ _ hs tag] by blast
      then show ?thesis using False f(1) \<open>k \<le> length (avail s1)\<close> u unfolding p(2) by (simp add: p_def [symmetric])
    qed
  qed
qed

lemma read_asn1_sound:
  assumes "ok s" and "sized_alloc al"
  shows "\<exists>r s1. BIO_read_asn1 al rd max_len s = Some (r, s1) \<and> ok s1 \<and> element_read max_len (avail s) r (avail s1)"
proof -
  have ga: "good_alloc al" using assms(2) by (simp add: sized_alloc_def)
  from read_full_exact [OF assms(1), of 2] obtain eof s1 where
    h: "bio_read_full rd 2 s = Some (2 \<le> length (avail s), eof, take 2 (avail s), s1)" "ok s1" "avail s1 = drop 2 (avail s)" by auto
  consider "length (avail s) < 2" | b l where "avail s = [b, l] @ avail s1"
    using h(3) by (cases "avail s"; cases "tl (avail s)") auto
  then show ?thesis
  proof cases
    case 1
    then show ?thesis using h by (simp add: BIO_read_asn1_def)
  next
    case (2 b l)
    then have x: "take 2 (avail s) = [b, l]" "2 \<le> length (avail s)" by (simp_all add: 2)
    define k where "k = unat l mod 128"
    have i: "[b, l] ! 0 = b" "[b, l] ! 1 = l" by simp_all
    note E = BIO_read_asn1_def [of al rd max_len s, unfolded h(1) x(1), simplified, unfolded Let_def i unat_and_0x7f, folded k_def]
    consider (long_tag) "b AND 0x1f = 0x1f" | (short) "b AND 0x1f \<noteq> 0x1f" "unat l < 128"
      | (whole) "b AND 0x1f \<noteq> 0x1f" "128 \<le> unat l" "b AND 0x20 \<noteq> 0" "k = 0"
      | (bad) "b AND 0x1f \<noteq> 0x1f" "128 \<le> unat l" "k = 0 \<or> 4 < k" "\<not> (b AND 0x20 \<noteq> 0 \<and> k = 0)"
      | (long) "b AND 0x1f \<noteq> 0x1f" "128 \<le> unat l" "0 < k" "k \<le> 4" by linarith
    then show ?thesis
    proof cases
      case long_tag
      then show ?thesis using h(2) x(2) by (simp add: E)
    next
      case short
      then have "BIO_read_asn1 al rd max_len s = read_asn1_body al rd [b, l] (unat l) max_len s1" using x(2) by (simp add: E byte_high_bit)
      moreover have "length [b, l] \<le> 6" "unat l < 2 ^ 32" "[b, l] = b # der_len (unat l)" using short by (simp_all add: der_len_short)
      ultimately show ?thesis using read_body_sound [OF h(2) ga _ _ _ short(1), of "[b, l]" "unat l" max_len] unfolding 2 by (simp only:)
    next
      case whole
      then have "BIO_read_asn1 al rd max_len s = bio_read_all al rd [b, l] max_len s1" using x(2) by (simp add: E byte_high_bit)
      moreover have "l = 0x80" using whole byte_mod_high [of l] by (simp add: k_def byte_eq_iff)
      then have "asn1_indefinite ([b, l] @ avail s1)" using whole by (simp add: asn1_indefinite_def)
      ultimately show ?thesis using read_all_exact [OF h(2) assms(2), of "[b, l]" max_len] 2 by (auto simp: element_read_def)
    next
      case bad
      then show ?thesis using h(2) x(2) by (auto simp: E byte_high_bit)
    next
      case long
      have "l = byte_of (128 + k)" using long byte_cont [of l] by (simp add: k_def)
      from read_long_sound [OF h(2) ga long(1) long(3,4) this, of max_len] show ?thesis
        using long unfolding 2 by (simp add: E 2 byte_high_bit)
    qed
  qed
qed

text \<open>An element that is there is returned.\<close>

lemma read_asn1_complete:
  assumes "ok s" and "good_alloc al" and "asn1_definite e" and "avail s = e @ rest" and "length e \<le> max_len" and "al (length e) \<noteq> None"
  shows "\<exists>s1. BIO_read_asn1 al rd max_len s = Some (Some (e, length e), s1) \<and> ok s1 \<and> avail s1 = rest"
proof -
  from assms(3) obtain b v where e: "e = b # der_len (length v) @ v" and tag: "b AND 0x1f \<noteq> 0x1f" and v: "int (length v) \<le> INT_MAX"
    unfolding asn1_definite_def by blast
  have v32: "length v < 2 ^ 32" using v by (simp add: INT_MAX_def)
  have body: "\<exists>s2. read_asn1_body al rd hs (length v) max_len s1 = Some (Some (e, length e), s2) \<and> ok s2 \<and> avail s2 = rest"
    if "ok s1" "length hs \<le> 6" "e = hs @ v" "avail s1 = v @ rest" for hs s1
    using read_body_exact [OF that(1) assms(2) that(2) v32, of max_len] that(3,4) assms(5,6) v by auto
  obtain l xs where l: "der_len (length v) = l # xs" by (cases "der_len (length v)") (auto simp: der_len_def split: if_splits)
  from read_full_exact [OF assms(1), of 2] obtain eof s1 where
    h: "bio_read_full rd 2 s = Some (2 \<le> length (avail s), eof, take 2 (avail s), s1)" "ok s1" "avail s1 = drop 2 (avail s)" by auto
  have x: "take 2 (avail s) = [b, l]" "2 \<le> length (avail s)" "avail s1 = xs @ v @ rest" using h(3) by (simp_all add: assms(4) e l)
  have i: "[b, l] ! 0 = b" "[b, l] ! 1 = l" by simp_all
  note E = BIO_read_asn1_def [of al rd max_len s, unfolded h(1) x(1), simplified, unfolded Let_def i unat_and_0x7f]
  show ?thesis
  proof (rule der_len_cases [OF v32])
    assume short: "length v < 128" "der_len (length v) = [byte_of (length v)]"
    then have "unat l = length v" "xs = []" using l by auto
    then show ?thesis using body [OF h(2), of "[b, l]"] short x tag e l by (simp add: E byte_high_bit)
  next
    fix k
    assume k: "128 \<le> length v" "0 < k" "k \<le> 4" "256 ^ (k - 1) \<le> length v" "length v < 256 ^ k"
      "der_len (length v) = byte_of (128 + k) # be_bytes k (length v)"
    have lv: "unat l = 128 + k" "xs = be_bytes k (length v)" using k(3,6) l by auto
    then have lk: "l AND 0x80 \<noteq> 0" "unat l mod 128 = k" using k(3) by (simp_all add: byte_high_bit)
    from read_full_exact [OF h(2), of k] k(3) lv(2) x(3) obtain eof2 s2 where
      f: "bio_read_full rd k s1 = Some (True, eof2, xs, s2)" "ok s2" "avail s2 = v @ rest" by auto
    define w where "w = foldl (\<lambda>v b. push_bit 8 v OR ucast b) (0 :: u32) xs"
    have u: "unat w = length v" unfolding w_def using len32_value [of xs] lv(2) k(3,5) by (simp add: be_val_be_bytes_id)
    have "(2 :: nat) ^ ((k - 1) * 8) = 256 ^ (k - 1)" by (simp add: power_mult mult.commute [of _ 8])
    then have ok32: "\<not> (w < 128 \<or> drop_bit ((k - 1) * 8) w = 0)"
      using k(1,4) u by (simp add: word_less_nat_alt drop_bit_eq_0_iff)
    have "BIO_read_asn1 al rd max_len s = read_asn1_body al rd ([b, l] @ xs) (length v) max_len s2"
      using tag lk k(2,3) f(1) x(2) ok32 by (simp add: E w_def [symmetric] u)
    moreover have "length ([b, l] @ xs) \<le> 6" "e = ([b, l] @ xs) @ v" using lv(2) k(3) e l by simp_all
    ultimately show ?thesis using body [OF f(2) _ _ f(3)] by simp
  qed
qed

end

end
