(* ===== verification/Bio_Props.thy ===== *)
theory Bio_Props
  imports Bio_Store Bio_Asn1 "HOL-Library.Code_Target_Numeral"
begin

text \<open>
  The properties of the BIO layer over the reachable stores: every call is defined, a pair carries two streams of bytes
  whatever the order of the calls, and \<open>BIO_read_asn1\<close> takes exactly one element from either kind of BIO.
\<close>

section \<open>Both kinds of BIO are sources of bytes\<close>

definition bio_avail :: "bios \<Rightarrow> nat \<Rightarrow> byte list" where
  "bio_avail B a = (case B a of None \<Rightarrow> [] | Some bio \<Rightarrow>
     (case bio_ptr bio of Null_data \<Rightarrow> [] | Mem_data b \<Rightarrow> bm_bytes b | Pair_data b \<Rightarrow> queue B (bb_peer b)))"

definition readable :: "bios \<Rightarrow> nat \<Rightarrow> bool" where
  "readable B a \<longleftrightarrow> (\<exists>bio. B a = Some bio \<and>
     (bio_method bio = Mem_method \<and> (bio_num bio = 0 \<or> bio_num bio = -1) \<or> bio_method bio = Pair_method \<and> bio_init bio))"

lemma avail_mem: "B a = Some bio \<Longrightarrow> mem_ok bio \<Longrightarrow> bio_avail B a = mem_content bio"
  by (auto simp: bio_avail_def mem_content_def mem_ok_def)

lemma avail_joined: "joined B a p \<Longrightarrow> bio_avail B a = queue B p"
  by (auto simp: bio_avail_def joined_def)

lemma readable_joined: "store_ok B \<Longrightarrow> joined B a p \<Longrightarrow> readable B a"
  by (erule (1) joinedE) (simp add: readable_def)

lemma readableE:
  assumes "store_ok B" and "readable B a"
  obtains bio where "B a = Some bio" "bio_method bio = Mem_method" "bio_num bio = 0 \<or> bio_num bio = -1" "bio_avail B a = mem_content bio"
    | p where "joined B a p" "bio_avail B a = queue B p"
proof -
  from assms(2) obtain bio where b: "B a = Some bio"
    "bio_method bio = Mem_method \<and> (bio_num bio = 0 \<or> bio_num bio = -1) \<or> bio_method bio = Pair_method \<and> bio_init bio"
    unfolding readable_def by blast
  show thesis
  proof (cases "bio_method bio")
    case Mem_method
    then have "bio_avail B a = mem_content bio" using mem_object [OF assms(1) b(1)] avail_mem [of B a bio, OF b(1)] by blast
    then show thesis using b Mem_method that(1) by simp
  next
    case Pair_method
    then obtain p where "joined B a p" using pair_object [OF assms(1) b(1)] b(2) by (metis bio_method.distinct(1))
    then show thesis using avail_joined that(2) by blast
  qed
qed

lemma read_any:
  assumes "store_ok B" and "readable B a" and "0 < n" and "n \<le> INT_MAX"
  shows "\<exists>r B1. BIO_read B a n = Some (r, take (nat n) (bio_avail B a), B1) \<and> store_ok B1 \<and> readable B1 a \<and>
    bio_avail B1 a = drop (nat n) (bio_avail B a) \<and>
    (if bio_avail B a = [] then r = 0 \<or> r = -1 else r = int (length (take (nat n) (bio_avail B a))))"
  using assms(1,2)
proof (rule readableE)
  fix bio
  assume b: "B a = Some bio" "bio_method bio = Mem_method" "bio_num bio = 0 \<or> bio_num bio = -1" "bio_avail B a = mem_content bio"
  from BIO_read_mem [OF assms(1) b(1,2) assms(3,4)] obtain r out bio1 where
    r: "BIO_read B a n = Some (r, out, B(a := Some bio1))" "keeps bio bio1" "mem_content bio = out @ mem_content bio1" "bio_num bio1 = bio_num bio"
      "if mem_content bio = [] then out = [] \<and> r = bio_num bio else out = take (nat n) (mem_content bio) \<and> r = int (length out)" by blast
  let ?B = "B(a := Some bio1)"
  have s: "store_ok ?B" by (rule store_ok_keeps [OF assms(1) keeps_store_set [where B = B and a = a, OF b(1) r(2)]])
  have m: "bio_method bio1 = Mem_method" using r(2) b(2) by (simp add: keeps_def)
  have av: "bio_avail ?B a = mem_content bio1" using avail_mem [of ?B a bio1] mem_object [of ?B a bio1, OF s _ m] by simp
  have t: "out = take (nat n) (mem_content bio)" using r(5) by (auto split: if_splits)
  have "mem_content bio1 = drop (nat n) (mem_content bio)" using r(3) unfolding t by (metis append_take_drop_id same_append_eq)
  moreover have "readable ?B a" using m r(4) b(3) by (simp add: readable_def)
  moreover have "if mem_content bio = [] then r = 0 \<or> r = -1 else r = int (length out)" using r(5) b(3) by (auto split: if_splits)
  ultimately show ?thesis using r(1) s av b(4) t by auto
next
  fix p
  assume p: "joined B a p" "bio_avail B a = queue B p"
  from BIO_read_pair [OF assms(1) p(1) assms(3)] obtain r out B1 where
    r: "BIO_read B a n = Some (r, out, B1)" "moves B p out [] B1"
      "if queue B p = [] then out = [] \<and> r = (if closed B p then 0 else -1) else out = take (nat n) (queue B p) \<and> r = int (length out)" by blast
  have k: "keeps_store B B1" "queue B p = out @ queue B1 p" using r(2) by (simp_all add: moves_def)
  have s: "store_ok B1" by (rule store_ok_keeps [OF assms(1) k(1)])
  have j: "joined B1 a p" by (rule joined_keeps [OF p(1) k(1)])
  have t: "out = take (nat n) (queue B p)" using r(3) by (auto split: if_splits)
  have "queue B1 p = drop (nat n) (queue B p)" using k(2) unfolding t by (metis append_take_drop_id same_append_eq)
  moreover have "if queue B p = [] then r = 0 \<or> r = -1 else r = int (length out)" using r(3) by (auto split: if_splits)
  ultimately show ?thesis using r(1) s readable_joined [OF s j] avail_joined [OF j] p(2) t by auto
qed

interpretation any_bio: byte_source "\<lambda>B. store_ok B \<and> readable B a" "\<lambda>B. bio_avail B a" "\<lambda>n B. BIO_read B a n" for a
proof
  fix B n
  assume "store_ok B \<and> readable B a" "0 < n" "n \<le> INT_MAX"
  then have ok: "store_ok B" "readable B a" "0 < n" "n \<le> INT_MAX" by simp_all
  show "\<exists>B1. BIO_read B a n = Some (int (length (take (nat n) (bio_avail B a))), take (nat n) (bio_avail B a), B1) \<and>
      (store_ok B1 \<and> readable B1 a) \<and> bio_avail B1 a = drop (nat n) (bio_avail B a)" if "bio_avail B a \<noteq> []"
    using read_any [OF ok] that by auto
  show "\<exists>r B1. BIO_read B a n = Some (r, [], B1) \<and> (store_ok B1 \<and> readable B1 a) \<and> bio_avail B1 a = [] \<and> (r = 0 \<or> r = -1)" if "bio_avail B a = []"
    using read_any [OF ok] that by auto
qed

section \<open>An example store\<close>

definition demo_al :: allocator where
  "demo_al n = (if n < 2 ^ 20 then Some (replicate n 0) else None)"

definition demo_fresh :: "bios \<Rightarrow> nat" where
  "demo_fresh B = (if B 1 = None then 1 else if B 2 = None then 2 else 0)"

lemma demo_al_sized: "sized_alloc demo_al"
  by (auto simp: sized_alloc_def good_alloc_def demo_al_def)

lemma demo_fresh_good: "good_fresh demo_fresh"
  by (auto simp: good_fresh_def demo_fresh_def)

definition demo_store :: "byte list \<Rightarrow> bios" where
  "demo_store bs = snd (the (BIO_new_mem_buf demo_al demo_fresh (\<lambda>_. None) (Some bs) (int (length bs))))"

definition demo_pair :: bios where
  "demo_pair = (case BIO_new_bio_pair demo_al demo_fresh (\<lambda>_. None) 4 4 of None \<Rightarrow> (\<lambda>_. None) | Some (_, _, _, B) \<Rightarrow> B)"

lemma demo_pair_new: "\<exists>B. BIO_new_bio_pair demo_al demo_fresh (\<lambda>_. None) 4 4 = Some (True, 1, 2, B)"
proof -
  have "map_option (\<lambda>(ok, a1, a2, B). (ok, a1, a2)) (BIO_new_bio_pair demo_al demo_fresh (\<lambda>_. None) 4 4) = Some (True, 1, 2)" by code_simp
  then show ?thesis by auto
qed

lemma demo_pair_ok: "bio_reachable demo_al demo_fresh demo_pair \<and> joined demo_pair 1 2"
proof -
  obtain B where B: "BIO_new_bio_pair demo_al demo_fresh (\<lambda>_. None) 4 4 = Some (True, 1, 2, B)" using demo_pair_new by blast
  then have e: "demo_pair = B" by (simp add: demo_pair_def)
  have r: "bio_reachable demo_al demo_fresh B" by (rule new_pair [OF no_bios B])
  have "store_ok (\<lambda>_. None)" by (simp add: store_ok_def)
  from new_bio_pair_ok [OF demo_al_sized demo_fresh_good this, of 4 4] B have "joined B 1 2" by auto
  with r show ?thesis by (simp only: e)
qed

lemma demo_store_new:
  assumes "map_option fst (BIO_new_mem_buf demo_al demo_fresh (\<lambda>_. None) (Some bs) (int (length bs))) = Some 1" and "int (length bs) \<le> INT_MAX"
  shows "bio_reachable demo_al demo_fresh (demo_store bs)"
proof -
  from assms(1) obtain B where B: "BIO_new_mem_buf demo_al demo_fresh (\<lambda>_. None) (Some bs) (int (length bs)) = Some (1, B)" by auto
  then have "demo_store bs = B" by (simp add: demo_store_def)
  moreover have "int (length (takeWhile (\<lambda>c. c \<noteq> 0) bs)) \<le> INT_MAX"
    using assms(2) length_takeWhile_le [of "\<lambda>c. c \<noteq> 0" bs] by linarith
  ultimately show ?thesis using new_mem_buf [OF no_bios B assms(2)] by simp
qed

section \<open>Safety\<close>

text \<open>
  C19 (safety). In every store of BIOs that calls can reach (new memory BIOs, read-only ones over a caller's buffer, pairs of
  any buffer sizes, further references, frees that take a pair apart, reads, lines, writes and controls other than a change of the buffer in any order,
  with allocations that fail or not), seven calls are defined: \<open>BIO_read\<close>, \<open>BIO_gets\<close>, \<open>BIO_write\<close> of a buffer of the length given,
  \<open>BIO_ctrl\<close> with a null argument and any command but \<open>BIO_C_SET_BUF_MEM\<close>, \<open>BIO_up_ref\<close> and \<open>BIO_free\<close> on a live BIO, and
  \<open>BIO_new_bio_pair\<close>.  In these no assertion of the ring buffer or of the pair fails, no pointer that is not valid is
  followed, no read or write leaves a block, and no signed integer overflows.  Nothing is said of the other calls:
  \<open>BIO_read_asn1\<close> is not always defined (C20), and \<open>BIO_copy_next_retry\<close> follows the next BIO without a test.
\<close>

theorem bio_reachable_safe:
  assumes "bio_reachable al fresh B" and "sized_alloc al" and "good_fresh fresh" and "B a \<noteq> None"
    and "n \<le> INT_MAX" and "int (length bs) \<le> INT_MAX" and "cmd \<noteq> BIO_C_SET_BUF_MEM"
  shows "BIO_read B a n \<noteq> None \<and> BIO_gets B a n \<noteq> None \<and> BIO_write al B a bs (int (length bs)) \<noteq> None \<and> BIO_ctrl B a cmd larg Null_arg \<noteq> None \<and>
    BIO_new_bio_pair al fresh B len1 len2 \<noteq> None \<and> BIO_up_ref B a \<noteq> None \<and> BIO_free a B \<noteq> None"
proof -
  have s: "store_ok B" by (rule reachable_ok [OF assms(1-3)])
  have a: "a = 0 \<or> B a \<noteq> None" using assms(4) by simp
  show ?thesis
    using BIO_read_total [OF s a assms(5)] BIO_gets_total [OF s a assms(5)] BIO_write_total [OF assms(2) s a assms(6)]
      BIO_ctrl_total [OF s a assms(7), of larg] new_bio_pair_ok [OF assms(2,3) s, of len1 len2] BIO_free_ok [OF s a] assms(4)
    by (auto simp: BIO_up_ref_def)
qed

theorem bio_reachable_safe_witness: "BIO_write demo_al demo_pair 2 [1, 2, 3, 4, 5] 5 \<noteq> None \<and> BIO_free 1 demo_pair \<noteq> None"
proof -
  have "demo_pair 2 \<noteq> None" "demo_pair 1 \<noteq> None" by code_simp+
  then show ?thesis
    using bio_reachable_safe [OF demo_pair_ok [THEN conjunct1] demo_al_sized demo_fresh_good, of 2 0 "[1, 2, 3, 4, 5]" BIO_CTRL_EOF]
      bio_reachable_safe [OF demo_pair_ok [THEN conjunct1] demo_al_sized demo_fresh_good, of 1 0 "[]" BIO_CTRL_EOF]
    by (simp add: INT_MAX_def BIO_CTRL_EOF_def BIO_C_SET_BUF_MEM_def)
qed

section \<open>The two streams of a pair\<close>

lemma run_reachable: "io_run al B evs B1 \<Longrightarrow> bio_reachable al fresh B \<Longrightarrow> bio_reachable al fresh B1"
  by (induction rule: io_run.induct) (auto intro: bio_reachable.io)

text \<open>
  C18 (refinement). The ring buffers of a BIO pair implement two streams of bytes: in every reachable store, through any
  run of reads, writes, lines and controls on any of the BIOs, in any order and with partial and refused writes, the bytes in
  the buffer of one half followed by the bytes accepted there are the bytes the other half has read followed by those left in the
  buffer, in their order, none lost, none repeated and none changed; and this in both directions at the same time.
\<close>

theorem bio_pair_stream:
  assumes "bio_reachable al fresh B" and "sized_alloc al" and "good_fresh fresh" and "joined B a p" and "io_run al B evs B1"
  shows "queue B p @ concat (map (wrote_to p) evs) = concat (map (got_from a) evs) @ queue B1 p \<and>
    queue B a @ concat (map (wrote_to a) evs) = concat (map (got_from p) evs) @ queue B1 a \<and>
    joined B1 a p \<and> bio_reachable al fresh B1"
proof -
  have s: "store_ok B" by (rule reachable_ok [OF assms(1-3)])
  show ?thesis
    using io_run_stream [OF assms(5,2) s assms(4)] io_run_stream [OF assms(5,2) s joined_sym [OF s assms(4)]] run_reachable [OF assms(5,1)] by blast
qed

theorem bio_pair_stream_witness:
  "\<exists>B1. io_run demo_al demo_pair [Wrote 2 [1, 2, 3, 4], Got 1 [1, 2]] B1 \<and> [1, 2, 3, 4] = [1, 2] @ queue B1 2"
proof -
  let ?W = "BIO_write demo_al demo_pair 2 [1, 2, 3, 4, 5] (int (length [1, 2, 3, 4, 5 :: byte]))"
  let ?R = "BIO_read (snd (the ?W)) 1 2"
  have "map_option fst ?W = Some 4" by code_simp
  then obtain B2 where W: "?W = Some (4, B2)" by auto
  have "map_option (\<lambda>(r, out, _). (r, out)) ?R = Some (2, [1, 2])" by code_simp
  then have "\<exists>B1. ?R = Some (2, [1, 2], B1)" by (auto split: prod.splits)
  then obtain B1 where "BIO_read B2 1 2 = Some (2, [1, 2], B1)" unfolding W by auto
  from io_read [OF this] have r: "io_step demo_al B2 (Got 1 [1, 2]) B1" by (simp add: INT_MAX_def)
  from io_write [OF W] have "io_step demo_al demo_pair (Wrote 2 [1, 2, 3, 4]) B2" by (simp add: INT_MAX_def)
  then have run: "io_run demo_al demo_pair [Wrote 2 [1, 2, 3, 4], Got 1 [1, 2]] B1" using r by (blast intro: io_run.intros)
  have "queue demo_pair 2 = []" by code_simp
  with bio_pair_stream [OF demo_pair_ok [THEN conjunct1] demo_al_sized demo_fresh_good demo_pair_ok [THEN conjunct2] run] run
  show ?thesis by auto
qed

section \<open>Reading an element\<close>

abbreviation read_asn1 :: "allocator \<Rightarrow> bios \<Rightarrow> nat \<Rightarrow> nat \<Rightarrow> ((byte list \<times> nat) option \<times> bios) option" where
  "read_asn1 al B a max_len \<equiv> BIO_read_asn1 al (\<lambda>n B. BIO_read B a n) max_len B"

text \<open>
  C17 (functional). \<open>BIO_read_asn1\<close> on a memory BIO (whose value at the end is \<open>0\<close> or \<open>-1\<close>) or on a half of a pair, in any reachable
  store, always returns.  When it succeeds, its block starts with one element that stood at the front of the
  bytes of the BIO, with the shortest length and no longer than \<open>max_len\<close>, and the BIO is left just behind it; or it is all bytes of the
  BIO, and they start with a constructed identifier and the indefinite length.  A definite element that stands at the front, that is no
  longer than \<open>max_len\<close> and for which there is memory is always returned, exactly, with the bytes behind it left.
\<close>

theorem BIO_read_asn1_exact:
  assumes "bio_reachable al fresh B" and "sized_alloc al" and "good_fresh fresh" and "readable B a"
  shows "(\<exists>r B1. read_asn1 al B a max_len = Some (r, B1) \<and> element_read max_len (bio_avail B a) r (bio_avail B1 a)) \<and>
    (\<forall>e rest. asn1_definite e \<and> bio_avail B a = e @ rest \<and> length e \<le> max_len \<and> al (length e) \<noteq> None \<longrightarrow>
      (\<exists>B1. read_asn1 al B a max_len = Some (Some (e, length e), B1) \<and> bio_avail B1 a = rest))"
proof -
  have ok: "store_ok B \<and> readable B a" using reachable_ok [OF assms(1-3)] assms(4) by simp
  have ga: "good_alloc al" using assms(2) by (simp add: sized_alloc_def)
  show ?thesis using any_bio.read_asn1_sound [OF ok assms(2)] any_bio.read_asn1_complete [OF ok ga] by meson
qed

theorem BIO_read_asn1_exact_witness:
  "\<exists>B1. read_asn1 demo_al (demo_store [4, 2, 7, 8, 9]) 1 100 = Some (Some ([4, 2, 7, 8], 4), B1) \<and> bio_avail B1 1 = [9]"
proof -
  let ?B = "demo_store [4, 2, 7, 8, 9]"
  have "map_option fst (BIO_new_mem_buf demo_al demo_fresh (\<lambda>_. None) (Some [4, 2, 7, 8, 9]) (int (length [4, 2, 7, 8, 9 :: byte]))) = Some 1"
    by code_simp
  then have r: "bio_reachable demo_al demo_fresh ?B" by (rule demo_store_new) (simp add: INT_MAX_def)
  have "map_option (\<lambda>bio. (bio_method bio, bio_num bio)) (?B 1) = Some (Mem_method, 0)" by code_simp
  then have rd: "readable ?B 1" by (auto simp: readable_def)
  have av: "bio_avail ?B 1 = [4, 2, 7, 8] @ [9]" by code_simp
  have "[4, 2, 7, 8] = 4 # der_len (length [7, 8 :: byte]) @ [7, 8] \<and> (4 :: byte) AND 0x1f \<noteq> 0x1f" by code_simp
  then have "asn1_definite [4, 2, 7, 8]" unfolding asn1_definite_def
    by (intro exI [of _ 4] exI [of _ "[7, 8]"]) (simp add: INT_MAX_def)
  moreover have "length [4, 2, 7, 8 :: byte] \<le> 100 \<and> demo_al (length [4, 2, 7, 8 :: byte]) \<noteq> None" by (simp add: demo_al_def)
  ultimately have "\<exists>B1. read_asn1 demo_al ?B 1 100 = Some (Some ([4, 2, 7, 8], length [4, 2, 7, 8 :: byte]), B1) \<and> bio_avail B1 1 = [9]"
    using BIO_read_asn1_exact [OF r demo_al_sized demo_fresh_good rd, of 100] av by blast
  moreover have "length [4, 2, 7, 8 :: byte] = 4" by simp
  ultimately show ?thesis by (simp only:)
qed

section \<open>Departures\<close>

text \<open>A memory BIO without bytes, whose value at the end is \<open>-2\<close>.\<close>

definition drained :: "bios \<Rightarrow> nat \<Rightarrow> bool" where
  "drained B a \<longleftrightarrow> store_ok B \<and> (\<exists>bio. B a = Some bio \<and> bio_method bio = Mem_method \<and> bio_num bio = -2 \<and> mem_content bio = [])"

lemma drained_read:
  assumes "drained B a" and "0 < n" and "n \<le> INT_MAX"
  shows "\<exists>B1. BIO_read B a n = Some (-2, [], B1) \<and> drained B1 a"
proof -
  from assms(1) obtain bio where s: "store_ok B" and b: "B a = Some bio" "bio_method bio = Mem_method" "bio_num bio = -2" "mem_content bio = []"
    unfolding drained_def by blast
  from BIO_read_mem [OF s b(1,2) assms(2,3)] b(3,4) obtain bio1 where
    r: "BIO_read B a n = Some (-2, [], B(a := Some bio1))" "keeps bio bio1" "mem_content bio1 = []" "bio_num bio1 = -2" by auto
  have "store_ok (B(a := Some bio1))" by (rule store_ok_keeps [OF s keeps_store_set [where B = B and a = a, OF b(1) r(2)]])
  then show ?thesis using r b(2) by (simp add: drained_def keeps_def)
qed

lemma read_all_never:
  assumes "drained B a" and "got < 2 ^ 64" and "length out < 2 ^ 31" and "2048 \<le> size_sub (length out) got" and "size_sub (length out) got < 2 ^ 62"
  shows "read_all_loop al (\<lambda>n B. BIO_read B a n) max_len out got B = None"
  using assms
proof (induction "2 ^ 62 - size_sub (length out) got" arbitrary: B got rule: less_induct)
  case less
  let ?todo = "size_sub (length out) got"
  let ?got1 = "nat ((int got + -2) mod 2 ^ 64)"
  have ne: "got \<noteq> length out"
  proof
    assume "got = length out"
    with less.prems(3,4) show False by (simp add: size_sub_small)
  qed
  show ?case
  proof (cases "int ?todo < INT_MAX")
    case False
    then show ?thesis using ne by (simp add: read_all_loop.simps [of al _ max_len out got B])
  next
    case True
    have "0 < int ?todo" using less.prems(4) by linarith
    from drained_read [OF less.prems(1) this] True obtain B1 where
      r: "BIO_read B a (int ?todo) = Some (-2, [], B1)" "drained B1 a" by auto
    have t: "size_sub (length out) ?got1 = ?todo + 2"
    proof -
      have "int (size_sub (length out) g) = (int (length out) - int g) mod 2 ^ 64" if "g < 2 ^ 64" for g
      proof -
        have e: "int (length out + (2 ^ 64 - g)) = int (length out) - int g + 2 ^ 64" using that by simp
        show ?thesis unfolding size_sub_def size_wrap_def zmod_int e by (simp only: of_nat_power of_nat_numeral mod_add_self2)
      qed
      note i = this
      have g1: "?got1 < 2 ^ 64" by (simp add: nat_less_iff)
      have "int ?got1 = (int got - 2) mod 2 ^ 64" by simp
      then have "int (size_sub (length out) ?got1) = (int (length out) - (int got - 2)) mod 2 ^ 64"
        using i [OF g1] by (simp add: mod_diff_right_eq)
      also have "\<dots> = ((int (length out) - int got) mod 2 ^ 64 + 2) mod 2 ^ 64"
        unfolding mod_add_left_eq by (simp only: algebra_simps)
      also have "\<dots> = (int ?todo + 2) mod 2 ^ 64" using i [OF less.prems(2)] by simp
      also have "\<dots> = int ?todo + 2" using less.prems(5) by simp
      finally show ?thesis by linarith
    qed
    have g: "read_all_grow al max_len (mem_write got [] out) ?got1 = Some out"
      using t less.prems(4) by (simp add: read_all_grow_def Let_def kChunkSize_def mem_write_def)
    have tn: "?todo < 2 ^ 31" using True by (simp add: INT_MAX_def)
    have d: "2 ^ 62 - size_sub (length out) ?got1 < 2 ^ 62 - ?todo" "size_sub (length out) ?got1 < 2 ^ 62" "2048 \<le> size_sub (length out) ?got1"
      unfolding t using tn less.prems(4) by simp_all
    have "?got1 < 2 ^ 64" by (simp add: nat_less_iff)
    from less.hyps [OF d(1) r(2) this less.prems(3) d(3,2)]
    show ?thesis using ne True r(1) g by (simp add: read_all_loop.simps [of al _ max_len out got B])
  qed
qed

text \<open>
  C20 (error). A memory BIO may be given any value to return at its end (\<open>BIO_set_mem_eof_return\<close>).  With \<open>-2\<close>, \<open>BIO_read_asn1\<close> never
  returns on an indefinite-length element at the end of the bytes: \<open>bio_read_all\<close> takes only \<open>-1\<close> for a failure, adds any other negative
  result to its unsigned count, and goes on until the assertion on \<open>todo\<close> fails.  And \<open>BIO_new_mem_buf\<close> with a null
  buffer and a negative length takes the length of the text at the null pointer, before the test that would report the error.
\<close>

theorem bio_departures:
  assumes "bio_reachable al fresh B" and "sized_alloc al" and "good_fresh fresh"
    and "B a = Some bio" and "bio_method bio = Mem_method" and "bio_num bio = -2" and "mem_content bio = [b, 0x80]"
    and "b AND 0x1f \<noteq> 0x1f" and "b AND 0x20 \<noteq> 0" and "4098 \<le> max_len" and "al 4098 \<noteq> None"
  shows "read_asn1 al B a max_len = None \<and> BIO_new_mem_buf al fresh B None (-1) = None"
proof -
  have s: "store_ok B" by (rule reachable_ok [OF assms(1-3)])
  have n2: "0 < (2 :: int)" "(2 :: int) \<le> INT_MAX" by (simp_all add: INT_MAX_def)
  from BIO_read_mem [OF s assms(4,5) n2] assms(6,7) obtain bio1 where
    r: "BIO_read B a 2 = Some (2, [b, 0x80], B(a := Some bio1))" "keeps bio bio1" "mem_content bio1 = []" "bio_num bio1 = -2" by auto
  let ?B = "B(a := Some bio1)"
  have "store_ok ?B" by (rule store_ok_keeps [OF s keeps_store_set [where B = B and a = a, OF assms(4) r(2)]])
  then have d: "drained ?B a" using r assms(5) by (simp add: drained_def keeps_def)
  have sub: "size_sub 2 2 = 0" "size_sub 4098 2 = 4096" by (simp_all add: size_sub_small)
  have full: "bio_read_full (\<lambda>n B. BIO_read B a n) 2 B = Some (True, False, [b, 0x80], ?B)"
    using r(1) n2 sub(1) by (simp add: bio_read_full_def numeral_2_eq_2)
  obtain blk where blk: "al 4098 = Some blk" "length blk = 4098" using assms(2,11) by (auto simp: sized_alloc_def dest: good_allocD)
  let ?out = "mem_write 0 [b, 0x80] blk"
  have "length ?out = 4098" using blk(2) by simp
  then have "read_all_loop al (\<lambda>n B. BIO_read B a n) max_len ?out 2 ?B = None"
    using sub(2) by (intro read_all_never [OF d]) simp_all
  moreover have len2: "length [b, 0x80] = 2" by simp
  ultimately have all: "bio_read_all al (\<lambda>n B. BIO_read B a n) [b, 0x80] max_len ?B = None"
    unfolding bio_read_all_def Let_def len2 using assms(10) blk(1) by (simp add: kChunkSize_def)
  have "(0x80 :: byte) AND 0x80 \<noteq> 0" "(0x80 :: byte) AND 0x7f = 0" by code_simp+
  then have "read_asn1 al B a max_len = None" using full all assms(8,9) by (simp add: BIO_read_asn1_def)
  moreover have "BIO_new_mem_buf al fresh B None (-1) = None" by (simp add: BIO_new_mem_buf_def)
  ultimately show ?thesis ..
qed

definition demo_eof_store :: bios where
  "demo_eof_store = snd (the (BIO_set_mem_eof_return (demo_store [0x30, 0x80]) 1 (-2)))"

theorem bio_departures_witness: "read_asn1 demo_al demo_eof_store 1 10000 = None"
proof -
  let ?B = "demo_store [0x30, 0x80]"
  have "map_option fst (BIO_new_mem_buf demo_al demo_fresh (\<lambda>_. None) (Some [0x30, 0x80]) (int (length [0x30, 0x80 :: byte]))) = Some 1"
    by code_simp
  then have r: "bio_reachable demo_al demo_fresh ?B" by (rule demo_store_new) (simp add: INT_MAX_def)
  have "map_option fst (BIO_set_mem_eof_return ?B 1 (-2)) = Some 1" by code_simp
  then obtain B1 where B1: "BIO_set_mem_eof_return ?B 1 (-2) = Some (1, B1)" by auto
  then have "io_step demo_al ?B Quiet B1" unfolding BIO_set_mem_eof_return_def
    by (rule io_ctrl) (simp add: BIO_C_SET_BUF_MEM_def BIO_C_SET_BUF_MEM_EOF_RETURN_def)
  moreover have "demo_eof_store = B1" using B1 by (simp add: demo_eof_store_def)
  ultimately have re: "bio_reachable demo_al demo_fresh demo_eof_store" using bio_reachable.io [OF r] by simp
  have "map_option (\<lambda>bio. (bio_method bio, bio_num bio, mem_content bio)) (demo_eof_store 1) = Some (Mem_method, -2, [0x30, 0x80])" by code_simp
  then obtain bio where b: "demo_eof_store 1 = Some bio" "bio_method bio = Mem_method" "bio_num bio = -2" "mem_content bio = [0x30, 0x80]" by auto
  have t: "(0x30 :: byte) AND 0x1f \<noteq> 0x1f" "(0x30 :: byte) AND 0x20 \<noteq> 0" by code_simp+
  show ?thesis
    using bio_departures [OF re demo_al_sized demo_fresh_good b t, of 10000] by (simp add: demo_al_def)
qed

end
