(* ===== verification/Spec2Isabelle.thy ===== *)
theory Spec2Isabelle
  imports Wire Oid Set_Of Base64_Stream Unicode Ber_Norm Sk_Seq Lh_Reach Pb_Codec Pb_Encode_Props Bio_Props "HOL-Library.Code_Target_Numeral"
begin

text \<open>
  A verification library for the C code inside the pods of the HolyWater test application.

  The application itself is Swift (screens, view models, a remote configuration reader).  The C it is built
  with is in \<open>src/HolyWater-Test/Pods\<close>: BoringSSL (\<open>BoringSSL-GRPC/src/crypto\<close>) and nanopb (\<open>nanopb\<close>), under
  gRPC and Firestore.  The library models the parts of these two that parse, build and store data: byte strings
  and ASN.1, text codecs, the two containers of libcrypto, its abstraction of input and output, and the wire format and the
  messages of protocol buffers.

  Modelling.  A C integer is a word of its width; \<open>size_t\<close> is a \<open>nat\<close> below \<open>2 ^ 64\<close> whose wrap-around is written
  out (\<open>size_wrap\<close>) where a test of the code depends on it.  A structure is a record with the fields of the
  source, a buffer a list of bytes, a pointer into a buffer an offset, a pointer that may be \<open>NULL\<close> an option.  A
  function that changes a structure returns it; the result \<open>0\<close> or \<open>NULL\<close> of a failure is \<open>False\<close> or \<open>None\<close>, and the
  state it leaves behind is part of the result.  Library functions are parameters: \<open>malloc\<close> and \<open>realloc\<close> (an
  \<open>allocator\<close> that refuses or gives a block of the size asked for), \<open>qsort\<close>, and the functions a caller passes in
  (comparison, hash, copy).  \<open>free\<close> has no state in the model of libcrypto; functions that free report what they free.
  The messages of nanopb live in a memory (\<open>heap\<close>) of bytes by address, with the table of the blocks allocated and not
  freed, since their layout is computed and their pointers may alias; a wrong \<open>free\<close> there has no result.  The BIOs, which
  point at each other, live in a store by address (\<open>bios\<close>), where a freed one is no longer there; a call on it, a failed
  assertion, an access outside a block and a signed overflow have no result.

  Loops are recursive functions with their termination proved: by the list walked, by the bytes left in a
  stream, by the range of a search, by the value shifted.  Where the source recurses through data (messages in
  messages, loops whose body is a parameter) the function has a bound as its first argument and \<open>None\<close> beyond it, and the
  bound given is proved to be enough (\<open>pb_decode_returns\<close>, and \<open>pb_encode_exact\<close> for messages that have an encoding): the number of fields for a walk over descriptors, the bytes
  left for the loop over a message, a packed array and the nesting of submessages on the wire, twice \<open>pe_nest\<close> for structures
  nested in each other.  Loops that may not end (callbacks, lists of extensions, chains of BIOs, \<open>bio_read_all\<close>) are partial
  functions.  The loops of the ring buffers are bounded by the bytes to go, at least one a round.  Every
  definition can be evaluated.

  The theories, in the order of the code:

  \<^item> \<open>Prelude\<close>: machine types, big- and little-endian values, memory writes, the allocator.
  \<^item> \<open>Codec\<close>: the interface of a reader of a byte stream (\<open>prefix_decoder\<close>, \<open>canonical_codec\<close>) and the facts that
    follow from it for all readers: determinism, unambiguity, reading sequences.
  \<^item> \<open>Cbs\<close> (\<open>crypto/bytestring/cbs.c\<close>, \<open>mem.c\<close>): the \<open>CBS\<close> reader, fixed width and length-prefixed fields.
  \<^item> \<open>Der_Spec\<close>, \<open>Der_Parse\<close>, \<open>Der_Int\<close>, \<open>Der_Types\<close> (\<open>cbs.c\<close>): DER and BER elements, tags, lengths, integers, booleans,
    optional fields, bit strings; \<open>Der_Spec\<close> is the encoding they are proved against.
  \<^item> \<open>Cbb\<close>, \<open>Cbb_Laws\<close>, \<open>Cbb_Asn1\<close> (\<open>cbb.c\<close>): the \<open>CBB\<close> builder, its shared buffer and growth, the chain of pending
    children that \<open>CBB_flush\<close> closes, the writers and the ASN.1 writers; \<open>Wire\<close> joins readers and writers.
  \<^item> \<open>Oid\<close>, \<open>Set_Of\<close> (\<open>cbs.c\<close>, \<open>cbb.c\<close>): object identifiers as text, the order of a SET OF.
  \<^item> \<open>Ber\<close>, \<open>Ber_Spec\<close>, \<open>Ber_Norm\<close> (\<open>ber.c\<close>, \<open>asn1_compat.c\<close>): the search for BER, the conversion to DER, fragmented strings;
    \<open>Ber_Spec\<close> is BER as relations between byte strings and values.
  \<^item> \<open>Unicode\<close> (\<open>unicode.c\<close>): UTF-8, Latin-1, UCS-2 and UTF-32 readers and writers.
  \<^item> \<open>Const_Time\<close> (\<open>crypto/internal.h\<close>), \<open>Base64\<close>, \<open>Base64_Stream\<close> (\<open>base64.c\<close>): the constant-time helpers, one-shot and
    streaming base64.
  \<^item> \<open>Sk_Stack\<close>, \<open>Sk_Reach\<close>, \<open>Sk_Seq\<close> (\<open>stack.c\<close>): growing pointer arrays with an optional order; their reachable
    states, the search, the refinement of lists, the last-in-first-out interface \<open>lifo\<close>, deep copies.
  \<^item> \<open>Lh_Table\<close>, \<open>Lh_Map\<close>, \<open>Lh_Reach\<close> (\<open>lhash.c\<close>): the chained hash table, its invariant, the refinement of a finite map
    through the interface \<open>element_map\<close>, the load of its chains, iteration.
  \<^item> \<open>Pb_In\<close>, \<open>Pb_Out\<close>, \<open>Pb_Wire\<close>, \<open>Pb_Codec\<close> (\<open>nanopb/pb_decode.c\<close>, \<open>pb_encode.c\<close>): streams, varints, fixed width values,
    tags, strings and substreams; the interface \<open>pb_codec\<close> joins a reader and its writer.
  \<^item> \<open>Pb_Field\<close>, \<open>Pb_Decode\<close>, \<open>Pb_Message\<close> (\<open>nanopb/pb_common.c\<close>, \<open>pb_decode.c\<close>): memory, descriptors and the field iterator;
    allocation, defaults, release and the field decoders; static, pointer and callback fields, extensions, messages.
  \<^item> \<open>Pb_Iter\<close>, \<open>Pb_Layout\<close>, \<open>Pb_Progress\<close>: the iterator as a position, the layout that descriptors give a structure, what the
    readers do to a stream.  \<open>Pb_Safe\<close>, \<open>Pb_Total\<close>, \<open>Pb_Field_Safe\<close>, \<open>Pb_Msg_Safe\<close>, \<open>Pb_Returns\<close>: one contract (\<open>fine\<close>: a result
    exists, the stream is advanced, only the given addresses are written) carried from the field decoders to whole
    messages.  \<open>Pb_Decode_Props\<close>: the properties of \<open>pb_decode\<close>.
  \<^item> \<open>Pb_Encode\<close> (\<open>nanopb/pb_encode.c\<close>): the message encoder.  \<open>Pb_Enc_Spec\<close>: the bytes of a message, with its own wire types
    and its own notion of an absent field, without streams and sizing passes, and the contract \<open>encodes\<close> (what a writer emits into any stream); \<open>Pb_Enc_Exact\<close> carries it from values and arrays
    to whole messages, \<open>Pb_Encode_Props\<close> states it for \<open>pb_encode\<close>, \<open>pb_encode_delimited\<close> and \<open>pb_get_encoded_size\<close>.
  \<^item> \<open>Bio_Buf\<close>, \<open>Bio_Mem\<close>, \<open>Bio_Pair\<close>, \<open>Bio\<close> (\<open>crypto/buf/buf.c\<close>, \<open>crypto/bio/bio_mem.c\<close>, \<open>pair.c\<close>, \<open>bio.c\<close>): growing buffers, memory
    BIOs, the two ring buffers of a pair, and the interface over both: references, chains, input, output, control.
    \<open>Bio_Asn1\<close> (\<open>bio.c\<close>): \<open>BIO_read_asn1\<close> against the interface \<open>byte_source\<close>, which both kinds of BIO implement.
  \<^item> \<open>Bio_Reach\<close>, \<open>Bio_Io\<close>, \<open>Bio_Store\<close>: the invariant of a store (\<open>store_ok\<close>), the effect of every call on the queues of the
    pairs, creation and release, and the stores that calls can reach.  \<open>Bio_Props\<close>: the properties of the BIO layer.

  What the theorems show.  Readers accept exactly the encodings of a specification and leave the rest of the input
  (\<open>der_reader_exact\<close>, \<open>int64_reader_exact\<close>, \<open>utf8_reader_exact\<close>, \<open>oid_to_text_exact\<close>).  What a writer produced, its
  reader reads back (the round trips).  The builder refines an abstract closing of nested regions, never writes
  outside its buffer, and after a failure lets no flush, finish or writer succeed (\<open>CBB_did_write\<close> and \<open>CBB_discard_child\<close>
  do not test for it).  What the conversion from BER accepts is BER in the sense of \<open>Ber_Spec\<close>, and it writes the DER
  of the same values, with the string types that \<open>ber.c\<close> lists made primitive.  Base64
  does not depend on how the data is cut into calls.  Stacks and hash tables refine lists and maps in every
  reachable state, with an allocator that may fail in any call, and keep the bounds that make them fast; the states of
  a stack are those reached with \<open>sk_set\<close> and \<open>sk_deep_copy\<close> only where they keep the order of a stack marked sorted.  The message
  decoder of nanopb returns on every input, writes only inside the structure its descriptors describe (when arrays with a
  fixed count have at least four bytes), and consumes a delimited message exactly.  Its encoder emits exactly the bytes of
  the message or fails, and counts the same number, for descriptors on which its test for default values is right
  (\<open>checks_ok\<close>).
  A pair of BIOs carries two streams of bytes without loss under any interleaving of calls (\<open>bio_pair_stream\<close>), the basic calls
  on a live BIO are defined (\<open>bio_reachable_safe\<close> names them), and \<open>BIO_read_asn1\<close> takes exactly one element
  (\<open>BIO_read_asn1_exact\<close>).

  The model also shows where the code departs from its own comments or intent; each is a theorem about all inputs of a kind:
  the search for BER forgets a nested finding when DER follows (\<open>ber_to_der_departures\<close>), a conversion consumes all elements of
  its input (\<open>ber_to_der_normalizes\<close>), \<open>sk_set\<close> leaves a stale order flag (\<open>sk_set_keeps_stale_flag\<close>), the 32-bit
  varint reader accepts values that do not fit (\<open>pb_varint32_accepts_overflow\<close>), the default of a short array with a fixed
  count is written past its end (\<open>pb_decode_stray_writes\<close>), an empty message decodes a field with the number 0 (the lemma
  \<open>empty_message_decodes_zero\<close>), the encoder leaves out a submessage by looking at some bytes of a pointer
  (\<open>pb_encode_drops_pointer\<close>), and \<open>BIO_read_asn1\<close> does not return for a BIO whose value at the end is neither \<open>0\<close> nor \<open>-1\<close>
  (\<open>bio_departures\<close>).

  Bounds.  Addresses and sizes are below \<open>2 ^ 64\<close>; stacks have fewer than \<open>2 ^ 61\<close> pointers, more than any address
  space holds; the load of a hash table is stated for histories of fewer than \<open>2 ^ 59\<close> calls.

  Not modelled: timing (the constant-time helpers are modelled for their values), threads and locks, the error queue
  of libcrypto, the BIOs over files, descriptors and sockets, method tables of the application, the buffer that
  \<open>BIO_get_mem_ptr\<close> hands out, cryptographic primitives and big numbers, ASN.1 templates and X.509, generated
  tables and assembly, custom stream callbacks of nanopb, libssl and the C++, Objective-C and Swift
  dependencies (other languages), and the application's user interface.  Recursion in the input is bounded as in the
  source; the stack it needs is not.  nanopb is modelled as the application builds it (\<open>PB_FIELD_32BIT\<close>,
  \<open>PB_ENABLE_MALLOC\<close>, 64-bit pointers); its theorems on whole messages are for layouts without pointer and extension fields,
  since for these the contents of memory would have to be described too.  The theorems on the store of BIOs leave out
  \<open>BIO_push\<close> (every BIO is a chain of one) and \<open>BIO_set_mem_buf\<close>, for which the definitions stand alone.
\<close>

section \<open>Concrete builders for the witnesses\<close>

definition fresh :: "nat \<Rightarrow> cbb" where
  "fresh n = \<lparr>base = Some \<lparr>buf = replicate n 0, blen = 0, cap = n, can_resize = True, err = False\<rparr>,
     children = []\<rparr>"

lemma fresh_laws: "n < 2 ^ 64 \<Longrightarrow> cbb_wf (fresh n) \<and> cbb_written 0 (fresh n) = Some [] \<and> \<not> cbb_err (fresh n)"
  by (simp add: fresh_def cbb_wf_def buffer_ok_def cbb_written_def content_def cbb_err_def)

section \<open>DER elements\<close>

text \<open>
  C1. \<open>CBS_get_any_asn1\<close> accepts exactly the DER encodings: it returns a tag and contents, and leaves
  \<open>rest\<close>, if and only if the input is the one DER encoding of that tag and those contents followed by
  \<open>rest\<close>.
\<close>

theorem der_reader_exact:
  assumes "cbs_ok c"
  shows "(\<exists>out c'. CBS_get_any_asn1 c = (Some (out, tag), c') \<and> cbs_bytes out = v \<and> cbs_bytes c' = rest) \<longleftrightarrow>
    length v < 2 ^ 32 \<and> cbs_bytes c = der_element tag v @ rest"
proof
  assume "\<exists>out c'. CBS_get_any_asn1 c = (Some (out, tag), c') \<and> cbs_bytes out = v \<and> cbs_bytes c' = rest"
  then obtain out c' where "CBS_get_any_asn1 c = (Some (out, tag), c')" "cbs_bytes out = v" "cbs_bytes c' = rest"
    by blast
  with CBS_get_any_asn1_sound [OF assms this(1)] show "length v < 2 ^ 32 \<and> cbs_bytes c = der_element tag v @ rest"
    by auto
next
  assume "length v < 2 ^ 32 \<and> cbs_bytes c = der_element tag v @ rest"
  with CBS_get_any_asn1_complete [OF assms]
  show "\<exists>out c'. CBS_get_any_asn1 c = (Some (out, tag), c') \<and> cbs_bytes out = v \<and> cbs_bytes c' = rest"
    by blast
qed

theorem der_reader_exact_witness:
  "\<exists>out c'. CBS_get_any_asn1 (CBS_init [4, 2, 7, 8, 9] 5) = (Some (out, 4), c') \<and>
     cbs_bytes out = [7, 8] \<and> cbs_bytes c' = [9]"
  by (subst der_reader_exact) code_simp+

text \<open>
  C2. What is written into a child opened by \<open>CBB_add_asn1\<close> comes out of the parser: if the builder
  succeeds, the finished buffer is the DER element with that tag and those contents, and
  \<open>CBS_get_any_asn1\<close> returns both and leaves nothing.
\<close>

theorem der_build_parse:
  assumes "good_alloc al" and "cbb_wf c" and "cbb_written 0 c = Some []" and "length body < 2 ^ 32 - 1"
    and "CBB_add_asn1 al 0 tag c = (True, c1)" and "CBB_add_bytes al 1 body c1 = (True, c2)"
    and "CBB_finish al 0 outs c2 = (Some (blk, n), c3)"
  shows "take n blk = der_element tag body \<and>
    (\<exists>out c'. CBS_get_any_asn1 (CBS_init blk n) = (Some (out, tag), c') \<and>
       cbs_bytes out = body \<and> cbs_bytes c' = [])"
proof -
  note o = CBB_add_asn1_opens [OF assms(1,2,5)]
  then have "cbb_wf c1" by (simp add: opens_def)
  from add_bytes.wr_writes [OF assms(1) this _ assms(6)] assms(4) have w: "writes (Suc 0) body c1 True c2"
    by simp
  then have wf2: "cbb_wf c2" by (simp add: writes_def)
  obtain okf c4 where f: "CBB_flush al 0 c2 = (okf, c4)" by fastforce
  with assms(7) have okf: okf by (cases okf) (simp_all add: CBB_finish_def)
  have "writes 0 (der_element tag body) c okf c4"
    by (rule child_flush [OF assms(1) o w f]) (auto simp: len_prefix_def der_element_def split: if_splits)
  then have "cbb_written 0 c4 = Some (der_element tag body)" using okf assms(3) by (auto simp: writes_def)
  moreover have "cbb_written 0 c4 = cbb_written 0 c2"
    using CBB_flush_laws(1) [OF assms(1) wf2 f] okf by (auto simp: writes_def)
  moreover note fin = CBB_finish_laws [OF assms(1) wf2 assms(7)]
  ultimately have t: "take n blk = der_element tag body" by simp
  have "cbs_ok (CBS_init blk n)" "cbs_bytes (CBS_init blk n) = der_element tag body @ []"
    using fin t by (simp_all add: cbs_ok_def cbs_bytes_def)
  from CBS_get_any_asn1_complete [OF this(1) _ this(2)] assms(4) t show ?thesis by auto
qed

theorem der_build_parse_witness:
  "take 4 [4, 2, 7, 8, 0, 0] = der_element 4 [7, 8]"
proof -
  have 1: "CBB_add_asn1 zero_alloc 0 4 (fresh 6) =
      (True, \<lparr>base = Some \<lparr>buf = [4, 0, 0, 0, 0, 0], blen = 2, cap = 6, can_resize = True, err = False\<rparr>,
         children = [\<lparr>offset = 1, pending_len_len = 1, pending_is_asn1 = True\<rparr>]\<rparr>)" by code_simp
  have 2: "CBB_add_bytes zero_alloc 1 [7, 8]
      \<lparr>base = Some \<lparr>buf = [4, 0, 0, 0, 0, 0], blen = 2, cap = 6, can_resize = True, err = False\<rparr>,
         children = [\<lparr>offset = 1, pending_len_len = 1, pending_is_asn1 = True\<rparr>]\<rparr> =
      (True, \<lparr>base = Some \<lparr>buf = [4, 0, 7, 8, 0, 0], blen = 4, cap = 6, can_resize = True, err = False\<rparr>,
         children = [\<lparr>offset = 1, pending_len_len = 1, pending_is_asn1 = True\<rparr>]\<rparr>)" by code_simp
  have 3: "CBB_finish zero_alloc 0 True
      \<lparr>base = Some \<lparr>buf = [4, 0, 7, 8, 0, 0], blen = 4, cap = 6, can_resize = True, err = False\<rparr>,
         children = [\<lparr>offset = 1, pending_len_len = 1, pending_is_asn1 = True\<rparr>]\<rparr> =
      (Some ([4, 2, 7, 8, 0, 0], 4), \<lparr>base = None, children = []\<rparr>)" by code_simp
  from der_build_parse [OF good_zero_alloc _ _ _ 1 2 3] fresh_laws [of 6] show ?thesis by simp
qed

section \<open>INTEGER\<close>

text \<open>
  C3. \<open>CBS_get_asn1_int64\<close> returns a value if and only if the input starts with the DER INTEGER of that
  value with the shortest two's complement contents; so no value has two accepted encodings.
\<close>

theorem int64_reader_exact:
  assumes "cbs_ok c"
  shows "(\<exists>c'. CBS_get_asn1_int64 c = (Some v, c') \<and> cbs_bytes c' = rest) \<longleftrightarrow>
    cbs_bytes c = der_element CBS_ASN1_INTEGER (der_int (sint v)) @ rest"
proof
  assume "\<exists>c'. CBS_get_asn1_int64 c = (Some v, c') \<and> cbs_bytes c' = rest"
  with get_int64.canonical [OF assms] show "cbs_bytes c = der_element CBS_ASN1_INTEGER (der_int (sint v)) @ rest"
    by (auto simp: der_int64_def)
next
  assume "cbs_bytes c = der_element CBS_ASN1_INTEGER (der_int (sint v)) @ rest"
  with get_int64.round_trip [OF assms, of v rest]
  show "\<exists>c'. CBS_get_asn1_int64 c = (Some v, c') \<and> cbs_bytes c' = rest" by (auto simp: der_int64_def)
qed

theorem int64_reader_exact_witness:
  "\<exists>c'. CBS_get_asn1_int64 (CBS_init [2, 1, 0xfb, 9] 4) = (Some (- 5), c') \<and> cbs_bytes c' = [9]"
  by (subst int64_reader_exact) code_simp+

text \<open>
  C4. A sequence of \<open>int64_t\<close> values written by \<open>CBB_add_asn1_int64\<close> is read back by
  \<open>CBS_get_asn1_int64\<close>, in order and without a rest.
\<close>

theorem int64_build_parse:
  assumes "good_alloc al" and "cbb_wf c" and "cbb_written 0 c = Some []" and "vs \<noteq> []"
    and "write_many (CBB_add_asn1_int64 al 0) vs c = (True, c1)"
    and "CBB_finish al 0 outs c1 = (Some (blk, n), c2)"
  shows "\<exists>s. read_many CBS_get_asn1_int64 (length vs) (CBS_init blk n) = (Some vs, s) \<and> cbs_bytes s = []"
  by (rule wire_int64.build_parse [OF assms(1-4) _ assms(5,6)]) simp

theorem int64_build_parse_witness:
  "\<exists>s. read_many CBS_get_asn1_int64 (length [- 5]) (CBS_init [2, 1, 251, 0] 3) = (Some [- 5], s) \<and>
     cbs_bytes s = []"
proof -
  let ?c1 = "\<lparr>base = Some \<lparr>buf = [2, 1, 251, 0], blen = 3, cap = 4, can_resize = True, err = False\<rparr>,
     children = []\<rparr>"
  have 1: "write_many (CBB_add_asn1_int64 zero_alloc 0) [- 5] (fresh 4) = (True, ?c1)" by code_simp
  have 2: "CBB_finish zero_alloc 0 True ?c1 =
      (Some ([2, 1, 251, 0], 3), \<lparr>base = None, children = []\<rparr>)" by code_simp
  from int64_build_parse [OF good_zero_alloc _ _ _ 1 2] fresh_laws [of 4] show ?thesis by simp
qed

section \<open>Builders\<close>

text \<open>
  C5. \<open>CBB_flush\<close> implements the closing of pending children: from a well-formed builder it either
  succeeds, and the buffer then holds the bytes that \<open>close_chain\<close> assigns to the chain of children
  below the flushed one, with none left pending, or it leaves the sticky error set (or the \<open>CBB\<close> was
  already invalid); the builder stays well-formed.
\<close>

theorem flush_refines_close_chain:
  assumes "good_alloc al" and "cbb_wf c" and "base c = Some b" and "d \<le> length (children c)"
    and "CBB_flush al d c = (ok, c1)"
  shows "cbb_wf c1 \<and> (if ok
    then \<exists>b1. base c1 = Some b1 \<and> close_chain (drop d (children c)) (content b) = Some (content b1) \<and>
         children c1 = take d (children c) \<and> \<not> err b1
    else cbb_err c1)"
proof -
  note fl = CBB_flush_laws [OF assms(1,2,5)]
  show ?thesis
    using fl assms(3,4) by (cases ok) (auto simp: writes_def cbb_written_def)
qed

theorem flush_refines_close_chain_witness:
  "close_chain [\<lparr>offset = 1, pending_len_len = 2, pending_is_asn1 = False\<rparr>] [9, 0, 0, 7, 8] = Some [9, 0, 2, 7, 8]"
proof -
  let ?ch = "[\<lparr>offset = 1, pending_len_len = 2, pending_is_asn1 = False\<rparr>]"
  let ?b = "\<lparr>buf = [9, 0, 0, 7, 8], blen = 5, cap = 5, can_resize = False, err = False\<rparr>"
  let ?b1 = "\<lparr>buf = [9, 0, 2, 7, 8], blen = 5, cap = 5, can_resize = False, err = False\<rparr>"
  have 1: "CBB_flush zero_alloc 0 \<lparr>base = Some ?b, children = ?ch\<rparr> =
      (True, \<lparr>base = Some ?b1, children = []\<rparr>)" by code_simp
  have 2: "cbb_wf \<lparr>base = Some ?b, children = ?ch\<rparr>" by (simp add: cbb_wf_def buffer_ok_def)
  from flush_refines_close_chain [OF good_zero_alloc 2 _ _ 1, of ?b] show ?thesis
    by (auto simp: content_def)
qed

text \<open>
  C6. The error of a builder is sticky: once the shared buffer has its error flag set, at any depth no flush and no
  finish succeeds, and every operation that adds or reserves (integers of every width, bytes, space, zeros, length
  prefixed children, every ASN.1 writer, the texts, the order of a SET OF) fails and changes nothing.  \<open>CBB_did_write\<close> and
  \<open>CBB_discard_child\<close> do not test the flag, but they do not clear it either.
\<close>

theorem error_is_sticky:
  assumes "base c = Some b" and "err b"
  shows "CBB_flush al d c = (False, c) \<and> fst (CBB_finish al d outs c) = None \<and>
    CBB_add_u8 al d v8 c = (False, c) \<and> CBB_add_u16 al d v16 c = (False, c) \<and> CBB_add_u16le al d v16 c = (False, c) \<and>
    CBB_add_u24 al d v32 c = (False, c) \<and> CBB_add_u32 al d v32 c = (False, c) \<and> CBB_add_u32le al d v32 c = (False, c) \<and>
    CBB_add_u64 al d v64 c = (False, c) \<and> CBB_add_u64le al d v64 c = (False, c) \<and>
    CBB_add_bytes al d bs c = (False, c) \<and> CBB_add_space al d n c = (False, c) \<and> CBB_add_zeros al d n c = (False, c) \<and>
    CBB_reserve al d n c = (False, c) \<and> CBB_add_u8_length_prefixed al d c = (False, c) \<and>
    CBB_add_u16_length_prefixed al d c = (False, c) \<and> CBB_add_u24_length_prefixed al d c = (False, c) \<and>
    CBB_add_asn1 al d tag c = (False, c) \<and> CBB_add_asn1_uint64 al d v64 c = (False, c) \<and> CBB_add_asn1_int64 al d v64 c = (False, c) \<and>
    CBB_add_asn1_octet_string al d bs c = (False, c) \<and> CBB_add_asn1_bool al d i c = (False, c) \<and>
    CBB_add_asn1_oid_from_text al d bs n c = (False, c) \<and> CBB_flush_asn1_set_of al d c = (False, c) \<and>
    cbb_add_utf8 al d v32 c = (False, c) \<and> cbb_add_latin1 al d v32 c = (False, c) \<and> cbb_add_ucs2_be al d v32 c = (False, c) \<and>
    cbb_add_utf32_be al d v32 c = (False, c) \<and> cbb_err (snd (CBB_did_write d n c)) \<and> cbb_err (CBB_discard_child d c)"
proof -
  have e: "c\<lparr>base := Some b, children := children c\<rparr> = c" using assms(1) by (cases c) simp
  have "flush_chain al b (drop d (children c)) = (False, b, drop d (children c))"
    using assms(2) by (cases "drop d (children c)") simp_all
  then have f: "CBB_flush al d c = (False, c)" using assms(1) e by (simp add: CBB_flush_def)
  then have ft: "flush_then al d g c = (False, c)" for g by (simp add: flush_then_def)
  have lp: "cbb_add_length_prefixed al d k c = (False, c)" for k by (simp add: cbb_add_length_prefixed_def f)
  have a: "CBB_add_asn1 al d t c = (False, c)" for t by (simp add: CBB_add_asn1_def f)
  then have ch: "asn1_child al d t g c = (False, c)" for t g by (simp add: asn1_child_def)
  have u8: "CBB_add_u8 al d v c = (False, c)" for v by (simp add: CBB_add_u8_def ft)
  note prims = f ft lp a ch u8 CBB_add_u16_def CBB_add_u24_def CBB_add_u32_def CBB_add_u64_def
  have "fst (CBB_finish al d outs c) = None" using f by (cases "d = 0") (simp_all add: CBB_finish_def)
  moreover have "CBB_add_u16le al d v16 c = (False, c)" "CBB_add_u32le al d v32 c = (False, c)" "CBB_add_u64le al d v64 c = (False, c)"
    by (simp_all add: prims CBB_add_u16le_def CBB_add_u32le_def CBB_add_u64le_def)
  moreover have "CBB_add_bytes al d bs c = (False, c)" "CBB_add_space al d n c = (False, c)" "CBB_add_zeros al d n c = (False, c)"
    "CBB_reserve al d n c = (False, c)" by (simp_all add: prims CBB_add_bytes_def CBB_add_space_def CBB_add_zeros_def CBB_reserve_def)
  moreover have "CBB_add_u8_length_prefixed al d c = (False, c)" "CBB_add_u16_length_prefixed al d c = (False, c)"
    "CBB_add_u24_length_prefixed al d c = (False, c)"
    by (simp_all add: prims CBB_add_u8_length_prefixed_def CBB_add_u16_length_prefixed_def CBB_add_u24_length_prefixed_def)
  moreover have u: "CBB_add_asn1_uint64 al d v64 c = (False, c)" by (simp add: prims CBB_add_asn1_uint64_def)
  moreover have "CBB_add_asn1_int64 al d v64 c = (False, c)" by (simp add: prims u CBB_add_asn1_int64_def Let_def)
  moreover have "CBB_add_asn1_octet_string al d bs c = (False, c)" "CBB_add_asn1_bool al d i c = (False, c)"
    by (simp_all add: prims CBB_add_asn1_octet_string_def CBB_add_asn1_bool_def)
  moreover have "CBB_add_asn1_oid_from_text al d bs n c = (False, c)" "CBB_flush_asn1_set_of al d c = (False, c)"
    by (simp_all add: prims CBB_add_asn1_oid_from_text_def CBB_flush_asn1_set_of_def)
  moreover have "cbb_add_utf8 al d v32 c = (False, c)" "cbb_add_latin1 al d v32 c = (False, c)"
    "cbb_add_ucs2_be al d v32 c = (False, c)" "cbb_add_utf32_be al d v32 c = (False, c)"
    by (simp_all add: prims cbb_add_utf8_def cbb_add_latin1_def cbb_add_ucs2_be_def cbb_add_utf32_be_def)
  moreover have "cbb_err (snd (CBB_did_write d n c))" "cbb_err (CBB_discard_child d c)"
    using assms by (simp_all add: CBB_did_write_def CBB_discard_child_def cbb_err_def Let_def)
  ultimately show ?thesis using f u8 a by (simp add: prims)
qed

theorem error_is_sticky_witness:
  "CBB_add_u16 zero_alloc 0 5 \<lparr>base = Some \<lparr>buf = [0], blen = 0, cap = 1, can_resize = True, err = True\<rparr>, children = []\<rparr> =
     (False, \<lparr>base = Some \<lparr>buf = [0], blen = 0, cap = 1, can_resize = True, err = True\<rparr>, children = []\<rparr>)"
proof -
  let ?b = "\<lparr>buf = [0], blen = 0, cap = 1, can_resize = True, err = True\<rparr>"
  show ?thesis using error_is_sticky [of "\<lparr>base = Some ?b, children = []\<rparr>" ?b] by simp
qed

text \<open>
  A length prefixed child: the bytes written into a child opened by
  \<open>CBB_add_u16_length_prefixed\<close> are what \<open>CBS_get_u16_length_prefixed\<close> returns from the finished
  buffer; a body of \<open>2\<^sup>1\<^sup>6\<close> bytes or more never finishes.
\<close>

theorem u16_prefixed_build_parse:
  assumes "good_alloc al" and "cbb_wf c" and "cbb_written 0 c = Some []" and "length body < 2 ^ 64"
    and "CBB_add_u16_length_prefixed al 0 c = (True, c1)" and "CBB_add_bytes al 1 body c1 = (True, c2)"
    and "CBB_finish al 0 outs c2 = (Some (blk, n), c3)"
  shows "length body < 2 ^ 16 \<and> take n blk = be_bytes 2 (length body) @ body \<and>
    (\<exists>out c'. CBS_get_u16_length_prefixed (CBS_init blk n) = (Some out, c') \<and>
       cbs_bytes out = body \<and> cbs_bytes c' = [])"
proof -
  have "cbb_add_length_prefixed al 0 2 c = (True, c1)" using assms(5) by (simp add: CBB_add_u16_length_prefixed_def)
  from cbb_add_length_prefixed_opens [OF assms(1,2) _ this] have o: "opens 0 2 False [] c True c1" by simp
  then obtain bs where o': "cbb_wf c1" "cbb_written (Suc 0) c1 = Some [0, 0]" "children c1 =
      [\<lparr>offset = 0, pending_len_len = 2, pending_is_asn1 = False\<rparr>]"
    using assms(3) by (auto simp: opens_def numeral_2_eq_2)
  from add_bytes.wr_writes [OF assms(1) o'(1) assms(4) assms(6)] o'
  have c2: "cbb_wf c2" "cbb_written (Suc 0) c2 = Some ([] @ replicate 2 0 @ body)" "children c2 = children c1"
    by (auto simp: writes_def numeral_2_eq_2)
  note fin = CBB_finish_laws [OF assms(1) c2(1) assms(7)]
  have "cbb_written 0 c2 = map_option (\<lambda>p. p @ body) (len_prefix (children c2 ! 0) (length body))"
    using cbb_written_prefixed [OF c2(2), of False] c2(3) o'(3) by simp
  with fin(2) c2(3) o'(3) have t: "length body < 256 ^ 2" "take n blk = be_bytes 2 (length body) @ body"
    by (auto simp: len_prefix_def split: if_splits)
  have "cbs_ok (CBS_init blk n)" "cbs_bytes (CBS_init blk n) = be_bytes 2 (length body) @ body @ []"
    using fin t by (simp_all add: cbs_ok_def cbs_bytes_def)
  from cbs_get_length_prefixed_append [OF this(1) _ t(1) this(2)] t show ?thesis
    by (auto simp: CBS_get_u16_length_prefixed_def)
qed

section \<open>Object identifiers and SET OF\<close>

text \<open>
  C7. \<open>CBB_add_asn1_oid_from_text\<close> succeeds only on the dotted decimal text of a valid identifier (at
  least two components, the first at most 2, no leading zeros, everything in range), and what it then
  appends is the DER encoding of that identifier.
\<close>

theorem oid_from_text_exact:
  assumes "good_alloc al" and "cbb_wf c"
    and "CBB_add_asn1_oid_from_text al d text (length text) c = (True, c1)"
  shows "\<exists>ns bs. oid_valid ns \<and> text = dotted ns \<and> cbb_written d c = Some bs \<and>
    cbb_written d c1 = Some (bs @ oid_der ns)"
proof -
  have "cbs_ok (CBS_init text (length text))" by (simp add: cbs_ok_def)
  from oid_from_text_succeeds_only [OF this assms(3)] obtain ns where ns: "oid_valid ns" "text = dotted ns"
    by auto
  with oid_from_text_valid [OF assms(1,2) ns(1) refl] assms(3) show ?thesis by (fastforce simp: writes_def)
qed

definition rsa_text :: "byte list" where  \<comment> \<open>\<open>1.2.840\<close>\<close>
  "rsa_text = [0x31, 0x2e, 0x32, 0x2e, 0x38, 0x34, 0x30]"

definition rsa_built :: cbb where
  "rsa_built = \<lparr>base = Some \<lparr>buf = [0x2a, 0x86, 0x48, 0], blen = 3, cap = 4, can_resize = True, err = False\<rparr>,
     children = []\<rparr>"

lemma rsa_run: "CBB_add_asn1_oid_from_text zero_alloc 0 rsa_text (length rsa_text) (fresh 4) = (True, rsa_built)"
  by code_simp

theorem oid_from_text_exact_witness:
  "\<exists>ns. oid_valid ns \<and> rsa_text = dotted ns \<and> cbb_written 0 rsa_built = Some (oid_der ns)"
  using oid_from_text_exact [OF good_zero_alloc _ rsa_run] fresh_laws [of 4] by auto

text \<open>
  C8. \<open>CBS_asn1_oid_to_text\<close> returns a text only for the DER encoding of a valid identifier, and the
  text is the dotted decimal one, NUL terminated.
\<close>

theorem oid_to_text_exact:
  assumes "good_alloc al" and "cbs_ok c" and "CBS_asn1_oid_to_text al base_ok c = Some str"
  shows "\<exists>ns slack. oid_valid ns \<and> cbs_bytes c = oid_der ns \<and> str = dotted ns @ 0 # slack"
  using oid_to_text_sound [OF assms] by blast

lemma rsa_to_text:
  "CBS_asn1_oid_to_text zero_alloc True (CBS_init [0x2a, 0x86, 0x48] 3) = Some (rsa_text @ 0 # replicate 24 0)"
  by code_simp

theorem oid_to_text_exact_witness:
  "\<exists>ns slack. oid_valid ns \<and> [0x2a, 0x86, 0x48] = oid_der ns \<and>
     rsa_text @ 0 # replicate 24 0 = dotted ns @ 0 # slack"
  using oid_to_text_exact [OF good_zero_alloc _ rsa_to_text] by (simp add: cbs_ok_def cbs_bytes_def)

text \<open>
  C9. Text to encoding to text: when an identifier is written from its text, the builder is
  finished, and the buffer is printed, the printed C string is the original text.
\<close>

theorem oid_text_round_trip:
  assumes "good_alloc al" and "cbb_wf c" and "cbb_written 0 c = Some []"
    and "CBB_add_asn1_oid_from_text al 0 text (length text) c = (True, c1)"
    and "CBB_finish al 0 outs c1 = (Some (blk, n), c2)"
    and "CBS_asn1_oid_to_text al base_ok (CBS_init blk n) = Some str"
  shows "\<exists>slack. str = text @ 0 # slack"
proof -
  have "cbs_ok (CBS_init text (length text))" by (simp add: cbs_ok_def)
  from oid_from_text_succeeds_only [OF this assms(4)] obtain ns where ns: "oid_valid ns" "text = dotted ns"
    by auto
  from oid_from_text_valid [OF assms(1,2) ns(1) refl assms(4) [unfolded ns(2)]] assms(3)
  have c1: "cbb_wf c1" "cbb_written 0 c1 = Some (oid_der ns)" by (auto simp: writes_def)
  note fin = CBB_finish_laws [OF assms(1) c1(1) assms(5)]
  then have s: "cbs_ok (CBS_init blk n)" "cbs_bytes (CBS_init blk n) = oid_der ns"
    using c1(2) by (simp_all add: cbs_ok_def cbs_bytes_def)
  from oid_to_text_sound [OF assms(1) s(1) assms(6)] s(2) obtain ms slack where
    "oid_valid ms" "oid_der ns = oid_der ms" "str = dotted ms @ 0 # slack" by auto
  with oid_der_inj [OF ns(1)] ns(2) show ?thesis by auto
qed

lemma rsa_finish:
  "CBB_finish zero_alloc 0 True rsa_built = (Some ([0x2a, 0x86, 0x48, 0], 3), \<lparr>base = None, children = []\<rparr>)"
  by code_simp

lemma rsa_to_text_block:
  "CBS_asn1_oid_to_text zero_alloc True (CBS_init [0x2a, 0x86, 0x48, 0] 3) = Some (rsa_text @ 0 # replicate 24 0)"
  by code_simp

theorem oid_text_round_trip_witness:
  "\<exists>slack. rsa_text @ 0 # replicate 24 (0 :: byte) = rsa_text @ 0 # slack"
  using oid_text_round_trip [OF good_zero_alloc _ _ rsa_run rsa_finish rsa_to_text_block] fresh_laws [of 4]
  by simp

text \<open>
  C10. \<open>CBB_flush_asn1_set_of\<close> succeeds only when the bytes of the \<open>CBB\<close> are a sequence of DER
  elements, and it then leaves exactly these elements, sorted in ascending order of their encodings;
  everything in front of the \<open>CBB\<close> is kept.
\<close>

theorem set_of_sorted:
  assumes "good_alloc al" and "cbb_wf c" and "CBB_flush_asn1_set_of al d c = (True, c1)"
  shows "\<exists>bs es. cbb_written d c = Some bs \<and> drop (cbb_start d c) bs = concat es \<and>
    (\<forall>e \<in> set es. is_element e) \<and> cbb_wf c1 \<and>
    (\<exists>fs. cbb_written d c1 = Some (take (cbb_start d c) bs @ concat fs) \<and> sorted fs \<and> mset fs = mset es)"
proof -
  from CBB_flush_asn1_set_of_laws [OF assms] obtain bs es where
    e: "cbb_written d c = Some bs" "drop (cbb_start d c) bs = concat es" "\<forall>e \<in> set es. is_element e"
      "cbb_wf c1" "cbb_written d c1 = Some (take (cbb_start d c) bs @ concat (sort es))" by blast
  have "sorted (sort es) \<and> mset (sort es) = mset es" by simp
  with e show ?thesis by blast
qed

definition unsorted :: cbb where
  "unsorted = \<lparr>base = Some \<lparr>buf = [5, 1, 9, 4, 1, 7], blen = 6, cap = 6, can_resize = False, err = False\<rparr>,
     children = []\<rparr>"

theorem set_of_sorted_witness:
  "\<exists>es fs. [5, 1, 9, 4, 1, 7] = concat es \<and> (\<forall>e \<in> set es. is_element e) \<and>
     ([4, 1, 7, 5, 1, 9] :: byte list) = concat fs \<and> sorted fs \<and> mset fs = mset es"
proof -
  let ?c1 = "\<lparr>base = Some \<lparr>buf = [4, 1, 7, 5, 1, 9], blen = 6, cap = 6, can_resize = False, err = False\<rparr>,
     children = []\<rparr>"
  have 1: "CBB_flush_asn1_set_of zero_alloc 0 unsorted = (True, ?c1)" by code_simp
  have 2: "cbb_wf unsorted" by (simp add: unsorted_def cbb_wf_def buffer_ok_def)
  from set_of_sorted [OF good_zero_alloc 2 1] show ?thesis
    by (auto simp: unsorted_def cbb_written_def cbb_start_def content_def)
qed

end
